(* ===== verification/Prelude.thy ===== *)
theory Prelude
  imports Main "HOL-Library.Word" "HOL-Library.Monad_Syntax" "HOL-Library.Code_Target_Nat"
begin

text \<open>
  Shared vocabulary of the development: the machine integers of the storage engine, the byte
  buffers its encoders write and its decoders read (the \<open>put_*\<close> and \<open>get_*\<close> calls of the
  buffer interface), checked slicing and checked subtraction, and the generic lemmas on lists,
  options and words that the component theories rely on.

  A Rust panic (a failed assertion, an index or a slice out of range, an arithmetic underflow
  with overflow checks on) is the value \<open>None\<close> of an option result; the do-notation of the option
  monad propagates it. Errors that the code returns as values are the left injections of a sum.
\<close>

unbundle bit_operations_syntax

named_theorems list_arith \<open>length, take and drop facts for batches and slices\<close>
named_theorems iter_simps \<open>defining equations of block iterators and builders\<close>

type_synonym byte = "8 word"
type_synonym u16 = "16 word"
type_synonym u32 = "32 word"
type_synonym u64 = "64 word"
type_synonym u128 = "128 word"

section \<open>Checked access\<close>

definition slice_range :: "nat \<Rightarrow> nat \<Rightarrow> 'a list \<Rightarrow> 'a list option" where
  "slice_range a b xs = (if a \<le> b \<and> b \<le> length xs then Some (take (b - a) (drop a xs)) else None)"

definition slice_from :: "nat \<Rightarrow> 'a list \<Rightarrow> 'a list option" where
  "slice_from a xs = slice_range a (length xs) xs"

definition index_at :: "'a list \<Rightarrow> nat \<Rightarrow> 'a option" where
  "index_at xs i = (if i < length xs then Some (xs ! i) else None)"

definition checked_sub :: "nat \<Rightarrow> nat \<Rightarrow> nat option" where
  "checked_sub a b = (if b \<le> a then Some (a - b) else None)"

text \<open>Addition of \<open>u32\<close> counters, with overflow checks on.\<close>

definition checked_add32 :: "nat \<Rightarrow> nat \<Rightarrow> nat option" where
  "checked_add32 a b = (if a + b < 2 ^ 32 then Some (a + b) else None)"

definition rust_assert :: "bool \<Rightarrow> unit option" where
  "rust_assert p = (if p then Some () else None)"

lemma slice_range_eq_Some [simp]:
  "slice_range a b xs = Some ys \<longleftrightarrow> a \<le> b \<and> b \<le> length xs \<and> ys = take (b - a) (drop a xs)"
  by (auto simp: slice_range_def)

lemma slice_from_eq_Some [simp]:
  "slice_from a xs = Some ys \<longleftrightarrow> a \<le> length xs \<and> ys = drop a xs"
  by (auto simp: slice_from_def)

lemma index_at_eq_Some [simp]: "index_at xs i = Some x \<longleftrightarrow> i < length xs \<and> x = xs ! i"
  by (auto simp: index_at_def)

lemma checked_sub_eq_Some [simp]: "checked_sub a b = Some c \<longleftrightarrow> b \<le> a \<and> c = a - b"
  by (auto simp: checked_sub_def)

lemma rust_assert_eq_Some [simp]: "rust_assert p = Some u \<longleftrightarrow> p"
  by (auto simp: rust_assert_def)

lemma slice_range_append:
  "slice_range (length xs) (length xs + length ys) (xs @ ys @ zs) = Some ys"
  by simp

section \<open>Byte buffers\<close>

text \<open>
  \<open>le_bytes n w\<close> is what \<open>put_*_le\<close> appends for an \<open>n\<close>-byte integer, \<open>be_bytes n w\<close> what the
  big-endian \<open>put_*\<close> appends; \<open>get_le\<close> and \<open>get_be\<close> read them back and panic on a short buffer.
\<close>

fun le_bytes :: "nat \<Rightarrow> 'a::len word \<Rightarrow> byte list" where
  "le_bytes 0 w = []"
| "le_bytes (Suc n) w = ucast w # le_bytes n (drop_bit 8 w)"

fun le_word :: "byte list \<Rightarrow> 'a::len word" where
  "le_word [] = 0"
| "le_word (b # bs) = ucast b OR push_bit 8 (le_word bs)"

definition be_bytes :: "nat \<Rightarrow> 'a::len word \<Rightarrow> byte list" where
  "be_bytes n w = rev (le_bytes n w)"

definition be_word :: "byte list \<Rightarrow> 'a::len word" where
  "be_word bs = le_word (rev bs)"

definition get_le :: "nat \<Rightarrow> byte list \<Rightarrow> ('a::len word \<times> byte list) option" where
  "get_le n buf = (if length buf < n then None else Some (le_word (take n buf), drop n buf))"

definition get_be :: "nat \<Rightarrow> byte list \<Rightarrow> ('a::len word \<times> byte list) option" where
  "get_be n buf = (if length buf < n then None else Some (be_word (take n buf), drop n buf))"

lemma length_le_bytes [simp]: "length (le_bytes n w) = n"
  by (induction n arbitrary: w) auto

lemma length_be_bytes [simp]: "length (be_bytes n w) = n"
  by (simp add: be_bytes_def)

lemma le_word_le_bytes: "le_word (le_bytes n w) = take_bit (8 * n) (w :: 'a::len word)"
proof (induction n arbitrary: w)
  case 0
  then show ?case by simp
next
  case (Suc n)
  have "ucast (ucast w :: byte) OR push_bit 8 (take_bit (8 * n) (drop_bit 8 w))
      = take_bit (8 * Suc n) w"
    by (rule bit_word_eqI) (auto simp: bit_simps)
  with Suc.IH show ?case by simp
qed

lemma bit_le_word: "bit (le_word bs :: 'a::len word) k \<Longrightarrow> k < 8 * length bs"
proof (induction bs arbitrary: k)
  case Nil
  then show ?case by simp
next
  case (Cons b bs)
  then show ?case by (fastforce simp: bit_simps dest: bit_imp_le_length)
qed

lemma le_bytes_le_word:
  "length bs = n \<Longrightarrow> 8 * n \<le> LENGTH('a) \<Longrightarrow> le_bytes n (le_word bs :: 'a::len word) = bs"
proof (induction n arbitrary: bs)
  case 0
  then show ?case by simp
next
  case (Suc n)
  then obtain b cs where bs: "bs = b # cs" and cs: "length cs = n"
    by (cases bs) auto
  have hd: "ucast (ucast b OR push_bit 8 (le_word cs :: 'a word)) = b"
    by (rule bit_word_eqI) (use Suc.prems in \<open>auto simp: bit_simps\<close>)
  have tl: "drop_bit 8 (ucast b OR push_bit 8 (le_word cs :: 'a word)) = le_word cs"
  proof (rule bit_word_eqI)
    fix k
    have "bit (le_word cs :: 'a word) k \<Longrightarrow> k + 8 < LENGTH('a)"
      using bit_le_word [of cs k, where 'a = 'a] Suc.prems cs by simp
    then show "bit (drop_bit 8 (ucast b OR push_bit 8 (le_word cs :: 'a word))) k
        = bit (le_word cs :: 'a word) k"
      by (auto simp: bit_simps add.commute dest: bit_imp_le_length)
  qed
  have "le_bytes n (le_word cs :: 'a word) = cs"
    using Suc.prems cs by (intro Suc.IH) auto
  then show ?case by (simp only: bs le_bytes.simps le_word.simps hd tl)
qed

lemma get_le_append [simp]:
  assumes "LENGTH('a) \<le> 8 * n"
  shows "get_le n (le_bytes n (w :: 'a::len word) @ rest) = Some (w, rest)"
proof -
  have "take_bit (8 * n) w = w"
    by (rule bit_word_eqI) (use assms in \<open>auto simp: bit_simps\<close>)
  then show ?thesis by (simp add: get_le_def le_word_le_bytes)
qed

lemma get_be_append [simp]:
  assumes "LENGTH('a) \<le> 8 * n"
  shows "get_be n (be_bytes n (w :: 'a::len word) @ rest) = Some (w, rest)"
proof -
  have "take_bit (8 * n) w = w"
    by (rule bit_word_eqI) (use assms in \<open>auto simp: bit_simps\<close>)
  then show ?thesis by (simp add: get_be_def be_word_def be_bytes_def le_word_le_bytes)
qed

lemma get_le_only [simp]:
  "LENGTH('a) \<le> 8 * n \<Longrightarrow> get_le n (le_bytes n (w :: 'a::len word)) = Some (w, [])"
  using get_le_append [of n w "[]"] by simp

lemma get_be_only [simp]:
  "LENGTH('a) \<le> 8 * n \<Longrightarrow> get_be n (be_bytes n (w :: 'a::len word)) = Some (w, [])"
  using get_be_append [of n w "[]"] by simp

lemma unat_of_nat_small [simp]: "n < 2 ^ LENGTH('a) \<Longrightarrow> unat (of_nat n :: 'a::len word) = n"
  by (simp add: unat_of_nat)

section \<open>Options and lists\<close>

lemma bind_eq_Some [simp]: "Option.bind m f = Some y \<longleftrightarrow> (\<exists>x. m = Some x \<and> f x = Some y)"
  by (cases m) auto

text \<open>\<open>unwrap\<close> on a result: an error is a panic.\<close>

definition unwrap_ok :: "('e + 'a) option \<Rightarrow> 'a option" where
  "unwrap_ok r = (case r of Some (Inr x) \<Rightarrow> Some x | _ \<Rightarrow> None)"

lemma unwrap_ok_simps [simp]:
  "unwrap_ok (Some (Inr x)) = Some x" "unwrap_ok (Some (Inl e)) = None" "unwrap_ok None = None"
  by (simp_all add: unwrap_ok_def)

lemma unwrap_ok_eq_Some [simp]: "unwrap_ok r = Some x \<longleftrightarrow> r = Some (Inr x)"
  by (auto simp: unwrap_ok_def split: option.splits sum.splits)

fun fold_opt :: "('a \<Rightarrow> 's \<Rightarrow> 's option) \<Rightarrow> 'a list \<Rightarrow> 's \<Rightarrow> 's option" where
  "fold_opt f [] s = Some s"
| "fold_opt f (x # xs) s = do { s' \<leftarrow> f x s; fold_opt f xs s' }"

lemma fold_opt_append: "fold_opt f (xs @ ys) s = do { s' \<leftarrow> fold_opt f xs s; fold_opt f ys s' }"
  by (induction xs arbitrary: s) (auto split: Option.bind_splits)

lemma take_Suc_drop [list_arith]:
  "i < length xs \<Longrightarrow> take n (drop i xs) = (if n = 0 then [] else xs ! i # take (n - 1) (drop (Suc i) xs))"
  by (cases n) (auto simp: Cons_nth_drop_Suc [symmetric])

lemma concat_map_length:
  "\<forall>x\<in>set xs. length (f x) = w \<Longrightarrow> length (concat (map f xs)) = w * length xs"
  by (induction xs) auto

lemma drop_concat_map:
  "\<forall>x\<in>set xs. length (f x) = w \<Longrightarrow> drop (i * w) (concat (map f xs)) = concat (map f (drop i xs))"
proof (induction xs arbitrary: i)
  case Nil
  then show ?case by simp
next
  case (Cons x xs)
  then show ?case by (cases i) auto
qed

text \<open>The results of a comparison, as \<open>std::cmp::Ordering\<close> has them.\<close>

datatype cmp_ordering = Less | Equal | Greater

fun cmp_reverse :: "cmp_ordering \<Rightarrow> cmp_ordering" where
  "cmp_reverse Less = Greater"
| "cmp_reverse Equal = Equal"
| "cmp_reverse Greater = Less"

definition cmp_of :: "'a::linorder \<Rightarrow> 'a \<Rightarrow> cmp_ordering" where
  "cmp_of a b = (if a < b then Less else if a = b then Equal else Greater)"

lemma cmp_of_simps [simp]:
  "cmp_of a b = Less \<longleftrightarrow> a < b" "cmp_of a b = Equal \<longleftrightarrow> a = b" "cmp_of a b = Greater \<longleftrightarrow> b < (a :: 'a::linorder)"
  by (auto simp: cmp_of_def)

lemma cmp_reverse_of [simp]: "cmp_reverse (cmp_of a b) = cmp_of b (a :: 'a::linorder)"
  by (auto simp: cmp_of_def)

text \<open>\<open>select p xs\<close> keeps the elements of \<open>xs\<close> at the positions where \<open>p\<close> is true.\<close>

definition select :: "bool list \<Rightarrow> 'a list \<Rightarrow> 'a list" where
  "select p xs = map snd (filter fst (zip p xs))"

lemma select_Nil [simp]: "select [] xs = []" "select p [] = []"
  by (simp_all add: select_def)

lemma select_Cons [simp]: "select (b # p) (x # xs) = (if b then x # select p xs else select p xs)"
  by (simp add: select_def)

lemma select_all_True: "length p = length xs \<Longrightarrow> \<forall>b\<in>set p. b \<Longrightarrow> select p xs = xs"
  by (induction p xs rule: list_induct2) auto

lemma those_map_Some: "\<forall>x\<in>set xs. f x = Some (g x) \<Longrightarrow> those (map f xs) = Some (map g xs)"
  by (induction xs) auto

lemma those_eq_Some: "those xs = Some ys \<longleftrightarrow> xs = map Some ys"
  by (induction xs arbitrary: ys) (auto split: option.splits)

lemma sorted_le_last: "sorted (xs :: 'a::linorder list) \<Longrightarrow> x \<in> set xs \<Longrightarrow> x \<le> last xs"
  by (induction xs) auto

lemma map_nth_eq: "length xs = n \<Longrightarrow> map ((!) xs) [0..<n] = xs"
  by (auto intro: map_nth)

end
