(* ===== verification/Intervals.thy ===== *)
theory Intervals
  imports Prelude
begin

text \<open>
  The SQL interval type of \<open>src/types/interval.rs\<close>: three signed 32-bit counters (months, days,
  milliseconds). The counters are integers kept in the \<open>i32\<close> range by checked arithmetic: an
  operation that leaves the range is a panic (\<open>None\<close>), as with Rust's overflow checks. Division
  and remainder truncate towards zero, as in Rust.
\<close>

definition i32_range :: "int \<Rightarrow> bool" where
  "i32_range x \<longleftrightarrow> - (2 ^ 31) \<le> x \<and> x < 2 ^ 31"

definition i32_check :: "int \<Rightarrow> int option" where
  "i32_check x = (if i32_range x then Some x else None)"

definition trunc_div :: "int \<Rightarrow> int \<Rightarrow> int" where
  "trunc_div a b = sgn a * sgn b * (\<bar>a\<bar> div \<bar>b\<bar>)"

definition trunc_mod :: "int \<Rightarrow> int \<Rightarrow> int" where
  "trunc_mod a b = a - b * trunc_div a b"

record interval =
  iv_months :: int
  iv_days :: int
  iv_ms :: int

definition interval_ok :: "interval \<Rightarrow> bool" where
  "interval_ok v \<longleftrightarrow> i32_range (iv_months v) \<and> i32_range (iv_days v) \<and> i32_range (iv_ms v)"

definition from_days :: "int \<Rightarrow> interval" where
  "from_days d = \<lparr>iv_months = 0, iv_days = d, iv_ms = 0\<rparr>"

definition from_months :: "int \<Rightarrow> interval" where
  "from_months m = \<lparr>iv_months = m, iv_days = 0, iv_ms = 0\<rparr>"

definition from_years :: "int \<Rightarrow> interval option" where
  "from_years y = do { m \<leftarrow> i32_check (y * 12); Some \<lparr>iv_months = m, iv_days = 0, iv_ms = 0\<rparr> }"

definition from_md :: "int \<Rightarrow> int \<Rightarrow> interval" where
  "from_md m d = \<lparr>iv_months = m, iv_days = d, iv_ms = 0\<rparr>"

definition from_secs :: "int \<Rightarrow> interval option" where
  "from_secs s = do { k \<leftarrow> i32_check (s * 1000); Some \<lparr>iv_months = 0, iv_days = 0, iv_ms = k\<rparr> }"

definition years :: "interval \<Rightarrow> int" where
  "years v = trunc_div (iv_months v) 12"

definition months :: "interval \<Rightarrow> int" where
  "months v = trunc_mod (iv_months v) 12"

definition days :: "interval \<Rightarrow> int" where
  "days v = iv_days v"

definition hours :: "interval \<Rightarrow> int" where
  "hours v = trunc_div (trunc_div (trunc_div (iv_ms v) 1000) 60) 60"

definition minutes :: "interval \<Rightarrow> int" where
  "minutes v = trunc_mod (trunc_div (trunc_div (iv_ms v) 1000) 60) 60"

definition seconds :: "interval \<Rightarrow> int" where
  "seconds v = trunc_mod (trunc_div (iv_ms v) 1000) 60"

definition num_months :: "interval \<Rightarrow> int" where
  "num_months v = iv_months v"

definition is_zero :: "interval \<Rightarrow> bool" where
  "is_zero v \<longleftrightarrow> iv_months v = 0 \<and> iv_days v = 0 \<and> iv_ms v = 0"

definition is_positive :: "interval \<Rightarrow> bool" where
  "is_positive v \<longleftrightarrow> iv_months v \<ge> 0 \<and> iv_days v \<ge> 0 \<and> iv_ms v \<ge> 0 \<and> \<not> is_zero v"

definition day_ms :: int where
  "day_ms = 1000 * 60 * 60 * 24"

definition interval_add :: "interval \<Rightarrow> interval \<Rightarrow> interval option" where
  "interval_add v w = do {
     m \<leftarrow> i32_check (iv_months v + iv_months w);
     d \<leftarrow> i32_check (iv_days v + iv_days w);
     ms \<leftarrow> i32_check (iv_ms v + iv_ms w);
     d \<leftarrow> i32_check (d + trunc_div ms day_ms);
     Some \<lparr>iv_months = m, iv_days = d, iv_ms = trunc_mod ms day_ms\<rparr> }"

definition interval_neg :: "interval \<Rightarrow> interval option" where
  "interval_neg v = do {
     m \<leftarrow> i32_check (- iv_months v);
     d \<leftarrow> i32_check (- iv_days v);
     ms \<leftarrow> i32_check (- iv_ms v);
     Some \<lparr>iv_months = m, iv_days = d, iv_ms = ms\<rparr> }"

definition interval_sub :: "interval \<Rightarrow> interval \<Rightarrow> interval option" where
  "interval_sub v w = do { w' \<leftarrow> interval_neg w; interval_add v w' }"

fun interval_sum :: "interval list \<Rightarrow> interval \<Rightarrow> interval option" where
  "interval_sum [] acc = Some acc"
| "interval_sum (v # vs) acc = do { acc' \<leftarrow> interval_add acc v; interval_sum vs acc' }"

lemma i32_check_eq_Some [simp]: "i32_check x = Some y \<longleftrightarrow> i32_range x \<and> y = x"
  by (auto simp: i32_check_def)

lemma trunc_div_mod: "b * trunc_div a b + trunc_mod a b = a"
  by (simp add: trunc_mod_def)

lemma trunc_mod_eq: "trunc_mod a b = sgn a * (\<bar>a\<bar> mod \<bar>b\<bar>)"
proof -
  have "a = sgn a * \<bar>a\<bar>" and "b = sgn b * \<bar>b\<bar>" by (simp_all add: sgn_mult_abs)
  then have "b * (sgn a * sgn b * (\<bar>a\<bar> div \<bar>b\<bar>)) = sgn a * (\<bar>b\<bar> * (\<bar>a\<bar> div \<bar>b\<bar>))"
    by (cases "b = 0") (auto simp: sgn_if)
  then have "trunc_mod a b = sgn a * (\<bar>a\<bar> - \<bar>b\<bar> * (\<bar>a\<bar> div \<bar>b\<bar>))"
    unfolding trunc_mod_def trunc_div_def
    by (simp add: right_diff_distrib sgn_mult_abs)
  then show ?thesis by (simp add: minus_mult_div_eq_mod)
qed

lemma trunc_mod_bound: "b \<noteq> 0 \<Longrightarrow> \<bar>trunc_mod a b\<bar> < \<bar>b\<bar>"
  by (auto simp: trunc_mod_eq abs_mult sgn_if)

lemma abs_trunc_mod_le: "\<bar>trunc_mod a b\<bar> \<le> \<bar>a\<bar>"
proof (cases "b = 0")
  case True
  then show ?thesis by (simp add: trunc_mod_eq abs_mult sgn_if)
next
  case False
  then show ?thesis by (auto simp: trunc_mod_eq abs_mult sgn_if intro: zmod_le_nonneg_dividend)
qed

lemma years_months: "12 * years v + months v = iv_months v"
  by (simp add: years_def months_def trunc_div_mod)

lemma months_bound: "- 12 < months v \<and> months v < 12"
  using trunc_mod_bound [of 12 "iv_months v"] by (auto simp: months_def)

text \<open>
  Interval addition keeps the total time: when it does not overflow, the months add up, and
  the days and milliseconds of the result, taken together in milliseconds, are those of the
  operands, with the milliseconds reduced below one day in absolute value.
\<close>

theorem interval_add_total:
  assumes "interval_add v w = Some r"
  shows "iv_months r = iv_months v + iv_months w
    \<and> iv_days r * day_ms + iv_ms r
        = (iv_days v + iv_days w) * day_ms + (iv_ms v + iv_ms w)
    \<and> \<bar>iv_ms r\<bar> < day_ms \<and> interval_ok r"
proof -
  let ?ms = "iv_ms v + iv_ms w"
  have split: "day_ms * trunc_div ?ms day_ms + trunc_mod ?ms day_ms = ?ms"
    by (rule trunc_div_mod)
  have bound: "\<bar>trunc_mod ?ms day_ms\<bar> < day_ms"
    using trunc_mod_bound [of day_ms ?ms] by (simp add: day_ms_def)
  then have "i32_range (trunc_mod ?ms day_ms)"
    by (auto simp: i32_range_def day_ms_def)
  with assms split bound show ?thesis
    by (auto simp: interval_add_def interval_ok_def algebra_simps)
qed

theorem interval_add_total_witness:
  "\<exists>r. interval_add \<lparr>iv_months = 1, iv_days = 2, iv_ms = 86000000\<rparr>
                    \<lparr>iv_months = 0, iv_days = 0, iv_ms = 86000000\<rparr> = Some r
     \<and> iv_days r * day_ms + iv_ms r = 2 * day_ms + 172000000"
proof -
  let ?v = "\<lparr>iv_months = 1, iv_days = 2, iv_ms = 86000000\<rparr> :: interval"
  let ?w = "\<lparr>iv_months = 0, iv_days = 0, iv_ms = 86000000\<rparr> :: interval"
  have "interval_add ?v ?w = Some \<lparr>iv_months = 1, iv_days = 3, iv_ms = 85600000\<rparr>"
    by code_simp
  from this interval_add_total [OF this] show ?thesis by simp
qed

end
