(* ===== verification/Codec.thy ===== *)
theory Codec
  imports Intervals
begin

text \<open>
  Fixed-width value encodings of \<open>src/storage/secondary/encode.rs\<close>. The trait
  \<open>PrimitiveFixedWidthEncode\<close> is the record \<open>fixed_width\<close>, a dictionary that the generic block
  builders and iterators take as an argument, with one dictionary per implementing type. An
  encoder returns the bytes it appends to the buffer; a decoder returns the value and the rest of
  the buffer and panics on a short one. The locale \<open>fixed_width_law\<close> states what the generic code
  relies on; it is interpreted for every dictionary below.

  Integers are the words of their width (\<open>i16\<close>, \<open>i32\<close> and \<open>i64\<close> by their two's complement bit
  patterns), a float is its IEEE bit pattern, and the decimal type is a parameter with its
  16-byte serialisation, since the decimal package is not part of the repository.
\<close>

record 'a fixed_width =
  WIDTH :: nat
  DEFAULT_VALUE :: 'a
  encode :: "'a \<Rightarrow> byte list"
  decode :: "byte list \<Rightarrow> ('a \<times> byte list) option"

definition bool_codec :: "bool fixed_width" where
  "bool_codec = \<lparr>WIDTH = 1, DEFAULT_VALUE = False,
     encode = (\<lambda>b. [if b then 1 else 0]),
     decode = (\<lambda>buf. do { (w :: byte, rest) \<leftarrow> get_le 1 buf; Some (w \<noteq> 0, rest) })\<rparr>"

definition i16_codec :: "u16 fixed_width" where
  "i16_codec = \<lparr>WIDTH = 2, DEFAULT_VALUE = 0, encode = le_bytes 2, decode = get_le 2\<rparr>"

definition i32_codec :: "u32 fixed_width" where
  "i32_codec = \<lparr>WIDTH = 4, DEFAULT_VALUE = 0, encode = le_bytes 4, decode = get_le 4\<rparr>"

definition i64_codec :: "u64 fixed_width" where
  "i64_codec = \<lparr>WIDTH = 8, DEFAULT_VALUE = 0, encode = le_bytes 8, decode = get_le 8\<rparr>"

definition f64_codec :: "u64 fixed_width" where
  "f64_codec = \<lparr>WIDTH = 8, DEFAULT_VALUE = 0, encode = le_bytes 8, decode = get_le 8\<rparr>"

definition decimal_codec :: "('d \<Rightarrow> byte list) \<Rightarrow> (byte list \<Rightarrow> 'd) \<Rightarrow> 'd \<Rightarrow> 'd fixed_width" where
  "decimal_codec serialize deserialize zero = \<lparr>WIDTH = 16, DEFAULT_VALUE = zero,
     encode = (\<lambda>d. le_bytes 16 (le_word (serialize d) :: u128)),
     decode = (\<lambda>buf. do { (w :: u128, rest) \<leftarrow> get_le 16 buf;
                          Some (deserialize (le_bytes 16 w), rest) })\<rparr>"

definition date_codec :: "u32 fixed_width" where
  "date_codec = \<lparr>WIDTH = 4, DEFAULT_VALUE = 0, encode = be_bytes 4, decode = get_be 4\<rparr>"

definition timestamp_codec :: "u64 fixed_width" where
  "timestamp_codec = \<lparr>WIDTH = 8, DEFAULT_VALUE = 0, encode = be_bytes 8, decode = get_be 8\<rparr>"

definition timestamp_tz_codec :: "u64 fixed_width" where
  "timestamp_tz_codec = \<lparr>WIDTH = 8, DEFAULT_VALUE = 0, encode = be_bytes 8, decode = get_be 8\<rparr>"

definition interval_codec :: "interval fixed_width" where
  "interval_codec = \<lparr>WIDTH = 4 + 4, DEFAULT_VALUE = from_days 0,
     encode = (\<lambda>v. be_bytes 4 (word_of_int (num_months v) :: u32)
                 @ be_bytes 4 (word_of_int (days v) :: u32)),
     decode = (\<lambda>buf. do {
        (m :: u32, rest) \<leftarrow> get_be 4 buf;
        (d :: u32, rest) \<leftarrow> get_be 4 rest;
        Some (from_md (sint m) (sint d), rest) })\<rparr>"

text \<open>The contract the generic code relies on; \<open>ok\<close> restricts the values that survive.\<close>

locale fixed_width_law =
  fixes C :: "'a fixed_width" and ok :: "'a \<Rightarrow> bool"
  assumes width_pos: "0 < WIDTH C"
    and length_encode [simp]: "length (encode C x) = WIDTH C"
    and decode_encode: "ok x \<Longrightarrow> decode C (encode C x @ rest) = Some (x, rest)"
    and ok_default: "ok (DEFAULT_VALUE C)"
begin

lemma decode_nth:
  assumes "\<forall>x\<in>set xs. ok x" and "i < length xs"
  shows "decode C (drop (i * WIDTH C) (concat (map (encode C) xs)))
    = Some (xs ! i, drop (Suc i * WIDTH C) (concat (map (encode C) xs)))"
proof -
  have len: "\<forall>x\<in>set xs. length (encode C x) = WIDTH C" by simp
  have eq: "drop j (concat (map (encode C) xs)) = concat (map (encode C) (drop k xs))"
    if "j = k * WIDTH C" for j k
    using drop_concat_map [OF len] that by simp
  have "drop i xs = xs ! i # drop (Suc i) xs"
    using assms(2) by (simp add: Cons_nth_drop_Suc)
  then have "drop (i * WIDTH C) (concat (map (encode C) xs))
      = encode C (xs ! i) @ drop (Suc i * WIDTH C) (concat (map (encode C) xs))"
    by (simp add: eq [OF refl] del: mult_Suc)
  with assms show ?thesis by (simp add: decode_encode)
qed

lemma length_encode_all [simp]: "length (concat (map (encode C) xs)) = length xs * WIDTH C"
  using concat_map_length [of xs "encode C" "WIDTH C"] by simp

end

interpretation bool_law: fixed_width_law bool_codec "\<lambda>_. True"
  by unfold_locales (auto simp: bool_codec_def get_le_def)

interpretation i16_law: fixed_width_law i16_codec "\<lambda>_. True"
  by unfold_locales (auto simp: i16_codec_def)

interpretation i32_law: fixed_width_law i32_codec "\<lambda>_. True"
  by unfold_locales (auto simp: i32_codec_def)

interpretation i64_law: fixed_width_law i64_codec "\<lambda>_. True"
  by unfold_locales (auto simp: i64_codec_def)

interpretation f64_law: fixed_width_law f64_codec "\<lambda>_. True"
  by unfold_locales (auto simp: f64_codec_def)

interpretation date_law: fixed_width_law date_codec "\<lambda>_. True"
  by unfold_locales (auto simp: date_codec_def)

interpretation timestamp_law: fixed_width_law timestamp_codec "\<lambda>_. True"
  by unfold_locales (auto simp: timestamp_codec_def)

interpretation timestamp_tz_law: fixed_width_law timestamp_tz_codec "\<lambda>_. True"
  by unfold_locales (auto simp: timestamp_tz_codec_def)

lemma sint_of_i32: "i32_range x \<Longrightarrow> sint (word_of_int x :: u32) = x"
  by (simp add: i32_range_def sint_sbintrunc' signed_take_bit_int_eq_self)

lemma decode_encode_interval:
  assumes "interval_ok v"
  shows "decode interval_codec (encode interval_codec v @ rest)
    = Some (from_md (iv_months v) (iv_days v), rest)"
  using assms
  by (simp add: interval_codec_def interval_ok_def num_months_def days_def sint_of_i32)

interpretation interval_law: fixed_width_law interval_codec "\<lambda>v. interval_ok v \<and> iv_ms v = 0"
proof unfold_locales
  show "decode interval_codec (encode interval_codec v @ rest) = Some (v, rest)"
    if "interval_ok v \<and> iv_ms v = 0" for v rest
    using decode_encode_interval [of v rest] that by (simp add: from_md_def)
qed (auto simp: interval_codec_def from_days_def interval_ok_def i32_range_def)

text \<open>
  The decimal encoding round trips for any decimal package whose 16-byte serialisation does:
  the bytes pass through a little-endian 128-bit integer on both sides unchanged, and the rest of
  the buffer is left alone.
\<close>

theorem decimal_roundtrip:
  assumes "\<And>d. length (serialize d) = 16"
    and "\<And>d. deserialize (serialize d) = d"
  shows "decode (decimal_codec serialize deserialize zero)
      (encode (decimal_codec serialize deserialize zero) x @ rest) = Some (x, rest)"
proof -
  have id: "le_bytes 16 (le_word (serialize x) :: u128) = serialize x"
    using assms(1) by (simp add: le_bytes_le_word)
  have "get_le 16 (le_bytes 16 (le_word (serialize x) :: u128) @ rest)
      = Some (le_word (serialize x) :: u128, rest)"
    by simp
  then show ?thesis
    by (simp add: decimal_codec_def assms(2) id del: get_le_append)
qed

theorem decimal_roundtrip_witness:
  "decode (decimal_codec (le_bytes 16 :: u128 \<Rightarrow> byte list) le_word 0)
     (encode (decimal_codec (le_bytes 16) le_word 0) (12345 :: u128) @ [7, 8])
   = Some (12345, [7, 8])"
proof (rule decimal_roundtrip)
  show "length (le_bytes 16 d) = 16" for d :: u128
    by simp
  show "le_word (le_bytes 16 d) = d" for d :: u128
    by (rule bit_word_eqI) (simp add: le_word_le_bytes bit_simps)
qed

text \<open>
  Storing an interval keeps its months and days and drops its milliseconds: what the column
  returns for an interval with a time-of-day part is not what was written.
\<close>

theorem interval_codec_drops_ms:
  assumes "interval_ok v"
  shows "decode interval_codec (encode interval_codec v @ rest) = Some (v\<lparr>iv_ms := 0\<rparr>, rest)"
  using decode_encode_interval [OF assms, of rest] by (simp add: from_md_def)

theorem interval_codec_drops_ms_witness:
  "decode interval_codec (encode interval_codec \<lparr>iv_months = 1, iv_days = 2, iv_ms = 3000\<rparr> @ [])
   = Some (\<lparr>iv_months = 1, iv_days = 2, iv_ms = 0\<rparr>, [])"
proof -
  have "interval_ok \<lparr>iv_months = 1, iv_days = 2, iv_ms = 3000\<rparr>"
    by (simp add: interval_ok_def i32_range_def)
  from interval_codec_drops_ms [OF this, of "[]"] show ?thesis by simp
qed

text \<open>
  Every other fixed-width encoding is lossless: boolean, the three integer widths, float,
  date and both timestamps decode to the value that was encoded and leave the rest of the buffer.
\<close>

theorem fixed_width_roundtrip:
  "decode bool_codec (encode bool_codec b @ rest) = Some (b, rest)
   \<and> decode i16_codec (encode i16_codec s @ rest) = Some (s, rest)
   \<and> decode i32_codec (encode i32_codec i @ rest) = Some (i, rest)
   \<and> decode i64_codec (encode i64_codec l @ rest) = Some (l, rest)
   \<and> decode f64_codec (encode f64_codec f @ rest) = Some (f, rest)
   \<and> decode date_codec (encode date_codec d @ rest) = Some (d, rest)
   \<and> decode timestamp_codec (encode timestamp_codec t @ rest) = Some (t, rest)
   \<and> decode timestamp_tz_codec (encode timestamp_tz_codec z @ rest) = Some (z, rest)"
  by (intro conjI bool_law.decode_encode i16_law.decode_encode i32_law.decode_encode
      i64_law.decode_encode f64_law.decode_encode date_law.decode_encode
      timestamp_law.decode_encode timestamp_tz_law.decode_encode TrueI)

end
