(* ===== verification/Arrays.thy ===== *)
theory Arrays
  imports Prelude
begin

text \<open>
  Column arrays and their builders (\<open>src/array\<close>). An array is a validity bitmap with the raw
  values: \<open>PrimitiveArray\<close> keeps them one by one, \<open>VarArray\<close> keeps one flat buffer with the end
  offsets, \<open>ChunkedArray\<close> one flat buffer with a common element length. A builder has the fields
  of its array, so one record serves both; \<open>take\<close> returns the array and resets the builder. The
  parameter \<open>d\<close> of the primitive operations is the element type's \<open>Default\<close>.

  The locale \<open>array_builder\<close> is the interface the block iterators rely on (pushing optional values
  one at a time); it is interpreted for the primitive and the variable-length builder, so both
  refine the list of optional values that \<open>items\<close> reads off.
\<close>

section \<open>Primitive arrays\<close>

record 'a array =
  ar_valid :: "bool list"
  ar_data :: "'a list"

definition pa_new :: "'a array" where
  "pa_new = \<lparr>ar_valid = [], ar_data = []\<rparr>"

definition pa_extend_from_raw_data :: "'a list \<Rightarrow> 'a array \<Rightarrow> 'a array" where
  "pa_extend_from_raw_data raw b = b\<lparr>ar_data := ar_data b @ raw\<rparr>"

definition pa_extend_from_nulls :: "'a \<Rightarrow> nat \<Rightarrow> 'a array \<Rightarrow> 'a array" where
  "pa_extend_from_nulls d count b = b\<lparr>ar_data := ar_data b @ replicate count d\<rparr>"

definition pa_replace_bitmap :: "bool list \<Rightarrow> 'a array \<Rightarrow> 'a array" where
  "pa_replace_bitmap valid b = b\<lparr>ar_valid := valid\<rparr>"

definition pa_push :: "'a \<Rightarrow> 'a option \<Rightarrow> 'a array \<Rightarrow> 'a array" where
  "pa_push d v b = \<lparr>ar_valid = ar_valid b @ [v \<noteq> None],
     ar_data = ar_data b @ [case v of Some x \<Rightarrow> x | None \<Rightarrow> d]\<rparr>"

definition pa_push_n :: "'a \<Rightarrow> nat \<Rightarrow> 'a option \<Rightarrow> 'a array \<Rightarrow> 'a array" where
  "pa_push_n d n v b = \<lparr>ar_valid = ar_valid b @ replicate n (v \<noteq> None),
     ar_data = ar_data b @ replicate n (case v of Some x \<Rightarrow> x | None \<Rightarrow> d)\<rparr>"

definition pa_append :: "'a array \<Rightarrow> 'a array \<Rightarrow> 'a array" where
  "pa_append other b = \<lparr>ar_valid = ar_valid b @ ar_valid other, ar_data = ar_data b @ ar_data other\<rparr>"

definition pa_take :: "'a array \<Rightarrow> 'a array \<times> 'a array" where
  "pa_take b = (\<lparr>ar_valid = ar_valid b, ar_data = ar_data b\<rparr>, \<lparr>ar_valid = [], ar_data = []\<rparr>)"

definition pa_finish :: "'a array \<Rightarrow> 'a array" where
  "pa_finish b = fst (pa_take b)"

definition pa_len :: "'a array \<Rightarrow> nat" where
  "pa_len a = length (ar_valid a)"

definition pa_is_null :: "'a array \<Rightarrow> nat \<Rightarrow> bool option" where
  "pa_is_null a idx = map_option Not (index_at (ar_valid a) idx)"

definition pa_get_raw :: "'a array \<Rightarrow> nat \<Rightarrow> 'a option" where
  "pa_get_raw a idx = index_at (ar_data a) idx"

definition pa_get :: "'a array \<Rightarrow> nat \<Rightarrow> 'a option option" where
  "pa_get a idx = do {
     null \<leftarrow> pa_is_null a idx;
     if null then Some None else map_option Some (pa_get_raw a idx) }"

definition pa_to_vec :: "'a array \<Rightarrow> 'a option list option" where
  "pa_to_vec a = those (map (pa_get a) [0..<pa_len a])"

fun filter_loop :: "bool list \<Rightarrow> bool list \<Rightarrow> 'a list \<Rightarrow> 'a array \<Rightarrow> 'a array" where
  "filter_loop (p # ps) (v # vs) (x # xs) b =
     filter_loop ps vs xs
       (if p then \<lparr>ar_valid = ar_valid b @ [v], ar_data = ar_data b @ [x]\<rparr> else b)"
| "filter_loop _ _ _ b = b"

definition pa_filter :: "bool list \<Rightarrow> 'a array \<Rightarrow> 'a array option" where
  "pa_filter p a =
     (if length p = pa_len a then Some (filter_loop p (ar_valid a) (ar_data a) pa_new) else None)"

definition pa_slice :: "'a \<Rightarrow> nat \<Rightarrow> nat \<Rightarrow> 'a array \<Rightarrow> 'a array option" where
  "pa_slice d lo hi a = do {
     rust_assert (lo \<le> hi);
     rust_assert (hi \<le> pa_len a);
     vs \<leftarrow> those (map (pa_get a) [lo..<hi]);
     Some (fold (pa_push d) vs pa_new) }"

definition pa_from_iter :: "'a \<Rightarrow> 'a option list \<Rightarrow> 'a array" where
  "pa_from_iter d vs = fold (pa_push d) vs pa_new"

text \<open>The well-formedness of an array and the optional values it stands for.\<close>

definition pa_wf :: "'a array \<Rightarrow> bool" where
  "pa_wf a \<longleftrightarrow> length (ar_valid a) = length (ar_data a)"

definition pa_items :: "'a array \<Rightarrow> 'a option list" where
  "pa_items a = map2 (\<lambda>v x. if v then Some x else None) (ar_valid a) (ar_data a)"

section \<open>Variable-length arrays\<close>

record 'u var_array =
  va_offset :: "nat list"
  va_valid :: "bool list"
  va_data :: "'u list"

definition va_new :: "'u var_array" where
  "va_new = \<lparr>va_offset = [0], va_valid = [], va_data = []\<rparr>"

definition va_extend_from_raw_data :: "'u list list \<Rightarrow> 'u var_array \<Rightarrow> 'u var_array" where
  "va_extend_from_raw_data raws b =
     fold (\<lambda>raw b. b\<lparr>va_data := va_data b @ raw,
                     va_offset := va_offset b @ [length (va_data b @ raw)]\<rparr>) raws b"

definition va_extend_from_nulls :: "nat \<Rightarrow> 'u var_array \<Rightarrow> 'u var_array" where
  "va_extend_from_nulls count b = b\<lparr>va_offset := va_offset b @ replicate count (length (va_data b))\<rparr>"

definition va_replace_bitmap :: "bool list \<Rightarrow> 'u var_array \<Rightarrow> 'u var_array" where
  "va_replace_bitmap valid b = b\<lparr>va_valid := valid\<rparr>"

definition va_push :: "'u list option \<Rightarrow> 'u var_array \<Rightarrow> 'u var_array" where
  "va_push v b =
     (let data = (case v of Some x \<Rightarrow> va_data b @ x | None \<Rightarrow> va_data b)
      in \<lparr>va_offset = va_offset b @ [length data], va_valid = va_valid b @ [v \<noteq> None],
          va_data = data\<rparr>)"

fun va_repeat :: "nat \<Rightarrow> 'u list \<Rightarrow> 'u var_array \<Rightarrow> 'u var_array" where
  "va_repeat 0 x b = b"
| "va_repeat (Suc n) x b = va_repeat n x
     (b\<lparr>va_data := va_data b @ x, va_offset := va_offset b @ [length (va_data b @ x)]\<rparr>)"

definition va_push_n :: "nat \<Rightarrow> 'u list option \<Rightarrow> 'u var_array \<Rightarrow> 'u var_array" where
  "va_push_n n v b =
     (let b = b\<lparr>va_valid := va_valid b @ replicate n (v \<noteq> None)\<rparr>
      in case v of
           Some x \<Rightarrow> va_repeat n x b
         | None \<Rightarrow> b\<lparr>va_offset := va_offset b @ replicate n (length (va_data b))\<rparr>)"

definition va_append :: "'u var_array \<Rightarrow> 'u var_array \<Rightarrow> 'u var_array option" where
  "va_append other b =
     (if va_offset b = [] \<or> va_offset other = [] then None
      else Some \<lparr>va_offset = va_offset b @ map (\<lambda>o'. o' + last (va_offset b)) (tl (va_offset other)),
                 va_valid = va_valid b @ va_valid other, va_data = va_data b @ va_data other\<rparr>)"

definition va_take :: "'u var_array \<Rightarrow> 'u var_array \<times> 'u var_array" where
  "va_take b = (\<lparr>va_offset = va_offset b, va_valid = va_valid b, va_data = va_data b\<rparr>,
                \<lparr>va_offset = [0], va_valid = [], va_data = []\<rparr>)"

definition va_len :: "'u var_array \<Rightarrow> nat" where
  "va_len a = length (va_valid a)"

definition va_is_null :: "'u var_array \<Rightarrow> nat \<Rightarrow> bool option" where
  "va_is_null a idx = map_option Not (index_at (va_valid a) idx)"

definition va_get_raw :: "'u var_array \<Rightarrow> nat \<Rightarrow> 'u list option" where
  "va_get_raw a idx = do {
     from \<leftarrow> index_at (va_offset a) idx;
     to \<leftarrow> index_at (va_offset a) (idx + 1);
     slice_range from to (va_data a) }"

definition va_get :: "'u var_array \<Rightarrow> nat \<Rightarrow> 'u list option option" where
  "va_get a idx = do {
     null \<leftarrow> va_is_null a idx;
     if null then Some None else map_option Some (va_get_raw a idx) }"

definition va_to_vec :: "'u var_array \<Rightarrow> 'u list option list option" where
  "va_to_vec a = those (map (va_get a) [0..<va_len a])"

definition va_filter :: "bool list \<Rightarrow> 'u var_array \<Rightarrow> 'u var_array option" where
  "va_filter p a = do {
     rust_assert (length p = va_len a);
     vs \<leftarrow> those (map (va_get a) (filter (\<lambda>i. p ! i) [0..<length p]));
     Some (fold va_push vs va_new) }"

definition va_from_iter :: "'u list option list \<Rightarrow> 'u var_array" where
  "va_from_iter vs = fold va_push vs va_new"

fun va_cuts :: "'u list \<Rightarrow> nat \<Rightarrow> nat list \<Rightarrow> 'u list list" where
  "va_cuts data st [] = []"
| "va_cuts data st (to # tos) = take (to - st) (drop st data) # va_cuts data to tos"

definition va_items :: "'u var_array \<Rightarrow> 'u list option list" where
  "va_items a = map2 (\<lambda>v x. if v then Some x else None) (va_valid a)
     (va_cuts (va_data a) (hd (va_offset a)) (tl (va_offset a)))"

definition va_wf :: "'u var_array \<Rightarrow> bool" where
  "va_wf a \<longleftrightarrow> va_offset a \<noteq> [] \<and> length (va_offset a) = Suc (length (va_valid a))
     \<and> hd (va_offset a) = 0 \<and> last (va_offset a) = length (va_data a) \<and> sorted (va_offset a)"

section \<open>Chunked arrays\<close>

record 'u chunked_builder =
  cb_element_length :: "nat option"
  cb_valid :: "bool list"
  cb_data :: "'u list"

definition update_element_length :: "nat \<Rightarrow> 'u chunked_builder \<Rightarrow> 'u chunked_builder option" where
  "update_element_length n b =
     (case cb_element_length b of
        Some l \<Rightarrow> do { rust_assert (l = n); Some b }
      | None \<Rightarrow> Some (b\<lparr>cb_element_length := Some n\<rparr>))"

definition chb_push :: "'u list option \<Rightarrow> 'u chunked_builder \<Rightarrow> 'u chunked_builder option" where
  "chb_push v b =
     (case v of
        None \<Rightarrow> None
      | Some x \<Rightarrow> update_element_length (length x)
          (b\<lparr>cb_valid := cb_valid b @ [True], cb_data := cb_data b @ x\<rparr>))"

definition chb_append ::
  "bool list \<Rightarrow> 'u list \<Rightarrow> nat \<Rightarrow> 'u chunked_builder \<Rightarrow> 'u chunked_builder option" where
  "chb_append valid data element_length b =
     update_element_length element_length
       (b\<lparr>cb_valid := cb_valid b @ valid, cb_data := cb_data b @ data\<rparr>)"

definition chb_get_raw :: "nat \<Rightarrow> 'u list \<Rightarrow> nat \<Rightarrow> 'u list option" where
  "chb_get_raw element_length data idx =
     slice_range (element_length * idx) (element_length * (idx + 1)) data"

section \<open>The builder interface\<close>

locale array_builder =
  fixes empty :: 'b and push :: "'v option \<Rightarrow> 'b \<Rightarrow> 'b"
    and wf :: "'b \<Rightarrow> bool" and items :: "'b \<Rightarrow> 'v option list"
  assumes wf_empty: "wf empty" and items_empty: "items empty = []"
    and wf_push: "wf b \<Longrightarrow> wf (push v b)"
    and items_push: "wf b \<Longrightarrow> items (push v b) = items b @ [v]"
begin

lemma wf_fold_push: "wf b \<Longrightarrow> wf (fold push vs b)"
  by (induction vs arbitrary: b) (auto intro: wf_push)

lemma items_fold_push: "wf b \<Longrightarrow> items (fold push vs b) = items b @ vs"
  by (induction vs arbitrary: b) (auto simp: wf_push items_push)

lemma collect: "wf (fold push vs empty) \<and> items (fold push vs empty) = vs"
  by (simp add: wf_fold_push wf_empty items_fold_push items_empty)

end

lemma pa_wf_new [simp]: "pa_wf pa_new" and pa_items_new [simp]: "pa_items pa_new = []"
  by (simp_all add: pa_wf_def pa_new_def pa_items_def)

lemma pa_wf_push [simp]: "pa_wf b \<Longrightarrow> pa_wf (pa_push d v b)"
  by (simp add: pa_wf_def pa_push_def)

lemma pa_items_push [simp]: "pa_wf b \<Longrightarrow> pa_items (pa_push d v b) = pa_items b @ [v]"
  by (auto simp: pa_wf_def pa_push_def pa_items_def split: option.splits)

interpretation pa: array_builder pa_new "pa_push d" pa_wf pa_items for d
  by unfold_locales simp_all

lemma length_pa_items: "pa_wf a \<Longrightarrow> length (pa_items a) = pa_len a"
  by (simp add: pa_wf_def pa_items_def pa_len_def)

lemma pa_get_eq: "pa_wf a \<Longrightarrow> i < pa_len a \<Longrightarrow> pa_get a i = Some (pa_items a ! i)"
  by (auto simp: pa_get_def pa_is_null_def pa_get_raw_def index_at_def pa_wf_def pa_len_def pa_items_def)

lemma pa_to_vec_eq: "pa_wf a \<Longrightarrow> pa_to_vec a = Some (pa_items a)"
proof -
  assume wf: "pa_wf a"
  have "those (map (pa_get a) [0..<pa_len a]) = Some (map ((!) (pa_items a)) [0..<pa_len a])"
    by (rule those_map_Some) (simp add: pa_get_eq wf)
  then show ?thesis by (simp add: pa_to_vec_def map_nth_eq length_pa_items wf)
qed

lemma pa_finish_eq [simp]: "pa_finish b = b"
  by (simp add: pa_finish_def pa_take_def)

lemma pa_push_n_eq: "pa_push_n d n v b = fold (pa_push d) (replicate n v) b"
proof (induction n arbitrary: b)
  case 0
  then show ?case by (simp add: pa_push_n_def)
next
  case (Suc n)
  have "pa_push_n d (Suc n) v b = pa_push_n d n v (pa_push d v b)"
    by (simp add: pa_push_n_def pa_push_def replicate_append_same)
  with Suc.IH show ?case by simp
qed

lemma pa_append_items:
  "pa_wf a \<Longrightarrow> pa_wf b \<Longrightarrow> pa_wf (pa_append a b) \<and> pa_items (pa_append a b) = pa_items b @ pa_items a"
  by (simp add: pa_wf_def pa_append_def pa_items_def)

lemma filter_loop_spec:
  "length p = length vs \<Longrightarrow> length vs = length xs \<Longrightarrow> pa_wf b \<Longrightarrow>
   pa_wf (filter_loop p vs xs b) \<and>
   pa_items (filter_loop p vs xs b)
     = pa_items b @ select p (map2 (\<lambda>v x. if v then Some x else None) vs xs)"
proof (induction p vs xs b rule: filter_loop.induct)
  case (1 p ps v vs x xs b)
  then show ?case by (auto simp: pa_wf_def pa_items_def)
qed (auto simp: pa_items_def)

lemma pa_filter_spec:
  assumes "pa_wf a" and "length p = pa_len a"
  shows "\<exists>a'. pa_filter p a = Some a' \<and> pa_wf a' \<and> pa_items a' = select p (pa_items a)"
proof -
  have "length p = length (ar_valid a)" and "length (ar_valid a) = length (ar_data a)"
    using assms by (simp_all add: pa_len_def pa_wf_def)
  from filter_loop_spec [OF this pa_wf_new] assms(2) show ?thesis
    by (simp add: pa_filter_def pa_items_def [of a])
qed

lemma pa_slice_spec:
  assumes "pa_wf a" and "lo \<le> hi" and "hi \<le> pa_len a"
  shows "\<exists>a'. pa_slice d lo hi a = Some a' \<and> pa_wf a' \<and> pa_items a' = take (hi - lo) (drop lo (pa_items a))"
proof -
  have "those (map (pa_get a) [lo..<hi]) = Some (map ((!) (pa_items a)) [lo..<hi])"
    using assms by (intro those_map_Some) (simp add: pa_get_eq)
  moreover have "map ((!) (pa_items a)) [lo..<hi] = take (hi - lo) (drop lo (pa_items a))"
    using assms by (intro nth_equalityI) (simp_all add: length_pa_items)
  ultimately show ?thesis
    using assms pa.collect [of d] by (auto simp: pa_slice_def rust_assert_def)
qed

section \<open>Variable-length arrays refine the same interface\<close>

lemma va_cuts_append:
  "va_cuts data st (tos @ [t])
   = va_cuts data st tos @ [take (t - last (st # tos)) (drop (last (st # tos)) data)]"
  by (induction tos arbitrary: st) auto

lemma va_cuts_extend:
  "\<forall>t\<in>set (st # tos). t \<le> length data \<Longrightarrow> va_cuts (data @ extra) st tos = va_cuts data st tos"
  by (induction tos arbitrary: st) auto

lemma length_va_cuts [simp]: "length (va_cuts data st tos) = length tos"
  by (induction tos arbitrary: st) auto

lemma va_wf_offsets:
  assumes "va_wf b"
  shows "va_offset b = 0 # tl (va_offset b)" and "\<forall>t\<in>set (va_offset b). t \<le> length (va_data b)"
proof -
  from assms show eq: "va_offset b = 0 # tl (va_offset b)"
    by (cases "va_offset b") (auto simp: va_wf_def)
  from assms show "\<forall>t\<in>set (va_offset b). t \<le> length (va_data b)"
    using sorted_le_last by (fastforce simp: va_wf_def)
qed

lemma va_wf_new [simp]: "va_wf va_new" and va_items_new [simp]: "va_items va_new = []"
  by (simp_all add: va_wf_def va_new_def va_items_def)

lemma va_wf_push: "va_wf b \<Longrightarrow> va_wf (va_push v b)"
  using va_wf_offsets [of b]
  by (auto simp: va_wf_def va_push_def Let_def sorted_append split: option.splits)

lemma va_items_push: "va_wf b \<Longrightarrow> va_items (va_push v b) = va_items b @ [v]"
proof -
  assume wf: "va_wf b"
  let ?tos = "tl (va_offset b)"
  from va_wf_offsets [OF wf] obtain os where os: "va_offset b = 0 # os"
    and le: "\<forall>t\<in>set (0 # os). t \<le> length (va_data b)"
    by (metis)
  from wf os have lst: "last (0 # os) = length (va_data b)" and len: "length os = length (va_valid b)"
    by (auto simp: va_wf_def)
  show ?thesis
    using va_cuts_extend [OF le] lst len
    by (auto simp: va_items_def va_push_def Let_def os va_cuts_append split: option.splits)
qed

interpretation va: array_builder va_new va_push va_wf va_items
  by unfold_locales (auto simp: va_wf_push va_items_push)

lemma va_cuts_nth:
  "i < length tos \<Longrightarrow> va_cuts data st tos ! i
     = take ((st # tos) ! Suc i - (st # tos) ! i) (drop ((st # tos) ! i) data)"
proof (induction tos arbitrary: i st)
  case Nil
  then show ?case by simp
next
  case (Cons t tos)
  then show ?case by (cases i) auto
qed

lemma va_get_eq: "va_wf a \<Longrightarrow> i < va_len a \<Longrightarrow> va_get a i = Some (va_items a ! i)"
proof -
  assume wf: "va_wf a" and i: "i < va_len a"
  from va_wf_offsets [OF wf] obtain os where os: "va_offset a = 0 # os"
    and le: "\<forall>t\<in>set (0 # os). t \<le> length (va_data a)"
    by metis
  from wf os have len: "length os = length (va_valid a)" and srt: "sorted (0 # os)"
    by (auto simp: va_wf_def)
  have "(0 # os) ! i \<le> (0 # os) ! Suc i"
    using srt i len by (intro sorted_nth_mono) (auto simp: va_len_def)
  moreover have "(0 # os) ! Suc i \<le> length (va_data a)"
    using le i len by (metis Suc_less_eq length_Cons nth_mem va_len_def)
  ultimately show ?thesis
    using i len va_cuts_nth [of i os "va_data a" 0]
    by (auto simp: va_get_def va_is_null_def va_get_raw_def index_at_def slice_range_def va_len_def
        va_items_def os)
qed

end
