(* ===== verification/Block_Spec.thy ===== *)
theory Block_Spec
  imports Codec Arrays
begin

text \<open>
  The block traits of \<open>src/storage/secondary/block.rs\<close> and the statistics every builder reports.
  A trait is a record of its operations (a dictionary): \<open>block_builder\<close> for \<open>BlockBuilder\<close>, its
  extension \<open>non_nullable_block_builder\<close> for types that also implement \<open>NonNullableBlockBuilder\<close>,
  and \<open>block_iter\<close> for \<open>BlockIterator\<close>. Generic code (the nullable, run-length and dictionary
  blocks, the column builder) takes the dictionary of its inner block, as the Rust generics do.

  The contracts are locales: \<open>block_iterator\<close> says that an iterator walks a fixed list of
  remaining items (\<open>view\<close>), \<open>appending_iterator\<close> strengthens it to non-empty array builders,
  \<open>stepping_iterator\<close> weakens it to what a run-length block asks of its inner block (one item at a
  time, never past the end), and \<open>block_codec\<close> ties a builder to the iterator that opens what it
  finishes.
\<close>

section \<open>Statistics\<close>

datatype block_statistics_type = RowCount | DistinctValue

record block_statistics =
  block_stat_type :: block_statistics_type
  stat_body :: "byte list"

definition distinct_stat :: "nat \<Rightarrow> block_statistics list" where
  "distinct_stat n = [\<lparr>block_stat_type = DistinctValue, stat_body = le_bytes 8 (of_nat n :: u64)\<rparr>]"

definition statistics_of :: "'u list list \<Rightarrow> block_statistics list" where
  "statistics_of items = distinct_stat (length (remdups items))"

fun selected_items :: "bool list \<Rightarrow> nat \<Rightarrow> 'u list list \<Rightarrow> 'u list list option" where
  "selected_items selection idx [] = Some []"
| "selected_items selection idx (x # xs) = do {
     keep \<leftarrow> (if selection = [] then Some True else index_at selection idx);
     rest \<leftarrow> selected_items selection (Suc idx) xs;
     Some (if keep then x # rest else rest) }"

section \<open>The traits\<close>

type_synonym block = "byte list"

record ('b, 'a) block_builder =
  bb_append :: "'a option \<Rightarrow> 'b \<Rightarrow> 'b option"
  bb_estimated_size :: "'b \<Rightarrow> nat"
  bb_get_statistics :: "'b \<Rightarrow> block_statistics list option"
  bb_should_finish :: "'a option \<Rightarrow> 'b \<Rightarrow> bool"
  bb_finish :: "'b \<Rightarrow> block"
  bb_get_target_size :: "'b \<Rightarrow> nat"

record ('b, 'a) non_nullable_block_builder = "('b, 'a) block_builder" +
  bb_append_value :: "'a \<Rightarrow> 'b \<Rightarrow> 'b option"
  bb_append_default :: "'b \<Rightarrow> 'b option"
  bb_get_statistics_with_bitmap :: "bool list \<Rightarrow> 'b \<Rightarrow> block_statistics list option"
  bb_estimated_size_with_next_item :: "'a option \<Rightarrow> 'b \<Rightarrow> nat"
  bb_is_empty :: "'b \<Rightarrow> bool"

type_synonym ('s, 'a) next_batch = "nat option \<Rightarrow> 'a array \<Rightarrow> 's \<Rightarrow> (nat \<times> 'a array \<times> 's) option"

record ('s, 'a) block_iter =
  bi_next_batch :: "('s, 'a) next_batch"
  bi_skip :: "nat \<Rightarrow> 's \<Rightarrow> 's option"
  bi_remaining_items :: "'s \<Rightarrow> nat option"

text \<open>
  The loop every plain iterator runs: \<open>expected_size\<close> is asserted positive and bounds the batch,
  the block's row count bounds the cursor, and each round reads one value and pushes it.
\<close>

function batch_loop ::
  "('r \<Rightarrow> nat \<Rightarrow> ('a \<times> 'r) option) \<Rightarrow> 'a \<Rightarrow> nat option \<Rightarrow> nat \<Rightarrow> nat \<Rightarrow> 'r \<Rightarrow> nat \<Rightarrow> 'a array
    \<Rightarrow> (nat \<times> 'a array \<times> nat) option" where
  "batch_loop read d expected_size row_count cnt buffer next_row b =
     (if expected_size = Some 0 then None
      else if (case expected_size of Some n \<Rightarrow> cnt \<ge> n | None \<Rightarrow> False) then Some (cnt, b, next_row)
      else if next_row \<ge> row_count then Some (cnt, b, next_row)
      else case read buffer next_row of
             None \<Rightarrow> None
           | Some (x, buffer) \<Rightarrow>
               batch_loop read d expected_size row_count (Suc cnt) buffer (Suc next_row)
                 (pa_push d (Some x) b))"
  by pat_completeness auto
termination
  by (relation "measure (\<lambda>(read, d, e, row_count, cnt, buffer, next_row, b). row_count - next_row)") auto

declare batch_loop.simps [simp del]

section \<open>The contracts\<close>

definition batch_len :: "nat option \<Rightarrow> nat \<Rightarrow> nat" where
  "batch_len e n = (case e of Some k \<Rightarrow> min k n | None \<Rightarrow> n)"

lemma batch_len_le: "batch_len e n \<le> n"
  by (simp add: batch_len_def split: option.splits)

locale stepping_iterator =
  fixes I :: "('s, 'a) block_iter" and inv :: "'s \<Rightarrow> bool" and view :: "'s \<Rightarrow> 'a option list"
  assumes next_one: "inv s \<Longrightarrow> view s = x # rest \<Longrightarrow>
      \<exists>b' s'. bi_next_batch I (Some 1) pa_new s = Some (1, b', s') \<and> pa_wf b'
        \<and> pa_items b' = [x] \<and> inv s' \<and> view s' = rest"
    and skip_one: "inv s \<Longrightarrow> k < length (view s) \<Longrightarrow>
      \<exists>s'. bi_skip I k s = Some s' \<and> inv s' \<and> view s' = drop k (view s)"

locale block_iterator =
  fixes I :: "('s, 'a) block_iter" and inv :: "'s \<Rightarrow> bool" and view :: "'s \<Rightarrow> 'a option list"
  assumes next_fresh: "inv s \<Longrightarrow> e \<noteq> Some 0 \<Longrightarrow> n = batch_len e (length (view s)) \<Longrightarrow>
      \<exists>b' s'. bi_next_batch I e pa_new s = Some (n, b', s') \<and> pa_wf b'
        \<and> pa_items b' = take n (view s) \<and> inv s' \<and> view s' = drop n (view s)"
    and skip: "inv s \<Longrightarrow> k < length (view s) \<Longrightarrow>
      \<exists>s'. bi_skip I k s = Some s' \<and> inv s' \<and> view s' = drop k (view s)"
    and remaining: "inv s \<Longrightarrow> bi_remaining_items I s = Some (length (view s))"

locale appending_iterator =
  fixes I :: "('s, 'a) block_iter" and inv :: "'s \<Rightarrow> bool" and view :: "'s \<Rightarrow> 'a option list"
  assumes next_any: "inv s \<Longrightarrow> e \<noteq> Some 0 \<Longrightarrow> pa_wf b \<Longrightarrow> n = batch_len e (length (view s)) \<Longrightarrow>
      \<exists>b' s'. bi_next_batch I e b s = Some (n, b', s') \<and> pa_wf b'
        \<and> pa_items b' = pa_items b @ take n (view s) \<and> inv s' \<and> view s' = drop n (view s)"
    and skip_any: "inv s \<Longrightarrow> k < length (view s) \<Longrightarrow>
      \<exists>s'. bi_skip I k s = Some s' \<and> inv s' \<and> view s' = drop k (view s)"
    and remaining_any: "inv s \<Longrightarrow> bi_remaining_items I s = Some (length (view s))"

sublocale block_iterator \<subseteq> stepping_iterator
proof unfold_locales
  fix s x rest
  assume "inv s" and "view s = x # rest"
  with next_fresh [of s "Some 1" 1]
  show "\<exists>b' s'. bi_next_batch I (Some 1) pa_new s = Some (1, b', s') \<and> pa_wf b'
        \<and> pa_items b' = [x] \<and> inv s' \<and> view s' = rest"
    by (auto simp: batch_len_def)
qed (auto simp: skip)

sublocale appending_iterator \<subseteq> block_iterator
proof unfold_locales
  fix s e n
  assume "inv s" "e \<noteq> Some 0" "n = batch_len e (length (view s))"
  from next_any [OF this(1,2) pa_wf_new this(3)]
  show "\<exists>b' s'. bi_next_batch I e pa_new s = Some (n, b', s') \<and> pa_wf b'
        \<and> pa_items b' = take n (view s) \<and> inv s' \<and> view s' = drop n (view s)"
    by simp
qed (auto simp: skip_any remaining_any)

context appending_iterator
begin

lemma is_block_iterator: "block_iterator I inv view"
  by (rule block_iterator_axioms)

lemma is_stepping: "stepping_iterator I inv view"
  by (rule stepping_iterator_axioms)

end

locale block_codec = stepping_iterator I inv view
  for I :: "('s, 'a) block_iter" and inv :: "'s \<Rightarrow> bool" and view :: "'s \<Rightarrow> 'a option list" +
  fixes B :: "('b, 'a, 'z) block_builder_scheme" and new :: 'b
    and opn :: "block \<Rightarrow> nat \<Rightarrow> 's option"
    and norm :: "'a option \<Rightarrow> 'a option" and fits :: "'a option list \<Rightarrow> bool"
  assumes open_finish: "fold_opt (bb_append B) xs new = Some b \<Longrightarrow> xs \<noteq> [] \<Longrightarrow> fits xs \<Longrightarrow>
      \<exists>s. opn (bb_finish B b) (length xs) = Some s \<and> inv s \<and> view s = map norm xs"

locale reading_codec = block_iterator I inv view
  for I :: "('s, 'a) block_iter" and inv :: "'s \<Rightarrow> bool" and view :: "'s \<Rightarrow> 'a option list" +
  fixes B :: "('b, 'a, 'z) block_builder_scheme" and new :: 'b
    and opn :: "block \<Rightarrow> nat \<Rightarrow> 's option"
    and norm :: "'a option \<Rightarrow> 'a option" and fits :: "'a option list \<Rightarrow> bool"
  assumes read_finish: "fold_opt (bb_append B) xs new = Some b \<Longrightarrow> xs \<noteq> [] \<Longrightarrow> fits xs \<Longrightarrow>
      \<exists>s. opn (bb_finish B b) (length xs) = Some s \<and> inv s \<and> view s = map norm xs"

sublocale reading_codec \<subseteq> block_codec
  by unfold_locales (rule read_finish)

context reading_codec
begin

lemma is_block_codec: "block_codec I inv view B new opn norm fits"
  by (rule block_codec_axioms)

lemma reads: "block_iterator I inv view"
  by (rule block_iterator_axioms)

end

text \<open>One lemma for the plain loops: a reader that yields the block's items fills the batch.\<close>

lemma batch_loop_spec:
  assumes read: "\<And>i buf. i < row_count \<Longrightarrow> R i buf \<Longrightarrow>
      \<exists>buf'. read buf i = Some (xs ! i, buf') \<and> R (Suc i) buf'"
    and "length xs = row_count" and "R next_row buf" and "e \<noteq> Some 0"
    and "pa_wf b" and "next_row \<le> row_count" and "e = None \<or> (\<exists>k. e = Some k \<and> cnt \<le> k)"
  shows "\<exists>b'. batch_loop read d e row_count cnt buf next_row b
      = Some (cnt + batch_len (map_option (\<lambda>k. k - cnt) e) (row_count - next_row), b',
              next_row + batch_len (map_option (\<lambda>k. k - cnt) e) (row_count - next_row))
    \<and> pa_wf b' \<and> pa_items b' = pa_items b
        @ map Some (take (batch_len (map_option (\<lambda>k. k - cnt) e) (row_count - next_row)) (drop next_row xs))"
  using assms(3-)
proof (induction "row_count - next_row" arbitrary: cnt buf next_row b)
  case 0
  then have "batch_loop read d e row_count cnt buf next_row b = Some (cnt, b, next_row)"
    by (subst batch_loop.simps) (auto split: option.splits)
  with 0 show ?case
    by (auto simp: batch_len_def split: option.splits)
next
  case (Suc m)
  let ?n = "batch_len (map_option (\<lambda>k. k - cnt) e) (row_count - next_row)"
  have lt: "next_row < row_count" using Suc.hyps(2) by simp
  show ?case
  proof (cases "\<exists>k. e = Some k \<and> cnt \<ge> k")
    case True
    then have "batch_loop read d e row_count cnt buf next_row b = Some (cnt, b, next_row)"
      using Suc.prems(2) by (subst batch_loop.simps) (auto split: option.splits)
    with True Suc.prems show ?thesis
      by (auto simp: batch_len_def)
  next
    case False
    from read [OF lt Suc.prems(1)] obtain buf' where
      rd: "read buf next_row = Some (xs ! next_row, buf')" and R': "R (Suc next_row) buf'" by blast
    let ?b = "pa_push d (Some (xs ! next_row)) b"
    let ?n' = "batch_len (map_option (\<lambda>k. k - Suc cnt) e) (row_count - Suc next_row)"
    have n: "?n = Suc ?n'"
      using False lt by (cases e) (auto simp: batch_len_def)
    have step: "batch_loop read d e row_count cnt buf next_row b
        = batch_loop read d e row_count (Suc cnt) buf' (Suc next_row) ?b"
      using False lt rd Suc.prems(2)
      by (subst batch_loop.simps) (auto split: option.splits)
    have "\<exists>b'. batch_loop read d e row_count (Suc cnt) buf' (Suc next_row) ?b
        = Some (Suc cnt + ?n', b', Suc next_row + ?n') \<and> pa_wf b'
        \<and> pa_items b' = pa_items ?b @ map Some (take ?n' (drop (Suc next_row) xs))"
      using Suc.hyps(2) Suc.prems False lt R' by (intro Suc.hyps(1)) auto
    moreover have "drop next_row xs = xs ! next_row # drop (Suc next_row) xs"
      using lt assms(2) by (simp add: Cons_nth_drop_Suc)
    ultimately show ?thesis
      using Suc.prems(3) by (simp add: step n)
  qed
qed

end
