(* ===== verification/Plain_Blocks.thy ===== *)
theory Plain_Blocks
  imports Block_Spec
begin

text \<open>
  The plain block of fixed-width primitives of \<open>src/storage/secondary/block\<close>
  (\<open>primitive_block_builder.rs\<close>, \<open>primitive_block_iterator.rs\<close>) and the iterator loop that all plain
  blocks share; the string, blob and fake blocks are in \<open>Var_Blocks\<close>. The builder and the iterator are
  records with one definition per method and a dictionary that collects them.
\<close>

section \<open>The iterator the plain blocks share\<close>

record plain_iter =
  it_block :: block
  it_row_count :: nat
  it_next_row :: nat

definition plain_skip :: "nat \<Rightarrow> plain_iter \<Rightarrow> plain_iter option" where
  "plain_skip cnt s = Some (s\<lparr>it_next_row := it_next_row s + cnt\<rparr>)"

definition plain_remaining_items :: "plain_iter \<Rightarrow> nat option" where
  "plain_remaining_items s = checked_sub (it_row_count s) (it_next_row s)"

text \<open>
  Every plain iterator returns at once at the end of the block, slices its buffers (\<open>start\<close>) and
  runs the batch loop with its own reader.
\<close>

definition plain_next_batch ::
  "(plain_iter \<Rightarrow> 'r option) \<Rightarrow> (plain_iter \<Rightarrow> 'r \<Rightarrow> nat \<Rightarrow> ('a \<times> 'r) option) \<Rightarrow> 'a \<Rightarrow> (plain_iter, 'a) next_batch" where
  "plain_next_batch start read d expected_size b s =
     (if it_next_row s \<ge> it_row_count s then Some (0, b, s)
      else do {
        buffer \<leftarrow> start s;
        (cnt, b, next_row) \<leftarrow> batch_loop (read s) d expected_size (it_row_count s) 0 buffer (it_next_row s) b;
        Some (cnt, b, s\<lparr>it_next_row := next_row\<rparr>) })"

definition plain_ops ::
  "(plain_iter \<Rightarrow> 'r option) \<Rightarrow> (plain_iter \<Rightarrow> 'r \<Rightarrow> nat \<Rightarrow> ('a \<times> 'r) option) \<Rightarrow> 'a \<Rightarrow> (plain_iter, 'a) block_iter" where
  "plain_ops start read d = \<lparr>bi_next_batch = plain_next_batch start read d, bi_skip = plain_skip,
     bi_remaining_items = plain_remaining_items\<rparr>"

text \<open>What a plain block has to supply: its items, and a reader that yields them in order.\<close>

locale plain_reader =
  fixes start :: "plain_iter \<Rightarrow> 'r option"
    and read :: "plain_iter \<Rightarrow> 'r \<Rightarrow> nat \<Rightarrow> ('a \<times> 'r) option" and d :: 'a
    and good :: "plain_iter \<Rightarrow> bool" and items :: "plain_iter \<Rightarrow> 'a list"
    and R :: "plain_iter \<Rightarrow> nat \<Rightarrow> 'r \<Rightarrow> bool"
  assumes start_ok: "good s \<Longrightarrow> it_next_row s < it_row_count s \<Longrightarrow> it_next_row s < length (items s) \<Longrightarrow>
      \<exists>buf. start s = Some buf \<and> R s (it_next_row s) buf"
    and read_ok: "good s \<Longrightarrow> i < length (items s) \<Longrightarrow> R s i buf \<Longrightarrow>
      \<exists>buf'. read s buf i = Some (items s ! i, buf') \<and> R s (Suc i) buf'"
    and good_move: "good s \<Longrightarrow> good (s\<lparr>it_next_row := i\<rparr>)"
    and items_move: "items (s\<lparr>it_next_row := i\<rparr>) = items s"
begin

abbreviation view :: "plain_iter \<Rightarrow> 'a option list" where
  "view s \<equiv> map Some (drop (it_next_row s) (items s))"

abbreviation exact :: "plain_iter \<Rightarrow> bool" where
  "exact s \<equiv> good s \<and> it_next_row s \<le> length (items s) \<and> length (items s) = it_row_count s"

abbreviation within :: "plain_iter \<Rightarrow> bool" where
  "within s \<equiv> good s \<and> it_next_row s \<le> length (items s) \<and> length (items s) \<le> it_row_count s"

lemma loop_ok:
  assumes "good s" and "it_next_row s \<le> length (items s)" and "length (items s) = it_row_count s"
    and "R s (it_next_row s) buf" and "e \<noteq> Some 0" and "pa_wf b"
    and n: "n = batch_len e (it_row_count s - it_next_row s)"
  shows "\<exists>b'. batch_loop (read s) d e (it_row_count s) 0 buf (it_next_row s) b
      = Some (n, b', it_next_row s + n) \<and> pa_wf b' \<and> pa_items b' = pa_items b @ take n (view s)"
proof -
  have rd: "\<exists>buf'. read s buf i = Some (items s ! i, buf') \<and> R s (Suc i) buf'"
    if "i < it_row_count s" and "R s i buf" for i buf
    using that assms read_ok by simp
  have "e = None \<or> (\<exists>k. e = Some k \<and> 0 \<le> k)" by (cases e) auto
  from batch_loop_spec [where R = "R s" and read = "read s" and cnt = 0 and d = d and e = e,
      OF rd assms(3) assms(4) assms(5) assms(6) _ this] assms(2,3)
  show ?thesis by (simp add: n option.map_ident take_map)
qed

lemma appending: "appending_iterator (plain_ops start read d) exact view"
proof unfold_locales
  fix s e n
  fix b :: "'a array"
  assume inv: "exact s" and e: "e \<noteq> Some 0" and wf: "pa_wf b" and n: "n = batch_len e (length (view s))"
  have n': "n = batch_len e (it_row_count s - it_next_row s)" using inv n by simp
  show "\<exists>b' s'. bi_next_batch (plain_ops start read d) e b s = Some (n, b', s') \<and> pa_wf b'
      \<and> pa_items b' = pa_items b @ take n (view s) \<and> exact s' \<and> view s' = drop n (view s)"
  proof (cases "it_next_row s < it_row_count s")
    case False
    with inv n' have "n = 0" using batch_len_le [of e 0] by simp
    with False inv wf show ?thesis by (simp add: plain_ops_def plain_next_batch_def)
  next
    case True
    with inv start_ok [of s] obtain buf where buf: "start s = Some buf" "R s (it_next_row s) buf"
      by auto
    from loop_ok [OF _ _ _ buf(2) e wf n'] inv obtain b' where
      "batch_loop (read s) d e (it_row_count s) 0 buf (it_next_row s) b = Some (n, b', it_next_row s + n)"
      and "pa_wf b'" and "pa_items b' = pa_items b @ take n (view s)"
      by auto
    moreover have "n \<le> it_row_count s - it_next_row s" using n' batch_len_le by simp
    ultimately show ?thesis
      using True buf inv
      by (simp add: plain_ops_def plain_next_batch_def good_move items_move drop_map add.commute)
  qed
next
  fix s k
  assume "exact s" and "k < length (view s)"
  then show "\<exists>s'. bi_skip (plain_ops start read d) k s = Some s' \<and> exact s' \<and> view s' = drop k (view s)"
    by (simp add: plain_ops_def plain_skip_def good_move items_move drop_map add.commute)
next
  fix s
  assume "exact s"
  then show "bi_remaining_items (plain_ops start read d) s = Some (length (view s))"
    by (simp add: plain_ops_def plain_remaining_items_def)
qed

text \<open>An iterator whose row count exceeds the block's items can still be read one item at a time.\<close>

lemma stepping: "stepping_iterator (plain_ops start read d) within view"
proof unfold_locales
  fix s x rest
  assume inv: "within s" and v: "view s = x # rest"
  then have lt: "it_next_row s < length (items s)" by (cases "it_next_row s < length (items s)") auto
  from v have x: "x = Some (items s ! it_next_row s)" and rest: "rest = map Some (drop (Suc (it_next_row s)) (items s))"
    using lt by (auto simp: Cons_nth_drop_Suc [symmetric])
  from inv lt start_ok [of s] obtain buf where buf: "start s = Some buf" "R s (it_next_row s) buf"
    by auto
  from read_ok [OF _ lt buf(2)] inv obtain buf' where
    rd: "read s buf (it_next_row s) = Some (items s ! it_next_row s, buf')" by auto
  have "batch_loop (read s) d (Some 1) (it_row_count s) 0 buf (it_next_row s) pa_new
      = Some (1, pa_push d x pa_new, Suc (it_next_row s))"
    using inv lt rd x by (simp add: batch_loop.simps [of "read s"])
  then show "\<exists>b' s'. bi_next_batch (plain_ops start read d) (Some 1) pa_new s = Some (1, b', s')
      \<and> pa_wf b' \<and> pa_items b' = [x] \<and> within s' \<and> view s' = rest"
    using inv lt buf by (simp add: plain_ops_def plain_next_batch_def good_move items_move rest)
next
  fix s k
  assume "within s" and "k < length (view s)"
  then show "\<exists>s'. bi_skip (plain_ops start read d) k s = Some s' \<and> within s' \<and> view s' = drop k (view s)"
    by (simp add: plain_ops_def plain_skip_def good_move items_move drop_map add.commute)
qed

end

section \<open>Primitive blocks\<close>

function chunks :: "nat \<Rightarrow> 'u list \<Rightarrow> 'u list list" where
  "chunks w xs = (if xs = [] \<or> w = 0 then [] else take w xs # chunks w (drop w xs))"
  by pat_completeness auto
termination
  by (relation "measure (\<lambda>(w, xs). length xs)") auto

declare chunks.simps [simp del]

record primitive_builder =
  pb_data :: "byte list"
  pb_target_size :: nat

definition ppb_new :: "nat \<Rightarrow> primitive_builder" where
  "ppb_new target = \<lparr>pb_data = [], pb_target_size = target\<rparr>"

definition ppb_append_value :: "'a fixed_width \<Rightarrow> 'a \<Rightarrow> primitive_builder \<Rightarrow> primitive_builder option" where
  "ppb_append_value C item b = Some (b\<lparr>pb_data := pb_data b @ encode C item\<rparr>)"

definition ppb_append_default :: "'a fixed_width \<Rightarrow> primitive_builder \<Rightarrow> primitive_builder option" where
  "ppb_append_default C b = Some (b\<lparr>pb_data := pb_data b @ encode C (DEFAULT_VALUE C)\<rparr>)"

definition ppb_get_statistics_with_bitmap ::
  "'a fixed_width \<Rightarrow> bool list \<Rightarrow> primitive_builder \<Rightarrow> block_statistics list option" where
  "ppb_get_statistics_with_bitmap C selection b = do {
     rust_assert (WIDTH C \<noteq> 0);
     items \<leftarrow> selected_items selection 0 (chunks (WIDTH C) (pb_data b));
     Some (statistics_of items) }"

definition ppb_estimated_size :: "primitive_builder \<Rightarrow> nat" where
  "ppb_estimated_size b = length (pb_data b)"

definition ppb_estimated_size_with_next_item ::
  "'a fixed_width \<Rightarrow> 'a option \<Rightarrow> primitive_builder \<Rightarrow> nat" where
  "ppb_estimated_size_with_next_item C next_item b = ppb_estimated_size b + WIDTH C"

definition ppb_is_empty :: "primitive_builder \<Rightarrow> bool" where
  "ppb_is_empty b = (pb_data b = [])"

definition ppb_append ::
  "'a fixed_width \<Rightarrow> 'a option \<Rightarrow> primitive_builder \<Rightarrow> primitive_builder option" where
  "ppb_append C item b =
     (case item of Some x \<Rightarrow> ppb_append_value C x b | None \<Rightarrow> ppb_append_default C b)"

definition ppb_should_finish :: "'a fixed_width \<Rightarrow> 'a option \<Rightarrow> primitive_builder \<Rightarrow> bool" where
  "ppb_should_finish C next_item b \<longleftrightarrow>
     \<not> ppb_is_empty b \<and> ppb_estimated_size_with_next_item C next_item b > pb_target_size b"

definition ppb_finish :: "primitive_builder \<Rightarrow> block" where
  "ppb_finish b = pb_data b"

definition ppb :: "'a fixed_width \<Rightarrow> (primitive_builder, 'a) non_nullable_block_builder" where
  "ppb C = \<lparr>bb_append = ppb_append C, bb_estimated_size = ppb_estimated_size,
     bb_get_statistics = ppb_get_statistics_with_bitmap C [],
     bb_should_finish = ppb_should_finish C, bb_finish = ppb_finish,
     bb_get_target_size = pb_target_size,
     bb_append_value = ppb_append_value C, bb_append_default = ppb_append_default C,
     bb_get_statistics_with_bitmap = ppb_get_statistics_with_bitmap C,
     bb_estimated_size_with_next_item = ppb_estimated_size_with_next_item C,
     bb_is_empty = ppb_is_empty\<rparr>"

definition ppi_new :: "block \<Rightarrow> nat \<Rightarrow> plain_iter" where
  "ppi_new block row_count = \<lparr>it_block = block, it_row_count = row_count, it_next_row = 0\<rparr>"

definition ppi_start :: "'a fixed_width \<Rightarrow> plain_iter \<Rightarrow> byte list option" where
  "ppi_start C s = slice_from (it_next_row s * WIDTH C) (it_block s)"

definition ppi_next_batch_non_null :: "'a fixed_width \<Rightarrow> (plain_iter, 'a) next_batch" where
  "ppi_next_batch_non_null C =
     plain_next_batch (ppi_start C) (\<lambda>_ buffer _. decode C buffer) (DEFAULT_VALUE C)"

definition ppi :: "'a fixed_width \<Rightarrow> (plain_iter, 'a) block_iter" where
  "ppi C = \<lparr>bi_next_batch = ppi_next_batch_non_null C, bi_skip = plain_skip,
     bi_remaining_items = plain_remaining_items\<rparr>"

text \<open>The items a block of fixed-width values holds.\<close>

fun decode_all :: "'a fixed_width \<Rightarrow> nat \<Rightarrow> byte list \<Rightarrow> 'a list option" where
  "decode_all C 0 buf = Some []"
| "decode_all C (Suc n) buf = do {
     (x, buf) \<leftarrow> decode C buf;
     xs \<leftarrow> decode_all C n buf;
     Some (x # xs) }"

definition fixed_items :: "'a fixed_width \<Rightarrow> block \<Rightarrow> 'a list" where
  "fixed_items C block =
     (case decode_all C (length block div WIDTH C) block of Some xs \<Rightarrow> xs | None \<Rightarrow> [])"

definition fixed_block :: "'a fixed_width \<Rightarrow> ('a \<Rightarrow> bool) \<Rightarrow> plain_iter \<Rightarrow> bool" where
  "fixed_block C ok s \<longleftrightarrow> (\<exists>xs. it_block s = concat (map (encode C) xs) \<and> (\<forall>x\<in>set xs. ok x))"

definition ppi_view :: "'a fixed_width \<Rightarrow> plain_iter \<Rightarrow> 'a option list" where
  "ppi_view C s = map Some (drop (it_next_row s) (fixed_items C (it_block s)))"

definition ppi_inv :: "'a fixed_width \<Rightarrow> ('a \<Rightarrow> bool) \<Rightarrow> plain_iter \<Rightarrow> bool" where
  "ppi_inv C ok s \<longleftrightarrow> fixed_block C ok s \<and> it_next_row s \<le> length (fixed_items C (it_block s))
     \<and> length (fixed_items C (it_block s)) = it_row_count s"

definition ppi_step_inv :: "'a fixed_width \<Rightarrow> ('a \<Rightarrow> bool) \<Rightarrow> plain_iter \<Rightarrow> bool" where
  "ppi_step_inv C ok s \<longleftrightarrow> fixed_block C ok s \<and> it_next_row s \<le> length (fixed_items C (it_block s))
     \<and> length (fixed_items C (it_block s)) \<le> it_row_count s"

definition with_default :: "'a \<Rightarrow> 'a option \<Rightarrow> 'a option" where
  "with_default d v = Some (case v of Some x \<Rightarrow> x | None \<Rightarrow> d)"

context fixed_width_law
begin

lemma decode_all_encode:
  "\<forall>x\<in>set xs. ok x \<Longrightarrow> decode_all C (length xs) (concat (map (encode C) xs)) = Some xs"
  by (induction xs) (auto simp: decode_encode)

lemma fixed_items_encode: "\<forall>x\<in>set xs. ok x \<Longrightarrow> fixed_items C (concat (map (encode C) xs)) = xs"
  using width_pos by (simp add: fixed_items_def decode_all_encode)

lemma ppi_reader:
  "plain_reader (ppi_start C) (\<lambda>_ buffer _. decode C buffer) (fixed_block C ok)
     (\<lambda>s. fixed_items C (it_block s)) (\<lambda>s i buf. buf = drop (i * WIDTH C) (it_block s))"
proof unfold_locales
  fix s
  assume "fixed_block C ok s" and "it_next_row s < length (fixed_items C (it_block s))"
  then show "\<exists>buf. ppi_start C s = Some buf \<and> buf = drop (it_next_row s * WIDTH C) (it_block s)"
    by (auto simp: fixed_block_def ppi_start_def fixed_items_encode)
next
  fix s i buf
  assume "fixed_block C ok s" and "i < length (fixed_items C (it_block s))"
    and "buf = drop (i * WIDTH C) (it_block s)"
  then show "\<exists>buf'. decode C buf = Some (fixed_items C (it_block s) ! i, buf')
      \<and> buf' = drop (Suc i * WIDTH C) (it_block s)"
    by (auto simp: fixed_block_def fixed_items_encode decode_nth)
qed (auto simp: fixed_block_def)

lemma ppi_plain_ops: "ppi C = plain_ops (ppi_start C) (\<lambda>_ buffer _. decode C buffer) (DEFAULT_VALUE C)"
  by (simp add: ppi_def plain_ops_def ppi_next_batch_non_null_def)

lemma ppi_appending: "appending_iterator (ppi C) (ppi_inv C ok) (ppi_view C)"
  using plain_reader.appending [OF ppi_reader, of "DEFAULT_VALUE C"]
  unfolding ppi_plain_ops ppi_inv_def [abs_def] ppi_view_def [abs_def] .

lemma ppi_stepping: "stepping_iterator (ppi C) (ppi_step_inv C ok) (ppi_view C)"
  using plain_reader.stepping [OF ppi_reader, of "DEFAULT_VALUE C"]
  unfolding ppi_plain_ops ppi_step_inv_def [abs_def] ppi_view_def [abs_def] .

lemma ppb_fold:
  "fold_opt (ppb_append C) xs b = Some b' \<Longrightarrow>
   pb_data b' = pb_data b @ concat (map (\<lambda>v. encode C (the (with_default (DEFAULT_VALUE C) v))) xs)"
  by (induction xs arbitrary: b)
    (auto simp: ppb_append_def ppb_append_value_def ppb_append_default_def with_default_def
      split: option.splits)

lemma ppb_total: "\<exists>b'. fold_opt (ppb_append C) xs b = Some b'"
  by (induction xs arbitrary: b)
    (auto simp: ppb_append_def ppb_append_value_def ppb_append_default_def split: option.splits)

lemma ppi_open:
  assumes "fold_opt (ppb_append C) xs (ppb_new target) = Some b" and "\<forall>v. Some v \<in> set xs \<longrightarrow> ok v"
  shows "ppi_inv C ok (ppi_new (ppb_finish b) (length xs))"
    and "ppi_view C (ppi_new (ppb_finish b) (length xs)) = map (with_default (DEFAULT_VALUE C)) xs"
proof -
  define ys where "ys = map (\<lambda>v. the (with_default (DEFAULT_VALUE C) v)) xs"
  have blk: "ppb_finish b = concat (map (encode C) ys)"
    using ppb_fold [OF assms(1)] by (simp add: ppb_finish_def ppb_new_def ys_def comp_def)
  have ok: "\<forall>x\<in>set ys. ok x"
    using assms(2) ok_default by (auto simp: ys_def with_default_def split: option.splits)
  have "length ys = length xs" by (simp add: ys_def)
  then show "ppi_inv C ok (ppi_new (ppb_finish b) (length xs))"
    unfolding ppi_inv_def ppi_new_def blk fixed_block_def using ok fixed_items_encode [OF ok] by auto
  show "ppi_view C (ppi_new (ppb_finish b) (length xs)) = map (with_default (DEFAULT_VALUE C)) xs"
    unfolding ppi_view_def ppi_new_def blk
    using fixed_items_encode [OF ok] by (simp add: ys_def with_default_def)
qed

lemma ppb_codec:
  "reading_codec (ppi C) (ppi_inv C ok) (ppi_view C) (ppb C) (ppb_new target)
     (\<lambda>blk n. Some (ppi_new blk n)) (with_default (DEFAULT_VALUE C)) (\<lambda>xs. \<forall>v. Some v \<in> set xs \<longrightarrow> ok v)"
  by (intro reading_codec.intro reading_codec_axioms.intro
      appending_iterator.is_block_iterator [OF ppi_appending]) (auto simp: ppb_def ppi_open)

text \<open>Opening a block with a row count beyond its items, as the nullable run-length path does.\<close>

lemma ppb_codec_over:
  "block_codec (ppi C) (ppi_step_inv C ok) (ppi_view C) (ppb C) (ppb_new target)
     (\<lambda>blk _. Some (ppi_new blk rows)) (with_default (DEFAULT_VALUE C))
     (\<lambda>xs. (\<forall>v. Some v \<in> set xs \<longrightarrow> ok v) \<and> length xs \<le> rows)"
proof (intro block_codec.intro block_codec_axioms.intro ppi_stepping)
  fix xs b
  assume run: "fold_opt (bb_append (ppb C)) xs (ppb_new target) = Some b"
    and fits: "(\<forall>v. Some v \<in> set xs \<longrightarrow> ok v) \<and> length xs \<le> rows"
  then have run': "fold_opt (ppb_append C) xs (ppb_new target) = Some b" by (simp add: ppb_def)
  from ppi_open [OF this conjunct1 [OF fits]] fits
  show "\<exists>s. Some (ppi_new (bb_finish (ppb C) b) rows) = Some s \<and> ppi_step_inv C ok s
      \<and> ppi_view C s = map (with_default (DEFAULT_VALUE C)) xs"
    by (auto simp: ppb_def ppi_new_def ppi_inv_def ppi_step_inv_def ppi_view_def fixed_block_def)
qed

end

end
