(* ===== verification/Nullable_Block.thy ===== *)
theory Nullable_Block
  imports Plain_Blocks
begin

text \<open>
  Nullable blocks (\<open>nullable_block_builder.rs\<close>, \<open>nullable_block_iterator.rs\<close>): an inner
  non-nullable block followed by a validity bitmap, packed eight rows per byte with the first row
  in the lowest bit, and the bitmap's byte length. The builder and the iterator are generic in the
  inner block and take its dictionary. Unused bits of the last bitmap byte are zero.
\<close>

definition pack_bits :: "bool list \<Rightarrow> byte list" where
  "pack_bits bits = map (\<lambda>bs. horner_sum of_bool 2 bs) (chunks 8 bits)"

definition unpack_bits :: "byte list \<Rightarrow> bool list" where
  "unpack_bits bytes = concat (map (\<lambda>w. map (bit w) [0..<8]) bytes)"

record 'b nullable_builder =
  nb_inner :: 'b
  nb_bitmap :: "bool list"
  nb_target_size :: nat

definition nb_new :: "'b \<Rightarrow> nat \<Rightarrow> 'b nullable_builder" where
  "nb_new inner target = \<lparr>nb_inner = inner, nb_bitmap = [], nb_target_size = target\<rparr>"

definition nb_append ::
  "('b, 'a, 'z) non_nullable_block_builder_scheme \<Rightarrow> 'a option \<Rightarrow> 'b nullable_builder \<Rightarrow> 'b nullable_builder option" where
  "nb_append B item b =
     (case item of
        Some x \<Rightarrow> do {
          inner \<leftarrow> bb_append_value B x (nb_inner b);
          Some (b\<lparr>nb_inner := inner, nb_bitmap := nb_bitmap b @ [True]\<rparr>) }
      | None \<Rightarrow> do {
          inner \<leftarrow> bb_append_default B (nb_inner b);
          Some (b\<lparr>nb_inner := inner, nb_bitmap := nb_bitmap b @ [False]\<rparr>) })"

definition nb_estimated_size ::
  "('b, 'a, 'z) non_nullable_block_builder_scheme \<Rightarrow> 'b nullable_builder \<Rightarrow> nat" where
  "nb_estimated_size B b = bb_estimated_size B (nb_inner b) + (length (nb_bitmap b) + 7) div 8"

definition nb_get_statistics ::
  "('b, 'a, 'z) non_nullable_block_builder_scheme \<Rightarrow> 'b nullable_builder \<Rightarrow> block_statistics list option" where
  "nb_get_statistics B b = bb_get_statistics_with_bitmap B (nb_bitmap b) (nb_inner b)"

definition nb_should_finish ::
  "('b, 'a, 'z) non_nullable_block_builder_scheme \<Rightarrow> 'a option \<Rightarrow> 'b nullable_builder \<Rightarrow> bool" where
  "nb_should_finish B next_item b \<longleftrightarrow>
     bb_should_finish B next_item (nb_inner b) \<or>
     \<not> bb_is_empty B (nb_inner b)
       \<and> bb_estimated_size_with_next_item B next_item (nb_inner b) + 1 > nb_target_size b"

definition nb_finish ::
  "('b, 'a, 'z) non_nullable_block_builder_scheme \<Rightarrow> 'b nullable_builder \<Rightarrow> block" where
  "nb_finish B b =
     (let bitmap = pack_bits (nb_bitmap b)
      in bb_finish B (nb_inner b) @ bitmap @ le_bytes 4 (of_nat (length bitmap) :: u32))"

definition nullable_bb ::
  "('b, 'a, 'z) non_nullable_block_builder_scheme \<Rightarrow> ('b nullable_builder, 'a) block_builder" where
  "nullable_bb B = \<lparr>bb_append = nb_append B, bb_estimated_size = nb_estimated_size B,
     bb_get_statistics = nb_get_statistics B, bb_should_finish = nb_should_finish B,
     bb_finish = nb_finish B, bb_get_target_size = nb_target_size\<rparr>"

definition decode_nullable_block :: "block \<Rightarrow> (block \<times> block) option" where
  "decode_nullable_block data = do {
     tail \<leftarrow> checked_sub (length data) 4;
     buf \<leftarrow> slice_from tail data;
     (len :: u32, _) \<leftarrow> get_le 4 buf;
     cut \<leftarrow> checked_sub tail (unat len);
     bitmap_block \<leftarrow> slice_range cut tail data;
     inner_block \<leftarrow> slice_range 0 cut data;
     Some (inner_block, bitmap_block) }"

record 's nullable_iter =
  ni_inner :: 's
  ni_cur_row :: nat
  ni_bitmap :: block

definition ni_new :: "'s \<Rightarrow> block \<Rightarrow> 's nullable_iter" where
  "ni_new inner bitmap = \<lparr>ni_inner = inner, ni_cur_row = 0, ni_bitmap = bitmap\<rparr>"

definition ni_next_batch :: "('s, 'a) block_iter \<Rightarrow> ('s nullable_iter, 'a) next_batch" where
  "ni_next_batch I expected_size b s = do {
     (n, b, inner) \<leftarrow> bi_next_batch I expected_size b (ni_inner s);
     bits \<leftarrow> slice_range (ni_cur_row s) (ni_cur_row s + n) (unpack_bits (ni_bitmap s));
     Some (n, pa_replace_bitmap bits b, s\<lparr>ni_inner := inner, ni_cur_row := ni_cur_row s + n\<rparr>) }"

definition ni_skip :: "('s, 'a) block_iter \<Rightarrow> nat \<Rightarrow> 's nullable_iter \<Rightarrow> 's nullable_iter option" where
  "ni_skip I cnt s = do {
     inner \<leftarrow> bi_skip I cnt (ni_inner s);
     Some (s\<lparr>ni_inner := inner, ni_cur_row := ni_cur_row s + cnt\<rparr>) }"

definition nullable_bi :: "('s, 'a) block_iter \<Rightarrow> ('s nullable_iter, 'a) block_iter" where
  "nullable_bi I = \<lparr>bi_next_batch = ni_next_batch I, bi_skip = ni_skip I,
     bi_remaining_items = (\<lambda>s. bi_remaining_items I (ni_inner s))\<rparr>"

text \<open>Opening a nullable block: split it, open the inner block, pair it with the bitmap.\<close>

definition nullable_open ::
  "(block \<Rightarrow> nat \<Rightarrow> 's option) \<Rightarrow> block \<Rightarrow> nat \<Rightarrow> 's nullable_iter option" where
  "nullable_open opn data row_count = do {
     (inner_block, bitmap_block) \<leftarrow> decode_nullable_block data;
     inner \<leftarrow> opn inner_block row_count;
     Some (ni_new inner bitmap_block) }"

section \<open>The bitmap\<close>

lemma chunks_Nil [simp]: "chunks w [] = []"
  by (simp add: chunks.simps)

lemma length_chunks_8: "length (chunks 8 xs) = (length xs + 7) div 8"
proof (induction "8 :: nat" xs rule: chunks.induct)
  case (1 xs)
  show ?case
  proof (cases "xs = []")
    case False
    then have "length (chunks 8 xs) = Suc (length (chunks 8 (drop 8 xs)))"
      by (simp add: chunks.simps [of 8 xs])
    also have "\<dots> = Suc ((length xs - 8 + 7) div 8)"
      using "1.hyps" False by simp
    also have "\<dots> = (length xs + 7) div 8"
      using False by (cases xs) (auto simp: Suc_diff_le, presburger)
    finally show ?thesis .
  qed simp
qed

lemma length_pack_bits: "length (pack_bits bits) = (length bits + 7) div 8"
  by (simp add: pack_bits_def length_chunks_8)

lemma length_unpack_bits: "length (unpack_bits bytes) = 8 * length bytes"
  by (simp add: unpack_bits_def concat_map_length)

lemma unpack_byte:
  "length bs \<le> 8 \<Longrightarrow> map (bit (horner_sum of_bool 2 bs :: byte)) [0..<8] = bs @ replicate (8 - length bs) False"
  by (rule nth_equalityI) (auto simp: bit_horner_sum_bit_iff nth_append)

lemma unpack_pack_bits: "take (length bits) (unpack_bits (pack_bits bits)) = bits"
proof (induction "8 :: nat" bits rule: chunks.induct)
  case (1 bits)
  show ?case
  proof (cases "bits = []")
    case False
    have eq: "unpack_bits (pack_bits bits)
        = (take 8 bits @ replicate (8 - length bits) False) @ unpack_bits (pack_bits (drop 8 bits))"
      using False unpack_byte [of "take 8 bits"]
      by (simp add: unpack_bits_def pack_bits_def chunks.simps [of 8 bits])
    show ?thesis
    proof (cases "length bits \<le> 8")
      case True
      then show ?thesis by (simp add: eq)
    next
      case long: False
      then have "take (length bits) (unpack_bits (pack_bits bits))
          = take 8 bits @ take (length (drop 8 bits)) (unpack_bits (pack_bits (drop 8 bits)))"
        by (simp add: eq)
      then show ?thesis using "1.hyps" False by simp
    qed
  qed (simp add: pack_bits_def unpack_bits_def)
qed

section \<open>Reading nullable blocks\<close>

definition mask :: "bool list \<Rightarrow> 'a option list \<Rightarrow> 'a option list" where
  "mask bits vs = map2 (\<lambda>v x. if v then x else None) bits vs"

definition ni_view :: "('s \<Rightarrow> 'a option list) \<Rightarrow> 's nullable_iter \<Rightarrow> 'a option list" where
  "ni_view view s = mask (drop (ni_cur_row s) (unpack_bits (ni_bitmap s))) (view (ni_inner s))"

definition ni_inv :: "('s \<Rightarrow> bool) \<Rightarrow> ('s \<Rightarrow> 'a option list) \<Rightarrow> 's nullable_iter \<Rightarrow> bool" where
  "ni_inv J view s \<longleftrightarrow> J (ni_inner s) \<and> None \<notin> set (view (ni_inner s))
     \<and> ni_cur_row s + length (view (ni_inner s)) \<le> length (unpack_bits (ni_bitmap s))"

lemma length_mask [simp]: "length (mask bits vs) = min (length bits) (length vs)"
  by (simp add: mask_def)

lemma mask_take: "mask (take n bits) (take n vs) = take n (mask bits vs)"
  by (simp add: mask_def take_map take_zip)

lemma mask_drop: "mask (drop n bits) (drop n vs) = drop n (mask bits vs)"
  by (simp add: mask_def drop_map drop_zip)

lemma mask_take_left: "length vs \<le> n \<Longrightarrow> mask (take n bits) vs = mask bits vs"
  using mask_take [of n bits vs] by simp

lemma mask_same: "(\<And>x. f (Some x) = Some x) \<Longrightarrow> mask (map (\<lambda>v. v \<noteq> None) xs) (map f xs) = xs"
  by (induction xs) (auto simp: mask_def)

lemma replace_bitmap_items:
  assumes "pa_wf b" and "None \<notin> set (pa_items b)" and "length bits = length (pa_items b)"
  shows "pa_wf (pa_replace_bitmap bits b)
    \<and> pa_items (pa_replace_bitmap bits b) = mask bits (pa_items b)"
proof -
  have len: "length (ar_valid b) = length (ar_data b)" "length bits = length (ar_data b)"
    using assms by (auto simp: pa_wf_def pa_items_def)
  have "ar_valid b ! i" if "i < length (ar_data b)" for i
    using assms(2) len that nth_mem [of i "pa_items b"] by (auto simp: pa_items_def split: if_splits)
  with len show ?thesis
    by (auto simp: pa_wf_def pa_replace_bitmap_def pa_items_def mask_def intro!: nth_equalityI)
qed

lemma ni_next_step:
  assumes inv: "ni_inv J view s" and n: "n \<le> length (view (ni_inner s))"
    and nx: "bi_next_batch I e pa_new (ni_inner s) = Some (n, b', inner')" and wf: "pa_wf b'"
    and items: "pa_items b' = take n (view (ni_inner s))" and inv': "J inner'"
    and view': "view inner' = drop n (view (ni_inner s))"
  shows "\<exists>b'' s'. ni_next_batch I e pa_new s = Some (n, b'', s') \<and> pa_wf b''
      \<and> pa_items b'' = take n (ni_view view s) \<and> ni_inv J view s'
      \<and> ni_view view s' = drop n (ni_view view s)"
proof -
  let ?bits = "take n (drop (ni_cur_row s) (unpack_bits (ni_bitmap s)))"
  have slice: "slice_range (ni_cur_row s) (ni_cur_row s + n) (unpack_bits (ni_bitmap s)) = Some ?bits"
    using inv n by (simp add: ni_inv_def)
  have len: "length ?bits = length (pa_items b')"
    using inv n by (auto simp: items ni_inv_def)
  have "None \<notin> set (pa_items b')"
    using inv by (auto simp: items ni_inv_def dest: in_set_takeD)
  from replace_bitmap_items [OF wf this len]
  have rb: "pa_wf (pa_replace_bitmap ?bits b')"
      "pa_items (pa_replace_bitmap ?bits b') = take n (ni_view view s)"
    by (simp_all add: items mask_take ni_view_def)
  have "ni_inv J view (s\<lparr>ni_inner := inner', ni_cur_row := ni_cur_row s + n\<rparr>)"
    using inv inv' n by (auto simp: ni_inv_def view' dest: in_set_dropD)
  moreover have "ni_view view (s\<lparr>ni_inner := inner', ni_cur_row := ni_cur_row s + n\<rparr>)
      = drop n (ni_view view s)"
    by (simp add: ni_view_def view' mask_drop [symmetric] add.commute)
  ultimately show ?thesis
    using slice rb by (simp add: ni_next_batch_def nx slice_range_def)
qed

lemma length_ni_view: "ni_inv J view s \<Longrightarrow> length (ni_view view s) = length (view (ni_inner s))"
  by (auto simp: ni_inv_def ni_view_def)

lemma ni_skip_step:
  assumes "ni_inv J view s" and "k \<le> length (view (ni_inner s))"
    and "bi_skip I k (ni_inner s) = Some inner'" and "J inner'"
    and "view inner' = drop k (view (ni_inner s))"
  shows "\<exists>s'. ni_skip I k s = Some s' \<and> ni_inv J view s' \<and> ni_view view s' = drop k (ni_view view s)"
  using assms
  by (auto simp: ni_skip_def ni_inv_def ni_view_def mask_drop [symmetric] add.commute dest: in_set_dropD)

context block_iterator
begin

lemma nullable_reads: "block_iterator (nullable_bi I) (ni_inv inv view) (ni_view view)"
proof unfold_locales
  fix s e n
  assume nv: "ni_inv inv view s" and e: "e \<noteq> Some 0"
    and n: "n = batch_len e (length (ni_view view s))"
  have iv: "inv (ni_inner s)" using nv by (simp add: ni_inv_def)
  have n': "n = batch_len e (length (view (ni_inner s)))" using n nv by (simp add: length_ni_view)
  from next_fresh [OF iv e n'] obtain b' s' where
    "bi_next_batch I e pa_new (ni_inner s) = Some (n, b', s')" "pa_wf b'"
    "pa_items b' = take n (view (ni_inner s))" "inv s'" "view s' = drop n (view (ni_inner s))"
    by blast
  from ni_next_step [OF nv _ this] n' batch_len_le
  show "\<exists>b' s'. bi_next_batch (nullable_bi I) e pa_new s = Some (n, b', s') \<and> pa_wf b'
      \<and> pa_items b' = take n (ni_view view s) \<and> ni_inv inv view s'
      \<and> ni_view view s' = drop n (ni_view view s)"
    by (simp add: nullable_bi_def)
next
  fix s k
  assume nv: "ni_inv inv view s" and k: "k < length (ni_view view s)"
  then have iv: "inv (ni_inner s)" and k': "k < length (view (ni_inner s))"
    by (simp_all add: ni_inv_def length_ni_view)
  from skip [OF iv k'] ni_skip_step [OF nv, of k I] k'
  show "\<exists>s'. bi_skip (nullable_bi I) k s = Some s' \<and> ni_inv inv view s'
      \<and> ni_view view s' = drop k (ni_view view s)"
    by (auto simp: nullable_bi_def)
next
  fix s
  assume "ni_inv inv view s"
  then show "bi_remaining_items (nullable_bi I) s = Some (length (ni_view view s))"
    using remaining [of "ni_inner s"] by (simp add: nullable_bi_def length_ni_view) (simp add: ni_inv_def)
qed

end

context stepping_iterator
begin

lemma nullable_steps: "stepping_iterator (nullable_bi I) (ni_inv inv view) (ni_view view)"
proof unfold_locales
  fix s x rest
  assume nv: "ni_inv inv view s" and v: "ni_view view s = x # rest"
  from length_ni_view [OF nv] v obtain y ys where y: "view (ni_inner s) = y # ys"
    by (cases "view (ni_inner s)") auto
  have iv: "inv (ni_inner s)" using nv by (simp add: ni_inv_def)
  from next_one [OF iv y] obtain b' s' where
    "bi_next_batch I (Some 1) pa_new (ni_inner s) = Some (1, b', s')" "pa_wf b'"
    "pa_items b' = take 1 (view (ni_inner s))" "inv s'" "view s' = drop 1 (view (ni_inner s))"
    by (auto simp: y)
  from ni_next_step [OF nv _ this] v y
  show "\<exists>b' s'. bi_next_batch (nullable_bi I) (Some 1) pa_new s = Some (1, b', s') \<and> pa_wf b'
      \<and> pa_items b' = [x] \<and> ni_inv inv view s' \<and> ni_view view s' = rest"
    by (simp add: nullable_bi_def)
next
  fix s k
  assume nv: "ni_inv inv view s" and k: "k < length (ni_view view s)"
  then have iv: "inv (ni_inner s)" and k': "k < length (view (ni_inner s))"
    by (simp_all add: ni_inv_def length_ni_view)
  from skip_one [OF iv k'] ni_skip_step [OF nv, of k I] k'
  show "\<exists>s'. bi_skip (nullable_bi I) k s = Some s' \<and> ni_inv inv view s'
      \<and> ni_view view s' = drop k (ni_view view s)"
    by (auto simp: nullable_bi_def)
qed

end

section \<open>Writing and reopening\<close>

text \<open>
  What a non-nullable block must supply to be wrapped: \<open>append\<close> writes the given value or a
  default, and reading back gives the values, with some value in the place of each null.
\<close>

locale nullable_codec = block_codec I inv view B new opn norm fits
  for I :: "('s, 'a) block_iter" and inv :: "'s \<Rightarrow> bool" and view :: "'s \<Rightarrow> 'a option list"
    and B :: "('b, 'a, 'z) non_nullable_block_builder_scheme" and new :: 'b
    and opn :: "block \<Rightarrow> nat \<Rightarrow> 's option"
    and norm :: "'a option \<Rightarrow> 'a option" and fits :: "'a option list \<Rightarrow> bool" +
  assumes append_Some: "bb_append B (Some x) b = bb_append_value B x b"
    and append_None: "bb_append B None b = bb_append_default B b"
    and norm_Some: "norm (Some x) = Some x"
    and norm_None: "norm None \<noteq> None"
begin

lemma nb_fold:
  "fold_opt (nb_append B) xs b = Some b' \<Longrightarrow>
     fold_opt (bb_append B) xs (nb_inner b) = Some (nb_inner b')
     \<and> nb_bitmap b' = nb_bitmap b @ map (\<lambda>v. v \<noteq> None) xs"
proof (induction xs arbitrary: b)
  case (Cons v xs)
  then obtain b1 where b1: "nb_append B v b = Some b1" and rest: "fold_opt (nb_append B) xs b1 = Some b'"
    by auto
  from b1 have "bb_append B v (nb_inner b) = Some (nb_inner b1) \<and> nb_bitmap b1 = nb_bitmap b @ [v \<noteq> None]"
    by (cases v) (auto simp: nb_append_def append_Some append_None)
  with Cons.IH [OF rest] show ?case by simp
qed simp

lemma norm_not_None: "None \<notin> set (map norm xs)"
proof -
  have "norm v \<noteq> None" for v by (cases v) (simp_all add: norm_Some norm_None)
  then show ?thesis by (metis ex_map_conv)
qed

lemma nullable_open_finish:
  assumes run: "fold_opt (bb_append (nullable_bb B)) xs (nb_new new t) = Some b"
    and "xs \<noteq> []" and "fits xs" and len: "length xs < 2 ^ 32"
  shows "\<exists>s. nullable_open opn (bb_finish (nullable_bb B) b) (length xs) = Some s
    \<and> ni_inv inv view s \<and> ni_view view s = xs"
proof -
  from run nb_fold [of xs "nb_new new t" b]
  have fold: "fold_opt (bb_append B) xs new = Some (nb_inner b)"
    and bits: "nb_bitmap b = map (\<lambda>v. v \<noteq> None) xs"
    by (simp_all add: nullable_bb_def nb_new_def)
  from open_finish [OF fold assms(2,3)] obtain s where
    s: "opn (bb_finish B (nb_inner b)) (length xs) = Some s" "inv s" "view s = map norm xs" by blast
  let ?bm = "pack_bits (nb_bitmap b)"
  let ?n = "ni_new s ?bm"
  have lb: "length (nb_bitmap b) = length xs" by (simp add: bits)
  have lbm: "length ?bm = (length xs + 7) div 8" by (simp add: length_pack_bits lb)
  then have small: "length ?bm < 2 ^ 32" using len by simp
  have "decode_nullable_block (bb_finish (nullable_bb B) b) = Some (bb_finish B (nb_inner b), ?bm)"
    using small by (simp add: decode_nullable_block_def nullable_bb_def nb_finish_def Let_def)
  then have "nullable_open opn (bb_finish (nullable_bb B) b) (length xs) = Some ?n"
    by (simp add: nullable_open_def s)
  moreover have "ni_inv inv view ?n"
    using s norm_not_None [of xs] by (auto simp: ni_inv_def ni_new_def length_unpack_bits lbm)
  moreover have "ni_view view ?n = xs"
  proof -
    have "ni_view view ?n = mask (take (length xs) (unpack_bits ?bm)) (map norm xs)"
      by (simp add: ni_view_def ni_new_def s mask_take_left)
    also have "take (length xs) (unpack_bits ?bm) = map (\<lambda>v. v \<noteq> None) xs"
      using unpack_pack_bits [of "nb_bitmap b"] by (simp only: bits length_map)
    also have "mask (map (\<lambda>v. v \<noteq> None) xs) (map norm xs) = xs"
      by (rule mask_same) (rule norm_Some)
    finally show ?thesis .
  qed
  ultimately show ?thesis by blast
qed

lemma nullable_block_codec:
  "block_codec (nullable_bi I) (ni_inv inv view) (ni_view view) (nullable_bb B) (nb_new new t)
     (nullable_open opn) id (\<lambda>xs. fits xs \<and> length xs < 2 ^ 32)"
  by (intro block_codec.intro block_codec_axioms.intro nullable_steps)
    (use nullable_open_finish in auto)

end

locale nullable_reading = reading_codec I inv view B new opn norm fits +
    nullable_codec I inv view B new opn norm fits
  for I :: "('s, 'a) block_iter" and inv :: "'s \<Rightarrow> bool" and view :: "'s \<Rightarrow> 'a option list"
    and B :: "('b, 'a, 'z) non_nullable_block_builder_scheme" and new :: 'b
    and opn :: "block \<Rightarrow> nat \<Rightarrow> 's option"
    and norm :: "'a option \<Rightarrow> 'a option" and fits :: "'a option list \<Rightarrow> bool"
begin

lemma nullable_reading_codec:
  "reading_codec (nullable_bi I) (ni_inv inv view) (ni_view view) (nullable_bb B) (nb_new new t)
     (nullable_open opn) id (\<lambda>xs. fits xs \<and> length xs < 2 ^ 32)"
  by (intro reading_codec.intro reading_codec_axioms.intro nullable_reads)
    (use nullable_open_finish in auto)

end

end
