(* ===== verification/Var_Blocks.thy ===== *)
theory Var_Blocks
  imports Nullable_Block
begin

text \<open>
  Blocks of strings and blobs: fixed-width \<open>CHAR(n)\<close> blocks padded with zero bytes
  (\<open>char_block_builder.rs\<close>, \<open>char_block_iterator.rs\<close>), variable-length blocks with a table of end
  offsets (\<open>blob_block_builder.rs\<close>, \<open>blob_block_iterator.rs\<close>), and the iterator that stands for a
  column whose values are not needed (\<open>fake_block_iterator.rs\<close>). A string is the list of its
  UTF-8 bytes; \<open>utf8_ok\<close> is the validation \<open>std::str::from_utf8\<close> performs, whose failure the code
  unwraps.
\<close>

section \<open>UTF-8\<close>

definition utf8_cont :: "byte \<Rightarrow> bool" where
  "utf8_cont b \<longleftrightarrow> 0x80 \<le> b \<and> b \<le> 0xBF"

definition utf8_second3 :: "byte \<Rightarrow> byte \<Rightarrow> bool" where
  "utf8_second3 a b \<longleftrightarrow> utf8_cont b \<and> (a = 0xE0 \<longrightarrow> 0xA0 \<le> b) \<and> (a = 0xED \<longrightarrow> b \<le> 0x9F)"

definition utf8_second4 :: "byte \<Rightarrow> byte \<Rightarrow> bool" where
  "utf8_second4 a b \<longleftrightarrow> utf8_cont b \<and> (a = 0xF0 \<longrightarrow> 0x90 \<le> b) \<and> (a = 0xF4 \<longrightarrow> b \<le> 0x8F)"

fun utf8_ok :: "byte list \<Rightarrow> bool" where
  "utf8_ok [] = True"
| "utf8_ok (a # bs) =
     (if a < 0x80 then utf8_ok bs
      else if 0xC2 \<le> a \<and> a \<le> 0xDF then
        (case bs of b # cs \<Rightarrow> utf8_cont b \<and> utf8_ok cs | _ \<Rightarrow> False)
      else if 0xE0 \<le> a \<and> a \<le> 0xEF then
        (case bs of b # c # ds \<Rightarrow> utf8_second3 a b \<and> utf8_cont c \<and> utf8_ok ds | _ \<Rightarrow> False)
      else if 0xF0 \<le> a \<and> a \<le> 0xF4 then
        (case bs of b # c # d # es \<Rightarrow> utf8_second4 a b \<and> utf8_cont c \<and> utf8_cont d \<and> utf8_ok es
         | _ \<Rightarrow> False)
      else False)"

definition str_from_byte_slice :: "byte list \<Rightarrow> byte list option" where
  "str_from_byte_slice bytes = (if utf8_ok bytes then Some bytes else None)"

definition blob_from_byte_slice :: "byte list \<Rightarrow> byte list option" where
  "blob_from_byte_slice bytes = Some bytes"

section \<open>Fixed-width strings\<close>

record char_builder =
  cb_bytes :: "byte list"
  cb_char_width :: nat
  cb_target_size :: nat

definition pcb_new :: "nat \<Rightarrow> nat \<Rightarrow> char_builder" where
  "pcb_new target char_width = \<lparr>cb_bytes = [], cb_char_width = char_width, cb_target_size = target\<rparr>"

definition pcb_append_value :: "byte list \<Rightarrow> char_builder \<Rightarrow> char_builder option" where
  "pcb_append_value item b =
     (if length item > cb_char_width b then None
      else Some (b\<lparr>cb_bytes := cb_bytes b @ item @ replicate (cb_char_width b - length item) 0\<rparr>))"

definition pcb_append_default :: "char_builder \<Rightarrow> char_builder option" where
  "pcb_append_default b = Some (b\<lparr>cb_bytes := cb_bytes b @ replicate (cb_char_width b) 0\<rparr>)"

definition pcb_get_statistics_with_bitmap :: "bool list \<Rightarrow> char_builder \<Rightarrow> block_statistics list option" where
  "pcb_get_statistics_with_bitmap selection b = do {
     rust_assert (cb_char_width b \<noteq> 0);
     items \<leftarrow> selected_items selection 0 (chunks (cb_char_width b) (cb_bytes b));
     Some (statistics_of items) }"

definition pcb_estimated_size :: "char_builder \<Rightarrow> nat" where
  "pcb_estimated_size b = length (cb_bytes b)"

definition pcb_estimated_size_with_next_item :: "byte list option \<Rightarrow> char_builder \<Rightarrow> nat" where
  "pcb_estimated_size_with_next_item next_item b = pcb_estimated_size b + cb_char_width b"

definition pcb_is_empty :: "char_builder \<Rightarrow> bool" where
  "pcb_is_empty b = (cb_bytes b = [])"

definition pcb_append :: "byte list option \<Rightarrow> char_builder \<Rightarrow> char_builder option" where
  "pcb_append item b = (case item of Some x \<Rightarrow> pcb_append_value x b | None \<Rightarrow> pcb_append_default b)"

definition pcb_should_finish :: "byte list option \<Rightarrow> char_builder \<Rightarrow> bool" where
  "pcb_should_finish next_item b \<longleftrightarrow>
     \<not> pcb_is_empty b \<and> pcb_estimated_size_with_next_item next_item b > cb_target_size b"

definition pcb_finish :: "char_builder \<Rightarrow> block" where
  "pcb_finish b = cb_bytes b"

definition pcb :: "(char_builder, byte list) non_nullable_block_builder" where
  "pcb = \<lparr>bb_append = pcb_append, bb_estimated_size = pcb_estimated_size,
     bb_get_statistics = pcb_get_statistics_with_bitmap [],
     bb_should_finish = pcb_should_finish, bb_finish = pcb_finish,
     bb_get_target_size = cb_target_size,
     bb_append_value = pcb_append_value, bb_append_default = pcb_append_default,
     bb_get_statistics_with_bitmap = pcb_get_statistics_with_bitmap,
     bb_estimated_size_with_next_item = pcb_estimated_size_with_next_item,
     bb_is_empty = pcb_is_empty\<rparr>"

definition pci_read :: "nat \<Rightarrow> byte list \<Rightarrow> (byte list \<times> byte list) option" where
  "pci_read char_width buffer = do {
     data_buffer \<leftarrow> slice_range 0 char_width buffer;
     item \<leftarrow> str_from_byte_slice (takeWhile (\<lambda>x. x \<noteq> 0) data_buffer);
     Some (item, drop char_width buffer) }"

definition pci_next_batch_non_null :: "nat \<Rightarrow> (plain_iter, byte list) next_batch" where
  "pci_next_batch_non_null char_width =
     plain_next_batch (\<lambda>s. slice_from (it_next_row s * char_width) (it_block s))
       (\<lambda>_ buffer _. pci_read char_width buffer) []"

definition pci :: "nat \<Rightarrow> (plain_iter, byte list) block_iter" where
  "pci char_width = \<lparr>bi_next_batch = pci_next_batch_non_null char_width, bi_skip = plain_skip,
     bi_remaining_items = plain_remaining_items\<rparr>"

definition pci_new :: "block \<Rightarrow> nat \<Rightarrow> plain_iter" where
  "pci_new block row_count = \<lparr>it_block = block, it_row_count = row_count, it_next_row = 0\<rparr>"

text \<open>
  A character block is a block of fixed-width values: the strings that fit the width, are valid
  UTF-8 and hold no zero byte are stored without loss.
\<close>

definition char_codec :: "nat \<Rightarrow> byte list fixed_width" where
  "char_codec w = \<lparr>WIDTH = w, DEFAULT_VALUE = [], encode = (\<lambda>x. take w (x @ replicate w 0)),
     decode = pci_read w\<rparr>"

definition char_ok :: "nat \<Rightarrow> byte list \<Rightarrow> bool" where
  "char_ok w x \<longleftrightarrow> length x \<le> w \<and> utf8_ok x \<and> 0 \<notin> set x"

lemma takeWhile_padded: "0 \<notin> set x \<Longrightarrow> takeWhile (\<lambda>c. c \<noteq> 0) (x @ replicate k (0 :: byte)) = x"
  by (induction x) (auto simp: takeWhile_eq_Nil_iff)

lemma char_law: "0 < w \<Longrightarrow> fixed_width_law (char_codec w) (char_ok w)"
proof unfold_locales
  fix x rest
  assume ok: "char_ok w x"
  have "pci_read w ((x @ replicate (w - length x) 0) @ rest) = Some (x, rest)"
    using ok takeWhile_padded [of x "w - length x"]
    by (simp add: pci_read_def slice_range_def str_from_byte_slice_def char_ok_def)
  then show "decode (char_codec w) (encode (char_codec w) x @ rest) = Some (x, rest)"
    using ok by (simp add: char_codec_def char_ok_def)
qed (auto simp: char_codec_def char_ok_def)

lemma pci_eq_ppi: "pci w = ppi (char_codec w)"
  by (simp add: pci_def ppi_def pci_next_batch_non_null_def ppi_next_batch_non_null_def
      ppi_start_def [abs_def] char_codec_def)

lemma pcb_fold:
  "fold_opt pcb_append xs b = Some b' \<Longrightarrow> cb_char_width b' = cb_char_width b
     \<and> cb_bytes b' = cb_bytes b @ concat (map (\<lambda>v. encode (char_codec (cb_char_width b)) (the (with_default [] v))) xs)
     \<and> (\<forall>v. Some v \<in> set xs \<longrightarrow> length v \<le> cb_char_width b)"
proof (induction xs arbitrary: b)
  case (Cons v xs)
  then obtain b1 where b1: "pcb_append v b = Some b1" and rest: "fold_opt pcb_append xs b1 = Some b'"
    by auto
  from b1 have "cb_char_width b1 = cb_char_width b
      \<and> cb_bytes b1 = cb_bytes b @ encode (char_codec (cb_char_width b)) (the (with_default [] v))
      \<and> (v \<noteq> None \<longrightarrow> length (the v) \<le> cb_char_width b)"
    by (auto simp: pcb_append_def pcb_append_value_def pcb_append_default_def char_codec_def
        with_default_def split: option.splits if_splits)
  with Cons.IH [OF rest] show ?case by auto
qed simp

lemma pci_open:
  assumes "0 < w" and run: "fold_opt pcb_append xs (pcb_new t w) = Some b"
    and ok: "\<forall>v. Some v \<in> set xs \<longrightarrow> utf8_ok v \<and> 0 \<notin> set v"
  shows "ppi_inv (char_codec w) (char_ok w) (pci_new (pcb_finish b) (length xs))
    \<and> ppi_view (char_codec w) (pci_new (pcb_finish b) (length xs)) = map (with_default []) xs"
proof -
  obtain p where p: "fold_opt (ppb_append (char_codec w)) xs (ppb_new 0) = Some p"
    using fixed_width_law.ppb_total [OF char_law [OF assms(1)]] by blast
  have fin: "pcb_finish b = ppb_finish p"
    using pcb_fold [OF run] fixed_width_law.ppb_fold [OF char_law [OF assms(1)] p]
    by (simp add: pcb_finish_def ppb_finish_def pcb_new_def ppb_new_def)
      (simp add: char_codec_def)
  have "\<forall>v. Some v \<in> set xs \<longrightarrow> char_ok w v"
    using ok pcb_fold [OF run] by (auto simp: char_ok_def pcb_new_def)
  from fixed_width_law.ppi_open [OF char_law [OF assms(1)] p this]
  show ?thesis by (simp add: fin pci_new_def ppi_new_def) (simp add: char_codec_def)
qed

lemma pcb_codec:
  assumes "0 < w"
  shows "reading_codec (pci w) (ppi_inv (char_codec w) (char_ok w)) (ppi_view (char_codec w)) pcb
     (pcb_new t w) (\<lambda>blk n. Some (pci_new blk n)) (with_default [])
     (\<lambda>xs. \<forall>v. Some v \<in> set xs \<longrightarrow> utf8_ok v \<and> 0 \<notin> set v)"
  unfolding pci_eq_ppi
  by (intro reading_codec.intro reading_codec_axioms.intro
      appending_iterator.is_block_iterator [OF fixed_width_law.ppi_appending [OF char_law [OF assms]]])
    (use assms pci_open in \<open>auto simp: pcb_def\<close>)

section \<open>Variable-length blocks\<close>

record blob_builder =
  bl_data :: "byte list"
  bl_offsets :: "u32 list"
  bl_target_size :: nat

definition pbb_new :: "nat \<Rightarrow> blob_builder" where
  "pbb_new target = \<lparr>bl_data = [], bl_offsets = [], bl_target_size = target\<rparr>"

definition pbb_append_value :: "byte list \<Rightarrow> blob_builder \<Rightarrow> blob_builder option" where
  "pbb_append_value item b =
     (let data = bl_data b @ item
      in Some (b\<lparr>bl_data := data, bl_offsets := bl_offsets b @ [of_nat (length data)]\<rparr>))"

definition pbb_append_default :: "blob_builder \<Rightarrow> blob_builder option" where
  "pbb_append_default b = Some (b\<lparr>bl_offsets := bl_offsets b @ [of_nat (length (bl_data b))]\<rparr>)"

fun pbb_stat_items :: "bool list \<Rightarrow> byte list \<Rightarrow> nat \<Rightarrow> nat \<Rightarrow> u32 list \<Rightarrow> byte list list option" where
  "pbb_stat_items selection data idx last_pos [] = Some []"
| "pbb_stat_items selection data idx last_pos (pos # offsets) = do {
     keep \<leftarrow> (if selection = [] then Some True else index_at selection idx);
     items \<leftarrow> (if keep then map_option (\<lambda>x. [x]) (slice_range last_pos (unat pos) data) else Some []);
     rest \<leftarrow> pbb_stat_items selection data (Suc idx) (unat pos) offsets;
     Some (items @ rest) }"

definition pbb_get_statistics_with_bitmap :: "bool list \<Rightarrow> blob_builder \<Rightarrow> block_statistics list option" where
  "pbb_get_statistics_with_bitmap selection b =
     map_option statistics_of (pbb_stat_items selection (bl_data b) 0 0 (bl_offsets b))"

definition pbb_estimated_size :: "blob_builder \<Rightarrow> nat" where
  "pbb_estimated_size b = length (bl_data b) + length (bl_offsets b) * 4"

definition pbb_estimated_size_with_next_item :: "byte list option \<Rightarrow> blob_builder \<Rightarrow> nat" where
  "pbb_estimated_size_with_next_item next_item b =
     pbb_estimated_size b + (case next_item of Some x \<Rightarrow> length x | None \<Rightarrow> 0) + 4"

definition pbb_is_empty :: "blob_builder \<Rightarrow> bool" where
  "pbb_is_empty b = (bl_data b = [])"

definition pbb_append :: "byte list option \<Rightarrow> blob_builder \<Rightarrow> blob_builder option" where
  "pbb_append item b = (case item of Some x \<Rightarrow> pbb_append_value x b | None \<Rightarrow> pbb_append_default b)"

definition pbb_should_finish :: "byte list option \<Rightarrow> blob_builder \<Rightarrow> bool" where
  "pbb_should_finish next_item b \<longleftrightarrow>
     \<not> pbb_is_empty b \<and> pbb_estimated_size_with_next_item next_item b > bl_target_size b"

definition pbb_finish :: "blob_builder \<Rightarrow> block" where
  "pbb_finish b = concat (map (le_bytes 4) (bl_offsets b)) @ bl_data b"

definition pbb :: "(blob_builder, byte list) non_nullable_block_builder" where
  "pbb = \<lparr>bb_append = pbb_append, bb_estimated_size = pbb_estimated_size,
     bb_get_statistics = pbb_get_statistics_with_bitmap [],
     bb_should_finish = pbb_should_finish, bb_finish = pbb_finish,
     bb_get_target_size = bl_target_size,
     bb_append_value = pbb_append_value, bb_append_default = pbb_append_default,
     bb_get_statistics_with_bitmap = pbb_get_statistics_with_bitmap,
     bb_estimated_size_with_next_item = pbb_estimated_size_with_next_item,
     bb_is_empty = pbb_is_empty\<rparr>"

definition pbi_new :: "block \<Rightarrow> nat \<Rightarrow> plain_iter" where
  "pbi_new block row_count = \<lparr>it_block = block, it_row_count = row_count, it_next_row = 0\<rparr>"

definition pbi_start :: "plain_iter \<Rightarrow> (byte list \<times> byte list) option" where
  "pbi_start s = do {
     offset_buffer \<leftarrow> slice_range 0 (4 * it_row_count s) (it_block s);
     data_buffer \<leftarrow> slice_from (4 * it_row_count s) (it_block s);
     Some (offset_buffer, data_buffer) }"

definition pbi_read ::
  "(byte list \<Rightarrow> byte list option) \<Rightarrow> byte list \<times> byte list \<Rightarrow> nat
     \<Rightarrow> (byte list \<times> byte list \<times> byte list) option" where
  "pbi_read from_byte_slice bufs next_row = do {
     (start, stop) \<leftarrow>
       (if next_row = 0 then do {
          (stop :: u32, _) \<leftarrow> get_le 4 (fst bufs);
          Some (0, unat stop) }
        else do {
          cur_offsets \<leftarrow> slice_from ((next_row - 1) * 4) (fst bufs);
          (start :: u32, cur_offsets) \<leftarrow> get_le 4 cur_offsets;
          (stop :: u32, _) \<leftarrow> get_le 4 cur_offsets;
          Some (unat start, unat stop) });
     bytes \<leftarrow> slice_range start stop (snd bufs);
     item \<leftarrow> from_byte_slice bytes;
     Some (item, bufs) }"

definition pbi_next_batch_non_null ::
  "(byte list \<Rightarrow> byte list option) \<Rightarrow> (plain_iter, byte list) next_batch" where
  "pbi_next_batch_non_null from_byte_slice =
     plain_next_batch pbi_start (\<lambda>_. pbi_read from_byte_slice) []"

definition pbi :: "(byte list \<Rightarrow> byte list option) \<Rightarrow> (plain_iter, byte list) block_iter" where
  "pbi from_byte_slice = \<lparr>bi_next_batch = pbi_next_batch_non_null from_byte_slice,
     bi_skip = plain_skip, bi_remaining_items = plain_remaining_items\<rparr>"

text \<open>The end offsets of consecutive items and the block they form.\<close>

fun blob_ends :: "nat \<Rightarrow> byte list list \<Rightarrow> nat list" where
  "blob_ends acc [] = []"
| "blob_ends acc (x # xs) = (acc + length x) # blob_ends (acc + length x) xs"

definition blob_bytes :: "byte list list \<Rightarrow> block" where
  "blob_bytes ys = concat (map (le_bytes 4) (map of_nat (blob_ends 0 ys) :: u32 list)) @ concat ys"

definition blob_block :: "(byte list \<Rightarrow> byte list option) \<Rightarrow> plain_iter \<Rightarrow> bool" where
  "blob_block from_byte_slice s \<longleftrightarrow>
     (\<exists>ys. it_block s = blob_bytes ys \<and> it_row_count s = length ys \<and> length (concat ys) < 2 ^ 32
        \<and> (\<forall>y\<in>set ys. from_byte_slice y = Some y))"

definition blob_items :: "plain_iter \<Rightarrow> byte list list" where
  "blob_items s = map (\<lambda>i. case pbi_read Some (take (4 * it_row_count s) (it_block s),
     drop (4 * it_row_count s) (it_block s)) i of Some (x, _) \<Rightarrow> x | None \<Rightarrow> []) [0..<it_row_count s]"

definition pbi_view :: "plain_iter \<Rightarrow> byte list option list" where
  "pbi_view s = map Some (drop (it_next_row s) (blob_items s))"

definition pbi_inv :: "(byte list \<Rightarrow> byte list option) \<Rightarrow> plain_iter \<Rightarrow> bool" where
  "pbi_inv from_byte_slice s \<longleftrightarrow> blob_block from_byte_slice s \<and> it_next_row s \<le> length (blob_items s)
     \<and> length (blob_items s) = it_row_count s"

lemma length_blob_ends [simp]: "length (blob_ends acc xs) = length xs"
  by (induction xs arbitrary: acc) auto

lemma nth_blob_ends: "i < length xs \<Longrightarrow> blob_ends acc xs ! i = acc + length (concat (take (Suc i) xs))"
proof (induction xs arbitrary: acc i)
  case (Cons x xs)
  then show ?case by (cases i) auto
qed simp

lemma slice_concat:
  assumes "i < length ys"
  shows "slice_range (length (concat (take i ys))) (length (concat (take (Suc i) ys))) (concat ys)
    = Some (ys ! i)"
proof -
  have "concat ys = concat (take i ys) @ ys ! i @ concat (drop (Suc i) ys)"
    using assms by (metis append_take_drop_id concat_append Cons_nth_drop_Suc concat.simps(2))
  moreover have "length (concat (take (Suc i) ys)) = length (concat (take i ys)) + length (ys ! i)"
    using assms by (simp add: take_Suc_conv_app_nth)
  ultimately show ?thesis by (simp only: slice_range_append)
qed

lemma concat_take_le: "length (concat (take i ys)) \<le> length (concat ys)"
  by (metis append_take_drop_id concat_append length_append le_add1)

lemma get_le_concat:
  "i < length ws \<Longrightarrow> get_le 4 (drop (i * 4) (concat (map (le_bytes 4) ws)))
     = Some (ws ! i :: u32, drop (Suc i * 4) (concat (map (le_bytes 4) ws)))"
  using drop_concat_map [of ws "le_bytes 4" 4 i] drop_concat_map [of ws "le_bytes 4" 4 "Suc i"]
  by (simp add: Cons_nth_drop_Suc [symmetric] del: mult_Suc)

lemma pbi_read_blob:
  assumes i: "i < length ys" and small: "length (concat ys) < 2 ^ 32" and "frm (ys ! i) = Some (ys ! i)"
  shows "pbi_read frm (take (4 * length ys) (blob_bytes ys), drop (4 * length ys) (blob_bytes ys)) i
    = Some (ys ! i, take (4 * length ys) (blob_bytes ys), drop (4 * length ys) (blob_bytes ys))"
proof -
  define ws :: "u32 list" where "ws = map of_nat (blob_ends 0 ys)"
  let ?offs = "concat (map (le_bytes 4) ws)"
  have len: "length ?offs = 4 * length ys"
    using concat_map_length [of ws "le_bytes 4" 4] by (simp add: ws_def)
  have bufs: "take (4 * length ys) (blob_bytes ys) = ?offs" "drop (4 * length ys) (blob_bytes ys) = concat ys"
    by (simp_all add: blob_bytes_def ws_def [symmetric] len)
  have ws: "unat (ws ! j) = length (concat (take (Suc j) ys))" if "j < length ys" for j
    using that concat_take_le [of "Suc j" ys] small by (simp add: ws_def nth_blob_ends)
  have lws: "length ws = length ys" by (simp add: ws_def)
  show ?thesis
  proof (cases i)
    case 0
    then show ?thesis
      using assms slice_concat [OF i] ws [of 0] get_le_concat [of 0 ws] lws
      by (simp add: pbi_read_def bufs)
  next
    case (Suc j)
    have "j * 4 \<le> length ?offs" using i Suc by (simp add: len)
    then have "slice_from (j * 4) ?offs = Some (drop (j * 4) ?offs)" by simp
    then show ?thesis
      using assms slice_concat [OF i] ws [of j] ws [of i] get_le_concat [of j ws]
        get_le_concat [of i ws] lws Suc
      by (simp add: pbi_read_def bufs del: slice_from_eq_Some slice_range_eq_Some)
  qed
qed

lemma blob_items_eq:
  assumes "it_block s = blob_bytes ys" and "it_row_count s = length ys" and "length (concat ys) < 2 ^ 32"
  shows "blob_items s = ys"
  using assms pbi_read_blob [of _ ys Some]
  by (auto simp: blob_items_def intro!: nth_equalityI)

interpretation pbi_reader: plain_reader pbi_start "\<lambda>_. pbi_read frm" "[]" "blob_block frm" blob_items
  "\<lambda>s i bufs. bufs = (take (4 * it_row_count s) (it_block s), drop (4 * it_row_count s) (it_block s))"
proof unfold_locales
  fix s
  assume "blob_block frm s"
  then have "4 * it_row_count s \<le> length (it_block s)"
    by (auto simp: blob_block_def blob_bytes_def concat_map_length [where w = 4])
  then show "\<exists>bufs. pbi_start s = Some bufs
      \<and> bufs = (take (4 * it_row_count s) (it_block s), drop (4 * it_row_count s) (it_block s))"
    by (simp add: pbi_start_def)
next
  fix s i bufs
  assume blk: "blob_block frm s" and i: "i < length (blob_items s)"
    and bufs: "bufs = (take (4 * it_row_count s) (it_block s), drop (4 * it_row_count s) (it_block s))"
  from blk obtain ys where ys: "it_block s = blob_bytes ys" "it_row_count s = length ys"
      "length (concat ys) < 2 ^ 32" "\<forall>y\<in>set ys. frm y = Some y"
    by (auto simp: blob_block_def)
  then have eq: "blob_items s = ys" using blob_items_eq by blast
  with i ys have "frm (ys ! i) = Some (ys ! i)" by simp
  from pbi_read_blob [of i ys frm, OF _ ys(3) this] i
  show "\<exists>bufs'. pbi_read frm bufs i = Some (blob_items s ! i, bufs')
      \<and> bufs' = (take (4 * it_row_count s) (it_block s), drop (4 * it_row_count s) (it_block s))"
    by (simp add: bufs ys eq)
qed (auto simp: blob_block_def blob_items_def)

lemma pbi_appending: "appending_iterator (pbi frm) (pbi_inv frm) pbi_view"
proof -
  have "pbi frm = plain_ops pbi_start (\<lambda>_. pbi_read frm) []"
    by (simp add: pbi_def plain_ops_def pbi_next_batch_non_null_def)
  then show ?thesis
    using pbi_reader.appending [of frm] unfolding pbi_inv_def [abs_def] pbi_view_def [abs_def] by simp
qed

lemma pbb_fold:
  "fold_opt pbb_append xs b = Some b' \<Longrightarrow>
     bl_data b' = bl_data b @ concat (map (the \<circ> with_default []) xs)
     \<and> bl_offsets b' = bl_offsets b
         @ map of_nat (blob_ends (length (bl_data b)) (map (the \<circ> with_default []) xs))"
proof (induction xs arbitrary: b)
  case (Cons v xs)
  then obtain b1 where b1: "pbb_append v b = Some b1" and rest: "fold_opt pbb_append xs b1 = Some b'"
    by auto
  from b1 have "bl_data b1 = bl_data b @ the (with_default [] v)
      \<and> bl_offsets b1 = bl_offsets b @ [of_nat (length (bl_data b) + length (the (with_default [] v)))]"
    by (auto simp: pbb_append_def pbb_append_value_def pbb_append_default_def with_default_def
        split: option.splits)
  with Cons.IH [OF rest] show ?case by simp
qed simp

definition total_len :: "byte list option list \<Rightarrow> nat" where
  "total_len xs = length (concat (map (the \<circ> with_default []) xs))"

lemma pbi_open:
  assumes run: "fold_opt pbb_append xs (pbb_new t) = Some b"
    and ok: "\<forall>v. Some v \<in> set xs \<longrightarrow> frm v = Some v" and "frm [] = Some []" and len: "total_len xs < 2 ^ 32"
  shows "pbi_inv frm (pbi_new (pbb_finish b) (length xs))
    \<and> pbi_view (pbi_new (pbb_finish b) (length xs)) = map (with_default []) xs"
proof -
  define ys where "ys = map (the \<circ> with_default []) xs"
  have blk: "pbb_finish b = blob_bytes ys"
    using pbb_fold [OF run] by (simp add: pbb_finish_def blob_bytes_def pbb_new_def ys_def)
  have ok': "\<forall>y\<in>set ys. frm y = Some y"
    using ok assms(3) by (auto simp: ys_def with_default_def split: option.splits)
  have len': "length (concat ys) < 2 ^ 32" using len by (simp add: total_len_def ys_def)
  have items: "blob_items (pbi_new (pbb_finish b) (length xs)) = ys"
    by (rule blob_items_eq) (use len' in \<open>simp_all add: pbi_new_def blk\<close>, simp add: ys_def)
  have "blob_block frm (pbi_new (pbb_finish b) (length xs))"
    unfolding blob_block_def using ok' len' by (intro exI [of _ ys]) (simp add: pbi_new_def blk, simp add: ys_def)
  then show ?thesis
    using items by (simp add: pbi_inv_def pbi_view_def) (simp add: pbi_new_def ys_def with_default_def)
qed

lemma pbb_codec:
  assumes "frm [] = Some []"
  shows "reading_codec (pbi frm) (pbi_inv frm) pbi_view pbb (pbb_new t) (\<lambda>blk n. Some (pbi_new blk n))
     (with_default []) (\<lambda>xs. (\<forall>v. Some v \<in> set xs \<longrightarrow> frm v = Some v) \<and> total_len xs < 2 ^ 32)"
  by (intro reading_codec.intro reading_codec_axioms.intro
      appending_iterator.is_block_iterator [OF pbi_appending])
    (use assms pbi_open in \<open>auto simp: pbb_def\<close>)

section \<open>The iterator without data\<close>

record fake_iter =
  fk_row_count :: nat
  fk_next_row :: nat

definition fbi_new :: "nat \<Rightarrow> fake_iter" where
  "fbi_new row_count = \<lparr>fk_row_count = row_count, fk_next_row = 0\<rparr>"

definition fbi_next_batch :: "'a \<Rightarrow> (fake_iter, 'a) next_batch" where
  "fbi_next_batch d expected_size b s =
     (if fk_next_row s \<ge> fk_row_count s then Some (0, b, s)
      else do {
        rust_assert (expected_size \<noteq> Some 0);
        let cnt = fk_row_count s - fk_next_row s;
        let cnt = (case expected_size of Some n \<Rightarrow> min cnt n | None \<Rightarrow> cnt);
        Some (cnt, (pa_push d None ^^ cnt) b, s\<lparr>fk_next_row := fk_next_row s + cnt\<rparr>) })"

definition fbi_skip :: "nat \<Rightarrow> fake_iter \<Rightarrow> fake_iter option" where
  "fbi_skip cnt s = Some (s\<lparr>fk_next_row := fk_next_row s + cnt\<rparr>)"

definition fbi_remaining_items :: "fake_iter \<Rightarrow> nat option" where
  "fbi_remaining_items s = checked_sub (fk_row_count s) (fk_next_row s)"

definition fbi :: "'a \<Rightarrow> (fake_iter, 'a) block_iter" where
  "fbi d = \<lparr>bi_next_batch = fbi_next_batch d, bi_skip = fbi_skip,
     bi_remaining_items = fbi_remaining_items\<rparr>"

definition fbi_view :: "fake_iter \<Rightarrow> 'a option list" where
  "fbi_view s = replicate (fk_row_count s - fk_next_row s) None"

definition fbi_inv :: "fake_iter \<Rightarrow> bool" where
  "fbi_inv s \<longleftrightarrow> fk_next_row s \<le> fk_row_count s"

lemma push_none_power:
  "pa_wf b \<Longrightarrow> pa_wf ((pa_push d None ^^ n) b) \<and> pa_items ((pa_push d None ^^ n) b) = pa_items b @ replicate n None"
  by (induction n) (auto simp: replicate_append_same)

interpretation fake: appending_iterator "fbi d" fbi_inv fbi_view
proof unfold_locales
  fix s e n
  fix b :: "'a array"
  assume inv: "fbi_inv s" and e: "e \<noteq> Some 0" and wf: "pa_wf b"
    and n: "n = batch_len e (length (fbi_view s :: 'a option list))"
  have n': "n = batch_len e (fk_row_count s - fk_next_row s)" using n by (simp add: fbi_view_def)
  show "\<exists>b' s'. bi_next_batch (fbi d) e b s = Some (n, b', s') \<and> pa_wf b'
      \<and> pa_items b' = pa_items b @ take n (fbi_view s) \<and> fbi_inv s' \<and> (fbi_view s' :: 'a option list) = drop n (fbi_view s)"
  proof (cases "fk_next_row s < fk_row_count s")
    case True
    have cnt: "(case e of None \<Rightarrow> fk_row_count s - fk_next_row s
        | Some n \<Rightarrow> min (fk_row_count s - fk_next_row s) n) = n"
      by (simp add: n' batch_len_def min.commute split: option.splits)
    have "n \<le> fk_row_count s - fk_next_row s" using n' batch_len_le by simp
    with True e wf push_none_power [of b n d] show ?thesis
      by (simp add: fbi_def fbi_next_batch_def cnt rust_assert_def fbi_view_def fbi_inv_def min_absorb1)
  next
    case False
    then have "n = 0" using n' batch_len_le [of e 0] by simp
    with False inv wf show ?thesis by (simp add: fbi_def fbi_next_batch_def)
  qed
qed (auto simp: fbi_def fbi_skip_def fbi_remaining_items_def fbi_view_def fbi_inv_def)

end
