(* ===== verification/Rle_Block.thy ===== *)
theory Rle_Block
  imports Var_Blocks "HOL-Library.Sublist"
begin

text \<open>
  Run-length blocks (\<open>rle_block_builder.rs\<close>, \<open>rle_block_iterator.rs\<close>): the run lengths as base-128
  variable-length integers, followed by an inner block with one item per run. The builder and the
  iterator are generic in the inner block. The theory gives the exact domain on which the
  variable-length integers round-trip, shows that a run-length iterator over any inner iterator
  that can be stepped one item at a time satisfies the full iterator contract, and that a finished
  run-length block reads back as the rows that were appended.
\<close>

section \<open>Variable-length integers\<close>

datatype decode_error = InvalidVarint

lemma unat_drop_7: "unat (drop_bit 7 (v :: u32)) = unat v div 128"
  by (simp only: drop_bit_eq_div unat_div) simp

function encode_32 :: "u32 \<Rightarrow> byte list" where
  "encode_32 value =
     (if value < 0x80 then [ucast value]
      else ucast ((value AND 0x7F) OR 0x80) # encode_32 (drop_bit 7 value))"
  by pat_completeness auto
termination
proof (relation "measure unat")
  fix v :: u32
  assume "\<not> v < 0x80"
  then have "0 < unat v" by (simp add: word_less_nat_alt)
  then show "(drop_bit 7 v, v) \<in> measure unat"
    by (simp add: unat_drop_7)
qed simp

declare encode_32.simps [simp del]

definition decode_u32_slice :: "byte list \<Rightarrow> (decode_error + u32 \<times> nat) option" where
  "decode_u32_slice bytes = do {
     b \<leftarrow> index_at bytes 0;
     let part0 = (ucast b :: u32);
     (if b < 0x80 then Some (Inr (part0, 1)) else do {
     let part0 = part0 - 0x80;
     b \<leftarrow> index_at bytes 1;
     let part0 = part0 + push_bit 7 (ucast b);
     (if b < 0x80 then Some (Inr (part0, 2)) else do {
     let part0 = part0 - push_bit 7 0x80;
     b \<leftarrow> index_at bytes 2;
     let part0 = part0 + push_bit 14 (ucast b);
     (if b < 0x80 then Some (Inr (part0, 3)) else do {
     let part0 = part0 - push_bit 14 0x80;
     b \<leftarrow> index_at bytes 3;
     let part0 = part0 + push_bit 21 (ucast b);
     (if b < 0x80 then Some (Inr (part0, 4)) else do {
     let part0 = part0 - push_bit 21 0x80;
     b \<leftarrow> index_at bytes 4;
     (if b < 0x0f then Some (Inr (part0 + push_bit 28 (ucast b), 5)) else Some (Inl InvalidVarint)) })})})})}"

lemma decode_u32_slice_advances: "decode_u32_slice bytes = Some (Inr (value, adv)) \<Longrightarrow> 0 < adv"
  by (auto simp: decode_u32_slice_def Let_def split: if_splits)

text \<open>
  The decoding loop: \<open>tot\<close> counts the bytes consumed of the \<open>len\<close> available. The slice decoder
  always advances, so the loop ends.
\<close>

function decode_u32_loop :: "byte list \<Rightarrow> nat \<Rightarrow> nat \<Rightarrow> u32 list \<Rightarrow> (decode_error + u32 list) option" where
  "decode_u32_loop bytes tot len ret =
     (if tot < len then
        case decode_u32_slice bytes of
          None \<Rightarrow> None
        | Some (Inl err) \<Rightarrow> Some (Inl err)
        | Some (Inr (value, adv)) \<Rightarrow>
            if length bytes < adv then None
            else decode_u32_loop (drop adv bytes) (tot + adv) len (ret @ [value])
      else Some (Inr ret))"
  by pat_completeness auto
termination
  by (relation "measure (\<lambda>(bytes, tot, len, ret). len - tot)") (auto dest: decode_u32_slice_advances)

declare decode_u32_loop.simps [simp del]

definition decode_u32 :: "byte list \<Rightarrow> (decode_error + u32 list) option" where
  "decode_u32 bytes =
     (if length bytes = 0 then Some (Inl InvalidVarint) else decode_u32_loop bytes 0 (length bytes) [])"

lemma cont_word: "(v AND 0x7F) OR 0x80 = take_bit 7 v + (0x80 :: u32)"
proof -
  have "take_bit 7 v + 0x80 = take_bit 7 v OR (0x80 :: u32)"
  proof (rule disjunctive_add)
    fix n
    have "bit (0x80 :: u32) n \<longleftrightarrow> n = 7" using bit_exp_iff [of 7 n, where 'a = u32] by auto
    then show "\<not> bit (take_bit 7 v) n \<or> \<not> bit (0x80 :: u32) n" by (auto simp: bit_take_bit_iff)
  qed
  moreover have "v AND 0x7F = take_bit 7 v" by (simp add: take_bit_eq_mask mask_eq_exp_minus_1)
  ultimately show ?thesis by simp
qed

lemma unat_cont_word: "unat (take_bit 7 v + (0x80 :: u32)) = unat v mod 128 + 128"
  by (simp add: unat_word_ariths unsigned_take_bit_eq take_bit_eq_mod)

lemma unat_low_byte: "unat (ucast (x :: u32) :: byte) = unat x mod 256"
  by (simp only: unsigned_ucast_eq take_bit_eq_mod) simp

lemma unat_widen_byte: "unat (ucast (y :: byte) :: u32) = unat y"
  using unsigned_less [of y, where 'a = nat] by (simp add: unsigned_ucast_eq take_bit_eq_mod)

lemma unat_cont_byte: "unat (ucast (((v :: u32) AND 0x7F) OR 0x80) :: byte) = unat v mod 128 + 128"
  by (simp only: cont_word unat_low_byte unat_cont_word) simp

lemma cont_byte: "ucast (ucast ((v AND 0x7F) OR 0x80) :: byte) = take_bit 7 v + (0x80 :: u32)"
  by (rule unsigned_word_eqI [where 'a = nat]) (simp only: unat_widen_byte unat_cont_byte unat_cont_word)

lemma cont_byte_big: "\<not> (ucast (((v :: u32) AND 0x7F) OR 0x80) :: byte) < 0x80"
  using unat_cont_byte [of v] by (simp add: word_less_nat_alt)

lemma encode_small: "v < 0x80 \<Longrightarrow> encode_32 v = [ucast v]"
  by (simp add: encode_32.simps [of v])

lemma encode_big:
  "\<not> v < 0x80 \<Longrightarrow> encode_32 v = ucast ((v AND 0x7F) OR 0x80) # encode_32 (drop_bit 7 v)"
  by (simp add: encode_32.simps [of v])

lemma last_byte:
  assumes "(v :: u32) < 0x80"
  shows "(ucast v :: byte) < 0x80" and "ucast (ucast v :: byte) = v"
proof -
  have v: "unat v < 128" using assms by (simp add: word_less_nat_alt)
  then show "(ucast v :: byte) < 0x80"
    using unat_low_byte [of v] by (simp add: word_less_nat_alt)
  show "ucast (ucast v :: byte) = v"
    by (rule unsigned_word_eqI [where 'a = nat]) (use v in \<open>simp only: unat_widen_byte unat_low_byte mod_less\<close>)
qed

lemma split_7: "take_bit 7 v + 128 * drop_bit 7 v = (v :: u32)"
  using bits_ident [of 7 v] by (simp add: push_bit_eq_mult mult.commute add.commute)

text \<open>The slice decoder on one to five bytes, and the encoder as continuation bytes.\<close>

lemma decode_bytes:
  fixes c0 c1 c2 c3 l :: byte
  shows "l < 0x80 \<Longrightarrow> decode_u32_slice (l # rest) = Some (Inr (ucast l, 1))"
    and "\<lbrakk>\<not> c0 < 0x80; l < 0x80\<rbrakk> \<Longrightarrow> decode_u32_slice (c0 # l # rest)
      = Some (Inr ((ucast c0 - 0x80) + 128 * ucast l, 2))"
    and "\<lbrakk>\<not> c0 < 0x80; \<not> c1 < 0x80; l < 0x80\<rbrakk> \<Longrightarrow> decode_u32_slice (c0 # c1 # l # rest)
      = Some (Inr ((ucast c0 - 0x80) + 128 * ((ucast c1 - 0x80) + 128 * ucast l), 3))"
    and "\<lbrakk>\<not> c0 < 0x80; \<not> c1 < 0x80; \<not> c2 < 0x80; l < 0x80\<rbrakk> \<Longrightarrow> decode_u32_slice (c0 # c1 # c2 # l # rest)
      = Some (Inr ((ucast c0 - 0x80) + 128 * ((ucast c1 - 0x80) + 128 * ((ucast c2 - 0x80) + 128 * ucast l)), 4))"
    and "\<lbrakk>\<not> c0 < 0x80; \<not> c1 < 0x80; \<not> c2 < 0x80; \<not> c3 < 0x80\<rbrakk> \<Longrightarrow>
      decode_u32_slice (c0 # c1 # c2 # c3 # l # rest)
      = Some (if l < 0x0f then Inr ((ucast c0 - 0x80) + 128 * ((ucast c1 - 0x80)
          + 128 * ((ucast c2 - 0x80) + 128 * ((ucast c3 - 0x80) + 128 * ucast l))), 5)
        else Inl InvalidVarint)"
  by (simp_all add: decode_u32_slice_def index_at_def Let_def push_bit_eq_mult algebra_simps)

definition cont :: "u32 \<Rightarrow> byte" where
  "cont v = ucast ((v AND 0x7F) OR 0x80)"

lemma encode_cont: "\<not> v < 0x80 \<Longrightarrow> encode_32 v = cont v # encode_32 (drop_bit 7 v)"
  by (simp add: encode_big cont_def)

lemma cont_big: "\<not> cont v < 0x80"
  unfolding cont_def by (rule cont_byte_big)

lemma cont_split: "(ucast (cont v) - 0x80) + 128 * drop_bit 7 v = v"
  unfolding cont_def cont_byte using split_7 [of v] by simp

lemma short_in_range:
  fixes w v :: u32
  assumes "w < 0x80" and "unat w = unat v div k" and "0 < k" and "k \<le> 2097152"
  shows "v < 0xF0000000"
proof -
  have "unat v div k < 128" using assms(1,2) by (simp add: word_less_nat_alt)
  then have "unat v < 128 * k" using assms(3) by (simp add: div_less_iff_less_mult)
  also have "\<dots> \<le> 128 * 2097152" using assms(4) by simp
  finally show ?thesis by (simp add: word_less_nat_alt)
qed

lemma long_last_byte:
  fixes w v :: u32
  assumes "unat w = unat v div 268435456"
  shows "w < 0x80" and "(ucast w :: byte) < 0x0f \<longleftrightarrow> v < 0xF0000000"
proof -
  have "unat w < 16" using assms unsigned_less [of v, where 'a = nat] by (simp add: div_less_iff_less_mult)
  then show "w < 0x80" by (simp add: word_less_nat_alt)
  show "(ucast w :: byte) < 0x0f \<longleftrightarrow> v < 0xF0000000"
    using \<open>unat w < 16\<close> unat_low_byte [of w] assms by (simp add: word_less_nat_alt div_less_iff_less_mult)
qed

lemma decode_encode_32:
  "decode_u32_slice (encode_32 v @ rest)
     = Some (if v < 0xF0000000 then Inr (v, length (encode_32 v)) else Inl InvalidVarint)"
proof -
  define d1 where "d1 = drop_bit 7 v"
  define d2 where "d2 = drop_bit 7 d1"
  define d3 where "d3 = drop_bit 7 d2"
  define d4 where "d4 = drop_bit 7 d3"
  have split: "(ucast (cont v) - 0x80) + 128 * d1 = v" "(ucast (cont d1) - 0x80) + 128 * d2 = d1"
    "(ucast (cont d2) - 0x80) + 128 * d3 = d2" "(ucast (cont d3) - 0x80) + 128 * d4 = d3"
    by (simp_all only: d1_def d2_def d3_def d4_def cont_split)
  have u1: "unat d1 = unat v div 128" by (simp only: d1_def unat_drop_7)
  have u2: "unat d2 = unat v div 16384" by (simp only: d2_def unat_drop_7 u1 div_mult2_eq [symmetric]) simp
  have u3: "unat d3 = unat v div 2097152" by (simp only: d3_def unat_drop_7 u2 div_mult2_eq [symmetric]) simp
  have u4: "unat d4 = unat v div 268435456" by (simp only: d4_def unat_drop_7 u3 div_mult2_eq [symmetric]) simp
  note enc = encode_cont [of v, folded d1_def] encode_cont [of d1, folded d2_def]
    encode_cont [of d2, folded d3_def] encode_cont [of d3, folded d4_def]
  note ev = encode_small last_byte cont_big split decode_bytes
  consider "v < 0x80" | "\<not> v < 0x80" "d1 < 0x80" | "\<not> v < 0x80" "\<not> d1 < 0x80" "d2 < 0x80"
    | "\<not> v < 0x80" "\<not> d1 < 0x80" "\<not> d2 < 0x80" "d3 < 0x80"
    | "\<not> v < 0x80" "\<not> d1 < 0x80" "\<not> d2 < 0x80" "\<not> d3 < 0x80" by blast
  then show ?thesis
  proof cases
    case 1
    with short_in_range [of v v 1] show ?thesis by (simp add: ev)
  next
    case 2
    with short_in_range [OF _ u1] show ?thesis by (simp add: enc ev)
  next
    case 3
    with short_in_range [OF _ u2] show ?thesis by (simp add: enc ev)
  next
    case 4
    with short_in_range [OF _ u3] show ?thesis by (simp add: enc ev)
  next
    case 5
    with long_last_byte [OF u4] show ?thesis by (simp add: enc ev)
  qed
qed

text \<open>
  C28. The variable-length integers of a run-length block round-trip exactly for the values below
  \<open>0xF0000000\<close>: decoding what was encoded, whatever follows it, returns the value and the number of
  bytes it took. From \<open>0xF0000000\<close> on, which the encoder accepts, the decoder reports an error.
\<close>

theorem varint_roundtrip:
  "decode_u32_slice (encode_32 v @ rest)
     = Some (if v < 0xF0000000 then Inr (v, length (encode_32 v)) else Inl InvalidVarint)"
  by (rule decode_encode_32)

lemma encode_32_length: "0 < length (encode_32 v) \<and> length (encode_32 v) \<le> max 1 (unat v)"
proof (induction v rule: encode_32.induct)
  case (1 v)
  show ?case
  proof (cases "v < 0x80")
    case False
    then have "128 \<le> unat v" by (simp add: word_less_nat_alt)
    moreover have "Suc (unat v div 128) \<le> unat v" using \<open>128 \<le> unat v\<close> by (simp add: Suc_le_eq)
    ultimately show ?thesis using False 1 by (simp add: encode_big unat_drop_7)
  qed (simp add: encode_small)
qed

lemma decode_u32_loop_spec:
  "\<forall>v\<in>set vs. v < 0xF0000000 \<Longrightarrow>
   decode_u32_loop (concat (map encode_32 vs)) tot (tot + length (concat (map encode_32 vs))) ret
     = Some (Inr (ret @ vs))"
proof (induction vs arbitrary: tot ret)
  case Nil
  then show ?case by (simp add: decode_u32_loop.simps)
next
  case (Cons v vs)
  then have v: "v < 0xF0000000" by simp
  from Cons.IH [of "tot + length (encode_32 v)" "ret @ [v]"] Cons.prems
  show ?case
    using encode_32_length [of v] v
    by (subst decode_u32_loop.simps) (simp add: decode_encode_32 add.assoc)
qed

lemma decode_u32_spec:
  assumes "\<forall>v\<in>set vs. v < 0xF0000000" and "vs \<noteq> []"
  shows "decode_u32 (concat (map encode_32 vs)) = Some (Inr vs)"
proof -
  have "concat (map encode_32 vs) \<noteq> []" using assms(2) encode_32_length by (cases vs) auto
  then show ?thesis using decode_u32_loop_spec [OF assms(1), of 0 "[]"] by (simp add: decode_u32_def)
qed

section \<open>The builder\<close>

record ('b, 'a) rle_builder =
  rb_block_builder :: 'b
  rb_rle_counts :: "u32 list"
  rb_previous_value :: "'a option"
  rb_cur_count :: u32

definition rb_new :: "'b \<Rightarrow> ('b, 'a) rle_builder" where
  "rb_new block_builder = \<lparr>rb_block_builder = block_builder, rb_rle_counts = [],
     rb_previous_value = None, rb_cur_count = 0\<rparr>"

definition rb_append ::
  "('b, 'a, 'z) block_builder_scheme \<Rightarrow> 'a option \<Rightarrow> ('b, 'a) rle_builder \<Rightarrow> ('b, 'a) rle_builder option" where
  "rb_append B item b =
     (if rb_cur_count b = 0 then do {
        inner \<leftarrow> bb_append B item (rb_block_builder b);
        Some (b\<lparr>rb_previous_value := item, rb_block_builder := inner, rb_cur_count := 1\<rparr>) }
      else if item \<noteq> rb_previous_value b \<or> rb_cur_count b = 0xFFFFFFFF then do {
        inner \<leftarrow> bb_append B item (rb_block_builder b);
        Some (b\<lparr>rb_previous_value := item, rb_block_builder := inner,
           rb_rle_counts := rb_rle_counts b @ [rb_cur_count b], rb_cur_count := 1\<rparr>) }
      else Some (b\<lparr>rb_cur_count := rb_cur_count b + 1\<rparr>))"

definition rb_estimated_size :: "('b, 'a, 'z) block_builder_scheme \<Rightarrow> ('b, 'a) rle_builder \<Rightarrow> nat" where
  "rb_estimated_size B b = bb_estimated_size B (rb_block_builder b) + length (rb_rle_counts b) * 2
     + 4 + (if rb_cur_count b \<noteq> 0 then 2 else 0)"

definition rb_should_finish ::
  "('b, 'a, 'z) block_builder_scheme \<Rightarrow> 'a option \<Rightarrow> ('b, 'a) rle_builder \<Rightarrow> bool" where
  "rb_should_finish B next_item b = bb_should_finish B next_item (rb_block_builder b)"

definition rb_get_statistics ::
  "('b, 'a, 'z) block_builder_scheme \<Rightarrow> ('b, 'a) rle_builder \<Rightarrow> block_statistics list option" where
  "rb_get_statistics B b = bb_get_statistics B (rb_block_builder b)"

definition rb_finish :: "('b, 'a, 'z) block_builder_scheme \<Rightarrow> ('b, 'a) rle_builder \<Rightarrow> block" where
  "rb_finish B b =
     (if rb_cur_count b = 0 then []
      else let counts = rb_rle_counts b @ [rb_cur_count b];
               rle_data = concat (map encode_32 counts)
           in le_bytes 4 (of_nat (length counts) :: u32) @ le_bytes 4 (of_nat (length rle_data) :: u32)
              @ rle_data @ bb_finish B (rb_block_builder b))"

definition rle_bb :: "('b, 'a, 'z) block_builder_scheme \<Rightarrow> (('b, 'a) rle_builder, 'a) block_builder" where
  "rle_bb B = \<lparr>bb_append = rb_append B, bb_estimated_size = rb_estimated_size B,
     bb_get_statistics = rb_get_statistics B, bb_should_finish = rb_should_finish B,
     bb_finish = rb_finish B, bb_get_target_size = (\<lambda>b. bb_get_target_size B (rb_block_builder b))\<rparr>"

section \<open>The iterator\<close>

definition decode_rle_block :: "block \<Rightarrow> (nat \<times> block \<times> block) option" where
  "decode_rle_block data = do {
     (rle_num :: u32, buffer) \<leftarrow> get_le 4 data;
     (len :: u32, buffer) \<leftarrow> get_le 4 buffer;
     let rle_length = 4 * 2 + unat len;
     rle_data \<leftarrow> slice_range (4 * 2) rle_length data;
     block_data \<leftarrow> slice_from rle_length data;
     Some (unat rle_num, rle_data, block_data) }"

record ('s, 'a) rle_iter =
  ri_block_iter :: 's
  ri_rle_block :: "u32 list"
  ri_cur_row :: nat
  ri_cur_scanned_count :: nat
  ri_rle_row_count :: nat
  ri_cur_element :: "'a option"
  ri_row_scanned_count :: nat
  ri_row_count :: nat
  ri_never_used :: bool

definition ri_new :: "'s \<Rightarrow> block \<Rightarrow> nat \<Rightarrow> ('s, 'a) rle_iter option" where
  "ri_new block_iter rle_block rle_row_count =
     (case decode_u32 rle_block of
        Some (Inr counts) \<Rightarrow> Some \<lparr>ri_block_iter = block_iter, ri_rle_block = counts, ri_cur_row = 0,
          ri_cur_scanned_count = 0, ri_rle_row_count = rle_row_count, ri_cur_element = None,
          ri_row_scanned_count = 0, ri_row_count = sum_list (map unat counts), ri_never_used = True\<rparr>
      | _ \<Rightarrow> None)"

definition ri_get_cur_rle_count :: "('s, 'a) rle_iter \<Rightarrow> u32 option" where
  "ri_get_cur_rle_count s = index_at (ri_rle_block s) (ri_cur_row s)"

text \<open>\<open>Some (None, _)\<close>: the inner iterator is at its end.\<close>

definition ri_get_next_element ::
  "('s, 'a) block_iter \<Rightarrow> ('s, 'a) rle_iter \<Rightarrow> ('a option option \<times> ('s, 'a) rle_iter) option" where
  "ri_get_next_element I s = do {
     (n, b, inner) \<leftarrow> bi_next_batch I (Some 1) pa_new (ri_block_iter s);
     let s = s\<lparr>ri_block_iter := inner\<rparr>;
     if n = 0 then Some (None, s)
     else do { x \<leftarrow> pa_get (pa_finish b) 0; Some (Some x, s) } }"

function ri_loop ::
  "('s, 'a) block_iter \<Rightarrow> 'a \<Rightarrow> nat option \<Rightarrow> nat \<Rightarrow> u32 \<Rightarrow> 'a array \<Rightarrow> ('s, 'a) rle_iter
     \<Rightarrow> (nat \<times> 'a array \<times> ('s, 'a) rle_iter) option" where
  "ri_loop I d expected_size cnt cur_rle_count b s =
     (if expected_size = Some 0 then None
      else if (case expected_size of Some n \<Rightarrow> cnt \<ge> n | None \<Rightarrow> False) then Some (cnt, b, s)
      else if ri_cur_scanned_count s < unat cur_rle_count then
        ri_loop I d expected_size (Suc cnt) cur_rle_count (pa_push d (ri_cur_element s) b)
          (s\<lparr>ri_cur_scanned_count := Suc (ri_cur_scanned_count s),
             ri_row_scanned_count := Suc (ri_row_scanned_count s)\<rparr>)
      else
        (let s = s\<lparr>ri_cur_row := Suc (ri_cur_row s), ri_cur_scanned_count := 0\<rparr>
         in if ri_cur_row s \<ge> ri_rle_row_count s then Some (cnt, b, s)
            else case ri_get_next_element I s of
                None \<Rightarrow> None
              | Some (None, s) \<Rightarrow> Some (cnt, b, s)
              | Some (Some element, s') \<Rightarrow>
                  (let s' = s'\<lparr>ri_cur_element := element\<rparr>
                   in case ri_get_cur_rle_count s' of
                     None \<Rightarrow> None
                   | Some cur_rle_count \<Rightarrow> ri_loop I d expected_size cnt cur_rle_count b s')))"
  by pat_completeness auto
termination
  by (relation "measures [\<lambda>(I, d, e, cnt, c, b, s). ri_rle_row_count s - ri_cur_row s,
        \<lambda>(I, d, e, cnt, c, b, s). unat c - ri_cur_scanned_count s]")
    (auto simp: ri_get_next_element_def Let_def split: if_splits)

declare ri_loop.simps [simp del]

definition ri_next_batch :: "('s, 'a) block_iter \<Rightarrow> 'a \<Rightarrow> (('s, 'a) rle_iter, 'a) next_batch" where
  "ri_next_batch I d expected_size b s =
     (if ri_cur_row s \<ge> ri_rle_row_count s then Some (0, b, s)
      else do {
        (loaded, s) \<leftarrow>
          (if ri_never_used s then do {
             (element, s) \<leftarrow> ri_get_next_element I (s\<lparr>ri_never_used := False\<rparr>);
             (case element of
                Some x \<Rightarrow> Some (True, s\<lparr>ri_cur_element := x\<rparr>)
              | None \<Rightarrow> Some (False, s)) }
           else Some (True, s));
        if \<not> loaded then Some (0, b, s)
        else do {
          cur_rle_count \<leftarrow> ri_get_cur_rle_count s;
          ri_loop I d expected_size 0 cur_rle_count b s } })"

function ri_skip_loop :: "nat \<Rightarrow> nat \<Rightarrow> ('s, 'a) rle_iter \<Rightarrow> (nat \<times> ('s, 'a) rle_iter) option" where
  "ri_skip_loop cnt skip_count s =
     (if cnt = 0 then Some (skip_count, s)
      else case ri_get_cur_rle_count s of
        None \<Rightarrow> None
      | Some cur_rle_count \<Rightarrow>
          (case checked_sub (unat cur_rle_count) (ri_cur_scanned_count s) of
             None \<Rightarrow> None
           | Some cur_left \<Rightarrow>
               if cur_left > cnt then
                 Some (skip_count, s\<lparr>ri_cur_scanned_count := ri_cur_scanned_count s + cnt,
                   ri_row_scanned_count := ri_row_scanned_count s + cnt\<rparr>)
               else
                 (let s = s\<lparr>ri_row_scanned_count := ri_row_scanned_count s + cur_left,
                            ri_cur_scanned_count := 0, ri_cur_row := Suc (ri_cur_row s)\<rparr>
                  in if ri_cur_row s \<ge> ri_rle_row_count s then Some (Suc skip_count, s)
                     else ri_skip_loop (cnt - cur_left) (Suc skip_count) s)))"
  by pat_completeness auto
termination
  by (relation "measure (\<lambda>(cnt, k, s). ri_rle_row_count s - ri_cur_row s)") auto

declare ri_skip_loop.simps [simp del]

definition ri_skip :: "('s, 'a) block_iter \<Rightarrow> nat \<Rightarrow> ('s, 'a) rle_iter \<Rightarrow> ('s, 'a) rle_iter option" where
  "ri_skip I cnt s = do {
     (skip_count, s) \<leftarrow> ri_skip_loop cnt 0 s;
     if skip_count > 0 then do {
       inner \<leftarrow> bi_skip I (skip_count - 1) (ri_block_iter s);
       (element, s) \<leftarrow> ri_get_next_element I (s\<lparr>ri_block_iter := inner\<rparr>);
       (case element of Some x \<Rightarrow> Some (s\<lparr>ri_cur_element := x\<rparr>) | None \<Rightarrow> Some s) }
     else Some s }"

definition ri_remaining_items :: "('s, 'a) rle_iter \<Rightarrow> nat option" where
  "ri_remaining_items s = checked_sub (ri_row_count s) (ri_row_scanned_count s)"

definition rle_bi :: "('s, 'a) block_iter \<Rightarrow> 'a \<Rightarrow> (('s, 'a) rle_iter, 'a) block_iter" where
  "rle_bi I d = \<lparr>bi_next_batch = ri_next_batch I d, bi_skip = ri_skip I,
     bi_remaining_items = ri_remaining_items\<rparr>"

definition rle_open ::
  "(block \<Rightarrow> nat \<Rightarrow> 's option) \<Rightarrow> block \<Rightarrow> nat \<Rightarrow> ('s, 'a) rle_iter option" where
  "rle_open opn data row_count = do {
     (rle_num, rle_data, block_data) \<leftarrow> decode_rle_block data;
     inner \<leftarrow> opn block_data rle_num;
     ri_new inner rle_data rle_num }"

section \<open>Reading a run-length block\<close>

lemma ri_new_unused: "ri_new i blk n = Some s \<Longrightarrow> ri_never_used s"
  by (auto simp: ri_new_def split: option.splits sum.splits)

definition expand :: "u32 list \<Rightarrow> 'v list \<Rightarrow> 'v list" where
  "expand cs es = concat (map2 (\<lambda>c e. replicate (unat c) e) cs es)"

definition ri_rest :: "('s, 'a) rle_iter \<Rightarrow> 'a option list \<Rightarrow> 'a option list" where
  "ri_rest s es = drop (ri_cur_scanned_count s) (expand (drop (ri_cur_row s) (ri_rle_block s)) es)"

definition ri_elems :: "('s \<Rightarrow> 'a option list) \<Rightarrow> ('s, 'a) rle_iter \<Rightarrow> 'a option list" where
  "ri_elems view s =
     (if ri_never_used s then view (ri_block_iter s) else ri_cur_element s # view (ri_block_iter s))"

definition ri_view :: "('s \<Rightarrow> 'a option list) \<Rightarrow> ('s, 'a) rle_iter \<Rightarrow> 'a option list" where
  "ri_view view s = (if ri_cur_row s \<ge> ri_rle_row_count s then [] else ri_rest s (ri_elems view s))"

definition ri_live :: "('s, 'a) rle_iter \<Rightarrow> bool" where
  "ri_live s \<longleftrightarrow> ri_cur_row s < length (ri_rle_block s)
     \<and> ri_cur_scanned_count s \<le> unat (ri_rle_block s ! ri_cur_row s)"

definition ri_inv :: "('s \<Rightarrow> bool) \<Rightarrow> ('s \<Rightarrow> 'a option list) \<Rightarrow> ('s, 'a) rle_iter \<Rightarrow> bool" where
  "ri_inv J view s \<longleftrightarrow> ri_rle_row_count s = length (ri_rle_block s)
     \<and> ri_row_scanned_count s + length (ri_view view s) = ri_row_count s
     \<and> (ri_cur_row s < ri_rle_row_count s \<longrightarrow> ri_live s \<and> J (ri_block_iter s)
          \<and> length (ri_elems view s) = ri_rle_row_count s - ri_cur_row s)"

lemma expand_Cons [simp]: "expand (c # cs) (e # es) = replicate (unat c) e @ expand cs es"
  by (simp add: expand_def)

lemma expand_Nil [simp]: "expand [] es = []" "expand cs [] = []"
  by (simp_all add: expand_def)

lemma ri_rest_Cons:
  assumes "ri_live s"
  shows "ri_rest s (e # es)
    = replicate (unat (ri_rle_block s ! ri_cur_row s) - ri_cur_scanned_count s) e
      @ expand (drop (Suc (ri_cur_row s)) (ri_rle_block s)) es"
  using assms by (simp add: ri_rest_def ri_live_def Cons_nth_drop_Suc [symmetric])

lemma ri_skip_loop_spec:
  fixes s :: "('s, 'a) rle_iter"
  assumes "ri_live s" and "ri_rle_row_count s = length (ri_rle_block s)"
    and "length es = ri_rle_row_count s - ri_cur_row s" and "k \<le> length (ri_rest s es)"
  shows "\<exists>j sc. let s' = s\<lparr>ri_cur_row := ri_cur_row s + j, ri_cur_scanned_count := sc,
        ri_row_scanned_count := ri_row_scanned_count s + k\<rparr>
      in ri_skip_loop k m s = Some (m + j, s') \<and> j \<le> length es
        \<and> (j < length es \<longrightarrow> ri_live s' \<and> ri_rest s' (drop j es) = drop k (ri_rest s es))
        \<and> (j = length es \<longrightarrow> k = length (ri_rest s es))"
  using assms
proof (induction es arbitrary: s k m)
  case Nil
  then show ?case by (simp add: ri_live_def)
next
  case (Cons e es)
  note live = Cons.prems(1) and n = Cons.prems(2)
  define left where "left = unat (ri_rle_block s ! ri_cur_row s) - ri_cur_scanned_count s"
  define s1 where "s1 = s\<lparr>ri_row_scanned_count := ri_row_scanned_count s + left, ri_cur_scanned_count := 0,
    ri_cur_row := Suc (ri_cur_row s)\<rparr>"
  have rest: "ri_rest s (e # es) = replicate left e @ ri_rest s1 es"
    using ri_rest_Cons [OF live] by (simp add: ri_rest_def left_def s1_def)
  have cnt: "ri_get_cur_rle_count s = Some (ri_rle_block s ! ri_cur_row s)"
    and sub: "checked_sub (unat (ri_rle_block s ! ri_cur_row s)) (ri_cur_scanned_count s) = Some left"
    using live by (simp_all add: ri_live_def ri_get_cur_rle_count_def left_def)
  note unfold = ri_skip_loop.simps [of k m s, unfolded cnt option.case sub]
  consider "k = 0" | "0 < k" "k < left" | "0 < k" "left \<le> k" "es = []" | "0 < k" "left \<le> k" "es \<noteq> []"
    by linarith
  then show ?case
  proof cases
    case 1
    with live show ?thesis
      by - (rule exI [of _ 0], rule exI [of _ "ri_cur_scanned_count s"], simp add: ri_skip_loop.simps)
  next
    case 2
    define s' where "s' = s\<lparr>ri_cur_scanned_count := ri_cur_scanned_count s + k, ri_row_scanned_count := ri_row_scanned_count s + k\<rparr>"
    have live': "ri_live s'" using live 2 by (auto simp: ri_live_def s'_def left_def)
    have "ri_skip_loop k m s = Some (m, s')" using 2 unfold by (simp add: s'_def)
    moreover have "ri_rest s' (e # es) = drop k (ri_rest s (e # es))"
      using 2 ri_rest_Cons [OF live] ri_rest_Cons [OF live'] by (simp add: s'_def left_def)
    ultimately show ?thesis using live'
      by - (rule exI [of _ 0], rule exI [of _ "ri_cur_scanned_count s + k"], simp add: s'_def)
  next
    case 3
    then have "k = left" and "ri_rle_row_count s \<le> Suc (ri_cur_row s)"
      using Cons.prems(3,4) unfolding rest by (simp_all add: ri_rest_def)
    with 3 unfold rest show ?thesis
      by - (rule exI [of _ 1], rule exI [of _ 0], simp add: ri_rest_def)
  next
    case 4
    then have lt: "Suc (ri_cur_row s) < ri_rle_row_count s"
      using Cons.prems(3) by (cases es) auto
    have s1: "ri_live s1" "ri_rle_row_count s1 = length (ri_rle_block s1)"
        "length es = ri_rle_row_count s1 - ri_cur_row s1" "k - left \<le> length (ri_rest s1 es)"
      using lt n 4 Cons.prems(3,4) rest by (simp_all add: ri_live_def s1_def)
    have eq: "s1\<lparr>ri_cur_row := ri_cur_row s1 + j, ri_cur_scanned_count := sc,
          ri_row_scanned_count := ri_row_scanned_count s1 + (k - left)\<rparr>
        = s\<lparr>ri_cur_row := ri_cur_row s + Suc j, ri_cur_scanned_count := sc,
          ri_row_scanned_count := ri_row_scanned_count s + k\<rparr>" for j sc
      using 4 by (simp add: s1_def)
    have "ri_skip_loop k m s = ri_skip_loop (k - left) (Suc m) s1"
      using 4 lt unfold by (simp add: s1_def)
    with Cons.IH [OF s1, of "Suc m", unfolded eq] rest 4 show ?thesis
      by (elim exE) (rule_tac x = "Suc j" in exI, rule_tac x = sc in exI, auto simp: Let_def)
  qed
qed

context stepping_iterator
begin

lemma ri_get_next:
  assumes "inv (ri_block_iter s)" and "view (ri_block_iter s) = x # rest"
  shows "\<exists>inner. ri_get_next_element I s = Some (Some x, s\<lparr>ri_block_iter := inner\<rparr>)
    \<and> inv inner \<and> view inner = rest"
proof -
  from next_one [OF assms] obtain b' s' where nx: "bi_next_batch I (Some 1) pa_new (ri_block_iter s) = Some (1, b', s')"
      "pa_wf b'" "pa_items b' = [x]" "inv s'" "view s' = rest" by blast
  then have "pa_get b' 0 = Some x"
    using pa_get_eq [of b' 0] length_pa_items [of b'] by simp
  with nx show ?thesis by (intro exI [of _ s']) (simp add: ri_get_next_element_def)
qed

text \<open>The two ways the loop moves: within a run and on to the next run.\<close>

lemma ri_push_step:
  fixes s :: "('s, 'a) rle_iter"
  assumes nv: "ri_inv inv view s" and used: "\<not> ri_never_used s" and lt: "ri_cur_row s < ri_rle_row_count s"
    and sc: "ri_cur_scanned_count s < unat (ri_rle_block s ! ri_cur_row s)"
    and s': "s' = s\<lparr>ri_cur_scanned_count := Suc (ri_cur_scanned_count s),
      ri_row_scanned_count := Suc (ri_row_scanned_count s)\<rparr>"
  shows "ri_view view s = ri_cur_element s # ri_view view s' \<and> ri_inv inv view s'"
proof -
  have live: "ri_live s" "ri_live s'" using nv lt sc by (auto simp: ri_inv_def ri_live_def s')
  have v: "ri_view view s = ri_cur_element s # ri_view view s'"
    using lt used ri_rest_Cons [OF live(1)] ri_rest_Cons [OF live(2)] sc
    by (simp add: ri_view_def ri_elems_def s' Suc_diff_Suc [symmetric])
  with nv live show ?thesis by (auto simp: ri_inv_def s' ri_elems_def)
qed

lemma ri_next_run:
  fixes s :: "('s, 'a) rle_iter"
  assumes nv: "ri_inv inv view s" and used: "\<not> ri_never_used s" and lt: "ri_cur_row s < ri_rle_row_count s"
    and sc: "ri_cur_scanned_count s = unat (ri_rle_block s ! ri_cur_row s)"
    and s1: "s1 = s\<lparr>ri_cur_row := Suc (ri_cur_row s), ri_cur_scanned_count := 0\<rparr>"
  shows "(ri_rle_row_count s \<le> Suc (ri_cur_row s) \<longrightarrow>
        ri_view view s = [] \<and> ri_view view s1 = [] \<and> ri_inv inv view s1)
    \<and> (Suc (ri_cur_row s) < ri_rle_row_count s \<longrightarrow>
        (\<exists>x s2. ri_get_next_element I s1 = Some (Some x, s2)
          \<and> ri_inv inv view (s2\<lparr>ri_cur_element := x\<rparr>)
          \<and> ri_view view (s2\<lparr>ri_cur_element := x\<rparr>) = ri_view view s \<and> \<not> ri_never_used s2
          \<and> ri_cur_row s2 = Suc (ri_cur_row s) \<and> ri_rle_block s2 = ri_rle_block s
          \<and> ri_rle_row_count s2 = ri_rle_row_count s))"
proof (intro conjI impI)
  have live: "ri_live s" using nv lt by (simp add: ri_inv_def)
  have len: "length (view (ri_block_iter s)) = ri_rle_row_count s - Suc (ri_cur_row s)"
    and n: "ri_rle_row_count s = length (ri_rle_block s)" and j: "inv (ri_block_iter s)"
    using nv lt used by (auto simp: ri_inv_def ri_elems_def)
  have v: "ri_view view s = expand (drop (Suc (ri_cur_row s)) (ri_rle_block s)) (view (ri_block_iter s))"
    using lt used ri_rest_Cons [OF live] sc by (simp add: ri_view_def ri_elems_def)
  {
    assume "ri_rle_row_count s \<le> Suc (ri_cur_row s)"
    then show "ri_view view s = []" and "ri_view view s1 = []" and "ri_inv inv view s1"
      using v n nv by (auto simp: ri_inv_def s1 ri_view_def)
  next
    assume more: "Suc (ri_cur_row s) < ri_rle_row_count s"
    with len obtain x rest where xr: "view (ri_block_iter s) = x # rest"
      by (cases "view (ri_block_iter s)") auto
    from ri_get_next [of s1 x rest] xr j obtain inner where
      g: "ri_get_next_element I s1 = Some (Some x, s1\<lparr>ri_block_iter := inner\<rparr>)" "inv inner" "view inner = rest"
      by (auto simp: s1)
    let ?s2 = "s1\<lparr>ri_block_iter := inner\<rparr>"
    have v2: "ri_view view (?s2\<lparr>ri_cur_element := x\<rparr>) = ri_view view s"
      using used more g v xr by (simp add: ri_view_def ri_elems_def ri_rest_def s1)
    have "ri_inv inv view (?s2\<lparr>ri_cur_element := x\<rparr>)"
      using v2 nv more n g len xr used by (auto simp: ri_inv_def ri_live_def s1 ri_elems_def)
    with g v2 used show "\<exists>x s2. ri_get_next_element I s1 = Some (Some x, s2)
          \<and> ri_inv inv view (s2\<lparr>ri_cur_element := x\<rparr>)
          \<and> ri_view view (s2\<lparr>ri_cur_element := x\<rparr>) = ri_view view s \<and> \<not> ri_never_used s2
          \<and> ri_cur_row s2 = Suc (ri_cur_row s) \<and> ri_rle_block s2 = ri_rle_block s
          \<and> ri_rle_row_count s2 = ri_rle_row_count s"
      by (intro exI [of _ x] exI [of _ ?s2]) (simp add: s1)
  }
qed

lemma ri_loop_spec:
  fixes s :: "('s, 'a) rle_iter"
  assumes "ri_inv inv view s" and "\<not> ri_never_used s" and "ri_cur_row s < ri_rle_row_count s"
    and "c = ri_rle_block s ! ri_cur_row s" and "e \<noteq> Some 0" and "pa_wf b"
    and "e = None \<or> (\<exists>k. e = Some k \<and> cnt \<le> k)"
    and "n = batch_len (map_option (\<lambda>k. k - cnt) e) (length (ri_view view s))"
  shows "\<exists>b' s'. ri_loop I d e cnt c b s = Some (cnt + n, b', s') \<and> pa_wf b'
    \<and> pa_items b' = pa_items b @ take n (ri_view view s) \<and> ri_inv inv view s'
    \<and> ri_view view s' = drop n (ri_view view s)"
  using assms
proof (induction "length (ri_view view s) + (ri_rle_row_count s - ri_cur_row s)"
    arbitrary: s cnt c b n rule: less_induct)
  case less
  note nv = less.prems(1) and used = less.prems(2) and lt = less.prems(3) and c = less.prems(4)
    and e = less.prems(5) and wf = less.prems(6) and le = less.prems(7) and n = less.prems(8)
  show ?case
  proof (cases "\<exists>k. e = Some k \<and> cnt \<ge> k")
    case True
    then show ?thesis
      using n e wf nv by (subst ri_loop.simps) (auto simp: batch_len_def)
  next
    case go: False
    show ?thesis
    proof (cases "ri_cur_scanned_count s < unat c")
      case True
      let ?s = "s\<lparr>ri_cur_scanned_count := Suc (ri_cur_scanned_count s),
        ri_row_scanned_count := Suc (ri_row_scanned_count s)\<rparr>"
      from ri_push_step [OF nv used lt _ refl] True c
      have v: "ri_view view s = ri_cur_element s # ri_view view ?s" and nv': "ri_inv inv view ?s" by auto
      obtain m where m: "n = Suc m"
          "m = batch_len (map_option (\<lambda>k. k - Suc cnt) e) (length (ri_view view ?s))"
        using n go v by (cases e) (auto simp: batch_len_def)
      have "\<exists>b' s'. ri_loop I d e (Suc cnt) c (pa_push d (ri_cur_element s) b) ?s = Some (Suc cnt + m, b', s')
          \<and> pa_wf b' \<and> pa_items b' = pa_items (pa_push d (ri_cur_element s) b) @ take m (ri_view view ?s)
          \<and> ri_inv inv view s' \<and> ri_view view s' = drop m (ri_view view ?s)"
        using v used lt c e wf le go m(2) by (intro less.hyps nv') auto
      moreover have "ri_loop I d e cnt c b s = ri_loop I d e (Suc cnt) c (pa_push d (ri_cur_element s) b) ?s"
        using go True e by (subst ri_loop.simps) (auto split: option.splits)
      ultimately show ?thesis using m(1) v wf by simp
    next
      case False
      then have sc: "ri_cur_scanned_count s = unat (ri_rle_block s ! ri_cur_row s)"
        using nv lt c by (simp add: ri_inv_def ri_live_def)
      note run = ri_next_run [OF nv used lt sc refl]
      show ?thesis
      proof (cases "ri_rle_row_count s \<le> Suc (ri_cur_row s)")
        case True
        with run False go e wf n show ?thesis
          by (subst ri_loop.simps) (auto simp: batch_len_def Let_def split: option.splits)
      next
        case more: False
        with run obtain x s2 where g: "ri_get_next_element I
              (s\<lparr>ri_cur_row := Suc (ri_cur_row s), ri_cur_scanned_count := 0\<rparr>) = Some (Some x, s2)"
            "ri_inv inv view (s2\<lparr>ri_cur_element := x\<rparr>)" "ri_view view (s2\<lparr>ri_cur_element := x\<rparr>) = ri_view view s"
            "\<not> ri_never_used s2" "ri_cur_row s2 = Suc (ri_cur_row s)" "ri_rle_block s2 = ri_rle_block s"
            "ri_rle_row_count s2 = ri_rle_row_count s" by auto
        have idx: "Suc (ri_cur_row s) < length (ri_rle_block s)" using more nv by (simp add: ri_inv_def)
        let ?c = "ri_rle_block s ! Suc (ri_cur_row s)"
        have "\<exists>b' s'. ri_loop I d e cnt ?c b (s2\<lparr>ri_cur_element := x\<rparr>) = Some (cnt + n, b', s')
            \<and> pa_wf b' \<and> pa_items b' = pa_items b @ take n (ri_view view (s2\<lparr>ri_cur_element := x\<rparr>))
            \<and> ri_inv inv view s' \<and> ri_view view s' = drop n (ri_view view (s2\<lparr>ri_cur_element := x\<rparr>))"
          using g more e wf le n by (intro less.hyps g(2)) auto
        moreover have "ri_loop I d e cnt c b s = ri_loop I d e cnt ?c b (s2\<lparr>ri_cur_element := x\<rparr>)"
          using go False e g more idx
          by (subst ri_loop.simps) (auto simp: Let_def ri_get_cur_rle_count_def index_at_def split: option.splits)
        ultimately show ?thesis using g by simp
      qed
    qed
  qed
qed

lemma ri_next_spec:
  fixes s :: "('s, 'a) rle_iter"
  assumes nv: "ri_inv inv view s" and e: "e \<noteq> Some 0" and wf: "pa_wf b"
    and n: "n = batch_len e (length (ri_view view s))"
  shows "\<exists>b' s'. ri_next_batch I d e b s = Some (n, b', s') \<and> pa_wf b'
    \<and> pa_items b' = pa_items b @ take n (ri_view view s) \<and> ri_inv inv view s'
    \<and> ri_view view s' = drop n (ri_view view s)"
proof (cases "ri_cur_row s < ri_rle_row_count s")
  case False
  with n batch_len_le [of e 0] have "n = 0" by (simp add: ri_view_def)
  with False nv wf show ?thesis by (simp add: ri_next_batch_def)
next
  case True
  have n': "n = batch_len (map_option (\<lambda>k. k - 0) e) (length (ri_view view s))"
    using n by (simp add: option.map_ident)
  have le: "e = None \<or> (\<exists>k. e = Some k \<and> 0 \<le> k)" by (cases e) auto
  have idx: "ri_cur_row s < length (ri_rle_block s)" using True nv by (simp add: ri_inv_def)
  show ?thesis
  proof (cases "ri_never_used s")
    case False
    from ri_loop_spec [OF nv False True refl e wf le n', of d] False True idx
    show ?thesis by (simp add: ri_next_batch_def ri_get_cur_rle_count_def index_at_def)
  next
    case unused: True
    with nv True obtain x rest where xr: "view (ri_block_iter s) = x # rest" and j: "inv (ri_block_iter s)"
      by (cases "view (ri_block_iter s)") (auto simp: ri_inv_def ri_elems_def)
    from ri_get_next [of "s\<lparr>ri_never_used := False\<rparr>" x rest] xr j obtain inner where
      g: "ri_get_next_element I (s\<lparr>ri_never_used := False\<rparr>)
        = Some (Some x, s\<lparr>ri_never_used := False, ri_block_iter := inner\<rparr>)" "inv inner" "view inner = rest"
      by auto
    define s1 where "s1 = s\<lparr>ri_never_used := False, ri_block_iter := inner, ri_cur_element := x\<rparr>"
    have v1: "ri_view view s1 = ri_view view s"
      using unused g xr by (simp add: s1_def ri_view_def ri_elems_def ri_rest_def)
    have nv1: "ri_inv inv view s1"
      using v1 nv unused g xr by (auto simp: s1_def ri_inv_def ri_elems_def ri_live_def)
    have s1: "\<not> ri_never_used s1" "ri_cur_row s1 < ri_rle_row_count s1"
        "ri_rle_block s ! ri_cur_row s = ri_rle_block s1 ! ri_cur_row s1"
      using True by (simp_all add: s1_def)
    have "ri_next_batch I d e b s = ri_loop I d e 0 (ri_rle_block s ! ri_cur_row s) b s1"
      using True unused g idx by (simp add: ri_next_batch_def ri_get_cur_rle_count_def s1_def index_at_def)
    with ri_loop_spec [OF nv1 s1 e wf le, of n d] n' v1 show ?thesis by simp
  qed
qed

lemma ri_skip_spec:
  fixes s :: "('s, 'a) rle_iter"
  assumes nv: "ri_inv inv view s"
    and k: "k < length (ri_view view s) \<or> k = length (ri_view view s) \<and> ri_never_used s"
  shows "\<exists>s'. ri_skip I k s = Some s' \<and> ri_inv inv view s' \<and> ri_view view s' = drop k (ri_view view s)"
proof (cases "ri_cur_row s < ri_rle_row_count s")
  case False
  then have "k = 0" using k by (auto simp: ri_view_def)
  with nv show ?thesis by (simp add: ri_skip_def ri_skip_loop.simps)
next
  case lt: True
  with nv have live: "ri_live s" and n: "ri_rle_row_count s = length (ri_rle_block s)"
    and len: "length (ri_elems view s) = ri_rle_row_count s - ri_cur_row s" and j: "inv (ri_block_iter s)"
    by (auto simp: ri_inv_def)
  have vs: "ri_view view s = ri_rest s (ri_elems view s)" using lt by (simp add: ri_view_def)
  have "k \<le> length (ri_rest s (ri_elems view s))" using k by (auto simp: vs)
  from ri_skip_loop_spec [OF live n len this, of 0] obtain m sc s' where
    s': "s' = s\<lparr>ri_cur_row := ri_cur_row s + m, ri_cur_scanned_count := sc,
        ri_row_scanned_count := ri_row_scanned_count s + k\<rparr>"
    and loop: "ri_skip_loop k 0 s = Some (m, s')" and mle: "m \<le> length (ri_elems view s)"
    and more: "m < length (ri_elems view s) \<longrightarrow> ri_live s'
      \<and> ri_rest s' (drop m (ri_elems view s)) = drop k (ri_view view s)"
    and all: "m = length (ri_elems view s) \<longrightarrow> k = length (ri_view view s)"
    by (auto simp: Let_def vs)
  have view': "ri_view view t = drop k (ri_view view s) \<and> ri_inv inv view t"
    if "t = s'\<lparr>ri_block_iter := i, ri_cur_element := x\<rparr>" "inv i" "ri_elems view t = drop m (ri_elems view s)" for t i x
  proof -
    have fields: "ri_rle_row_count t = ri_rle_row_count s" "ri_cur_row t = ri_cur_row s + m" "ri_rest t = ri_rest s'"
      by (simp_all add: that(1) s' ri_rest_def fun_eq_iff)
    have "ri_view view t = drop k (ri_view view s)"
    proof (cases "m < length (ri_elems view s)")
      case True
      with len have "\<not> ri_rle_row_count s \<le> ri_cur_row s + m" by linarith
      then have "ri_view view t = ri_rest s' (drop m (ri_elems view s))"
        unfolding ri_view_def [of view t] fields that(3) by (simp only: if_False)
      with True more show ?thesis by simp
    next
      case False
      with mle len lt have "ri_view view t = []" unfolding ri_view_def [of view t] fields by simp
      with False mle all show ?thesis by simp
    qed
    then show ?thesis using that nv more mle len k lt by (auto simp: ri_inv_def ri_live_def s')
  qed
  show ?thesis
  proof (cases "m = 0")
    case True
    with view' [where t = s' and i = "ri_block_iter s" and x = "ri_cur_element s"] j loop show ?thesis
      by (simp add: ri_skip_def s' ri_elems_def)
  next
    case False
    have m: "m - 1 < length (view (ri_block_iter s))"
      using mle False all k by (auto simp: ri_elems_def split: if_splits)
    from skip_one [OF j m] obtain i1 where i1: "bi_skip I (m - 1) (ri_block_iter s) = Some i1" "inv i1"
        "view i1 = drop (m - 1) (view (ri_block_iter s))" by blast
    then obtain x rest' where xr: "view i1 = x # rest'" using m by (cases "drop (m - 1) (view (ri_block_iter s))") auto
    from ri_get_next [of "s'\<lparr>ri_block_iter := i1\<rparr>" x rest'] i1 xr obtain i2 where
      g: "ri_get_next_element I (s'\<lparr>ri_block_iter := i1\<rparr>) = Some (Some x, s'\<lparr>ri_block_iter := i2\<rparr>)"
        "inv i2" "view i2 = rest'" by auto
    have run: "ri_skip I k s = Some (s'\<lparr>ri_block_iter := i2, ri_cur_element := x\<rparr>)"
      using loop False i1 g by (simp add: ri_skip_def) (simp add: s')
    have tl: "rest' = drop m (view (ri_block_iter s))"
      using xr i1(3) False by (metis Suc_pred' bot_nat_0.not_eq_extremum drop_Suc list.sel(3) tl_drop)
    have "ri_elems view (s'\<lparr>ri_block_iter := i2, ri_cur_element := x\<rparr>) = drop m (ri_elems view s)"
      using g tl xr i1(3) False by (cases m) (auto simp: ri_elems_def s')
    with run view' [OF refl g(2)] show ?thesis by blast
  qed
qed

lemma rle_appending: "appending_iterator (rle_bi I d) (ri_inv inv view) (ri_view view)"
proof unfold_locales
  fix s :: "('s, 'a) rle_iter"
  assume "ri_inv inv view s"
  then show "bi_remaining_items (rle_bi I d) s = Some (length (ri_view view s))"
    by (auto simp: rle_bi_def ri_remaining_items_def ri_inv_def)
qed (auto simp: rle_bi_def ri_next_spec ri_skip_spec)

end

section \<open>Writing a run-length block\<close>

definition rb_runs :: "('b, 'a, 'z) block_builder_scheme \<Rightarrow> 'b \<Rightarrow> 'a option list \<Rightarrow> ('b, 'a) rle_builder \<Rightarrow> 'a option list \<Rightarrow> bool" where
  "rb_runs B new xs b es \<longleftrightarrow> fold_opt (bb_append B) es new = Some (rb_block_builder b)
     \<and> expand (rb_rle_counts b @ [rb_cur_count b]) es = xs
     \<and> length es = Suc (length (rb_rle_counts b)) \<and> last es = rb_previous_value b
     \<and> rb_cur_count b \<noteq> 0 \<and> 0 \<notin> set (rb_rle_counts b) \<and> subseq es xs"

lemma expand_append: "length cs = length es \<Longrightarrow> expand (cs @ cs') (es @ es') = expand cs es @ expand cs' es'"
  by (simp add: expand_def)

lemma fold_opt_snoc: "fold_opt f (xs @ [x]) s = do { s' \<leftarrow> fold_opt f xs s; f x s' }"
  by (induction xs arbitrary: s) (auto split: Option.bind_splits)

lemma rb_append_runs:
  assumes runs: "rb_runs B new xs b es" and step: "rb_append B v b = Some b'"
  shows "\<exists>es'. rb_runs B new (xs @ [v]) b' es'"
proof (cases "v \<noteq> rb_previous_value b \<or> rb_cur_count b = 0xFFFFFFFF")
  case True
  with step runs have "rb_runs B new (xs @ [v]) b' (es @ [v])"
    using expand_append [of "rb_rle_counts b @ [rb_cur_count b]" es "[1]" "[v]"]
    by (auto simp: rb_runs_def rb_append_def fold_opt_snoc list_emb_append_mono)
  then show ?thesis by blast
next
  case False
  from runs obtain es' where es: "es = es' @ [v]" "length es' = length (rb_rle_counts b)"
    using False by (cases es rule: rev_cases) (auto simp: rb_runs_def)
  have unat: "unat (rb_cur_count b + 1) = Suc (unat (rb_cur_count b))"
    using False unsigned_less [of "rb_cur_count b", where 'a = nat]
    by (auto simp: unat_word_ariths word_unat_eq_iff)
  have "subseq es' xs"
    using runs es by (metis rb_runs_def prefixI prefix_imp_subseq subseq_order.order_trans)
  with unat step runs es False have "rb_runs B new (xs @ [v]) b' es"
    by (auto simp: rb_runs_def rb_append_def expand_append replicate_append_same)
  then show ?thesis by blast
qed

lemma rb_fold_runs:
  "fold_opt (rb_append B) xs (rb_new new) = Some b \<Longrightarrow> xs \<noteq> [] \<Longrightarrow> \<exists>es. rb_runs B new xs b es"
proof (induction xs arbitrary: b rule: rev_induct)
  case (snoc v xs)
  then obtain b0 where b0: "fold_opt (rb_append B) xs (rb_new new) = Some b0" "rb_append B v b0 = Some b"
    by (auto simp: fold_opt_snoc)
  show ?case
  proof (cases "xs = []")
    case True
    then have "rb_runs B new [v] b [v]"
      using b0 by (auto simp: rb_runs_def rb_append_def rb_new_def)
    with True show ?thesis by auto
  next
    case False
    with snoc.IH [OF b0(1)] rb_append_runs [OF _ b0(2)] show ?thesis by blast
  qed
qed simp

lemma length_expand: "length cs = length es \<Longrightarrow> length (expand cs es) = sum_list (map unat cs)"
  by (induction cs es rule: list_induct2) auto

lemma rle_bytes_le: "0 \<notin> set cs \<Longrightarrow> length (concat (map encode_32 cs)) \<le> sum_list (map unat cs)"
proof (induction cs)
  case (Cons c cs)
  then have "1 \<le> unat c" by (simp add: Suc_le_eq word_neq_0_conv unat_gt_0)
  with Cons encode_32_length [of c] show ?case by simp
qed simp

text \<open>
  What an inner block must supply to be run-length encoded: it stores every subsequence of the
  rows, since one row per run is what it is given.
\<close>

locale rle_inner = block_codec I inv view B new opn norm fits
  for I :: "('s, 'a) block_iter" and inv :: "'s \<Rightarrow> bool" and view :: "'s \<Rightarrow> 'a option list"
    and B :: "('b, 'a, 'z) block_builder_scheme" and new :: 'b
    and opn :: "block \<Rightarrow> nat \<Rightarrow> 's option"
    and norm :: "'a option \<Rightarrow> 'a option" and fits :: "'a option list \<Rightarrow> bool" +
  assumes fits_sub: "fits xs \<Longrightarrow> subseq es xs \<Longrightarrow> fits es"
begin

lemma map_expand: "map f (expand cs es) = expand cs (map f es)"
  by (induction cs es rule: list_induct2') auto

lemma rle_open_finish:
  assumes run: "fold_opt (bb_append (rle_bb B)) xs (rb_new new) = Some b" and "xs \<noteq> []" and fits: "fits xs"
    and len: "length xs < 0xF0000000"
  shows "\<exists>s. rle_open opn (bb_finish (rle_bb B) b) n = Some s \<and> ri_inv inv view s
    \<and> ri_view view s = map norm xs"
proof -
  from rb_fold_runs [of B xs new b] run assms(2) obtain es where runs: "rb_runs B new xs b es"
    by (auto simp: rle_bb_def)
  define cs where "cs = rb_rle_counts b @ [rb_cur_count b]"
  have es: "fold_opt (bb_append B) es new = Some (rb_block_builder b)" "expand cs es = xs"
      "length cs = length es" "subseq es xs" "es \<noteq> []" "rb_cur_count b \<noteq> 0" "0 \<notin> set cs"
    using runs by (auto simp: rb_runs_def cs_def)
  have total: "sum_list (map unat cs) = length xs" using length_expand es by metis
  have small: "\<forall>c\<in>set cs. c < 0xF0000000"
    using total len member_le_sum_list [of _ "map unat cs"] by (fastforce simp: word_less_nat_alt)
  define rd where "rd = concat (map encode_32 cs)"
  have rd: "length rd < 2 ^ 32" using rle_bytes_le [OF es(7)] total len by (simp add: rd_def)
  have lcs: "length cs < 2 ^ 32" using list_emb_length [OF es(4)] es(3) len by simp
  have fin: "bb_finish (rle_bb B) b = le_bytes 4 (of_nat (length cs) :: u32)
      @ le_bytes 4 (of_nat (length rd) :: u32) @ rd @ bb_finish B (rb_block_builder b)"
    using es(6) by (simp add: rle_bb_def rb_finish_def rd_def cs_def Let_def)
  have dec: "decode_rle_block (bb_finish (rle_bb B) b) = Some (length cs, rd, bb_finish B (rb_block_builder b))"
    using rd lcs unfolding fin by (simp add: decode_rle_block_def Let_def)
  from open_finish [OF es(1,5) fits_sub [OF fits es(4)]] obtain i where
    i: "opn (bb_finish B (rb_block_builder b)) (length es) = Some i" "inv i" "view i = map norm es" by blast
  have cs: "cs \<noteq> []" by (simp add: cs_def)
  define s :: "('s, 'a) rle_iter" where "s = \<lparr>ri_block_iter = i, ri_rle_block = cs, ri_cur_row = 0,
     ri_cur_scanned_count = 0, ri_rle_row_count = length cs, ri_cur_element = None,
     ri_row_scanned_count = 0, ri_row_count = sum_list (map unat cs), ri_never_used = True\<rparr>"
  have "rle_open opn (bb_finish (rle_bb B) b) n = Some s"
    using i decode_u32_spec [OF small cs] es(3) by (simp add: rle_open_def dec ri_new_def s_def rd_def)
  moreover have v: "ri_view view s = map norm xs"
    using cs i es by (simp add: ri_view_def ri_rest_def ri_elems_def s_def map_expand [symmetric])
  moreover have "ri_inv inv view s"
    using v i cs es(3) total by (auto simp: ri_inv_def ri_live_def s_def ri_elems_def)
  ultimately show ?thesis by blast
qed

lemma rle_open_skip:
  assumes "rle_open opn blk n = Some s" and "ri_inv inv view s" and "k \<le> length (ri_view view s)"
  shows "\<exists>s'. bi_skip (rle_bi I d) k s = Some s' \<and> ri_inv inv view s' \<and> ri_view view s' = drop k (ri_view view s)"
proof -
  have "ri_never_used s"
    using assms(1) by (auto simp: rle_open_def dest: ri_new_unused)
  with ri_skip_spec [OF assms(2), of k] assms(3) show ?thesis by (auto simp: rle_bi_def le_less)
qed

lemma rle_reading_codec:
  "reading_codec (rle_bi I d) (ri_inv inv view) (ri_view view) (rle_bb B) (rb_new new) (rle_open opn)
     norm (\<lambda>xs. fits xs \<and> length xs < 0xF0000000)"
  by (intro reading_codec.intro reading_codec_axioms.intro
      appending_iterator.is_block_iterator [OF rle_appending]) (use rle_open_finish in auto)

end

end
