(* ===== verification/Dict_Block.thy ===== *)
theory Dict_Block
  imports Rle_Block
begin

text \<open>
  Dictionary blocks (\<open>dict_block_builder.rs\<close>, \<open>dict_block_iterator.rs\<close>): distinct values go to an
  inner block in the order of their first occurrence, and each row becomes an \<open>i32\<close> code in a
  run-length block. Codes count up from \<open>i32::MIN + 1\<close>; \<open>i32::MIN\<close> itself is the code of null. The
  hash maps are an association list (builder) and a partial map (iterator).
\<close>

definition DICT_NULL_VALUE_KEY :: u32 where
  "DICT_NULL_VALUE_KEY = 0x80000000"

definition i32_inc :: "u32 \<Rightarrow> u32 option" where
  "i32_inc x = (if x = 0x7FFFFFFF then None else Some (x + 1))"

type_synonym code_builder = "(primitive_builder, u32) rle_builder"
type_synonym code_iter = "(plain_iter, u32) rle_iter"

abbreviation code_bb :: "(code_builder, u32) block_builder" where
  "code_bb \<equiv> rle_bb (ppb i32_codec)"

abbreviation code_bi :: "(code_iter, u32) block_iter" where
  "code_bi \<equiv> rle_bi (ppi i32_codec) 0"

record ('b, 'a) dict_builder =
  db_dict_map :: "('a \<times> u32) list"
  db_data_builder :: 'b
  db_rle_builder :: code_builder
  db_cur_index :: u32

definition db_new :: "('b, 'a, 'z) block_builder_scheme \<Rightarrow> 'b \<Rightarrow> ('b, 'a) dict_builder" where
  "db_new B block_builder = \<lparr>db_dict_map = [], db_data_builder = block_builder,
     db_rle_builder = rb_new (ppb_new (bb_estimated_size B block_builder)),
     db_cur_index = DICT_NULL_VALUE_KEY\<rparr>"

definition db_append ::
  "('b, 'a, 'z) block_builder_scheme \<Rightarrow> 'a option \<Rightarrow> ('b, 'a) dict_builder \<Rightarrow> ('b, 'a) dict_builder option" where
  "db_append B item b = do {
     (key, b) \<leftarrow>
       (case item of
          None \<Rightarrow> Some (DICT_NULL_VALUE_KEY, b)
        | Some x \<Rightarrow>
            (case map_of (db_dict_map b) x of
               Some key \<Rightarrow> Some (key, b)
             | None \<Rightarrow> do {
                 key \<leftarrow> i32_inc (db_cur_index b);
                 data \<leftarrow> bb_append B (Some x) (db_data_builder b);
                 Some (key, b\<lparr>db_cur_index := key, db_data_builder := data,
                   db_dict_map := (x, key) # db_dict_map b\<rparr>) }));
     rle \<leftarrow> bb_append code_bb (Some key) (db_rle_builder b);
     Some (b\<lparr>db_rle_builder := rle\<rparr>) }"

definition db_estimated_size :: "('b, 'a, 'z) block_builder_scheme \<Rightarrow> ('b, 'a) dict_builder \<Rightarrow> nat" where
  "db_estimated_size B b = 2 * 4 + bb_estimated_size code_bb (db_rle_builder b)
     + bb_estimated_size B (db_data_builder b)"

definition db_get_statistics :: "('b, 'a) dict_builder \<Rightarrow> block_statistics list option" where
  "db_get_statistics b = Some (distinct_stat (length (db_dict_map b)))"

definition db_should_finish ::
  "('b, 'a, 'z) block_builder_scheme \<Rightarrow> 'a option \<Rightarrow> ('b, 'a) dict_builder \<Rightarrow> bool" where
  "db_should_finish B next_item b \<longleftrightarrow> bb_should_finish B next_item (db_data_builder b)
     \<or> bb_should_finish code_bb (Some DICT_NULL_VALUE_KEY) (db_rle_builder b)"

definition db_finish :: "('b, 'a, 'z) block_builder_scheme \<Rightarrow> ('b, 'a) dict_builder \<Rightarrow> block" where
  "db_finish B b =
     (let rle_block = bb_finish code_bb (db_rle_builder b)
      in be_bytes 8 (of_nat (length rle_block) :: u64) @ be_bytes 4 (of_nat (length (db_dict_map b)) :: u32)
         @ rle_block @ bb_finish B (db_data_builder b))"

definition dict_bb :: "('b, 'a, 'z) block_builder_scheme \<Rightarrow> (('b, 'a) dict_builder, 'a) block_builder" where
  "dict_bb B = \<lparr>bb_append = db_append B, bb_estimated_size = db_estimated_size B,
     bb_get_statistics = db_get_statistics, bb_should_finish = db_should_finish B,
     bb_finish = db_finish B, bb_get_target_size = (\<lambda>b. bb_get_target_size B (db_data_builder b))\<rparr>"

definition decode_dict_block :: "block \<Rightarrow> (nat \<times> block \<times> block) option" where
  "decode_dict_block data = do {
     (rle_length :: u64, buffer) \<leftarrow> get_be 8 data;
     (dict_count_sum :: u32, buffer) \<leftarrow> get_be 4 buffer;
     rle_block \<leftarrow> slice_range 12 (unat rle_length + 12) data;
     dict_block \<leftarrow> slice_from (unat rle_length + 12) data;
     Some (unat dict_count_sum, dict_block, rle_block) }"

record 'a dict_iter =
  di_rle_iter :: code_iter
  di_dict :: "u32 \<rightharpoonup> 'a"

fun dict_fill :: "u32 \<Rightarrow> 'a option list \<Rightarrow> (u32 \<rightharpoonup> 'a) \<Rightarrow> (u32 \<rightharpoonup> 'a) option" where
  "dict_fill code [] dict = Some dict"
| "dict_fill code (None # items) dict = None"
| "dict_fill code (Some x # items) dict = do {
     next \<leftarrow> i32_inc code;
     dict_fill next items (dict(code \<mapsto> x)) }"

definition di_new ::
  "('s, 'a) block_iter \<Rightarrow> 's \<Rightarrow> block \<Rightarrow> nat \<Rightarrow> 'a dict_iter option" where
  "di_new I dict_iter rle_block dict_num = do {
     (_, b, _) \<leftarrow> bi_next_batch I (Some dict_num) pa_new dict_iter;
     let items = fst (pa_take b);
     rust_assert (pa_len items = dict_num);
     (rle_num, rle_data, block_data) \<leftarrow> decode_rle_block rle_block;
     vs \<leftarrow> pa_to_vec items;
     dict \<leftarrow> dict_fill (DICT_NULL_VALUE_KEY + 1) vs Map.empty;
     rle_iter \<leftarrow> ri_new (ppi_new block_data rle_num) rle_data rle_num;
     Some \<lparr>di_rle_iter = rle_iter, di_dict = dict\<rparr> }"

fun di_push_codes :: "(u32 \<rightharpoonup> 'a) \<Rightarrow> 'a \<Rightarrow> u32 option list \<Rightarrow> 'a array \<Rightarrow> 'a array option" where
  "di_push_codes dict d [] b = Some b"
| "di_push_codes dict d (None # codes) b = None"
| "di_push_codes dict d (Some code # codes) b =
     di_push_codes dict d codes
       (if code = DICT_NULL_VALUE_KEY then pa_push d None b else pa_push d (dict code) b)"

definition di_next_batch :: "'a \<Rightarrow> ('a dict_iter, 'a) next_batch" where
  "di_next_batch d expected_size b s = do {
     (size, code_array, rle_iter) \<leftarrow> bi_next_batch code_bi expected_size pa_new (di_rle_iter s);
     codes \<leftarrow> pa_to_vec (pa_finish code_array);
     b \<leftarrow> di_push_codes (di_dict s) d codes b;
     Some (size, b, s\<lparr>di_rle_iter := rle_iter\<rparr>) }"

definition di_skip :: "nat \<Rightarrow> 'a dict_iter \<Rightarrow> 'a dict_iter option" where
  "di_skip cnt s = do {
     rle_iter \<leftarrow> bi_skip code_bi cnt (di_rle_iter s);
     Some (s\<lparr>di_rle_iter := rle_iter\<rparr>) }"

definition di_remaining_items :: "'a dict_iter \<Rightarrow> nat option" where
  "di_remaining_items s = bi_remaining_items code_bi (di_rle_iter s)"

definition dict_bi :: "'a \<Rightarrow> ('a dict_iter, 'a) block_iter" where
  "dict_bi d = \<lparr>bi_next_batch = di_next_batch d, bi_skip = di_skip, bi_remaining_items = di_remaining_items\<rparr>"

text \<open>Opening a dictionary block: split it, open the values, load the dictionary.\<close>

definition dict_open ::
  "('s, 'a) block_iter \<Rightarrow> (block \<Rightarrow> nat \<Rightarrow> 's option) \<Rightarrow> block \<Rightarrow> nat \<Rightarrow> 'a dict_iter option" where
  "dict_open I opn data row_count = do {
     (dict_size, dict_values, rle_block) \<leftarrow> decode_dict_block data;
     dict_iter \<leftarrow> opn dict_values dict_size;
     di_new I dict_iter rle_block dict_size }"

section \<open>Reading\<close>

abbreviation code_inv :: "code_iter \<Rightarrow> bool" where
  "code_inv \<equiv> ri_inv (ppi_inv i32_codec (\<lambda>_. True)) (ppi_view i32_codec)"

abbreviation code_view :: "code_iter \<Rightarrow> u32 option list" where
  "code_view \<equiv> ri_view (ppi_view i32_codec)"

interpretation i32_plain: reading_codec "ppi i32_codec" "ppi_inv i32_codec (\<lambda>_. True)" "ppi_view i32_codec"
  "ppb i32_codec" "ppb_new t" "\<lambda>blk n. Some (ppi_new blk n)" "with_default (DEFAULT_VALUE i32_codec)"
  "\<lambda>xs. \<forall>v. Some v \<in> set xs \<longrightarrow> True" for t
  by (rule i32_law.ppb_codec)

interpretation codes: rle_inner "ppi i32_codec" "ppi_inv i32_codec (\<lambda>_. True)" "ppi_view i32_codec"
  "ppb i32_codec" "ppb_new t" "\<lambda>blk n. Some (ppi_new blk n)" "with_default (DEFAULT_VALUE i32_codec)"
  "\<lambda>xs. \<forall>v. Some v \<in> set xs \<longrightarrow> True" for t
  by unfold_locales simp

interpretation code_iter: appending_iterator code_bi code_inv code_view
  by (rule i32_plain.rle_appending)

definition dict_decode :: "(u32 \<rightharpoonup> 'a) \<Rightarrow> u32 option \<Rightarrow> 'a option" where
  "dict_decode dict v = (case v of Some c \<Rightarrow> if c = DICT_NULL_VALUE_KEY then None else dict c | None \<Rightarrow> None)"

definition di_view :: "'a dict_iter \<Rightarrow> 'a option list" where
  "di_view s = map (dict_decode (di_dict s)) (code_view (di_rle_iter s))"

definition di_inv :: "'a dict_iter \<Rightarrow> bool" where
  "di_inv s \<longleftrightarrow> code_inv (di_rle_iter s) \<and> None \<notin> set (code_view (di_rle_iter s))"

lemma di_push_codes_spec:
  "None \<notin> set vs \<Longrightarrow> pa_wf b \<Longrightarrow> \<exists>b'. di_push_codes dict d vs b = Some b' \<and> pa_wf b'
     \<and> pa_items b' = pa_items b @ map (dict_decode dict) vs"
proof (induction vs arbitrary: b)
  case (Cons v vs)
  then obtain c where "v = Some c" by (cases v) auto
  with Cons.IH [of "if c = DICT_NULL_VALUE_KEY then pa_push d None b else pa_push d (dict c) b"] Cons.prems
  show ?case by (auto simp: dict_decode_def)
qed simp

interpretation dict_iter: appending_iterator "dict_bi d" di_inv di_view
proof unfold_locales
  fix s :: "'a dict_iter" and e n
  fix b :: "'a array"
  assume inv: "di_inv s" and e: "e \<noteq> Some 0" and wf: "pa_wf b" and n: "n = batch_len e (length (di_view s))"
  have n': "n = batch_len e (length (code_view (di_rle_iter s)))" using n by (simp add: di_view_def)
  from code_iter.next_any [OF _ e pa_wf_new n'] inv obtain a' r where
    r: "bi_next_batch code_bi e pa_new (di_rle_iter s) = Some (n, a', r)" "pa_wf a'"
      "pa_items a' = take n (code_view (di_rle_iter s))" "code_inv r"
      "code_view r = drop n (code_view (di_rle_iter s))"
    by (auto simp: di_inv_def)
  have "None \<notin> set (pa_items a')" using inv r(3) by (auto simp: di_inv_def dest: in_set_takeD)
  from di_push_codes_spec [OF this wf, of "di_dict s" d] r inv
  show "\<exists>b' s'. bi_next_batch (dict_bi d) e b s = Some (n, b', s') \<and> pa_wf b'
      \<and> pa_items b' = pa_items b @ take n (di_view s) \<and> di_inv s' \<and> di_view s' = drop n (di_view s)"
    by (auto simp: dict_bi_def di_next_batch_def pa_to_vec_eq di_view_def di_inv_def take_map drop_map
        dest: in_set_dropD)
next
  fix s :: "'a dict_iter" and k
  assume "di_inv s" and "k < length (di_view s)"
  with code_iter.skip_any [of "di_rle_iter s" k]
  show "\<exists>s'. bi_skip (dict_bi d) k s = Some s' \<and> di_inv s' \<and> di_view s' = drop k (di_view s)"
    by (auto simp: dict_bi_def di_skip_def di_inv_def di_view_def drop_map dest: in_set_dropD)
next
  fix s :: "'a dict_iter"
  assume "di_inv s"
  then show "bi_remaining_items (dict_bi d) s = Some (length (di_view s))"
    using code_iter.remaining_any [of "di_rle_iter s"]
    by (simp add: dict_bi_def di_remaining_items_def di_inv_def di_view_def)
qed

section \<open>Writing\<close>

definition dict_key :: "nat \<Rightarrow> u32" where
  "dict_key i = DICT_NULL_VALUE_KEY + 1 + of_nat i"

definition code_of :: "'a list \<Rightarrow> 'a option \<Rightarrow> u32" where
  "code_of es v = (case v of None \<Rightarrow> DICT_NULL_VALUE_KEY
     | Some x \<Rightarrow> the (map_of (zip es (map dict_key [0..<length es])) x))"

lemma of_nat_u32_inj: "i < 2 ^ 32 \<Longrightarrow> j < 2 ^ 32 \<Longrightarrow> (of_nat i :: u32) = of_nat j \<longleftrightarrow> i = j"
  by (simp add: word_of_nat_eq_iff take_bit_nat_eq_self)

lemma dict_key_inj: "i < 2 ^ 32 \<Longrightarrow> j < 2 ^ 32 \<Longrightarrow> dict_key i = dict_key j \<longleftrightarrow> i = j"
  by (simp add: dict_key_def of_nat_u32_inj)

lemma dict_key_Suc: "i + 2 < 2 ^ 32 \<Longrightarrow> i32_inc (dict_key i) = Some (dict_key (Suc i))"
proof -
  assume i: "i + 2 < 2 ^ 32"
  have "dict_key i \<noteq> 0x7FFFFFFF"
  proof
    assume "dict_key i = 0x7FFFFFFF"
    then have "dict_key i + 1 = DICT_NULL_VALUE_KEY" by (simp add: DICT_NULL_VALUE_KEY_def)
    then have "(of_nat (i + 2) :: u32) = of_nat 0" by (simp add: dict_key_def)
    with i of_nat_u32_inj [of "i + 2" 0] show False by simp
  qed
  then show ?thesis by (simp add: i32_inc_def dict_key_def)
qed

lemma dict_key_not_null: "i + 2 < 2 ^ 32 \<Longrightarrow> dict_key i \<noteq> DICT_NULL_VALUE_KEY"
  using of_nat_u32_inj [of "Suc i" 0] by (auto simp: dict_key_def)

lemma dict_fill_spec:
  "k + length es + 2 < 2 ^ 32 \<Longrightarrow> \<exists>m. dict_fill (dict_key k) (map Some es) dict = Some m
     \<and> (\<forall>i < length es. m (dict_key (k + i)) = Some (es ! i))
     \<and> (\<forall>i < k. m (dict_key i) = dict (dict_key i))"
proof (induction es arbitrary: k dict)
  case (Cons x es)
  then have inc: "i32_inc (dict_key k) = Some (dict_key (Suc k))" by (simp add: dict_key_Suc)
  have "Suc k + length es + 2 < 2 ^ 32" using Cons.prems by simp
  from Cons.IH [OF this, of "dict(dict_key k \<mapsto> x)"] obtain m where
    m: "dict_fill (dict_key (Suc k)) (map Some es) (dict(dict_key k \<mapsto> x)) = Some m"
      "\<forall>i < length es. m (dict_key (Suc k + i)) = Some (es ! i)"
      "\<forall>i < Suc k. m (dict_key i) = (dict(dict_key k \<mapsto> x)) (dict_key i)"
    by blast
  have "m (dict_key (k + i)) = Some ((x # es) ! i)" if "i < length (x # es)" for i
    using m that by (cases i) auto
  moreover have "m (dict_key i) = dict (dict_key i)" if "i < k" for i
    using m(3) that Cons.prems dict_key_inj [of i k] by simp
  ultimately show ?case using m(1) inc by simp
qed simp

lemma code_of_nth:
  "distinct es \<Longrightarrow> i < length es \<Longrightarrow> code_of es (Some (es ! i)) = dict_key i"
  by (simp add: code_of_def map_of_zip_nth)

lemma code_of_grow:
  assumes "v = None \<or> (\<exists>x. v = Some x \<and> x \<in> set es)" and "distinct (es @ [y])"
  shows "code_of (es @ [y]) v = code_of es v"
proof (cases v)
  case (Some x)
  then obtain i where "i < length es" "x = es ! i" using assms(1) by (auto simp: in_set_conv_nth)
  then show ?thesis
    using Some assms(2) code_of_nth [of es i] code_of_nth [of "es @ [y]" i] by (simp add: nth_append)
qed (simp add: code_of_def)

definition db_ok ::
  "('b, 'a, 'z) block_builder_scheme \<Rightarrow> 'b \<Rightarrow> 'a option list \<Rightarrow> ('b, 'a) dict_builder \<Rightarrow> 'a list \<Rightarrow> bool" where
  "db_ok B new xs b es \<longleftrightarrow> fold_opt (bb_append B) (map Some es) new = Some (db_data_builder b)
     \<and> map_of (db_dict_map b) = map_of (zip es (map dict_key [0..<length es]))
     \<and> length (db_dict_map b) = length es \<and> distinct es \<and> (\<forall>x. Some x \<in> set xs \<longleftrightarrow> x \<in> set es)
     \<and> db_cur_index b = DICT_NULL_VALUE_KEY + of_nat (length es) \<and> subseq (map Some es) xs
     \<and> fold_opt (bb_append code_bb) (map (Some \<circ> code_of es) xs)
          (rb_new (ppb_new (bb_estimated_size B new))) = Some (db_rle_builder b)"

lemma db_append_ok:
  assumes ok: "db_ok B new xs b es" and step: "db_append B v b = Some b'" and len: "length xs < 0xF0000000"
  shows "\<exists>es'. db_ok B new (xs @ [v]) b' es'"
proof (cases "\<exists>y. v = Some y \<and> y \<notin> set es")
  case True
  then obtain y where y: "v = Some y" "y \<notin> set es" by blast
  have les: "length es < 0xF0000000" using ok len list_emb_length [of "(=)" "map Some es" xs] by (simp add: db_ok_def)
  have none: "map_of (db_dict_map b) y = None"
    using ok y by (simp add: db_ok_def map_of_zip_is_None)
  have key: "db_cur_index b + 1 = dict_key (length es)" using ok by (simp add: db_ok_def dict_key_def)
  have d: "distinct (es @ [y])" using ok y by (simp add: db_ok_def)
  have grow: "map (Some \<circ> code_of (es @ [y])) xs = map (Some \<circ> code_of es) xs"
    using ok d by (auto simp: db_ok_def intro!: code_of_grow) (metis option.exhaust)
  have last: "code_of (es @ [y]) (Some y) = dict_key (length es)"
    using code_of_nth [OF d, of "length es"] by simp
  have mp: "map_of ((y, dict_key (length es)) # db_dict_map b)
      = map_of (zip (es @ [y]) (map dict_key [0..<length (es @ [y])]))"
    using ok y by (auto simp: db_ok_def fun_eq_iff map_add_def split: option.splits dest: set_zip_leftD)
  from step none y obtain data rle where st: "bb_append B (Some y) (db_data_builder b) = Some data"
      "bb_append code_bb (Some (dict_key (length es))) (db_rle_builder b) = Some rle"
      "b' = b\<lparr>db_cur_index := dict_key (length es), db_data_builder := data,
         db_dict_map := (y, dict_key (length es)) # db_dict_map b, db_rle_builder := rle\<rparr>"
    by (auto simp: db_append_def i32_inc_def key split: if_splits)
  have rle: "fold_opt (bb_append code_bb) (map (Some \<circ> code_of (es @ [y])) (xs @ [v]))
      (rb_new (ppb_new (bb_estimated_size B new))) = Some rle"
    unfolding map_append grow list.map fold_opt_snoc using ok st last y by (simp add: db_ok_def)
  have sub: "subseq (map Some (es @ [y])) (xs @ [v])" using ok y by (simp add: db_ok_def)
  have cur: "dict_key (length es) = DICT_NULL_VALUE_KEY + of_nat (length (es @ [y]))"
    by (simp add: dict_key_def)
  have fields: "db_data_builder b' = data" "db_dict_map b' = (y, dict_key (length es)) # db_dict_map b"
      "db_cur_index b' = dict_key (length es)" "db_rle_builder b' = rle"
    by (simp_all add: st(3))
  have "db_ok B new (xs @ [v]) b' (es @ [y])"
    unfolding db_ok_def fields
    by (intro conjI rle sub mp cur d) (use ok st(1) y in \<open>auto simp: db_ok_def fold_opt_snoc\<close>)
  then show ?thesis by blast
next
  case False
  then have v: "v = None \<or> (\<exists>x. v = Some x \<and> x \<in> set es)" by (cases v) auto
  obtain rle where rle: "bb_append code_bb (Some (code_of es v)) (db_rle_builder b) = Some rle"
      "b' = b\<lparr>db_rle_builder := rle\<rparr>"
  proof (cases v)
    case None
    with step that show thesis by (auto simp: db_append_def code_of_def)
  next
    case (Some x)
    then obtain i where i: "i < length es" "x = es ! i" using v by (auto simp: in_set_conv_nth)
    then have "map_of (db_dict_map b) x = Some (dict_key i)"
      using ok by (simp add: db_ok_def map_of_zip_nth)
    moreover have "code_of es v = dict_key i" using ok i Some code_of_nth by (auto simp: db_ok_def)
    ultimately show thesis using step Some that by (auto simp: db_append_def)
  qed
  have "subseq (map Some es) (xs @ [v])" using ok by (auto simp: db_ok_def subseq_rev_drop_many)
  moreover have "fold_opt (bb_append code_bb) (map (Some \<circ> code_of es) (xs @ [v]))
      (rb_new (ppb_new (bb_estimated_size B new))) = Some rle"
    using ok rle by (simp add: db_ok_def fold_opt_snoc)
  ultimately have "db_ok B new (xs @ [v]) b' es"
    unfolding db_ok_def using ok v by (auto simp: rle(2) db_ok_def)
  then show ?thesis by blast
qed

lemma db_fold_ok:
  "fold_opt (db_append B) xs (db_new B new) = Some b \<Longrightarrow> length xs < 0xF0000000 \<Longrightarrow> \<exists>es. db_ok B new xs b es"
proof (induction xs arbitrary: b rule: rev_induct)
  case Nil
  then have "db_ok B new [] b []" by (auto simp: db_ok_def db_new_def)
  then show ?case by blast
next
  case (snoc v xs)
  then obtain b0 where "fold_opt (db_append B) xs (db_new B new) = Some b0" "db_append B v b0 = Some b"
    by (auto simp: fold_opt_snoc)
  with snoc db_append_ok [of B new xs b0] show ?case by fastforce
qed

lemma code_block_length:
  assumes "fold_opt (bb_append code_bb) cs (rb_new (ppb_new t)) = Some b" and "cs \<noteq> []"
  shows "length (bb_finish code_bb b) \<le> 8 + 5 * length cs"
proof -
  from rb_fold_runs [of "ppb i32_codec" cs "ppb_new t" b] assms obtain es where
    runs: "rb_runs (ppb i32_codec) (ppb_new t) cs b es" by (auto simp: rle_bb_def)
  let ?counts = "rb_rle_counts b @ [rb_cur_count b]"
  have "sum_list (map unat ?counts) = length cs"
    using runs length_expand [of ?counts es] by (simp add: rb_runs_def)
  moreover have "0 \<notin> set ?counts" using runs by (auto simp: rb_runs_def)
  ultimately have "length (concat (map encode_32 ?counts)) \<le> length cs" using rle_bytes_le by metis
  moreover have "length (pb_data (rb_block_builder b)) = 4 * length es"
    using runs i32_law.ppb_fold [of es "ppb_new t" "rb_block_builder b"]
    by (simp add: rb_runs_def ppb_def ppb_new_def concat_map_length [where w = 4] i32_codec_def)
  moreover have "length es \<le> length cs"
    by (rule list_emb_length [of "(=)"]) (use runs in \<open>simp add: rb_runs_def\<close>)
  ultimately show ?thesis
    by (simp add: rle_bb_def rb_finish_def Let_def ppb_def ppb_finish_def)
qed

text \<open>
  What the block of distinct values must supply: it stores any subsequence of the rows, non-null
  values come back unchanged, and it can be opened when no value was stored (a block of nulls only).
\<close>

locale dict_inner = reading_codec I inv view B new opn norm fits
  for I :: "('s, 'a) block_iter" and inv :: "'s \<Rightarrow> bool" and view :: "'s \<Rightarrow> 'a option list"
    and B :: "('b, 'a, 'z) block_builder_scheme" and new :: 'b
    and opn :: "block \<Rightarrow> nat \<Rightarrow> 's option"
    and norm :: "'a option \<Rightarrow> 'a option" and fits :: "'a option list \<Rightarrow> bool" +
  assumes fits_values: "fits xs \<Longrightarrow> subseq es xs \<Longrightarrow> fits es"
    and norm_value: "norm (Some x) = Some x"
    and open_empty: "\<exists>s s'. opn (bb_finish B new) 0 = Some s \<and> bi_next_batch I (Some 0) pa_new s = Some (0, pa_new, s')"
begin

lemma load_values:
  assumes "fold_opt (bb_append B) (map Some es) new = Some b" and "fits (map Some es)"
  shows "\<exists>s a s'. opn (bb_finish B b) (length es) = Some s
    \<and> bi_next_batch I (Some (length es)) pa_new s = Some (length es, a, s')
    \<and> pa_wf a \<and> pa_items a = map Some es"
proof (cases "es = []")
  case True
  with assms open_empty show ?thesis by auto
next
  case False
  with read_finish [OF assms(1) _ assms(2)] obtain s where
    s: "opn (bb_finish B b) (length es) = Some s" "inv s" "view s = map Some es"
    by (auto simp: norm_value)
  from next_fresh [OF s(2), of "Some (length es)" "length es"] False s show ?thesis
    by (auto simp: batch_len_def)
qed

lemma dict_open_finish:
  assumes run: "fold_opt (bb_append (dict_bb B)) xs (db_new B new) = Some b" and ne: "xs \<noteq> []"
    and fits: "fits xs" and len: "length xs < 0xF0000000"
  shows "\<exists>s. dict_open I opn (bb_finish (dict_bb B) b) n = Some s \<and> di_inv s \<and> di_view s = xs"
proof -
  from db_fold_ok [of B xs new b] run len obtain es where ok: "db_ok B new xs b es" by (auto simp: dict_bb_def)
  have les: "length es < 0xF0000000"
    using ok len list_emb_length [of "(=)" "map Some es" xs] by (simp add: db_ok_def)
  from load_values [of es "db_data_builder b"] ok fits_values [OF fits] obtain i a i' where
    i: "opn (bb_finish B (db_data_builder b)) (length es) = Some i"
      "bi_next_batch I (Some (length es)) pa_new i = Some (length es, a, i')" "pa_wf a" "pa_items a = map Some es"
    by (auto simp: db_ok_def)
  have la: "pa_len a = length es" using i length_pa_items by fastforce
  define rle where "rle = bb_finish code_bb (db_rle_builder b)"
  have codes: "fold_opt (bb_append code_bb) (map (Some \<circ> code_of es) xs)
      (rb_new (ppb_new (bb_estimated_size B new))) = Some (db_rle_builder b)" using ok by (simp add: db_ok_def)
  from codes.rle_open_finish [OF codes, of "length es"] ne len obtain r where
    r: "rle_open (\<lambda>blk n. Some (ppi_new blk n)) rle (length es) = Some r" "code_inv r"
      "code_view r = map (Some \<circ> code_of es) xs"
    by (auto simp: rle_def with_default_def)
  have lr: "length rle < 2 ^ 64" using code_block_length [OF codes] ne len by (simp add: rle_def)
  have "length (db_dict_map b) = length es" using ok by (simp add: db_ok_def)
  then have dec: "decode_dict_block (bb_finish (dict_bb B) b) = Some (length es, bb_finish B (db_data_builder b), rle)"
    using lr les by (simp add: decode_dict_block_def dict_bb_def db_finish_def rle_def [symmetric] Let_def)
  from dict_fill_spec [of 0 es Map.empty] les obtain m where
    m: "dict_fill (dict_key 0) (map Some es) Map.empty = Some m" "\<forall>i < length es. m (dict_key i) = Some (es ! i)"
    by auto
  have "dict_open I opn (bb_finish (dict_bb B) b) n = Some \<lparr>di_rle_iter = r, di_dict = m\<rparr>"
    using r(1) m(1) i la pa_to_vec_eq [of a]
    by (auto simp: dict_open_def dec di_new_def rle_open_def pa_finish_eq [unfolded pa_finish_def]
        dict_key_def rust_assert_def Let_def)
  moreover have "dict_decode m (Some (code_of es v)) = v" if "v \<in> set xs" for v
  proof (cases v)
    case (Some x)
    with that ok obtain k where k: "k < length es" "x = es ! k" by (auto simp: db_ok_def in_set_conv_nth)
    then show ?thesis
      using Some ok m(2) code_of_nth [of es k] les dict_key_not_null [of k] by (simp add: db_ok_def dict_decode_def)
  qed (simp add: code_of_def dict_decode_def)
  ultimately show ?thesis
    using r by (auto simp: di_inv_def di_view_def intro!: map_idI)
qed

lemma dict_open_skip:
  assumes opn: "dict_open I opn blk n = Some s" and inv: "di_inv s" and k: "k \<le> length (di_view s)"
  shows "\<exists>s'. bi_skip (dict_bi d) k s = Some s' \<and> di_inv s' \<and> di_view s' = drop k (di_view s)"
proof -
  have "ri_never_used (di_rle_iter s)"
    using opn by (auto simp: dict_open_def di_new_def Let_def dest: ri_new_unused)
  with i32_plain.ri_skip_spec [of "di_rle_iter s" k] inv k obtain r where
    "ri_skip (ppi i32_codec) k (di_rle_iter s) = Some r" "code_inv r" "code_view r = drop k (code_view (di_rle_iter s))"
    by (auto simp: di_inv_def di_view_def le_less)
  with inv show ?thesis
    by (auto simp: dict_bi_def di_skip_def rle_bi_def di_inv_def di_view_def drop_map dest: in_set_dropD)
qed

lemma dict_reading_codec:
  "reading_codec (dict_bi d) di_inv di_view (dict_bb B) (db_new B new) (dict_open I opn) id
     (\<lambda>xs. fits xs \<and> length xs < 0xF0000000)"
  by (intro reading_codec.intro reading_codec_axioms.intro dict_iter.is_block_iterator)
    (use dict_open_finish in auto)

end

end
