(* ===== verification/Block_Index.thy ===== *)
theory Block_Index
  imports Block_Spec
begin

text \<open>
  How a block sits in a column file: the 16-byte block trailer and the checksum (\<open>block.rs\<close>,
  \<open>checksum.rs\<close>), the index entry recorded for each finished block (\<open>block_index_builder.rs\<close>), the
  index file of a column (\<open>index_builder.rs\<close>, \<open>index.rs\<close>), reading a block back through the block
  cache (\<open>column.rs\<close>) and the statistics aggregated over an index (\<open>statistics\<close>).

  The CRC-32 function and the protobuf coding of an index entry are third-party code: they are
  arguments (\<open>crc\<close>, \<open>put_index\<close>, \<open>get_index\<close>). What the block cache answers for a key is an argument
  as well. Counters of width 32 and 64 are naturals with the truncating casts written out.
\<close>

section \<open>Errors, block types and checksums\<close>

datatype storage_error =
    NotFound string string
  | Duplicated string string
  | JsonDecode
  | Decode string
  | ChecksumMismatch nat nat
  | Io

type_synonym 'a storage_result = "storage_error + 'a"

abbreviation as_u32 :: "nat \<Rightarrow> nat" where
  "as_u32 n \<equiv> n mod 2 ^ 32"

abbreviation as_u64 :: "nat \<Rightarrow> nat" where
  "as_u64 n \<equiv> n mod 2 ^ 64"

datatype block_type = Plain | RunLength | ZstdCompress | PlainNullable | PlainFixedChar | PlainVarchar
  | RleNullable | RleFixedChar | RleVarchar | Dictionary | DictNullable | DictFixedChar | DictVarchar
  | PlainNullableFixedChar | PlainNullableVarchar | RleNullableFixedChar | RleNullableVarchar
  | DictNullableFixedChar | DictNullableVarchar

definition block_types :: "block_type list" where
  "block_types = [Plain, RunLength, ZstdCompress, PlainNullable, PlainFixedChar, PlainVarchar,
     RleNullable, RleFixedChar, RleVarchar, Dictionary, DictNullable, DictFixedChar, DictVarchar,
     PlainNullableFixedChar, PlainNullableVarchar, RleNullableFixedChar, RleNullableVarchar,
     DictNullableFixedChar, DictNullableVarchar]"

fun block_type_into :: "block_type \<Rightarrow> u32" where
  "block_type_into Plain = 0"
| "block_type_into RunLength = 1"
| "block_type_into ZstdCompress = 2"
| "block_type_into PlainNullable = 3"
| "block_type_into PlainFixedChar = 4"
| "block_type_into PlainVarchar = 5"
| "block_type_into RleNullable = 6"
| "block_type_into RleFixedChar = 7"
| "block_type_into RleVarchar = 8"
| "block_type_into Dictionary = 9"
| "block_type_into DictNullable = 10"
| "block_type_into DictFixedChar = 11"
| "block_type_into DictVarchar = 12"
| "block_type_into PlainNullableFixedChar = 13"
| "block_type_into PlainNullableVarchar = 14"
| "block_type_into RleNullableFixedChar = 15"
| "block_type_into RleNullableVarchar = 16"
| "block_type_into DictNullableFixedChar = 17"
| "block_type_into DictNullableVarchar = 18"

definition block_type_try_from :: "u32 \<Rightarrow> block_type option" where
  "block_type_try_from n = find (\<lambda>t. block_type_into t = n) block_types"

datatype checksum_type = NoChecksum | Crc32

fun checksum_type_into :: "checksum_type \<Rightarrow> u32" where
  "checksum_type_into NoChecksum = 0"
| "checksum_type_into Crc32 = 1"

definition checksum_type_try_from :: "u32 \<Rightarrow> checksum_type option" where
  "checksum_type_try_from n = find (\<lambda>t. checksum_type_into t = n) [NoChecksum, Crc32]"

definition build_checksum :: "(byte list \<Rightarrow> u32) \<Rightarrow> checksum_type \<Rightarrow> byte list \<Rightarrow> u64" where
  "build_checksum crc ty block_data =
     (case ty of NoChecksum \<Rightarrow> 0 | Crc32 \<Rightarrow> ucast (crc block_data))"

definition verify_checksum ::
  "(byte list \<Rightarrow> u32) \<Rightarrow> checksum_type \<Rightarrow> byte list \<Rightarrow> u64 \<Rightarrow> unit storage_result" where
  "verify_checksum crc ty index_data checksum =
     (let chksum = (case ty of NoChecksum \<Rightarrow> 0 | Crc32 \<Rightarrow> ucast (crc index_data))
      in if chksum \<noteq> checksum then Inl (ChecksumMismatch (unat chksum) (unat checksum)) else Inr ())"

section \<open>The block trailer\<close>

record block_meta =
  bm_block_type :: block_type
  bm_checksum_type :: checksum_type
  bm_checksum :: u64

definition encode_except_checksum :: "block_meta \<Rightarrow> byte list" where
  "encode_except_checksum h = be_bytes 4 (block_type_into (bm_block_type h))"

definition encode_checksum :: "block_meta \<Rightarrow> byte list" where
  "encode_checksum h = be_bytes 4 (checksum_type_into (bm_checksum_type h)) @ be_bytes 8 (bm_checksum h)"

definition block_meta_decode :: "byte list \<Rightarrow> block_meta storage_result option" where
  "block_meta_decode buf =
     (if length buf < 16 then Some (Inl (Decode ''expected 16 bytes''))
      else do {
        (ty, buf) \<leftarrow> get_be 4 buf;
        (case block_type_try_from ty of
           None \<Rightarrow> Some (Inl (Decode ''expected valid block type''))
         | Some block_type \<Rightarrow> do {
             (ck, buf) \<leftarrow> get_be 4 buf;
             (case checksum_type_try_from ck of
                None \<Rightarrow> Some (Inl (Decode ''expected valid checksum type''))
              | Some checksum_type \<Rightarrow> do {
                  (checksum, _) \<leftarrow> get_be 8 buf;
                  Some (Inr \<lparr>bm_block_type = block_type, bm_checksum_type = checksum_type,
                    bm_checksum = checksum\<rparr>) }) }) })"

section \<open>Block indexes\<close>

record block_index =
  bx_offset :: nat
  bx_length :: nat
  bx_first_rowid :: nat
  bx_row_count :: nat
  bx_first_key :: "byte list"
  bx_stats :: "block_statistics list"
  bx_is_first_key_null :: bool

record block_index_builder =
  ib_row_count :: nat
  ib_last_row_count :: nat
  ib_indexes :: "block_index list"
  ib_checksum_type :: checksum_type

definition ib_new :: "checksum_type \<Rightarrow> block_index_builder" where
  "ib_new ty = \<lparr>ib_row_count = 0, ib_last_row_count = 0, ib_indexes = [], ib_checksum_type = ty\<rparr>"

definition ib_add_rows :: "nat \<Rightarrow> block_index_builder \<Rightarrow> block_index_builder" where
  "ib_add_rows rows b = b\<lparr>ib_row_count := ib_row_count b + rows\<rparr>"

text \<open>The bytes of a stored block: the data, the block type, and the checksum of both.\<close>

definition seal_block :: "(byte list \<Rightarrow> u32) \<Rightarrow> checksum_type \<Rightarrow> block_type \<Rightarrow> block \<Rightarrow> byte list" where
  "seal_block crc ck ty block_data =
     (let header = \<lparr>bm_block_type = ty, bm_checksum_type = ck, bm_checksum = 0\<rparr>;
          block_data = block_data @ encode_except_checksum header;
          header = header\<lparr>bm_checksum := build_checksum crc ck block_data\<rparr>
      in block_data @ encode_checksum header)"

definition ib_finish_block ::
  "(byte list \<Rightarrow> u32) \<Rightarrow> block_type \<Rightarrow> byte list \<Rightarrow> block \<Rightarrow> block_statistics list \<Rightarrow> byte list option
     \<Rightarrow> block_index_builder \<Rightarrow> (byte list \<times> block_index_builder) option" where
  "ib_finish_block crc ty column_data block_data stats first_key b = do {
     rows \<leftarrow> checked_sub (ib_row_count b) (ib_last_row_count b);
     let index = \<lparr>bx_offset = as_u64 (length column_data), bx_length = as_u64 (length block_data) + 16,
           bx_first_rowid = as_u32 (ib_last_row_count b), bx_row_count = as_u32 rows,
           bx_first_key = (case first_key of Some k \<Rightarrow> k | None \<Rightarrow> []), bx_stats = stats,
           bx_is_first_key_null = (first_key = None)\<rparr>;
     Some (column_data @ seal_block crc (ib_checksum_type b) ty block_data,
       b\<lparr>ib_indexes := ib_indexes b @ [index], ib_last_row_count := ib_row_count b\<rparr>) }"

section \<open>The index file\<close>

definition SECONDARY_INDEX_MAGIC :: u32 where
  "SECONDARY_INDEX_MAGIC = 0x2333"

record index_builder =
  xb_data :: "byte list"
  xb_cnt :: nat
  xb_checksum_type :: checksum_type

definition xb_new :: "checksum_type \<Rightarrow> index_builder" where
  "xb_new ty = \<lparr>xb_data = [], xb_cnt = 0, xb_checksum_type = ty\<rparr>"

definition xb_append :: "(block_index \<Rightarrow> byte list) \<Rightarrow> block_index \<Rightarrow> index_builder \<Rightarrow> index_builder" where
  "xb_append put_index index b = b\<lparr>xb_cnt := xb_cnt b + 1, xb_data := xb_data b @ put_index index\<rparr>"

definition xb_finish :: "(byte list \<Rightarrow> u32) \<Rightarrow> index_builder \<Rightarrow> byte list" where
  "xb_finish crc b =
     (let checksum = build_checksum crc (xb_checksum_type b) (xb_data b)
      in xb_data b @ be_bytes 4 SECONDARY_INDEX_MAGIC @ be_bytes 8 (of_nat (xb_cnt b) :: u64)
         @ be_bytes 4 (checksum_type_into (xb_checksum_type b)) @ be_bytes 8 checksum)"

type_synonym column_index = "block_index list"

fun get_indexes ::
  "(byte list \<Rightarrow> (block_index \<times> byte list) option) \<Rightarrow> nat \<Rightarrow> byte list \<Rightarrow> column_index storage_result" where
  "get_indexes get_index 0 data = Inr []"
| "get_indexes get_index (Suc n) data =
     (case get_index data of
        None \<Rightarrow> Inl (Decode ''protobuf'')
      | Some (index, data) \<Rightarrow>
          (case get_indexes get_index n data of
             Inl err \<Rightarrow> Inl err
           | Inr indexes \<Rightarrow> Inr (index # indexes)))"

definition column_index_from_bytes ::
  "(byte list \<Rightarrow> u32) \<Rightarrow> (byte list \<Rightarrow> (block_index \<times> byte list) option) \<Rightarrow> byte list
     \<Rightarrow> column_index storage_result option" where
  "column_index_from_bytes crc get_index data = do {
     cut \<leftarrow> checked_sub (length data) 24;
     let index_data = take cut data;
     (magic :: u32, footer) \<leftarrow> get_be 4 (drop cut data);
     if magic \<noteq> SECONDARY_INDEX_MAGIC
     then Some (Inl (Decode ''failed to decode column index: invalid magic''))
     else do {
       (len :: u64, footer) \<leftarrow> get_be 8 footer;
       (ty, footer) \<leftarrow> get_be 4 footer;
       (case checksum_type_try_from ty of
          None \<Rightarrow> Some (Inl (Decode ''invalid checksum type''))
        | Some checksum_type \<Rightarrow> do {
            (checksum, _) \<leftarrow> get_be 8 footer;
            (case verify_checksum crc checksum_type index_data checksum of
               Inl err \<Rightarrow> Some (Inl err)
             | Inr _ \<Rightarrow> Some (get_indexes get_index (unat len) index_data)) }) } }"

text \<open>\<open>partition_point\<close> of the standard library on a slice the predicate partitions.\<close>

definition partition_point :: "('a \<Rightarrow> bool) \<Rightarrow> 'a list \<Rightarrow> nat" where
  "partition_point p xs = length (takeWhile p xs)"

definition block_of_row :: "column_index \<Rightarrow> nat \<Rightarrow> nat option" where
  "block_of_row indexes rowid =
     (let pp = partition_point (\<lambda>index. bx_first_rowid index \<le> rowid) indexes
      in if pp = 0 then None else Some (pp - 1))"

datatype column_seek_position = RowId nat | SortKey

definition block_of_seek_position :: "column_index \<Rightarrow> column_seek_position \<Rightarrow> nat option" where
  "block_of_seek_position indexes pos =
     (case pos of RowId row_id \<Rightarrow> block_of_row indexes row_id | SortKey \<Rightarrow> None)"

section \<open>Reading a block\<close>

datatype column_file = PositionedRead "byte list" | NormalRead "byte list" | InMemory "byte list"

definition read_file :: "column_file \<Rightarrow> nat \<Rightarrow> nat \<Rightarrow> byte list storage_result option" where
  "read_file file offset len =
     (case file of
        InMemory bytes \<Rightarrow> map_option Inr (slice_range offset (offset + len) bytes)
      | PositionedRead bytes \<Rightarrow>
          Some (case slice_range offset (offset + len) bytes of None \<Rightarrow> Inl Io | Some d \<Rightarrow> Inr d)
      | NormalRead bytes \<Rightarrow>
          Some (case slice_range offset (offset + len) bytes of None \<Rightarrow> Inl Io | Some d \<Rightarrow> Inr d))"

record column =
  co_index :: column_index
  co_file :: column_file

definition on_disk_size :: "column \<Rightarrow> nat option" where
  "on_disk_size c = do {
     last_id \<leftarrow> checked_sub (length (co_index c)) 1;
     lst_idx \<leftarrow> index_at (co_index c) last_id;
     Some (bx_offset lst_idx + bx_length lst_idx) }"

text \<open>
  The block cache is a package of its own; its \<open>try_get_with\<close> is the parameter \<open>tgw\<close>. It is given the key (the
  block's id: one column is looked at), the loader and the cache, and returns the bytes, whether the loader has run, and the cache it leaves.
  The checksum is verified only after a load, and after the cache has done its part.
\<close>

type_synonym 'c cache_fn =
  "nat \<Rightarrow> byte list storage_result option \<Rightarrow> 'c \<Rightarrow> ((byte list \<times> bool) storage_result \<times> 'c) option"

definition get_block ::
  "'c cache_fn \<Rightarrow> (byte list \<Rightarrow> u32) \<Rightarrow> 'c \<Rightarrow> column \<Rightarrow> nat \<Rightarrow> ((block_meta \<times> block) storage_result \<times> 'c) option" where
  "get_block tgw crc cache c block_id = do {
     (loaded, cache') \<leftarrow> tgw block_id (do {
        info \<leftarrow> index_at (co_index c) block_id;
        read_file (co_file c) (bx_offset info) (bx_length info) }) cache;
     r \<leftarrow> (case loaded of
        Inl err \<Rightarrow> Some (Inl err)
      | Inr (block, do_verify_checksum) \<Rightarrow>
          if length block < 16 then Some (Inl (Decode ''block is smaller than header size''))
          else do {
            header \<leftarrow> block_meta_decode (drop (length block - 16) block);
            (case header of
               Inl err \<Rightarrow> Some (Inl err)
             | Inr header \<Rightarrow>
                 (case (if do_verify_checksum
                        then verify_checksum crc (bm_checksum_type header)
                               (take (length block - 12) block) (bm_checksum header)
                        else Inr ()) of
                    Inl err \<Rightarrow> Some (Inl err)
                  | Inr _ \<Rightarrow> Some (Inr (header, take (length block - 16) block)))) });
     Some (r, cache') }"

text \<open>
  What the package documents of \<open>try_get_with\<close>: a key that is present is answered without running the loader; otherwise the
  loader runs, an error of it is returned, and what it loads is stored under the key and returned. A map that forgets nothing is such a cache.
\<close>

definition caches :: "('c \<Rightarrow> nat \<rightharpoonup> byte list) \<Rightarrow> 'c cache_fn \<Rightarrow> bool" where
  "caches lookup tgw \<longleftrightarrow> (\<forall>key load cache.
     (case lookup cache key of
        Some block \<Rightarrow> \<exists>cache'. tgw key load cache = Some (Inr (block, False), cache') \<and> lookup cache' key = Some block
      | None \<Rightarrow>
          (case load of
             None \<Rightarrow> tgw key load cache = None
           | Some (Inl err) \<Rightarrow> \<exists>cache'. tgw key load cache = Some (Inl err, cache')
           | Some (Inr block) \<Rightarrow> \<exists>cache'. tgw key load cache = Some (Inr (block, True), cache') \<and> lookup cache' key = Some block)))"

definition map_cache :: "(nat \<rightharpoonup> byte list) cache_fn" where
  "map_cache key load cache =
     (case cache key of
        Some block \<Rightarrow> Some (Inr (block, False), cache)
      | None \<Rightarrow> do {
          r \<leftarrow> load;
          Some (case r of Inl err \<Rightarrow> (Inl err, cache) | Inr block \<Rightarrow> (Inr (block, True), cache(key \<mapsto> block))) })"

section \<open>Statistics over an index\<close>

definition row_count_agg :: "column_index \<Rightarrow> nat \<Rightarrow> nat" where
  "row_count_agg indexes cnt = fold (\<lambda>index cnt. cnt + bx_row_count index) indexes cnt"

fun distinct_value_stats :: "block_statistics list \<Rightarrow> nat \<Rightarrow> nat option" where
  "distinct_value_stats [] cnt = Some cnt"
| "distinct_value_stats (st # stats) cnt =
     (if block_stat_type st = DistinctValue then
        if length (stat_body st) = 8
        then distinct_value_stats stats (cnt + unat (le_word (stat_body st) :: u64))
        else None
      else distinct_value_stats stats cnt)"

definition distinct_value_agg :: "column_index \<Rightarrow> nat \<Rightarrow> nat option" where
  "distinct_value_agg indexes cnt = fold_opt (\<lambda>index. distinct_value_stats (bx_stats index)) indexes cnt"

section \<open>Trailer and index round trips\<close>

lemma block_type_roundtrip [simp]: "block_type_try_from (block_type_into t) = Some t"
  by (cases t) (simp_all add: block_type_try_from_def block_types_def)

lemma checksum_type_roundtrip [simp]: "checksum_type_try_from (checksum_type_into t) = Some t"
  by (cases t) (simp_all add: checksum_type_try_from_def)

lemma verify_build [simp]: "verify_checksum crc ty data (build_checksum crc ty data) = Inr ()"
  by (simp add: verify_checksum_def build_checksum_def)

lemma block_meta_decode_encode:
  "block_meta_decode (encode_except_checksum h @ encode_checksum h) = Some (Inr h)"
  by (simp add: block_meta_decode_def encode_except_checksum_def encode_checksum_def)

lemma length_seal_block [simp]: "length (seal_block crc ck ty data) = length data + 16"
  by (simp add: seal_block_def encode_except_checksum_def encode_checksum_def Let_def)

text \<open>What \<open>get_block\<close> makes of the bytes it was given, from the file or from the cache.\<close>

lemma map_cache_caches: "caches id map_cache"
  by (auto simp: caches_def map_cache_def split: option.split sum.split)

lemma caches_hit: "caches lookup tgw \<Longrightarrow> lookup cache key = Some block \<Longrightarrow> \<exists>cache'. tgw key load cache = Some (Inr (block, False), cache')"
  unfolding caches_def by (erule allE [of _ key], erule allE [of _ load], erule allE [of _ cache]) auto

lemma caches_load:
  "caches lookup tgw \<Longrightarrow> lookup cache key = None \<Longrightarrow>
   \<exists>cache'. tgw key (Some (Inr block)) cache = Some (Inr (block, True), cache') \<and> lookup cache' key = Some block"
  unfolding caches_def by (erule allE [of _ key], erule allE [of _ "Some (Inr block)"], erule allE [of _ cache]) auto

lemma get_block_sealed:
  assumes "cache block_id = Some (seal_block crc' ck ty data)
    \<or> cache block_id = None \<and> crc' = crc \<and> block_id < length (co_index c)
      \<and> read_file (co_file c) (bx_offset (co_index c ! block_id)) (bx_length (co_index c ! block_id))
          = Some (Inr (seal_block crc ck ty data))"
  shows "\<exists>h. get_block map_cache crc cache c block_id = Some (Inr (h, data), cache(block_id \<mapsto> seal_block crc' ck ty data)) \<and> bm_block_type h = ty"
proof -
  define h where "h = \<lparr>bm_block_type = ty, bm_checksum_type = ck,
    bm_checksum = build_checksum crc' ck (data @ be_bytes 4 (block_type_into ty))\<rparr>"
  define blk where "blk = seal_block crc' ck ty data"
  have blk: "blk = data @ encode_except_checksum h @ encode_checksum h"
    by (simp add: blk_def seal_block_def h_def encode_except_checksum_def encode_checksum_def Let_def)
  have len: "length blk = length data + 16" by (simp add: blk_def)
  have tail: "drop (length blk - 16) blk = encode_except_checksum h @ encode_checksum h"
    unfolding len by (simp add: blk)
  have body: "take (length blk - 12) blk = data @ be_bytes 4 (block_type_into ty)"
    unfolding len by (simp add: blk encode_except_checksum_def encode_checksum_def h_def)
  have front: "take (length blk - 16) blk = data" unfolding len by (simp add: blk)
  have ty: "bm_block_type h = ty" "bm_checksum_type h = ck"
    "bm_checksum h = build_checksum crc' ck (data @ be_bytes 4 (block_type_into ty))"
    by (simp_all add: h_def)
  from assms have "cache block_id = Some blk \<or> cache block_id = None \<and> crc' = crc \<and> block_id < length (co_index c)
      \<and> read_file (co_file c) (bx_offset (co_index c ! block_id)) (bx_length (co_index c ! block_id))
          = Some (Inr blk)" by (auto simp: blk_def)
  then show ?thesis using len tail body front ty
    by (auto simp: get_block_def map_cache_def block_meta_decode_encode index_at_def fun_upd_idem blk_def [symmetric])
qed

text \<open>
  C29. Whatever cache is used, as long as it keeps what it has loaded: a block whose checksum does not match its bytes is refused when it is read from the file, but
  the call leaves its bytes in the cache, and asking again, with the cache as that call left it, returns them as a valid block.
\<close>

theorem cached_block_not_verified:
  assumes "caches lookup tgw" and "lookup cache block_id = None" and "block_id < length (co_index c)"
    and "read_file (co_file c) (bx_offset (co_index c ! block_id)) (bx_length (co_index c ! block_id))
      = Some (Inr (data @ encode_except_checksum h @ encode_checksum h))"
    and "bm_checksum h \<noteq> build_checksum crc (bm_checksum_type h) (data @ encode_except_checksum h)"
  shows "\<exists>cache' cache''. get_block tgw crc cache c block_id
      = Some (Inl (ChecksumMismatch
          (unat (build_checksum crc (bm_checksum_type h) (data @ encode_except_checksum h)))
          (unat (bm_checksum h))), cache')
    \<and> get_block tgw crc cache' c block_id = Some (Inr (h, data), cache'')"
proof -
  define blk where "blk = data @ encode_except_checksum h @ encode_checksum h"
  have len: "length blk = length data + 16"
    by (simp add: blk_def encode_except_checksum_def encode_checksum_def)
  have tail: "drop (length blk - 16) blk = encode_except_checksum h @ encode_checksum h"
    unfolding len by (simp add: blk_def)
  have body: "take (length blk - 12) blk = data @ encode_except_checksum h"
    unfolding len by (simp add: blk_def encode_except_checksum_def encode_checksum_def)
  have front: "take (length blk - 16) blk = data" unfolding len by (simp add: blk_def)
  have bad: "verify_checksum crc (bm_checksum_type h) (data @ encode_except_checksum h) (bm_checksum h)
    = Inl (ChecksumMismatch (unat (build_checksum crc (bm_checksum_type h) (data @ encode_except_checksum h)))
        (unat (bm_checksum h)))"
    using assms(5) by (simp add: verify_checksum_def build_checksum_def Let_def)
  from caches_load [OF assms(1,2), of blk] obtain cache' where
    first: "tgw block_id (Some (Inr blk)) cache = Some (Inr (blk, True), cache')" "lookup cache' block_id = Some blk" by blast
  from caches_hit [OF assms(1) first(2), of "Some (Inr blk)"] obtain cache'' where
    second: "tgw block_id (Some (Inr blk)) cache' = Some (Inr (blk, False), cache'')" by blast
  show ?thesis
    using assms(3,4) len tail body front bad first(1) second
    by (intro exI [of _ cache'] exI [of _ cache'']) (simp add: blk_def [symmetric] get_block_def block_meta_decode_encode index_at_def)
qed

theorem cached_block_not_verified_witness:
  "let h = \<lparr>bm_block_type = Plain, bm_checksum_type = Crc32, bm_checksum = 0\<rparr>;
       bytes = [1] @ encode_except_checksum h @ encode_checksum h;
       c = \<lparr>co_index = [\<lparr>bx_offset = 0, bx_length = 17, bx_first_rowid = 0, bx_row_count = 1,
              bx_first_key = [], bx_stats = [], bx_is_first_key_null = True\<rparr>],
            co_file = PositionedRead bytes\<rparr>
   in \<exists>cache' cache''. get_block map_cache (\<lambda>_. 7) Map.empty c 0 = Some (Inl (ChecksumMismatch 7 0), cache')
      \<and> get_block map_cache (\<lambda>_. 7) cache' c 0 = Some (Inr (h, [1]), cache'')"
proof -
  define h :: block_meta where "h = \<lparr>bm_block_type = Plain, bm_checksum_type = Crc32, bm_checksum = 0\<rparr>"
  define bytes where "bytes = [1] @ encode_except_checksum h @ encode_checksum h"
  define c where "c = \<lparr>co_index = [\<lparr>bx_offset = 0, bx_length = 17, bx_first_rowid = 0, bx_row_count = 1,
      bx_first_key = [], bx_stats = [], bx_is_first_key_null = True\<rparr>], co_file = PositionedRead bytes\<rparr>"
  have "length bytes = 17" by (simp add: bytes_def encode_except_checksum_def encode_checksum_def)
  then have "\<exists>cache' cache''. get_block map_cache (\<lambda>_. 7) Map.empty c 0 = Some (Inl (ChecksumMismatch
        (unat (build_checksum (\<lambda>_. 7) (bm_checksum_type h) ([1] @ encode_except_checksum h)))
        (unat (bm_checksum h))), cache') \<and> get_block map_cache (\<lambda>_. 7) cache' c 0 = Some (Inr (h, [1]), cache'')"
    by (intro cached_block_not_verified [OF map_cache_caches])
      (simp_all add: c_def read_file_def slice_range_def bytes_def, simp add: h_def build_checksum_def)
  then show ?thesis by (simp add: Let_def h_def bytes_def c_def build_checksum_def)
qed

lemma xb_fold:
  "fold (xb_append put_index) idx b = b\<lparr>xb_cnt := xb_cnt b + length idx,
     xb_data := xb_data b @ concat (map put_index idx)\<rparr>"
  by (induction idx arbitrary: b) (simp_all add: xb_append_def)

lemma get_indexes_put:
  "\<forall>x\<in>set idx. \<forall>rest. get_index (put_index x @ rest) = Some (x, rest) \<Longrightarrow>
   get_indexes get_index (length idx) (concat (map put_index idx)) = Inr idx"
  by (induction idx) auto

text \<open>
  An index file reads back as the entries it was built from, whatever checksum is configured,
  provided that the protobuf coding of an entry reads back.
\<close>

theorem index_file_roundtrip:
  assumes "\<forall>x\<in>set idx. \<forall>rest. get_index (put_index x @ rest) = Some (x, rest)"
    and "length idx < 2 ^ 64"
  shows "column_index_from_bytes crc get_index (xb_finish crc (fold (xb_append put_index) idx (xb_new ty)))
    = Some (Inr idx)"
proof -
  define body where "body = concat (map put_index idx)"
  define footer where "footer = be_bytes 4 SECONDARY_INDEX_MAGIC @ be_bytes 8 (of_nat (length idx) :: u64)
    @ be_bytes 4 (checksum_type_into ty) @ be_bytes 8 (build_checksum crc ty body)"
  have bytes: "xb_finish crc (fold (xb_append put_index) idx (xb_new ty)) = body @ footer"
    by (simp add: xb_fold xb_new_def xb_finish_def body_def footer_def)
  have "length footer = 24" by (simp add: footer_def)
  then have cut: "checked_sub (length (body @ footer)) 24 = Some (length body)" by simp
  show ?thesis
    unfolding bytes column_index_from_bytes_def cut
    using assms get_indexes_put [OF assms(1)]
    by (simp add: footer_def body_def [symmetric])
qed

theorem index_file_roundtrip_witness:
  "let x = \<lparr>bx_offset = 0, bx_length = 20, bx_first_rowid = 0, bx_row_count = 1,
         bx_first_key = [], bx_stats = [], bx_is_first_key_null = True\<rparr>
   in column_index_from_bytes (\<lambda>_. 7) (\<lambda>buf. case buf of [] \<Rightarrow> None | b # rest \<Rightarrow> Some (x, rest))
        (xb_finish (\<lambda>_. 7) (fold (xb_append (\<lambda>_. [42])) [x] (xb_new Crc32)))
      = Some (Inr [x])"
  unfolding Let_def by (rule index_file_roundtrip) simp_all

text \<open>The index entries of consecutive blocks, and the block that holds a row.\<close>

fun index_rows :: "nat \<Rightarrow> column_index \<Rightarrow> bool" where
  "index_rows k [] = True"
| "index_rows k (x # xs) \<longleftrightarrow> bx_first_rowid x = k \<and> index_rows (k + bx_row_count x) xs"

lemma row_count_agg_Cons: "row_count_agg (x # xs) k = row_count_agg xs (k + bx_row_count x)"
  by (simp add: row_count_agg_def)

lemma index_rows_ge: "index_rows k idx \<Longrightarrow> x \<in> set idx \<Longrightarrow> k \<le> bx_first_rowid x"
  by (induction idx arbitrary: k) fastforce+

lemma partition_point_row:
  "index_rows k idx \<Longrightarrow> k \<le> r \<Longrightarrow> r < row_count_agg idx k \<Longrightarrow>
   \<exists>b < length idx. partition_point (\<lambda>x. bx_first_rowid x \<le> r) idx = Suc b
     \<and> bx_first_rowid (idx ! b) \<le> r \<and> r < bx_first_rowid (idx ! b) + bx_row_count (idx ! b)"
proof (induction idx arbitrary: k)
  case (Cons x xs)
  show ?case
  proof (cases "r < k + bx_row_count x")
    case True
    have "partition_point (\<lambda>x. bx_first_rowid x \<le> r) xs = 0 \<or> (\<exists>y ys. xs = y # ys \<and> bx_first_rowid y \<le> r)"
      by (cases xs) (auto simp: partition_point_def)
    with True Cons.prems show ?thesis
      by (cases xs) (auto simp: partition_point_def intro!: exI [of _ 0])
  next
    case False
    with Cons.prems Cons.IH [of "k + bx_row_count x"] obtain b where
      "b < length xs" "partition_point (\<lambda>x. bx_first_rowid x \<le> r) xs = Suc b"
      "bx_first_rowid (xs ! b) \<le> r" "r < bx_first_rowid (xs ! b) + bx_row_count (xs ! b)"
      by (auto simp: row_count_agg_Cons)
    with Cons.prems show ?thesis by (intro exI [of _ "Suc b"]) (simp add: partition_point_def)
  qed
qed (simp add: row_count_agg_def)

text \<open>For an index whose entries describe consecutive row ranges from row 0 on, looking up a row of the column
  gives the block that covers it; the lookup panics only on an index whose first block starts after the row.\<close>

theorem block_of_row_covers:
  assumes "index_rows 0 idx" and "r < row_count_agg idx 0"
  shows "\<exists>b < length idx. block_of_row idx r = Some b
    \<and> bx_first_rowid (idx ! b) \<le> r \<and> r < bx_first_rowid (idx ! b) + bx_row_count (idx ! b)"
  using partition_point_row [OF assms(1) _ assms(2)] by (auto simp: block_of_row_def)

theorem block_of_row_covers_witness:
  "let x = \<lparr>bx_offset = 0, bx_length = 20, bx_first_rowid = 0, bx_row_count = 3, bx_first_key = [], bx_stats = [],
         bx_is_first_key_null = True\<rparr>; y = x\<lparr>bx_first_rowid := 3, bx_row_count := 2\<rparr>
   in \<exists>b < length [x, y]. block_of_row [x, y] 4 = Some b \<and> bx_first_rowid ([x, y] ! b) \<le> 4
        \<and> 4 < bx_first_rowid ([x, y] ! b) + bx_row_count ([x, y] ! b)"
  unfolding Let_def by (rule block_of_row_covers) (simp_all add: row_count_agg_def)

end
