(* ===== verification/Encodings.thy ===== *)
theory Encodings
  imports Dict_Block Block_Index
begin

text \<open>
  The block builders and block iterators a column can use, as the column builders and the iterator
  factories enumerate them (\<open>primitive_column_builder.rs\<close>, \<open>char_column_builder.rs\<close>,
  \<open>blob_column_builder.rs\<close> and the \<open>*_column_factory.rs\<close> files). The three enumerations have the same
  shape: a leaf block (primitive values, fixed-width strings, variable-length strings or blobs),
  plain, run-length or dictionary encoded, each with or without a validity bitmap. The shape is the
  datatype \<open>block_builder_impl\<close> and its counterpart \<open>block_iterator_impl\<close>; what differs between the
  files (the leaf, the block type tags, the row count handed to the leaf under a nullable run-length
  block) is a \<open>family\<close>.

  The main result is that in every family, for every encoding, a finished block opened by the
  factory at any position yields the appended rows from that position on.
\<close>

datatype encode_type = EncPlain | EncRunLength | EncDictionary

record ('b, 's, 'a) family =
  fam_bb :: "('b, 'a) non_nullable_block_builder"
  fam_new :: "nat \<Rightarrow> 'b"
  fam_bi :: "('s, 'a) block_iter"
  fam_open :: "block \<Rightarrow> nat \<Rightarrow> 's"
  fam_default :: 'a
  fam_type :: "bool \<Rightarrow> encode_type \<Rightarrow> block_type"
  fam_rle_rows :: "nat \<Rightarrow> nat \<Rightarrow> nat"
  fam_first_key :: "'a \<Rightarrow> byte list"

section \<open>Builders\<close>

datatype ('b, 'a) block_builder_impl =
    BPlain 'b
  | BPlainNullable "'b nullable_builder"
  | BRunLength "('b, 'a) rle_builder"
  | BRleNullable "('b nullable_builder, 'a) rle_builder"
  | BDictionary "('b, 'a) dict_builder"
  | BDictNullable "('b nullable_builder, 'a) dict_builder"

definition bbi_new :: "('b, 's, 'a) family \<Rightarrow> bool \<Rightarrow> encode_type \<Rightarrow> nat \<Rightarrow> ('b, 'a) block_builder_impl" where
  "bbi_new F nullable enc target =
     (case (nullable, enc) of
        (True, EncRunLength) \<Rightarrow> BRleNullable (rb_new (nb_new (fam_new F target) target))
      | (True, EncPlain) \<Rightarrow> BPlainNullable (nb_new (fam_new F target) target)
      | (True, EncDictionary) \<Rightarrow>
          BDictNullable (db_new (nullable_bb (fam_bb F)) (nb_new (fam_new F target) target))
      | (False, EncRunLength) \<Rightarrow> BRunLength (rb_new (fam_new F target))
      | (False, EncPlain) \<Rightarrow> BPlain (fam_new F target)
      | (False, EncDictionary) \<Rightarrow> BDictionary (db_new (fam_bb F) (fam_new F target)))"

fun bbi_append ::
  "('b, 's, 'a) family \<Rightarrow> 'a option \<Rightarrow> ('b, 'a) block_builder_impl \<Rightarrow> ('b, 'a) block_builder_impl option" where
  "bbi_append F v (BPlain b) = map_option BPlain (bb_append (fam_bb F) v b)"
| "bbi_append F v (BPlainNullable b) = map_option BPlainNullable (bb_append (nullable_bb (fam_bb F)) v b)"
| "bbi_append F v (BRunLength b) = map_option BRunLength (bb_append (rle_bb (fam_bb F)) v b)"
| "bbi_append F v (BRleNullable b) = map_option BRleNullable (bb_append (rle_bb (nullable_bb (fam_bb F))) v b)"
| "bbi_append F v (BDictionary b) = map_option BDictionary (bb_append (dict_bb (fam_bb F)) v b)"
| "bbi_append F v (BDictNullable b) = map_option BDictNullable (bb_append (dict_bb (nullable_bb (fam_bb F))) v b)"

fun bbi_should_finish :: "('b, 's, 'a) family \<Rightarrow> 'a option \<Rightarrow> ('b, 'a) block_builder_impl \<Rightarrow> bool" where
  "bbi_should_finish F v (BPlain b) = bb_should_finish (fam_bb F) v b"
| "bbi_should_finish F v (BPlainNullable b) = bb_should_finish (nullable_bb (fam_bb F)) v b"
| "bbi_should_finish F v (BRunLength b) = bb_should_finish (rle_bb (fam_bb F)) v b"
| "bbi_should_finish F v (BRleNullable b) = bb_should_finish (rle_bb (nullable_bb (fam_bb F))) v b"
| "bbi_should_finish F v (BDictionary b) = bb_should_finish (dict_bb (fam_bb F)) v b"
| "bbi_should_finish F v (BDictNullable b) = bb_should_finish (dict_bb (nullable_bb (fam_bb F))) v b"

text \<open>The triple a column builder takes from its current builder when it closes a block.\<close>

fun bbi_finish ::
  "('b, 's, 'a) family \<Rightarrow> ('b, 'a) block_builder_impl \<Rightarrow> (block_type \<times> block_statistics list \<times> block) option" where
  "bbi_finish F (BPlain b) = do {
     stats \<leftarrow> bb_get_statistics (fam_bb F) b;
     Some (fam_type F False EncPlain, stats, bb_finish (fam_bb F) b) }"
| "bbi_finish F (BPlainNullable b) = do {
     stats \<leftarrow> bb_get_statistics (nullable_bb (fam_bb F)) b;
     Some (fam_type F True EncPlain, stats, bb_finish (nullable_bb (fam_bb F)) b) }"
| "bbi_finish F (BRunLength b) = do {
     stats \<leftarrow> bb_get_statistics (rle_bb (fam_bb F)) b;
     Some (fam_type F False EncRunLength, stats, bb_finish (rle_bb (fam_bb F)) b) }"
| "bbi_finish F (BRleNullable b) = do {
     stats \<leftarrow> bb_get_statistics (rle_bb (nullable_bb (fam_bb F))) b;
     Some (fam_type F True EncRunLength, stats, bb_finish (rle_bb (nullable_bb (fam_bb F))) b) }"
| "bbi_finish F (BDictionary b) = do {
     stats \<leftarrow> bb_get_statistics (dict_bb (fam_bb F)) b;
     Some (fam_type F False EncDictionary, stats, bb_finish (dict_bb (fam_bb F)) b) }"
| "bbi_finish F (BDictNullable b) = do {
     stats \<leftarrow> bb_get_statistics (dict_bb (nullable_bb (fam_bb F))) b;
     Some (fam_type F True EncDictionary, stats, bb_finish (dict_bb (nullable_bb (fam_bb F))) b) }"

section \<open>Iterators\<close>

datatype ('s, 'a) block_iterator_impl =
    IPlain 's
  | IPlainNullable "'s nullable_iter"
  | IRunLength "('s, 'a) rle_iter"
  | IRleNullable "('s nullable_iter, 'a) rle_iter"
  | IDictionary "'a dict_iter"
  | IDictNullable "'a dict_iter"
  | IFake fake_iter

definition wrap_batch :: "('t \<Rightarrow> 'w) \<Rightarrow> (nat \<times> 'a array \<times> 't) option \<Rightarrow> (nat \<times> 'a array \<times> 'w) option" where
  "wrap_batch W r = map_option (\<lambda>(n, b, s). (n, b, W s)) r"

fun bii_next_batch :: "('b, 's, 'a) family \<Rightarrow> (('s, 'a) block_iterator_impl, 'a) next_batch" where
  "bii_next_batch F e b (IPlain s) = wrap_batch IPlain (bi_next_batch (fam_bi F) e b s)"
| "bii_next_batch F e b (IPlainNullable s) =
     wrap_batch IPlainNullable (bi_next_batch (nullable_bi (fam_bi F)) e b s)"
| "bii_next_batch F e b (IRunLength s) =
     wrap_batch IRunLength (bi_next_batch (rle_bi (fam_bi F) (fam_default F)) e b s)"
| "bii_next_batch F e b (IRleNullable s) =
     wrap_batch IRleNullable (bi_next_batch (rle_bi (nullable_bi (fam_bi F)) (fam_default F)) e b s)"
| "bii_next_batch F e b (IDictionary s) =
     wrap_batch IDictionary (bi_next_batch (dict_bi (fam_default F)) e b s)"
| "bii_next_batch F e b (IDictNullable s) =
     wrap_batch IDictNullable (bi_next_batch (dict_bi (fam_default F)) e b s)"
| "bii_next_batch F e b (IFake s) = wrap_batch IFake (bi_next_batch (fbi (fam_default F)) e b s)"

fun bii_skip ::
  "('b, 's, 'a) family \<Rightarrow> nat \<Rightarrow> ('s, 'a) block_iterator_impl \<Rightarrow> ('s, 'a) block_iterator_impl option" where
  "bii_skip F k (IPlain s) = map_option IPlain (bi_skip (fam_bi F) k s)"
| "bii_skip F k (IPlainNullable s) = map_option IPlainNullable (bi_skip (nullable_bi (fam_bi F)) k s)"
| "bii_skip F k (IRunLength s) = map_option IRunLength (bi_skip (rle_bi (fam_bi F) (fam_default F)) k s)"
| "bii_skip F k (IRleNullable s) =
     map_option IRleNullable (bi_skip (rle_bi (nullable_bi (fam_bi F)) (fam_default F)) k s)"
| "bii_skip F k (IDictionary s) = map_option IDictionary (bi_skip (dict_bi (fam_default F)) k s)"
| "bii_skip F k (IDictNullable s) = map_option IDictNullable (bi_skip (dict_bi (fam_default F)) k s)"
| "bii_skip F k (IFake s) = map_option IFake (bi_skip (fbi (fam_default F)) k s)"

fun bii_remaining_items :: "('b, 's, 'a) family \<Rightarrow> ('s, 'a) block_iterator_impl \<Rightarrow> nat option" where
  "bii_remaining_items F (IPlain s) = bi_remaining_items (fam_bi F) s"
| "bii_remaining_items F (IPlainNullable s) = bi_remaining_items (nullable_bi (fam_bi F)) s"
| "bii_remaining_items F (IRunLength s) = bi_remaining_items (rle_bi (fam_bi F) (fam_default F)) s"
| "bii_remaining_items F (IRleNullable s) =
     bi_remaining_items (rle_bi (nullable_bi (fam_bi F)) (fam_default F)) s"
| "bii_remaining_items F (IDictionary s) = bi_remaining_items (dict_bi (fam_default F)) s"
| "bii_remaining_items F (IDictNullable s) = bi_remaining_items (dict_bi (fam_default F)) s"
| "bii_remaining_items F (IFake s) = bi_remaining_items (fbi (fam_default F)) s"

definition bii :: "('b, 's, 'a) family \<Rightarrow> (('s, 'a) block_iterator_impl, 'a) block_iter" where
  "bii F = \<lparr>bi_next_batch = bii_next_batch F, bi_skip = bii_skip F, bi_remaining_items = bii_remaining_items F\<rparr>"

text \<open>The factory: open the block according to its type, then skip to the start position.\<close>

definition open_block ::
  "('b, 's, 'a) family \<Rightarrow> block_type \<Rightarrow> block \<Rightarrow> nat \<Rightarrow> ('s, 'a) block_iterator_impl option" where
  "open_block F ty block row_count =
     (let leaf = (\<lambda>blk n. Some (fam_open F blk n));
          rle_leaf = (\<lambda>blk n. Some (fam_open F blk (fam_rle_rows F n row_count)))
      in if ty = fam_type F False EncPlain then map_option IPlain (leaf block row_count)
         else if ty = fam_type F True EncPlain then
           map_option IPlainNullable (nullable_open leaf block row_count)
         else if ty = fam_type F False EncRunLength then
           map_option IRunLength (rle_open leaf block row_count)
         else if ty = fam_type F True EncRunLength then
           map_option IRleNullable (rle_open (nullable_open rle_leaf) block row_count)
         else if ty = fam_type F False EncDictionary then
           map_option IDictionary (dict_open (fam_bi F) leaf block row_count)
         else if ty = fam_type F True EncDictionary then
           map_option IDictNullable (dict_open (nullable_bi (fam_bi F)) (nullable_open leaf) block row_count)
         else None)"

definition get_iterator_for ::
  "('b, 's, 'a) family \<Rightarrow> block_type \<Rightarrow> block \<Rightarrow> block_index \<Rightarrow> nat \<Rightarrow> ('s, 'a) block_iterator_impl option" where
  "get_iterator_for F ty block index start_pos = do {
     it \<leftarrow> open_block F ty block (bx_row_count index);
     cnt \<leftarrow> checked_sub start_pos (bx_first_rowid index);
     bii_skip F cnt it }"

definition get_fake_iterator ::
  "('b, 's, 'a) family \<Rightarrow> block_index \<Rightarrow> nat \<Rightarrow> ('s, 'a) block_iterator_impl option" where
  "get_fake_iterator F index start_pos = do {
     cnt \<leftarrow> checked_sub start_pos (bx_first_rowid index);
     bii_skip F cnt (IFake (fbi_new (bx_row_count index))) }"

section \<open>The families of the code\<close>

fun prim_type :: "bool \<Rightarrow> encode_type \<Rightarrow> block_type" where
  "prim_type False EncPlain = Plain"
| "prim_type True EncPlain = PlainNullable"
| "prim_type False EncRunLength = RunLength"
| "prim_type True EncRunLength = RleNullable"
| "prim_type False EncDictionary = Dictionary"
| "prim_type True EncDictionary = DictNullable"

fun fixed_char_type :: "bool \<Rightarrow> encode_type \<Rightarrow> block_type" where
  "fixed_char_type False EncPlain = PlainFixedChar"
| "fixed_char_type True EncPlain = PlainNullableFixedChar"
| "fixed_char_type False EncRunLength = RleFixedChar"
| "fixed_char_type True EncRunLength = RleNullableFixedChar"
| "fixed_char_type False EncDictionary = DictFixedChar"
| "fixed_char_type True EncDictionary = DictNullableFixedChar"

fun varchar_type :: "bool \<Rightarrow> encode_type \<Rightarrow> block_type" where
  "varchar_type False EncPlain = PlainVarchar"
| "varchar_type True EncPlain = PlainNullableVarchar"
| "varchar_type False EncRunLength = RleVarchar"
| "varchar_type True EncRunLength = RleNullableVarchar"
| "varchar_type False EncDictionary = DictVarchar"
| "varchar_type True EncDictionary = DictNullableVarchar"

definition prim_family :: "'a fixed_width \<Rightarrow> (primitive_builder, plain_iter, 'a) family" where
  "prim_family C = \<lparr>fam_bb = ppb C, fam_new = ppb_new, fam_bi = ppi C, fam_open = ppi_new,
     fam_default = DEFAULT_VALUE C, fam_type = prim_type,
     fam_rle_rows = (\<lambda>rle_num row_count. row_count), fam_first_key = encode C\<rparr>"

definition char_family :: "nat \<Rightarrow> (char_builder, plain_iter, byte list) family" where
  "char_family w = \<lparr>fam_bb = pcb, fam_new = (\<lambda>t. pcb_new t w), fam_bi = pci w, fam_open = pci_new,
     fam_default = [], fam_type = fixed_char_type,
     fam_rle_rows = (\<lambda>rle_num row_count. rle_num), fam_first_key = id\<rparr>"

definition varchar_family :: "(blob_builder, plain_iter, byte list) family" where
  "varchar_family = \<lparr>fam_bb = pbb, fam_new = pbb_new, fam_bi = pbi str_from_byte_slice,
     fam_open = pbi_new, fam_default = [], fam_type = varchar_type,
     fam_rle_rows = (\<lambda>rle_num row_count. rle_num), fam_first_key = id\<rparr>"

definition blob_family :: "(blob_builder, plain_iter, byte list) family" where
  "blob_family = \<lparr>fam_bb = pbb, fam_new = pbb_new, fam_bi = pbi blob_from_byte_slice,
     fam_open = pbi_new, fam_default = [], fam_type = prim_type,
     fam_rle_rows = (\<lambda>rle_num row_count. rle_num), fam_first_key = id\<rparr>"

section \<open>Builders that never panic\<close>

definition total_builder :: "('b, 'a, 'z) block_builder_scheme \<Rightarrow> 'b \<Rightarrow> ('a option list \<Rightarrow> bool) \<Rightarrow> bool" where
  "total_builder B new fits \<longleftrightarrow> (\<forall>xs. fits xs \<longrightarrow>
     (\<exists>b st. fold_opt (bb_append B) xs new = Some b \<and> bb_get_statistics B b = Some st))"

lemma fold_opt_step: "fold_opt f (xs @ [x]) s = Some b \<Longrightarrow> fold_opt f xs s = Some b' \<Longrightarrow> f x b' = Some b"
  by (simp add: fold_opt_snoc)

lemma total_snoc:
  assumes "total_builder B new fits" and "fits (xs @ [v])" and "fold_opt (bb_append B) xs new = Some b"
  shows "\<exists>c. bb_append B v b = Some c"
  using assms fold_opt_step [of "bb_append B" xs v new _ b] unfolding total_builder_def by blast

lemma total_stats:
  assumes "total_builder B new fits" and "fits xs" and "fold_opt (bb_append B) xs new = Some b"
  shows "\<exists>st. bb_get_statistics B b = Some st"
  using assms unfolding total_builder_def by fastforce

lemma rle_total:
  assumes total: "total_builder B new fits" and sub: "\<And>xs es. fits xs \<Longrightarrow> subseq es xs \<Longrightarrow> fits es"
  shows "total_builder (rle_bb B) (rb_new new) fits"
proof -
  have run: "\<exists>b. fold_opt (rb_append B) xs (rb_new new) = Some b" if "fits xs" for xs
    using that
  proof (induction xs rule: rev_induct)
    case (snoc v xs)
    have "fits xs" using snoc.prems by (rule sub) (simp add: subseq_rev_drop_many)
    with snoc.IH obtain b where b: "fold_opt (rb_append B) xs (rb_new new) = Some b" by blast
    have inner: "\<exists>c. bb_append B v (rb_block_builder b) = Some c"
      if "fold_opt (bb_append B) es new = Some (rb_block_builder b)" "subseq es xs" for es
    proof -
      have "fits (es @ [v])" using that(2) by (intro sub [OF snoc.prems]) simp
      with total that(1) show ?thesis by (blast intro: total_snoc)
    qed
    show ?case
    proof (cases "xs = []")
      case True
      with b inner [of "[]"] show ?thesis by (auto simp: rb_append_def rb_new_def fold_opt_snoc)
    next
      case False
      with rb_fold_runs [OF b] obtain es where "rb_runs B new xs b es" by blast
      with inner [of es] obtain c where "bb_append B v (rb_block_builder b) = Some c" by (auto simp: rb_runs_def)
      then have "\<exists>b'. rb_append B v b = Some b'" by (simp add: rb_append_def)
      with b show ?thesis by (simp add: fold_opt_snoc)
    qed
  qed simp
  have stats: "\<exists>st. bb_get_statistics B (rb_block_builder b) = Some st"
    if "fits xs" "fold_opt (rb_append B) xs (rb_new new) = Some b" for xs b
  proof (cases "xs = []")
    case True
    with that total_stats [OF total, of "[]" new] show ?thesis by (auto simp: rb_new_def)
  next
    case False
    with rb_fold_runs [OF that(2)] obtain es where "rb_runs B new xs b es" by blast
    with sub [OF that(1)] total_stats [OF total, of es] show ?thesis by (auto simp: rb_runs_def)
  qed
  from run stats show ?thesis
    by (fastforce simp: total_builder_def rle_bb_def rb_get_statistics_def)
qed

lemma codes_total: "total_builder code_bb (rb_new (ppb_new t)) (\<lambda>_. True)"
proof (rule rle_total)
  have "selected_items [] i xs = Some xs" for i and xs :: "byte list list"
    by (induction xs arbitrary: i) auto
  then show "total_builder (ppb i32_codec) (ppb_new t) (\<lambda>_. True)"
    using i32_law.ppb_total
    by (fastforce simp: total_builder_def ppb_def ppb_get_statistics_with_bitmap_def i32_codec_def rust_assert_def)
qed simp

lemma dict_total:
  assumes total: "total_builder B new fits" and sub: "\<And>xs es. fits xs \<Longrightarrow> subseq es xs \<Longrightarrow> fits es"
  shows "total_builder (dict_bb B) (db_new B new) (\<lambda>xs. fits xs \<and> length xs < 0xF0000000)"
proof -
  have "\<exists>b. fold_opt (db_append B) xs (db_new B new) = Some b" if "fits xs \<and> length xs < 0xF0000000" for xs
    using that
  proof (induction xs rule: rev_induct)
    case (snoc v xs)
    have "fits xs" using snoc.prems by (auto intro: sub simp: subseq_rev_drop_many)
    with snoc obtain b where b: "fold_opt (db_append B) xs (db_new B new) = Some b" by auto
    with db_fold_ok [OF b] snoc.prems obtain es where ok: "db_ok B new xs b es" by auto
    have code: "\<exists>r. bb_append code_bb (Some c) (db_rle_builder b) = Some r" for c
    proof -
      obtain r where "fold_opt (bb_append code_bb) (map (Some \<circ> code_of es) xs @ [Some c])
          (rb_new (ppb_new (bb_estimated_size B new))) = Some r"
        using codes_total by (auto simp: total_builder_def)
      with ok show ?thesis unfolding db_ok_def by (blast dest: fold_opt_step)
    qed
    have data: "\<exists>c. bb_append B v (db_data_builder b) = Some c"
    proof -
      have "subseq (map Some es @ [v]) (xs @ [v])"
        and fold: "fold_opt (bb_append B) (map Some es) new = Some (db_data_builder b)"
        using ok by (simp_all add: db_ok_def)
      with snoc.prems have "fits (map Some es @ [v])" using sub by blast
      from total_snoc [OF total this fold] show ?thesis .
    qed
    have les: "length es < 0xF0000000"
      using ok snoc.prems list_emb_length [of "(=)" "map Some es" xs] by (simp add: db_ok_def)
    have inc: "\<exists>k. i32_inc (db_cur_index b) = Some k"
    proof -
      have "db_cur_index b \<noteq> 0x7FFFFFFF"
      proof
        assume "db_cur_index b = 0x7FFFFFFF"
        then have "db_cur_index b + 1 = DICT_NULL_VALUE_KEY" by (simp add: DICT_NULL_VALUE_KEY_def)
        with ok have "(of_nat (length es + 1) :: u32) = of_nat 0" by (simp add: db_ok_def add.commute)
        with les of_nat_u32_inj [of "length es + 1" 0] show False by simp
      qed
      then show ?thesis by (simp add: i32_inc_def)
    qed
    have "\<exists>b'. db_append B v b = Some b'"
      using code data inc by (fastforce simp: db_append_def split: option.splits)
    with b show ?case by (auto simp: fold_opt_snoc)
  qed simp
  then show ?thesis by (fastforce simp: total_builder_def dict_bb_def db_get_statistics_def)
qed

section \<open>What a leaf must supply\<close>

locale family_law =
  fixes F :: "('b, 's, 'a) family" and inv :: "'s \<Rightarrow> bool" and sinv :: "'s \<Rightarrow> bool"
    and view :: "'s \<Rightarrow> 'a option list" and fits :: "'a option list \<Rightarrow> bool"
  assumes leaf: "reading_codec (fam_bi F) inv view (fam_bb F) (fam_new F t) (\<lambda>blk n. Some (fam_open F blk n))
      (with_default (fam_default F)) fits"
    and rle_leaf: "block_codec (fam_bi F) sinv view (fam_bb F) (fam_new F t)
      (\<lambda>blk n. Some (fam_open F blk (fam_rle_rows F n R))) (with_default (fam_default F))
      (\<lambda>xs. fits xs \<and> length xs \<le> R)"
    and leaf_append_Some: "bb_append (fam_bb F) (Some x) b = bb_append_value (fam_bb F) x b"
    and leaf_append_None: "bb_append (fam_bb F) None b = bb_append_default (fam_bb F) b"
    and leaf_fits_sub: "fits xs \<Longrightarrow> subseq es xs \<Longrightarrow> fits es"
    and leaf_skip_all: "inv s \<Longrightarrow> \<exists>s'. bi_skip (fam_bi F) (length (view s)) s = Some s' \<and> inv s' \<and> view s' = []"
    and leaf_empty: "\<exists>s'. bi_next_batch (fam_bi F) (Some 0) pa_new
      (fam_open F (bb_finish (fam_bb F) (fam_new F t)) 0) = Some (0, pa_new, s')"
    and leaf_new: "bb_is_empty (fam_bb F) (fam_new F t)" "\<not> bb_should_finish (fam_bb F) v (fam_new F t)"
    and leaf_total: "total_builder (fam_bb F) (fam_new F t) fits"
    and leaf_bitmap: "fits xs \<Longrightarrow> fold_opt (bb_append (fam_bb F)) xs (fam_new F t) = Some b \<Longrightarrow> length bm = length xs \<Longrightarrow>
      \<exists>st. bb_get_statistics_with_bitmap (fam_bb F) bm b = Some st"
    and types: "inj (\<lambda>(n, e). fam_type F n e)"
begin

abbreviation opn where "opn \<equiv> \<lambda>blk n. Some (fam_open F blk n)"
abbreviation norm where "norm \<equiv> with_default (fam_default F)"

lemma nullable: "nullable_reading (fam_bi F) inv view (fam_bb F) (fam_new F t) opn norm fits"
  by (intro nullable_reading.intro nullable_codec.intro nullable_codec_axioms.intro leaf
      reading_codec.is_block_codec [OF leaf] leaf_append_Some leaf_append_None)
    (simp_all add: with_default_def)

lemma nullable_rle_leaf:
  "nullable_codec (fam_bi F) sinv view (fam_bb F) (fam_new F t)
     (\<lambda>blk n. Some (fam_open F blk (fam_rle_rows F n R))) norm (\<lambda>xs. fits xs \<and> length xs \<le> R)"
  by (intro nullable_codec.intro nullable_codec_axioms.intro rle_leaf leaf_append_Some leaf_append_None)
    (simp_all add: with_default_def)

lemma rle: "rle_inner (fam_bi F) inv view (fam_bb F) (fam_new F t) opn norm fits"
  by (intro rle_inner.intro rle_inner_axioms.intro reading_codec.is_block_codec [OF leaf]) (rule leaf_fits_sub)

lemma rle_nullable:
  "rle_inner (nullable_bi (fam_bi F)) (ni_inv sinv view) (ni_view view) (nullable_bb (fam_bb F))
     (nb_new (fam_new F t) u) (nullable_open (\<lambda>blk n. Some (fam_open F blk (fam_rle_rows F n R)))) id
     (\<lambda>xs. (fits xs \<and> length xs \<le> R) \<and> length xs < 2 ^ 32)"
  by (intro rle_inner.intro rle_inner_axioms.intro nullable_codec.nullable_block_codec [OF nullable_rle_leaf])
    (auto dest: leaf_fits_sub list_emb_length)

lemma dict: "dict_inner (fam_bi F) inv view (fam_bb F) (fam_new F t) opn norm fits"
  by (intro dict_inner.intro dict_inner_axioms.intro leaf)
    (use leaf_fits_sub leaf_empty in \<open>auto simp: with_default_def\<close>)

lemma dict_nullable:
  "dict_inner (nullable_bi (fam_bi F)) (ni_inv inv view) (ni_view view) (nullable_bb (fam_bb F))
     (nb_new (fam_new F t) u) (nullable_open opn) id (\<lambda>xs. fits xs \<and> length xs < 2 ^ 32)"
proof (intro dict_inner.intro dict_inner_axioms.intro nullable_reading.nullable_reading_codec [OF nullable])
  from leaf_empty obtain s' where "bi_next_batch (fam_bi F) (Some 0) pa_new
      (fam_open F (bb_finish (fam_bb F) (fam_new F t)) 0) = Some (0, pa_new, s')" by blast
  then show "\<exists>s s'. nullable_open opn (bb_finish (nullable_bb (fam_bb F)) (nb_new (fam_new F t) u)) 0 = Some s
      \<and> bi_next_batch (nullable_bi (fam_bi F)) (Some 0) pa_new s = Some (0, pa_new, s')"
    by (simp add: nullable_open_def decode_nullable_block_def nullable_bb_def nb_finish_def nb_new_def
        pack_bits_def nullable_bi_def ni_next_batch_def ni_new_def unpack_bits_def slice_range_def
        pa_replace_bitmap_def pa_new_def)
qed (auto dest: leaf_fits_sub list_emb_length)

text \<open>No builder of the family panics on rows the leaf accepts.\<close>

lemma nullable_total: "total_builder (nullable_bb (fam_bb F)) (nb_new (fam_new F t) u) fits"
proof -
  have step: "\<exists>c. nb_append (fam_bb F) v b = Some c" if "bb_append (fam_bb F) v (nb_inner b) = Some i" for v b i
    using that by (cases v) (auto simp: nb_append_def leaf_append_Some leaf_append_None)
  have lift: "\<exists>c. fold_opt (nb_append (fam_bb F)) xs b = Some c"
    if "fold_opt (bb_append (fam_bb F)) xs (nb_inner b) = Some i" for xs b i
    using that
  proof (induction xs arbitrary: b)
    case (Cons v xs)
    then obtain j where j: "bb_append (fam_bb F) v (nb_inner b) = Some j" by auto
    from step [OF j] obtain c where c: "nb_append (fam_bb F) v b = Some c" by blast
    then have "nb_inner c = j"
      using j by (cases v) (auto simp: nb_append_def leaf_append_Some leaf_append_None)
    with Cons j c show ?case by auto
  qed simp
  have "\<exists>b st. fold_opt (bb_append (nullable_bb (fam_bb F))) xs (nb_new (fam_new F t) u) = Some b
      \<and> bb_get_statistics (nullable_bb (fam_bb F)) b = Some st" if "fits xs" for xs
  proof -
    from that leaf_total obtain i where i: "fold_opt (bb_append (fam_bb F)) xs (fam_new F t) = Some i"
      by (auto simp: total_builder_def)
    with lift [of xs "nb_new (fam_new F t) u"] obtain b where
      b: "fold_opt (nb_append (fam_bb F)) xs (nb_new (fam_new F t) u) = Some b" by (auto simp: nb_new_def)
    from nullable_codec.nb_fold [OF nullable_rle_leaf b] i have "nb_inner b = i" "length (nb_bitmap b) = length xs"
      by (simp_all add: nb_new_def)
    with leaf_bitmap [OF that i, of "nb_bitmap b"] b show ?thesis by (auto simp: nullable_bb_def nb_get_statistics_def)
  qed
  then show ?thesis by (simp add: total_builder_def)
qed

end

section \<open>The iterator enumeration\<close>

fun bii_view :: "('s \<Rightarrow> 'a option list) \<Rightarrow> ('s, 'a) block_iterator_impl \<Rightarrow> 'a option list" where
  "bii_view view (IPlain s) = view s"
| "bii_view view (IPlainNullable s) = ni_view view s"
| "bii_view view (IRunLength s) = ri_view view s"
| "bii_view view (IRleNullable s) = ri_view (ni_view view) s"
| "bii_view view (IDictionary s) = di_view s"
| "bii_view view (IDictNullable s) = di_view s"
| "bii_view view (IFake s) = fbi_view s"

fun bii_inv ::
  "('s \<Rightarrow> bool) \<Rightarrow> ('s \<Rightarrow> bool) \<Rightarrow> ('s \<Rightarrow> 'a option list) \<Rightarrow> ('s, 'a) block_iterator_impl \<Rightarrow> bool" where
  "bii_inv J K view (IPlain s) = J s"
| "bii_inv J K view (IPlainNullable s) = ni_inv J view s"
| "bii_inv J K view (IRunLength s) = ri_inv J view s"
| "bii_inv J K view (IRleNullable s) = ri_inv (ni_inv K view) (ni_view view) s"
| "bii_inv J K view (IDictionary s) = di_inv s"
| "bii_inv J K view (IDictNullable s) = di_inv s"
| "bii_inv J K view (IFake s) = fbi_inv s"

context block_iterator
begin

lemma wrapped_next:
  assumes "inv s" and "e \<noteq> Some 0" and "n = batch_len e (length (view s))"
  shows "\<exists>b' s'. wrap_batch W (bi_next_batch I e pa_new s) = Some (n, b', W s') \<and> pa_wf b'
    \<and> pa_items b' = take n (view s) \<and> inv s' \<and> view s' = drop n (view s)"
  using next_fresh [OF assms] by (auto simp: wrap_batch_def)

lemma wrapped_skip:
  assumes "inv s" and "k < length (view s)"
  shows "\<exists>s'. map_option W (bi_skip I k s) = Some (W s') \<and> inv s' \<and> view s' = drop k (view s)"
  using skip [OF assms] by auto

end

lemma map_option_fold:
  "(\<And>v b. f v (W b) = map_option W (g v b)) \<Longrightarrow> fold_opt f xs (W b) = map_option W (fold_opt g xs b)"
  by (induction xs arbitrary: b) (auto split: Option.bind_splits)

lemmas bbi_fold = map_option_fold [where f = "bbi_append F" and W = BPlain and g = "bb_append (fam_bb F)" for F]
  map_option_fold [where f = "bbi_append F" and W = BPlainNullable and g = "bb_append (nullable_bb (fam_bb F))" for F]
  map_option_fold [where f = "bbi_append F" and W = BRunLength and g = "bb_append (rle_bb (fam_bb F))" for F]
  map_option_fold [where f = "bbi_append F" and W = BRleNullable and g = "bb_append (rle_bb (nullable_bb (fam_bb F)))" for F]
  map_option_fold [where f = "bbi_append F" and W = BDictionary and g = "bb_append (dict_bb (fam_bb F))" for F]
  map_option_fold [where f = "bbi_append F" and W = BDictNullable and g = "bb_append (dict_bb (nullable_bb (fam_bb F)))" for F]

definition stored :: "('b, 's, 'a) family \<Rightarrow> bool \<Rightarrow> encode_type \<Rightarrow> 'a option \<Rightarrow> 'a option" where
  "stored F nullable enc = (if nullable \<or> enc = EncDictionary then id else with_default (fam_default F))"

context family_law
begin

lemma iterators:
  "block_iterator (fam_bi F) inv view"
  "block_iterator (nullable_bi (fam_bi F)) (ni_inv inv view) (ni_view view)"
  "block_iterator (rle_bi (fam_bi F) d) (ri_inv inv view) (ri_view view)"
  "block_iterator (rle_bi (nullable_bi (fam_bi F)) d) (ri_inv (ni_inv sinv view) (ni_view view)) (ri_view (ni_view view))"
  by (rule reading_codec.reads [OF leaf] reading_codec.reads [OF nullable_reading.nullable_reading_codec [OF nullable]]
      reading_codec.reads [OF rle_inner.rle_reading_codec [OF rle]]
      reading_codec.reads [OF rle_inner.rle_reading_codec [OF rle_nullable]])+

lemma bii_reads: "block_iterator (bii F) (bii_inv inv sinv view) (bii_view view)"
proof unfold_locales
  fix s e n
  assume nv: "bii_inv inv sinv view s" and e: "e \<noteq> Some 0" and n: "n = batch_len e (length (bii_view view s))"
  show "\<exists>b' s'. bi_next_batch (bii F) e pa_new s = Some (n, b', s') \<and> pa_wf b'
      \<and> pa_items b' = take n (bii_view view s) \<and> bii_inv inv sinv view s' \<and> bii_view view s' = drop n (bii_view view s)"
  proof (cases s)
    case (IPlain t)
    with nv e n block_iterator.wrapped_next [OF iterators(1), of t e n IPlain] show ?thesis by (fastforce simp: bii_def)
  next
    case (IPlainNullable t)
    with nv e n block_iterator.wrapped_next [OF iterators(2), of t e n IPlainNullable] show ?thesis by (fastforce simp: bii_def)
  next
    case (IRunLength t)
    with nv e n block_iterator.wrapped_next [OF iterators(3), of t e n IRunLength] show ?thesis by (fastforce simp: bii_def)
  next
    case (IRleNullable t)
    with nv e n block_iterator.wrapped_next [OF iterators(4), of t e n IRleNullable] show ?thesis by (fastforce simp: bii_def)
  next
    case (IDictionary t)
    with nv e n dict_iter.wrapped_next [of t e n IDictionary] show ?thesis by (fastforce simp: bii_def)
  next
    case (IDictNullable t)
    with nv e n dict_iter.wrapped_next [of t e n IDictNullable] show ?thesis by (fastforce simp: bii_def)
  next
    case (IFake t)
    with nv e n fake.wrapped_next [of t e n IFake] show ?thesis by (fastforce simp: bii_def)
  qed
next
  fix s k
  assume nv: "bii_inv inv sinv view s" and k: "k < length (bii_view view s)"
  show "\<exists>s'. bi_skip (bii F) k s = Some s' \<and> bii_inv inv sinv view s' \<and> bii_view view s' = drop k (bii_view view s)"
  proof (cases s)
    case (IPlain t)
    with nv k block_iterator.wrapped_skip [OF iterators(1), of t k IPlain] show ?thesis by (fastforce simp: bii_def)
  next
    case (IPlainNullable t)
    with nv k block_iterator.wrapped_skip [OF iterators(2), of t k IPlainNullable] show ?thesis by (fastforce simp: bii_def)
  next
    case (IRunLength t)
    with nv k block_iterator.wrapped_skip [OF iterators(3), of t k IRunLength] show ?thesis by (fastforce simp: bii_def)
  next
    case (IRleNullable t)
    with nv k block_iterator.wrapped_skip [OF iterators(4), of t k IRleNullable] show ?thesis by (fastforce simp: bii_def)
  next
    case (IDictionary t)
    with nv k dict_iter.wrapped_skip [of t k IDictionary] show ?thesis by (fastforce simp: bii_def)
  next
    case (IDictNullable t)
    with nv k dict_iter.wrapped_skip [of t k IDictNullable] show ?thesis by (fastforce simp: bii_def)
  next
    case (IFake t)
    with nv k fake.wrapped_skip [of t k IFake] show ?thesis by (fastforce simp: bii_def)
  qed
next
  fix s
  assume "bii_inv inv sinv view s"
  then show "bi_remaining_items (bii F) s = Some (length (bii_view view s))"
    using iterators [THEN block_iterator.remaining] dict_iter.remaining fake.remaining
    by (cases s) (simp_all add: bii_def)
qed

lemma type_eq [simp]: "fam_type F n e = fam_type F n' e' \<longleftrightarrow> n = n' \<and> e = e'"
  using types by (auto simp: inj_def)

lemma leaf_skip: "inv s \<Longrightarrow> k \<le> length (view s) \<Longrightarrow>
    \<exists>s'. bi_skip (fam_bi F) k s = Some s' \<and> inv s' \<and> view s' = drop k (view s)"
  using block_iterator.skip [OF iterators(1), of s k] leaf_skip_all [of s] by (auto simp: le_less)

lemma nullable_skip: "ni_inv inv view s \<Longrightarrow> k \<le> length (ni_view view s) \<Longrightarrow>
    \<exists>s'. bi_skip (nullable_bi (fam_bi F)) k s = Some s' \<and> ni_inv inv view s' \<and> ni_view view s' = drop k (ni_view view s)"
  using leaf_skip [of "ni_inner s" k] ni_skip_step [of inv view s k "fam_bi F"] length_ni_view [of inv view s]
  by (auto simp: nullable_bi_def ni_inv_def)

abbreviation opens :: "block_type \<Rightarrow> block \<Rightarrow> nat \<Rightarrow> nat \<Rightarrow> 'a option list \<Rightarrow> bool" where
  "opens ty blk n k ys \<equiv> \<exists>it it'. open_block F ty blk n = Some it \<and> bii_skip F k it = Some it'
     \<and> bii_inv inv sinv view it' \<and> bii_view view it' = drop k ys"

lemma open_plain:
  assumes "fold_opt (bb_append (fam_bb F)) xs (fam_new F t) = Some b" and "xs \<noteq> []" and "fits xs" and "k \<le> length xs"
  shows "opens (fam_type F False EncPlain) (bb_finish (fam_bb F) b) (length xs) k (map norm xs)"
proof -
  from reading_codec.read_finish [OF leaf assms(1-3)] obtain s where
    "fam_open F (bb_finish (fam_bb F) b) (length xs) = s" "inv s" "view s = map norm xs" by auto
  with leaf_skip [of s k] assms(4) show ?thesis by (auto simp: open_block_def Let_def)
qed

lemma open_nullable:
  assumes "fold_opt (bb_append (nullable_bb (fam_bb F))) xs (nb_new (fam_new F t) u) = Some b" and "xs \<noteq> []"
    and "fits xs" and "length xs < 0xF0000000" and "k \<le> length xs"
  shows "opens (fam_type F True EncPlain) (bb_finish (nullable_bb (fam_bb F)) b) (length xs) k xs"
proof -
  from reading_codec.read_finish [OF nullable_reading.nullable_reading_codec [OF nullable] assms(1,2)] assms(3,4)
  obtain s where "nullable_open opn (bb_finish (nullable_bb (fam_bb F)) b) (length xs) = Some s"
      "ni_inv inv view s" "ni_view view s = xs" by auto
  with nullable_skip [of s k] assms(5) show ?thesis by (auto simp: open_block_def Let_def)
qed

lemma open_rle:
  assumes "fold_opt (bb_append (rle_bb (fam_bb F))) xs (rb_new (fam_new F t)) = Some b" and "xs \<noteq> []"
    and "fits xs" and "length xs < 0xF0000000" and "k \<le> length xs"
  shows "opens (fam_type F False EncRunLength) (bb_finish (rle_bb (fam_bb F)) b) (length xs) k (map norm xs)"
proof -
  from rle_inner.rle_open_finish [OF rle assms(1-4), of "length xs"] obtain s where
    s: "rle_open opn (bb_finish (rle_bb (fam_bb F)) b) (length xs) = Some s" "ri_inv inv view s"
      "ri_view view s = map norm xs" by auto
  with rle_inner.rle_open_skip [OF rle s(1,2), of k "fam_default F"] assms(5)
  show ?thesis by (auto simp: open_block_def Let_def)
qed

lemma open_rle_nullable:
  assumes "fold_opt (bb_append (rle_bb (nullable_bb (fam_bb F)))) xs (rb_new (nb_new (fam_new F t) u)) = Some b"
    and "xs \<noteq> []" and "fits xs" and "length xs < 0xF0000000" and "k \<le> length xs"
  shows "opens (fam_type F True EncRunLength) (bb_finish (rle_bb (nullable_bb (fam_bb F))) b) (length xs) k xs"
proof -
  let ?opn = "nullable_open (\<lambda>blk n. Some (fam_open F blk (fam_rle_rows F n (length xs))))"
  from rle_inner.rle_open_finish [OF rle_nullable assms(1,2), of "length xs" "length xs"] assms(3,4) obtain s where
    s: "rle_open ?opn (bb_finish (rle_bb (nullable_bb (fam_bb F))) b) (length xs) = Some s"
      "ri_inv (ni_inv sinv view) (ni_view view) s" "ri_view (ni_view view) s = xs" by auto
  with rle_inner.rle_open_skip [OF rle_nullable s(1,2), of k "fam_default F"] assms(5)
  show ?thesis by (auto simp: open_block_def Let_def)
qed

lemma open_dict:
  assumes "fold_opt (bb_append (dict_bb (fam_bb F))) xs (db_new (fam_bb F) (fam_new F t)) = Some b"
    and "xs \<noteq> []" and "fits xs" and "length xs < 0xF0000000" and "k \<le> length xs"
  shows "opens (fam_type F False EncDictionary) (bb_finish (dict_bb (fam_bb F)) b) (length xs) k xs"
proof -
  from dict_inner.dict_open_finish [OF dict assms(1-4), of "length xs"] obtain s where
    s: "dict_open (fam_bi F) opn (bb_finish (dict_bb (fam_bb F)) b) (length xs) = Some s" "di_inv s" "di_view s = xs"
    by auto
  with dict_inner.dict_open_skip [OF dict s(1,2), of k "fam_default F"] assms(5)
  show ?thesis by (auto simp: open_block_def Let_def)
qed

lemma open_dict_nullable:
  assumes "fold_opt (bb_append (dict_bb (nullable_bb (fam_bb F)))) xs
      (db_new (nullable_bb (fam_bb F)) (nb_new (fam_new F t) u)) = Some b"
    and "xs \<noteq> []" and "fits xs" and "length xs < 0xF0000000" and "k \<le> length xs"
  shows "opens (fam_type F True EncDictionary) (bb_finish (dict_bb (nullable_bb (fam_bb F))) b) (length xs) k xs"
proof -
  from dict_inner.dict_open_finish [OF dict_nullable assms(1,2), of "length xs"] assms(3,4) obtain s where
    s: "dict_open (nullable_bi (fam_bi F)) (nullable_open opn) (bb_finish (dict_bb (nullable_bb (fam_bb F))) b) (length xs) = Some s"
      "di_inv s" "di_view s = xs" by auto
  with dict_inner.dict_open_skip [OF dict_nullable s(1,2), of k "fam_default F"] assms(5)
  show ?thesis by (auto simp: open_block_def Let_def)
qed

lemma factory_reads:
  assumes run: "fold_opt (bbi_append F) xs (bbi_new F nullable enc t) = Some b" and "xs \<noteq> []" and "fits xs"
    and "length xs < 0xF0000000" and fin: "bbi_finish F b = Some (ty, stats, blk)"
    and idx: "bx_row_count index = length xs" and k: "k \<le> length xs"
  shows "\<exists>it. get_iterator_for F ty blk index (bx_first_rowid index + k) = Some it
    \<and> bii_inv inv sinv view it \<and> bii_view view it = drop k (map (stored F nullable enc) xs)"
proof -
  have "opens ty blk (length xs) k (map (stored F nullable enc) xs)"
  proof (cases nullable)
    case False
    then show ?thesis
      using run fin assms(2-4) k open_plain open_rle open_dict
      by (cases enc) (auto simp: bbi_new_def bbi_fold stored_def)
  next
    case True
    then show ?thesis
      using run fin assms(2-4) k open_nullable open_rle_nullable open_dict_nullable
      by (cases enc) (auto simp: bbi_new_def bbi_fold stored_def)
  qed
  then show ?thesis by (auto simp: get_iterator_for_def idx)
qed

lemma new_not_finished: "\<not> bbi_should_finish F v (bbi_new F nullable enc t)"
  using leaf_new
  by (cases nullable; cases enc)
    (auto simp: bbi_new_def nullable_bb_def nb_should_finish_def nb_new_def rle_bb_def rb_should_finish_def
      rb_new_def dict_bb_def db_should_finish_def db_new_def ppb_def ppb_should_finish_def ppb_is_empty_def ppb_new_def)

lemma bbi_total:
  assumes "fits xs" and "length xs < 0xF0000000"
  shows "\<exists>b r. fold_opt (bbi_append F) xs (bbi_new F nullable enc t) = Some b \<and> bbi_finish F b = Some r"
proof -
  note sub = leaf_fits_sub
  have totals: "total_builder (fam_bb F) (fam_new F t) fits"
      "total_builder (nullable_bb (fam_bb F)) (nb_new (fam_new F t) t) fits"
      "total_builder (rle_bb (fam_bb F)) (rb_new (fam_new F t)) fits"
      "total_builder (rle_bb (nullable_bb (fam_bb F))) (rb_new (nb_new (fam_new F t) t)) fits"
      "total_builder (dict_bb (fam_bb F)) (db_new (fam_bb F) (fam_new F t)) (\<lambda>xs. fits xs \<and> length xs < 0xF0000000)"
      "total_builder (dict_bb (nullable_bb (fam_bb F))) (db_new (nullable_bb (fam_bb F)) (nb_new (fam_new F t) t))
        (\<lambda>xs. fits xs \<and> length xs < 0xF0000000)"
    by (intro leaf_total nullable_total rle_total dict_total; erule sub; assumption)+
  show ?thesis
    using assms totals [unfolded total_builder_def, rule_format, of xs]
    by (cases nullable; cases enc) (fastforce simp: bbi_new_def bbi_fold)+
qed

end

end
