(* ===== verification/Families.thy ===== *)
theory Families
  imports Encodings
begin

text \<open>
  The families of the code satisfy the contract of \<open>Encodings\<close>: primitive values of every
  fixed-width type, fixed-width strings, variable-length strings and blobs. Each interpretation
  gives the factory theorem for that family.
\<close>

lemma subseq_mem: "subseq es xs \<Longrightarrow> v \<in> set es \<Longrightarrow> v \<in> set xs"
  by (erule list_emb_set) auto

section \<open>Statistics never panic\<close>

lemma selected_total:
  "selection = [] \<or> idx + length xs \<le> length selection \<Longrightarrow> \<exists>ys. selected_items selection idx xs = Some ys"
proof (induction xs arbitrary: idx)
  case (Cons x xs)
  then obtain ys where "selected_items selection (Suc idx) xs = Some ys" by fastforce
  with Cons.prems show ?case by (auto simp: index_at_def)
qed simp

lemma length_chunks_le: "0 < w \<Longrightarrow> length xs = w * n \<Longrightarrow> length (chunks w xs) = n"
proof (induction n arbitrary: xs)
  case 0
  then show ?case by (simp add: chunks.simps)
next
  case (Suc n)
  then have "chunks w xs = take w xs # chunks w (drop w xs)" by (subst chunks.simps) auto
  with Suc show ?case by simp
qed

section \<open>Primitive values\<close>

context fixed_width_law
begin

lemma ppb_data_length:
  "fold_opt (ppb_append C) xs (ppb_new t) = Some b \<Longrightarrow> length (pb_data b) = WIDTH C * length xs"
  using ppb_fold [of xs "ppb_new t" b]
    concat_map_length [of xs "\<lambda>v. encode C (the (with_default (DEFAULT_VALUE C) v))" "WIDTH C"]
  by (simp add: ppb_new_def)

lemma ppb_stats:
  assumes "fold_opt (ppb_append C) xs (ppb_new t) = Some b" and "bm = [] \<or> length bm = length xs"
  shows "\<exists>st. ppb_get_statistics_with_bitmap C bm b = Some st"
proof -
  have "length (chunks (WIDTH C) (pb_data b)) = length xs"
    using length_chunks_le [OF width_pos ppb_data_length [OF assms(1)]] .
  with selected_total [of bm 0 "chunks (WIDTH C) (pb_data b)"] assms(2) width_pos show ?thesis
    by (auto simp: ppb_get_statistics_with_bitmap_def rust_assert_def)
qed

lemma prim_family_law:
  "family_law (prim_family C) (ppi_inv C ok) (ppi_step_inv C ok) (ppi_view C) (\<lambda>xs. \<forall>v. Some v \<in> set xs \<longrightarrow> ok v)"
proof (rule family_law.intro, goal_cases)
  case (1 t)
  from ppb_codec show ?case by (simp add: prim_family_def)
next
  case (2 t R)
  from ppb_codec_over show ?case by (simp add: prim_family_def)
next
  case (5 xs es)
  then show ?case by (auto dest: subseq_mem)
next
  case (6 s)
  then show ?case
    by (auto simp: prim_family_def ppi_def plain_skip_def ppi_inv_def ppi_view_def fixed_block_def)
next
  case (10 t)
  show ?case
    using ppb_total ppb_stats [of _ _ _ "[]"] by (fastforce simp: total_builder_def prim_family_def ppb_def)
next
  case (11 xs t b bm)
  then show ?case using ppb_stats [of xs t b bm] by (simp add: prim_family_def ppb_def)
next
  case 12
  show ?case
  proof (rule injI, clarify)
    fix n e n' e'
    assume "fam_type (prim_family C) n e = fam_type (prim_family C) n' e'"
    then show "n = n' \<and> e = e'"
      by (cases n; cases e; cases n'; cases e') (simp_all add: prim_family_def)
  qed
qed (simp_all add: prim_family_def ppb_def ppb_append_def ppi_def ppi_next_batch_non_null_def
    plain_next_batch_def ppi_new_def ppb_is_empty_def ppb_new_def ppb_should_finish_def)

end

section \<open>Fixed-width strings\<close>

lemma pcb_total:
  "\<forall>v. Some v \<in> set xs \<longrightarrow> length v \<le> cb_char_width b \<Longrightarrow> \<exists>b'. fold_opt pcb_append xs b = Some b'"
proof (induction xs arbitrary: b)
  case (Cons v xs)
  then obtain b1 where "pcb_append v b = Some b1" "cb_char_width b1 = cb_char_width b"
    by (cases v) (auto simp: pcb_append_def pcb_append_value_def pcb_append_default_def)
  with Cons show ?case by auto
qed simp

lemma pcb_stats:
  assumes "0 < w" and "fold_opt pcb_append xs (pcb_new t w) = Some b" and "bm = [] \<or> length bm = length xs"
  shows "\<exists>st. pcb_get_statistics_with_bitmap bm b = Some st"
proof -
  note run = pcb_fold [OF assms(2)]
  have "length (cb_bytes b) = w * length xs"
    using run by (auto simp: pcb_new_def char_codec_def intro!: concat_map_length)
  then have "length (chunks w (cb_bytes b)) = length xs" by (rule length_chunks_le [OF assms(1)])
  with selected_total [of bm 0 "chunks w (cb_bytes b)"] assms(1,3) run show ?thesis
    by (auto simp: pcb_get_statistics_with_bitmap_def rust_assert_def pcb_new_def)
qed

lemma pci_codec:
  assumes "0 < w"
  shows "reading_codec (pci w) (ppi_inv (char_codec w) (char_ok w)) (ppi_view (char_codec w)) pcb
     (pcb_new t w) (\<lambda>blk n. Some (pci_new blk n)) (with_default []) (\<lambda>xs. \<forall>v. Some v \<in> set xs \<longrightarrow> char_ok w v)"
  using reading_codec.read_finish [OF pcb_codec [OF assms]]
  by (intro reading_codec.intro reading_codec_axioms.intro reading_codec.reads [OF pcb_codec [OF assms]])
    (auto simp: char_ok_def)

lemma char_family_law:
  assumes "0 < w"
  shows "family_law (char_family w) (ppi_inv (char_codec w) (char_ok w)) (ppi_inv (char_codec w) (char_ok w))
    (ppi_view (char_codec w)) (\<lambda>xs. \<forall>v. Some v \<in> set xs \<longrightarrow> char_ok w v)"
proof (rule family_law.intro, goal_cases)
  case (1 t)
  from pci_codec [OF assms] show ?case by (simp add: char_family_def)
next
  case (2 t R)
  from reading_codec.is_block_codec [OF pci_codec [OF assms]] show ?case
    by (auto simp: char_family_def block_codec_def block_codec_axioms_def)
next
  case (5 xs es)
  then show ?case by (auto dest: subseq_mem)
next
  case (6 s)
  then show ?case
    by (auto simp: char_family_def pci_def plain_skip_def ppi_inv_def ppi_view_def fixed_block_def)
next
  case (10 t)
  show ?case
    using pcb_total [of _ "pcb_new t w"] pcb_stats [OF assms, of _ _ _ "[]"]
    by (fastforce simp: total_builder_def char_family_def pcb_def pcb_new_def char_ok_def)
next
  case (11 xs t b bm)
  then show ?case using pcb_stats [OF assms, of xs t b bm] by (simp add: char_family_def pcb_def)
next
  case 12
  show ?case
  proof (rule injI, clarify)
    fix n e n' e'
    assume "fam_type (char_family w) n e = fam_type (char_family w) n' e'"
    then show "n = n' \<and> e = e'"
      by (cases n; cases e; cases n'; cases e') (simp_all add: char_family_def)
  qed
qed (simp_all add: char_family_def pcb_def pcb_append_def pci_def pci_next_batch_non_null_def
    plain_next_batch_def pci_new_def pcb_is_empty_def pcb_new_def pcb_should_finish_def)

section \<open>Variable-length strings and blobs\<close>

lemma total_len_sub: "subseq es xs \<Longrightarrow> total_len es \<le> total_len xs"
  by (induction rule: list_emb.induct) (auto simp: total_len_def)

lemma pbb_total: "\<exists>b'. fold_opt pbb_append xs b = Some b'"
  by (induction xs arbitrary: b)
    (auto simp: pbb_append_def pbb_append_value_def pbb_append_default_def Let_def split: option.splits)

lemma pbb_stat_items_total:
  "last_pos + length (concat ys) \<le> length data \<Longrightarrow> length data < 2 ^ 32 \<Longrightarrow>
   selection = [] \<or> idx + length ys \<le> length selection \<Longrightarrow>
   \<exists>items. pbb_stat_items selection data idx last_pos (map of_nat (blob_ends last_pos ys)) = Some items"
proof (induction ys arbitrary: last_pos idx)
  case (Cons y ys)
  then obtain items where "pbb_stat_items selection data (Suc idx) (last_pos + length y)
      (map of_nat (blob_ends (last_pos + length y) ys)) = Some items"
    by fastforce
  moreover have "unat (of_nat (last_pos + length y) :: u32) = last_pos + length y"
    using Cons.prems by (simp del: of_nat_add)
  moreover obtain sl where "slice_range last_pos (last_pos + length y) data = Some sl"
    using Cons.prems by (auto simp: slice_range_def)
  moreover have "selection = [] \<or> idx < length selection" using Cons.prems by auto
  ultimately show ?case
    by (auto simp: index_at_def simp del: of_nat_add slice_range_eq_Some)
qed simp

lemma pbb_stats:
  assumes "fold_opt pbb_append xs (pbb_new t) = Some b" and "total_len xs < 2 ^ 32"
    and "bm = [] \<or> length bm = length xs"
  shows "\<exists>st. pbb_get_statistics_with_bitmap bm b = Some st"
proof -
  let ?ys = "map (the \<circ> with_default []) xs"
  have "bl_data b = concat ?ys" "bl_offsets b = map of_nat (blob_ends 0 ?ys)"
    using pbb_fold [OF assms(1)] by (simp_all add: pbb_new_def)
  with pbb_stat_items_total [of 0 ?ys "bl_data b" bm 0] assms show ?thesis
    by (auto simp: pbb_get_statistics_with_bitmap_def total_len_def)
qed

lemma blob_like_law:
  assumes "frm [] = Some []" and "inj (\<lambda>(n, e). types n e)"
  shows "family_law \<lparr>fam_bb = pbb, fam_new = pbb_new, fam_bi = pbi frm, fam_open = pbi_new,
       fam_default = [], fam_type = types, fam_rle_rows = (\<lambda>rle_num row_count. rle_num), fam_first_key = id\<rparr>
     (pbi_inv frm) (pbi_inv frm) pbi_view
     (\<lambda>xs. (\<forall>v. Some v \<in> set xs \<longrightarrow> frm v = Some v) \<and> total_len xs < 2 ^ 32)"
proof (rule family_law.intro, goal_cases)
  case (1 t)
  from pbb_codec [where frm = frm, OF assms(1)] show ?case by simp
next
  case (2 t R)
  from reading_codec.is_block_codec [OF pbb_codec [where frm = frm, OF assms(1)]] show ?case
    by (auto simp: block_codec_def block_codec_axioms_def)
next
  case (5 xs es)
  then show ?case using total_len_sub [of es xs] by (auto dest: subseq_mem)
next
  case (6 s)
  have "blob_items (s\<lparr>it_next_row := n\<rparr>) = blob_items s" for n by (simp add: blob_items_def)
  with 6 show ?case
    by (auto simp: pbi_def plain_skip_def pbi_inv_def pbi_view_def blob_block_def)
next
  case (10 t)
  show ?case using pbb_total pbb_stats [of _ _ _ "[]"] by (fastforce simp: total_builder_def pbb_def)
next
  case (11 xs t b bm)
  then show ?case using pbb_stats [of xs t b bm] by (simp add: pbb_def)
next
  case 12
  then show ?case using assms(2) by simp
qed (simp_all add: pbb_def pbb_append_def pbi_def pbi_next_batch_non_null_def
    plain_next_batch_def pbi_new_def pbb_is_empty_def pbb_new_def pbb_should_finish_def)

lemma inj_types: "inj (\<lambda>(n, e). varchar_type n e)" "inj (\<lambda>(n, e). prim_type n e)"
proof -
  have "varchar_type n e = varchar_type n' e' \<Longrightarrow> n = n' \<and> e = e'" for n e n' e'
    by (cases n; cases e; cases n'; cases e') simp_all
  then show "inj (\<lambda>(n, e). varchar_type n e)" by (auto intro!: injI)
  have "prim_type n e = prim_type n' e' \<Longrightarrow> n = n' \<and> e = e'" for n e n' e'
    by (cases n; cases e; cases n'; cases e') simp_all
  then show "inj (\<lambda>(n, e). prim_type n e)" by (auto intro!: injI)
qed

interpretation varchar: family_law varchar_family "pbi_inv str_from_byte_slice" "pbi_inv str_from_byte_slice"
  pbi_view "\<lambda>xs. (\<forall>v. Some v \<in> set xs \<longrightarrow> str_from_byte_slice v = Some v) \<and> total_len xs < 2 ^ 32"
  unfolding varchar_family_def
  by (rule blob_like_law) (simp_all add: str_from_byte_slice_def inj_types)

interpretation blobs: family_law blob_family "pbi_inv blob_from_byte_slice" "pbi_inv blob_from_byte_slice"
  pbi_view "\<lambda>xs. (\<forall>v. Some v \<in> set xs \<longrightarrow> blob_from_byte_slice v = Some v) \<and> total_len xs < 2 ^ 32"
  unfolding blob_family_def
  by (rule blob_like_law) (simp_all add: blob_from_byte_slice_def inj_types)

interpretation i32s: family_law "prim_family i32_codec" "ppi_inv i32_codec (\<lambda>_. True)"
  "ppi_step_inv i32_codec (\<lambda>_. True)" "ppi_view i32_codec" "\<lambda>xs. \<forall>v. Some v \<in> set xs \<longrightarrow> True"
  by (rule i32_law.prim_family_law)

text \<open>So the wrappers of integer blocks satisfy their contracts: the nullable block, the run-length block and the
  dictionary block over it, and the last two over the nullable block.\<close>

interpretation i32_nullable: nullable_reading "fam_bi (prim_family i32_codec)" "ppi_inv i32_codec (\<lambda>_. True)" "ppi_view i32_codec"
    "fam_bb (prim_family i32_codec)" "fam_new (prim_family i32_codec) t" "\<lambda>blk n. Some (fam_open (prim_family i32_codec) blk n)"
    "with_default (fam_default (prim_family i32_codec))" "\<lambda>xs. \<forall>v. Some v \<in> set xs \<longrightarrow> True" for t
  by (rule i32s.nullable)

interpretation i32_rle: rle_inner "fam_bi (prim_family i32_codec)" "ppi_inv i32_codec (\<lambda>_. True)" "ppi_view i32_codec"
    "fam_bb (prim_family i32_codec)" "fam_new (prim_family i32_codec) t" "\<lambda>blk n. Some (fam_open (prim_family i32_codec) blk n)"
    "with_default (fam_default (prim_family i32_codec))" "\<lambda>xs. \<forall>v. Some v \<in> set xs \<longrightarrow> True" for t
  by (rule i32s.rle)

interpretation i32_dict: dict_inner "fam_bi (prim_family i32_codec)" "ppi_inv i32_codec (\<lambda>_. True)" "ppi_view i32_codec"
    "fam_bb (prim_family i32_codec)" "fam_new (prim_family i32_codec) t" "\<lambda>blk n. Some (fam_open (prim_family i32_codec) blk n)"
    "with_default (fam_default (prim_family i32_codec))" "\<lambda>xs. \<forall>v. Some v \<in> set xs \<longrightarrow> True" for t
  by (rule i32s.dict)

end
