(* ===== verification/Column_Builder.thy ===== *)
theory Column_Builder
  imports Families
begin

text \<open>
  Column builders (\<open>primitive_column_builder.rs\<close>, \<open>char_column_builder.rs\<close>,
  \<open>blob_column_builder.rs\<close>, which differ only in their family): rows are appended to the current
  block builder one by one until it asks to be finished, the block is sealed into the column file
  and an index entry is recorded. The main result is that a column built from any sequence of
  arrays is a sequence of non-empty blocks whose rows, concatenated, are the appended rows, laid
  out in the file where the index says.
\<close>

record column_builder_options =
  cbo_target_block_size :: nat
  cbo_checksum_type :: checksum_type
  cbo_encode_type :: encode_type
  cbo_record_first_key :: bool

record storage_options =
  so_target_rowset_size :: nat
  so_target_block_size :: nat
  so_checksum_type :: checksum_type
  so_encode_type :: encode_type
  so_record_first_key :: bool

definition from_storage_options :: "storage_options \<Rightarrow> column_builder_options" where
  "from_storage_options options = \<lparr>cbo_target_block_size = so_target_block_size options,
     cbo_checksum_type = so_checksum_type options, cbo_encode_type = EncPlain,
     cbo_record_first_key = so_record_first_key options\<rparr>"

record ('b, 'a) column_builder =
  cb_data :: "byte list"
  cb_options :: column_builder_options
  cb_current_builder :: "('b, 'a) block_builder_impl option"
  cb_nullable :: bool
  cb_block_index_builder :: block_index_builder
  cb_first_key :: "byte list option"

definition cb_new :: "bool \<Rightarrow> column_builder_options \<Rightarrow> ('b, 'a) column_builder" where
  "cb_new nullable options = \<lparr>cb_data = [], cb_options = options, cb_current_builder = None,
     cb_nullable = nullable, cb_block_index_builder = ib_new (cbo_checksum_type options),
     cb_first_key = None\<rparr>"

definition cb_finish_builder ::
  "(byte list \<Rightarrow> u32) \<Rightarrow> ('b, 's, 'a) family \<Rightarrow> ('b, 'a) column_builder \<Rightarrow> ('b, 'a) column_builder option" where
  "cb_finish_builder crc F c =
     (case cb_current_builder c of
        None \<Rightarrow> Some c
      | Some b \<Rightarrow> do {
          (block_type, stats, block_data) \<leftarrow> bbi_finish F b;
          (data, ib) \<leftarrow> ib_finish_block crc block_type (cb_data c) block_data stats (cb_first_key c)
                         (cb_block_index_builder c);
          Some (c\<lparr>cb_current_builder := None, cb_data := data, cb_block_index_builder := ib\<rparr>) })"

fun append_one_by_one ::
  "('b, 's, 'a) family \<Rightarrow> 'a option list \<Rightarrow> ('b, 'a) block_builder_impl \<Rightarrow> nat
     \<Rightarrow> (nat \<times> bool \<times> 'a option list \<times> ('b, 'a) block_builder_impl) option" where
  "append_one_by_one F [] b cnt = Some (cnt, False, [], b)"
| "append_one_by_one F (v # iter) b cnt =
     (if bbi_should_finish F v b then Some (cnt, True, v # iter, b)
      else do {
        b \<leftarrow> bbi_append F v b;
        append_one_by_one F iter b (cnt + 1) })"

text \<open>One round of the loop of \<open>append\<close>: make sure there is a builder, fill it, close it if full.\<close>

definition cb_round ::
  "(byte list \<Rightarrow> u32) \<Rightarrow> ('b, 's, 'a) family \<Rightarrow> 'a option list \<Rightarrow> ('b, 'a) column_builder
     \<Rightarrow> ('a option list \<times> ('b, 'a) column_builder) option" where
  "cb_round crc F iter c = do {
     c \<leftarrow> (case cb_current_builder c of
        Some _ \<Rightarrow> Some c
      | None \<Rightarrow> do {
          target \<leftarrow> checked_sub (cbo_target_block_size (cb_options c)) 16;
          let c = c\<lparr>cb_current_builder :=
                Some (bbi_new F (cb_nullable c) (cbo_encode_type (cb_options c)) target)\<rparr>;
          Some (case iter of
                  v # _ \<Rightarrow> if cbo_record_first_key (cb_options c)
                           then c\<lparr>cb_first_key := map_option (fam_first_key F) v\<rparr> else c
                | [] \<Rightarrow> c) });
     b \<leftarrow> cb_current_builder c;
     (row_count, should_finish, iter, b) \<leftarrow> append_one_by_one F iter b 0;
     let c = c\<lparr>cb_current_builder := Some b,
               cb_block_index_builder := ib_add_rows row_count (cb_block_index_builder c)\<rparr>;
     c \<leftarrow> (if should_finish then cb_finish_builder crc F c else Some c);
     Some (iter, c) }"

partial_function (option) cb_append ::
  "(byte list \<Rightarrow> u32) \<Rightarrow> ('b, 's, 'a) family \<Rightarrow> 'a option list \<Rightarrow> ('b, 'a) column_builder
     \<Rightarrow> ('b, 'a) column_builder option" where
  "cb_append crc F iter c =
     (if iter = [] then Some c
      else do {
        (iter, c) \<leftarrow> cb_round crc F iter c;
        cb_append crc F iter c })"

definition cb_finish ::
  "(byte list \<Rightarrow> u32) \<Rightarrow> ('b, 's, 'a) family \<Rightarrow> ('b, 'a) column_builder \<Rightarrow> (column_index \<times> byte list) option" where
  "cb_finish crc F c = do {
     c \<leftarrow> cb_finish_builder crc F c;
     Some (ib_indexes (cb_block_index_builder c), cb_data c) }"

text \<open>Building a whole column: \<open>append\<close> for each array, then \<open>finish\<close>.\<close>

definition build_column ::
  "(byte list \<Rightarrow> u32) \<Rightarrow> ('b, 's, 'a) family \<Rightarrow> bool \<Rightarrow> column_builder_options \<Rightarrow> 'a option list list
     \<Rightarrow> (column_index \<times> byte list) option" where
  "build_column crc F nullable options arrays = do {
     c \<leftarrow> fold_opt (cb_append crc F) arrays (cb_new nullable options);
     cb_finish crc F c }"

section \<open>The layout of a column\<close>

text \<open>
  \<open>column_layout crc F open_ok idx bytes rows\<close>: the index entries and the file describe the blocks
  with the given rows, starting at a byte offset and a row number.
\<close>

definition opens_to ::
  "('b, 's, 'a) family \<Rightarrow> (('s, 'a) block_iterator_impl \<Rightarrow> bool) \<Rightarrow> (('s, 'a) block_iterator_impl \<Rightarrow> 'a option list)
     \<Rightarrow> block_type \<Rightarrow> block \<Rightarrow> block_index \<Rightarrow> 'a option list \<Rightarrow> bool" where
  "opens_to F J V ty blk x rows \<longleftrightarrow> bx_row_count x = length rows \<and> (\<forall>k \<le> length rows.
     \<exists>it. get_iterator_for F ty blk x (bx_first_rowid x + k) = Some it \<and> J it \<and> V it = drop k rows)"

definition block_at ::
  "(byte list \<Rightarrow> u32) \<Rightarrow> ('b, 's, 'a) family \<Rightarrow> (('s, 'a) block_iterator_impl \<Rightarrow> bool)
     \<Rightarrow> (('s, 'a) block_iterator_impl \<Rightarrow> 'a option list) \<Rightarrow> byte list \<Rightarrow> block_index \<Rightarrow> 'a option list \<Rightarrow> bool" where
  "block_at crc F J V bytes x rows \<longleftrightarrow> rows \<noteq> [] \<and> (\<exists>ck ty blk.
     slice_range (bx_offset x) (bx_offset x + bx_length x) bytes = Some (seal_block crc ck ty blk)
     \<and> opens_to F J V ty blk x rows)"

definition column_of ::
  "(byte list \<Rightarrow> u32) \<Rightarrow> ('b, 's, 'a) family \<Rightarrow> (('s, 'a) block_iterator_impl \<Rightarrow> bool)
     \<Rightarrow> (('s, 'a) block_iterator_impl \<Rightarrow> 'a option list) \<Rightarrow> column_index \<Rightarrow> byte list
     \<Rightarrow> 'a option list list \<Rightarrow> bool" where
  "column_of crc F J V idx bytes blocks \<longleftrightarrow> index_rows 0 idx \<and> list_all2 (block_at crc F J V bytes) idx blocks"

section \<open>The builder's invariant\<close>

lemma index_rows_snoc:
  "index_rows k (idx @ [x]) \<longleftrightarrow> index_rows k idx \<and> bx_first_rowid x = row_count_agg idx k"
  by (induction idx arbitrary: k) (auto simp: row_count_agg_def)

lemma slice_range_grow: "slice_range a b xs = Some ys \<Longrightarrow> slice_range a b (xs @ zs) = Some ys"
  by simp

lemma block_at_grow: "block_at crc F J V bytes x rows \<Longrightarrow> block_at crc F J V (bytes @ more_bytes) x rows"
  unfolding block_at_def using slice_range_grow by metis

definition built ::
  "(byte list \<Rightarrow> u32) \<Rightarrow> ('b, 's, 'a) family \<Rightarrow> (('s, 'a) block_iterator_impl \<Rightarrow> bool)
     \<Rightarrow> (('s, 'a) block_iterator_impl \<Rightarrow> 'a option list) \<Rightarrow> bool \<Rightarrow> column_builder_options
     \<Rightarrow> ('b, 'a) column_builder \<Rightarrow> 'a option list list \<Rightarrow> 'a option list \<Rightarrow> bool" where
  "built crc F J V nullable opts c blocks cur \<longleftrightarrow>
     cb_nullable c = nullable \<and> cb_options c = opts
     \<and> ib_last_row_count (cb_block_index_builder c) = length (concat blocks)
     \<and> ib_row_count (cb_block_index_builder c) = length (concat blocks) + length cur
     \<and> row_count_agg (ib_indexes (cb_block_index_builder c)) 0 = length (concat blocks)
     \<and> (length (cb_data c) < 2 ^ 64 \<longrightarrow> column_of crc F J V (ib_indexes (cb_block_index_builder c)) (cb_data c)
          (map (map (stored F nullable (cbo_encode_type opts))) blocks))
     \<and> (cb_current_builder c = None \<longrightarrow> cur = [])
     \<and> (\<forall>b. cb_current_builder c = Some b \<longrightarrow> cur \<noteq> [] \<and> fold_opt (bbi_append F) cur
          (bbi_new F nullable (cbo_encode_type opts) (cbo_target_block_size opts - 16)) = Some b)"

lemma built_new: "built crc F J V nullable opts (cb_new nullable opts) [] []"
  by (simp add: built_def cb_new_def ib_new_def row_count_agg_def column_of_def)

context family_law
begin

abbreviation J where "J \<equiv> bii_inv inv sinv view"
abbreviation V where "V \<equiv> bii_view view"

lemma fits_part: "fits (xs @ ys @ zs) \<Longrightarrow> fits ys"
  by (erule leaf_fits_sub) (simp add: list_emb_append2 subseq_rev_drop_many)

lemma append_one_by_one_spec:
  assumes "fold_opt (bbi_append F) cur (bbi_new F nullable enc t) = Some b"
    and "fits (cur @ iter)" and "length (cur @ iter) < 0xF0000000"
  shows "\<exists>taken rest fin b'. append_one_by_one F iter b cnt = Some (cnt + length taken, fin, rest, b')
    \<and> iter = taken @ rest \<and> fold_opt (bbi_append F) (cur @ taken) (bbi_new F nullable enc t) = Some b'
    \<and> (fin \<longleftrightarrow> rest \<noteq> []) \<and> (taken = [] \<longrightarrow> iter = [] \<or> bbi_should_finish F (hd iter) b)"
  using assms
proof (induction iter arbitrary: cur b cnt)
  case Nil
  then show ?case by simp
next
  case (Cons v iter)
  show ?case
  proof (cases "bbi_should_finish F v b")
    case True
    with Cons.prems(1) show ?thesis by - (rule exI [of _ "[]"], simp)
  next
    case False
    have sub: "fits (cur @ [v])" "length (cur @ [v]) < 0xF0000000"
      using Cons.prems(2,3) fits_part [of "[]" "cur @ [v]" iter] by simp_all
    from bbi_total [OF this, of nullable enc t] Cons.prems(1) obtain b1 where
      b1: "bbi_append F v b = Some b1" by (auto simp: fold_opt_snoc)
    with Cons.prems(1) have "fold_opt (bbi_append F) (cur @ [v]) (bbi_new F nullable enc t) = Some b1"
      by (simp add: fold_opt_snoc)
    from Cons.IH [OF this, of "cnt + 1"] Cons.prems(2,3) obtain taken rest fin b' where
      "append_one_by_one F iter b1 (cnt + 1) = Some (cnt + 1 + length taken, fin, rest, b')"
      "iter = taken @ rest"
      "fold_opt (bbi_append F) ((cur @ [v]) @ taken) (bbi_new F nullable enc t) = Some b'"
      "fin \<longleftrightarrow> rest \<noteq> []" by auto
    with False b1 show ?thesis by - (rule exI [of _ "v # taken"], simp)
  qed
qed

lemma finish_builder_spec:
  assumes ok: "built crc F J V nullable opts c blocks cur" and cur: "cb_current_builder c = Some b"
    and fits: "fits cur" and len: "length (concat blocks) + length cur < 0xF0000000"
  shows "\<exists>c'. cb_finish_builder crc F c = Some c' \<and> built crc F J V nullable opts c' (blocks @ [cur]) []
    \<and> cb_current_builder c' = None"
proof -
  let ?ib = "cb_block_index_builder c"
  from ok cur have fold: "fold_opt (bbi_append F) cur
      (bbi_new F nullable (cbo_encode_type opts) (cbo_target_block_size opts - 16)) = Some b" and ne: "cur \<noteq> []"
    and rows: "ib_last_row_count ?ib = length (concat blocks)" "ib_row_count ?ib = length (concat blocks) + length cur"
      "row_count_agg (ib_indexes ?ib) 0 = length (concat blocks)"
    by (auto simp: built_def)
  have lc: "length cur < 0xF0000000" using len by simp
  from bbi_total [OF fits lc] fold obtain ty st blk where fin: "bbi_finish F b = Some (ty, st, blk)"
    by (metis option.inject surj_pair)
  define x where "x = \<lparr>bx_offset = as_u64 (length (cb_data c)), bx_length = as_u64 (length blk) + 16,
       bx_first_rowid = as_u32 (ib_last_row_count ?ib), bx_row_count = as_u32 (length cur),
       bx_first_key = (case cb_first_key c of Some k \<Rightarrow> k | None \<Rightarrow> []), bx_stats = st,
       bx_is_first_key_null = (cb_first_key c = None)\<rparr>"
  define c' where "c' = c\<lparr>cb_current_builder := None,
      cb_data := cb_data c @ seal_block crc (ib_checksum_type ?ib) ty blk,
      cb_block_index_builder := ?ib\<lparr>ib_indexes := ib_indexes ?ib @ [x], ib_last_row_count := ib_row_count ?ib\<rparr>\<rparr>"
  have run: "cb_finish_builder crc F c = Some c'"
    using rows by (simp add: cb_finish_builder_def cur fin ib_finish_block_def checked_sub_def c'_def x_def)
  have x: "bx_row_count x = length cur" "bx_first_rowid x = length (concat blocks)"
    using len rows by (simp_all add: x_def)
  have new: "block_at crc F J V (cb_data c') x (map (stored F nullable (cbo_encode_type opts)) cur)"
    if small: "length (cb_data c') < 2 ^ 64"
  proof -
    have "bx_offset x = length (cb_data c)" "bx_length x = length (seal_block crc (ib_checksum_type ?ib) ty blk)"
      using small by (simp_all add: x_def c'_def)
    then have "slice_range (bx_offset x) (bx_offset x + bx_length x) (cb_data c')
        = Some (seal_block crc (ib_checksum_type ?ib) ty blk)"
      by (simp add: c'_def)
    moreover have "opens_to F J V ty blk x (map (stored F nullable (cbo_encode_type opts)) cur)"
      using factory_reads [OF fold ne fits lc fin x(1)] x(1) by (simp add: opens_to_def)
    ultimately show ?thesis using ne by (auto simp: block_at_def)
  qed
  have "column_of crc F J V (ib_indexes (cb_block_index_builder c')) (cb_data c')
      (map (map (stored F nullable (cbo_encode_type opts))) (blocks @ [cur]))" if small: "length (cb_data c') < 2 ^ 64"
  proof -
    have "length (cb_data c) < 2 ^ 64" using small by (simp add: c'_def)
    with ok have old: "index_rows 0 (ib_indexes ?ib)" "list_all2 (block_at crc F J V (cb_data c)) (ib_indexes ?ib)
        (map (map (stored F nullable (cbo_encode_type opts))) blocks)" by (auto simp: built_def column_of_def)
    have "list_all2 (block_at crc F J V (cb_data c')) (ib_indexes ?ib)
        (map (map (stored F nullable (cbo_encode_type opts))) blocks)"
      using old(2) by (rule list_all2_mono) (simp add: c'_def block_at_grow)
    moreover have "cb_block_index_builder c' = ?ib\<lparr>ib_indexes := ib_indexes ?ib @ [x], ib_last_row_count := ib_row_count ?ib\<rparr>"
      by (simp add: c'_def)
    ultimately show ?thesis
      using new [OF small] old(1) x rows by (simp add: column_of_def index_rows_snoc list_all2_appendI)
  qed
  moreover have "row_count_agg (ib_indexes ?ib @ [x]) 0 = length (concat (blocks @ [cur]))"
    using rows x by (simp add: row_count_agg_def)
  ultimately have "built crc F J V nullable opts c' (blocks @ [cur]) []"
    using ok rows by (simp add: built_def c'_def)
  with run show ?thesis by (simp add: c'_def)
qed

lemma cb_round_spec:
  assumes ok: "built crc F J V nullable opts c blocks cur" and iter: "iter \<noteq> []"
    and fits: "fits (concat blocks @ cur @ iter)" and len: "length (concat blocks @ cur @ iter) < 0xF0000000"
    and target: "16 \<le> cbo_target_block_size opts"
  shows "\<exists>iter' c' blocks' cur'. cb_round crc F iter c = Some (iter', c')
    \<and> built crc F J V nullable opts c' blocks' cur' \<and> concat blocks @ cur @ iter = concat blocks' @ cur' @ iter'
    \<and> (length iter' < length iter \<or> length iter' = length iter
         \<and> cb_current_builder c \<noteq> None \<and> cb_current_builder c' = None)"
proof -
  let ?new = "bbi_new F nullable (cbo_encode_type opts) (cbo_target_block_size opts - 16)"
  define b where "b = (case cb_current_builder c of Some b \<Rightarrow> b | None \<Rightarrow> ?new)"
  define c1 where "c1 = (case cb_current_builder c of Some _ \<Rightarrow> c | None \<Rightarrow>
    (if cbo_record_first_key opts then c\<lparr>cb_current_builder := Some b, cb_first_key := map_option (fam_first_key F) (hd iter)\<rparr>
     else c\<lparr>cb_current_builder := Some b\<rparr>))"
  have c1: "cb_current_builder c1 = Some b" by (simp add: c1_def b_def split: option.splits)
  have fold: "fold_opt (bbi_append F) cur ?new = Some b"
    using ok by (auto simp: built_def b_def split: option.splits)
  have "fits (cur @ iter)" "length (cur @ iter) < 0xF0000000"
    using fits len fits_part [of "concat blocks" "cur @ iter" "[]"] by simp_all
  from append_one_by_one_spec [OF fold this, of 0, unfolded add_0] obtain taken rest fin b' where
    app: "append_one_by_one F iter b 0 = Some (length taken, fin, rest, b')" "iter = taken @ rest"
      "fold_opt (bbi_append F) (cur @ taken) ?new = Some b'" "fin \<longleftrightarrow> rest \<noteq> []"
      "taken = [] \<longrightarrow> iter = [] \<or> bbi_should_finish F (hd iter) b" by blast
  have none: "cb_current_builder c = None \<Longrightarrow> taken \<noteq> []"
    using app(5) iter new_not_finished by (auto simp: b_def)
  have ne: "cur @ taken \<noteq> []"
  proof (cases "cb_current_builder c")
    case None
    then show ?thesis using none by simp
  next
    case (Some b)
    then show ?thesis using ok by (auto simp: built_def)
  qed
  define c2 where "c2 = c1\<lparr>cb_current_builder := Some b',
      cb_block_index_builder := ib_add_rows (length taken) (cb_block_index_builder c1)\<rparr>"
  have same: "cb_nullable c1 = cb_nullable c" "cb_options c1 = cb_options c" "cb_data c1 = cb_data c"
      "cb_block_index_builder c1 = cb_block_index_builder c"
    by (simp_all add: c1_def split: option.splits)
  have built2: "built crc F J V nullable opts c2 blocks (cur @ taken)"
    using ok app(3) ne same by (simp add: built_def c2_def ib_add_rows_def)
  have round: "cb_round crc F iter c
      = do { c \<leftarrow> (if fin then cb_finish_builder crc F c2 else Some c2); Some (rest, c) }"
  proof -
    have opts: "cb_options c = opts" "cb_nullable c = nullable" using ok by (simp_all add: built_def)
    have "(case cb_current_builder c of Some _ \<Rightarrow> Some c
        | None \<Rightarrow> do {
            target \<leftarrow> checked_sub (cbo_target_block_size (cb_options c)) 16;
            let c = c\<lparr>cb_current_builder := Some (bbi_new F (cb_nullable c) (cbo_encode_type (cb_options c)) target)\<rparr>;
            Some (case iter of
                    v # _ \<Rightarrow> if cbo_record_first_key (cb_options c)
                             then c\<lparr>cb_first_key := map_option (fam_first_key F) v\<rparr> else c
                  | [] \<Rightarrow> c) }) = Some c1"
      using iter target opts
      by (auto simp: c1_def b_def checked_sub_def Let_def split: option.splits list.splits)
    then show ?thesis by (simp add: cb_round_def c1 app(1) c2_def Let_def)
  qed
  show ?thesis
  proof (cases fin)
    case False
    with app iter round built2 show ?thesis
      by - (rule exI [of _ rest], rule exI [of _ c2], rule exI [of _ blocks], rule exI [of _ "cur @ taken"], simp)
  next
    case True
    have "fits (cur @ taken)" "length (concat blocks) + length (cur @ taken) < 0xF0000000"
      using fits len app(2) fits_part [of "concat blocks" "cur @ taken" rest] by simp_all
    from finish_builder_spec [OF built2 _ this] obtain c3 where
      c3: "cb_finish_builder crc F c2 = Some c3" "built crc F J V nullable opts c3 (blocks @ [cur @ taken]) []"
        "cb_current_builder c3 = None" by (auto simp: c2_def)
    have less: "length rest < length iter \<or> length rest = length iter \<and> cb_current_builder c \<noteq> None"
      using app(2) none by (cases taken) auto
    show ?thesis
      using True round c3 less app(2)
      by - (rule exI [of _ rest], rule exI [of _ c3], rule exI [of _ "blocks @ [cur @ taken]"], rule exI [of _ "[]"], simp)
  qed
qed

lemma cb_append_spec:
  assumes "built crc F J V nullable opts c blocks cur"
    and "fits (concat blocks @ cur @ iter)" and "length (concat blocks @ cur @ iter) < 0xF0000000"
    and "16 \<le> cbo_target_block_size opts"
  shows "\<exists>c' blocks' cur'. cb_append crc F iter c = Some c'
    \<and> built crc F J V nullable opts c' blocks' cur' \<and> concat blocks @ cur @ iter = concat blocks' @ cur'"
  using assms
proof (induction "2 * length iter + (if cb_current_builder c = None then 0 else 1 :: nat)"
    arbitrary: iter c blocks cur rule: less_induct)
  case less
  show ?case
  proof (cases "iter = []")
    case True
    have "cb_append crc F iter c = Some c" by (subst cb_append.simps) (simp add: True)
    with less.prems(1) True show ?thesis
      by - (rule exI [of _ c], rule exI [of _ blocks], rule exI [of _ cur], simp)
  next
    case False
    from cb_round_spec [OF less.prems(1) False less.prems(2-4)] obtain iter' c1 blocks1 cur1 where
      r: "cb_round crc F iter c = Some (iter', c1)" "built crc F J V nullable opts c1 blocks1 cur1"
        "concat blocks @ cur @ iter = concat blocks1 @ cur1 @ iter'"
        "length iter' < length iter \<or> length iter' = length iter
         \<and> cb_current_builder c \<noteq> None \<and> cb_current_builder c1 = None"
      by blast
    have m: "2 * length iter' + (if cb_current_builder c1 = None then 0 else 1 :: nat)
        < 2 * length iter + (if cb_current_builder c = None then 0 else 1)"
      using r(4) by auto
    have step: "cb_append crc F iter c = cb_append crc F iter' c1"
      by (subst cb_append.simps) (simp add: False r(1))
    from less.hyps [OF m r(2)] less.prems(2-4) show ?thesis unfolding step r(3) by blast
  qed
qed

lemma build_column_spec:
  assumes fits: "fits (concat arrays)" and len: "length (concat arrays) < 0xF0000000"
    and target: "16 \<le> cbo_target_block_size opts"
  shows "\<exists>idx bytes blocks. build_column crc F nullable opts arrays = Some (idx, bytes)
    \<and> concat blocks = concat arrays \<and> row_count_agg idx 0 = length (concat arrays)
    \<and> (length bytes < 2 ^ 64 \<longrightarrow>
         column_of crc F J V idx bytes (map (map (stored F nullable (cbo_encode_type opts))) blocks))"
proof -
  have "\<exists>c blocks' cur'. fold_opt (cb_append crc F) arrays c0 = Some c
      \<and> built crc F J V nullable opts c blocks' cur' \<and> concat blocks @ cur @ concat arrays = concat blocks' @ cur'"
    if "built crc F J V nullable opts c0 blocks cur" "fits (concat blocks @ cur @ concat arrays)"
      "length (concat blocks @ cur @ concat arrays) < 0xF0000000" for arrays c0 blocks cur
    using that
  proof (induction arrays arbitrary: c0 blocks cur)
    case Nil
    then show ?case by auto
  next
    case (Cons a arrays)
    have "fits (concat blocks @ cur @ a)" "length (concat blocks @ cur @ a) < 0xF0000000"
      using Cons.prems(2,3) fits_part [of "[]" "concat blocks @ cur @ a" "concat arrays"] by simp_all
    from cb_append_spec [OF Cons.prems(1) this target] obtain c1 blocks1 cur1 where
      c1: "cb_append crc F a c0 = Some c1" "built crc F J V nullable opts c1 blocks1 cur1"
        "concat blocks @ cur @ a = concat blocks1 @ cur1" by blast
    have eq: "concat blocks @ cur @ concat (a # arrays) = concat blocks1 @ cur1 @ concat arrays"
      using c1(3) by (simp add: append_assoc [symmetric] del: append_assoc)
    from Cons.IH [OF c1(2)] Cons.prems(2,3) c1(1) show ?case unfolding eq by auto
  qed
  from this [OF built_new, of arrays] fits len obtain c blocks cur where
    c: "fold_opt (cb_append crc F) arrays (cb_new nullable opts) = Some c"
      "built crc F J V nullable opts c blocks cur" "concat arrays = concat blocks @ cur" by auto
  show ?thesis
  proof (cases "cb_current_builder c")
    case None
    with c show ?thesis
      by (auto simp: build_column_def cb_finish_def cb_finish_builder_def built_def intro!: exI [of _ blocks])
  next
    case (Some b)
    have "fits cur" using fits c(3) fits_part [of "concat blocks" cur "[]"] by simp
    from finish_builder_spec [OF c(2) Some this] len c(3) obtain c' where
      "cb_finish_builder crc F c = Some c'" "built crc F J V nullable opts c' (blocks @ [cur]) []" by auto
    with c show ?thesis
      by (auto simp: build_column_def cb_finish_def built_def intro!: exI [of _ "blocks @ [cur]"])
  qed
qed

end

end
