(* ===== verification/Column_Iterator.thy ===== *)
theory Column_Iterator
  imports Column_Builder
begin

text \<open>
  Reading a column (\<open>concrete_column_iterator.rs\<close>): the iterator holds the current block's iterator
  and row number; a batch may cross block boundaries, \<open>skip\<close> moves over whole blocks without
  loading them (the iterator is then \<open>fake\<close> until the next batch loads the block it stopped in), and
  \<open>fetch_hint\<close> says how many rows the current block still has.

  \<open>cache\<close> is what the block cache holds for each block during a call. The main result: on a column
  in the sense of \<open>column_of\<close>, an iterator opened at any row yields the column's rows from there on,
  through any sequence of batches that stay within the hint and of skips.
\<close>

record 'it column_iter =
  ci_current_block_id :: nat
  ci_block_iterator :: 'it
  ci_current_row_id :: nat
  ci_finished :: bool
  ci_is_fake_iter :: bool
  ci_next_batch_count :: nat
  ci_fetched_block_count :: nat

type_synonym ('s, 'a) col_iter = "('s, 'a) block_iterator_impl column_iter"

text \<open>Load a block and open it at a row: errors of \<open>get_block\<close> are returned. The cache is given by
  what it holds for each block when it is asked; what a call leaves in it is not handed to the next one, as other readers and evictions may
  change it: each call finds an arbitrary cache.\<close>

definition load_block ::
  "(byte list \<Rightarrow> u32) \<Rightarrow> (nat \<Rightarrow> byte list option) \<Rightarrow> ('b, 's, 'a) family \<Rightarrow> column \<Rightarrow> nat \<Rightarrow> nat
     \<Rightarrow> ('s, 'a) block_iterator_impl storage_result option" where
  "load_block crc cache F col block_id start_pos = do {
     (r, _) \<leftarrow> get_block map_cache crc cache col block_id;
     (case r of
        Inl err \<Rightarrow> Some (Inl err)
      | Inr (header, block) \<Rightarrow> do {
          index \<leftarrow> index_at (co_index col) block_id;
          it \<leftarrow> get_iterator_for F (bm_block_type header) block index start_pos;
          Some (Inr it) }) }"

definition ci_new ::
  "(byte list \<Rightarrow> u32) \<Rightarrow> (nat \<Rightarrow> byte list option) \<Rightarrow> ('b, 's, 'a) family \<Rightarrow> column \<Rightarrow> nat
     \<Rightarrow> ('s, 'a) col_iter storage_result option" where
  "ci_new crc cache F col start_pos = do {
     current_block_id \<leftarrow> block_of_seek_position (co_index col) (RowId start_pos);
     r \<leftarrow> load_block crc cache F col current_block_id start_pos;
     Some (case r of
        Inl err \<Rightarrow> Inl err
      | Inr it \<Rightarrow> Inr \<lparr>ci_current_block_id = current_block_id, ci_block_iterator = it,
          ci_current_row_id = start_pos, ci_finished = False, ci_is_fake_iter = False,
          ci_next_batch_count = 0, ci_fetched_block_count = 1\<rparr>) }"

function ci_loop ::
  "(byte list \<Rightarrow> u32) \<Rightarrow> (nat \<Rightarrow> byte list option) \<Rightarrow> ('b, 's, 'a) family \<Rightarrow> column \<Rightarrow> nat option
     \<Rightarrow> nat \<Rightarrow> 'a array \<Rightarrow> ('s, 'a) col_iter \<Rightarrow> (nat \<times> 'a array \<times> ('s, 'a) col_iter) storage_result option" where
  "ci_loop crc cache F col expected_size total_cnt b s = do {
     e \<leftarrow> (case expected_size of None \<Rightarrow> Some None | Some x \<Rightarrow> map_option Some (checked_sub x total_cnt));
     (cnt, b, it) \<leftarrow> bi_next_batch (bii F) e b (ci_block_iterator s);
     row_id \<leftarrow> checked_add32 (ci_current_row_id s) (as_u32 cnt);
     let total_cnt = total_cnt + cnt;
     let s = s\<lparr>ci_block_iterator := it, ci_current_row_id := row_id\<rparr>;
     (if (case expected_size of Some x \<Rightarrow> total_cnt \<ge> x | None \<Rightarrow> total_cnt \<noteq> 0)
      then Some (Inr (total_cnt, b, s))
      else
        (let s' = s\<lparr>ci_current_block_id := ci_current_block_id s + 1\<rparr>
         in if ci_current_block_id s' \<ge> length (co_index col)
            then Some (Inr (total_cnt, b, s'\<lparr>ci_finished := True\<rparr>))
            else (case load_block crc cache F col (ci_current_block_id s') (ci_current_row_id s') of
                    None \<Rightarrow> None
                  | Some (Inl err) \<Rightarrow> Some (Inl err)
                  | Some (Inr it) \<Rightarrow>
                      ci_loop crc cache F col expected_size total_cnt b
                        (s'\<lparr>ci_block_iterator := it,
                            ci_fetched_block_count := ci_fetched_block_count s' + 1\<rparr>)))) }"
  by pat_completeness auto
termination
  by (relation "measure (\<lambda>(crc, cache, F, col, e, n, b, s). length (co_index col) - ci_current_block_id s)") auto

declare ci_loop.simps [simp del]

definition ci_next_batch_inner ::
  "(byte list \<Rightarrow> u32) \<Rightarrow> (nat \<Rightarrow> byte list option) \<Rightarrow> ('b, 's, 'a) family \<Rightarrow> column \<Rightarrow> nat option
     \<Rightarrow> ('s, 'a) col_iter \<Rightarrow> ((nat \<times> 'a array) option \<times> ('s, 'a) col_iter) storage_result option" where
  "ci_next_batch_inner crc cache F col expected_size s =
     (if ci_finished s then Some (Inr (None, s))
      else do {
        _ \<leftarrow> (case expected_size of
               Some n \<Rightarrow> Some n | None \<Rightarrow> bi_remaining_items (bii F) (ci_block_iterator s));
        let first_row_id = ci_current_row_id s;
        opened \<leftarrow>
          (if ci_is_fake_iter s then do {
             r \<leftarrow> load_block crc cache F col (ci_current_block_id s) (ci_current_row_id s);
             Some (case r of
                Inl err \<Rightarrow> Inl err
              | Inr it \<Rightarrow> Inr (s\<lparr>ci_is_fake_iter := False, ci_block_iterator := it,
                  ci_fetched_block_count := ci_fetched_block_count s + 1\<rparr>)) }
           else Some (Inr s));
        (case opened of
           Inl err \<Rightarrow> Some (Inl err)
         | Inr s \<Rightarrow> do {
             r \<leftarrow> ci_loop crc cache F col expected_size 0 pa_new s;
             Some (case r of
                Inl err \<Rightarrow> Inl err
              | Inr (total_cnt, b, s) \<Rightarrow>
                  Inr (if total_cnt = 0 then None else Some (first_row_id, pa_finish b), s)) }) })"

definition ci_next_batch ::
  "(byte list \<Rightarrow> u32) \<Rightarrow> (nat \<Rightarrow> byte list option) \<Rightarrow> ('b, 's, 'a) family \<Rightarrow> column \<Rightarrow> nat option
     \<Rightarrow> ('s, 'a) col_iter \<Rightarrow> ((nat \<times> 'a array) option \<times> ('s, 'a) col_iter) storage_result option" where
  "ci_next_batch crc cache F col expected_size s =
     ci_next_batch_inner crc cache F col expected_size (s\<lparr>ci_next_batch_count := ci_next_batch_count s + 1\<rparr>)"

definition ci_fetch_hint :: "column \<Rightarrow> 'it column_iter \<Rightarrow> (nat \<times> bool) option" where
  "ci_fetch_hint col s =
     (if ci_finished s then Some (0, True)
      else do {
        index \<leftarrow> index_at (co_index col) (ci_current_block_id s);
        consumed \<leftarrow> checked_sub (ci_current_row_id s) (bx_first_rowid index);
        hint \<leftarrow> checked_sub (bx_row_count index) consumed;
        if hint = 0 then
          (if ci_current_block_id s + 1 < length (co_index col)
           then do { next \<leftarrow> index_at (co_index col) (ci_current_block_id s + 1); Some (bx_row_count next, False) }
           else Some (0, False))
        else Some (hint, False) })"

definition ci_fetch_current_row_id :: "'it column_iter \<Rightarrow> nat" where
  "ci_fetch_current_row_id s = ci_current_row_id s"

definition incre_block_id :: "column \<Rightarrow> 'it column_iter \<Rightarrow> bool \<times> 'it column_iter" where
  "incre_block_id col s =
     (let s = s\<lparr>ci_current_block_id := ci_current_block_id s + 1\<rparr>
      in if ci_current_block_id s \<ge> length (co_index col) then (True, s\<lparr>ci_finished := True\<rparr>) else (False, s))"

text \<open>The loop of \<open>skip_inner\<close> when no block is loaded, and the one after leaving a loaded block.\<close>

function skip_fake_loop :: "column \<Rightarrow> nat \<Rightarrow> 'it column_iter \<Rightarrow> 'it column_iter option" where
  "skip_fake_loop col reached s =
     (if ci_current_row_id s > reached then
        (case incre_block_id col s of
           (True, s) \<Rightarrow> Some s
         | (False, s) \<Rightarrow>
             (case index_at (co_index col) (ci_current_block_id s) of
                None \<Rightarrow> None
              | Some index \<Rightarrow> skip_fake_loop col (reached + bx_row_count index) s))
      else Some s)"
  by pat_completeness auto
termination
  by (relation "measure (\<lambda>(col, reached, s). length (co_index col) - ci_current_block_id s)")
    (auto simp: incre_block_id_def Let_def split: if_splits)

declare skip_fake_loop.simps [simp del]

function skip_block_loop :: "column \<Rightarrow> nat \<Rightarrow> 'it column_iter \<Rightarrow> (bool \<times> 'it column_iter) option" where
  "skip_block_loop col cnt s =
     (if cnt > 0 then
        (case index_at (co_index col) (ci_current_block_id s) of
           None \<Rightarrow> None
         | Some index \<Rightarrow>
             if cnt \<ge> bx_row_count index then
               (case incre_block_id col s of
                  (True, s) \<Rightarrow> Some (True, s)
                | (False, s) \<Rightarrow> skip_block_loop col (cnt - bx_row_count index) s)
             else skip_block_loop col 0 s)
      else Some (False, s))"
  by pat_completeness auto
termination
  by (relation "measures [\<lambda>(col, cnt, s). length (co_index col) - ci_current_block_id s, \<lambda>(col, cnt, s). cnt]")
    (auto simp: incre_block_id_def Let_def split: if_splits)

declare skip_block_loop.simps [simp del]

definition ci_skip ::
  "('b, 's, 'a) family \<Rightarrow> column \<Rightarrow> nat \<Rightarrow> ('s, 'a) col_iter \<Rightarrow> ('s, 'a) col_iter option" where
  "ci_skip F col cnt s =
     (if ci_finished s then Some s
      else do {
        row_id \<leftarrow> checked_add32 (ci_current_row_id s) (as_u32 cnt);
        let s = s\<lparr>ci_current_row_id := row_id\<rparr>;
        if ci_is_fake_iter s then do {
          index \<leftarrow> index_at (co_index col) (ci_current_block_id s);
          skip_fake_loop col (bx_first_rowid index + bx_row_count index) s }
        else do {
          remaining_items \<leftarrow> bi_remaining_items (bii F) (ci_block_iterator s);
          if cnt \<ge> remaining_items then
            (case incre_block_id col s of
               (True, s) \<Rightarrow> Some s
             | (False, s) \<Rightarrow> do {
                 (done, s) \<leftarrow> skip_block_loop col (cnt - remaining_items) s;
                 Some (if done then s else s\<lparr>ci_is_fake_iter := True\<rparr>) })
          else do {
            it \<leftarrow> bi_skip (bii F) cnt (ci_block_iterator s);
            Some (s\<lparr>ci_block_iterator := it\<rparr>) } } })"

section \<open>A column and its rows\<close>

definition file_bytes :: "column_file \<Rightarrow> byte list" where
  "file_bytes f = (case f of PositionedRead b \<Rightarrow> b | NormalRead b \<Rightarrow> b | InMemory b \<Rightarrow> b)"

lemma read_file_slice:
  "slice_range offset (offset + len) (file_bytes f) = Some d \<Longrightarrow> read_file f offset len = Some (Inr d)"
  by (cases f) (simp_all add: read_file_def file_bytes_def slice_range_def)

definition first_row :: "'r list list \<Rightarrow> nat \<Rightarrow> nat" where
  "first_row blocks b = length (concat (take b blocks))"

lemma first_row_Suc: "b < length blocks \<Longrightarrow> first_row blocks (Suc b) = first_row blocks b + length (blocks ! b)"
  by (simp add: first_row_def take_Suc_conv_app_nth)

lemma first_row_all: "length blocks \<le> b \<Longrightarrow> first_row blocks b = length (concat blocks)"
  by (simp add: first_row_def)

lemma first_row_le: "first_row blocks b \<le> length (concat blocks)"
  unfolding first_row_def by (metis append_take_drop_id concat_append length_append le_add1)

lemma drop_first_row:
  assumes "b < length blocks" and "off \<le> length (blocks ! b)"
  shows "drop (first_row blocks b + off) (concat blocks) = drop off (blocks ! b) @ concat (drop (Suc b) blocks)"
proof -
  have "blocks = take b blocks @ blocks ! b # drop (Suc b) blocks" using assms(1) by (rule id_take_nth_drop)
  then have "concat blocks = concat (take b blocks) @ blocks ! b @ concat (drop (Suc b) blocks)"
    by (metis concat.simps(2) concat_append)
  with assms(2) show ?thesis by (simp add: first_row_def)
qed

lemma index_rows_first:
  "index_rows k idx \<Longrightarrow> list_all2 (\<lambda>x rows. bx_row_count x = length rows) idx blocks \<Longrightarrow> b < length idx \<Longrightarrow>
   bx_first_rowid (idx ! b) = k + first_row blocks b"
proof (induction idx arbitrary: k blocks b)
  case (Cons x idx)
  then obtain rows blocks' where "blocks = rows # blocks'" "bx_row_count x = length rows"
    "list_all2 (\<lambda>x rows. bx_row_count x = length rows) idx blocks'"
    by (auto simp: list_all2_Cons1)
  with Cons show ?case by (cases b) (auto simp: first_row_def)
qed simp

text \<open>The iterator's state on a column with the given blocks: the block it is in covers the current row.\<close>

definition ci_ok ::
  "(('s, 'a) block_iterator_impl \<Rightarrow> bool) \<Rightarrow> (('s, 'a) block_iterator_impl \<Rightarrow> 'a option list)
     \<Rightarrow> 'a option list list \<Rightarrow> ('s, 'a) col_iter \<Rightarrow> bool" where
  "ci_ok J V blocks s \<longleftrightarrow> (if ci_finished s then length (concat blocks) \<le> ci_current_row_id s
     else ci_current_block_id s < length blocks \<and> J (ci_block_iterator s)
       \<and> first_row blocks (ci_current_block_id s) \<le> ci_current_row_id s
       \<and> ci_current_row_id s \<le> first_row blocks (Suc (ci_current_block_id s))
       \<and> (\<not> ci_is_fake_iter s \<longrightarrow> V (ci_block_iterator s)
            = drop (ci_current_row_id s - first_row blocks (ci_current_block_id s)) (blocks ! ci_current_block_id s)))"

definition ci_view :: "'a option list list \<Rightarrow> 'it column_iter \<Rightarrow> 'a option list" where
  "ci_view blocks s = drop (ci_current_row_id s) (concat blocks)"

definition ci_hint :: "'a option list list \<Rightarrow> 'it column_iter \<Rightarrow> nat" where
  "ci_hint blocks s = (if ci_finished s then 0
     else let h = first_row blocks (Suc (ci_current_block_id s)) - ci_current_row_id s
          in if h = 0 then (if Suc (ci_current_block_id s) < length blocks
                            then length (blocks ! Suc (ci_current_block_id s)) else 0)
             else h)"

text \<open>The rows a column holds, as the reader sees them: the contract the iterator relies on.\<close>

locale column_source =
  fixes crc :: "byte list \<Rightarrow> u32" and cache :: "nat \<Rightarrow> byte list option" and F :: "('b, 's, 'a) family"
    and J :: "('s, 'a) block_iterator_impl \<Rightarrow> bool" and V :: "('s, 'a) block_iterator_impl \<Rightarrow> 'a option list"
    and col :: column and blocks :: "'a option list list"
  assumes reads: "block_iterator (bii F) J V"
    and layout: "column_of crc F J V (co_index col) (file_bytes (co_file col)) blocks"
    and cache_ok: "cache b = Some blk \<Longrightarrow> b < length (co_index col) \<Longrightarrow>
      slice_range (bx_offset (co_index col ! b)) (bx_offset (co_index col ! b) + bx_length (co_index col ! b))
        (file_bytes (co_file col)) = Some blk"
    and rows_fit: "length (concat blocks) < 2 ^ 32"
begin

lemma len_index: "length (co_index col) = length blocks"
  using layout by (auto simp: column_of_def dest: list_all2_lengthD)

lemma block_rows: "b < length blocks \<Longrightarrow> block_at crc F J V (file_bytes (co_file col)) (co_index col ! b) (blocks ! b)"
  using layout len_index by (auto simp: column_of_def list_all2_conv_all_nth)

lemma row_count: "b < length blocks \<Longrightarrow> bx_row_count (co_index col ! b) = length (blocks ! b)"
  using block_rows by (fastforce simp: block_at_def opens_to_def)

lemma block_nonempty: "b < length blocks \<Longrightarrow> blocks ! b \<noteq> []"
  using block_rows by (fastforce simp: block_at_def)

lemma first_rowid:
  assumes "b < length blocks"
  shows "bx_first_rowid (co_index col ! b) = first_row blocks b"
proof -
  have "list_all2 (\<lambda>x rows. bx_row_count x = length rows) (co_index col) blocks"
    using row_count len_index by (auto simp: list_all2_conv_all_nth)
  with layout assms len_index index_rows_first [of 0 "co_index col" blocks b] show ?thesis
    by (simp add: column_of_def)
qed

lemma load_ok:
  assumes b: "b < length blocks" and k: "k \<le> length (blocks ! b)"
  shows "\<exists>it. load_block crc cache F col b (first_row blocks b + k) = Some (Inr it) \<and> J it \<and> V it = drop k (blocks ! b)"
proof -
  let ?x = "co_index col ! b"
  from block_rows [OF b] obtain ck ty blk where
    sl: "slice_range (bx_offset ?x) (bx_offset ?x + bx_length ?x) (file_bytes (co_file col)) = Some (seal_block crc ck ty blk)"
    and op: "opens_to F J V ty blk ?x (blocks ! b)"
    by (auto simp: block_at_def simp del: slice_range_eq_Some)
  have "cache b = Some (seal_block crc ck ty blk) \<or> cache b = None"
    using cache_ok [of b] b len_index sl by (cases "cache b") (auto simp del: slice_range_eq_Some)
  then obtain h where "get_block map_cache crc cache col b = Some (Inr (h, blk), cache(b \<mapsto> seal_block crc ck ty blk))" "bm_block_type h = ty"
    using get_block_sealed [of cache b crc ck ty blk crc col] b len_index read_file_slice [OF sl] by auto
  moreover from op k obtain it where "get_iterator_for F ty blk ?x (bx_first_rowid ?x + k) = Some it" "J it"
      "V it = drop k (blocks ! b)" by (auto simp: opens_to_def)
  ultimately show ?thesis
    using b len_index first_rowid [OF b] by (auto simp: load_block_def index_at_def)
qed

abbreviation ok where "ok \<equiv> ci_ok J V blocks"

lemma fetch_hint_eq:
  assumes "ok s"
  shows "ci_fetch_hint col s = Some (ci_hint blocks s, ci_finished s)"
proof (cases "ci_finished s")
  case False
  let ?b = "ci_current_block_id s"
  have b: "?b < length blocks" "first_row blocks ?b \<le> ci_current_row_id s"
      "ci_current_row_id s \<le> first_row blocks ?b + length (blocks ! ?b)"
    using assms False first_row_Suc [of ?b blocks] by (auto simp: ci_ok_def)
  have c: "checked_sub (ci_current_row_id s) (first_row blocks ?b) = Some (ci_current_row_id s - first_row blocks ?b)"
    using b by (simp add: checked_sub_def)
  have h: "checked_sub (length (blocks ! ?b)) (ci_current_row_id s - first_row blocks ?b)
      = Some (first_row blocks (Suc ?b) - ci_current_row_id s)"
    using b first_row_Suc [OF b(1)] unfolding checked_sub_def by (simp, arith)
  have i: "index_at (co_index col) ?b = Some (co_index col ! ?b)" using b by (simp add: index_at_def len_index)
  show ?thesis
  proof (cases "Suc ?b < length blocks")
    case True
    then have "index_at (co_index col) (Suc ?b) = Some (co_index col ! Suc ?b)" by (simp add: index_at_def len_index)
    with True False i c h show ?thesis
      by (simp add: ci_fetch_hint_def ci_hint_def len_index first_rowid [OF b(1)] row_count [OF b(1)]
          row_count [OF True] Let_def del: checked_sub_eq_Some)
  next
    case last: False
    with False i c h show ?thesis
      by (simp add: ci_fetch_hint_def ci_hint_def len_index first_rowid [OF b(1)] row_count [OF b(1)]
          Let_def del: checked_sub_eq_Some)
  qed
qed (simp add: ci_fetch_hint_def ci_hint_def)

lemma view_block:
  assumes "b < length blocks" and "first_row blocks b \<le> r" and "r \<le> first_row blocks (Suc b)"
  shows "drop r (concat blocks) = drop (r - first_row blocks b) (blocks ! b) @ concat (drop (Suc b) blocks)"
  using drop_first_row [of b blocks "r - first_row blocks b"] assms first_row_Suc [of b blocks] by simp

lemma new_ok:
  assumes "start < length (concat blocks)"
  shows "\<exists>s. ci_new crc cache F col start = Some (Inr s) \<and> ok s \<and> ci_view blocks s = drop start (concat blocks)
    \<and> ci_current_row_id s = start \<and> \<not> ci_finished s"
proof -
  have total: "row_count_agg (co_index col) 0 = length (concat blocks)"
  proof -
    have "map bx_row_count (co_index col) = map length blocks"
      using row_count len_index by (auto intro: nth_equalityI)
    moreover have "row_count_agg idx k = k + sum_list (map bx_row_count idx)" for idx k
      by (induction idx arbitrary: k) (auto simp: row_count_agg_def)
    ultimately show ?thesis by (simp add: length_concat)
  qed
  from partition_point_row [of 0 "co_index col" start] layout assms total obtain b where
    b: "b < length blocks" "partition_point (\<lambda>x. bx_first_rowid x \<le> start) (co_index col) = Suc b"
      "first_row blocks b \<le> start" "start < first_row blocks b + length (blocks ! b)"
    by (auto simp: column_of_def len_index first_rowid row_count)
  have "start - first_row blocks b \<le> length (blocks ! b)" using b by linarith
  from load_ok [OF b(1) this] b obtain it where
    "load_block crc cache F col b start = Some (Inr it)" "J it" "V it = drop (start - first_row blocks b) (blocks ! b)"
    by auto
  with b first_row_Suc [OF b(1)] show ?thesis
    by (auto simp: ci_new_def block_of_seek_position_def block_of_row_def ci_ok_def ci_view_def)
qed

text \<open>A batch that the loaded block can serve, and the move to the next block.\<close>

lemma loop_serve:
  assumes ok: "ok s" and live: "\<not> ci_finished s" "\<not> ci_is_fake_iter s"
    and v: "V (ci_block_iterator s) \<noteq> []" and e: "e \<noteq> Some 0"
    and size: "\<And>x. e = Some x \<Longrightarrow> x \<le> length (V (ci_block_iterator s))"
    and n: "n = batch_len e (length (V (ci_block_iterator s)))"
  shows "\<exists>b' s'. ci_loop crc cache F col e 0 pa_new s = Some (Inr (n, b', s')) \<and> pa_wf b'
    \<and> pa_items b' = take n (ci_view blocks s) \<and> ok s' \<and> ci_current_row_id s' = ci_current_row_id s + n
    \<and> \<not> ci_finished s' \<and> n > 0"
proof -
  let ?b = "ci_current_block_id s" and ?it = "ci_block_iterator s"
  have st: "?b < length blocks" "J ?it" "first_row blocks ?b \<le> ci_current_row_id s"
      "ci_current_row_id s \<le> first_row blocks (Suc ?b)"
      "V ?it = drop (ci_current_row_id s - first_row blocks ?b) (blocks ! ?b)"
    using ok live by (auto simp: ci_ok_def)
  from block_iterator.next_fresh [OF reads st(2) e n] obtain b' it' where
    nx: "bi_next_batch (bii F) e pa_new ?it = Some (n, b', it')" "pa_wf b'" "pa_items b' = take n (V ?it)"
      "J it'" "V it' = drop n (V ?it)" by blast
  have n0: "0 < n" using n v e by (cases e) (auto simp: batch_len_def)
  have nle: "n \<le> length (V ?it)" using n batch_len_le by simp
  then have room: "ci_current_row_id s + n \<le> first_row blocks (Suc ?b)"
    using st first_row_Suc [OF st(1)] by simp
  have row: "ci_current_row_id s + n < 2 ^ 32"
    using room rows_fit first_row_le [of blocks "Suc ?b"] by linarith
  define s' where "s' = s\<lparr>ci_block_iterator := it', ci_current_row_id := ci_current_row_id s + n\<rparr>"
  have ok': "ok s'"
    using st room nx live by (simp add: ci_ok_def s'_def add.commute)
  have items: "pa_items b' = take n (ci_view blocks s)"
    using nx(3) st nle view_block [OF st(1,3,4)] by (simp add: ci_view_def)
  have "ci_loop crc cache F col e 0 pa_new s = Some (Inr (n, b', s'))"
  proof (cases e)
    case None
    with nx n0 row show ?thesis by (subst ci_loop.simps) (simp add: checked_add32_def s'_def)
  next
    case (Some x)
    with size n have "n = x" by (simp add: batch_len_def)
    with Some nx row show ?thesis
      by (subst ci_loop.simps) (simp add: checked_add32_def s'_def checked_sub_def)
  qed
  with nx ok' items n0 live show ?thesis by (auto simp: s'_def)
qed

lemma loop_advance:
  assumes ok: "ok s" and live: "\<not> ci_finished s" "\<not> ci_is_fake_iter s"
    and v: "V (ci_block_iterator s) = []" and e: "e \<noteq> Some 0"
  shows "(length blocks \<le> Suc (ci_current_block_id s) \<longrightarrow> ci_view blocks s = []
      \<and> (\<exists>b' s'. ci_loop crc cache F col e 0 pa_new s = Some (Inr (0, b', s')) \<and> ok s'
          \<and> ci_finished s' \<and> ci_current_row_id s' = ci_current_row_id s))
    \<and> (Suc (ci_current_block_id s) < length blocks \<longrightarrow>
        (\<exists>s'. ci_loop crc cache F col e 0 pa_new s = ci_loop crc cache F col e 0 pa_new s' \<and> ok s'
          \<and> \<not> ci_finished s' \<and> \<not> ci_is_fake_iter s' \<and> ci_current_row_id s' = ci_current_row_id s
          \<and> V (ci_block_iterator s') = blocks ! Suc (ci_current_block_id s)))"
proof -
  let ?b = "ci_current_block_id s" and ?it = "ci_block_iterator s"
  have st: "?b < length blocks" "J ?it" "first_row blocks ?b \<le> ci_current_row_id s"
      "ci_current_row_id s \<le> first_row blocks (Suc ?b)"
      "V ?it = drop (ci_current_row_id s - first_row blocks ?b) (blocks ! ?b)"
    using ok live by (auto simp: ci_ok_def)
  have at_end: "ci_current_row_id s = first_row blocks (Suc ?b)"
    using st v first_row_Suc [OF st(1)] by simp
  have "0 = batch_len e (length (V ?it))" using v by (simp add: batch_len_def split: option.splits)
  from block_iterator.next_fresh [OF reads st(2) e this] v obtain b' it' where
    nx: "bi_next_batch (bii F) e pa_new ?it = Some (0, b', it')" "pa_wf b'" "pa_items b' = []" "J it'" by auto
  have b': "b' = pa_new"
    using nx(2,3) by (cases b') (auto simp: pa_wf_def pa_items_def pa_new_def)
  have row: "checked_add32 (ci_current_row_id s) 0 = Some (ci_current_row_id s)"
    using at_end rows_fit first_row_le [of blocks "Suc ?b"] by (simp add: checked_add32_def)
  have more: "\<not> (case e of Some x \<Rightarrow> x \<le> 0 | None \<Rightarrow> False)" using e by (auto split: option.splits)
  define s1 where "s1 = s\<lparr>ci_block_iterator := it', ci_current_block_id := Suc ?b\<rparr>"
  show ?thesis
  proof (intro conjI impI)
    assume last: "length blocks \<le> Suc ?b"
    show "ci_view blocks s = []" using last at_end by (simp add: ci_view_def first_row_all)
    have "ci_loop crc cache F col e 0 pa_new s = Some (Inr (0, b', s1\<lparr>ci_finished := True\<rparr>))"
      using last nx row more by (subst ci_loop.simps, cases e) (simp_all add: len_index s1_def checked_sub_def)
    moreover have "ok (s1\<lparr>ci_finished := True\<rparr>)"
      using last at_end by (simp add: ci_ok_def s1_def first_row_all)
    ultimately show "\<exists>b' s'. ci_loop crc cache F col e 0 pa_new s = Some (Inr (0, b', s')) \<and> ok s'
        \<and> ci_finished s' \<and> ci_current_row_id s' = ci_current_row_id s"
      by - (rule exI [of _ b'], rule exI [of _ "s1\<lparr>ci_finished := True\<rparr>"], simp add: s1_def)
  next
    assume lt: "Suc ?b < length blocks"
    from load_ok [OF lt, of 0] at_end obtain it2 where
      ld: "load_block crc cache F col (Suc ?b) (ci_current_row_id s) = Some (Inr it2)" "J it2" "V it2 = blocks ! Suc ?b"
      by auto
    define s2 where "s2 = s1\<lparr>ci_block_iterator := it2, ci_fetched_block_count := ci_fetched_block_count s1 + 1\<rparr>"
    have "ci_loop crc cache F col e 0 pa_new s = ci_loop crc cache F col e 0 pa_new s2"
      using lt nx row more ld b' by (subst ci_loop.simps, cases e) (simp_all add: len_index s1_def s2_def checked_sub_def)
    moreover have "ok s2"
      using lt ld at_end first_row_Suc [OF lt] live by (simp add: ci_ok_def s1_def s2_def)
    ultimately show "\<exists>s'. ci_loop crc cache F col e 0 pa_new s = ci_loop crc cache F col e 0 pa_new s' \<and> ok s'
        \<and> \<not> ci_finished s' \<and> \<not> ci_is_fake_iter s' \<and> ci_current_row_id s' = ci_current_row_id s
        \<and> V (ci_block_iterator s') = blocks ! Suc ?b"
      using ld live by - (rule exI [of _ s2], simp add: s1_def s2_def)
  qed
qed

lemma view_empty: "ok s \<Longrightarrow> ci_finished s \<Longrightarrow> ci_view blocks s = []"
  by (simp add: ci_ok_def ci_view_def)

text \<open>An unfinished iterator whose block is loaded: the next rows, within the hint, or the end of the column.\<close>

lemma loop_next:
  assumes ok: "ok s" and live: "\<not> ci_finished s" "\<not> ci_is_fake_iter s" and e: "e \<noteq> Some 0"
    and size: "\<And>x. e = Some x \<Longrightarrow> ci_hint blocks s \<noteq> 0 \<Longrightarrow> x \<le> ci_hint blocks s"
  shows "\<exists>b' s'. ci_loop crc cache F col e 0 pa_new s = Some (Inr (batch_len e (ci_hint blocks s), b', s')) \<and> ok s'
    \<and> (ci_hint blocks s \<noteq> 0 \<longrightarrow> pa_wf b' \<and> pa_items b' = take (batch_len e (ci_hint blocks s)) (ci_view blocks s)
          \<and> \<not> ci_finished s')
    \<and> (ci_hint blocks s = 0 \<longrightarrow> ci_view blocks s = [] \<and> ci_finished s')
    \<and> ci_current_row_id s' = ci_current_row_id s + batch_len e (ci_hint blocks s)"
proof -
  let ?b = "ci_current_block_id s" and ?it = "ci_block_iterator s"
  have st: "?b < length blocks" "first_row blocks ?b \<le> ci_current_row_id s"
      "ci_current_row_id s \<le> first_row blocks (Suc ?b)"
      "V ?it = drop (ci_current_row_id s - first_row blocks ?b) (blocks ! ?b)"
    using ok live by (auto simp: ci_ok_def)
  have len: "length (V ?it) = first_row blocks (Suc ?b) - ci_current_row_id s"
    using st first_row_Suc [OF st(1)] by simp
  show ?thesis
  proof (cases "V ?it = []")
    case False
    then have "0 < first_row blocks (Suc ?b) - ci_current_row_id s" using len by (metis length_greater_0_conv)
    then have h: "ci_hint blocks s = length (V ?it)" using len live by (simp add: ci_hint_def Let_def)
    with False have "0 < ci_hint blocks s" by simp
    with loop_serve [OF ok live False e _ refl] size h show ?thesis by fastforce
  next
    case True
    note adv = loop_advance [OF ok live True e]
    show ?thesis
    proof (cases "Suc ?b < length blocks")
      case more: True
      with True len live have h: "ci_hint blocks s = length (blocks ! Suc ?b)" by (simp add: ci_hint_def Let_def)
      from adv more obtain s' where s': "ci_loop crc cache F col e 0 pa_new s = ci_loop crc cache F col e 0 pa_new s'"
        "ok s'" "\<not> ci_finished s'" "\<not> ci_is_fake_iter s'" "ci_current_row_id s' = ci_current_row_id s"
        "V (ci_block_iterator s') = blocks ! Suc ?b" by blast
      have ne: "V (ci_block_iterator s') \<noteq> []" "0 < ci_hint blocks s" using s'(6) block_nonempty [OF more] h by auto
      have "ci_view blocks s' = ci_view blocks s" using s'(5) by (simp add: ci_view_def)
      with loop_serve [OF s'(2-4) ne(1) e _ refl] size h ne(2) s' show ?thesis by fastforce
    next
      case last: False
      with True len live have h: "ci_hint blocks s = 0" by (simp add: ci_hint_def Let_def)
      then have "batch_len e (ci_hint blocks s) = 0" by (cases e) (auto simp: batch_len_def)
      with adv last h show ?thesis by fastforce
    qed
  qed
qed

lemma reload_ok:
  assumes ok: "ok s" and live: "\<not> ci_finished s"
  shows "\<exists>it. load_block crc cache F col (ci_current_block_id s) (ci_current_row_id s) = Some (Inr it)
    \<and> (\<forall>n. ok (s\<lparr>ci_is_fake_iter := False, ci_block_iterator := it, ci_fetched_block_count := n\<rparr>))"
proof -
  let ?b = "ci_current_block_id s"
  have st: "?b < length blocks" "first_row blocks ?b \<le> ci_current_row_id s"
      "ci_current_row_id s \<le> first_row blocks (Suc ?b)"
    using ok live by (auto simp: ci_ok_def)
  then have "ci_current_row_id s - first_row blocks ?b \<le> length (blocks ! ?b)"
    using first_row_Suc [OF st(1)] by simp
  from load_ok [OF st(1) this] st obtain it where
    "load_block crc cache F col ?b (ci_current_row_id s) = Some (Inr it)" "J it"
    "V it = drop (ci_current_row_id s - first_row blocks ?b) (blocks ! ?b)" by auto
  with st live show ?thesis by (auto simp: ci_ok_def)
qed

theorem next_batch_reads:
  assumes ok: "ok s" and e: "e \<noteq> Some 0"
    and size: "\<And>x. e = Some x \<Longrightarrow> ci_hint blocks s \<noteq> 0 \<Longrightarrow> x \<le> ci_hint blocks s"
    and n: "n = batch_len e (ci_hint blocks s)"
  shows "\<exists>r s'. ci_next_batch crc cache F col e s = Some (Inr (r, s')) \<and> ok s'
    \<and> ci_view blocks s' = drop n (ci_view blocks s) \<and> ci_current_row_id s' = ci_current_row_id s + n
    \<and> (ci_finished s \<longrightarrow> ci_finished s')
    \<and> (if ci_hint blocks s = 0 then r = None \<and> ci_view blocks s = []
       else \<exists>arr. r = Some (ci_current_row_id s, arr) \<and> pa_wf arr \<and> pa_items arr = take n (ci_view blocks s))"
proof (cases "ci_finished s")
  case True
  then have "ci_hint blocks s = 0" by (simp add: ci_hint_def)
  with True view_empty [OF ok True] ok show ?thesis
    using n e by (cases e) (auto simp: ci_next_batch_def ci_next_batch_inner_def ci_ok_def ci_view_def batch_len_def)
next
  case False
  define s0 where "s0 = s\<lparr>ci_next_batch_count := ci_next_batch_count s + 1\<rparr>"
  have s0: "ok s0" "\<not> ci_finished s0" using ok False by (simp_all add: ci_ok_def s0_def)
  have "J (ci_block_iterator s0)" using s0 by (simp add: ci_ok_def)
  then have rem: "\<exists>m. (case e of Some n \<Rightarrow> Some n | None \<Rightarrow> bi_remaining_items (bii F) (ci_block_iterator s0)) = Some m"
    using block_iterator.remaining [OF reads] by (cases e) auto
  obtain s1 where s1: "(if ci_is_fake_iter s0 then do {
             r \<leftarrow> load_block crc cache F col (ci_current_block_id s0) (ci_current_row_id s0);
             Some (case r of
                Inl err \<Rightarrow> Inl err
              | Inr it \<Rightarrow> Inr (s0\<lparr>ci_is_fake_iter := False, ci_block_iterator := it,
                  ci_fetched_block_count := ci_fetched_block_count s0 + 1\<rparr>)) }
           else Some (Inr s0)) = Some (Inr s1)" "ok s1" "\<not> ci_finished s1" "\<not> ci_is_fake_iter s1"
      "ci_current_row_id s1 = ci_current_row_id s" "ci_hint blocks s1 = ci_hint blocks s"
    using reload_ok [OF s0] s0 by (cases "ci_is_fake_iter s0") (auto simp: s0_def ci_hint_def)
  have same: "ci_view blocks s1 = ci_view blocks s" using s1(5) by (simp add: ci_view_def)
  from loop_next [OF s1(2-4) e] size s1(6) obtain b' s' where
    lp: "ci_loop crc cache F col e 0 pa_new s1 = Some (Inr (n, b', s'))" "ok s'"
      "ci_hint blocks s \<noteq> 0 \<longrightarrow> pa_wf b' \<and> pa_items b' = take n (ci_view blocks s)"
      "ci_hint blocks s = 0 \<longrightarrow> ci_view blocks s = []"
      "ci_current_row_id s' = ci_current_row_id s + n"
    unfolding same n s1(5,6) by metis
  have n0: "n = 0 \<longleftrightarrow> ci_hint blocks s = 0" using n e by (cases e) (auto simp: batch_len_def)
  have "ci_next_batch crc cache F col e s
      = Some (Inr (if n = 0 then None else Some (ci_current_row_id s, b'), s'))"
    unfolding ci_next_batch_def ci_next_batch_inner_def s0_def [symmetric]
    using rem s1(1) s0(2) lp(1) by (auto simp: s0_def)
  moreover have "ci_view blocks s' = drop n (ci_view blocks s)" using lp(5) by (simp add: ci_view_def add.commute)
  ultimately show ?thesis using lp n0 False by auto
qed

text \<open>Skipping: over unloaded blocks by their row counts alone.\<close>

lemma skip_fake_ok:
  assumes "\<not> ci_finished s" "ci_is_fake_iter s" "ci_current_block_id s < length blocks" "J (ci_block_iterator s)"
    "first_row blocks (ci_current_block_id s) \<le> ci_current_row_id s"
    "reached = first_row blocks (Suc (ci_current_block_id s))"
  shows "\<exists>s'. skip_fake_loop col reached s = Some s' \<and> ok s' \<and> ci_current_row_id s' = ci_current_row_id s"
  using assms
proof (induction "length blocks - ci_current_block_id s" arbitrary: s reached rule: less_induct)
  case less
  let ?b = "ci_current_block_id s"
  consider "ci_current_row_id s \<le> reached" | "reached < ci_current_row_id s" "length blocks \<le> Suc ?b"
    | "reached < ci_current_row_id s" "Suc ?b < length blocks" by linarith
  then show ?case
  proof cases
    case 1
    with less.prems show ?thesis by (subst skip_fake_loop.simps) (simp add: ci_ok_def)
  next
    case 2
    with less.prems show ?thesis
      by (subst skip_fake_loop.simps) (simp add: incre_block_id_def len_index ci_ok_def first_row_all Let_def)
  next
    case 3
    define s1 where "s1 = s\<lparr>ci_current_block_id := Suc ?b\<rparr>"
    have "skip_fake_loop col reached s = skip_fake_loop col (reached + length (blocks ! Suc ?b)) s1"
      using 3 by (subst skip_fake_loop.simps)
        (simp add: incre_block_id_def len_index Let_def index_at_def row_count [OF 3(2)] s1_def)
    moreover have "\<exists>s'. skip_fake_loop col (reached + length (blocks ! Suc ?b)) s1 = Some s' \<and> ok s'
        \<and> ci_current_row_id s' = ci_current_row_id s1"
      using 3 less.prems first_row_Suc [OF 3(2)] by (intro less.hyps) (simp_all add: s1_def)
    ultimately show ?thesis by (simp add: s1_def)
  qed
qed

lemma skip_block_ok:
  assumes "\<not> ci_finished s" "ci_current_block_id s < length blocks" "J (ci_block_iterator s)"
    "ci_current_row_id s = first_row blocks (ci_current_block_id s) + cnt"
  shows "\<exists>d s'. skip_block_loop col cnt s = Some (d, s') \<and> ok (if d then s' else s'\<lparr>ci_is_fake_iter := True\<rparr>)
    \<and> ci_current_row_id s' = ci_current_row_id s"
  using assms
proof (induction "length blocks - ci_current_block_id s" arbitrary: s cnt rule: less_induct)
  case less
  let ?b = "ci_current_block_id s"
  note b = less.prems(2)
  have stop: "skip_block_loop col 0 s = Some (False, s)" by (subst skip_block_loop.simps) simp
  consider "cnt < length (blocks ! ?b)" | "cnt \<ge> length (blocks ! ?b)" "length blocks \<le> Suc ?b"
    | "cnt \<ge> length (blocks ! ?b)" "Suc ?b < length blocks" by linarith
  then show ?case
  proof cases
    case 1
    then have "skip_block_loop col cnt s = Some (False, s)"
      using stop b by (subst skip_block_loop.simps) (simp add: row_count [OF b] index_at_def len_index)
    with 1 less.prems first_row_Suc [OF b] show ?thesis by - (rule exI [of _ False], simp add: ci_ok_def)
  next
    case 2
    moreover have "0 < length (blocks ! ?b)" using block_nonempty [OF b] by simp
    ultimately show ?thesis
      using less.prems first_row_Suc [OF b] first_row_all [of blocks "Suc ?b"]
      by (subst skip_block_loop.simps) (auto simp: row_count [OF b] index_at_def incre_block_id_def len_index ci_ok_def Let_def)
  next
    case 3
    define s1 where "s1 = s\<lparr>ci_current_block_id := Suc ?b\<rparr>"
    have "0 < length (blocks ! ?b)" using block_nonempty [OF b] by simp
    with 3 b have "skip_block_loop col cnt s = skip_block_loop col (cnt - length (blocks ! ?b)) s1"
      by (subst skip_block_loop.simps) (auto simp: index_at_def incre_block_id_def len_index Let_def row_count [OF b] s1_def)
    moreover have "\<exists>d s'. skip_block_loop col (cnt - length (blocks ! ?b)) s1 = Some (d, s')
        \<and> ok (if d then s' else s'\<lparr>ci_is_fake_iter := True\<rparr>) \<and> ci_current_row_id s' = ci_current_row_id s1"
      using 3 less.prems first_row_Suc [OF b] by (intro less.hyps) (simp_all add: s1_def)
    ultimately show ?thesis by (simp add: s1_def)
  qed
qed

theorem skip_moves:
  assumes ok: "ok s" and fit: "ci_current_row_id s + k < 2 ^ 32"
  shows "\<exists>s'. ci_skip F col k s = Some s' \<and> ok s' \<and> ci_view blocks s' = drop k (ci_view blocks s)
    \<and> (if ci_finished s then s' = s else ci_current_row_id s' = ci_current_row_id s + k)"
proof (cases "ci_finished s")
  case True
  with ok view_empty [OF ok True] show ?thesis by (simp add: ci_skip_def)
next
  case False
  let ?b = "ci_current_block_id s" and ?row = "ci_current_row_id s"
  have st: "?b < length blocks" "J (ci_block_iterator s)" "first_row blocks ?b \<le> ?row" "?row \<le> first_row blocks (Suc ?b)"
    using ok False by (auto simp: ci_ok_def)
  define s1 where "s1 = s\<lparr>ci_current_row_id := ?row + k\<rparr>"
  have add: "checked_add32 ?row (as_u32 k) = Some (?row + k)" using fit by (simp add: checked_add32_def)
  have moved: "ci_view blocks s' = drop k (ci_view blocks s)" if "ci_current_row_id s' = ?row + k"
      for s' :: "('s, 'a) col_iter"
    using that by (simp add: ci_view_def add.commute)
  show ?thesis
  proof (cases "ci_is_fake_iter s")
    case True
    have "\<exists>s'. skip_fake_loop col (first_row blocks (Suc ?b)) s1 = Some s' \<and> ok s' \<and> ci_current_row_id s' = ci_current_row_id s1"
      using st True False by (intro skip_fake_ok) (simp_all add: s1_def)
    with True False add st moved first_row_Suc [OF st(1)] show ?thesis
      by (auto simp: ci_skip_def index_at_def len_index first_rowid row_count s1_def)
  next
    case loaded: False
    have v: "V (ci_block_iterator s) = drop (?row - first_row blocks ?b) (blocks ! ?b)"
      using ok False loaded by (simp add: ci_ok_def)
    then have len: "?row + length (V (ci_block_iterator s)) = first_row blocks (Suc ?b)"
      using st first_row_Suc [OF st(1)] by simp
    note rem = block_iterator.remaining [OF reads st(2)]
    show ?thesis
    proof (cases "k < length (V (ci_block_iterator s))")
      case True
      with block_iterator.skip [OF reads st(2) True] obtain it where
        it: "bi_skip (bii F) k (ci_block_iterator s) = Some it" "J it" "V it = drop k (V (ci_block_iterator s))" by blast
      have "ok (s1\<lparr>ci_block_iterator := it\<rparr>)"
        using st it True len v False loaded by (simp add: ci_ok_def s1_def add.commute)
      with it True add rem moved False loaded show ?thesis by (auto simp: ci_skip_def s1_def)
    next
      case over: False
      show ?thesis
      proof (cases "Suc ?b < length blocks")
        case False
        with over len rem add moved loaded \<open>\<not> ci_finished s\<close> show ?thesis
          by (auto simp: ci_skip_def incre_block_id_def len_index Let_def ci_ok_def first_row_all)
      next
        case True
        define s2 where "s2 = s1\<lparr>ci_current_block_id := Suc ?b\<rparr>"
        have "\<exists>d s'. skip_block_loop col (k - length (V (ci_block_iterator s))) s2 = Some (d, s')
            \<and> ok (if d then s' else s'\<lparr>ci_is_fake_iter := True\<rparr>) \<and> ci_current_row_id s' = ci_current_row_id s2"
          using st len over True False by (intro skip_block_ok) (simp_all add: s1_def s2_def)
        then obtain d s' where "skip_block_loop col (k - length (V (ci_block_iterator s))) s2 = Some (d, s')"
            "ok (if d then s' else s'\<lparr>ci_is_fake_iter := True\<rparr>)" "ci_current_row_id s' = ?row + k"
          by (auto simp: s1_def s2_def)
        with True over rem add moved loaded False show ?thesis
          by (auto simp: ci_skip_def incre_block_id_def len_index Let_def s1_def s2_def)
      qed
    qed
  qed
qed

end

end
