(* ===== verification/Columns.thy ===== *)
theory Columns
  imports Column_Iterator Families
begin

text \<open>
  Columns end to end: the file a column builder writes, opened as a column, is a source for the
  column iterator, for every block family (\<open>PrimitiveColumnFactory\<close> and its siblings instantiate the
  same builder and iterator). \<open>run_reads\<close> is a client that interleaves batches within the hint, as
  the row-set iterator does, with skips; \<open>read_all\<close> reads a column to its end.
\<close>

section \<open>The column a builder leaves behind\<close>

definition open_column :: "column_index \<Rightarrow> byte list \<Rightarrow> column" where
  "open_column idx bytes = \<lparr>co_index = idx, co_file = InMemory bytes\<rparr>"

text \<open>The blocks of a column, cut from its rows by the row counts of the index.\<close>

primrec blocks_of :: "column_index \<Rightarrow> 'r list \<Rightarrow> 'r list list" where
  "blocks_of [] rows = []"
| "blocks_of (x # idx) rows = take (bx_row_count x) rows # blocks_of idx (drop (bx_row_count x) rows)"

lemma blocks_of_unique:
  "list_all2 (\<lambda>x rows. bx_row_count x = length rows) idx blocks \<Longrightarrow> blocks_of idx (concat blocks) = blocks"
  by (induction rule: list_all2_induct) auto

lemma column_of_counts:
  "column_of crc F J V idx bytes blocks \<Longrightarrow> list_all2 (\<lambda>x rows. bx_row_count x = length rows) idx blocks"
  unfolding column_of_def by (auto elim!: list_all2_mono simp: block_at_def opens_to_def)

text \<open>What the builder's caller may rely on: enough room in the row and byte counters.\<close>

definition buildable ::
  "('a option list \<Rightarrow> bool) \<Rightarrow> (byte list \<Rightarrow> u32) \<Rightarrow> ('b, 's, 'a) family \<Rightarrow> bool \<Rightarrow> column_builder_options
     \<Rightarrow> 'a option list list \<Rightarrow> bool" where
  "buildable fits crc F nullable opts arrays \<longleftrightarrow> fits (concat arrays) \<and> length (concat arrays) < 0xF0000000
     \<and> 16 \<le> cbo_target_block_size opts
     \<and> (\<forall>idx bytes. build_column crc F nullable opts arrays = Some (idx, bytes) \<longrightarrow> length bytes < 2 ^ 64)"

definition built_column ::
  "(byte list \<Rightarrow> u32) \<Rightarrow> ('b, 's, 'a) family \<Rightarrow> bool \<Rightarrow> column_builder_options \<Rightarrow> 'a option list list \<Rightarrow> column" where
  "built_column crc F nullable opts arrays =
     (case build_column crc F nullable opts arrays of
        Some (idx, bytes) \<Rightarrow> open_column idx bytes | None \<Rightarrow> open_column [] [])"

definition built_rows ::
  "('b, 's, 'a) family \<Rightarrow> bool \<Rightarrow> column_builder_options \<Rightarrow> 'a option list list \<Rightarrow> 'a option list" where
  "built_rows F nullable opts arrays = map (stored F nullable (cbo_encode_type opts)) (concat arrays)"

text \<open>The empty column stands in when the rows do not fit.\<close>

definition column_or_empty ::
  "('a option list \<Rightarrow> bool) \<Rightarrow> (byte list \<Rightarrow> u32) \<Rightarrow> ('b, 's, 'a) family \<Rightarrow> bool \<Rightarrow> column_builder_options
     \<Rightarrow> 'a option list list \<Rightarrow> column \<times> 'a option list list" where
  "column_or_empty fits crc F nullable opts arrays =
     (if buildable fits crc F nullable opts arrays
      then (let col = built_column crc F nullable opts arrays
            in (col, blocks_of (co_index col) (built_rows F nullable opts arrays)))
      else (open_column [] [], []))"

context family_law
begin

lemma built_column_layout:
  assumes "buildable fits crc F nullable opts arrays"
  shows "\<exists>blocks. column_of crc F J V (co_index (built_column crc F nullable opts arrays))
      (file_bytes (co_file (built_column crc F nullable opts arrays))) blocks
    \<and> concat blocks = built_rows F nullable opts arrays
    \<and> blocks_of (co_index (built_column crc F nullable opts arrays)) (built_rows F nullable opts arrays) = blocks"
proof -
  from assms build_column_spec [of arrays opts crc nullable] obtain idx bytes blocks where
    b: "build_column crc F nullable opts arrays = Some (idx, bytes)" "concat blocks = concat arrays"
      "column_of crc F J V idx bytes (map (map (stored F nullable (cbo_encode_type opts))) blocks)"
    by (auto simp: buildable_def)
  define stored_blocks where "stored_blocks = map (map (stored F nullable (cbo_encode_type opts))) blocks"
  have rows: "concat stored_blocks = built_rows F nullable opts arrays"
    by (simp add: stored_blocks_def built_rows_def map_concat [symmetric] b(2))
  moreover have "blocks_of idx (concat stored_blocks) = stored_blocks"
    using column_of_counts [OF b(3)] unfolding stored_blocks_def by (rule blocks_of_unique)
  ultimately show ?thesis
    using b by (auto simp: built_column_def open_column_def file_bytes_def stored_blocks_def)
qed

end

sublocale family_law \<subseteq> built: column_source crc "\<lambda>_. None" F J V
  "fst (column_or_empty fits crc F nullable opts arrays)" "snd (column_or_empty fits crc F nullable opts arrays)"
  for crc nullable opts arrays
proof (rule column_source.intro)
  show "block_iterator (bii F) J V" by (rule bii_reads)
next
  show "column_of crc F J V (co_index (fst (column_or_empty fits crc F nullable opts arrays)))
      (file_bytes (co_file (fst (column_or_empty fits crc F nullable opts arrays))))
      (snd (column_or_empty fits crc F nullable opts arrays))"
  proof (cases "buildable fits crc F nullable opts arrays")
    case True
    from built_column_layout [OF this] True show ?thesis by (auto simp: column_or_empty_def Let_def)
  qed (simp add: column_or_empty_def open_column_def column_of_def)
next
  show "length (concat (snd (column_or_empty fits crc F nullable opts arrays))) < 2 ^ 32"
  proof (cases "buildable fits crc F nullable opts arrays")
    case True
    from built_column_layout [OF this] True show ?thesis
      by (auto simp: column_or_empty_def Let_def built_rows_def buildable_def)
  qed (simp add: column_or_empty_def)
qed simp

section \<open>Reading a column through any sequence of operations\<close>

text \<open>
  The states of an iterator, with the row it stands at: opened at a row, then batches whose size stays
  within the hint and skips. This is how the row-set iterator drives a column.
\<close>

inductive ci_reaches ::
  "(byte list \<Rightarrow> u32) \<Rightarrow> (nat \<Rightarrow> byte list option) \<Rightarrow> ('b, 's, 'a) family \<Rightarrow> column
     \<Rightarrow> ('s, 'a) col_iter \<Rightarrow> nat \<Rightarrow> bool"
  for crc cache F col where
  opened: "start < row_count_agg (co_index col) 0 \<Longrightarrow> ci_new crc cache F col start = Some (Inr s)
     \<Longrightarrow> ci_reaches crc cache F col s start"
| batch: "ci_reaches crc cache F col s p \<Longrightarrow> ci_fetch_hint col s = Some (h, fin) \<Longrightarrow> e \<noteq> Some 0
     \<Longrightarrow> (\<And>x. e = Some x \<Longrightarrow> h \<noteq> 0 \<Longrightarrow> x \<le> h) \<Longrightarrow> ci_next_batch crc cache F col e s = Some (Inr (r, s'))
     \<Longrightarrow> ci_reaches crc cache F col s' (case r of None \<Rightarrow> p | Some (_, arr) \<Rightarrow> p + length (pa_items arr))"
| skipped: "ci_reaches crc cache F col s p \<Longrightarrow> p + k < 2 ^ 32 \<Longrightarrow> ci_skip F col k s = Some s'
     \<Longrightarrow> ci_reaches crc cache F col s' (p + k)"

primrec read_all ::
  "nat \<Rightarrow> (byte list \<Rightarrow> u32) \<Rightarrow> (nat \<Rightarrow> byte list option) \<Rightarrow> ('b, 's, 'a) family \<Rightarrow> column
     \<Rightarrow> ('s, 'a) col_iter \<Rightarrow> 'a option list storage_result option" where
  "read_all 0 crc cache F col s = None"
| "read_all (Suc fuel) crc cache F col s = do {
     r \<leftarrow> ci_next_batch crc cache F col None s;
     (case r of
        Inl err \<Rightarrow> Some (Inl err)
      | Inr (None, s) \<Rightarrow> Some (Inr [])
      | Inr (Some (_, arr), s) \<Rightarrow> do {
          rest \<leftarrow> read_all fuel crc cache F col s;
          Some (case rest of Inl err \<Rightarrow> Inl err | Inr xs \<Rightarrow> Inr (pa_items arr @ xs)) }) }"

text \<open>The next answer of an iterator that stands at row \<open>p\<close> of \<open>rows\<close>.\<close>

definition serves :: "'a option list \<Rightarrow> nat \<Rightarrow> nat option \<Rightarrow> (nat \<times> 'a array) option \<Rightarrow> bool" where
  "serves rows p e r \<longleftrightarrow>
     (case r of
        None \<Rightarrow> length rows \<le> p
      | Some (row_id, arr) \<Rightarrow> p < length rows \<and> row_id = p \<and> pa_wf arr
          \<and> pa_items arr = take (length (pa_items arr)) (drop p rows) \<and> pa_items arr \<noteq> []
          \<and> (\<forall>x. e = Some x \<longrightarrow> length (pa_items arr) = x))"

context column_source
begin

lemma total_rows: "row_count_agg (co_index col) 0 = length (concat blocks)"
proof -
  have "map bx_row_count (co_index col) = map length blocks"
    using row_count len_index by (auto intro: nth_equalityI)
  moreover have "row_count_agg idx k = k + sum_list (map bx_row_count idx)" for idx k
    by (induction idx arbitrary: k) (auto simp: row_count_agg_def)
  ultimately show ?thesis by (simp add: length_concat)
qed

definition stands :: "('s, 'a) col_iter \<Rightarrow> nat \<Rightarrow> bool" where
  "stands s p \<longleftrightarrow> ok s \<and> ci_view blocks s = drop p (concat blocks) \<and> ci_current_row_id s \<le> p
     \<and> (\<not> ci_finished s \<longrightarrow> ci_current_row_id s = p)"

lemma hint_le:
  assumes "ok s"
  shows "ci_hint blocks s \<le> length (ci_view blocks s)"
proof (cases "ci_finished s")
  case False
  let ?b = "ci_current_block_id s"
  have "ci_current_row_id s \<le> first_row blocks (Suc ?b)" using assms False by (simp add: ci_ok_def)
  with False first_row_le [of blocks "Suc ?b"] first_row_le [of blocks "Suc (Suc ?b)"] first_row_Suc [of "Suc ?b" blocks]
  show ?thesis by (auto simp: ci_hint_def ci_view_def Let_def)
qed (simp add: ci_hint_def)

lemma batch_step:
  assumes at: "stands s p" and e: "e \<noteq> Some 0" and size: "\<And>x. e = Some x \<Longrightarrow> ci_hint blocks s \<noteq> 0 \<Longrightarrow> x \<le> ci_hint blocks s"
  shows "\<exists>r s'. ci_next_batch crc cache F col e s = Some (Inr (r, s')) \<and> serves (concat blocks) p e r
    \<and> stands s' (case r of None \<Rightarrow> p | Some (_, arr) \<Rightarrow> p + length (pa_items arr))"
proof -
  have ok: "ok s" and v: "ci_view blocks s = drop p (concat blocks)" and row: "ci_current_row_id s \<le> p"
      "\<not> ci_finished s \<longrightarrow> ci_current_row_id s = p"
    using at by (auto simp: stands_def)
  define n where "n = batch_len e (ci_hint blocks s)"
  have fits: "x \<le> ci_hint blocks s" if "e = Some x" "ci_hint blocks s \<noteq> 0" for x using size that by blast
  from next_batch_reads [OF ok e fits n_def] obtain r s' where
    nb: "ci_next_batch crc cache F col e s = Some (Inr (r, s'))" "ok s'"
      "ci_view blocks s' = drop n (ci_view blocks s)" "ci_current_row_id s' = ci_current_row_id s + n"
      "ci_finished s \<longrightarrow> ci_finished s'"
      "if ci_hint blocks s = 0 then r = None \<and> ci_view blocks s = []
       else \<exists>arr. r = Some (ci_current_row_id s, arr) \<and> pa_wf arr \<and> pa_items arr = take n (ci_view blocks s)"
    by blast
  have n_le: "n \<le> length (ci_view blocks s)" using hint_le [OF ok] batch_len_le [of e "ci_hint blocks s"] n_def by simp
  show ?thesis
  proof (cases "ci_hint blocks s = 0")
    case True
    then have "n = 0" using n_def by (simp add: batch_len_def split: option.splits)
    moreover have "length (concat blocks) \<le> p" using True nb(6) v by simp
    ultimately show ?thesis using True nb row v
      by (auto simp: serves_def stands_def ci_view_def ci_ok_def)
  next
    case False
    then have live: "\<not> ci_finished s" by (auto simp: ci_hint_def)
    from False nb(6) obtain arr where arr: "r = Some (p, arr)" "pa_wf arr" "pa_items arr = take n (ci_view blocks s)"
      using live row by auto
    have len: "length (pa_items arr) = n" using arr(3) n_le by simp
    have pos: "0 < n" using n_def e False by (cases e) (auto simp: batch_len_def)
    have "n = x" if "e = Some x" for x using that n_def fits [OF that False] by (simp add: batch_len_def)
    moreover have "p < length (concat blocks)" using pos n_le v by simp
    moreover have "stands s' (p + n)" using nb live row v by (simp add: stands_def add.commute)
    ultimately show ?thesis using nb(1) arr len pos v by (auto simp: serves_def)
  qed
qed

lemma skip_step:
  assumes "stands s p" and "p + k < 2 ^ 32"
  shows "\<exists>s'. ci_skip F col k s = Some s' \<and> stands s' (p + k)"
proof -
  have "ci_current_row_id s + k < 2 ^ 32" using assms by (auto simp: stands_def)
  with skip_moves [of s k] assms(1) obtain s' where
    "ci_skip F col k s = Some s'" "ok s'" "ci_view blocks s' = drop k (ci_view blocks s)"
    "if ci_finished s then s' = s else ci_current_row_id s' = ci_current_row_id s + k"
    by (auto simp: stands_def)
  then show ?thesis using assms(1) by (auto simp: stands_def add.commute split: if_splits)
qed

lemma reaches_stands: "ci_reaches crc cache F col s p \<Longrightarrow> stands s p"
proof (induction rule: ci_reaches.induct)
  case (opened start s)
  with new_ok [of start] show ?case by (auto simp: total_rows stands_def)
next
  case (batch s p h fin e r s')
  then have "h = ci_hint blocks s" using fetch_hint_eq [of s] by (simp add: stands_def)
  with batch batch_step [of s p e] show ?case by auto
next
  case (skipped s p k s')
  with skip_step show ?case by fastforce
qed

lemma open_reaches:
  "start < length (concat blocks) \<Longrightarrow> \<exists>s. ci_new crc cache F col start = Some (Inr s) \<and> ci_reaches crc cache F col s start"
  using new_ok [of start] by (auto simp: total_rows intro!: ci_reaches.opened)

lemma reaches_serves:
  assumes "ci_reaches crc cache F col s p"
  shows "\<exists>h fin. ci_fetch_hint col s = Some (h, fin)
    \<and> (\<forall>e. e \<noteq> Some 0 \<and> (\<forall>x. e = Some x \<longrightarrow> h \<noteq> 0 \<longrightarrow> x \<le> h)
        \<longrightarrow> (\<exists>r s'. ci_next_batch crc cache F col e s = Some (Inr (r, s')) \<and> serves (concat blocks) p e r))
    \<and> (\<forall>k. p + k < 2 ^ 32 \<longrightarrow> (\<exists>s'. ci_skip F col k s = Some s'))"
proof -
  note at = reaches_stands [OF assms]
  then have "ci_fetch_hint col s = Some (ci_hint blocks s, ci_finished s)"
    using fetch_hint_eq by (simp add: stands_def)
  moreover have "\<exists>r s'. ci_next_batch crc cache F col e s = Some (Inr (r, s')) \<and> serves (concat blocks) p e r"
    if "e \<noteq> Some 0" "\<forall>x. e = Some x \<longrightarrow> ci_hint blocks s \<noteq> 0 \<longrightarrow> x \<le> ci_hint blocks s" for e
    using batch_step [OF at that(1)] that(2) by blast
  moreover have "\<exists>s'. ci_skip F col k s = Some s'" if "p + k < 2 ^ 32" for k
    using skip_step [OF at that] by blast
  ultimately show ?thesis by blast
qed

lemma read_all_rows:
  "stands s p \<Longrightarrow> 0 < fuel \<Longrightarrow> length (concat blocks) < p + fuel \<Longrightarrow>
   read_all fuel crc cache F col s = Some (Inr (drop p (concat blocks)))"
proof (induction fuel arbitrary: s p)
  case 0
  then show ?case by simp
next
  case (Suc fuel)
  from batch_step [OF Suc.prems(1), of None] obtain r s' where
    r: "ci_next_batch crc cache F col None s = Some (Inr (r, s'))" "serves (concat blocks) p None r"
      "stands s' (case r of None \<Rightarrow> p | Some (_, arr) \<Rightarrow> p + length (pa_items arr))" by auto
  show ?case
  proof (cases r)
    case None
    with r show ?thesis by (simp add: serves_def)
  next
    case (Some q)
    then obtain arr where arr: "r = Some (p, arr)" "pa_items arr = take (length (pa_items arr)) (drop p (concat blocks))"
        "pa_items arr \<noteq> []" "p < length (concat blocks)" using r(2) by (cases q) (auto simp: serves_def)
    then have "0 < length (pa_items arr)" "0 < fuel" using Suc.prems(3) by simp_all
    with Suc.IH [of s' "p + length (pa_items arr)"] Suc.prems r arr(1)
    have "read_all fuel crc cache F col s' = Some (Inr (drop (p + length (pa_items arr)) (concat blocks)))" by simp
    moreover have "pa_items arr @ drop (p + length (pa_items arr)) (concat blocks) = drop p (concat blocks)"
      using append_take_drop_id [of "length (pa_items arr)" "drop p (concat blocks)"] arr(2) by (simp add: add.commute)
    ultimately show ?thesis using r(1) arr(1) by simp
  qed
qed

end

context family_law
begin

lemma buildable_column:
  assumes "buildable fits crc F nullable opts arrays"
  shows "fst (column_or_empty fits crc F nullable opts arrays) = built_column crc F nullable opts arrays"
    "concat (snd (column_or_empty fits crc F nullable opts arrays)) = built_rows F nullable opts arrays"
  using built_column_layout [OF assms] assms by (auto simp: column_or_empty_def Let_def)

lemma built_column_eq:
  "build_column crc F nullable opts arrays = Some (idx, bytes) \<Longrightarrow>
   built_column crc F nullable opts arrays = open_column idx bytes"
  by (simp add: built_column_def)

text \<open>Building succeeds, and what was built is read back from any row on.\<close>

lemma column_roundtrip:
  assumes fit: "fits (concat arrays)" "length (concat arrays) < 0xF0000000" "16 \<le> cbo_target_block_size opts"
  shows "\<exists>idx bytes. build_column crc F nullable opts arrays = Some (idx, bytes)
    \<and> row_count_agg idx 0 = length (concat arrays)
    \<and> (length bytes < 2 ^ 64 \<longrightarrow> (\<forall>start < length (concat arrays).
        \<exists>s. ci_new crc (\<lambda>_. None) F (open_column idx bytes) start = Some (Inr s)
          \<and> read_all (Suc (length (concat arrays))) crc (\<lambda>_. None) F (open_column idx bytes) s
              = Some (Inr (drop start (built_rows F nullable opts arrays)))))"
proof -
  from build_column_spec [OF fit] obtain idx bytes where
    b: "build_column crc F nullable opts arrays = Some (idx, bytes)" "row_count_agg idx 0 = length (concat arrays)" by blast
  have "\<exists>s. ci_new crc (\<lambda>_. None) F (open_column idx bytes) start = Some (Inr s)
      \<and> read_all (Suc (length (concat arrays))) crc (\<lambda>_. None) F (open_column idx bytes) s
        = Some (Inr (drop start (built_rows F nullable opts arrays)))"
    if small: "length bytes < 2 ^ 64" and start: "start < length (concat arrays)" for start
  proof -
    have bl: "buildable fits crc F nullable opts arrays" using fit b(1) small by (simp add: buildable_def)
    note col = buildable_column [OF bl, unfolded built_column_eq [OF b(1)]]
    have len: "length (built_rows F nullable opts arrays) = length (concat arrays)" by (simp add: built_rows_def)
    obtain s where s: "ci_new crc (\<lambda>_. None) F (open_column idx bytes) start = Some (Inr s)"
        "built.stands crc nullable opts arrays s start"
      using built.open_reaches [where start = start and crc = crc and nullable = nullable and opts = opts and arrays = arrays]
        built.reaches_stands [where crc = crc and nullable = nullable and opts = opts and arrays = arrays]
        start len unfolding col by auto
    from built.read_all_rows [OF s(2), of "Suc (length (concat arrays))"] len start s(1) show ?thesis
      unfolding col by auto
  qed
  with b show ?thesis by blast
qed

lemma column_serves:
  assumes bl: "buildable fits crc F nullable opts arrays"
    and col: "col = built_column crc F nullable opts arrays"
    and rows: "rows = built_rows F nullable opts arrays"
    and reach: "ci_reaches crc (\<lambda>_. None) F col s p"
  shows "\<exists>h fin. ci_fetch_hint col s = Some (h, fin)
    \<and> (\<forall>e. e \<noteq> Some 0 \<and> (\<forall>x. e = Some x \<longrightarrow> h \<noteq> 0 \<longrightarrow> x \<le> h)
        \<longrightarrow> (\<exists>r s'. ci_next_batch crc (\<lambda>_. None) F col e s = Some (Inr (r, s')) \<and> serves rows p e r))
    \<and> (\<forall>k. p + k < 2 ^ 32 \<longrightarrow> (\<exists>s'. ci_skip F col k s = Some s'))"
  using built.reaches_serves [where crc = crc and nullable = nullable and opts = opts and arrays = arrays and s = s and p = p]
    reach unfolding buildable_column [OF bl] col rows by blast

end

interpretation chars: family_law "char_family (Suc w)" "ppi_inv (char_codec (Suc w)) (char_ok (Suc w))"
  "ppi_inv (char_codec (Suc w)) (char_ok (Suc w))" "ppi_view (char_codec (Suc w))"
  "\<lambda>xs. \<forall>v. Some v \<in> set xs \<longrightarrow> char_ok (Suc w) v" for w
  by (rule char_family_law) simp

section \<open>Properties\<close>

text \<open>C6. A column of 32-bit integers, nullable or not and under any of the three encodings: building it
  never fails, and an iterator opened at any row of the written file reads back the rows from there on
  (a null of a non-nullable column is stored as the default value).\<close>

theorem i32_column_roundtrip:
  assumes "length (concat arrays) < 0xF0000000" and "16 \<le> cbo_target_block_size opts"
  shows "\<exists>idx bytes. build_column crc (prim_family i32_codec) nullable opts arrays = Some (idx, bytes)
    \<and> row_count_agg idx 0 = length (concat arrays)
    \<and> (length bytes < 2 ^ 64 \<longrightarrow> (\<forall>start < length (concat arrays).
        \<exists>s. ci_new crc (\<lambda>_. None) (prim_family i32_codec) (open_column idx bytes) start = Some (Inr s)
          \<and> read_all (Suc (length (concat arrays))) crc (\<lambda>_. None) (prim_family i32_codec) (open_column idx bytes) s
              = Some (Inr (drop start (map (stored (prim_family i32_codec) nullable (cbo_encode_type opts)) (concat arrays))))))"
  using i32s.column_roundtrip [OF _ assms] unfolding built_rows_def by simp

definition demo_options :: "encode_type \<Rightarrow> column_builder_options" where
  "demo_options enc = \<lparr>cbo_target_block_size = 64, cbo_checksum_type = Crc32, cbo_encode_type = enc,
     cbo_record_first_key = False\<rparr>"

theorem i32_column_roundtrip_witness:
  "\<exists>idx bytes. build_column (\<lambda>_. 0) (prim_family i32_codec) True (demo_options EncRunLength) [[Some 7, None], [Some 7]]
      = Some (idx, bytes) \<and> row_count_agg idx 0 = 3"
  using i32_column_roundtrip [of "[[Some 7, None], [Some 7]]" "demo_options EncRunLength" "\<lambda>_. 0" True]
  by (fastforce simp: demo_options_def simp del: read_all.simps)

text \<open>A column of strings, whatever its encoding, is written without failure and read back from any row on,
  when every string is valid UTF-8 and their total length fits the 32-bit offsets of a block.\<close>

theorem varchar_column_roundtrip:
  assumes "\<forall>v. Some v \<in> set (concat arrays) \<longrightarrow> utf8_ok v" and "total_len (concat arrays) < 2 ^ 32"
    and "length (concat arrays) < 0xF0000000" and "16 \<le> cbo_target_block_size opts"
  shows "\<exists>idx bytes. build_column crc varchar_family nullable opts arrays = Some (idx, bytes)
    \<and> row_count_agg idx 0 = length (concat arrays)
    \<and> (length bytes < 2 ^ 64 \<longrightarrow> (\<forall>start < length (concat arrays).
        \<exists>s. ci_new crc (\<lambda>_. None) varchar_family (open_column idx bytes) start = Some (Inr s)
          \<and> read_all (Suc (length (concat arrays))) crc (\<lambda>_. None) varchar_family (open_column idx bytes) s
              = Some (Inr (drop start (map (stored varchar_family nullable (cbo_encode_type opts)) (concat arrays))))))"
  using varchar.column_roundtrip [OF _ assms(3,4)] assms(1,2) unfolding built_rows_def str_from_byte_slice_def by simp

theorem varchar_column_roundtrip_witness:
  "\<exists>idx bytes. build_column (\<lambda>_. 0) varchar_family False (demo_options EncDictionary) [[Some [104, 105], None]]
      = Some (idx, bytes) \<and> row_count_agg idx 0 = 2"
proof -
  have "utf8_ok [104, 105]" "total_len [Some [104, 105], None] < 2 ^ 32" by code_simp+
  then show ?thesis
    using varchar_column_roundtrip [of "[[Some [104, 105], None]]" "demo_options EncDictionary" "\<lambda>_. 0" False]
    by (fastforce simp: demo_options_def simp del: read_all.simps)
qed

text \<open>A column of fixed-width strings is read back from any row on, when every string is valid UTF-8 without a
  zero byte and not longer than the width.\<close>

theorem char_column_roundtrip:
  assumes "0 < w" and "\<forall>v. Some v \<in> set (concat arrays) \<longrightarrow> char_ok w v"
    and "length (concat arrays) < 0xF0000000" and "16 \<le> cbo_target_block_size opts"
  shows "\<exists>idx bytes. build_column crc (char_family w) nullable opts arrays = Some (idx, bytes)
    \<and> row_count_agg idx 0 = length (concat arrays)
    \<and> (length bytes < 2 ^ 64 \<longrightarrow> (\<forall>start < length (concat arrays).
        \<exists>s. ci_new crc (\<lambda>_. None) (char_family w) (open_column idx bytes) start = Some (Inr s)
          \<and> read_all (Suc (length (concat arrays))) crc (\<lambda>_. None) (char_family w) (open_column idx bytes) s
              = Some (Inr (drop start (map (stored (char_family w) nullable (cbo_encode_type opts)) (concat arrays))))))"
proof -
  from assms(1) obtain v where "w = Suc v" by (cases w) auto
  with chars.column_roundtrip [of arrays v, OF _ assms(3,4)] assms(2) show ?thesis unfolding built_rows_def by simp
qed

theorem char_column_roundtrip_witness:
  "\<exists>idx bytes. build_column (\<lambda>_. 0) (char_family 4) True (demo_options EncPlain) [[Some [104, 105], None]]
      = Some (idx, bytes) \<and> row_count_agg idx 0 = 2"
proof -
  have "char_ok 4 [104, 105]" by code_simp
  then show ?thesis
    using char_column_roundtrip [of 4 "[[Some [104, 105], None]]" "demo_options EncPlain" "\<lambda>_. 0" True]
    by (fastforce simp: demo_options_def simp del: read_all.simps)
qed

text \<open>C27. The column iterator as a state machine: in every state that opening a written integer column, batches
  within the hint and skips can reach, the hint is available, the next batch within it succeeds, starts at
  the row the iterator stands at, has the asked size and holds exactly the column's rows there (and is
  \<open>None\<close> only past the last row), and every skip that stays within 32-bit row numbers succeeds.\<close>

theorem i32_column_serves:
  assumes "length (concat arrays) < 0xF0000000" and "16 \<le> cbo_target_block_size opts"
    and "build_column crc (prim_family i32_codec) nullable opts arrays = Some (idx, bytes)" and "length bytes < 2 ^ 64"
    and "ci_reaches crc (\<lambda>_. None) (prim_family i32_codec) (open_column idx bytes) s p"
  shows "\<exists>h fin. ci_fetch_hint (open_column idx bytes) s = Some (h, fin)
    \<and> (\<forall>e. e \<noteq> Some 0 \<and> (\<forall>x. e = Some x \<longrightarrow> h \<noteq> 0 \<longrightarrow> x \<le> h)
        \<longrightarrow> (\<exists>r s'. ci_next_batch crc (\<lambda>_. None) (prim_family i32_codec) (open_column idx bytes) e s = Some (Inr (r, s'))
             \<and> serves (map (stored (prim_family i32_codec) nullable (cbo_encode_type opts)) (concat arrays)) p e r))
    \<and> (\<forall>k. p + k < 2 ^ 32 \<longrightarrow> (\<exists>s'. ci_skip (prim_family i32_codec) (open_column idx bytes) k s = Some s'))"
  using assms i32s.column_serves [of crc nullable opts arrays "open_column idx bytes", OF _ _ refl]
  unfolding built_rows_def by (simp add: buildable_def built_column_def)

text \<open>Evaluation of \<open>cb_append\<close> with a bound on its rounds.\<close>

primrec cb_append_fuel ::
  "nat \<Rightarrow> (byte list \<Rightarrow> u32) \<Rightarrow> ('b, 's, 'a) family \<Rightarrow> 'a option list \<Rightarrow> ('b, 'a) column_builder
     \<Rightarrow> ('b, 'a) column_builder option" where
  "cb_append_fuel 0 crc F iter c = None"
| "cb_append_fuel (Suc n) crc F iter c =
     (if iter = [] then Some c
      else do {
        (iter, c) \<leftarrow> cb_round crc F iter c;
        cb_append_fuel n crc F iter c })"

lemma cb_append_fuel_eq: "cb_append_fuel n crc F iter c = Some c' \<Longrightarrow> cb_append crc F iter c = Some c'"
proof (induction n arbitrary: iter c)
  case (Suc n)
  then show ?case by (subst cb_append.simps) (auto split: if_splits)
qed simp

lemma build_column_fuel:
  "cb_append_fuel n crc F iter (cb_new nullable opts) \<bind> cb_finish crc F = Some r \<Longrightarrow>
   build_column crc F nullable opts [iter] = Some r"
  by (auto simp: build_column_def bind_eq_Some_conv dest: cb_append_fuel_eq)

theorem i32_column_serves_witness:
  "\<exists>idx bytes s. build_column (\<lambda>_. 0) (prim_family i32_codec) True (demo_options EncPlain) [[Some 7]] = Some (idx, bytes)
    \<and> ci_reaches (\<lambda>_. 0) (\<lambda>_. None) (prim_family i32_codec) (open_column idx bytes) s 0
    \<and> (\<exists>r s'. ci_next_batch (\<lambda>_. 0) (\<lambda>_. None) (prim_family i32_codec) (open_column idx bytes) None s = Some (Inr (r, s'))
        \<and> serves [Some 7] 0 None r)"
proof -
  define x where "x = \<lparr>bx_offset = 0, bx_length = 25, bx_first_rowid = 0, bx_row_count = 1, bx_first_key = [],
    bx_stats = [\<lparr>block_stat_type = DistinctValue, stat_body = [1, 0, 0, 0, 0, 0, 0, 0]\<rparr>], bx_is_first_key_null = True\<rparr>"
  define bytes :: "byte list" where
    "bytes = [7, 0, 0, 0, 1, 1, 0, 0, 0, 0, 0, 0, 3, 0, 0, 0, 1, 0, 0, 0, 0, 0, 0, 0, 0]"
  have "cb_append_fuel 3 (\<lambda>_. 0) (prim_family i32_codec) [Some 7] (cb_new True (demo_options EncPlain))
      \<bind> cb_finish (\<lambda>_. 0) (prim_family i32_codec) = Some ([x], bytes)"
    unfolding x_def bytes_def by code_simp
  from build_column_fuel [OF this]
  have b: "build_column (\<lambda>_. 0) (prim_family i32_codec) True (demo_options EncPlain) [[Some 7]] = Some ([x], bytes)" .
  have rows: "row_count_agg [x] 0 = 1" by (simp add: row_count_agg_def x_def)
  have small: "length bytes < 2 ^ 64" by (simp add: bytes_def)
  obtain s where s: "ci_new (\<lambda>_. 0) (\<lambda>_. None) (prim_family i32_codec) (open_column [x] bytes) 0 = Some (Inr s)"
    using i32s.column_roundtrip [of "[[Some 7]]" "demo_options EncPlain" "\<lambda>_. 0" True] b small
    by (auto simp: demo_options_def simp del: read_all.simps)
  have reach: "ci_reaches (\<lambda>_. 0) (\<lambda>_. None) (prim_family i32_codec) (open_column [x] bytes) s 0"
    using s rows by (intro ci_reaches.opened) (simp_all add: open_column_def)
  from i32_column_serves [OF _ _ b small reach] b reach show ?thesis
    by (fastforce simp: demo_options_def stored_def)
qed

end
