(* ===== verification/Rowsets.thy ===== *)
theory Rowsets
  imports Columns
begin

text \<open>
  Scanning a row set: the delete vectors (\<open>delete_vector.rs\<close>), the row handles and the iterator that
  produces them (\<open>row_handler.rs\<close>, \<open>row_handler_column_iterator.rs\<close>), storage chunks (\<open>chunk.rs\<close>)
  and the row-set iterator (\<open>rowset/rowset_iterator.rs\<close>), which reads all its columns in lock-step,
  applies delete vectors and a range filter on the first column, and skips batches whose rows are
  all deleted.

  The row-set iterator uses its columns only through the methods of \<open>ColumnIteratorImpl\<close>: here the
  record \<open>column_ops\<close> over a state type. An erased array is an array of the erased values. The
  locale \<open>column_cursor\<close> is what the row-set iterator relies on; the concrete column iterators of
  \<open>Column_Iterator\<close> and the row-handle iterator both provide it.
\<close>

section \<open>Delete vectors\<close>

record delete_vector =
  dv_id :: nat
  dv_rowset_id :: nat
  dv_deletes :: "nat list"

definition dv_new :: "nat \<Rightarrow> nat \<Rightarrow> nat list \<Rightarrow> delete_vector" where
  "dv_new i rowset_id deletes = \<lparr>dv_id = i, dv_rowset_id = rowset_id, dv_deletes = remdups_adj (sort deletes)\<rparr>"

fun dv_apply_loop :: "nat list \<Rightarrow> nat \<Rightarrow> bool list \<Rightarrow> bool list" where
  "dv_apply_loop iter row_id [] = []"
| "dv_apply_loop [] row_id (b # bits) = b # dv_apply_loop [] (Suc row_id) bits"
| "dv_apply_loop (unset_row_id # iter) row_id (b # bits) =
     (if unset_row_id = as_u32 row_id then False # dv_apply_loop iter (Suc row_id) bits
      else b # dv_apply_loop (unset_row_id # iter) (Suc row_id) bits)"

definition apply_to :: "delete_vector \<Rightarrow> bool list \<Rightarrow> nat \<Rightarrow> bool list" where
  "apply_to dv data offset_row_id =
     (let pos = partition_point (\<lambda>x. x < offset_row_id) (dv_deletes dv)
      in dv_apply_loop (drop pos (dv_deletes dv)) offset_row_id data)"

section \<open>Row handles\<close>

type_synonym row_handler = "u32 \<times> u32"

definition row_handler_as_i64 :: "row_handler \<Rightarrow> u64" where
  "row_handler_as_i64 h = or (push_bit 32 (ucast (fst h))) (ucast (snd h))"

definition row_handler_from_i64 :: "u64 \<Rightarrow> row_handler option" where
  "row_handler_from_i64 data =
     (if 0 \<le>s data then Some (ucast (signed_drop_bit 32 data), ucast (and data (push_bit 32 1 - 1))) else None)"

record row_handler_iter =
  rh_rowset_id :: nat
  rh_row_count :: nat
  rh_current_row_id :: nat

definition rh_new :: "nat \<Rightarrow> nat \<Rightarrow> nat \<Rightarrow> row_handler_iter" where
  "rh_new rowset_id row_count first =
     \<lparr>rh_rowset_id = rowset_id, rh_row_count = row_count, rh_current_row_id = first\<rparr>"

definition rh_item :: "nat \<Rightarrow> nat \<Rightarrow> u64" where
  "rh_item rowset_id row_id = row_handler_as_i64 (of_nat rowset_id, of_nat row_id)"

definition rh_next_batch ::
  "nat option \<Rightarrow> row_handler_iter \<Rightarrow> ((nat \<times> u64 array) option \<times> row_handler_iter) storage_result option" where
  "rh_next_batch expected_size s =
     (if rh_current_row_id s \<ge> rh_row_count s then Some (Inr (None, s))
      else do {
        let remaining_cnt = rh_row_count s - rh_current_row_id s;
        remaining_cnt \<leftarrow> (case expected_size of
           Some n \<Rightarrow> do { rust_assert (n > 0); Some (min remaining_cnt n) }
         | None \<Rightarrow> Some remaining_cnt);
        let first_row_id = as_u32 (rh_current_row_id s);
        let batch = foldl (\<lambda>b row_id. pa_push 0 (Some (rh_item (rh_rowset_id s) row_id)) b) pa_new
          [rh_current_row_id s ..< rh_current_row_id s + remaining_cnt];
        Some (Inr (Some (first_row_id, pa_finish batch),
          s\<lparr>rh_current_row_id := rh_current_row_id s + remaining_cnt\<rparr>)) })"

definition rh_fetch_hint :: "row_handler_iter \<Rightarrow> (nat \<times> bool) option" where
  "rh_fetch_hint s = do { cnt \<leftarrow> checked_sub (rh_row_count s) (rh_current_row_id s); Some (cnt, cnt = 0) }"

definition rh_fetch_current_row_id :: "row_handler_iter \<Rightarrow> nat" where
  "rh_fetch_current_row_id s = as_u32 (rh_current_row_id s)"

definition rh_skip :: "nat \<Rightarrow> row_handler_iter \<Rightarrow> row_handler_iter option" where
  "rh_skip cnt s = Some (s\<lparr>rh_current_row_id := rh_current_row_id s + cnt\<rparr>)"

section \<open>Storage chunks\<close>

record 'v storage_chunk =
  sc_visibility :: "bool list option"
  sc_arrays :: "'v array list"
  sc_cardinality :: nat

definition sc_construct :: "bool list option \<Rightarrow> 'v array list \<Rightarrow> 'v storage_chunk option option" where
  "sc_construct vis arrays = do {
     rust_assert (arrays \<noteq> []);
     first \<leftarrow> index_at arrays 0;
     let first_length = pa_len first;
     rust_assert (\<forall>a \<in> set arrays. first_length = pa_len a);
     cardinality \<leftarrow> (case vis of
        Some v \<Rightarrow> do { rust_assert (length v = first_length); Some (length (filter id v)) }
      | None \<Rightarrow> Some first_length);
     Some (if cardinality > 0
           then Some \<lparr>sc_visibility = vis, sc_arrays = arrays, sc_cardinality = cardinality\<rparr> else None) }"

definition sc_row_count :: "'v storage_chunk \<Rightarrow> nat option" where
  "sc_row_count c = map_option pa_len (index_at (sc_arrays c) 0)"

text \<open>The arrays of the data chunk that \<open>to_data_chunk\<close> builds.\<close>

definition to_data_chunk :: "'v storage_chunk \<Rightarrow> 'v array list option" where
  "to_data_chunk c =
     (case sc_visibility c of
        Some v \<Rightarrow> those (map (pa_filter v) (sc_arrays c))
      | None \<Rightarrow> Some (sc_arrays c))"

section \<open>The row-set iterator\<close>

record ('c, 'v) column_ops =
  cop_next_batch :: "nat option \<Rightarrow> 'c \<Rightarrow> ((nat \<times> 'v array) option \<times> 'c) storage_result option"
  cop_fetch_hint :: "'c \<Rightarrow> (nat \<times> bool) option"
  cop_fetch_current_row_id :: "'c \<Rightarrow> nat"
  cop_skip :: "nat \<Rightarrow> 'c \<Rightarrow> 'c option"

datatype 'k bound = Included 'k | Excluded 'k | Unbounded

type_synonym 'v key_range = "'v option bound \<times> 'v option bound"

datatype storage_column_ref = RowHandler | Idx nat

record ('c, 'v) rowset_iter =
  rsi_dvs :: "delete_vector list"
  rsi_column_iterators :: "'c list"
  rsi_filter :: "'v key_range option"
  rsi_end :: bool

definition ROWSET_MAX_OUTPUT :: nat where "ROWSET_MAX_OUTPUT = 2048"

fun rsi_open_columns :: "('r \<Rightarrow> 'c storage_result option) \<Rightarrow> 'r list \<Rightarrow> 'c list storage_result option" where
  "rsi_open_columns opn [] = Some (Inr [])"
| "rsi_open_columns opn (r # refs) = do {
     c \<leftarrow> opn r;
     (case c of
        Inl err \<Rightarrow> Some (Inl err)
      | Inr it \<Rightarrow> do {
          rest \<leftarrow> rsi_open_columns opn refs;
          Some (case rest of Inl err \<Rightarrow> Inl err | Inr its \<Rightarrow> Inr (it # its)) }) }"

text \<open>\<open>open_idx\<close> and \<open>open_row_handler\<close> are \<open>ColumnIteratorImpl::new\<close> on a column of the row set and
  \<open>ColumnIteratorImpl::new_row_handler\<close> with the row count of the first column.\<close>

definition rsi_new ::
  "(nat \<Rightarrow> nat \<Rightarrow> 'c storage_result option) \<Rightarrow> (nat \<Rightarrow> 'c storage_result option) \<Rightarrow> storage_column_ref list
     \<Rightarrow> delete_vector list \<Rightarrow> column_seek_position \<Rightarrow> 'v key_range option \<Rightarrow> ('c, 'v) rowset_iter storage_result option" where
  "rsi_new open_idx open_row_handler column_refs dvs seek_pos filt = do {
     start_row_id \<leftarrow> (case seek_pos of RowId row_id \<Rightarrow> Some row_id | _ \<Rightarrow> None);
     rust_assert (column_refs \<noteq> []);
     rust_assert (length (filter (\<lambda>r. r = RowHandler) column_refs) \<le> 1);
     its \<leftarrow> rsi_open_columns (\<lambda>r. case r of RowHandler \<Rightarrow> open_row_handler start_row_id
                                | Idx i \<Rightarrow> open_idx i start_row_id) column_refs;
     Some (case its of
        Inl err \<Rightarrow> Inl err
      | Inr its \<Rightarrow> Inr \<lparr>rsi_dvs = dvs, rsi_column_iterators = its, rsi_filter = filt, rsi_end = False\<rparr>) }"

text \<open>The filter compares erased values with their total order, given as \<open>lt\<close> (a null is less than
  any value).\<close>

text \<open>The smallest non-zero hint, and whether all columns are finished.\<close>

fun min_fetch_hint :: "('c, 'v) column_ops \<Rightarrow> 'c list \<Rightarrow> nat option \<Rightarrow> bool \<Rightarrow> (nat option \<times> bool) option" where
  "min_fetch_hint C [] m is_finished = Some (m, is_finished)"
| "min_fetch_hint C (it # its) m is_finished = do {
     (hint, fin) \<leftarrow> cop_fetch_hint C it;
     min_fetch_hint C its
       (if hint \<noteq> 0 then Some (case m of Some v \<Rightarrow> min v hint | None \<Rightarrow> hint) else m)
       (is_finished \<and> fin) }"

definition position :: "('x \<Rightarrow> bool) \<Rightarrow> 'x list \<Rightarrow> nat option" where
  "position p xs = (case find (\<lambda>i. p (xs ! i)) [0 ..< length xs] of None \<Rightarrow> None | Some i \<Rightarrow> Some i)"

definition range_start :: "('v option \<Rightarrow> 'v option \<Rightarrow> bool) \<Rightarrow> 'v option bound \<Rightarrow> 'v option list \<Rightarrow> nat" where
  "range_start lt b items =
     (case (case b of
              Included key \<Rightarrow> position (\<lambda>v. \<not> lt v key) items
            | Excluded key \<Rightarrow> position (\<lambda>v. lt key v) items
            | Unbounded \<Rightarrow> Some 0) of
        Some i \<Rightarrow> i | None \<Rightarrow> length items)"

definition range_end :: "('v option \<Rightarrow> 'v option \<Rightarrow> bool) \<Rightarrow> 'v option bound \<Rightarrow> 'v option list \<Rightarrow> nat" where
  "range_end lt b items =
     (case (case b of
              Included key \<Rightarrow> position (\<lambda>v. lt key v) items
            | Excluded key \<Rightarrow> position (\<lambda>v. \<not> lt v key) items
            | Unbounded \<Rightarrow> None) of
        Some i \<Rightarrow> i | None \<Rightarrow> length items)"

text \<open>The range filter on the first column: a bitmap of the rows in range, and whether the scan ends.
  An \<open>&=\<close> keeps the length of its left-hand side.\<close>

definition vis_and :: "bool list \<Rightarrow> bool list \<Rightarrow> bool list" where
  "vis_and v bitmap = map2 (\<and>) v (bitmap @ replicate (length v - length bitmap) False)"

definition apply_range ::
  "('v option \<Rightarrow> 'v option \<Rightarrow> bool) \<Rightarrow> 'v key_range option \<Rightarrow> 'v array \<Rightarrow> bool list option \<Rightarrow> bool \<Rightarrow> (bool list option \<times> bool) option" where
  "apply_range lt filt array vis fin =
     (case filt of
        None \<Rightarrow> Some (vis, fin)
      | Some (lo, hi) \<Rightarrow> do {
          items \<leftarrow> pa_to_vec array;
          let s = range_start lt lo items;
          let e = range_end lt hi items;
          let bitmap = map (\<lambda>i. s \<le> i \<and> i < e) [0 ..< pa_len array];
          Some (if s = 0 \<and> e = pa_len array then vis
                else Some (case vis of Some v \<Rightarrow> vis_and v bitmap | None \<Rightarrow> bitmap),
                fin \<or> e = 0) })"

text \<open>The loop over the columns: each must yield the same row range; \<open>None\<close> as the first component
  when a column has no more rows.\<close>

fun rsi_fetch ::
  "('v option \<Rightarrow> 'v option \<Rightarrow> bool) \<Rightarrow> ('c, 'v) column_ops \<Rightarrow> nat \<Rightarrow> 'v key_range option \<Rightarrow> nat \<Rightarrow> (nat \<times> nat) option
     \<Rightarrow> bool list option \<Rightarrow> bool \<Rightarrow> 'c list
     \<Rightarrow> (('v array list \<times> bool list option \<times> bool) option \<times> 'c list) storage_result option" where
  "rsi_fetch lt C fetch_size filt cid common vis fin [] = Some (Inr (Some ([], vis, fin), []))"
| "rsi_fetch lt C fetch_size filt cid common vis fin (it # its) = do {
     r \<leftarrow> cop_next_batch C (Some fetch_size) it;
     (case r of
        Inl err \<Rightarrow> Some (Inl err)
      | Inr (None, it) \<Rightarrow> Some (Inr (None, it # its))
      | Inr (Some (row_id, array), it) \<Rightarrow> do {
          hi \<leftarrow> checked_add32 row_id (as_u32 (pa_len array));
          rust_assert (case common of Some rng \<Rightarrow> rng = (row_id, hi) | None \<Rightarrow> True);
          (vis, fin) \<leftarrow> (if cid = 0 then apply_range lt filt array vis fin else Some (vis, fin));
          rest \<leftarrow> rsi_fetch lt C fetch_size filt (Suc cid) (case common of Some rng \<Rightarrow> Some rng | None \<Rightarrow> Some (row_id, hi)) vis fin its;
          Some (case rest of
             Inl err \<Rightarrow> Inl err
           | Inr (None, its) \<Rightarrow> Inr (None, it # its)
           | Inr (Some (arrays, vis, fin), its) \<Rightarrow> Inr (Some (array # arrays, vis, fin), it # its)) }) }"

fun skip_columns :: "('c, 'v) column_ops \<Rightarrow> nat \<Rightarrow> 'c list \<Rightarrow> 'c list option" where
  "skip_columns C cnt [] = Some []"
| "skip_columns C cnt (it # its) = do {
     it \<leftarrow> cop_skip C cnt it; its \<leftarrow> skip_columns C cnt its; Some (it # its) }"

text \<open>How many rows the next batch asks for: \<open>None\<close> when all columns are finished.\<close>

definition rsi_fetch_size :: "('c, 'v) column_ops \<Rightarrow> nat option \<Rightarrow> 'c list \<Rightarrow> nat option option" where
  "rsi_fetch_size C expected_size its = do {
     (m, is_finished) \<leftarrow> min_fetch_hint C its None True;
     Some (case (case m of Some m \<Rightarrow> Some (min m ROWSET_MAX_OUTPUT)
                 | None \<Rightarrow> if is_finished then None else Some ROWSET_MAX_OUTPUT) of
             None \<Rightarrow> None
           | Some fetch_size \<Rightarrow>
               Some (case expected_size of Some x \<Rightarrow> (if x > fetch_size then fetch_size else x) | None \<Rightarrow> fetch_size)) }"

definition rsi_next_batch_inner ::
  "('v option \<Rightarrow> 'v option \<Rightarrow> bool) \<Rightarrow> ('c, 'v) column_ops \<Rightarrow> nat option \<Rightarrow> ('c, 'v) rowset_iter
     \<Rightarrow> ('v storage_chunk option \<times> ('c, 'v) rowset_iter) storage_result option" where
  "rsi_next_batch_inner lt C expected_size s =
     (if rsi_end s then Some (Inr (None, s))
      else do {
        size \<leftarrow> rsi_fetch_size C expected_size (rsi_column_iterators s);
        (case size of
           None \<Rightarrow> Some (Inr (None, s\<lparr>rsi_end := True\<rparr>))
         | Some fetch_size \<Rightarrow> do {
             vis \<leftarrow> (if rsi_dvs s = [] then Some None
               else do {
                 it \<leftarrow> index_at (rsi_column_iterators s) 0;
                 let start_row_id = cop_fetch_current_row_id C it;
                 Some (Some (foldl (\<lambda>visi dv. apply_to dv visi start_row_id) (replicate fetch_size True) (rsi_dvs s))) });
             (if (case vis of Some visi \<Rightarrow> \<not> list_ex id visi | None \<Rightarrow> False)
              then do {
                its \<leftarrow> skip_columns C (case vis of Some visi \<Rightarrow> length visi | None \<Rightarrow> 0) (rsi_column_iterators s);
                Some (Inr (None, s\<lparr>rsi_column_iterators := its\<rparr>)) }
              else do {
                r \<leftarrow> rsi_fetch lt C fetch_size (rsi_filter s) 0 None vis False (rsi_column_iterators s);
                (case r of
                   Inl err \<Rightarrow> Some (Inl err)
                 | Inr (None, its) \<Rightarrow> Some (Inr (None, s\<lparr>rsi_column_iterators := its, rsi_end := True\<rparr>))
                 | Inr (Some (arrays, vis, fin), its) \<Rightarrow> do {
                     chunk \<leftarrow> sc_construct vis arrays;
                     Some (Inr (chunk, s\<lparr>rsi_column_iterators := its, rsi_end := fin\<rparr>)) }) }) }) })"

partial_function (option) rsi_next_batch ::
  "('v option \<Rightarrow> 'v option \<Rightarrow> bool) \<Rightarrow> ('c, 'v) column_ops \<Rightarrow> nat option \<Rightarrow> ('c, 'v) rowset_iter
     \<Rightarrow> ('v storage_chunk option \<times> ('c, 'v) rowset_iter) storage_result option" where
  "rsi_next_batch lt C expected_size s =
     (if rsi_end s then Some (Inr (None, s))
      else do {
        r \<leftarrow> rsi_next_batch_inner lt C expected_size s;
        (case r of
           Inl err \<Rightarrow> Some (Inl err)
         | Inr (Some batch, s) \<Rightarrow> Some (Inr (Some batch, s))
         | Inr (None, s) \<Rightarrow> rsi_next_batch lt C expected_size s) })"

text \<open>Reading a row set to its end: the visible rows of every column. The fuel bounds the batches.\<close>

primrec rsi_scan ::
  "nat \<Rightarrow> ('v option \<Rightarrow> 'v option \<Rightarrow> bool) \<Rightarrow> ('c, 'v) column_ops \<Rightarrow> nat option \<Rightarrow> ('c, 'v) rowset_iter
     \<Rightarrow> 'v option list list \<Rightarrow> 'v option list list storage_result option" where
  "rsi_scan 0 lt C expected_size s acc = None"
| "rsi_scan (Suc fuel) lt C expected_size s acc = do {
     r \<leftarrow> rsi_next_batch lt C expected_size s;
     (case r of
        Inl err \<Rightarrow> Some (Inl err)
      | Inr (None, s) \<Rightarrow> Some (Inr acc)
      | Inr (Some chunk, s) \<Rightarrow> do {
          arrays \<leftarrow> to_data_chunk chunk;
          cols \<leftarrow> those (map pa_to_vec arrays);
          rsi_scan fuel lt C expected_size s (map2 (@) acc cols) }) }"

section \<open>Delete vectors: lemmas\<close>

definition dv_wf :: "delete_vector \<Rightarrow> bool" where
  "dv_wf dv \<longleftrightarrow> sorted_wrt (<) (dv_deletes dv)"

lemma sorted_wrt_remdups_adj: "sorted xs \<Longrightarrow> sorted_wrt (<) (remdups_adj (xs :: nat list))"
  by (induction xs rule: remdups_adj.induct) (auto simp: order_le_less)

lemma dv_new_wf: "dv_wf (dv_new i r deletes)" and dv_new_set: "set (dv_deletes (dv_new i r deletes)) = set deletes"
  by (simp_all add: dv_wf_def dv_new_def sorted_wrt_remdups_adj)

definition keep_rows :: "nat set \<Rightarrow> nat \<Rightarrow> bool list \<Rightarrow> bool list" where
  "keep_rows D offset bits = map2 (\<lambda>i b. b \<and> i \<notin> D) [offset ..< offset + length bits] bits"

lemma keep_rows_Nil [simp]: "keep_rows D r [] = []"
  and keep_rows_Cons: "keep_rows D r (b # bits) = (b \<and> r \<notin> D) # keep_rows D (Suc r) bits"
  by (simp_all add: keep_rows_def upt_conv_Cons del: upt_Suc)

lemma length_keep_rows [simp]: "length (keep_rows D r bits) = length bits"
  by (simp add: keep_rows_def)

lemma keep_rows_cong:
  "(\<And>i. r \<le> i \<Longrightarrow> i \<in> D \<longleftrightarrow> i \<in> E) \<Longrightarrow> keep_rows D r bits = keep_rows E r bits"
  by (induction bits arbitrary: r) (auto simp: keep_rows_Cons)

lemma dv_apply_loop_keep:
  "sorted_wrt (<) iter \<Longrightarrow> \<forall>d\<in>set iter. r \<le> d \<Longrightarrow> r + length bits \<le> 2 ^ 32 \<Longrightarrow>
   dv_apply_loop iter r bits = keep_rows (set iter) r bits"
proof (induction iter r bits rule: dv_apply_loop.induct)
  case (2 r b bits)
  then show ?case by (simp add: keep_rows_Cons)
next
  case (3 d iter r b bits)
  have r: "as_u32 r = r" using 3(5) by simp
  show ?case
  proof (cases "d = r")
    case True
    have "keep_rows (set iter) (Suc r) bits = keep_rows (set (d # iter)) (Suc r) bits"
      using True by (intro keep_rows_cong) auto
    with 3 True r show ?thesis by (auto simp: keep_rows_Cons Suc_le_eq)
  next
    case False
    then have "r < d" "\<forall>x\<in>set iter. r < x" using 3(3,4) by auto
    with 3 False r show ?thesis by (auto simp: keep_rows_Cons Suc_le_eq)
  qed
qed simp

lemma takeWhile_sorted_less:
  "sorted_wrt (<) xs \<Longrightarrow> drop (partition_point (\<lambda>x. x < (r :: nat)) xs) xs = filter (\<lambda>x. r \<le> x) xs"
  unfolding partition_point_def dropWhile_eq_drop [symmetric]
proof (induction xs)
  case (Cons x xs)
  then have "filter (\<lambda>y. r \<le> y) xs = xs" if "r \<le> x" using that by (auto simp: filter_id_conv)
  with Cons show ?case by auto
qed simp

lemma apply_to_keep:
  assumes "dv_wf dv" and "offset + length bits \<le> 2 ^ 32"
  shows "apply_to dv bits offset = keep_rows (set (dv_deletes dv)) offset bits"
proof -
  have "sorted_wrt (<) (filter (\<lambda>x. offset \<le> x) (dv_deletes dv))"
    using assms(1) by (simp add: dv_wf_def sorted_wrt_filter)
  with assms show ?thesis
    by (auto simp: apply_to_def takeWhile_sorted_less dv_wf_def dv_apply_loop_keep intro: keep_rows_cong)
qed

definition deleted_rows :: "delete_vector list \<Rightarrow> nat set" where
  "deleted_rows dvs = (\<Union>dv\<in>set dvs. set (dv_deletes dv))"

lemma keep_rows_keep_rows: "keep_rows D r (keep_rows E r bits) = keep_rows (D \<union> E) r bits"
  by (induction bits arbitrary: r) (auto simp: keep_rows_Cons)

lemma apply_all_keep:
  "\<forall>dv\<in>set dvs. dv_wf dv \<Longrightarrow> offset + length bits \<le> 2 ^ 32 \<Longrightarrow>
   foldl (\<lambda>visi dv. apply_to dv visi offset) bits dvs = keep_rows (deleted_rows dvs) offset bits"
proof (induction dvs arbitrary: bits)
  case Nil
  then show ?case by (induction bits arbitrary: offset) (auto simp: deleted_rows_def keep_rows_Cons)
next
  case (Cons dv dvs)
  then show ?case by (simp add: apply_to_keep keep_rows_keep_rows deleted_rows_def Un_commute)
qed

section \<open>Row handles: lemmas\<close>

lemma bit_row_handler:
  "bit (row_handler_as_i64 h) n \<longleftrightarrow> (if n < 32 then bit (snd h) n else n < 64 \<and> bit (fst h) (n - 32))"
  using bit_imp_le_length [of "snd h" n]
  by (auto simp: row_handler_as_i64_def bit_or_iff bit_push_bit_iff bit_unsigned_iff dest: bit_imp_le_length)

lemma bit_31_iff: "bit (w :: u32) 31 \<longleftrightarrow> 2 ^ 31 \<le> unat w"
proof -
  have "unat w < 2 * 2 ^ 31" using unsigned_less [of w, where 'a = nat] by simp
  then have "unat w div 2 ^ 31 < 2" by (simp add: less_mult_imp_div_less)
  then have "odd (unat w div 2 ^ 31) \<longleftrightarrow> unat w div 2 ^ 31 \<noteq> 0"
    by (cases "unat w div 2 ^ 31") (auto simp: less_2_cases_iff)
  also have "\<dots> \<longleftrightarrow> 2 ^ 31 \<le> unat w" by (simp add: div_eq_0_iff not_less)
  finally show ?thesis using bit_unsigned_iff [of w 31, where 'a = nat] by (simp add: bit_iff_odd)
qed

lemma row_handler_sign: "0 \<le>s row_handler_as_i64 h \<longleftrightarrow> unat (fst h) < 2 ^ 31"
proof -
  have "0 \<le>s row_handler_as_i64 h \<longleftrightarrow> \<not> bit (row_handler_as_i64 h) 63"
    using bit_last_iff [of "row_handler_as_i64 h"] by (auto simp: word_sle_eq)
  then show ?thesis by (simp add: bit_row_handler bit_31_iff not_le)
qed

lemma row_handler_from_as:
  assumes "unat (fst h) < 2 ^ 31"
  shows "row_handler_from_i64 (row_handler_as_i64 h) = Some h"
proof -
  have hi: "ucast (signed_drop_bit 32 (row_handler_as_i64 h)) = fst h"
    by (rule bit_word_eqI) (simp add: bit_unsigned_iff bit_signed_drop_bit_iff bit_row_handler)
  have m: "push_bit 32 1 - 1 = (semiring_bit_operations_class.mask 32 :: u64)"
    by (simp add: mask_eq_exp_minus_1)
  have lo: "ucast (and (row_handler_as_i64 h) (push_bit 32 1 - 1)) = snd h"
    unfolding m by (rule bit_word_eqI) (simp add: bit_unsigned_iff bit_and_iff bit_mask_iff bit_row_handler)
  show ?thesis using assms by (simp only: row_handler_from_i64_def row_handler_sign hi lo if_True prod.collapse)
qed

section \<open>The rows a scan shows\<close>

definition visible :: "nat set \<Rightarrow> nat \<Rightarrow> nat \<Rightarrow> 'r list \<Rightarrow> 'r list" where
  "visible D p q rows = map ((!) rows) (filter (\<lambda>i. i \<notin> D) [p ..< q])"

lemma visible_split: "p \<le> q \<Longrightarrow> q \<le> r \<Longrightarrow> visible D p r rows = visible D p q rows @ visible D q r rows"
  unfolding visible_def by (metis filter_append map_append le_Suc_ex upt_add_eq_append add.assoc)

lemma visible_empty: "p \<ge> q \<Longrightarrow> visible D p q rows = []"
  by (simp add: visible_def)

lemma visible_deleted: "(\<forall>i. p \<le> i \<and> i < q \<longrightarrow> i \<in> D) \<Longrightarrow> visible D p q rows = []"
  by (auto simp: visible_def filter_empty_conv)

lemma visible_all: "q \<le> length rows \<Longrightarrow> p \<le> q \<Longrightarrow> visible {} p q rows = take (q - p) (drop p rows)"
  by (auto simp: visible_def intro: nth_equalityI)

lemma select_keep_rows:
  "p + x \<le> length rows \<Longrightarrow>
   select (keep_rows D p (replicate x True)) (take x (drop p rows)) = visible D p (p + x) rows"
proof (induction x arbitrary: p)
  case (Suc x)
  then have "take (Suc x) (drop p rows) = rows ! p # take x (drop (Suc p) rows)"
    by (simp add: Cons_nth_drop_Suc [symmetric])
  moreover have "visible D p (p + Suc x) rows = (if p \<in> D then [] else [rows ! p]) @ visible D (Suc p) (Suc p + x) rows"
    by (simp add: visible_def upt_conv_Cons del: upt_Suc)
  ultimately show ?case using Suc by (simp add: keep_rows_Cons)
qed (simp add: visible_def)

lemma keep_rows_True: "keep_rows D p (replicate x True) = map (\<lambda>i. i \<notin> D) [p ..< p + x]"
  by (rule nth_equalityI) (simp_all add: keep_rows_def)

lemma keep_rows_any: "list_ex id (keep_rows D p (replicate x True)) \<longleftrightarrow> (\<exists>i. p \<le> i \<and> i < p + x \<and> i \<notin> D)"
  unfolding keep_rows_True by (auto simp: list_ex_iff)

text \<open>A chunk that \<open>construct\<close> built from proper arrays.\<close>

definition sc_wf :: "'v storage_chunk \<Rightarrow> bool" where
  "sc_wf c \<longleftrightarrow> sc_construct (sc_visibility c) (sc_arrays c) = Some (Some c) \<and> (\<forall>a \<in> set (sc_arrays c). pa_wf a)"

lemma chunk_of_columns:
  assumes arrs: "list_all2 (\<lambda>rows a. pa_wf a \<and> pa_items a = take x (drop p rows)) cols arrs"
    and cols: "cols \<noteq> []" "\<forall>rows\<in>set cols. length rows = n" "p + x \<le> n" and x: "0 < x"
    and vis: "vis = Some (keep_rows D p (replicate x True)) \<or> vis = None \<and> D = {}"
    and any: "\<exists>i. p \<le> i \<and> i < p + x \<and> i \<notin> D"
  shows "\<exists>chunk arrs'. sc_construct vis arrs = Some (Some chunk) \<and> sc_wf chunk \<and> to_data_chunk chunk = Some arrs'
    \<and> list_all2 (\<lambda>rows a. pa_wf a \<and> pa_items a = visible D p (p + x) rows) cols arrs'"
proof -
  have len: "pa_len a = x" "pa_wf a" if "a \<in> set arrs" for a
  proof -
    from that arrs obtain rows where r: "rows \<in> set cols" "pa_wf a" "pa_items a = take x (drop p rows)"
      unfolding list_all2_conv_all_nth in_set_conv_nth by metis
    with cols(2,3) length_pa_items [of a] show "pa_len a = x" "pa_wf a" by auto
  qed
  have ne: "arrs \<noteq> []" using arrs cols(1) by auto
  then have first: "index_at arrs 0 = Some (arrs ! 0)" "pa_len (arrs ! 0) = x"
    using len(1) [of "arrs ! 0"] by (auto simp: index_at_def)
  define chunk where "chunk = \<lparr>sc_visibility = vis, sc_arrays = arrs,
    sc_cardinality = (case vis of Some v \<Rightarrow> length (filter id v) | None \<Rightarrow> x)\<rparr>"
  have "filter id (keep_rows D p (replicate x True)) \<noteq> []"
    using any keep_rows_any [of D p x] by (auto simp: filter_empty_conv list_ex_iff)
  then have con: "sc_construct vis arrs = Some (Some chunk)"
    using vis ne first len x by (auto simp: sc_construct_def chunk_def rust_assert_def)
  then have wf: "sc_wf chunk" using len(2) by (simp add: sc_wf_def chunk_def)
  show ?thesis
  proof (cases vis)
    case None
    with vis have "D = {}" by simp
    moreover have "to_data_chunk chunk = Some arrs" using None by (simp add: to_data_chunk_def chunk_def)
    moreover have "list_all2 (\<lambda>rows a. pa_wf a \<and> pa_items a = visible {} p (p + x) rows) cols arrs"
      using arrs cols(2,3) by (auto simp: list_all2_conv_all_nth visible_all)
    ultimately show ?thesis using con wf by blast
  next
    case (Some v)
    with vis have v: "v = keep_rows D p (replicate x True)" by auto
    have "\<exists>a'. pa_filter v a = Some a' \<and> pa_wf a' \<and> pa_items a' = select v (pa_items a)" if "a \<in> set arrs" for a
      using pa_filter_spec [of a v] len [OF that] v by simp
    then obtain f where f: "\<And>a. a \<in> set arrs \<Longrightarrow> pa_filter v a = Some (f a) \<and> pa_wf (f a) \<and> pa_items (f a) = select v (pa_items a)"
      by metis
    have "to_data_chunk chunk = Some (map f arrs)"
      using Some f by (simp add: to_data_chunk_def chunk_def those_map_Some)
    moreover have "list_all2 (\<lambda>rows a. pa_wf a \<and> pa_items a = visible D p (p + x) rows) cols (map f arrs)"
      using arrs f cols(2,3) by (auto simp: list_all2_conv_all_nth v select_keep_rows)
    ultimately show ?thesis using con wf by blast
  qed
qed

section \<open>What the row-set iterator relies on\<close>

locale column_cursor =
  fixes C :: "('c, 'v) column_ops" and stands_at :: "'v option list \<Rightarrow> 'c \<Rightarrow> nat \<Rightarrow> bool"
  assumes cursor_hint: "stands_at rows c p \<Longrightarrow>
      \<exists>h fin. cop_fetch_hint C c = Some (h, fin) \<and> (h = 0 \<longleftrightarrow> p = length rows) \<and> p + h \<le> length rows"
    and cursor_next: "stands_at rows c p \<Longrightarrow> 0 < x \<Longrightarrow> p < length rows \<Longrightarrow> cop_fetch_hint C c = Some (h, fin) \<Longrightarrow> x \<le> h \<Longrightarrow>
      \<exists>arr c'. cop_next_batch C (Some x) c = Some (Inr (Some (p, arr), c')) \<and> stands_at rows c' (p + x)
        \<and> pa_wf arr \<and> pa_items arr = take x (drop p rows)"
    and cursor_end: "stands_at rows c (length rows) \<Longrightarrow> 0 < x \<Longrightarrow> \<exists>c'. cop_next_batch C (Some x) c = Some (Inr (None, c'))"
    and cursor_row_id: "stands_at rows c p \<Longrightarrow> cop_fetch_current_row_id C c = p"
    and cursor_skip: "stands_at rows c p \<Longrightarrow> p + k \<le> length rows \<Longrightarrow> \<exists>c'. cop_skip C k c = Some c' \<and> stands_at rows c' (p + k)"
begin

abbreviation all_at :: "'v option list list \<Rightarrow> 'c list \<Rightarrow> nat \<Rightarrow> bool" where
  "all_at cols its p \<equiv> list_all2 (\<lambda>rows c. stands_at rows c p) cols its"

lemma min_fetch_hint_spec:
  assumes "all_at cols its p" and "\<forall>rows\<in>set cols. length rows = n" and "\<forall>v. acc = Some v \<longrightarrow> 0 < v"
  shows "\<exists>r f. min_fetch_hint C its acc fin = Some (r, f)
    \<and> (p = n \<longrightarrow> r = acc)
    \<and> (p < n \<and> (its \<noteq> [] \<or> acc \<noteq> None) \<longrightarrow> (\<exists>m. r = Some m \<and> 0 < m \<and> (\<forall>v. acc = Some v \<longrightarrow> m \<le> v)
        \<and> (\<forall>c\<in>set its. \<forall>h f. cop_fetch_hint C c = Some (h, f) \<longrightarrow> m \<le> h)))"
  using assms
proof (induction cols its arbitrary: acc fin rule: list_all2_induct)
  case Nil
  then show ?case by auto
next
  case (Cons rows cols c its)
  from cursor_hint [OF Cons.hyps(1)] obtain h f where
    h: "cop_fetch_hint C c = Some (h, f)" "h = 0 \<longleftrightarrow> p = length rows" "p + h \<le> length rows" by blast
  define acc' where "acc' = (if h \<noteq> 0 then Some (case acc of Some v \<Rightarrow> min v h | None \<Rightarrow> h) else acc)"
  have "\<forall>v. acc' = Some v \<longrightarrow> 0 < v" using Cons.prems(2) by (auto simp: acc'_def split: option.splits)
  with Cons.IH [of acc' "fin \<and> f"] Cons.prems(1) obtain r g where
    r: "min_fetch_hint C its acc' (fin \<and> f) = Some (r, g)" "p = n \<longrightarrow> r = acc'"
      "p < n \<and> (its \<noteq> [] \<or> acc' \<noteq> None) \<longrightarrow> (\<exists>m. r = Some m \<and> 0 < m \<and> (\<forall>v. acc' = Some v \<longrightarrow> m \<le> v)
        \<and> (\<forall>c\<in>set its. \<forall>h f. cop_fetch_hint C c = Some (h, f) \<longrightarrow> m \<le> h))" by auto
  have eq: "min_fetch_hint C (c # its) acc fin = Some (r, g)" using h(1) r(1) by (simp add: acc'_def)
  have len: "length rows = n" using Cons.prems(1) by simp
  show ?case
  proof (cases "p < n")
    case True
    then have "h \<noteq> 0" using h(2) len by auto
    then have "acc' \<noteq> None" "\<exists>v'. acc' = Some v' \<and> v' \<le> h \<and> (\<forall>v. acc = Some v \<longrightarrow> v' \<le> v)"
      by (auto simp: acc'_def split: option.splits)
    with r(3) True obtain m where "r = Some m" "0 < m" "m \<le> h" "\<forall>v. acc = Some v \<longrightarrow> m \<le> v"
        "\<forall>c\<in>set its. \<forall>h f. cop_fetch_hint C c = Some (h, f) \<longrightarrow> m \<le> h"
      by (metis le_trans)
    with eq h(1) True show ?thesis by auto
  next
    case False
    then have "p = n" "h = 0" using h(2,3) len by auto
    with eq r(2) show ?thesis by (simp add: acc'_def del: min_fetch_hint.simps)
  qed
qed

lemma fetch_all:
  assumes "all_at cols its p" and "\<forall>rows\<in>set cols. length rows = n" and "0 < x" and "p + x \<le> n" and "n < 2 ^ 32"
    and "\<forall>c\<in>set its. \<forall>h f. cop_fetch_hint C c = Some (h, f) \<longrightarrow> x \<le> h"
    and "common = None \<or> common = Some (p, p + x)"
  shows "\<exists>arrs its'. rsi_fetch lt C x None cid common vis fin its = Some (Inr (Some (arrs, vis, fin), its'))
    \<and> list_all2 (\<lambda>rows a. pa_wf a \<and> pa_items a = take x (drop p rows)) cols arrs \<and> all_at cols its' (p + x)"
  using assms
proof (induction cols its arbitrary: cid common rule: list_all2_induct)
  case Nil
  then show ?case by simp
next
  case (Cons rows cols c its)
  from cursor_hint [OF Cons.hyps(1)] obtain h f where h: "cop_fetch_hint C c = Some (h, f)" by blast
  have len: "length rows = n" "p < length rows" using Cons.prems(1,2,3) by auto
  have "x \<le> h" using Cons.prems(5) h by simp
  from cursor_next [OF Cons.hyps(1) Cons.prems(2) len(2) h this] obtain arr c' where
    nx: "cop_next_batch C (Some x) c = Some (Inr (Some (p, arr), c'))" "stands_at rows c' (p + x)"
      "pa_wf arr" "pa_items arr = take x (drop p rows)" by blast
  have alen: "pa_len arr = x" using length_pa_items [OF nx(3)] nx(4) len Cons.prems(3) by simp
  have hi: "checked_add32 p (as_u32 (pa_len arr)) = Some (p + x)"
    using alen Cons.prems(3,4) by (simp add: checked_add32_def)
  define common' where "common' = (case common of Some rng \<Rightarrow> Some rng | None \<Rightarrow> Some (p, p + x))"
  have "common' = Some (p, p + x)" using Cons.prems(6) by (auto simp: common'_def)
  with Cons.IH [of common' "Suc cid"] Cons.prems obtain arrs its' where
    rest: "rsi_fetch lt C x None (Suc cid) common' vis fin its = Some (Inr (Some (arrs, vis, fin), its'))"
      "list_all2 (\<lambda>rows a. pa_wf a \<and> pa_items a = take x (drop p rows)) cols arrs" "all_at cols its' (p + x)" by auto
  have "rust_assert (case common of Some rng \<Rightarrow> rng = (p, p + x) | None \<Rightarrow> True) = Some ()"
    using Cons.prems(6) by (auto simp: rust_assert_def)
  with nx(1) hi rest(1) have
    "rsi_fetch lt C x None cid common vis fin (c # its) = Some (Inr (Some (arr # arrs, vis, fin), c' # its'))"
    by (cases "cid = 0") (simp_all add: apply_range_def common'_def)
  with nx rest show ?case by auto
qed

lemma fetch_end:
  assumes "all_at cols its n" and "its \<noteq> []" and "\<forall>rows\<in>set cols. length rows = n" and "0 < x"
  shows "\<exists>its'. rsi_fetch lt C x filt cid common vis fin its = Some (Inr (None, its'))"
proof -
  from assms(1,2) obtain rows cols' c its' where "cols = rows # cols'" "its = c # its'" "stands_at rows c n"
    by (cases its; cases cols) auto
  with cursor_end [of rows c x] assms(3,4) show ?thesis by auto
qed

lemma skip_all:
  assumes "all_at cols its p" and "\<forall>rows\<in>set cols. length rows = n" and "p + k \<le> n"
  shows "\<exists>its'. skip_columns C k its = Some its' \<and> all_at cols its' (p + k)"
  using assms
proof (induction cols its rule: list_all2_induct)
  case (Cons rows cols c its)
  with cursor_skip [of rows c p k] show ?case by fastforce
qed simp

text \<open>The scan without a range filter, over columns of equal length whose delete vectors name their rows.\<close>

definition rsi_ok :: "'v option list list \<Rightarrow> nat \<Rightarrow> ('c, 'v) rowset_iter \<Rightarrow> nat \<Rightarrow> bool" where
  "rsi_ok cols n s p \<longleftrightarrow> all_at cols (rsi_column_iterators s) p \<and> cols \<noteq> [] \<and> (\<forall>rows\<in>set cols. length rows = n)
     \<and> rsi_filter s = None \<and> \<not> rsi_end s \<and> (\<forall>dv\<in>set (rsi_dvs s). dv_wf dv) \<and> (\<forall>d\<in>deleted_rows (rsi_dvs s). d < n)
     \<and> n + ROWSET_MAX_OUTPUT \<le> 2 ^ 32 \<and> p \<le> n"

lemma rsi_visibility:
  assumes "rsi_ok cols n s p" and "p + x \<le> 2 ^ 32"
  shows "(if rsi_dvs s = [] then Some None
      else do {
        it \<leftarrow> index_at (rsi_column_iterators s) 0;
        let start_row_id = cop_fetch_current_row_id C it;
        Some (Some (foldl (\<lambda>visi dv. apply_to dv visi start_row_id) (replicate x True) (rsi_dvs s))) })
    = Some (if rsi_dvs s = [] then None else Some (keep_rows (deleted_rows (rsi_dvs s)) p (replicate x True)))"
proof -
  from assms(1) obtain rows cols' c its where "cols = rows # cols'" "rsi_column_iterators s = c # its" "stands_at rows c p"
    by (cases cols; cases "rsi_column_iterators s") (auto simp: rsi_ok_def)
  then have "index_at (rsi_column_iterators s) 0 = Some c" "cop_fetch_current_row_id C c = p"
    using cursor_row_id by (auto simp: index_at_def)
  with assms show ?thesis by (simp add: apply_all_keep rsi_ok_def)
qed

lemma next_inner_end:
  assumes ok: "rsi_ok cols n s n" and e: "e \<noteq> Some 0"
  shows "\<exists>s'. rsi_next_batch_inner lt C e s = Some (Inr (None, s')) \<and> rsi_end s'"
proof -
  have at: "all_at cols (rsi_column_iterators s) n" "\<forall>rows\<in>set cols. length rows = n" "rsi_column_iterators s \<noteq> []"
    using ok by (auto simp: rsi_ok_def)
  from min_fetch_hint_spec [OF at(1,2), of None True] obtain f where
    m: "min_fetch_hint C (rsi_column_iterators s) None True = Some (None, f)" by auto
  show ?thesis
  proof (cases f)
    case True
    with m ok show ?thesis by (simp add: rsi_next_batch_inner_def rsi_fetch_size_def rsi_ok_def)
  next
    case False
    define x where "x = (case e of Some x \<Rightarrow> if x > ROWSET_MAX_OUTPUT then ROWSET_MAX_OUTPUT else x | None \<Rightarrow> ROWSET_MAX_OUTPUT)"
    have x: "0 < x" "x \<le> ROWSET_MAX_OUTPUT" using e by (auto simp: x_def ROWSET_MAX_OUTPUT_def split: option.splits)
    have size: "rsi_fetch_size C e (rsi_column_iterators s) = Some (Some x)"
      using m False by (simp add: rsi_fetch_size_def x_def)
    have "list_ex id (keep_rows (deleted_rows (rsi_dvs s)) n (replicate x True))"
      unfolding keep_rows_any using ok x by (intro exI [of _ n]) (auto simp: rsi_ok_def)
    moreover define vis where "vis = (if rsi_dvs s = [] then None
      else Some (keep_rows (deleted_rows (rsi_dvs s)) n (replicate x True)))"
    moreover obtain its' where "rsi_fetch lt C x None 0 None vis False (rsi_column_iterators s) = Some (Inr (None, its'))"
      using fetch_end [OF at(1,3,2) x(1)] by blast
    moreover have "n + x \<le> 2 ^ 32" using ok x by (simp add: rsi_ok_def)
    ultimately show ?thesis
      using size rsi_visibility [OF ok, of x] ok
      by (simp add: rsi_next_batch_inner_def rsi_ok_def split: if_splits)
  qed
qed

lemma next_inner_rows:
  assumes ok: "rsi_ok cols n s p" and p: "p < n" and e: "e \<noteq> Some 0"
  shows "\<exists>x s'. 0 < x \<and> p + x \<le> n \<and> (\<forall>k. e = Some k \<longrightarrow> x \<le> k) \<and> rsi_ok cols n s' (p + x) \<and> rsi_dvs s' = rsi_dvs s
    \<and> (if \<exists>i. p \<le> i \<and> i < p + x \<and> i \<notin> deleted_rows (rsi_dvs s)
       then \<exists>chunk arrs. rsi_next_batch_inner lt C e s = Some (Inr (Some chunk, s')) \<and> sc_wf chunk \<and> to_data_chunk chunk = Some arrs
         \<and> list_all2 (\<lambda>rows a. pa_wf a \<and> pa_items a = visible (deleted_rows (rsi_dvs s)) p (p + x) rows) cols arrs
       else rsi_next_batch_inner lt C e s = Some (Inr (None, s')))"
proof -
  define D where "D = deleted_rows (rsi_dvs s)"
  have at: "all_at cols (rsi_column_iterators s) p" "\<forall>rows\<in>set cols. length rows = n" "rsi_column_iterators s \<noteq> []" "cols \<noteq> []"
    and n: "n < 2 ^ 32"
    using ok by (auto simp: rsi_ok_def ROWSET_MAX_OUTPUT_def)
  from min_fetch_hint_spec [OF at(1,2), of None True] p at(3) obtain m f where
    m: "min_fetch_hint C (rsi_column_iterators s) None True = Some (Some m, f)" "0 < m"
      "\<forall>c\<in>set (rsi_column_iterators s). \<forall>h f. cop_fetch_hint C c = Some (h, f) \<longrightarrow> m \<le> h" by auto
  define x where "x = (case e of Some x \<Rightarrow> min x (min m ROWSET_MAX_OUTPUT) | None \<Rightarrow> min m ROWSET_MAX_OUTPUT)"
  have x: "0 < x" "x \<le> m" "\<forall>k. e = Some k \<longrightarrow> x \<le> k" using e m(2) by (auto simp: x_def ROWSET_MAX_OUTPUT_def split: option.splits)
  have size: "rsi_fetch_size C e (rsi_column_iterators s) = Some (Some x)"
    using m(1) by (auto simp: rsi_fetch_size_def x_def min_def split: option.splits)
  have hints: "\<forall>c\<in>set (rsi_column_iterators s). \<forall>h f. cop_fetch_hint C c = Some (h, f) \<longrightarrow> x \<le> h"
    using m(3) x(2) le_trans by blast
  have px: "p + x \<le> n"
  proof -
    obtain rows cols' c its where "cols = rows # cols'" "rsi_column_iterators s = c # its" "stands_at rows c p"
      using at(1,4) by (cases cols; cases "rsi_column_iterators s") auto
    with cursor_hint [of rows c p] hints at(2) show ?thesis by fastforce
  qed
  define vis where "vis = (if rsi_dvs s = [] then None else Some (keep_rows D p (replicate x True)))"
  note visi = rsi_visibility [OF ok, of x, folded D_def]
  have D0: "rsi_dvs s = [] \<Longrightarrow> D = {}" by (simp add: D_def deleted_rows_def)
  show ?thesis
  proof (cases "\<exists>i. p \<le> i \<and> i < p + x \<and> i \<notin> D")
    case True
    from fetch_all [OF at(1,2) x(1) px n hints, of None] obtain arrs its' where
      f: "rsi_fetch lt C x None 0 None vis False (rsi_column_iterators s) = Some (Inr (Some (arrs, vis, False), its'))"
        "list_all2 (\<lambda>rows a. pa_wf a \<and> pa_items a = take x (drop p rows)) cols arrs" "all_at cols its' (p + x)" by blast
    have "vis = Some (keep_rows D p (replicate x True)) \<or> vis = None \<and> D = {}" using D0 by (auto simp: vis_def)
    from chunk_of_columns [OF f(2) at(4,2) px x(1) this True] obtain chunk arrs' where
      c: "sc_construct vis arrs = Some (Some chunk)" "sc_wf chunk" "to_data_chunk chunk = Some arrs'"
        "list_all2 (\<lambda>rows a. pa_wf a \<and> pa_items a = visible D p (p + x) rows) cols arrs'" by blast
    define s' where "s' = s\<lparr>rsi_column_iterators := its', rsi_end := False\<rparr>"
    have some: "list_ex id (keep_rows D p (replicate x True))" using True keep_rows_any by blast
    have "rsi_next_batch_inner lt C e s = Some (Inr (Some chunk, s'))"
      using size visi n px f(1) c(1) ok some
      by (simp add: rsi_next_batch_inner_def rsi_ok_def vis_def s'_def split: if_splits)
    moreover have "rsi_ok cols n s' (p + x)" using ok f(3) px by (simp add: rsi_ok_def s'_def)
    ultimately show ?thesis using x px c(2,3,4) True
      by - (rule exI [of _ x], rule exI [of _ s'], simp add: D_def s'_def)
  next
    case False
    then have "p \<in> D" using x(1) by auto
    then have ne: "rsi_dvs s \<noteq> []" using D0 by auto
    have none: "\<not> list_ex id (keep_rows D p (replicate x True))" using False keep_rows_any by blast
    from skip_all [OF at(1,2) px] obtain its' where
      k: "skip_columns C x (rsi_column_iterators s) = Some its'" "all_at cols its' (p + x)" by blast
    define s' where "s' = s\<lparr>rsi_column_iterators := its'\<rparr>"
    have "rsi_next_batch_inner lt C e s = Some (Inr (None, s'))"
      using size visi n px k(1) ok none ne by (simp add: rsi_next_batch_inner_def rsi_ok_def s'_def)
    moreover have "rsi_ok cols n s' (p + x)" using ok k(2) px by (simp add: rsi_ok_def s'_def)
    ultimately show ?thesis using x px False
      by - (rule exI [of _ x], rule exI [of _ s'], simp add: D_def s'_def)
  qed
qed

lemma next_batch_rows:
  assumes "rsi_ok cols n s p" and e: "e \<noteq> Some 0"
  shows "(\<exists>chunk arrs q s'. rsi_next_batch lt C e s = Some (Inr (Some chunk, s')) \<and> sc_wf chunk \<and> to_data_chunk chunk = Some arrs
      \<and> p < q \<and> q \<le> n \<and> rsi_ok cols n s' q \<and> rsi_dvs s' = rsi_dvs s
      \<and> list_all2 (\<lambda>rows a. pa_wf a \<and> pa_items a = visible (deleted_rows (rsi_dvs s)) p q rows) cols arrs)
    \<or> (\<exists>s'. rsi_next_batch lt C e s = Some (Inr (None, s')) \<and> rsi_end s' \<and> (\<forall>i. p \<le> i \<and> i < n \<longrightarrow> i \<in> deleted_rows (rsi_dvs s)))"
  using assms
proof (induction "n - p" arbitrary: s p rule: less_induct)
  case less
  note ok = less.prems(1) and e = less.prems(2)
  define D where "D = deleted_rows (rsi_dvs s)"
  have live: "\<not> rsi_end s" and pn: "p \<le> n" using ok by (auto simp: rsi_ok_def)
  show ?case
  proof (cases "p = n")
    case True
    with next_inner_end [of cols n s e lt] ok e obtain s' where
      "rsi_next_batch_inner lt C e s = Some (Inr (None, s'))" "rsi_end s'" by blast
    moreover have "rsi_next_batch lt C e s' = Some (Inr (None, s'))"
      by (subst rsi_next_batch.simps) (simp add: \<open>rsi_end s'\<close>)
    ultimately have "rsi_next_batch lt C e s = Some (Inr (None, s'))"
      using live by (subst rsi_next_batch.simps) simp
    with \<open>rsi_end s'\<close> True show ?thesis by auto
  next
    case False
    then have "p < n" using pn by simp
    from next_inner_rows [OF ok this e, of lt] obtain x s' where
      x: "0 < x" "p + x \<le> n" "rsi_ok cols n s' (p + x)" "rsi_dvs s' = rsi_dvs s"
      and r: "if \<exists>i. p \<le> i \<and> i < p + x \<and> i \<notin> deleted_rows (rsi_dvs s)
       then \<exists>chunk arrs. rsi_next_batch_inner lt C e s = Some (Inr (Some chunk, s')) \<and> sc_wf chunk \<and> to_data_chunk chunk = Some arrs
         \<and> list_all2 (\<lambda>rows a. pa_wf a \<and> pa_items a = visible (deleted_rows (rsi_dvs s)) p (p + x) rows) cols arrs
       else rsi_next_batch_inner lt C e s = Some (Inr (None, s'))" by blast
    show ?thesis
    proof (cases "\<exists>i. p \<le> i \<and> i < p + x \<and> i \<notin> D")
      case True
      with r obtain chunk arrs where c: "rsi_next_batch_inner lt C e s = Some (Inr (Some chunk, s'))" "sc_wf chunk" "to_data_chunk chunk = Some arrs"
         "list_all2 (\<lambda>rows a. pa_wf a \<and> pa_items a = visible D p (p + x) rows) cols arrs"
        by (auto simp: D_def)
      then have "rsi_next_batch lt C e s = Some (Inr (Some chunk, s'))"
        using live by (subst rsi_next_batch.simps) simp
      moreover have "p < p + x" using x by simp
      ultimately show ?thesis using c x unfolding D_def by blast
    next
      case none: False
      with r have "rsi_next_batch_inner lt C e s = Some (Inr (None, s'))" by (simp add: D_def)
      then have eq: "rsi_next_batch lt C e s = rsi_next_batch lt C e s'"
        using live by (subst rsi_next_batch.simps) simp
      have skip: "visible D p q rows = visible D (p + x) q rows" if "p + x \<le> q" for q and rows :: "'v option list"
        using visible_split [of p "p + x" q D rows] visible_deleted [of p "p + x" D rows] none that by auto
      have lt: "n - (p + x) < n - p" using x \<open>p < n\<close> by simp
      from less.hyps [OF lt x(3) e] x(4) none show ?thesis
      proof (elim disjE exE conjE)
        fix chunk arrs q s2
        assume a: "rsi_next_batch lt C e s' = Some (Inr (Some chunk, s2))" "sc_wf chunk" "to_data_chunk chunk = Some arrs" "p + x < q" "q \<le> n"
          "rsi_ok cols n s2 q" "rsi_dvs s2 = rsi_dvs s'"
          "list_all2 (\<lambda>rows a. pa_wf a \<and> pa_items a = visible (deleted_rows (rsi_dvs s')) (p + x) q rows) cols arrs"
        have "list_all2 (\<lambda>rows a. pa_wf a \<and> pa_items a = visible D p q rows) cols arrs"
          using a(4,8) skip [of q] x(4) by (simp add: D_def)
        moreover have "p < q" using a(4) by simp
        ultimately show ?thesis using a eq x(4) unfolding D_def
          by - (rule disjI1, rule exI [of _ chunk], rule exI [of _ arrs], rule exI [of _ q], rule exI [of _ s2], simp)
      next
        fix s2
        assume "rsi_next_batch lt C e s' = Some (Inr (None, s2))" "rsi_end s2" "\<forall>i. p + x \<le> i \<and> i < n \<longrightarrow> i \<in> deleted_rows (rsi_dvs s')"
        moreover from this have "\<forall>i. p \<le> i \<and> i < n \<longrightarrow> i \<in> D" using none x(4) by (metis D_def not_le)
        ultimately show ?thesis using eq unfolding D_def by auto
      qed
    qed
  qed
qed

lemma scan_rows:
  assumes "rsi_ok cols n s p" and "e \<noteq> Some 0" and "n - p < fuel" and "length acc = length cols"
  shows "rsi_scan fuel lt C e s acc = Some (Inr (map2 (\<lambda>a rows. a @ visible (deleted_rows (rsi_dvs s)) p n rows) acc cols))"
  using assms
proof (induction fuel arbitrary: s p acc)
  case (Suc fuel)
  define D where "D = deleted_rows (rsi_dvs s)"
  have pn: "p \<le> n" using Suc.prems(1) by (simp add: rsi_ok_def)
  from next_batch_rows [OF Suc.prems(1,2), of lt] consider
    (rows) chunk arrs q s' where "rsi_next_batch lt C e s = Some (Inr (Some chunk, s'))" "to_data_chunk chunk = Some arrs"
      "p < q" "q \<le> n" "rsi_ok cols n s' q" "rsi_dvs s' = rsi_dvs s"
      "list_all2 (\<lambda>rows a. pa_wf a \<and> pa_items a = visible D p q rows) cols arrs"
  | (stop) s' where "rsi_next_batch lt C e s = Some (Inr (None, s'))" "\<forall>i. p \<le> i \<and> i < n \<longrightarrow> i \<in> D"
    unfolding D_def by blast
  then show ?case
  proof cases
    case rows
    have len: "length arrs = length cols" using rows(7) by (simp add: list_all2_lengthD)
    have "those (map pa_to_vec arrs) = Some (map pa_items arrs)"
      using rows(7) by (intro those_map_Some) (auto simp: list_all2_conv_all_nth in_set_conv_nth pa_to_vec_eq)
    moreover have items: "map pa_items arrs = map (visible D p q) cols"
      using rows(7) len by (auto simp: list_all2_conv_all_nth intro: nth_equalityI)
    moreover have "n - q < fuel" using rows(3,4) Suc.prems(3) by linarith
    moreover have "visible D p n rows = visible D p q rows @ visible D q n rows" for rows :: "'v option list"
      using rows(3,4) by (intro visible_split) simp_all
    then have "map2 (\<lambda>a rows. a @ visible D q n rows) (map2 (@) acc (map (visible D p q) cols)) cols
        = map2 (\<lambda>a rows. a @ visible D p n rows) acc cols"
      using Suc.prems(4) by (auto intro!: nth_equalityI)
    ultimately show ?thesis
      using rows(1,2) Suc.IH [OF rows(5) Suc.prems(2), of "map2 (@) acc (map pa_items arrs)"] Suc.prems(4) rows(6)
      by (simp add: D_def)
  next
    case stop
    have "map2 (\<lambda>a rows. a @ visible D p n rows) acc cols = acc"
      using stop(2) Suc.prems(4) by (auto simp: visible_deleted intro!: nth_equalityI)
    with stop show ?thesis by (simp add: D_def)
  qed
qed simp

end

end
