(* ===== verification/Types.thy ===== *)
theory Types
  imports Prelude
begin

text \<open>
  The data types of SQL columns (\<open>types/mod.rs\<close>): the type \<open>data_type\<close> with the derived ordering of its
  declaration, \<open>union\<close> (the minimum compatible type of two types), the textual form and its parser, and the
  textual form of column indexes. Numbers are printed in decimal and parsed as \<open>str::parse\<close> does for an
  unsigned integer of a given width.
\<close>

section \<open>Decimal numerals\<close>

definition digit_char :: "nat \<Rightarrow> char" where
  "digit_char d = char_of (48 + d)"

definition digit_of :: "char \<Rightarrow> nat option" where
  "digit_of c = (let n = of_char c :: nat in if 48 \<le> n \<and> n < 58 then Some (n - 48) else None)"

fun show_nat :: "nat \<Rightarrow> string" where
  "show_nat n = (if n < 10 then [digit_char n] else show_nat (n div 10) @ [digit_char (n mod 10)])"

declare show_nat.simps [simp del]

fun digits_value :: "nat \<Rightarrow> string \<Rightarrow> nat option" where
  "digits_value acc [] = Some acc"
| "digits_value acc (c # cs) = do { d \<leftarrow> digit_of c; digits_value (acc * 10 + d) cs }"

text \<open>\<open>str::parse\<close> for an unsigned integer of \<open>w\<close> bits: an optional sign, at least one digit, no overflow.\<close>

definition parse_uint :: "nat \<Rightarrow> string \<Rightarrow> nat option" where
  "parse_uint w s = (let ds = (case s of c # cs \<Rightarrow> if c = CHR ''+'' then cs else s | [] \<Rightarrow> [])
     in if ds = [] then None else do { n \<leftarrow> digits_value 0 ds; if n < 2 ^ w then Some n else None })"

lemma digit_of_digit_char [simp]: "d < 10 \<Longrightarrow> digit_of (digit_char d) = Some d"
  by (simp add: digit_of_def digit_char_def Let_def)

lemma digits_value_append:
  "digits_value acc (xs @ ys) = do { n \<leftarrow> digits_value acc xs; digits_value n ys }"
  by (induction xs arbitrary: acc) (auto split: Option.bind_splits)

lemma digits_value_show_nat [simp]: "digits_value 0 (show_nat n) = Some n"
proof (induction n rule: show_nat.induct)
  case (1 n)
  then show ?case by (subst show_nat.simps) (auto simp: digits_value_append)
qed

definition is_digit :: "char \<Rightarrow> bool" where
  "is_digit c \<longleftrightarrow> digit_of c \<noteq> None"

lemma is_digit_digit_char [simp]: "d < 10 \<Longrightarrow> is_digit (digit_char d)"
  by (simp add: is_digit_def)

lemma show_nat_digits: "c \<in> set (show_nat n) \<Longrightarrow> is_digit c"
proof (induction n rule: show_nat.induct)
  case (1 n)
  then show ?case by (subst (asm) (2) show_nat.simps) (auto split: if_splits)
qed

lemma show_nat_nonempty [simp]: "show_nat n \<noteq> []"
  by (subst show_nat.simps) simp

lemma not_digit [simp]:
  "\<not> is_digit CHR ''+''" "\<not> is_digit CHR '',''" "\<not> is_digit CHR ''(''" "\<not> is_digit CHR '')''" "\<not> is_digit CHR '' ''"
  "\<not> is_digit CHR ''.''" "\<not> is_digit CHR ''$''" "\<not> is_digit CHR ''#''"
  by (simp_all add: is_digit_def digit_of_def Let_def)

lemma parse_show_nat [simp]: "n < 2 ^ w \<Longrightarrow> parse_uint w (show_nat n) = Some n"
proof -
  assume n: "n < 2 ^ w"
  obtain c cs where cs: "show_nat n = c # cs" by (cases "show_nat n") auto
  then have "c \<noteq> CHR ''+''" using show_nat_digits [of c n] by auto
  then have "parse_uint w (show_nat n) = do { m \<leftarrow> digits_value 0 (show_nat n); if m < 2 ^ w then Some m else None }"
    by (simp add: parse_uint_def cs)
  then show ?thesis using n by simp
qed

section \<open>Strings\<close>

definition strip_prefix :: "string \<Rightarrow> string \<Rightarrow> string option" where
  "strip_prefix p s = (if take (length p) s = p then Some (drop (length p) s) else None)"

definition trim_matches :: "(char \<Rightarrow> bool) \<Rightarrow> string \<Rightarrow> string" where
  "trim_matches p s = rev (dropWhile p (rev (dropWhile p s)))"

fun split_once :: "char \<Rightarrow> string \<Rightarrow> (string \<times> string) option" where
  "split_once sep [] = None"
| "split_once sep (c # cs) = (if c = sep then Some ([], cs) else map_option (apfst ((#) c)) (split_once sep cs))"

fun split_all :: "char \<Rightarrow> string \<Rightarrow> string list" where
  "split_all sep [] = [[]]"
| "split_all sep (c # cs) = (if c = sep then [] # split_all sep cs
     else (case split_all sep cs of p # ps \<Rightarrow> (c # p) # ps | [] \<Rightarrow> [[c]]))"

lemma strip_prefix_append [simp]: "strip_prefix p (p @ s) = Some s"
  by (simp add: strip_prefix_def)

lemma dropWhile_none: "\<forall>c\<in>set s. \<not> p c \<Longrightarrow> dropWhile p s = s"
  by (cases s) auto

lemma trim_matches_inner:
  "\<lbrakk>\<forall>c\<in>set xs. p c; \<forall>c\<in>set ys. p c; s \<noteq> []; \<not> p (hd s); \<not> p (last s)\<rbrakk> \<Longrightarrow> trim_matches p (xs @ s @ ys) = s"
proof -
  assume a: "\<forall>c\<in>set xs. p c" "\<forall>c\<in>set ys. p c" "s \<noteq> []" "\<not> p (hd s)" "\<not> p (last s)"
  have "dropWhile p (xs @ s @ ys) = s @ ys" using a(1,3,4) by (cases s) (auto simp: dropWhile_append2)
  moreover have "dropWhile p (rev ys @ rev s) = rev s"
    using a(2,3,5) by (subst dropWhile_append2) (auto simp: hd_rev intro: dropWhile_eq_self_iff [THEN iffD2])
  ultimately show ?thesis by (simp add: trim_matches_def)
qed

lemma split_once_first: "sep \<notin> set xs \<Longrightarrow> split_once sep (xs @ sep # ys) = Some (xs, ys)"
  by (induction xs) auto

lemma split_once_none: "sep \<notin> set xs \<Longrightarrow> split_once sep xs = None"
  by (induction xs) auto

lemma split_all_nonempty [simp]: "split_all sep s \<noteq> []"
  by (induction s) (auto split: list.splits)

lemma split_all_none: "sep \<notin> set xs \<Longrightarrow> split_all sep xs = [xs]"
  by (induction xs) auto

lemma split_all_first: "sep \<notin> set xs \<Longrightarrow> split_all sep (xs @ sep # ys) = xs # split_all sep ys"
  by (induction xs) auto

section \<open>Data types\<close>

datatype data_type =
    TNull | TBool | TInt16 | TInt32 | TInt64 | TFloat64
  | TDecimal "nat option" "nat option"
  | TDate | TTimestamp | TTimestampTz | TInterval | TString | TBlob
  | TStruct "data_type list"
  | TVector nat

definition is_null_type :: "data_type \<Rightarrow> bool" where
  "is_null_type t \<longleftrightarrow> (case t of TNull \<Rightarrow> True | _ \<Rightarrow> False)"

fun is_number :: "data_type \<Rightarrow> bool" where
  "is_number TInt16 = True" | "is_number TInt32 = True" | "is_number TInt64 = True"
| "is_number TFloat64 = True" | "is_number (TDecimal _ _) = True" | "is_number _ = False"

fun is_parametric_decimal :: "data_type \<Rightarrow> bool" where
  "is_parametric_decimal (TDecimal (Some _) _) = True"
| "is_parametric_decimal (TDecimal _ (Some _)) = True"
| "is_parametric_decimal _ = False"

fun as_struct :: "data_type \<Rightarrow> data_type list option" where
  "as_struct (TStruct ts) = Some ts"
| "as_struct _ = None"

subsection \<open>The derived order\<close>

fun type_rank :: "data_type \<Rightarrow> nat" where
  "type_rank TNull = 0" | "type_rank TBool = 1" | "type_rank TInt16 = 2" | "type_rank TInt32 = 3"
| "type_rank TInt64 = 4" | "type_rank TFloat64 = 5" | "type_rank (TDecimal _ _) = 6" | "type_rank TDate = 7"
| "type_rank TTimestamp = 8" | "type_rank TTimestampTz = 9" | "type_rank TInterval = 10" | "type_rank TString = 11"
| "type_rank TBlob = 12" | "type_rank (TStruct _) = 13" | "type_rank (TVector _) = 14"

fun opt_le :: "nat option \<Rightarrow> nat option \<Rightarrow> bool" where
  "opt_le None _ = True"
| "opt_le (Some _) None = False"
| "opt_le (Some a) (Some b) = (a \<le> b)"

fun ty_le :: "data_type \<Rightarrow> data_type \<Rightarrow> bool" and tys_le :: "data_type list \<Rightarrow> data_type list \<Rightarrow> bool" where
  "ty_le a b = (if type_rank a \<noteq> type_rank b then type_rank a < type_rank b else
     (case a of
        TDecimal p s \<Rightarrow> (case b of TDecimal p' s' \<Rightarrow> if p = p' then opt_le s s' else opt_le p p' | _ \<Rightarrow> True)
      | TStruct ts \<Rightarrow> (case b of TStruct us \<Rightarrow> tys_le ts us | _ \<Rightarrow> True)
      | TVector n \<Rightarrow> (case b of TVector m \<Rightarrow> n \<le> m | _ \<Rightarrow> True)
      | _ \<Rightarrow> True))"
| "tys_le [] us = True"
| "tys_le (t # ts) [] = False"
| "tys_le (t # ts) (u # us) = (if t = u then tys_le ts us else ty_le t u)"

declare ty_le.simps [simp del]

lemma type_rank_cases [consumes 1, case_names same decimal struct vec]:
  assumes "type_rank a = type_rank b"
  obtains "a = b" | p s p' s' where "a = TDecimal p s" "b = TDecimal p' s'"
    | ts us where "a = TStruct ts" "b = TStruct us" | n m where "a = TVector n" "b = TVector m"
  using assms by (cases a; cases b) simp_all

lemma ty_le_special [simp]:
  "ty_le (TDecimal p s) (TDecimal p' s') = (if p = p' then opt_le s s' else opt_le p p')"
  "ty_le (TStruct ts) (TStruct us) = tys_le ts us"
  "ty_le (TVector n) (TVector m) = (n \<le> m)"
  by (simp_all add: ty_le.simps)

lemma ty_le_rank: "type_rank a \<noteq> type_rank b \<Longrightarrow> ty_le a b \<longleftrightarrow> type_rank a < type_rank b"
  by (simp add: ty_le.simps)

lemma opt_le_order:
  "opt_le a a" "opt_le a b \<Longrightarrow> opt_le b c \<Longrightarrow> opt_le a c" "opt_le a b \<Longrightarrow> opt_le b a \<Longrightarrow> a = b" "opt_le a b \<or> opt_le b a"
  by (cases a; cases b; cases c; auto)+

lemma tys_le_refl: "tys_le ts ts"
  by (induction ts) auto

lemma ty_le_refl: "ty_le a a"
  by (cases a) (simp_all add: ty_le.simps opt_le_order tys_le_refl)

lemma ty_le_total: "ty_le a b \<or> ty_le b a" and tys_le_total: "tys_le ts us \<or> tys_le us ts"
proof (induction a b and ts us rule: ty_le_tys_le.induct)
  case (1 a b)
  show ?case
  proof (cases "type_rank a = type_rank b")
    case True
    then show ?thesis
    proof (cases rule: type_rank_cases)
      case (struct ts us)
      then show ?thesis using 1 by simp
    qed (auto simp: ty_le_refl opt_le_order(4))
  qed (auto simp: ty_le_rank)
qed auto

lemma ty_le_antisym: "ty_le a b \<Longrightarrow> ty_le b a \<Longrightarrow> a = b" and tys_le_antisym: "tys_le ts us \<Longrightarrow> tys_le us ts \<Longrightarrow> ts = us"
proof (induction a b and ts us rule: ty_le_tys_le.induct)
  case (1 a b)
  show ?case
  proof (cases "type_rank a = type_rank b")
    case True
    then show ?thesis
    proof (cases rule: type_rank_cases)
      case (decimal p s p' s')
      then show ?thesis using 1(2,3) opt_le_order(3) by (simp split: if_splits)
    next
      case (struct ts us)
      then show ?thesis using 1 by simp
    qed (use 1(2,3) in auto)
  qed (use 1(2,3) in \<open>auto simp: ty_le_rank\<close>)
next
  case (2 us)
  then show ?case by (cases us) auto
qed (auto split: if_splits)

lemma ty_le_rank_mono: "ty_le a b \<Longrightarrow> type_rank a \<le> type_rank b"
  by (cases "type_rank a = type_rank b") (auto simp: ty_le_rank)

lemma ty_le_trans: "ty_le a b \<Longrightarrow> ty_le b c \<Longrightarrow> ty_le a c"
  and tys_le_trans: "tys_le ts us \<Longrightarrow> tys_le us vs \<Longrightarrow> tys_le ts vs"
proof (induction a b and ts us arbitrary: c and vs rule: ty_le_tys_le.induct)
  case (1 a b)
  show ?case
  proof (cases "type_rank a = type_rank c")
    case True
    then have "type_rank a = type_rank b" "type_rank b = type_rank c"
      using 1(2,3) ty_le_rank_mono by (metis le_antisym)+
    note ranks = this
    show ?thesis
      using ranks(1)
    proof (cases rule: type_rank_cases)
      case (decimal p s p' s')
      moreover from this ranks(2) obtain p2 s2 where "c = TDecimal p2 s2" by (cases c) simp_all
      ultimately show ?thesis using 1(2,3) opt_le_order(2) [of s s' s2] opt_le_order(2) [of p p' p2] opt_le_order(3) [of p p']
        by (auto split: if_splits)
    next
      case (struct ts us)
      moreover from this ranks(2) obtain vs where "c = TStruct vs" by (cases c) simp_all
      ultimately show ?thesis using 1 by simp
    next
      case (vec n m)
      moreover from this ranks(2) obtain k where "c = TVector k" by (cases c) simp_all
      ultimately show ?thesis using 1(2,3) by simp
    qed (use 1(3) in simp)
  next
    case False
    have "type_rank a \<le> type_rank c" using 1(2,3) ty_le_rank_mono le_trans by blast
    then show ?thesis using False by (simp add: ty_le_rank)
  qed
next
  case (4 t ts u us)
  then obtain v ws where vs: "vs = v # ws" by (cases vs) auto
  show ?case
  proof (cases "t = u")
    case True
    then show ?thesis using 4(1) [OF True] 4(3,4) vs by (cases "u = v") simp_all
  next
    case False
    then have tu: "ty_le t u" using 4(3) by simp
    show ?thesis
    proof (cases "u = v")
      case True
      then show ?thesis using tu False vs by simp
    next
      case False
      then have uv: "ty_le u v" using 4(4) vs by simp
      then have "t \<noteq> v" using ty_le_antisym [OF tu] \<open>t \<noteq> u\<close> by blast
      then show ?thesis using 4(2) [OF \<open>t \<noteq> u\<close> tu uv] vs by simp
    qed
  qed
qed auto

instantiation data_type :: linorder
begin

definition less_eq_data_type :: "data_type \<Rightarrow> data_type \<Rightarrow> bool" where
  "less_eq_data_type = ty_le"

definition less_data_type :: "data_type \<Rightarrow> data_type \<Rightarrow> bool" where
  "less_data_type a b \<longleftrightarrow> ty_le a b \<and> a \<noteq> b"

instance
proof
  fix a b c :: data_type
  show "(a < b) = (a \<le> b \<and> \<not> b \<le> a)" using ty_le_antisym ty_le_refl by (auto simp: less_eq_data_type_def less_data_type_def)
  show "a \<le> a" by (simp add: less_eq_data_type_def ty_le_refl)
  show "a \<le> b \<Longrightarrow> b \<le> c \<Longrightarrow> a \<le> c" unfolding less_eq_data_type_def by (rule ty_le_trans)
  show "a \<le> b \<Longrightarrow> b \<le> a \<Longrightarrow> a = b" unfolding less_eq_data_type_def by (rule ty_le_antisym)
  show "a \<le> b \<or> b \<le> a" by (simp add: less_eq_data_type_def ty_le_total)
qed

end

subsection \<open>The minimum compatible type\<close>

text \<open>The table of \<open>union\<close> for an ordered pair of types that are not both structs.\<close>

fun widens :: "data_type \<Rightarrow> data_type \<Rightarrow> bool" where
  "widens TNull b = True"
| "widens TBool b = (b \<in> {TBool, TInt32, TInt64, TFloat64, TString} \<or> (case b of TDecimal _ _ \<Rightarrow> True | _ \<Rightarrow> False))"
| "widens TInt32 b = (b \<in> {TInt32, TInt64, TFloat64, TString} \<or> (case b of TDecimal _ _ \<Rightarrow> True | _ \<Rightarrow> False))"
| "widens TInt64 b = (b \<in> {TInt64, TFloat64, TString} \<or> (case b of TDecimal _ _ \<Rightarrow> True | _ \<Rightarrow> False))"
| "widens TFloat64 b = (b \<in> {TFloat64, TString} \<or> (case b of TDecimal _ _ \<Rightarrow> True | _ \<Rightarrow> False))"
| "widens (TDecimal _ _) b = (b = TString \<or> (case b of TDecimal _ _ \<Rightarrow> True | _ \<Rightarrow> False))"
| "widens TDate b = (b \<in> {TDate, TString})"
| "widens TInterval b = (b \<in> {TInterval, TString})"
| "widens TString b = (b \<in> {TString, TBlob})"
| "widens TBlob b = (b = TBlob)"
| "widens _ b = False"

function ty_union :: "data_type \<Rightarrow> data_type \<Rightarrow> data_type option"
  and tys_union :: "data_type list \<Rightarrow> data_type list \<Rightarrow> data_type list option" where
  "ty_union x y =
     (if x \<le> y then (case (x, y) of (TStruct ts, TStruct us) \<Rightarrow> if length ts = length us then map_option TStruct (tys_union ts us) else None
                     | _ \<Rightarrow> if widens x y then Some y else None)
      else (case (y, x) of (TStruct ts, TStruct us) \<Rightarrow> if length ts = length us then map_option TStruct (tys_union ts us) else None
                     | _ \<Rightarrow> if widens y x then Some x else None))"
| "tys_union (t # ts) (u # us) = do { v \<leftarrow> ty_union t u; vs \<leftarrow> tys_union ts us; Some (v # vs) }"
| "tys_union [] us = Some []"
| "tys_union (t # ts) [] = Some []"
  by pat_completeness auto
termination
  by (relation "measure (\<lambda>z. case z of Inl (x, y) \<Rightarrow> size x + size y | Inr (ts, us) \<Rightarrow> size_list size ts + size_list size us)") auto

declare ty_union.simps [simp del]

lemma ty_union_le: "x \<le> y \<Longrightarrow> ty_union x y = (case (x, y) of
     (TStruct ts, TStruct us) \<Rightarrow> if length ts = length us then map_option TStruct (tys_union ts us) else None
   | _ \<Rightarrow> if widens x y then Some y else None)"
  by (simp add: ty_union.simps)

lemma ty_union_comm: "ty_union x y = ty_union y x"
proof (cases "x = y")
  case False
  then show ?thesis using linear [of x y] by (auto simp: ty_union.simps [of x y] ty_union.simps [of y x] dest: antisym)
qed simp

text \<open>The types that \<open>union\<close> does not list: they are not even compatible with themselves.\<close>

fun listed :: "data_type \<Rightarrow> bool" where
  "listed TInt16 = False" | "listed TTimestamp = False" | "listed TTimestampTz = False" | "listed (TVector _) = False"
| "listed (TStruct ts) = (\<forall>t\<in>set ts. listed t)"
| "listed _ = True"

lemma ty_union_self: "ty_union x x = (if listed x then Some x else None)"
proof (induction x)
  case (TStruct ts)
  then have "tys_union ts ts = (if \<forall>t\<in>set ts. listed t then Some ts else None)"
    by (induction ts) auto
  then show ?case by (simp add: ty_union_le)
qed (simp_all add: ty_union_le)

lemma tys_le_Cons: "t \<le> u \<Longrightarrow> tys_le ts us \<Longrightarrow> tys_le (t # ts) (u # us)"
  by (simp add: less_eq_data_type_def)

lemma ty_union_upper: "ty_union x y = Some z \<Longrightarrow> x \<le> z \<and> y \<le> z"
  and tys_union_upper: "\<lbrakk>tys_union ts us = Some vs; length ts = length us\<rbrakk> \<Longrightarrow> tys_le ts vs \<and> tys_le us vs"
proof (induction x y and ts us arbitrary: z and vs rule: ty_union_tys_union.induct)
  case (1 x y)
  have main: "a \<le> z \<and> b \<le> z" if "a \<le> b" "(case (a, b) of
     (TStruct ts, TStruct us) \<Rightarrow> if length ts = length us then map_option TStruct (tys_union ts us) else None
   | _ \<Rightarrow> if widens a b then Some b else None) = Some z"
    "\<And>ts us vs. \<lbrakk>a = TStruct ts; b = TStruct us; length ts = length us; tys_union ts us = Some vs\<rbrakk> \<Longrightarrow> tys_le ts vs \<and> tys_le us vs" for a b
  proof (cases "\<exists>ts us. a = TStruct ts \<and> b = TStruct us")
    case True
    then show ?thesis using that(2,3) by (auto simp: less_eq_data_type_def split: if_splits)
  next
    case False
    then have "b = z" using that(2) by (auto split: data_type.splits if_splits)
    then show ?thesis using that(1) by simp
  qed
  show ?case
  proof (cases "x \<le> y")
    case True
    then show ?thesis using main [of x y] 1 by (simp add: ty_union_le)
  next
    case False
    then show ?thesis using main [of y x] 1 by (simp add: ty_union_comm [of x y] ty_union_le)
  qed
next
  case (2 t ts u us)
  then show ?case by (auto intro: tys_le_Cons)
qed auto

text \<open>C40. \<open>DataType::union\<close> does not depend on the order of its arguments, its result is not smaller than either
  of them in the order of the types (for structs field by field), and a type is compatible with itself, with
  itself as the result, exactly when it contains none of \<open>Int16\<close>, \<open>Timestamp\<close>, \<open>TimestampTz\<close> and \<open>Vector\<close>.\<close>

theorem union_laws:
  "ty_union x y = ty_union y x \<and> (\<forall>z. ty_union x y = Some z \<longrightarrow> x \<le> z \<and> y \<le> z)
     \<and> ty_union x x = (if listed x then Some x else None)"
  using ty_union_comm ty_union_upper ty_union_self by blast

theorem union_laws_witness:
  "ty_union (TStruct [TInt32, TNull]) (TStruct [TBool, TDate]) = Some (TStruct [TInt32, TDate])
     \<and> TStruct [TBool, TDate] \<le> TStruct [TInt32, TDate] \<and> ty_union TTimestamp TTimestamp = None"
proof -
  have "ty_union (TStruct [TInt32, TNull]) (TStruct [TBool, TDate]) = Some (TStruct [TInt32, TDate])" by code_simp
  moreover have "ty_union TTimestamp TTimestamp = None" by code_simp
  ultimately show ?thesis using union_laws [of "TStruct [TInt32, TNull]" "TStruct [TBool, TDate]"] by blast
qed

section \<open>The textual form\<close>

fun intersperse_comma :: "string list \<Rightarrow> string" where
  "intersperse_comma [] = []"
| "intersperse_comma [s] = s"
| "intersperse_comma (s # t # ss) = s @ '', '' @ intersperse_comma (t # ss)"

text \<open>\<open>None\<close> is the panic on a decimal with a scale and no precision.\<close>

fun show_type :: "data_type \<Rightarrow> string option" where
  "show_type TNull = Some ''NULL''"
| "show_type TInt16 = Some ''SMALLINT''"
| "show_type TInt32 = Some ''INT''"
| "show_type TInt64 = Some ''BIGINT''"
| "show_type TFloat64 = Some ''DOUBLE''"
| "show_type TString = Some ''STRING''"
| "show_type TBlob = Some ''BLOB''"
| "show_type TBool = Some ''BOOLEAN''"
| "show_type (TDecimal None None) = Some ''DECIMAL''"
| "show_type (TDecimal (Some p) None) = Some (''DECIMAL('' @ show_nat p @ '')'')"
| "show_type (TDecimal (Some p) (Some s)) = Some (''DECIMAL('' @ show_nat p @ '','' @ show_nat s @ '')'')"
| "show_type (TDecimal None (Some s)) = None"
| "show_type TDate = Some ''DATE''"
| "show_type TTimestamp = Some ''TIMESTAMP''"
| "show_type TTimestampTz = Some ''TIMESTAMP WITH TIME ZONE''"
| "show_type TInterval = Some ''INTERVAL''"
| "show_type (TStruct ts) = do { ss \<leftarrow> those (map show_type ts); Some (''STRUCT('' @ intersperse_comma ss @ '')'') }"
| "show_type (TVector n) = Some (''VECTOR('' @ show_nat n @ '')'')"

datatype parse_type_error = ParseIntError | InvalidType string

definition ascii_whitespace :: "char \<Rightarrow> bool" where
  "ascii_whitespace c \<longleftrightarrow> (of_char c :: nat) \<in> {9, 10, 12, 13, 32}"

definition decimal_delim :: "char \<Rightarrow> bool" where
  "decimal_delim c \<longleftrightarrow> c = CHR ''('' \<or> c = CHR '')'' \<or> ascii_whitespace c"

definition parse_u8 :: "string \<Rightarrow> parse_type_error + nat" where
  "parse_u8 s = (case parse_uint 8 s of Some n \<Rightarrow> Inr n | None \<Rightarrow> Inl ParseIntError)"

definition type_from_str :: "string \<Rightarrow> parse_type_error + data_type" where
  "type_from_str s =
     (if s = ''INT'' then Inr TInt32
      else if s = ''BIGINT'' then Inr TInt64
      else if s = ''DOUBLE'' then Inr TFloat64
      else if s = ''STRING'' then Inr TString
      else if s = ''BLOB'' then Inr TBlob
      else if s = ''BOOLEAN'' then Inr TBool
      else if s = ''DECIMAL'' then Inr (TDecimal None None)
      else case strip_prefix ''DECIMAL'' s of
        Some rest \<Rightarrow>
          let para = trim_matches decimal_delim rest
          in (case split_once CHR '','' para of
                Some (p, s) \<Rightarrow> (case parse_u8 p of Inl e \<Rightarrow> Inl e | Inr p \<Rightarrow>
                  (case parse_u8 s of Inl e \<Rightarrow> Inl e | Inr s \<Rightarrow> Inr (TDecimal (Some p) (Some s))))
              | None \<Rightarrow> (case parse_u8 para of Inl e \<Rightarrow> Inl e | Inr p \<Rightarrow> Inr (TDecimal (Some p) None)))
      | None \<Rightarrow>
          if s = ''DATE'' then Inr TDate
          else if s = ''INTERVAL'' then Inr TInterval
          else Inl (InvalidType s))"

text \<open>The types whose textual form the parser reads.\<close>

fun parsable :: "data_type \<Rightarrow> bool" where
  "parsable (TDecimal (Some p) s) = (p < 256 \<and> (\<forall>n. s = Some n \<longrightarrow> n < 256))"
| "parsable (TDecimal None s) = (s = None)"
| "parsable t = (t \<in> {TInt32, TInt64, TFloat64, TString, TBlob, TBool, TDate, TInterval})"

lemma digit_not_delim: "is_digit c \<Longrightarrow> \<not> decimal_delim c"
  by (auto simp: decimal_delim_def is_digit_def digit_of_def ascii_whitespace_def Let_def split: if_splits)

lemma show_nat_hd_last: "is_digit (hd (show_nat n))" "is_digit (last (show_nat n))"
  using show_nat_digits [OF hd_in_set] show_nat_digits [OF last_in_set] by simp_all

lemma trim_decimal:
  "\<lbrakk>s \<noteq> []; is_digit (hd s); is_digit (last s)\<rbrakk> \<Longrightarrow> trim_matches decimal_delim (''('' @ s @ '')'') = s"
  by (rule trim_matches_inner) (auto simp: digit_not_delim decimal_delim_def [of "CHR ''(''"] decimal_delim_def [of "CHR '')''"])

lemma from_str_decimal:
  "rest \<noteq> [] \<Longrightarrow> type_from_str (''DECIMAL'' @ rest) =
     (case split_once CHR '','' (trim_matches decimal_delim rest) of
        Some (p, s) \<Rightarrow> (case parse_u8 p of Inl e \<Rightarrow> Inl e | Inr p \<Rightarrow>
          (case parse_u8 s of Inl e \<Rightarrow> Inl e | Inr s \<Rightarrow> Inr (TDecimal (Some p) (Some s))))
      | None \<Rightarrow> (case parse_u8 (trim_matches decimal_delim rest) of Inl e \<Rightarrow> Inl e | Inr p \<Rightarrow> Inr (TDecimal (Some p) None)))"
  using strip_prefix_append [of "''DECIMAL''" rest] by (simp add: type_from_str_def Let_def)

lemma parse_u8_show [simp]: "n < 256 \<Longrightarrow> parse_u8 (show_nat n) = Inr n"
  by (simp add: parse_u8_def)

lemma comma_not_in_show_nat: "CHR '','' \<notin> set (show_nat n)"
  using show_nat_digits by fastforce

lemma from_str_precision: "p < 256 \<Longrightarrow> type_from_str (''DECIMAL('' @ show_nat p @ '')'') = Inr (TDecimal (Some p) None)"
  using from_str_decimal [of "''('' @ show_nat p @ '')''"] trim_decimal [OF show_nat_nonempty show_nat_hd_last]
  by (simp add: split_once_none comma_not_in_show_nat)

lemma from_str_scale:
  assumes "p < 256" "s < 256"
  shows "type_from_str (''DECIMAL('' @ show_nat p @ '','' @ show_nat s @ '')'') = Inr (TDecimal (Some p) (Some s))"
proof -
  have "trim_matches decimal_delim (''('' @ (show_nat p @ '','' @ show_nat s) @ '')'') = show_nat p @ '','' @ show_nat s"
    by (rule trim_decimal) (simp_all add: show_nat_hd_last)
  then show ?thesis using from_str_decimal [of "''('' @ show_nat p @ '','' @ show_nat s @ '')''"] assms
    by (simp add: split_once_first comma_not_in_show_nat)
qed

text \<open>Parsing the textual form of a type gives the type back, for every type the parser knows (decimal
  parameters are bytes); a panic of the printer happens for a decimal with a scale and no precision only.\<close>

theorem type_text_roundtrip:
  "parsable t \<Longrightarrow> \<exists>s. show_type t = Some s \<and> type_from_str s = Inr t"
proof (induction t rule: parsable.induct)
  case (1 p s)
  then show ?case using from_str_precision from_str_scale by (cases s) simp_all
qed (auto simp: type_from_str_def strip_prefix_def)

theorem type_text_roundtrip_witness:
  "\<exists>s. show_type (TDecimal (Some 20) (Some 10)) = Some s \<and> type_from_str s = Inr (TDecimal (Some 20) (Some 10))"
  by (rule type_text_roundtrip) simp

end
