(* ===== verification/Catalog.thy ===== *)
theory Catalog
  imports Types
begin

text \<open>
  The catalog (\<open>catalog/\<close>): column descriptions, tables, schemas and the root catalog, with the textual
  form of table and column references. A hash map is a partial function; a view's query is of a parameter
  type \<open>'q\<close>, an index's kind of a parameter type \<open>'x\<close>. A panic (\<open>unwrap\<close> on a missing schema, a duplicated column, a
  counter overflow) is \<open>None\<close>; a returned \<open>CatalogError\<close> is a left injection.

  The invariant \<open>schema_ok\<close> says that the name map and the id map of a schema are inverse to each other and
  that every id in use is below the counter; every operation keeps it.
\<close>

section \<open>Columns\<close>

record column_desc =
  cd_name :: string
  cd_data_type :: data_type
  cd_is_nullable :: bool
  cd_is_primary :: bool

definition column_desc_new :: "string \<Rightarrow> data_type \<Rightarrow> bool \<Rightarrow> column_desc" where
  "column_desc_new name datatype is_nullable =
     \<lparr>cd_name = name, cd_data_type = datatype, cd_is_nullable = is_nullable, cd_is_primary = False\<rparr>"

record column_catalog =
  cc_id :: nat
  cc_desc :: column_desc

definition cc_name :: "column_catalog \<Rightarrow> string" where
  "cc_name c = cd_name (cc_desc c)"

definition cc_is_primary :: "column_catalog \<Rightarrow> bool" where
  "cc_is_primary c = cd_is_primary (cc_desc c)"

definition cc_set_primary :: "bool \<Rightarrow> column_catalog \<Rightarrow> column_catalog" where
  "cc_set_primary b c = c\<lparr>cc_desc := (cc_desc c)\<lparr>cd_is_primary := b\<rparr>\<rparr>"

definition cc_set_nullable :: "bool \<Rightarrow> column_catalog \<Rightarrow> column_catalog" where
  "cc_set_nullable b c = c\<lparr>cc_desc := (cc_desc c)\<lparr>cd_is_nullable := b\<rparr>\<rparr>"

definition find_sort_key_id :: "column_catalog list \<Rightarrow> nat list" where
  "find_sort_key_id column_infos = filter (\<lambda>i. cc_is_primary (column_infos ! i)) [0 ..< length column_infos]"

section \<open>Errors and references\<close>

datatype catalog_error = CatNotFound string string | CatDuplicated string string

record table_ref_id =
  tr_schema_id :: nat
  tr_table_id :: nat

record column_ref_id =
  cr_schema_id :: nat
  cr_table_id :: nat
  cr_table_occurrence :: nat
  cr_column_id :: nat

definition cr_from_table :: "table_ref_id \<Rightarrow> nat \<Rightarrow> nat \<Rightarrow> column_ref_id" where
  "cr_from_table t occurrence column = \<lparr>cr_schema_id = tr_schema_id t, cr_table_id = tr_table_id t,
     cr_table_occurrence = occurrence, cr_column_id = column\<rparr>"

definition cr_table :: "column_ref_id \<Rightarrow> table_ref_id" where
  "cr_table c = \<lparr>tr_schema_id = cr_schema_id c, tr_table_id = cr_table_id c\<rparr>"

definition show_table_ref :: "table_ref_id \<Rightarrow> string" where
  "show_table_ref t = ''$'' @ show_nat (tr_table_id t)"

definition show_column_ref :: "column_ref_id \<Rightarrow> string" where
  "show_column_ref c = ''$'' @ show_nat (cr_table_id c) @ ''.'' @ show_nat (cr_column_id c)
     @ (if cr_table_occurrence c \<noteq> 0 then ''('' @ show_nat (cr_table_occurrence c) @ '')'' else [])"

datatype parse_id_error = NoLeadingDollar | InvalidColumn | InvalidTable | InvalidNum

definition parse_u32 :: "string \<Rightarrow> parse_id_error + nat" where
  "parse_u32 s = (case parse_uint 32 s of Some n \<Rightarrow> Inr n | None \<Rightarrow> Inl InvalidNum)"

text \<open>\<open>rsplit('.')\<close> yields the parts from the right; parts further left are ignored.\<close>

definition table_ref_from_str :: "string \<Rightarrow> parse_id_error + table_ref_id" where
  "table_ref_from_str s = (case strip_prefix ''$'' s of
     None \<Rightarrow> Inl NoLeadingDollar
   | Some body \<Rightarrow> (case rev (split_all CHR ''.'' body) of
       [] \<Rightarrow> Inl InvalidTable
     | t # parts \<Rightarrow> (case parse_u32 t of Inl e \<Rightarrow> Inl e | Inr table_id \<Rightarrow>
         (case (case parts of [] \<Rightarrow> Inr 0 | p # _ \<Rightarrow> parse_u32 p) of Inl e \<Rightarrow> Inl e
          | Inr schema_id \<Rightarrow> Inr \<lparr>tr_schema_id = schema_id, tr_table_id = table_id\<rparr>))))"

definition column_ref_from_str :: "string \<Rightarrow> parse_id_error + column_ref_id" where
  "column_ref_from_str s = (case strip_prefix ''$'' s of
     None \<Rightarrow> Inl NoLeadingDollar
   | Some body \<Rightarrow> (case rev (split_all CHR ''.'' body) of
       [] \<Rightarrow> Inl InvalidColumn
     | c # parts \<Rightarrow> (case parse_u32 c of Inl e \<Rightarrow> Inl e | Inr column_id \<Rightarrow>
         (case parts of [] \<Rightarrow> Inl InvalidTable
          | t # parts \<Rightarrow> (case parse_u32 t of Inl e \<Rightarrow> Inl e | Inr table_id \<Rightarrow>
              (case (case parts of [] \<Rightarrow> Inr 0 | p # _ \<Rightarrow> parse_u32 p) of Inl e \<Rightarrow> Inl e
               | Inr schema_id \<Rightarrow> Inr \<lparr>cr_schema_id = schema_id, cr_table_id = table_id, cr_table_occurrence = 0,
                   cr_column_id = column_id\<rparr>))))))"

section \<open>Tables\<close>

datatype 'q table_kind = BaseTable | View 'q

record 'q table_catalog =
  tc_id :: nat
  tc_name :: string
  tc_column_idxs :: "string \<rightharpoonup> nat"
  tc_columns :: "nat \<rightharpoonup> column_catalog"
  tc_kind :: "'q table_kind"
  tc_next_column_id :: nat
  tc_primary_key :: "nat list"

abbreviation u32_max :: nat where
  "u32_max \<equiv> 2 ^ 32 - 1"

definition add_column :: "column_catalog \<Rightarrow> 'q table_catalog \<Rightarrow> (catalog_error + nat \<times> 'q table_catalog) option" where
  "add_column col t =
     (if tc_column_idxs t (cc_name col) \<noteq> None then Some (Inl (CatDuplicated ''column'' (cc_name col)))
      else do {
        next_id \<leftarrow> checked_add32 (tc_next_column_id t) 1;
        Some (Inr (cc_id col, t\<lparr>tc_next_column_id := next_id, tc_column_idxs := (tc_column_idxs t)(cc_name col \<mapsto> cc_id col),
          tc_columns := (tc_columns t)(cc_id col \<mapsto> col)\<rparr>)) })"

text \<open>\<open>unwrap\<close> on the result of \<open>add_column\<close>.\<close>

definition add_column_unwrap :: "column_catalog \<Rightarrow> 'q table_catalog \<Rightarrow> 'q table_catalog option" where
  "add_column_unwrap col t = map_option snd (unwrap_ok (add_column col t))"

definition rowid_column :: column_catalog where
  "rowid_column = \<lparr>cc_id = u32_max, cc_desc = column_desc_new ''_rowid_'' TInt64 False\<rparr>"

definition table_new_inner ::
  "nat \<Rightarrow> string \<Rightarrow> column_catalog list \<Rightarrow> 'q table_kind \<Rightarrow> nat list \<Rightarrow> 'q table_catalog option" where
  "table_new_inner i name columns kind primary_key = do {
     let t = \<lparr>tc_id = i, tc_name = name, tc_column_idxs = Map.empty, tc_columns = Map.empty, tc_kind = kind,
           tc_next_column_id = 0, tc_primary_key = primary_key\<rparr>;
     t \<leftarrow> add_column_unwrap rowid_column t;
     fold_opt add_column_unwrap columns t }"

definition table_new :: "nat \<Rightarrow> string \<Rightarrow> column_catalog list \<Rightarrow> nat list \<Rightarrow> 'q table_catalog option" where
  "table_new i name columns primary_key = table_new_inner i name columns BaseTable primary_key"

definition table_new_view :: "nat \<Rightarrow> string \<Rightarrow> column_catalog list \<Rightarrow> 'q \<Rightarrow> 'q table_catalog option" where
  "table_new_view i name columns query = table_new_inner i name columns (View query) []"

definition contains_column :: "string \<Rightarrow> 'q table_catalog \<Rightarrow> bool" where
  "contains_column name t \<longleftrightarrow> tc_column_idxs t name \<noteq> None"

definition all_columns :: "'q table_catalog \<Rightarrow> nat \<rightharpoonup> column_catalog" where
  "all_columns t = (tc_columns t)(u32_max := None)"

definition get_column_by_name :: "string \<Rightarrow> 'q table_catalog \<Rightarrow> column_catalog option" where
  "get_column_by_name name t = do { i \<leftarrow> tc_column_idxs t name; tc_columns t i }"

definition is_view :: "'q table_catalog \<Rightarrow> bool" where
  "is_view t \<longleftrightarrow> (case tc_kind t of View _ \<Rightarrow> True | BaseTable \<Rightarrow> False)"

section \<open>Schemas\<close>

record 'x index_catalog =
  ic_id :: nat
  ic_name :: string
  ic_table_id :: nat
  ic_column_idxs :: "nat list"
  ic_index_type :: 'x

record function_catalog =
  fc_name :: string
  fc_arg_types :: "data_type list"
  fc_arg_names :: "string list"
  fc_return_type :: data_type
  fc_language :: string
  fc_body :: string

record ('q, 'x) schema_catalog =
  sc_id :: nat
  sc_name :: string
  sc_table_idxs :: "string \<rightharpoonup> nat"
  sc_tables :: "nat \<rightharpoonup> 'q table_catalog"
  sc_indexes_idxs :: "string \<rightharpoonup> nat"
  sc_indexes :: "nat \<rightharpoonup> 'x index_catalog"
  sc_next_id :: nat
  sc_functions :: "string \<rightharpoonup> function_catalog"

definition schema_new :: "nat \<Rightarrow> string \<Rightarrow> ('q, 'x) schema_catalog" where
  "schema_new i name = \<lparr>sc_id = i, sc_name = name, sc_table_idxs = Map.empty, sc_tables = Map.empty,
     sc_indexes_idxs = Map.empty, sc_indexes = Map.empty, sc_next_id = 0, sc_functions = Map.empty\<rparr>"

definition schema_add_table ::
  "string \<Rightarrow> column_catalog list \<Rightarrow> nat list \<Rightarrow> ('q, 'x) schema_catalog
     \<Rightarrow> (catalog_error + nat \<times> ('q, 'x) schema_catalog) option" where
  "schema_add_table name columns ordered_pk_ids s =
     (if sc_table_idxs s name \<noteq> None then Some (Inl (CatDuplicated ''table'' name))
      else do {
        let table_id = sc_next_id s;
        next_id \<leftarrow> checked_add32 (sc_next_id s) 1;
        t \<leftarrow> table_new table_id name columns ordered_pk_ids;
        Some (Inr (table_id, s\<lparr>sc_next_id := next_id, sc_table_idxs := (sc_table_idxs s)(name \<mapsto> table_id),
          sc_tables := (sc_tables s)(table_id \<mapsto> t)\<rparr>)) })"

definition schema_add_index ::
  "string \<Rightarrow> nat \<Rightarrow> nat list \<Rightarrow> 'x \<Rightarrow> ('q, 'x) schema_catalog \<Rightarrow> (catalog_error + nat \<times> ('q, 'x) schema_catalog) option" where
  "schema_add_index name table_id columns index_type s =
     (if sc_indexes_idxs s name \<noteq> None then Some (Inl (CatDuplicated ''index'' name))
      else do {
        let index_id = sc_next_id s;
        next_id \<leftarrow> checked_add32 (sc_next_id s) 1;
        let ix = \<lparr>ic_id = index_id, ic_name = name, ic_table_id = table_id, ic_column_idxs = columns, ic_index_type = index_type\<rparr>;
        Some (Inr (index_id, s\<lparr>sc_next_id := next_id, sc_indexes_idxs := (sc_indexes_idxs s)(name \<mapsto> index_id),
          sc_indexes := (sc_indexes s)(index_id \<mapsto> ix)\<rparr>)) })"

definition schema_add_view ::
  "string \<Rightarrow> column_catalog list \<Rightarrow> 'q \<Rightarrow> ('q, 'x) schema_catalog \<Rightarrow> (catalog_error + nat \<times> ('q, 'x) schema_catalog) option" where
  "schema_add_view name columns query s =
     (if sc_table_idxs s name \<noteq> None then Some (Inl (CatDuplicated ''view'' name))
      else do {
        let table_id = sc_next_id s;
        next_id \<leftarrow> checked_add32 (sc_next_id s) 1;
        t \<leftarrow> table_new_view table_id name columns query;
        Some (Inr (table_id, s\<lparr>sc_next_id := next_id, sc_table_idxs := (sc_table_idxs s)(name \<mapsto> table_id),
          sc_tables := (sc_tables s)(table_id \<mapsto> t)\<rparr>)) })"

definition schema_delete_table :: "nat \<Rightarrow> ('q, 'x) schema_catalog \<Rightarrow> ('q, 'x) schema_catalog option" where
  "schema_delete_table i s = do {
     catalog \<leftarrow> sc_tables s i;
     _ \<leftarrow> sc_table_idxs s (tc_name catalog);
     Some (s\<lparr>sc_tables := (sc_tables s)(i := None), sc_table_idxs := (sc_table_idxs s)(tc_name catalog := None)\<rparr>) }"

definition schema_get_table_by_name :: "string \<Rightarrow> ('q, 'x) schema_catalog \<Rightarrow> 'q table_catalog option" where
  "schema_get_table_by_name name s = do { i \<leftarrow> sc_table_idxs s name; sc_tables s i }"

definition schema_get_indexes_on_table :: "nat \<Rightarrow> ('q, 'x) schema_catalog \<Rightarrow> nat set" where
  "schema_get_indexes_on_table table_id s = {i. \<exists>ix. sc_indexes s i = Some ix \<and> ic_table_id ix = table_id}"

definition schema_create_function ::
  "string \<Rightarrow> data_type list \<Rightarrow> string list \<Rightarrow> data_type \<Rightarrow> string \<Rightarrow> string \<Rightarrow> ('q, 'x) schema_catalog \<Rightarrow> ('q, 'x) schema_catalog" where
  "schema_create_function name arg_types arg_names return_type language body s =
     s\<lparr>sc_functions := (sc_functions s)(name \<mapsto> \<lparr>fc_name = name, fc_arg_types = arg_types, fc_arg_names = arg_names,
       fc_return_type = return_type, fc_language = language, fc_body = body\<rparr>)\<rparr>"

section \<open>The root catalog\<close>

record ('q, 'x) root_catalog =
  rc_schema_idxs :: "string \<rightharpoonup> nat"
  rc_schemas :: "nat \<rightharpoonup> ('q, 'x) schema_catalog"
  rc_next_schema_id :: nat

definition DEFAULT_SCHEMA_NAME :: string where
  "DEFAULT_SCHEMA_NAME = ''postgres''"

definition SYSTEM_SCHEMA_NAME :: string where
  "SYSTEM_SCHEMA_NAME = ''pg_catalog''"

definition rc_add_schema :: "string \<Rightarrow> ('q, 'x) root_catalog \<Rightarrow> (catalog_error + nat \<times> ('q, 'x) root_catalog) option" where
  "rc_add_schema name c =
     (if rc_schema_idxs c name \<noteq> None then Some (Inl (CatDuplicated ''schema'' name))
      else do {
        let schema_id = rc_next_schema_id c;
        next_id \<leftarrow> checked_add32 (rc_next_schema_id c) 1;
        Some (Inr (schema_id, c\<lparr>rc_next_schema_id := next_id, rc_schema_idxs := (rc_schema_idxs c)(name \<mapsto> schema_id),
          rc_schemas := (rc_schemas c)(schema_id \<mapsto> schema_new schema_id name)\<rparr>)) })"

text \<open>An operation of a schema, on the schema with a given id (\<open>get_mut(..).unwrap()\<close>).\<close>

definition with_schema ::
  "nat \<Rightarrow> (('q, 'x) schema_catalog \<Rightarrow> (catalog_error + nat \<times> ('q, 'x) schema_catalog) option) \<Rightarrow> ('q, 'x) root_catalog
     \<Rightarrow> (catalog_error + nat \<times> ('q, 'x) root_catalog) option" where
  "with_schema schema_id f c = do {
     s \<leftarrow> rc_schemas c schema_id;
     r \<leftarrow> f s;
     Some (case r of Inl e \<Rightarrow> Inl e | Inr (i, s) \<Rightarrow> Inr (i, c\<lparr>rc_schemas := (rc_schemas c)(schema_id \<mapsto> s)\<rparr>)) }"

definition rc_add_table ::
  "nat \<Rightarrow> string \<Rightarrow> column_catalog list \<Rightarrow> nat list \<Rightarrow> ('q, 'x) root_catalog \<Rightarrow> (catalog_error + nat \<times> ('q, 'x) root_catalog) option" where
  "rc_add_table schema_id name columns ordered_pk_ids = with_schema schema_id (schema_add_table name columns ordered_pk_ids)"

definition rc_add_view ::
  "nat \<Rightarrow> string \<Rightarrow> column_catalog list \<Rightarrow> 'q \<Rightarrow> ('q, 'x) root_catalog \<Rightarrow> (catalog_error + nat \<times> ('q, 'x) root_catalog) option" where
  "rc_add_view schema_id name columns query = with_schema schema_id (schema_add_view name columns query)"

definition rc_add_index ::
  "nat \<Rightarrow> string \<Rightarrow> nat \<Rightarrow> nat list \<Rightarrow> 'x \<Rightarrow> ('q, 'x) root_catalog \<Rightarrow> (catalog_error + nat \<times> ('q, 'x) root_catalog) option" where
  "rc_add_index schema_id index_name table_id column_idxs index_type =
     with_schema schema_id (schema_add_index index_name table_id column_idxs index_type)"

definition rc_drop_table :: "table_ref_id \<Rightarrow> ('q, 'x) root_catalog \<Rightarrow> ('q, 'x) root_catalog option" where
  "rc_drop_table r c = do {
     s \<leftarrow> rc_schemas c (tr_schema_id r);
     s \<leftarrow> schema_delete_table (tr_table_id r) s;
     Some (c\<lparr>rc_schemas := (rc_schemas c)(tr_schema_id r \<mapsto> s)\<rparr>) }"

text \<open>The system tables come from a fixed SQL text; what the parser makes of it is a parameter.\<close>

definition rc_add_system_schema ::
  "(string \<times> column_catalog list) list \<Rightarrow> ('q, 'x) root_catalog \<Rightarrow> ('q, 'x) root_catalog option" where
  "rc_add_system_schema system_tables c = do {
     (schema_id, c) \<leftarrow> unwrap_ok (rc_add_schema SYSTEM_SCHEMA_NAME c);
     rust_assert (schema_id = 0);
     fold_opt (\<lambda>(name, columns) c. map_option snd (unwrap_ok (rc_add_table schema_id name columns [] c))) system_tables c }"

definition rc_new :: "(string \<times> column_catalog list) list \<Rightarrow> ('q, 'x) root_catalog option" where
  "rc_new system_tables = do {
     c \<leftarrow> rc_add_system_schema system_tables \<lparr>rc_schema_idxs = Map.empty, rc_schemas = Map.empty, rc_next_schema_id = 0\<rparr>;
     map_option snd (unwrap_ok (rc_add_schema DEFAULT_SCHEMA_NAME c)) }"

definition rc_get_schema_by_name :: "string \<Rightarrow> ('q, 'x) root_catalog \<Rightarrow> ('q, 'x) schema_catalog option" where
  "rc_get_schema_by_name name c = do { i \<leftarrow> rc_schema_idxs c name; rc_schemas c i }"

definition rc_get_table :: "table_ref_id \<Rightarrow> ('q, 'x) root_catalog \<Rightarrow> 'q table_catalog option" where
  "rc_get_table r c = do { s \<leftarrow> rc_schemas c (tr_schema_id r); sc_tables s (tr_table_id r) }"

definition rc_get_table_id_by_name :: "string \<Rightarrow> string \<Rightarrow> ('q, 'x) root_catalog \<Rightarrow> table_ref_id option" where
  "rc_get_table_id_by_name schema_name table_name c = do {
     s \<leftarrow> rc_get_schema_by_name schema_name c;
     t \<leftarrow> schema_get_table_by_name table_name s;
     Some \<lparr>tr_schema_id = sc_id s, tr_table_id = tc_id t\<rparr> }"

definition split_name :: "string \<Rightarrow> (string \<times> string) option" where
  "split_name name = (case split_all CHR ''.'' name of
     [t] \<Rightarrow> Some (DEFAULT_SCHEMA_NAME, t)
   | [s, t] \<Rightarrow> Some (s, t)
   | _ \<Rightarrow> None)"

text \<open>\<open>to_lowercase\<close> of a Unicode string is a parameter.\<close>

definition rc_get_table_by_name :: "(string \<Rightarrow> string) \<Rightarrow> string \<Rightarrow> ('q, 'x) root_catalog \<Rightarrow> 'q table_catalog option" where
  "rc_get_table_by_name to_lowercase name c = do {
     (schema_name, table_name) \<leftarrow> split_name (to_lowercase name);
     r \<leftarrow> rc_get_table_id_by_name schema_name table_name c;
     rc_get_table r c }"

definition rc_get_column :: "column_ref_id \<Rightarrow> ('q, 'x) root_catalog \<Rightarrow> column_catalog option" where
  "rc_get_column r c = do { t \<leftarrow> rc_get_table (cr_table r) c; tc_columns t (cr_column_id r) }"

definition rc_create_function ::
  "string \<Rightarrow> string \<Rightarrow> data_type list \<Rightarrow> string list \<Rightarrow> data_type \<Rightarrow> string \<Rightarrow> string \<Rightarrow> ('q, 'x) root_catalog \<Rightarrow> ('q, 'x) root_catalog option" where
  "rc_create_function schema_name name arg_types arg_names return_type language body c = do {
     i \<leftarrow> rc_schema_idxs c schema_name;
     s \<leftarrow> rc_schemas c i;
     Some (c\<lparr>rc_schemas := (rc_schemas c)(i \<mapsto> schema_create_function name arg_types arg_names return_type language body s)\<rparr>) }"

definition rc_get_function_by_name :: "string \<Rightarrow> string \<Rightarrow> ('q, 'x) root_catalog \<Rightarrow> function_catalog option" where
  "rc_get_function_by_name schema_name function_name c = do {
     s \<leftarrow> rc_get_schema_by_name schema_name c;
     sc_functions s function_name }"

section \<open>The textual form of references\<close>

lemma dot_not_in_show_nat: "CHR ''.'' \<notin> set (show_nat n)"
  using show_nat_digits by fastforce

lemma parse_u32_show [simp]: "n < 2 ^ 32 \<Longrightarrow> parse_u32 (show_nat n) = Inr n"
  by (simp add: parse_u32_def)

lemma strip_dollar [simp]: "strip_prefix ''$'' (CHR ''$'' # s) = Some s"
  using strip_prefix_append [of "''$''" s] by simp

text \<open>The textual form of a column reference is read back as the same reference, for references into
  schema 0 at the first occurrence of their table: the form shows neither the schema nor, in a way the
  parser accepts, the occurrence.\<close>

theorem column_ref_roundtrip:
  assumes "cr_table_id r < 2 ^ 32" and "cr_column_id r < 2 ^ 32"
  shows "column_ref_from_str (show_column_ref r) = Inr r \<longleftrightarrow> cr_schema_id r = 0 \<and> cr_table_occurrence r = 0"
proof (cases "cr_table_occurrence r = 0")
  case True
  then show ?thesis using assms
    by (cases r) (auto simp: show_column_ref_def column_ref_from_str_def split_all_first split_all_none dot_not_in_show_nat)
next
  case False
  have "column_ref_from_str s \<noteq> Inr r" for s
    using False by (auto simp: column_ref_from_str_def split: option.splits list.splits sum.splits)
  then show ?thesis using False by simp
qed

theorem column_ref_roundtrip_witness:
  "column_ref_from_str (show_column_ref \<lparr>cr_schema_id = 0, cr_table_id = 3, cr_table_occurrence = 0, cr_column_id = 12\<rparr>)
     = Inr \<lparr>cr_schema_id = 0, cr_table_id = 3, cr_table_occurrence = 0, cr_column_id = 12\<rparr>"
  by (subst column_ref_roundtrip) simp_all

section \<open>The invariant\<close>

definition schema_ok :: "('q, 'x) schema_catalog \<Rightarrow> bool" where
  "schema_ok s \<longleftrightarrow> (\<forall>name i. sc_table_idxs s name = Some i \<longleftrightarrow> (\<exists>t. sc_tables s i = Some t \<and> tc_name t = name))
     \<and> (\<forall>i t. sc_tables s i = Some t \<longrightarrow> tc_id t = i \<and> i < sc_next_id s)
     \<and> (\<forall>i ix. sc_indexes s i = Some ix \<longrightarrow> ic_id ix = i \<and> i < sc_next_id s)"

lemma schema_ok_new: "schema_ok (schema_new i name)"
  by (simp add: schema_ok_def schema_new_def)

lemma add_column_unwrap_eq:
  "add_column_unwrap col t = (if tc_column_idxs t (cc_name col) = None \<and> Suc (tc_next_column_id t) < 2 ^ 32
     then Some (t\<lparr>tc_next_column_id := Suc (tc_next_column_id t), tc_column_idxs := (tc_column_idxs t)(cc_name col \<mapsto> cc_id col),
       tc_columns := (tc_columns t)(cc_id col \<mapsto> col)\<rparr>) else None)"
  by (simp add: add_column_unwrap_def add_column_def checked_add32_def)

lemma add_columns_fields:
  "fold_opt add_column_unwrap cols t = Some t' \<Longrightarrow> tc_id t' = tc_id t \<and> tc_name t' = tc_name t \<and> tc_kind t' = tc_kind t \<and> tc_primary_key t' = tc_primary_key t"
  by (induction cols arbitrary: t) (fastforce simp: add_column_unwrap_eq split: if_splits)+

lemma table_new_fields:
  "table_new_inner i name cols kind pk = Some t \<Longrightarrow> tc_id t = i \<and> tc_name t = name \<and> tc_kind t = kind \<and> tc_primary_key t = pk"
  by (auto simp: table_new_inner_def Let_def add_column_unwrap_eq dest!: add_columns_fields)

text \<open>Adding columns with new, distinct names and ids succeeds and makes each findable by name and by id.\<close>

lemma add_columns_lookup:
  assumes "distinct (map cc_name cols)" "distinct (map cc_id cols)"
    "\<forall>c\<in>set cols. tc_column_idxs t (cc_name c) = None \<and> tc_columns t (cc_id c) = None"
    "tc_next_column_id t + length cols < 2 ^ 32"
  shows "\<exists>t'. fold_opt add_column_unwrap cols t = Some t'
    \<and> (\<forall>c\<in>set cols. tc_column_idxs t' (cc_name c) = Some (cc_id c) \<and> tc_columns t' (cc_id c) = Some c)
    \<and> (\<forall>n. n \<notin> cc_name ` set cols \<longrightarrow> tc_column_idxs t' n = tc_column_idxs t n)
    \<and> (\<forall>i. i \<notin> cc_id ` set cols \<longrightarrow> tc_columns t' i = tc_columns t i)"
  using assms
proof (induction cols arbitrary: t)
  case (Cons c cols)
  define u where "u = t\<lparr>tc_next_column_id := Suc (tc_next_column_id t), tc_column_idxs := (tc_column_idxs t)(cc_name c \<mapsto> cc_id c),
       tc_columns := (tc_columns t)(cc_id c \<mapsto> c)\<rparr>"
  have u: "add_column_unwrap c t = Some u" using Cons.prems by (simp add: add_column_unwrap_eq u_def)
  have "\<forall>d\<in>set cols. tc_column_idxs u (cc_name d) = None \<and> tc_columns u (cc_id d) = None"
    using Cons.prems by (auto simp: u_def rev_image_eqI)
  with Cons.IH [of u] Cons.prems obtain t' where t': "fold_opt add_column_unwrap cols u = Some t'"
    "\<forall>c\<in>set cols. tc_column_idxs t' (cc_name c) = Some (cc_id c) \<and> tc_columns t' (cc_id c) = Some c"
    "\<forall>n. n \<notin> cc_name ` set cols \<longrightarrow> tc_column_idxs t' n = tc_column_idxs u n"
    "\<forall>i. i \<notin> cc_id ` set cols \<longrightarrow> tc_columns t' i = tc_columns u i" by (auto simp: u_def)
  then have "tc_column_idxs t' (cc_name c) = Some (cc_id c)" "tc_columns t' (cc_id c) = Some c"
    using Cons.prems(1,2) by (auto simp: u_def)
  then show ?case using u t' by (simp add: u_def) 
qed simp

lemma schema_ok_lookup:
  "\<lbrakk>schema_ok s; sc_table_idxs s name = Some i\<rbrakk> \<Longrightarrow> \<exists>t. sc_tables s i = Some t \<and> tc_name t = name \<and> tc_id t = i"
  by (auto simp: schema_ok_def)

lemma schema_insert_table:
  assumes "schema_ok s" "sc_table_idxs s name = None" "tc_id t = sc_next_id s" "tc_name t = name"
  defines "s' \<equiv> s\<lparr>sc_next_id := Suc (sc_next_id s), sc_table_idxs := (sc_table_idxs s)(name \<mapsto> sc_next_id s),
          sc_tables := (sc_tables s)(sc_next_id s \<mapsto> t)\<rparr>"
  shows "schema_ok s'" and "schema_get_table_by_name name s' = Some t"
    and "\<And>n. n \<noteq> name \<Longrightarrow> schema_get_table_by_name n s' = schema_get_table_by_name n s"
    and "sc_tables s (sc_next_id s) = None"
proof -
  have fresh: "sc_tables s i = Some u \<Longrightarrow> i < sc_next_id s" for i u using assms(1) by (simp add: schema_ok_def)
  then show new: "sc_tables s (sc_next_id s) = None" by (cases "sc_tables s (sc_next_id s)") auto
  have no: "tc_name u \<noteq> name" if "sc_tables s i = Some u" for i u
    using assms(1,2) that unfolding schema_ok_def by (metis option.distinct(1))
  have idx: "sc_table_idxs s n = Some i \<longleftrightarrow> (\<exists>t. sc_tables s i = Some t \<and> tc_name t = n)" for n i
    using assms(1) by (simp add: schema_ok_def)
  show "schema_ok s'" unfolding schema_ok_def
    using assms(1,3,4) fresh no idx new by (auto simp: s'_def schema_ok_def less_Suc_eq)
  show "schema_get_table_by_name name s' = Some t" by (simp add: schema_get_table_by_name_def s'_def)
  show "schema_get_table_by_name n s' = schema_get_table_by_name n s" if "n \<noteq> name" for n
  proof (cases "sc_table_idxs s n")
    case (Some i)
    then have "i \<noteq> sc_next_id s" using idx [of n i] new by auto
    then show ?thesis using Some that by (simp add: schema_get_table_by_name_def s'_def)
  qed (use that in \<open>simp add: schema_get_table_by_name_def s'_def\<close>)
qed

lemma schema_add_table_eq:
  "schema_add_table name cols pk s = Some (Inr (i, s')) \<longleftrightarrow> sc_table_idxs s name = None \<and> i = sc_next_id s
     \<and> Suc (sc_next_id s) < 2 ^ 32 \<and> (\<exists>t. table_new (sc_next_id s) name cols pk = Some t
       \<and> s' = s\<lparr>sc_next_id := Suc (sc_next_id s), sc_table_idxs := (sc_table_idxs s)(name \<mapsto> sc_next_id s),
          sc_tables := (sc_tables s)(sc_next_id s \<mapsto> t)\<rparr>)"
  by (auto simp: schema_add_table_def checked_add32_def Let_def)

lemma schema_add_view_eq:
  "schema_add_view name cols q s = Some (Inr (i, s')) \<longleftrightarrow> sc_table_idxs s name = None \<and> i = sc_next_id s
     \<and> Suc (sc_next_id s) < 2 ^ 32 \<and> (\<exists>t. table_new_view (sc_next_id s) name cols q = Some t
       \<and> s' = s\<lparr>sc_next_id := Suc (sc_next_id s), sc_table_idxs := (sc_table_idxs s)(name \<mapsto> sc_next_id s),
          sc_tables := (sc_tables s)(sc_next_id s \<mapsto> t)\<rparr>)"
  by (auto simp: schema_add_view_def checked_add32_def Let_def)

lemma schema_ok_add_table: "\<lbrakk>schema_add_table name cols pk s = Some (Inr (i, s')); schema_ok s\<rbrakk> \<Longrightarrow> schema_ok s'"
  by (auto simp: schema_add_table_eq table_new_def dest!: table_new_fields intro!: schema_insert_table(1))

lemma schema_ok_add_view: "\<lbrakk>schema_add_view name cols q s = Some (Inr (i, s')); schema_ok s\<rbrakk> \<Longrightarrow> schema_ok s'"
  by (auto simp: schema_add_view_eq table_new_view_def dest!: table_new_fields intro!: schema_insert_table(1))

lemma schema_ok_add_index: "\<lbrakk>schema_add_index name t cols x s = Some (Inr (i, s')); schema_ok s\<rbrakk> \<Longrightarrow> schema_ok s'"
  by (auto simp: schema_add_index_def checked_add32_def Let_def schema_ok_def less_Suc_eq split: if_splits)

lemma schema_ok_create_function: "schema_ok (schema_create_function n ats ans rt l b s) = schema_ok s"
  by (simp add: schema_create_function_def schema_ok_def)

lemma schema_delete_table_ok:
  assumes "schema_ok s" "sc_tables s i = Some t"
  shows "\<exists>s'. schema_delete_table i s = Some s' \<and> schema_ok s' \<and> sc_tables s' i = None
    \<and> schema_get_table_by_name (tc_name t) s' = None
    \<and> (\<forall>n. n \<noteq> tc_name t \<longrightarrow> schema_get_table_by_name n s' = schema_get_table_by_name n s)"
proof -
  have idx: "sc_table_idxs s n = Some j \<longleftrightarrow> (\<exists>u. sc_tables s j = Some u \<and> tc_name u = n)" for n j
    using assms(1) by (simp add: schema_ok_def)
  have uniq: "j = i" if "sc_tables s j = Some u" "tc_name u = tc_name t" for j u
    using idx [of "tc_name t" i] idx [of "tc_name t" j] assms(2) that by auto
  define s' where "s' = s\<lparr>sc_tables := (sc_tables s)(i := None), sc_table_idxs := (sc_table_idxs s)(tc_name t := None)\<rparr>"
  have "sc_table_idxs s (tc_name t) = Some i" using idx assms(2) by blast
  then have "schema_delete_table i s = Some s'" using assms(2) by (simp add: schema_delete_table_def s'_def)
  moreover have "schema_ok s'"
  proof -
    have "sc_table_idxs s' n = Some j \<longleftrightarrow> (\<exists>u. sc_tables s' j = Some u \<and> tc_name u = n)" for n j
    proof (cases "n = tc_name t")
      case True
      then show ?thesis using uniq [of j] by (auto simp: s'_def)
    next
      case False
      then show ?thesis using idx [of n j] assms(2) by (auto simp: s'_def)
    qed
    then show ?thesis using assms(1) by (auto simp: schema_ok_def s'_def split: if_splits)
  qed
  moreover have "schema_get_table_by_name n s' = schema_get_table_by_name n s" if "n \<noteq> tc_name t" for n
  proof (cases "sc_table_idxs s n")
    case (Some j)
    then have "j \<noteq> i" using idx [of n j] assms(2) that by auto
    then show ?thesis using Some that by (simp add: schema_get_table_by_name_def s'_def)
  qed (use that in \<open>simp add: schema_get_table_by_name_def s'_def\<close>)
  ultimately show ?thesis by (intro exI [of _ s']) (simp add: s'_def schema_get_table_by_name_def)
qed

definition catalog_ok :: "('q, 'x) root_catalog \<Rightarrow> bool" where
  "catalog_ok c \<longleftrightarrow> (\<forall>name i. rc_schema_idxs c name = Some i \<longleftrightarrow> (\<exists>s. rc_schemas c i = Some s \<and> sc_name s = name))
     \<and> (\<forall>i s. rc_schemas c i = Some s \<longrightarrow> sc_id s = i \<and> i < rc_next_schema_id c \<and> schema_ok s)"

lemma catalog_update_schema:
  assumes "catalog_ok c" "rc_schemas c i = Some s" "schema_ok s'" "sc_id s' = sc_id s" "sc_name s' = sc_name s"
  shows "catalog_ok (c\<lparr>rc_schemas := (rc_schemas c)(i \<mapsto> s')\<rparr>)"
proof -
  have "(\<exists>u. ((rc_schemas c)(i \<mapsto> s')) j = Some u \<and> sc_name u = n) \<longleftrightarrow> (\<exists>u. rc_schemas c j = Some u \<and> sc_name u = n)" for j n
    using assms(2,5) by auto
  then show ?thesis using assms by (auto simp: catalog_ok_def split: if_splits)
qed

lemma with_schema_eq:
  "with_schema i f c = Some (Inr (k, c')) \<longleftrightarrow> (\<exists>s s'. rc_schemas c i = Some s \<and> f s = Some (Inr (k, s'))
     \<and> c' = c\<lparr>rc_schemas := (rc_schemas c)(i \<mapsto> s')\<rparr>)"
proof (cases "rc_schemas c i")
  case (Some s)
  show ?thesis
  proof (cases "f s")
    case (Some r)
    then show ?thesis using \<open>rc_schemas c i = Some s\<close> by (cases r) (auto simp: with_schema_def)
  qed (use Some in \<open>auto simp: with_schema_def\<close>)
qed (simp add: with_schema_def)

lemma schema_add_keeps:
  "schema_add_table name cols pk s = Some (Inr (i, s')) \<Longrightarrow> sc_id s' = sc_id s \<and> sc_name s' = sc_name s"
  "schema_add_view name cols q s = Some (Inr (i, s')) \<Longrightarrow> sc_id s' = sc_id s \<and> sc_name s' = sc_name s"
  "schema_add_index name t ids x s = Some (Inr (i, s')) \<Longrightarrow> sc_id s' = sc_id s \<and> sc_name s' = sc_name s"
  "schema_delete_table i s = Some s' \<Longrightarrow> sc_id s' = sc_id s \<and> sc_name s' = sc_name s"
  by (auto simp: schema_add_table_eq schema_add_view_eq schema_add_index_def schema_delete_table_def Let_def split: if_splits)

lemma catalog_ok_add:
  "\<lbrakk>catalog_ok c; rc_add_table i name cols pk c = Some (Inr (k, c'))\<rbrakk> \<Longrightarrow> catalog_ok c'"
  "\<lbrakk>catalog_ok c; rc_add_view i name cols q c = Some (Inr (k, c'))\<rbrakk> \<Longrightarrow> catalog_ok c'"
  "\<lbrakk>catalog_ok c; rc_add_index i name t ids x c = Some (Inr (k, c'))\<rbrakk> \<Longrightarrow> catalog_ok c'"
  by (auto simp: rc_add_table_def rc_add_view_def rc_add_index_def with_schema_eq catalog_ok_def [of c]
      dest: schema_add_keeps schema_ok_add_table schema_ok_add_view schema_ok_add_index intro!: catalog_update_schema [of c])

lemma catalog_ok_drop: "\<lbrakk>catalog_ok c; rc_drop_table r c = Some c'\<rbrakk> \<Longrightarrow> catalog_ok c'"
proof -
  assume ok: "catalog_ok c" and d: "rc_drop_table r c = Some c'"
  then obtain s s' where s: "rc_schemas c (tr_schema_id r) = Some s" "schema_delete_table (tr_table_id r) s = Some s'"
    "c' = c\<lparr>rc_schemas := (rc_schemas c)(tr_schema_id r \<mapsto> s')\<rparr>" by (auto simp: rc_drop_table_def)
  have so: "schema_ok s" using ok s(1) by (simp add: catalog_ok_def)
  obtain t where "sc_tables s (tr_table_id r) = Some t" using s(2) by (auto simp: schema_delete_table_def)
  from schema_delete_table_ok [OF so this] s(2) have "schema_ok s'" by auto
  then show ?thesis using catalog_update_schema [OF ok s(1)] schema_add_keeps(4) [OF s(2)] s(3) by simp
qed

text \<open>A new schema has an id of its own.\<close>

lemma catalog_ok_add_schema:
  assumes "catalog_ok c" "rc_add_schema name c = Some (Inr (i, c'))"
  shows "catalog_ok c'"
proof -
  let ?n = "rc_next_schema_id c"
  have c': "rc_schema_idxs c name = None" "c' = c\<lparr>rc_next_schema_id := Suc ?n, rc_schema_idxs := (rc_schema_idxs c)(name \<mapsto> ?n),
          rc_schemas := (rc_schemas c)(?n \<mapsto> schema_new ?n name)\<rparr>"
    using assms(2) by (auto simp: rc_add_schema_def checked_add32_def Let_def split: if_splits)
  have idx: "rc_schema_idxs c n = Some j \<longleftrightarrow> (\<exists>s. rc_schemas c j = Some s \<and> sc_name s = n)" for n j
    using assms(1) by (simp add: catalog_ok_def)
  have "rc_schemas c ?n = None" using assms(1) unfolding catalog_ok_def by (metis less_irrefl not_None_eq)
  moreover have "sc_name s \<noteq> name" if "rc_schemas c j = Some s" for j s using idx [of name j] c'(1) that by auto
  ultimately have "rc_schema_idxs c' n = Some j \<longleftrightarrow> (\<exists>s. rc_schemas c' j = Some s \<and> sc_name s = n)" for n j
    using idx [of n j] by (auto simp: c'(2) schema_new_def)
  moreover have "sc_id s = j \<and> j < rc_next_schema_id c' \<and> schema_ok s" if "rc_schemas c' j = Some s" for j s
    using that assms(1) schema_ok_new by (auto simp: c'(2) catalog_ok_def less_Suc_eq schema_new_def split: if_splits)
  ultimately show ?thesis unfolding catalog_ok_def by blast
qed

lemma rc_new_ok: "rc_new system_tables = Some c \<Longrightarrow> catalog_ok c"
proof -
  have empty: "catalog_ok \<lparr>rc_schema_idxs = Map.empty, rc_schemas = Map.empty, rc_next_schema_id = 0\<rparr>"
    by (simp add: catalog_ok_def)
  have add: "catalog_ok c'" if "fold_opt (\<lambda>(name, columns) c. map_option snd (unwrap_ok (rc_add_table i name columns [] c))) ts c = Some c'"
    "catalog_ok c" for ts i c' and c :: "('q, 'x) root_catalog"
    using that by (induction ts arbitrary: c) (auto dest: catalog_ok_add(1))
  assume "rc_new system_tables = Some c"
  then show ?thesis
    by (auto simp: rc_new_def rc_add_system_schema_def dest!: catalog_ok_add_schema [OF empty] intro: catalog_ok_add_schema add)
qed

text \<open>The catalogs that the operations produce.\<close>

inductive catalog_reachable :: "(string \<times> column_catalog list) list \<Rightarrow> ('q, 'x) root_catalog \<Rightarrow> bool" for system_tables where
  new: "rc_new system_tables = Some c \<Longrightarrow> catalog_reachable system_tables c"
| schema: "\<lbrakk>catalog_reachable system_tables c; rc_add_schema name c = Some (Inr (k, c'))\<rbrakk> \<Longrightarrow> catalog_reachable system_tables c'"
| tab: "\<lbrakk>catalog_reachable system_tables c; rc_add_table i name cols pk c = Some (Inr (k, c'))\<rbrakk> \<Longrightarrow> catalog_reachable system_tables c'"
| view: "\<lbrakk>catalog_reachable system_tables c; rc_add_view i name cols q c = Some (Inr (k, c'))\<rbrakk> \<Longrightarrow> catalog_reachable system_tables c'"
| index: "\<lbrakk>catalog_reachable system_tables c; rc_add_index i name t ids x c = Some (Inr (k, c'))\<rbrakk> \<Longrightarrow> catalog_reachable system_tables c'"
| drop: "\<lbrakk>catalog_reachable system_tables c; rc_drop_table r c = Some c'\<rbrakk> \<Longrightarrow> catalog_reachable system_tables c'"

text \<open>C25. The catalog's invariant (in every schema the maps by name and by id are inverse to each other, ids in use
  are below the counter, and the same for the schemas themselves) holds for the initial catalog and is kept by
  adding schemas, tables, views and indexes and by dropping tables.\<close>

theorem catalog_invariant: "catalog_reachable system_tables c \<Longrightarrow> catalog_ok c"
  by (induction rule: catalog_reachable.induct)
    (blast intro: rc_new_ok catalog_ok_add_schema catalog_ok_add catalog_ok_drop)+

text \<open>A small catalog: the default schema with one table of one column.\<close>

definition ex_column :: column_catalog where
  "ex_column = \<lparr>cc_id = 0, cc_desc = column_desc_new ''a'' TInt32 False\<rparr>"

definition ex_catalog :: "(unit, unit) root_catalog" where
  "ex_catalog = \<lparr>rc_schema_idxs = [''pg_catalog'' \<mapsto> 0, ''postgres'' \<mapsto> 1],
    rc_schemas = [0 \<mapsto> schema_new 0 ''pg_catalog'', 1 \<mapsto> schema_new 1 ''postgres''], rc_next_schema_id = 2\<rparr>"

lemma ex_new: "rc_new [] = Some ex_catalog"
  by (simp add: rc_new_def rc_add_system_schema_def rc_add_schema_def SYSTEM_SCHEMA_NAME_def DEFAULT_SCHEMA_NAME_def
      checked_add32_def ex_catalog_def)

theorem catalog_invariant_witness: "catalog_ok ex_catalog"
  by (rule catalog_invariant [OF catalog_reachable.new [OF ex_new]])

lemma rc_add_table_succeeds:
  assumes "catalog_ok c" and "rc_schemas c i = Some s" and "sc_table_idxs s name = None"
    and "Suc (sc_next_id s) < 2 ^ 32" and "distinct (map cc_name cols)" and "distinct (map cc_id cols)"
    and "\<forall>col\<in>set cols. cc_name col \<noteq> ''_rowid_'' \<and> cc_id col \<noteq> u32_max" and "Suc (length cols) < 2 ^ 32"
  shows "\<exists>k c' t. rc_add_table i name cols pk c = Some (Inr (k, c')) \<and> sc_tables s k = None
    \<and> rc_get_table_id_by_name (sc_name s) name c' = Some \<lparr>tr_schema_id = i, tr_table_id = k\<rparr>
    \<and> rc_get_table \<lparr>tr_schema_id = i, tr_table_id = k\<rparr> c' = Some t \<and> tc_primary_key t = pk \<and> \<not> is_view t
    \<and> (\<forall>col\<in>set cols. rc_get_column \<lparr>cr_schema_id = i, cr_table_id = k, cr_table_occurrence = n, cr_column_id = cc_id col\<rparr> c' = Some col)
    \<and> (\<forall>r. r \<noteq> \<lparr>tr_schema_id = i, tr_table_id = k\<rparr> \<longrightarrow> rc_get_table r c' = rc_get_table r c)"
proof -
  have so: "schema_ok s" "sc_id s = i" using assms(1,2) by (simp_all add: catalog_ok_def)
  let ?k = "sc_next_id s"
  define t0 :: "'a table_catalog" where "t0 = \<lparr>tc_id = ?k, tc_name = name, tc_column_idxs = [''_rowid_'' \<mapsto> u32_max],
      tc_columns = [u32_max \<mapsto> rowid_column], tc_kind = BaseTable, tc_next_column_id = 1, tc_primary_key = pk\<rparr>"
  have "\<forall>col\<in>set cols. tc_column_idxs t0 (cc_name col) = None \<and> tc_columns t0 (cc_id col) = None"
    using assms(7) by (auto simp: t0_def)
  from add_columns_lookup [OF assms(5,6) this] assms(8) obtain t where t: "fold_opt add_column_unwrap cols t0 = Some t"
    "\<forall>col\<in>set cols. tc_columns t (cc_id col) = Some col" by (auto simp: t0_def)
  have new: "table_new ?k name cols pk = Some t"
    using t(1) by (simp add: table_new_def table_new_inner_def add_column_unwrap_eq t0_def rowid_column_def column_desc_new_def cc_name_def)
  note fields = table_new_fields [OF new [unfolded table_new_def]]
  define s' where "s' = s\<lparr>sc_next_id := Suc ?k, sc_table_idxs := (sc_table_idxs s)(name \<mapsto> ?k), sc_tables := (sc_tables s)(?k \<mapsto> t)\<rparr>"
  have add: "schema_add_table name cols pk s = Some (Inr (?k, s'))" using assms(3,4) new by (simp add: schema_add_table_eq s'_def)
  note ins = schema_insert_table [OF so(1) assms(3), of t, folded s'_def]
  define c' where "c' = c\<lparr>rc_schemas := (rc_schemas c)(i \<mapsto> s')\<rparr>"
  have "rc_add_table i name cols pk c = Some (Inr (?k, c'))" using add assms(2) by (simp add: rc_add_table_def with_schema_def c'_def)
  moreover have "rc_schema_idxs c' (sc_name s) = Some i" "rc_schemas c' i = Some s'" using assms(1,2) by (auto simp: c'_def catalog_ok_def)
  moreover have "schema_get_table_by_name name s' = Some t" "sc_id s' = i" "sc_tables s' ?k = Some t"
    using ins(2) fields so(2) by (simp_all add: s'_def)
  moreover have "sc_tables s ?k = None" using ins(4) fields by simp
  moreover have "rc_get_table r c' = rc_get_table r c" if "r \<noteq> \<lparr>tr_schema_id = i, tr_table_id = ?k\<rparr>" for r
  proof (cases "tr_schema_id r = i")
    case True
    then have "tr_table_id r \<noteq> ?k" using that by (cases r) auto
    then show ?thesis using True assms(2) by (simp add: rc_get_table_def c'_def s'_def)
  qed (simp add: rc_get_table_def c'_def)
  ultimately show ?thesis using t(2) fields
    by (intro exI [of _ ?k] exI [of _ c'] exI [of _ t])
      (simp add: rc_get_table_id_by_name_def rc_get_schema_by_name_def rc_get_table_def rc_get_column_def cr_table_def is_view_def)
qed

text \<open>C23. Creating a table: in a well-formed catalog, with a name the schema does not have, columns with distinct
  names and ids (none of them the row id's) and room in the counters, \<open>add_table\<close> succeeds with an id no table of
  the schema has; the table is then found by its name and by its id, each of its columns by its id, and
  every other table of the catalog is what it was.\<close>

theorem catalog_add_table:
  assumes "catalog_ok c" and "rc_schemas c i = Some s" and "sc_table_idxs s name = None"
    and "Suc (sc_next_id s) < 2 ^ 32" and "distinct (map cc_name cols)" and "distinct (map cc_id cols)"
    and "\<forall>col\<in>set cols. cc_name col \<noteq> ''_rowid_'' \<and> cc_id col \<noteq> u32_max" and "Suc (length cols) < 2 ^ 32"
  shows "\<exists>k c' t. rc_add_table i name cols pk c = Some (Inr (k, c')) \<and> sc_tables s k = None
    \<and> rc_get_table_id_by_name (sc_name s) name c' = Some \<lparr>tr_schema_id = i, tr_table_id = k\<rparr>
    \<and> rc_get_table \<lparr>tr_schema_id = i, tr_table_id = k\<rparr> c' = Some t \<and> tc_primary_key t = pk \<and> \<not> is_view t
    \<and> (\<forall>col\<in>set cols. rc_get_column \<lparr>cr_schema_id = i, cr_table_id = k, cr_table_occurrence = n, cr_column_id = cc_id col\<rparr> c' = Some col)
    \<and> (\<forall>r. r \<noteq> \<lparr>tr_schema_id = i, tr_table_id = k\<rparr> \<longrightarrow> rc_get_table r c' = rc_get_table r c)"
  by (rule rc_add_table_succeeds [OF assms])

theorem catalog_add_table_witness:
  "\<exists>k c'. rc_add_table 1 ''t'' [ex_column] [0] ex_catalog = Some (Inr (k, c'))
     \<and> rc_get_column \<lparr>cr_schema_id = 1, cr_table_id = k, cr_table_occurrence = 0, cr_column_id = 0\<rparr> c' = Some ex_column"
proof -
  have ok: "catalog_ok ex_catalog" using rc_new_ok ex_new by blast
  have s: "rc_schemas ex_catalog 1 = Some (schema_new 1 ''postgres'')" by (simp add: ex_catalog_def)
  have e: "\<exists>k c' t. rc_add_table 1 ''t'' [ex_column] [0] ex_catalog = Some (Inr (k, c'))
    \<and> sc_tables (schema_new 1 ''postgres'' :: (unit, unit) schema_catalog) k = None
    \<and> rc_get_table_id_by_name (sc_name (schema_new 1 ''postgres'' :: (unit, unit) schema_catalog)) ''t'' c' = Some \<lparr>tr_schema_id = 1, tr_table_id = k\<rparr>
    \<and> rc_get_table \<lparr>tr_schema_id = 1, tr_table_id = k\<rparr> c' = Some t \<and> tc_primary_key t = [0] \<and> \<not> is_view t
    \<and> (\<forall>col\<in>set [ex_column]. rc_get_column \<lparr>cr_schema_id = 1, cr_table_id = k, cr_table_occurrence = 0, cr_column_id = cc_id col\<rparr> c' = Some col)
    \<and> (\<forall>r. r \<noteq> \<lparr>tr_schema_id = 1, tr_table_id = k\<rparr> \<longrightarrow> rc_get_table r c' = rc_get_table r ex_catalog)"
    by (rule catalog_add_table [OF ok s])
      (simp_all add: schema_new_def ex_column_def column_desc_new_def cc_name_def)
  have id: "cc_id ex_column = 0" by (simp add: ex_column_def)
  show ?thesis using e by (elim exE conjE, intro exI conjI) (assumption, simp add: id)
qed

text \<open>C24. Dropping a table that exists does not panic: afterwards it is found neither by id nor by name, every
  other table is what it was, and the name is free: a table of that name and any columns that a table may have
  can be created again, gets an id that is new and is then found under the name.\<close>

theorem catalog_drop_table:
  assumes "catalog_ok c" and "rc_schemas c i = Some s" and "sc_tables s k = Some t"
  shows "\<exists>c'. rc_drop_table \<lparr>tr_schema_id = i, tr_table_id = k\<rparr> c = Some c'
    \<and> rc_get_table \<lparr>tr_schema_id = i, tr_table_id = k\<rparr> c' = None
    \<and> rc_get_table_id_by_name (sc_name s) (tc_name t) c' = None
    \<and> (\<forall>r. r \<noteq> \<lparr>tr_schema_id = i, tr_table_id = k\<rparr> \<longrightarrow> rc_get_table r c' = rc_get_table r c)
    \<and> (\<forall>cols pk. Suc (sc_next_id s) < 2 ^ 32 \<and> distinct (map cc_name cols) \<and> distinct (map cc_id cols)
         \<and> (\<forall>col\<in>set cols. cc_name col \<noteq> ''_rowid_'' \<and> cc_id col \<noteq> u32_max) \<and> Suc (length cols) < 2 ^ 32 \<longrightarrow>
       (\<exists>j c''. rc_add_table i (tc_name t) cols pk c' = Some (Inr (j, c'')) \<and> sc_tables s j = None
         \<and> rc_get_table_id_by_name (sc_name s) (tc_name t) c'' = Some \<lparr>tr_schema_id = i, tr_table_id = j\<rparr>))
    \<and> (\<forall>cols pk j c''. rc_add_table i (tc_name t) cols pk c' = Some (Inr (j, c'')) \<longrightarrow> j \<noteq> k)"
proof -
  have so: "schema_ok s" "rc_schema_idxs c (sc_name s) = Some i" using assms(1,2) by (auto simp: catalog_ok_def)
  have lt: "k < sc_next_id s" using so(1) assms(3) by (simp add: schema_ok_def)
  obtain s' where s': "schema_delete_table k s = Some s'" "sc_tables s' k = None" "schema_get_table_by_name (tc_name t) s' = None"
    using schema_delete_table_ok [OF so(1) assms(3)] by blast
  have same: "sc_next_id s' = sc_next_id s" "\<And>j. j \<noteq> k \<Longrightarrow> sc_tables s' j = sc_tables s j" "sc_name s' = sc_name s"
    and free: "sc_table_idxs s' (tc_name t) = None"
    using s'(1) assms(3) by (auto simp: schema_delete_table_def)
  define c' where "c' = c\<lparr>rc_schemas := (rc_schemas c)(i \<mapsto> s')\<rparr>"
  have "rc_get_table r c' = rc_get_table r c" if "r \<noteq> \<lparr>tr_schema_id = i, tr_table_id = k\<rparr>" for r
  proof (cases "tr_schema_id r = i")
    case True
    then have "tr_table_id r \<noteq> k" using that by (cases r) auto
    then show ?thesis using True assms(2) same(2) by (simp add: rc_get_table_def c'_def)
  qed (simp add: rc_get_table_def c'_def)
  moreover have new: "j \<noteq> k" if "rc_add_table i (tc_name t) cols pk c' = Some (Inr (j, c''))" for cols pk j c''
    using that lt same(1) by (auto simp: rc_add_table_def with_schema_eq c'_def schema_add_table_eq)
  moreover have drop: "rc_drop_table \<lparr>tr_schema_id = i, tr_table_id = k\<rparr> c = Some c'"
    using assms(2) s'(1) by (simp add: rc_drop_table_def c'_def)
  moreover have "\<exists>j c''. rc_add_table i (tc_name t) cols pk c' = Some (Inr (j, c'')) \<and> sc_tables s j = None
      \<and> rc_get_table_id_by_name (sc_name s) (tc_name t) c'' = Some \<lparr>tr_schema_id = i, tr_table_id = j\<rparr>"
    if "Suc (sc_next_id s) < 2 ^ 32 \<and> distinct (map cc_name cols) \<and> distinct (map cc_id cols)
      \<and> (\<forall>col\<in>set cols. cc_name col \<noteq> ''_rowid_'' \<and> cc_id col \<noteq> u32_max) \<and> Suc (length cols) < 2 ^ 32" for cols pk
  proof -
    have "rc_schemas c' i = Some s'" by (simp add: c'_def)
    from rc_add_table_succeeds [OF catalog_ok_drop [OF assms(1) drop] this free, of cols] that same(1,3)
    obtain j c'' where j: "rc_add_table i (tc_name t) cols pk c' = Some (Inr (j, c''))" "sc_tables s' j = None"
      "rc_get_table_id_by_name (sc_name s) (tc_name t) c'' = Some \<lparr>tr_schema_id = i, tr_table_id = j\<rparr>" by metis
    with new [OF j(1)] same(2) show ?thesis by auto
  qed
  ultimately show ?thesis using so(2) s'(2,3)
    by (intro exI [of _ c'])
      (simp add: rc_get_table_def rc_get_table_id_by_name_def rc_get_schema_by_name_def c'_def)
qed

definition ex_table :: "unit table_catalog" where
  "ex_table = \<lparr>tc_id = 0, tc_name = ''t'', tc_column_idxs = [''_rowid_'' \<mapsto> u32_max, ''a'' \<mapsto> 0],
     tc_columns = [u32_max \<mapsto> rowid_column, 0 \<mapsto> ex_column], tc_kind = BaseTable, tc_next_column_id = Suc 1, tc_primary_key = []\<rparr>"

definition ex_schema_t :: "(unit, unit) schema_catalog" where
  "ex_schema_t = (schema_new 1 ''postgres'')\<lparr>sc_table_idxs := [''t'' \<mapsto> 0], sc_tables := [0 \<mapsto> ex_table], sc_next_id := 1\<rparr>"

definition ex_catalog_t :: "(unit, unit) root_catalog" where
  "ex_catalog_t = ex_catalog\<lparr>rc_schemas := (rc_schemas ex_catalog)(1 \<mapsto> ex_schema_t)\<rparr>"

lemma ex_add_t: "rc_add_table 1 ''t'' [ex_column] [] ex_catalog = Some (Inr (0, ex_catalog_t))"
  by (simp add: rc_add_table_def with_schema_def schema_add_table_def table_new_def table_new_inner_def add_column_unwrap_eq
      checked_add32_def ex_catalog_t_def ex_schema_t_def ex_table_def ex_catalog_def ex_column_def rowid_column_def column_desc_new_def
      cc_name_def schema_new_def Let_def)

theorem catalog_drop_table_witness:
  "\<exists>c' j c''. rc_drop_table \<lparr>tr_schema_id = 1, tr_table_id = 0\<rparr> ex_catalog_t = Some c'
     \<and> rc_get_table_id_by_name ''postgres'' ''t'' c' = None
     \<and> rc_add_table 1 ''t'' [ex_column] [] c' = Some (Inr (j, c''))
     \<and> rc_get_table_id_by_name ''postgres'' ''t'' c'' = Some \<lparr>tr_schema_id = 1, tr_table_id = j\<rparr>"
proof -
  have ok: "catalog_ok ex_catalog_t" using rc_new_ok [OF ex_new] ex_add_t catalog_ok_add(1) by blast
  have s: "rc_schemas ex_catalog_t 1 = Some ex_schema_t" "sc_tables ex_schema_t 0 = Some ex_table"
    by (simp_all add: ex_catalog_t_def ex_schema_t_def)
  have n: "sc_name ex_schema_t = ''postgres''" "tc_name ex_table = ''t''"
    by (simp_all add: ex_schema_t_def schema_new_def ex_table_def)
  have cols: "Suc (sc_next_id ex_schema_t) < 2 ^ 32 \<and> distinct (map cc_name [ex_column]) \<and> distinct (map cc_id [ex_column])
      \<and> (\<forall>col\<in>set [ex_column]. cc_name col \<noteq> ''_rowid_'' \<and> cc_id col \<noteq> u32_max) \<and> Suc (length [ex_column]) < 2 ^ 32"
    by (simp add: ex_schema_t_def ex_column_def column_desc_new_def cc_name_def)
  from catalog_drop_table [OF ok s] obtain c' where c': "rc_drop_table \<lparr>tr_schema_id = 1, tr_table_id = 0\<rparr> ex_catalog_t = Some c'"
    "rc_get_table_id_by_name ''postgres'' ''t'' c' = None"
    and again: "\<exists>j c''. rc_add_table 1 ''t'' [ex_column] [] c' = Some (Inr (j, c'')) \<and> sc_tables ex_schema_t j = None
      \<and> rc_get_table_id_by_name ''postgres'' ''t'' c'' = Some \<lparr>tr_schema_id = 1, tr_table_id = j\<rparr>"
    unfolding n using cols by blast
  then show ?thesis by blast
qed

end
