(* ===== verification/Versions.thy ===== *)
theory Versions
  imports Rowsets Catalog
begin

text \<open>
  The version manager (\<open>version_manager.rs\<close>): snapshots, the two halves of a commit (the inner lock is
  released while the manifest is written), pinning and unpinning of versions, and the vacuum that
  drops row sets no pinned version can see. A hash map is a partial function. Epochs start at 0 and
  grow by one per commit, and every key of the epoch-indexed maps is at most the current epoch, so
  iterating such a map is a walk over the epochs up to the current one. A row set is an object of a
  parameter type \<open>'rs\<close>.

  \<open>vm_step\<close> is the transition system of all interleavings of commits, pins, unpins and vacuums; its
  invariant gives the safety of the vacuum: whatever a pinned version, the current version or a
  commit in flight refers to stays in the pool.
\<close>

section \<open>Snapshots\<close>

record snapshot =
  sn_rowsets :: "nat \<rightharpoonup> nat set"
  sn_dvs :: "nat \<rightharpoonup> (nat \<rightharpoonup> nat set)"

definition empty_snapshot :: snapshot where
  "empty_snapshot = \<lparr>sn_rowsets = Map.empty, sn_dvs = Map.empty\<rparr>"

definition or_default :: "'a \<Rightarrow> 'a option \<Rightarrow> 'a" where
  "or_default d x = (case x of Some y \<Rightarrow> y | None \<Rightarrow> d)"

definition add_rowset :: "nat \<Rightarrow> nat \<Rightarrow> snapshot \<Rightarrow> snapshot" where
  "add_rowset table_id rowset_id s =
     s\<lparr>sn_rowsets := (sn_rowsets s)(table_id \<mapsto> insert rowset_id (or_default {} (sn_rowsets s table_id)))\<rparr>"

definition delete_rowset :: "nat \<Rightarrow> nat \<Rightarrow> snapshot \<Rightarrow> snapshot option" where
  "delete_rowset table_id rowset_id s = do {
     table \<leftarrow> sn_rowsets s table_id;
     let table = table - {rowset_id};
     Some (s\<lparr>sn_rowsets := (sn_rowsets s)(table_id := if table = {} then None else Some table)\<rparr>) }"

definition add_dv :: "nat \<Rightarrow> nat \<Rightarrow> nat \<Rightarrow> snapshot \<Rightarrow> snapshot" where
  "add_dv table_id rowset_id i s =
     (let table = or_default Map.empty (sn_dvs s table_id)
      in s\<lparr>sn_dvs := (sn_dvs s)(table_id \<mapsto> table(rowset_id \<mapsto> insert i (or_default {} (table rowset_id))))\<rparr>)"

definition delete_dv :: "nat \<Rightarrow> nat \<Rightarrow> nat \<Rightarrow> snapshot \<Rightarrow> snapshot option" where
  "delete_dv table_id rowset_id i s = do {
     table \<leftarrow> sn_dvs s table_id;
     dvs \<leftarrow> table rowset_id;
     let dvs = dvs - {i};
     let table = table(rowset_id := if dvs = {} then None else Some dvs);
     Some (s\<lparr>sn_dvs := (sn_dvs s)(table_id := if table = Map.empty then None else Some table)\<rparr>) }"

definition get_dvs_of :: "nat \<Rightarrow> nat \<Rightarrow> snapshot \<Rightarrow> nat set option" where
  "get_dvs_of table_id rowset_id s = do { rowset \<leftarrow> sn_dvs s table_id; rowset rowset_id }"

definition get_rowsets_of :: "nat \<Rightarrow> snapshot \<Rightarrow> nat set option" where
  "get_rowsets_of table_id s = sn_rowsets s table_id"

section \<open>Operations and entries\<close>

record create_table_entry =
  cte_schema_id :: nat
  cte_table_name :: string
  cte_column_descs :: "column_catalog list"
  cte_ordered_pk_ids :: "nat list"

datatype manifest_operation =
    CreateTable create_table_entry
  | DropTable table_ref_id
  | AddRowSet table_ref_id nat
  | DeleteRowSet table_ref_id nat
  | AddDV table_ref_id nat nat      \<comment> \<open>delete-vector id, row-set id\<close>
  | DeleteDV table_ref_id nat nat
  | Begin
  | End

datatype 'rs epoch_op =
    EpCreateTable create_table_entry
  | EpDropTable table_ref_id
  | EpAddRowSet table_ref_id nat 'rs
  | EpDeleteRowSet table_ref_id nat
  | EpAddDV table_ref_id nat nat delete_vector
  | EpDeleteDV table_ref_id nat nat

section \<open>The version manager\<close>

record 'rs version_manager =
  vm_status :: "nat \<rightharpoonup> snapshot"
  vm_rowsets :: "nat \<times> nat \<rightharpoonup> 'rs"
  vm_dvs :: "nat \<times> nat \<rightharpoonup> delete_vector"
  vm_ref_cnt :: "nat \<rightharpoonup> nat"
  vm_deletions :: "nat \<rightharpoonup> (nat \<times> nat) list"
  vm_epoch :: nat

definition vm_new :: "'rs version_manager" where
  "vm_new = \<lparr>vm_status = Map.empty, vm_rowsets = Map.empty, vm_dvs = Map.empty, vm_ref_cnt = Map.empty,
     vm_deletions = Map.empty, vm_epoch = 0\<rparr>"

text \<open>A commit in flight: what the first half keeps for the second.\<close>

record pending_commit =
  pc_snapshot :: snapshot
  pc_deletions :: "(nat \<times> nat) list"
  pc_current_epoch :: nat

fun apply_op ::
  "'rs epoch_op \<Rightarrow> snapshot \<times> manifest_operation list \<times> (nat \<times> nat) list \<times> 'rs version_manager
     \<Rightarrow> (snapshot \<times> manifest_operation list \<times> (nat \<times> nat) list \<times> 'rs version_manager) option" where
  "apply_op (EpCreateTable e) (s, entries, dels, m) = Some (s, entries @ [CreateTable e], dels, m)"
| "apply_op (EpDropTable t) (s, entries, dels, m) = Some (s, entries @ [DropTable t], dels, m)"
| "apply_op (EpAddRowSet t r rs) (s, entries, dels, m) =
     Some (add_rowset (tr_table_id t) r s, entries @ [AddRowSet t r], dels,
       m\<lparr>vm_rowsets := (vm_rowsets m)((tr_table_id t, r) \<mapsto> rs)\<rparr>)"
| "apply_op (EpDeleteRowSet t r) (s, entries, dels, m) = do {
     s \<leftarrow> delete_rowset (tr_table_id t) r s;
     Some (s, entries @ [DeleteRowSet t r], dels @ [(tr_table_id t, r)], m) }"
| "apply_op (EpAddDV t i r dv) (s, entries, dels, m) =
     Some (add_dv (tr_table_id t) r i s, entries @ [AddDV t i r], dels,
       m\<lparr>vm_dvs := (vm_dvs m)((tr_table_id t, i) \<mapsto> dv)\<rparr>)"
| "apply_op (EpDeleteDV t i r) (s, entries, dels, m) = do {
     s \<leftarrow> delete_dv (tr_table_id t) r i s;
     Some (s, entries @ [DeleteDV t i r], dels, m) }"

definition commit_prepare ::
  "'rs epoch_op list \<Rightarrow> 'rs version_manager
     \<Rightarrow> (pending_commit \<times> manifest_operation list \<times> 'rs version_manager) option" where
  "commit_prepare ops m = do {
     (s, entries, dels, m') \<leftarrow> fold_opt apply_op ops (or_default empty_snapshot (vm_status m (vm_epoch m)), [], [], m);
     Some (\<lparr>pc_snapshot = s, pc_deletions = dels, pc_current_epoch = vm_epoch m\<rparr>, entries, m') }"

definition commit_publish :: "pending_commit \<Rightarrow> 'rs version_manager \<Rightarrow> (nat \<times> 'rs version_manager) option" where
  "commit_publish p m = do {
     rust_assert (vm_epoch m = pc_current_epoch p);
     let epoch = vm_epoch m + 1;
     Some (epoch, m\<lparr>vm_epoch := epoch, vm_status := (vm_status m)(epoch \<mapsto> pc_snapshot p),
       vm_deletions := (vm_deletions m)(epoch \<mapsto> pc_deletions p)\<rparr>) }"

text \<open>Both halves with nothing in between, where the manifest write succeeds: the entries written, the new
  epoch and the new state.\<close>

definition commit_changes ::
  "'rs epoch_op list \<Rightarrow> 'rs version_manager \<Rightarrow> (manifest_operation list \<times> nat \<times> 'rs version_manager) option" where
  "commit_changes ops m = do {
     (p, entries, m) \<leftarrow> commit_prepare ops m;
     (epoch, m) \<leftarrow> commit_publish p m;
     Some (entries, epoch, m) }"

record version =
  ve_epoch :: nat
  ve_snapshot :: snapshot

definition pin :: "'rs version_manager \<Rightarrow> (version \<times> 'rs version_manager) option" where
  "pin m = do {
     let epoch = vm_epoch m;
     s \<leftarrow> vm_status m epoch;
     Some (\<lparr>ve_epoch = epoch, ve_snapshot = s\<rparr>,
       m\<lparr>vm_ref_cnt := (vm_ref_cnt m)(epoch \<mapsto> or_default 0 (vm_ref_cnt m epoch) + 1)\<rparr>) }"

text \<open>Dropping a version; the Boolean says whether the vacuum is notified.\<close>

definition unpin :: "version \<Rightarrow> 'rs version_manager \<Rightarrow> (bool \<times> 'rs version_manager) option" where
  "unpin v m = do {
     ref_cnt \<leftarrow> vm_ref_cnt m (ve_epoch v);
     ref_cnt \<leftarrow> checked_sub ref_cnt 1;
     Some (if ref_cnt = 0
           then (ve_epoch v \<noteq> vm_epoch m, m\<lparr>vm_ref_cnt := (vm_ref_cnt m)(ve_epoch v := None)\<rparr>)
           else (False, m\<lparr>vm_ref_cnt := (vm_ref_cnt m)(ve_epoch v \<mapsto> ref_cnt)\<rparr>)) }"

definition get_rowset :: "nat \<Rightarrow> nat \<Rightarrow> 'rs version_manager \<Rightarrow> 'rs option" where
  "get_rowset table_id rowset_id m = vm_rowsets m (table_id, rowset_id)"

definition get_dv :: "nat \<Rightarrow> nat \<Rightarrow> 'rs version_manager \<Rightarrow> delete_vector option" where
  "get_dv table_id i m = vm_dvs m (table_id, i)"

definition min_pinned_epoch :: "'rs version_manager \<Rightarrow> nat option" where
  "min_pinned_epoch m = find (\<lambda>e. vm_ref_cnt m e \<noteq> None) [0 ..< Suc (vm_epoch m)]"

text \<open>The vacuum removes the row sets of the deletions it may apply; a row set that is still held elsewhere
  (\<open>held\<close>) makes \<open>Arc::try_unwrap\<close> fail, which panics.\<close>

fun drop_rowsets ::
  "(nat \<times> nat \<Rightarrow> bool) \<Rightarrow> (nat \<times> nat) list \<Rightarrow> (nat \<times> nat \<rightharpoonup> 'rs) \<Rightarrow> (nat \<times> nat \<rightharpoonup> 'rs) option" where
  "drop_rowsets held [] pool = Some pool"
| "drop_rowsets held (d # ds) pool =
     (case pool d of
        Some rowset \<Rightarrow> if held d then None else drop_rowsets held ds (pool(d := None))
      | None \<Rightarrow> drop_rowsets held ds pool)"

definition find_vacuum ::
  "(nat \<times> nat \<Rightarrow> bool) \<Rightarrow> 'rs version_manager \<Rightarrow> ((nat \<times> nat) list \<times> 'rs version_manager) option" where
  "find_vacuum held m = do {
     let vacuum_epoch = or_default (vm_epoch m) (min_pinned_epoch m);
     let deletions = concat (map (\<lambda>e. if e \<le> vacuum_epoch then or_default [] (vm_deletions m e) else []) [0 ..< Suc (vm_epoch m)]);
     pool \<leftarrow> drop_rowsets held deletions (vm_rowsets m);
     Some (deletions, m\<lparr>vm_deletions := (\<lambda>e. if e \<le> vacuum_epoch then None else vm_deletions m e), vm_rowsets := pool\<rparr>) }"

section \<open>What a snapshot refers to\<close>

text \<open>The abstract view of a snapshot: the row sets of each table and the delete vectors of each row set.\<close>

definition rowsets_in :: "snapshot \<Rightarrow> nat \<Rightarrow> nat set" where
  "rowsets_in s t = or_default {} (sn_rowsets s t)"

definition dvs_in :: "snapshot \<Rightarrow> nat \<Rightarrow> nat \<Rightarrow> nat set" where
  "dvs_in s t r = or_default {} (or_default Map.empty (sn_dvs s t) r)"

lemma or_default_simps [simp]: "or_default d None = d" "or_default d (Some x) = x"
  by (simp_all add: or_default_def)

lemma rowsets_in_simps [simp]:
  "rowsets_in empty_snapshot t = {}"
  "rowsets_in (add_rowset t r s) t' = (if t' = t then insert r (rowsets_in s t) else rowsets_in s t')"
  "rowsets_in (add_dv t r i s) t' = rowsets_in s t'"
  by (simp_all add: rowsets_in_def empty_snapshot_def add_rowset_def add_dv_def Let_def)

lemma dvs_in_simps [simp]:
  "dvs_in empty_snapshot t r = {}"
  "dvs_in (add_rowset t r s) t' r' = dvs_in s t' r'"
  "dvs_in (add_dv t r i s) t' r' = (if t' = t \<and> r' = r then insert i (dvs_in s t r) else dvs_in s t' r')"
  by (simp_all add: dvs_in_def empty_snapshot_def add_rowset_def add_dv_def Let_def)

lemma delete_rowset_view:
  "delete_rowset t r s = Some s' \<Longrightarrow>
   rowsets_in s' t' = (if t' = t then rowsets_in s t - {r} else rowsets_in s t') \<and> dvs_in s' t' r' = dvs_in s t' r'"
  by (cases "sn_rowsets s t") (auto simp: delete_rowset_def rowsets_in_def dvs_in_def Let_def split: if_splits)

lemma delete_dv_view:
  "delete_dv t r i s = Some s' \<Longrightarrow>
   rowsets_in s' t' = rowsets_in s t' \<and> dvs_in s' t' r' = (if t' = t \<and> r' = r then dvs_in s t r - {i} else dvs_in s t' r')"
proof -
  assume "delete_dv t r i s = Some s'"
  then obtain table D where td: "sn_dvs s t = Some table" "table r = Some D"
    "s' = s\<lparr>sn_dvs := (sn_dvs s)(t := if table(r := if D - {i} = {} then None else Some (D - {i})) = Map.empty then None
        else Some (table(r := if D - {i} = {} then None else Some (D - {i}))))\<rparr>"
    by (auto simp: delete_dv_def bind_eq_Some_conv Let_def)
  define table' where "table' = table(r := if D - {i} = {} then None else Some (D - {i}))"
  have "dvs_in s' t r' = or_default {} (table' r')"
    using td(3) unfolding table'_def [symmetric] by (simp add: dvs_in_def)
  moreover have "or_default {} (table' r') = (if r' = r then D - {i} else or_default {} (table r'))"
    by (simp add: table'_def)
  moreover have "dvs_in s t' r' = dvs_in s' t' r'" if "t' \<noteq> t" using td(3) that by (simp add: dvs_in_def)
  moreover have "rowsets_in s' t' = rowsets_in s t'" using td(3) by (simp add: rowsets_in_def)
  ultimately show ?thesis using td(1,2) by (cases "t' = t") (simp_all add: dvs_in_def)
qed

definition sn_refs :: "snapshot \<Rightarrow> (nat \<times> nat) set" where
  "sn_refs s = {(t, r). r \<in> rowsets_in s t}"

definition sn_dv_refs :: "snapshot \<Rightarrow> (nat \<times> nat) set" where
  "sn_dv_refs s = {(t, i). \<exists>r. i \<in> dvs_in s t r}"

lemma sn_refs_simps [simp]:
  "sn_refs empty_snapshot = {}" "sn_dv_refs empty_snapshot = {}"
  "sn_refs (add_rowset t r s) = insert (t, r) (sn_refs s)" "sn_dv_refs (add_rowset t r s) = sn_dv_refs s"
  "sn_refs (add_dv t r i s) = sn_refs s" "sn_dv_refs (add_dv t r i s) = insert (t, i) (sn_dv_refs s)"
  by (auto simp: sn_refs_def sn_dv_refs_def split: if_splits)

lemma delete_rowset_refs:
  assumes "delete_rowset t r s = Some s'"
  shows "sn_refs s' = sn_refs s - {(t, r)}" and "sn_dv_refs s' = sn_dv_refs s"
proof -
  have "x \<in> sn_refs s' \<longleftrightarrow> x \<in> sn_refs s - {(t, r)}" for x
    using delete_rowset_view [OF assms, of "fst x"] by (cases x) (auto simp: sn_refs_def split: if_splits)
  then show "sn_refs s' = sn_refs s - {(t, r)}" by blast
  show "sn_dv_refs s' = sn_dv_refs s" using delete_rowset_view [OF assms] by (simp add: sn_dv_refs_def)
qed

lemma delete_dv_refs:
  assumes "delete_dv t r i s = Some s'"
  shows "sn_refs s' = sn_refs s" and "sn_dv_refs s' \<subseteq> sn_dv_refs s"
proof -
  show "sn_refs s' = sn_refs s" using delete_dv_view [OF assms] by (simp add: sn_refs_def)
  have "dvs_in s' t' r' \<subseteq> dvs_in s t' r'" for t' r' using delete_dv_view [OF assms, of t' r'] by auto
  then show "sn_dv_refs s' \<subseteq> sn_dv_refs s" unfolding sn_dv_refs_def by blast
qed

section \<open>The effect of a commit\<close>

fun added_by :: "'rs epoch_op \<Rightarrow> (nat \<times> nat) set" where
  "added_by (EpAddRowSet t r rs) = {(tr_table_id t, r)}"
| "added_by _ = {}"

fun deleted_by :: "'rs epoch_op \<Rightarrow> (nat \<times> nat) set" where
  "deleted_by (EpDeleteRowSet t r) = {(tr_table_id t, r)}"
| "deleted_by _ = {}"

definition ops_added :: "'rs epoch_op list \<Rightarrow> (nat \<times> nat) set" where
  "ops_added ops = (\<Union>op\<in>set ops. added_by op)"

definition ops_deleted :: "'rs epoch_op list \<Rightarrow> (nat \<times> nat) set" where
  "ops_deleted ops = (\<Union>op\<in>set ops. deleted_by op)"

lemma ops_sets [simp]:
  "ops_added [] = {}" "ops_added (op # ops) = added_by op \<union> ops_added ops"
  "ops_deleted [] = {}" "ops_deleted (op # ops) = deleted_by op \<union> ops_deleted ops"
  by (simp_all add: ops_added_def ops_deleted_def)

lemma apply_op_effect:
  assumes "apply_op op (s, es, ds, m) = Some (s', es', ds', m')"
  shows "sn_refs s' = (sn_refs s - deleted_by op) \<union> added_by op
    \<and> (\<forall>d. d \<notin> added_by op \<longrightarrow> vm_rowsets m' d = vm_rowsets m d)
    \<and> dom (vm_rowsets m') = dom (vm_rowsets m) \<union> added_by op
    \<and> set ds' = set ds \<union> deleted_by op
    \<and> dom (vm_dvs m) \<subseteq> dom (vm_dvs m') \<and> (sn_dv_refs s \<subseteq> dom (vm_dvs m) \<longrightarrow> sn_dv_refs s' \<subseteq> dom (vm_dvs m'))
    \<and> vm_status m' = vm_status m \<and> vm_ref_cnt m' = vm_ref_cnt m \<and> vm_deletions m' = vm_deletions m \<and> vm_epoch m' = vm_epoch m"
proof (cases op)
  case (EpDeleteRowSet t r)
  with assms have "delete_rowset (tr_table_id t) r s = Some s'" "ds' = ds @ [(tr_table_id t, r)]" "m' = m" by auto
  then show ?thesis using EpDeleteRowSet by (simp add: delete_rowset_refs)
next
  case (EpDeleteDV t i r)
  with assms have "delete_dv (tr_table_id t) r i s = Some s'" "ds' = ds" "m' = m" by auto
  then show ?thesis using EpDeleteDV by (auto simp: delete_dv_refs(1) dest: delete_dv_refs(2))
qed (use assms in \<open>auto\<close>)

lemma apply_ops_effect:
  assumes "fold_opt apply_op ops (s, es, ds, m) = Some (s', es', ds', m')" and "ops_added ops \<inter> ops_deleted ops = {}"
  shows "sn_refs s' = (sn_refs s - ops_deleted ops) \<union> ops_added ops
    \<and> (\<forall>d. d \<notin> ops_added ops \<longrightarrow> vm_rowsets m' d = vm_rowsets m d)
    \<and> dom (vm_rowsets m') = dom (vm_rowsets m) \<union> ops_added ops
    \<and> set ds' = set ds \<union> ops_deleted ops
    \<and> dom (vm_dvs m) \<subseteq> dom (vm_dvs m') \<and> (sn_dv_refs s \<subseteq> dom (vm_dvs m) \<longrightarrow> sn_dv_refs s' \<subseteq> dom (vm_dvs m'))
    \<and> vm_status m' = vm_status m \<and> vm_ref_cnt m' = vm_ref_cnt m \<and> vm_deletions m' = vm_deletions m \<and> vm_epoch m' = vm_epoch m"
  using assms
proof (induction ops arbitrary: s es ds m)
  case Nil
  then show ?case by simp
next
  case (Cons op ops)
  then obtain s1 es1 ds1 m1 where op: "apply_op op (s, es, ds, m) = Some (s1, es1, ds1, m1)"
    and rest: "fold_opt apply_op ops (s1, es1, ds1, m1) = Some (s', es', ds', m')"
    by (auto simp: bind_eq_Some_conv)
  have disj: "ops_added ops \<inter> ops_deleted ops = {}" "ops_added ops \<inter> deleted_by op = {}" "added_by op \<inter> ops_deleted ops = {}"
    using Cons.prems(2) by auto
  note one = apply_op_effect [OF op] and more = Cons.IH [OF rest disj(1)]
  have "sn_refs s' = (sn_refs s - ops_deleted (op # ops)) \<union> ops_added (op # ops)"
    using one more disj by auto
  moreover have "\<forall>d. d \<notin> ops_added (op # ops) \<longrightarrow> vm_rowsets m' d = vm_rowsets m d" using one more by simp
  moreover have "dom (vm_rowsets m') = dom (vm_rowsets m) \<union> ops_added (op # ops)" using one more by auto
  moreover have "set ds' = set ds \<union> ops_deleted (op # ops)" using one more by auto
  moreover have "dom (vm_dvs m) \<subseteq> dom (vm_dvs m')" using one more by (meson subset_trans)
  moreover have "sn_dv_refs s \<subseteq> dom (vm_dvs m) \<longrightarrow> sn_dv_refs s' \<subseteq> dom (vm_dvs m')" using one more by meson
  ultimately show ?case using one more by simp
qed

text \<open>What the first half of a commit does to the manager.\<close>

lemma commit_prepare_effect:
  assumes "commit_prepare ops m = Some (p, entries, m')" and "ops_added ops \<inter> ops_deleted ops = {}"
  shows "sn_refs (pc_snapshot p) = (sn_refs (or_default empty_snapshot (vm_status m (vm_epoch m))) - ops_deleted ops) \<union> ops_added ops"
    and "\<And>d. d \<notin> ops_added ops \<Longrightarrow> vm_rowsets m' d = vm_rowsets m d"
    and "dom (vm_rowsets m') = dom (vm_rowsets m) \<union> ops_added ops"
    and "set (pc_deletions p) = ops_deleted ops"
    and "dom (vm_dvs m) \<subseteq> dom (vm_dvs m')"
    and "sn_dv_refs (or_default empty_snapshot (vm_status m (vm_epoch m))) \<subseteq> dom (vm_dvs m)
      \<Longrightarrow> sn_dv_refs (pc_snapshot p) \<subseteq> dom (vm_dvs m')"
    and "pc_current_epoch p = vm_epoch m" "vm_status m' = vm_status m" "vm_ref_cnt m' = vm_ref_cnt m"
      "vm_deletions m' = vm_deletions m" "vm_epoch m' = vm_epoch m"
proof -
  obtain s es ds where f: "fold_opt apply_op ops (or_default empty_snapshot (vm_status m (vm_epoch m)), [], [], m) = Some (s, es, ds, m')"
    and p: "p = \<lparr>pc_snapshot = s, pc_deletions = ds, pc_current_epoch = vm_epoch m\<rparr>"
    using assms(1) by (auto simp: commit_prepare_def bind_eq_Some_conv split: prod.splits)
  note e = apply_ops_effect [OF f assms(2)]
  show "sn_refs (pc_snapshot p) = (sn_refs (or_default empty_snapshot (vm_status m (vm_epoch m))) - ops_deleted ops) \<union> ops_added ops"
    "\<And>d. d \<notin> ops_added ops \<Longrightarrow> vm_rowsets m' d = vm_rowsets m d"
    "dom (vm_rowsets m') = dom (vm_rowsets m) \<union> ops_added ops"
    "set (pc_deletions p) = ops_deleted ops" "dom (vm_dvs m) \<subseteq> dom (vm_dvs m')"
    "sn_dv_refs (or_default empty_snapshot (vm_status m (vm_epoch m))) \<subseteq> dom (vm_dvs m)
      \<Longrightarrow> sn_dv_refs (pc_snapshot p) \<subseteq> dom (vm_dvs m')"
    "pc_current_epoch p = vm_epoch m" "vm_status m' = vm_status m" "vm_ref_cnt m' = vm_ref_cnt m"
    "vm_deletions m' = vm_deletions m" "vm_epoch m' = vm_epoch m"
    using e by (simp_all add: p split_paired_all)
qed

section \<open>The vacuum\<close>

lemma find_member: "find P xs = Some k \<Longrightarrow> k \<in> set xs \<and> P k"
  by (induction xs) (auto split: if_splits)

lemma find_Some_least:
  "\<lbrakk>e \<le> n; P e\<rbrakk> \<Longrightarrow> \<exists>k. find P [0 ..< Suc n] = Some k \<and> k \<le> e"
proof (induction n)
  case (Suc n)
  have ap: "find P (xs @ [y]) = (case find P xs of Some z \<Rightarrow> Some z | None \<Rightarrow> if P y then Some y else None)" for xs y
    by (induction xs) auto
  show ?case
  proof (cases "e \<le> n")
    case True
    then show ?thesis using Suc ap [of "[0 ..< Suc n]" "Suc n"] by auto
  next
    case False
    then have e: "e = Suc n" using Suc.prems by simp
    show ?thesis
    proof (cases "find P [0 ..< Suc n]")
      case None
      then show ?thesis using ap [of "[0 ..< Suc n]" "Suc n"] e Suc.prems by simp
    next
      case (Some k)
      then have "k \<in> set [0 ..< Suc n]" using find_member by metis
      then show ?thesis using ap [of "[0 ..< Suc n]" "Suc n"] Some e by (simp del: upt_Suc) simp
    qed
  qed
qed simp

lemma drop_rowsets_None: "drop_rowsets held ds pool = None \<longleftrightarrow> (\<exists>d\<in>set ds. pool d \<noteq> None \<and> held d)"
proof (induction ds arbitrary: pool)
  case (Cons d ds)
  show ?case
  proof (cases "pool d")
    case (Some rs)
    define pool' where "pool' = pool(d := None)"
    have pool': "pool' x \<noteq> None \<longleftrightarrow> x \<noteq> d \<and> pool x \<noteq> None" for x by (simp add: pool'_def)
    have "drop_rowsets held (d # ds) pool = (if held d then None else drop_rowsets held ds pool')" using Some by (simp add: pool'_def)
    then show ?thesis using Cons.IH [of pool'] Some unfolding pool' by (cases "held d") auto
  qed (use Cons.IH in simp)
qed simp

lemma drop_rowsets_pool: "drop_rowsets held ds pool = Some pool' \<Longrightarrow> pool' d = (if d \<in> set ds then None else pool d)"
  by (induction ds arbitrary: pool) (auto split: option.splits if_splits)

definition vacuum_epoch :: "'rs version_manager \<Rightarrow> nat" where
  "vacuum_epoch m = or_default (vm_epoch m) (min_pinned_epoch m)"

definition vacuum_set :: "'rs version_manager \<Rightarrow> (nat \<times> nat) set" where
  "vacuum_set m = {d. \<exists>k ds. k \<le> vacuum_epoch m \<and> vm_deletions m k = Some ds \<and> d \<in> set ds}"

lemma min_pinned_epoch_le:
  assumes "vm_ref_cnt m e \<noteq> None" and "e \<le> vm_epoch m"
  shows "vacuum_epoch m \<le> e"
proof -
  obtain k where k: "min_pinned_epoch m = Some k" "k \<le> e"
    using find_Some_least [of e "vm_epoch m" "\<lambda>e. vm_ref_cnt m e \<noteq> None"] assms by (auto simp: min_pinned_epoch_def)
  then show ?thesis by (simp add: vacuum_epoch_def)
qed

lemma vacuum_epoch_le: "vacuum_epoch m \<le> vm_epoch m"
proof (cases "min_pinned_epoch m")
  case (Some k)
  then have "k \<in> set [0 ..< Suc (vm_epoch m)]" unfolding min_pinned_epoch_def using find_member by metis
  then show ?thesis using Some by (auto simp: vacuum_epoch_def)
qed (simp add: vacuum_epoch_def)

lemma find_vacuum_spec:
  assumes "dom (vm_deletions m) \<subseteq> {..vm_epoch m}"
  shows "find_vacuum held m = None \<longleftrightarrow> (\<exists>d\<in>vacuum_set m. vm_rowsets m d \<noteq> None \<and> held d)"
    and "find_vacuum held m = Some (ds, m') \<Longrightarrow>
      set ds = vacuum_set m \<and> m' = m\<lparr>vm_deletions := (\<lambda>e. if e \<le> vacuum_epoch m then None else vm_deletions m e),
        vm_rowsets := (\<lambda>d. if d \<in> vacuum_set m then None else vm_rowsets m d)\<rparr>"
proof -
  define dels where "dels = concat (map (\<lambda>e. if e \<le> vacuum_epoch m then or_default [] (vm_deletions m e) else []) [0 ..< Suc (vm_epoch m)])"
  have set: "set dels = vacuum_set m"
  proof -
    have mem: "d \<in> set dels \<longleftrightarrow> (\<exists>e<Suc (vm_epoch m). e \<le> vacuum_epoch m \<and> d \<in> set (or_default [] (vm_deletions m e)))" for d
      by (auto simp: dels_def simp del: upt_Suc split: if_splits)
    have le: "k < Suc (vm_epoch m)" if "vm_deletions m k = Some ds" for k ds using assms that by force
    have df: "d \<in> set (or_default [] x) \<longleftrightarrow> (\<exists>ds. x = Some ds \<and> d \<in> set ds)" for d :: "nat \<times> nat" and x by (cases x) auto
    have "d \<in> set dels \<longleftrightarrow> d \<in> vacuum_set m" for d
      unfolding mem df vacuum_set_def mem_Collect_eq using le by blast
    then show ?thesis by blast
  qed
  have fv: "find_vacuum held m = do {
     pool \<leftarrow> drop_rowsets held dels (vm_rowsets m);
     Some (dels, m\<lparr>vm_deletions := (\<lambda>e. if e \<le> vacuum_epoch m then None else vm_deletions m e), vm_rowsets := pool\<rparr>) }"
    by (simp add: find_vacuum_def dels_def Let_def vacuum_epoch_def)
  show "find_vacuum held m = None \<longleftrightarrow> (\<exists>d\<in>vacuum_set m. vm_rowsets m d \<noteq> None \<and> held d)"
    by (simp add: fv bind_eq_None_conv drop_rowsets_None set)
  show "set ds = vacuum_set m \<and> m' = m\<lparr>vm_deletions := (\<lambda>e. if e \<le> vacuum_epoch m then None else vm_deletions m e),
        vm_rowsets := (\<lambda>d. if d \<in> vacuum_set m then None else vm_rowsets m d)\<rparr>"
    if found: "find_vacuum held m = Some (ds, m')"
  proof -
    obtain pool where "drop_rowsets held dels (vm_rowsets m) = Some pool" "ds = dels"
      "m' = m\<lparr>vm_deletions := (\<lambda>e. if e \<le> vacuum_epoch m then None else vm_deletions m e), vm_rowsets := pool\<rparr>"
      using found by (auto simp: fv bind_eq_Some_conv)
    moreover from this(1) have "pool = (\<lambda>d. if d \<in> vacuum_set m then None else vm_rowsets m d)"
      by (auto simp: fun_eq_iff drop_rowsets_pool set)
    ultimately show ?thesis using set by simp
  qed
qed

section \<open>All interleavings\<close>

text \<open>
  The versions held by transactions, a commit between its two halves (at most one: the manifest lock is
  held across both), and the manager. The row sets a commit adds are fresh: their ids come from the
  table's atomic counter, so no row set of the pool, none that waits for its deletion and none the
  same commit deletes has them.
\<close>

record 'rs vm_sys =
  sy_vm :: "'rs version_manager"
  sy_pinned :: "version list"
  sy_pending :: "pending_commit option"

definition fresh_ops :: "'rs epoch_op list \<Rightarrow> 'rs version_manager \<Rightarrow> bool" where
  "fresh_ops ops m \<longleftrightarrow> ops_added ops \<inter> ops_deleted ops = {} \<and> ops_added ops \<inter> dom (vm_rowsets m) = {}
     \<and> (\<forall>k ds. vm_deletions m k = Some ds \<longrightarrow> ops_added ops \<inter> set ds = {})"

inductive vm_step :: "'rs vm_sys \<Rightarrow> 'rs vm_sys \<Rightarrow> bool" where
  Prepare: "\<lbrakk>sy_pending y = None; fresh_ops ops (sy_vm y); commit_prepare ops (sy_vm y) = Some (p, entries, m')\<rbrakk>
    \<Longrightarrow> vm_step y (y\<lparr>sy_vm := m', sy_pending := Some p\<rparr>)"
| Publish: "\<lbrakk>sy_pending y = Some p; commit_publish p (sy_vm y) = Some (epoch, m')\<rbrakk>
    \<Longrightarrow> vm_step y (y\<lparr>sy_vm := m', sy_pending := None\<rparr>)"
| Append_fails: "sy_pending y = Some p \<Longrightarrow> vm_step y (y\<lparr>sy_pending := None\<rparr>)"
| Pin: "pin (sy_vm y) = Some (v, m') \<Longrightarrow> vm_step y (y\<lparr>sy_vm := m', sy_pinned := v # sy_pinned y\<rparr>)"
| Unpin: "\<lbrakk>v \<in> set (sy_pinned y); unpin v (sy_vm y) = Some (note_vacuum, m')\<rbrakk>
    \<Longrightarrow> vm_step y (y\<lparr>sy_vm := m', sy_pinned := remove1 v (sy_pinned y)\<rparr>)"
| Vacuum: "find_vacuum held (sy_vm y) = Some (ds, m') \<Longrightarrow> vm_step y (y\<lparr>sy_vm := m'\<rparr>)"

definition vm_init :: "'rs vm_sys" where
  "vm_init = \<lparr>sy_vm = vm_new, sy_pinned = [], sy_pending = None\<rparr>"

abbreviation vm_steps :: "'rs vm_sys \<Rightarrow> 'rs vm_sys \<Rightarrow> bool" where
  "vm_steps \<equiv> vm_step\<^sup>*\<^sup>*"

subsection \<open>The invariant\<close>

definition pins_at :: "version list \<Rightarrow> nat \<Rightarrow> nat" where
  "pins_at vs e = length (filter (\<lambda>v. ve_epoch v = e) vs)"

text \<open>The reference counts are the numbers of pinned versions.\<close>

definition counts_ok :: "'rs version_manager \<Rightarrow> version list \<Rightarrow> bool" where
  "counts_ok m vs \<longleftrightarrow> (\<forall>e. vm_ref_cnt m e = (if pins_at vs e = 0 then None else Some (pins_at vs e)))
     \<and> (\<forall>v\<in>set vs. vm_status m (ve_epoch v) = Some (ve_snapshot v))"

text \<open>Statuses and deletions belong to published epochs, and a row set deleted at an epoch is in no later snapshot.\<close>

definition history_ok :: "'rs version_manager \<Rightarrow> bool" where
  "history_ok m \<longleftrightarrow> dom (vm_status m) = {1..vm_epoch m} \<and> dom (vm_deletions m) \<subseteq> {..vm_epoch m}
     \<and> (\<forall>k ds e s. vm_deletions m k = Some ds \<longrightarrow> k \<le> e \<longrightarrow> vm_status m e = Some s \<longrightarrow> set ds \<inter> sn_refs s = {})"

definition resident :: "'rs version_manager \<Rightarrow> snapshot \<Rightarrow> bool" where
  "resident m s \<longleftrightarrow> sn_refs s \<subseteq> dom (vm_rowsets m) \<and> sn_dv_refs s \<subseteq> dom (vm_dvs m)"

definition pending_ok :: "'rs version_manager \<Rightarrow> pending_commit \<Rightarrow> bool" where
  "pending_ok m p \<longleftrightarrow> pc_current_epoch p = vm_epoch m \<and> resident m (pc_snapshot p) \<and> set (pc_deletions p) \<inter> sn_refs (pc_snapshot p) = {}
     \<and> (\<forall>k ds. vm_deletions m k = Some ds \<longrightarrow> set ds \<inter> sn_refs (pc_snapshot p) = {})"

definition vm_inv :: "'rs vm_sys \<Rightarrow> bool" where
  "vm_inv y \<longleftrightarrow> counts_ok (sy_vm y) (sy_pinned y) \<and> history_ok (sy_vm y)
     \<and> (\<forall>v\<in>set (sy_pinned y). resident (sy_vm y) (ve_snapshot v))
     \<and> resident (sy_vm y) (or_default empty_snapshot (vm_status (sy_vm y) (vm_epoch (sy_vm y))))
     \<and> (\<forall>p. sy_pending y = Some p \<longrightarrow> pending_ok (sy_vm y) p)"

lemma pins_at_simps [simp]:
  "pins_at [] e = 0" "pins_at (v # vs) e = (if ve_epoch v = e then Suc (pins_at vs e) else pins_at vs e)"
  by (simp_all add: pins_at_def)

lemma pins_at_pos: "v \<in> set vs \<Longrightarrow> 0 < pins_at vs (ve_epoch v)"
  by (induction vs) auto

lemma pins_at_remove1:
  "v \<in> set vs \<Longrightarrow> pins_at (remove1 v vs) e = (if ve_epoch v = e then pins_at vs e - 1 else pins_at vs e)"
proof (induction vs)
  case (Cons w vs)
  then show ?case using pins_at_pos [of v vs] by (cases "v = w") auto
qed simp

lemma vm_inv_init: "vm_inv vm_init"
  by (auto simp: vm_inv_def vm_init_def vm_new_def counts_ok_def history_ok_def resident_def)

lemma resident_mono:
  "\<lbrakk>resident m s; dom (vm_rowsets m) \<subseteq> dom (vm_rowsets m'); dom (vm_dvs m) \<subseteq> dom (vm_dvs m')\<rbrakk> \<Longrightarrow> resident m' s"
  unfolding resident_def by blast

lemma inv_prepare:
  assumes "vm_inv y" "sy_pending y = None" "fresh_ops ops (sy_vm y)" "commit_prepare ops (sy_vm y) = Some (p, entries, m')"
  shows "vm_inv (y\<lparr>sy_vm := m', sy_pending := Some p\<rparr>)"
proof -
  let ?m = "sy_vm y" and ?cur = "or_default empty_snapshot (vm_status (sy_vm y) (vm_epoch (sy_vm y)))"
  have disj: "ops_added ops \<inter> ops_deleted ops = {}" using assms(3) by (simp add: fresh_ops_def)
  note e = commit_prepare_effect [OF assms(4) disj]
  have res: "resident ?m ?cur" and hist: "history_ok ?m" using assms(1) by (simp_all add: vm_inv_def)
  have mono: "resident m' s" if "resident ?m s" for s using resident_mono [OF that] e(3,5) by blast
  have cur: "set ds \<inter> sn_refs ?cur = {}" if "vm_deletions ?m k = Some ds" for k ds
  proof (cases "vm_status ?m (vm_epoch ?m)")
    case (Some s)
    have "k \<le> vm_epoch ?m" using hist that by (auto simp: history_ok_def)
    then show ?thesis using hist that Some by (simp add: history_ok_def)
  qed simp
  have "set ds \<inter> sn_refs (pc_snapshot p) = {}" if "vm_deletions ?m k = Some ds" for k ds
    using cur [OF that] assms(3) that e(1) unfolding fresh_ops_def by blast
  moreover have "resident m' (pc_snapshot p)"
    using res e(1,3,6) by (auto simp: resident_def)
  moreover have "set (pc_deletions p) \<inter> sn_refs (pc_snapshot p) = {}" using e(1,4) disj by auto
  ultimately have "pending_ok m' p" using e(7,10,11) by (simp add: pending_ok_def)
  moreover have "counts_ok m' (sy_pinned y)" using assms(1) e(8,9) by (simp add: vm_inv_def counts_ok_def)
  moreover have "history_ok m'" using hist e(8,10,11) by (simp add: history_ok_def)
  ultimately show ?thesis using assms(1) e(8,11) mono by (simp add: vm_inv_def)
qed

lemma inv_publish:
  assumes "vm_inv y" "sy_pending y = Some p" "commit_publish p (sy_vm y) = Some (epoch, m')"
  shows "vm_inv (y\<lparr>sy_vm := m', sy_pending := None\<rparr>)"
proof -
  let ?m = "sy_vm y"
  have m': "m' = ?m\<lparr>vm_epoch := vm_epoch ?m + 1, vm_status := (vm_status ?m)(vm_epoch ?m + 1 \<mapsto> pc_snapshot p),
      vm_deletions := (vm_deletions ?m)(vm_epoch ?m + 1 \<mapsto> pc_deletions p)\<rparr>"
    using assms(3) by (auto simp: commit_publish_def bind_eq_Some_conv Let_def)
  have inv: "counts_ok ?m (sy_pinned y)" "history_ok ?m" "pending_ok ?m p"
    "\<forall>v\<in>set (sy_pinned y). resident ?m (ve_snapshot v)" using assms(1,2) by (simp_all add: vm_inv_def)
  have res: "resident m' s = resident ?m s" for s by (simp add: m' resident_def)
  have old: "vm_status ?m e = None" if "vm_epoch ?m < e" for e
  proof -
    have "e \<notin> dom (vm_status ?m)" using inv(2) that by (simp add: history_ok_def)
    then show ?thesis by (simp add: domIff)
  qed
  have "counts_ok m' (sy_pinned y)" using inv(1) old by (auto simp: counts_ok_def m')
  moreover have "history_ok m'"
  proof -
    have "set ds \<inter> sn_refs s = {}" if d: "vm_deletions m' k = Some ds" "k \<le> e" "vm_status m' e = Some s" for k ds e s
    proof (cases "e = vm_epoch ?m + 1")
      case True
      then show ?thesis using d inv(3) by (auto simp: m' pending_ok_def split: if_splits)
    next
      case False
      then have "e \<le> vm_epoch ?m" using d(3) old [of e] by (force simp: m' not_le)
      then show ?thesis using d inv(2) False by (simp add: m' history_ok_def split: if_splits)
    qed
    moreover have "dom (vm_status m') = {1..vm_epoch m'}" using inv(2) by (auto simp: m' history_ok_def)
    moreover have "dom (vm_deletions m') \<subseteq> {..vm_epoch m'}" using inv(2) by (auto simp: m' history_ok_def)
    ultimately show ?thesis unfolding history_ok_def by blast
  qed
  moreover have "resident m' (or_default empty_snapshot (vm_status m' (vm_epoch m')))"
    using inv(3) unfolding res by (simp add: m' pending_ok_def)
  ultimately show ?thesis using inv(4) res by (simp add: vm_inv_def)
qed

lemma inv_pin:
  assumes "vm_inv y" "pin (sy_vm y) = Some (v, m')"
  shows "vm_inv (y\<lparr>sy_vm := m', sy_pinned := v # sy_pinned y\<rparr>)"
proof -
  let ?m = "sy_vm y"
  obtain s where s: "vm_status ?m (vm_epoch ?m) = Some s" "v = \<lparr>ve_epoch = vm_epoch ?m, ve_snapshot = s\<rparr>"
    "m' = ?m\<lparr>vm_ref_cnt := (vm_ref_cnt ?m)(vm_epoch ?m \<mapsto> or_default 0 (vm_ref_cnt ?m (vm_epoch ?m)) + 1)\<rparr>"
    using assms(2) by (auto simp: pin_def bind_eq_Some_conv Let_def)
  have "counts_ok m' (v # sy_pinned y)" using assms(1) by (auto simp: s vm_inv_def counts_ok_def)
  then show ?thesis using assms(1) by (simp add: vm_inv_def s history_ok_def resident_def pending_ok_def)
qed

lemma unpin_succeeds:
  assumes "counts_ok m vs" "v \<in> set vs"
  shows "unpin v m = Some (if pins_at vs (ve_epoch v) = 1
           then (ve_epoch v \<noteq> vm_epoch m, m\<lparr>vm_ref_cnt := (vm_ref_cnt m)(ve_epoch v := None)\<rparr>)
           else (False, m\<lparr>vm_ref_cnt := (vm_ref_cnt m)(ve_epoch v \<mapsto> pins_at vs (ve_epoch v) - 1)\<rparr>))"
proof -
  have "vm_ref_cnt m (ve_epoch v) = Some (pins_at vs (ve_epoch v))" "0 < pins_at vs (ve_epoch v)"
    using assms pins_at_pos by (auto simp: counts_ok_def)
  then show ?thesis by (auto simp: unpin_def checked_sub_def)
qed

lemma inv_unpin:
  assumes "vm_inv y" "v \<in> set (sy_pinned y)" "unpin v (sy_vm y) = Some (n, m')"
  shows "vm_inv (y\<lparr>sy_vm := m', sy_pinned := remove1 v (sy_pinned y)\<rparr>)"
proof -
  let ?m = "sy_vm y" and ?vs = "sy_pinned y"
  have cnt: "counts_ok ?m ?vs" using assms(1) by (simp add: vm_inv_def)
  have pos: "0 < pins_at ?vs (ve_epoch v)" using assms(2) by (rule pins_at_pos)
  have m': "m' = ?m\<lparr>vm_ref_cnt := (vm_ref_cnt ?m)(ve_epoch v := if pins_at ?vs (ve_epoch v) = 1 then None
      else Some (pins_at ?vs (ve_epoch v) - 1))\<rparr>"
    using assms(3) unpin_succeeds [OF cnt assms(2)] by (auto split: if_splits)
  have "counts_ok m' (remove1 v ?vs)"
    using cnt pos notin_set_remove1 by (fastforce simp: counts_ok_def m' pins_at_remove1 [OF assms(2)])
  moreover have "set (remove1 v ?vs) \<subseteq> set ?vs" by (rule set_remove1_subset)
  ultimately show ?thesis using assms(1) by (auto simp: vm_inv_def m' history_ok_def resident_def pending_ok_def)
qed

lemma pinned_epoch:
  assumes "vm_inv y" "v \<in> set (sy_pinned y)"
  shows "vm_ref_cnt (sy_vm y) (ve_epoch v) \<noteq> None" "ve_epoch v \<le> vm_epoch (sy_vm y)"
    "vm_status (sy_vm y) (ve_epoch v) = Some (ve_snapshot v)"
proof -
  have c: "counts_ok (sy_vm y) (sy_pinned y)" and h: "history_ok (sy_vm y)" using assms(1) by (simp_all add: vm_inv_def)
  show "vm_ref_cnt (sy_vm y) (ve_epoch v) \<noteq> None" using c pins_at_pos [OF assms(2)] by (simp add: counts_ok_def)
  show st: "vm_status (sy_vm y) (ve_epoch v) = Some (ve_snapshot v)" using c assms(2) by (simp add: counts_ok_def)
  have "ve_epoch v \<in> dom (vm_status (sy_vm y))" using st by blast
  then show "ve_epoch v \<le> vm_epoch (sy_vm y)" using h by (simp add: history_ok_def)
qed

text \<open>The heart of the matter: what the vacuum removes is referred to by no pinned version, by the
  current version and by no commit in flight.\<close>

lemma vacuum_disjoint:
  assumes "vm_inv y"
  shows "v \<in> set (sy_pinned y) \<Longrightarrow> vacuum_set (sy_vm y) \<inter> sn_refs (ve_snapshot v) = {}"
    and "vacuum_set (sy_vm y) \<inter> sn_refs (or_default empty_snapshot (vm_status (sy_vm y) (vm_epoch (sy_vm y)))) = {}"
    and "sy_pending y = Some p \<Longrightarrow> vacuum_set (sy_vm y) \<inter> sn_refs (pc_snapshot p) = {}"
proof -
  let ?m = "sy_vm y"
  have h: "history_ok ?m" using assms by (simp add: vm_inv_def)
  have later: "vacuum_set ?m \<inter> sn_refs s = {}" if "vacuum_epoch ?m \<le> e" "vm_status ?m e = Some s" for e s
  proof -
    have "set ds \<inter> sn_refs s = {}" if "k \<le> vacuum_epoch ?m" "vm_deletions ?m k = Some ds" for k ds
      using h that \<open>vacuum_epoch ?m \<le> e\<close> \<open>vm_status ?m e = Some s\<close> unfolding history_ok_def by (meson le_trans)
    then show ?thesis unfolding vacuum_set_def by blast
  qed
  show "vacuum_set ?m \<inter> sn_refs (ve_snapshot v) = {}" if "v \<in> set (sy_pinned y)"
    using later pinned_epoch [OF assms that] min_pinned_epoch_le by metis
  show "vacuum_set ?m \<inter> sn_refs (or_default empty_snapshot (vm_status ?m (vm_epoch ?m))) = {}"
    using later [OF vacuum_epoch_le] by (cases "vm_status ?m (vm_epoch ?m)") simp_all
  show "vacuum_set ?m \<inter> sn_refs (pc_snapshot p) = {}" if "sy_pending y = Some p"
  proof -
    have "set ds \<inter> sn_refs (pc_snapshot p) = {}" if "vm_deletions ?m k = Some ds" for k ds
      using assms that \<open>sy_pending y = Some p\<close> by (simp add: vm_inv_def pending_ok_def)
    then show ?thesis unfolding vacuum_set_def by blast
  qed
qed

lemma vacuum_result:
  assumes "vm_inv y" "find_vacuum held (sy_vm y) = Some (ds, m')"
  shows "set ds = vacuum_set (sy_vm y)"
    and "m' = (sy_vm y)\<lparr>vm_deletions := (\<lambda>e. if e \<le> vacuum_epoch (sy_vm y) then None else vm_deletions (sy_vm y) e),
        vm_rowsets := (\<lambda>d. if d \<in> vacuum_set (sy_vm y) then None else vm_rowsets (sy_vm y) d)\<rparr>"
proof -
  have "dom (vm_deletions (sy_vm y)) \<subseteq> {..vm_epoch (sy_vm y)}" using assms(1) by (simp add: vm_inv_def history_ok_def)
  from find_vacuum_spec(2) [OF this assms(2)]
  show "set ds = vacuum_set (sy_vm y)"
    and "m' = (sy_vm y)\<lparr>vm_deletions := (\<lambda>e. if e \<le> vacuum_epoch (sy_vm y) then None else vm_deletions (sy_vm y) e),
        vm_rowsets := (\<lambda>d. if d \<in> vacuum_set (sy_vm y) then None else vm_rowsets (sy_vm y) d)\<rparr>" by blast+
qed

lemma inv_vacuum:
  assumes "vm_inv y" "find_vacuum held (sy_vm y) = Some (ds, m')"
  shows "vm_inv (y\<lparr>sy_vm := m'\<rparr>)"
proof -
  let ?m = "sy_vm y"
  note m' = vacuum_result(2) [OF assms] and dis = vacuum_disjoint [OF assms(1)]
  have sub: "vm_deletions m' k = Some ds \<Longrightarrow> vm_deletions ?m k = Some ds" for k ds by (simp add: m' split: if_splits)
  have res: "resident m' s" if "resident ?m s" "vacuum_set ?m \<inter> sn_refs s = {}" for s
    using that unfolding resident_def m' by (auto simp: dom_def)
  have inv: "counts_ok ?m (sy_pinned y)" "history_ok ?m" "resident ?m (or_default empty_snapshot (vm_status ?m (vm_epoch ?m)))"
    "\<forall>v\<in>set (sy_pinned y). resident ?m (ve_snapshot v)" "\<forall>p. sy_pending y = Some p \<longrightarrow> pending_ok ?m p"
    using assms(1) by (simp_all add: vm_inv_def)
  have same: "vm_status m' = vm_status ?m" "vm_epoch m' = vm_epoch ?m" "vm_ref_cnt m' = vm_ref_cnt ?m" by (simp_all add: m')
  have "counts_ok m' (sy_pinned y)" using inv(1) by (simp add: counts_ok_def same)
  moreover have "dom (vm_deletions m') \<subseteq> dom (vm_deletions ?m)" using sub by blast
  then have "history_ok m'" using inv(2) sub unfolding history_ok_def same by (meson subset_trans)
  moreover have "pending_ok m' p" if "sy_pending y = Some p" for p
    using inv(5) that res [OF _ dis(3) [OF that]] sub by (simp add: pending_ok_def same) blast
  ultimately show ?thesis using inv(3,4) res dis(1,2) by (simp add: vm_inv_def same)
qed

lemma vm_inv_step: "\<lbrakk>vm_step y y'; vm_inv y\<rbrakk> \<Longrightarrow> vm_inv y'"
proof (induction rule: vm_step.induct)
  case (Append_fails y p)
  then show ?case by (simp add: vm_inv_def)
qed (simp_all add: inv_prepare inv_publish inv_pin inv_unpin inv_vacuum)

lemma vm_inv_steps: "vm_steps y y' \<Longrightarrow> vm_inv y \<Longrightarrow> vm_inv y'"
  by (induction rule: rtranclp_induct) (auto intro: vm_inv_step)

text \<open>A step changes no row set that a version pinned across it refers to.\<close>

lemma step_keeps_rowsets:
  assumes "vm_step y y'" "vm_inv y" "v \<in> set (sy_pinned y)" "d \<in> sn_refs (ve_snapshot v)"
  shows "vm_rowsets (sy_vm y') d = vm_rowsets (sy_vm y) d"
  using assms
proof (cases rule: vm_step.cases)
  case (Prepare ops p entries m')
  have "d \<in> dom (vm_rowsets (sy_vm y))" using assms(2-4) by (auto simp: vm_inv_def resident_def)
  then have "d \<notin> ops_added ops" "ops_added ops \<inter> ops_deleted ops = {}"
    using Prepare(3) by (auto simp: fresh_ops_def)
  then show ?thesis using Prepare(1) commit_prepare_effect(2) [OF Prepare(4)] by simp
next
  case (Vacuum held ds m')
  have "d \<notin> vacuum_set (sy_vm y)" using vacuum_disjoint(1) [OF assms(2,3)] assms(4) by blast
  then show ?thesis using Vacuum(1) vacuum_result(2) [OF assms(2) Vacuum(2)] by simp
qed (auto simp: commit_publish_def pin_def unpin_def Let_def bind_eq_Some_conv split: if_splits)

section \<open>An example run\<close>

text \<open>A commit adds row set 7 of table 1, a reader pins the version, and a second commit replaces row set 7 by 8.\<close>

definition ex_ref :: table_ref_id where
  "ex_ref = \<lparr>tr_schema_id = 0, tr_table_id = 1\<rparr>"

definition ex_snapshot :: "nat \<Rightarrow> snapshot" where
  "ex_snapshot r = \<lparr>sn_rowsets = [1 \<mapsto> {r}], sn_dvs = Map.empty\<rparr>"

definition ex_version :: version where
  "ex_version = \<lparr>ve_epoch = 1, ve_snapshot = ex_snapshot 7\<rparr>"

definition ex_first :: "unit version_manager" where
  "ex_first = vm_new\<lparr>vm_status := [1 \<mapsto> ex_snapshot 7], vm_rowsets := [(1, 7) \<mapsto> ()], vm_deletions := [1 \<mapsto> []], vm_epoch := 1\<rparr>"

definition ex_second :: "unit version_manager" where
  "ex_second = vm_new\<lparr>vm_status := [1 \<mapsto> ex_snapshot 7, 2 \<mapsto> ex_snapshot 8], vm_rowsets := [(1, 7) \<mapsto> (), (1, 8) \<mapsto> ()],
     vm_deletions := [1 \<mapsto> [], 2 \<mapsto> [(1, 7)]], vm_epoch := 2\<rparr>"

definition ex_pinned :: "unit vm_sys" where
  "ex_pinned = \<lparr>sy_vm = ex_first\<lparr>vm_ref_cnt := [1 \<mapsto> 1]\<rparr>, sy_pinned = [ex_version], sy_pending = None\<rparr>"

definition ex_replaced :: "unit vm_sys" where
  "ex_replaced = \<lparr>sy_vm = ex_second\<lparr>vm_ref_cnt := [1 \<mapsto> 1]\<rparr>, sy_pinned = [ex_version], sy_pending = None\<rparr>"

definition ex_released :: "unit vm_sys" where
  "ex_released = \<lparr>sy_vm = ex_second, sy_pinned = [], sy_pending = None\<rparr>"

lemmas ex_defs = ex_ref_def ex_snapshot_def ex_version_def ex_first_def ex_second_def ex_pinned_def ex_replaced_def ex_released_def
  vm_new_def vm_init_def

lemma step_eq: "vm_step y z \<Longrightarrow> z = z' \<Longrightarrow> vm_step y z'"
  by simp

lemma commit_steps:
  assumes "sy_pending y = None" "fresh_ops ops (sy_vm y)" "commit_changes ops (sy_vm y) = Some (entries, e, m')"
  shows "\<exists>z. vm_step y z \<and> vm_step z (y\<lparr>sy_vm := m'\<rparr>) \<and> sy_pinned z = sy_pinned y"
proof -
  obtain p m where c: "commit_prepare ops (sy_vm y) = Some (p, entries, m)" "commit_publish p m = Some (e, m')"
    using assms(3) by (auto simp: commit_changes_def bind_eq_Some_conv split: prod.splits)
  let ?z = "y\<lparr>sy_vm := m, sy_pending := Some p\<rparr>"
  have "vm_step y ?z" using assms(1,2) c(1) by (rule Prepare)
  moreover have "vm_step ?z (?z\<lparr>sy_vm := m', sy_pending := None\<rparr>)" using c(2) by (intro Publish) simp_all
  moreover have "?z\<lparr>sy_vm := m', sy_pending := None\<rparr> = y\<lparr>sy_vm := m'\<rparr>" using assms(1) by simp
  ultimately show ?thesis by (intro exI [of _ ?z]) simp
qed

lemma ex_commit_first: "\<exists>z. vm_step vm_init z \<and> vm_step z (vm_init\<lparr>sy_vm := ex_first\<rparr>)"
proof -
  have "fresh_ops [EpAddRowSet ex_ref 7 ()] (sy_vm vm_init)" by (simp add: fresh_ops_def ex_defs)
  moreover have "commit_changes [EpAddRowSet ex_ref 7 ()] (sy_vm vm_init) = Some ([AddRowSet ex_ref 7], 1, ex_first)"
    by (simp add: commit_changes_def ex_defs commit_prepare_def commit_publish_def empty_snapshot_def add_rowset_def Let_def)
  moreover have "sy_pending vm_init = None" by (simp add: vm_init_def)
  ultimately show ?thesis using commit_steps [of vm_init "[EpAddRowSet ex_ref 7 ()]"] by blast
qed

lemma ex_pin: "vm_step (vm_init\<lparr>sy_vm := ex_first\<rparr>) ex_pinned"
  by (rule step_eq [OF Pin]) (simp_all add: pin_def ex_defs)

lemma ex_commit_second: "\<exists>z. vm_step ex_pinned z \<and> vm_step z ex_replaced \<and> sy_pinned z = [ex_version]"
proof -
  let ?ops = "[EpDeleteRowSet ex_ref 7, EpAddRowSet ex_ref 8 ()]"
  have "fresh_ops ?ops (sy_vm ex_pinned)" by (simp add: fresh_ops_def ex_defs split: if_splits)
  moreover have "commit_changes ?ops (sy_vm ex_pinned)
      = Some ([DeleteRowSet ex_ref 7, AddRowSet ex_ref 8], 2, sy_vm ex_replaced)"
    by (simp add: commit_changes_def ex_defs commit_prepare_def commit_publish_def delete_rowset_def add_rowset_def Let_def
        numeral_2_eq_2)
  moreover have "sy_pending ex_pinned = None" "sy_pinned ex_pinned = [ex_version]"
    "ex_pinned\<lparr>sy_vm := sy_vm ex_replaced\<rparr> = ex_replaced" by (simp_all add: ex_pinned_def ex_replaced_def)
  ultimately show ?thesis using commit_steps [of ex_pinned ?ops] by metis
qed

lemma ex_unpin: "vm_step ex_replaced ex_released"
  by (rule step_eq [OF Unpin [of ex_version]]) (simp_all add: unpin_def checked_sub_def ex_defs)

lemma ex_reachable: "vm_steps vm_init ex_pinned" "vm_steps vm_init ex_replaced" "vm_steps vm_init ex_released"
proof -
  obtain a b where a: "vm_step vm_init a" "vm_step a (vm_init\<lparr>sy_vm := ex_first\<rparr>)"
    and b: "vm_step ex_pinned b" "vm_step b ex_replaced" using ex_commit_first ex_commit_second by blast
  have "vm_steps vm_init a" using a(1) by (rule r_into_rtranclp)
  also have "vm_step a (vm_init\<lparr>sy_vm := ex_first\<rparr>)" by (rule a(2))
  also have "vm_step (vm_init\<lparr>sy_vm := ex_first\<rparr>) ex_pinned" by (rule ex_pin)
  finally show 1: "vm_steps vm_init ex_pinned" .
  also have "vm_step ex_pinned b" by (rule b(1))
  also have "vm_step b ex_replaced" by (rule b(2))
  finally show 2: "vm_steps vm_init ex_replaced" .
  also have "vm_step ex_replaced ex_released" by (rule ex_unpin)
  finally show "vm_steps vm_init ex_released" .
qed

lemma ex_refs [simp]: "sn_refs (ex_snapshot r) = {(1, r)}" "sn_dv_refs (ex_snapshot r) = {}"
  by (auto simp: ex_snapshot_def sn_refs_def rowsets_in_def sn_dv_refs_def dvs_in_def split: if_splits)

section \<open>Properties\<close>

text \<open>C3. In every state reached from a new version manager by any interleaving of commits (also failing
  ones), pins, unpins and vacuums the invariant holds: the reference count of an epoch is the number of
  versions pinned at it, a row set whose deletion is recorded at an epoch is in no snapshot from that epoch
  on, and the row sets and delete vectors of the pinned versions, of the current version and of a commit in
  flight are in the pool.\<close>

theorem reachable_invariant: "vm_steps vm_init y \<Longrightarrow> vm_inv y"
  using vm_inv_steps vm_inv_init by blast

theorem reachable_invariant_witness: "vm_inv ex_replaced \<and> vm_ref_cnt (sy_vm ex_replaced) 1 = Some 1"
  using reachable_invariant [OF ex_reachable(2)] by (simp add: ex_replaced_def)

text \<open>C2. The vacuum is safe: in a reachable state it does not panic on a row set in use as long as every row
  set held by a reader belongs to a version that reader has pinned, and every row set that a pinned version,
  the current version or a commit in flight refers to is in the pool afterwards, unchanged, so \<open>get_rowset\<close>
  finds it.\<close>

theorem vacuum_safe:
  assumes "vm_steps vm_init y"
    and "\<forall>d. held d \<longrightarrow> (\<exists>v\<in>set (sy_pinned y). d \<in> sn_refs (ve_snapshot v))"
  shows "\<exists>ds m'. find_vacuum held (sy_vm y) = Some (ds, m')
    \<and> (\<forall>s t r. (s \<in> ve_snapshot ` set (sy_pinned y) \<or> s = or_default empty_snapshot (vm_status (sy_vm y) (vm_epoch (sy_vm y)))
          \<or> sy_pending y \<noteq> None \<and> s = pc_snapshot (the (sy_pending y)))
        \<longrightarrow> (t, r) \<in> sn_refs s \<longrightarrow> get_rowset t r m' \<noteq> None \<and> get_rowset t r m' = get_rowset t r (sy_vm y))"
proof -
  let ?m = "sy_vm y"
  have inv: "vm_inv y" using assms(1) vm_inv_steps vm_inv_init by blast
  have dom: "dom (vm_deletions ?m) \<subseteq> {..vm_epoch ?m}" using inv by (simp add: vm_inv_def history_ok_def)
  have "\<not> (\<exists>d\<in>vacuum_set ?m. vm_rowsets ?m d \<noteq> None \<and> held d)"
    using assms(2) vacuum_disjoint(1) [OF inv] by blast
  then obtain ds m' where fv: "find_vacuum held ?m = Some (ds, m')"
    using find_vacuum_spec(1) [OF dom] by (metis option.exhaust surj_pair)
  have "get_rowset t r m' \<noteq> None \<and> get_rowset t r m' = get_rowset t r ?m"
    if "s \<in> ve_snapshot ` set (sy_pinned y) \<or> s = or_default empty_snapshot (vm_status ?m (vm_epoch ?m))
      \<or> sy_pending y \<noteq> None \<and> s = pc_snapshot (the (sy_pending y))" "(t, r) \<in> sn_refs s" for s t r
  proof -
    have "resident ?m s" using that(1) inv by (auto simp: vm_inv_def pending_ok_def)
    moreover have "vacuum_set ?m \<inter> sn_refs s = {}" using that(1) vacuum_disjoint [OF inv] by auto
    ultimately show ?thesis using that(2) vacuum_result(2) [OF inv fv] by (auto simp: get_rowset_def resident_def)
  qed
  then show ?thesis using fv by blast
qed

theorem vacuum_safe_witness:
  "\<exists>ds m'. find_vacuum (\<lambda>d. d = (1, 7)) (sy_vm ex_replaced) = Some (ds, m') \<and> get_rowset 1 7 m' = Some ()"
proof -
  have "\<forall>d. d = (1, 7) \<longrightarrow> (\<exists>v\<in>set (sy_pinned ex_replaced). d \<in> sn_refs (ve_snapshot v))"
    by (simp add: ex_replaced_def ex_version_def)
  note safe = vacuum_safe [OF ex_reachable(2) this]
  have "ex_snapshot 7 \<in> ve_snapshot ` set (sy_pinned ex_replaced)" by (simp add: ex_replaced_def ex_version_def)
  moreover have "(1, 7) \<in> sn_refs (ex_snapshot 7)" by simp
  ultimately have "\<exists>ds m'. find_vacuum (\<lambda>d. d = (1, 7)) (sy_vm ex_replaced) = Some (ds, m') \<and> get_rowset 1 7 m' \<noteq> None"
    using safe by meson
  then show ?thesis by auto
qed

text \<open>C4. Snapshot isolation: while a version stays pinned, whatever other transactions commit and however
  often the vacuum runs, every row set of its snapshot stays in the pool and stays the same object.\<close>

theorem pinned_version_stable:
  assumes "vm_steps vm_init y" and "v \<in> set (sy_pinned y)"
    and "(\<lambda>a b. vm_step a b \<and> v \<in> set (sy_pinned b))\<^sup>*\<^sup>* y y'" and "(t, r) \<in> sn_refs (ve_snapshot v)"
  shows "get_rowset t r (sy_vm y') \<noteq> None \<and> get_rowset t r (sy_vm y') = get_rowset t r (sy_vm y)"
proof -
  have inv: "vm_inv y" using assms(1) vm_inv_steps vm_inv_init by blast
  have "vm_inv y' \<and> v \<in> set (sy_pinned y') \<and> vm_rowsets (sy_vm y') (t, r) = vm_rowsets (sy_vm y) (t, r)"
    using assms(3)
  proof (induction rule: rtranclp_induct)
    case base
    then show ?case using inv assms(2) by simp
  next
    case (step a b)
    then show ?case using vm_inv_step step_keeps_rowsets [OF _ _ _ assms(4)] by metis
  qed
  moreover from this have "resident (sy_vm y') (ve_snapshot v)" by (simp add: vm_inv_def)
  ultimately show ?thesis using assms(4) by (metis (no_types) domD get_rowset_def option.distinct(1) resident_def subsetD)
qed

theorem pinned_version_stable_witness: "get_rowset 1 7 (sy_vm ex_replaced) = get_rowset 1 7 (sy_vm ex_pinned)"
proof -
  have in_p: "ex_version \<in> set (sy_pinned ex_pinned)" "ex_version \<in> set (sy_pinned ex_replaced)"
    by (simp_all add: ex_pinned_def ex_replaced_def)
  have "(\<lambda>a b. vm_step a b \<and> ex_version \<in> set (sy_pinned b))\<^sup>*\<^sup>* ex_pinned ex_replaced"
    using ex_commit_second in_p(2) by (metis (no_types, lifting) list.set_intros(1) rtranclp.simps)
  from pinned_version_stable [OF ex_reachable(1) in_p(1) this, of 1 7]
  have "(1, 7) \<in> sn_refs (ve_snapshot ex_version) \<Longrightarrow> get_rowset 1 7 (sy_vm ex_replaced) = get_rowset 1 7 (sy_vm ex_pinned)" by blast
  then show ?thesis by (simp add: ex_version_def del: One_nat_def)
qed

text \<open>C5. Nothing deleted is kept for ever: once no version is pinned, one run of the vacuum empties the
  list of deletions and removes every row set on it from the pool.\<close>

theorem vacuum_reclaims:
  assumes "vm_steps vm_init y" and "sy_pinned y = []" and "\<forall>d. \<not> held d"
  shows "\<exists>ds m'. find_vacuum held (sy_vm y) = Some (ds, m') \<and> vm_deletions m' = Map.empty
    \<and> (\<forall>k dels d. vm_deletions (sy_vm y) k = Some dels \<longrightarrow> d \<in> set dels \<longrightarrow> d \<in> set ds \<and> vm_rowsets m' d = None)"
proof -
  let ?m = "sy_vm y"
  have inv: "vm_inv y" using assms(1) vm_inv_steps vm_inv_init by blast
  have dom: "dom (vm_deletions ?m) \<subseteq> {..vm_epoch ?m}" using inv by (simp add: vm_inv_def history_ok_def)
  obtain ds m' where fv: "find_vacuum held ?m = Some (ds, m')"
    using find_vacuum_spec(1) [OF dom] assms(3) by (metis option.exhaust surj_pair)
  have "\<forall>e. vm_ref_cnt ?m e = None" using inv assms(2) by (simp add: vm_inv_def counts_ok_def)
  then have "min_pinned_epoch ?m = None" by (simp add: min_pinned_epoch_def find_None_iff)
  then have ep: "vacuum_epoch ?m = vm_epoch ?m" by (simp add: vacuum_epoch_def)
  have le: "k \<le> vm_epoch ?m" if "vm_deletions ?m k = Some dels" for k dels using dom that by auto
  have "vm_deletions m' k = None" for k
    using le vacuum_result(2) [OF inv fv] by (cases "vm_deletions ?m k") (auto simp: ep)
  moreover have "d \<in> vacuum_set ?m" if "vm_deletions ?m k = Some dels" "d \<in> set dels" for k dels d
    using that le by (auto simp: vacuum_set_def ep)
  ultimately show ?thesis using fv vacuum_result [OF inv fv] by (auto simp: fun_eq_iff)
qed

theorem vacuum_reclaims_witness:
  "\<exists>ds m'. find_vacuum (\<lambda>_. False) (sy_vm ex_released) = Some (ds, m') \<and> (1, 7) \<in> set ds \<and> vm_rowsets m' (1, 7) = None"
proof -
  have "vm_deletions (sy_vm ex_released) 2 = Some [(1, 7)]" by (simp add: ex_released_def ex_second_def)
  moreover have "sy_pinned ex_released = []" by (simp add: ex_released_def)
  ultimately show ?thesis using vacuum_reclaims [OF ex_reachable(3), of "\<lambda>_. False"] by fastforce
qed

end
