(* ===== verification/Engine.thy ===== *)
theory Engine
  imports Versions "HOL-Library.Product_Lexorder"
begin

text \<open>
  The storage engine around the version manager: the manifest file (\<open>manifest.rs\<close>), creating and dropping
  tables (\<open>manifest.rs\<close>), and opening a database (\<open>storage.rs\<close>).

  A manifest file is the list of JSON values in it, with a flag for a torn tail (bytes that are not a complete
  JSON value). The serialisation itself is the business of a library: a value that was written is read back. Row sets and
  delete vectors on disk are opened by the parameters \<open>open_rowset\<close> and \<open>open_dv\<close>; the iteration order of a
  hash map or hash set is a parameter \<open>order\<close>, of which only \<open>set (order S) = S\<close> is used.
\<close>

section \<open>Results that may panic or fail\<close>

definition sr_bind :: "'a storage_result option \<Rightarrow> ('a \<Rightarrow> 'b storage_result option) \<Rightarrow> 'b storage_result option" where
  "sr_bind m f = (case m of None \<Rightarrow> None | Some (Inl e) \<Rightarrow> Some (Inl e) | Some (Inr x) \<Rightarrow> f x)"

lemma sr_bind_simps [simp]:
  "sr_bind None f = None" "sr_bind (Some (Inl e)) f = Some (Inl e)" "sr_bind (Some (Inr x)) f = f x"
  by (simp_all add: sr_bind_def)

lemma sr_bind_ok [simp]: "sr_bind m f = Some (Inr y) \<longleftrightarrow> (\<exists>x. m = Some (Inr x) \<and> f x = Some (Inr y))"
  by (auto simp: sr_bind_def split: option.splits sum.splits)

text \<open>Lift an operation that can only panic.\<close>

definition sr_lift :: "'a option \<Rightarrow> 'a storage_result option" where
  "sr_lift m = map_option Inr m"

lemma sr_lift_ok [simp]: "sr_lift m = Some (Inr x) \<longleftrightarrow> m = Some x" and sr_lift_no_error [simp]: "sr_lift m \<noteq> Some (Inl e)"
  by (auto simp: sr_lift_def)

fun sr_fold :: "('a \<Rightarrow> 's \<Rightarrow> 's storage_result option) \<Rightarrow> 'a list \<Rightarrow> 's \<Rightarrow> 's storage_result option" where
  "sr_fold f [] s = Some (Inr s)"
| "sr_fold f (x # xs) s = sr_bind (f x s) (sr_fold f xs)"

lemma sr_fold_append: "sr_fold f (xs @ ys) s = sr_bind (sr_fold f xs s) (sr_fold f ys)"
  by (induction xs arbitrary: s) (auto simp: sr_bind_def split: option.splits sum.splits)

lemma case_sum_eq_iff:
  "(case r of Inl a \<Rightarrow> f a | Inr b \<Rightarrow> g b) = y \<longleftrightarrow> (\<exists>a. r = Inl a \<and> f a = y) \<or> (\<exists>b. r = Inr b \<and> g b = y)"
  by (cases r) auto

section \<open>The manifest file\<close>

record manifest_file =
  mf_values :: "manifest_operation list"
  mf_torn :: bool

definition manifest_append :: "manifest_operation list \<Rightarrow> manifest_file option \<Rightarrow> manifest_file option" where
  "manifest_append entries file = map_option (\<lambda>f. f\<lparr>mf_values := mf_values f @ [Begin] @ entries @ [End]\<rparr>) file"

text \<open>The loop of \<open>replay\<close>: operations replayed so far, operations of an open transaction, the flag.\<close>

fun replay_step ::
  "manifest_operation \<Rightarrow> manifest_operation list \<times> manifest_operation list \<times> bool
     \<Rightarrow> manifest_operation list \<times> manifest_operation list \<times> bool" where
  "replay_step Begin (ops, buffered, begin) = (ops, buffered, True)"
| "replay_step End (ops, buffered, begin) = (ops @ buffered, [], False)"
| "replay_step op (ops, buffered, begin) = (ops, if begin then buffered @ [op] else buffered, begin)"

definition replay :: "manifest_file option \<Rightarrow> manifest_operation list storage_result" where
  "replay file = (case file of
     None \<Rightarrow> Inr []
   | Some f \<Rightarrow> if mf_torn f then Inl JsonDecode else Inr (fst (fold replay_step (mf_values f) ([], [], False))))"

definition is_entry :: "manifest_operation \<Rightarrow> bool" where
  "is_entry op \<longleftrightarrow> op \<noteq> Begin \<and> op \<noteq> End"

lemma replay_step_entry: "is_entry op \<Longrightarrow> replay_step op (ops, buffered, True) = (ops, buffered @ [op], True)"
  by (cases op) (auto simp: is_entry_def)

lemma replay_entries:
  "\<forall>op\<in>set es. is_entry op \<Longrightarrow> fold replay_step es (ops, buffered, True) = (ops, buffered @ es, True)"
  by (induction es arbitrary: buffered) (auto simp: replay_step_entry)

text \<open>The state of the replay after a file that ends with a complete transaction.\<close>

definition replayed :: "manifest_operation list \<Rightarrow> manifest_operation list \<Rightarrow> bool" where
  "replayed vs ops \<longleftrightarrow> fold replay_step vs ([], [], False) = (ops, [], False)"

lemma replayed_Nil [simp]: "replayed [] []"
  by (simp add: replayed_def)

lemma replayed_append:
  "\<lbrakk>replayed vs ops; \<forall>op\<in>set es. is_entry op\<rbrakk> \<Longrightarrow> replayed (vs @ [Begin] @ es @ [End]) (ops @ es)"
  by (simp add: replayed_def replay_entries)

text \<open>C26. Replaying the manifest gives exactly the entries of the transactions appended to it, in order, and a
  transaction whose end was not written (a crash between two values) is dropped as a whole.\<close>

theorem manifest_replay:
  assumes "\<forall>txn\<in>set txns. \<forall>op\<in>set txn. is_entry op" and "\<forall>op\<in>set unfinished. is_entry op"
  shows "replay (fold manifest_append txns (Some \<lparr>mf_values = [], mf_torn = False\<rparr>)) = Inr (concat txns)
    \<and> replay (map_option (\<lambda>f. f\<lparr>mf_values := mf_values f @ Begin # unfinished\<rparr>)
        (fold manifest_append txns (Some \<lparr>mf_values = [], mf_torn = False\<rparr>))) = Inr (concat txns)"
proof -
  have "\<exists>vs'. fold manifest_append txns (Some \<lparr>mf_values = vs, mf_torn = False\<rparr>) = Some \<lparr>mf_values = vs', mf_torn = False\<rparr>
      \<and> replayed vs' (ops @ concat txns)" if "replayed vs ops" "\<forall>txn\<in>set txns. \<forall>op\<in>set txn. is_entry op" for vs ops txns
    using that
  proof (induction txns arbitrary: vs ops)
    case (Cons txn txns)
    then have "replayed (vs @ [Begin] @ txn @ [End]) (ops @ txn)" by (intro replayed_append) auto
    from Cons.IH [OF this] Cons.prems show ?case by (simp add: manifest_append_def)
  qed simp
  from this [OF replayed_Nil assms(1)] obtain vs where vs:
    "fold manifest_append txns (Some \<lparr>mf_values = [], mf_torn = False\<rparr>) = Some \<lparr>mf_values = vs, mf_torn = False\<rparr>"
    "replayed vs (concat txns)" by auto
  then have "fold replay_step (vs @ Begin # unfinished) ([], [], False) = (concat txns, unfinished, True)"
    using assms(2) by (simp add: replayed_def replay_entries)
  then show ?thesis using vs by (simp add: replay_def replayed_def)
qed

theorem manifest_replay_witness:
  "replay (map_option (\<lambda>f. f\<lparr>mf_values := mf_values f @ Begin # [DeleteRowSet ex_ref 7]\<rparr>)
     (fold manifest_append [[AddRowSet ex_ref 7]] (Some \<lparr>mf_values = [], mf_torn = False\<rparr>))) = Inr [AddRowSet ex_ref 7]"
  using manifest_replay [of "[[AddRowSet ex_ref 7]]" "[DeleteRowSet ex_ref 7]"] by (simp add: is_entry_def)

text \<open>The replay does not forget an unfinished transaction when the next one begins: if a commit stopped
  after its entries and a later one was appended, the entries of the first are replayed with the second.\<close>

theorem replay_leaks_unfinished:
  assumes "\<forall>op\<in>set unfinished. is_entry op" and "\<forall>op\<in>set txn. is_entry op"
  shows "replay (manifest_append txn (Some \<lparr>mf_values = Begin # unfinished, mf_torn = False\<rparr>)) = Inr (unfinished @ txn)"
  using assms by (simp add: replay_def manifest_append_def replay_entries)

theorem replay_leaks_unfinished_witness:
  "replay (manifest_append [AddRowSet ex_ref 8] (Some \<lparr>mf_values = [Begin, AddRowSet ex_ref 7], mf_torn = False\<rparr>))
     = Inr [AddRowSet ex_ref 7, AddRowSet ex_ref 8]"
  using replay_leaks_unfinished [of "[AddRowSet ex_ref 7]" "[AddRowSet ex_ref 8]"] by (simp add: is_entry_def)

section \<open>The engine\<close>

record secondary_table =
  st_table_ref_id :: table_ref_id
  st_columns :: "column_catalog list"
  st_column_map :: "nat \<rightharpoonup> nat"
  st_ordered_pk_ids :: "nat list"

definition secondary_table_new :: "table_ref_id \<Rightarrow> column_catalog list \<Rightarrow> nat list \<Rightarrow> secondary_table" where
  "secondary_table_new r columns ordered_pk_ids = \<lparr>st_table_ref_id = r, st_columns = columns,
     st_column_map = map_of (rev (zip (map cc_id columns) [0 ..< length columns])), st_ordered_pk_ids = ordered_pk_ids\<rparr>"

record ('rs, 'q, 'x) engine =
  en_catalog :: "('q, 'x) root_catalog"
  en_tables :: "table_ref_id \<rightharpoonup> secondary_table"
  en_next_rowset_id :: nat
  en_next_dv_id :: nat
  en_version :: "'rs version_manager"
  en_manifest :: "manifest_file option"

text \<open>\<open>commit_changes\<close> with the manifest written.\<close>

definition engine_commit :: "'rs epoch_op list \<Rightarrow> ('rs, 'q, 'x) engine \<Rightarrow> ('rs, 'q, 'x) engine option" where
  "engine_commit ops e = do {
     (entries, epoch, vm) \<leftarrow> commit_changes ops (en_version e);
     Some (e\<lparr>en_version := vm, en_manifest := manifest_append entries (en_manifest e)\<rparr>) }"

text \<open>The two data-definition operations touch the catalog and the table map only.\<close>

type_synonym ('q, 'x) ddl_state = "('q, 'x) root_catalog \<times> (table_ref_id \<rightharpoonup> secondary_table)"

definition ddl_create :: "create_table_entry \<Rightarrow> ('q, 'x) ddl_state \<Rightarrow> ('q, 'x) ddl_state storage_result option" where
  "ddl_create entry = (\<lambda>(catalog, tables).
     case rc_schemas catalog (cte_schema_id entry) of
        None \<Rightarrow> Some (Inl (NotFound ''schema'' (show_nat (cte_schema_id entry))))
      | Some schema \<Rightarrow>
          if schema_get_table_by_name (cte_table_name entry) schema \<noteq> None
          then Some (Inl (Duplicated ''table'' (cte_table_name entry)))
          else do {
            r \<leftarrow> rc_add_table (cte_schema_id entry) (cte_table_name entry) (cte_column_descs entry) (cte_ordered_pk_ids entry) catalog;
            (case r of
               Inl _ \<Rightarrow> Some (Inl (Duplicated ''table'' (cte_table_name entry)))
             | Inr (table_id, catalog) \<Rightarrow>
                 let ref = \<lparr>tr_schema_id = cte_schema_id entry, tr_table_id = table_id\<rparr>;
                     table = secondary_table_new ref (cte_column_descs entry) (cte_ordered_pk_ids entry)
                 in Some (Inr (catalog, tables(ref \<mapsto> table)))) })"

definition ddl_drop :: "table_ref_id \<Rightarrow> ('q, 'x) ddl_state \<Rightarrow> ('q, 'x) ddl_state storage_result option" where
  "ddl_drop r = (\<lambda>(catalog, tables).
     case tables r of
        None \<Rightarrow> Some (Inl (NotFound ''table'' (show_nat (tr_table_id r))))
      | Some _ \<Rightarrow> do {
          catalog \<leftarrow> rc_drop_table r catalog;
          Some (Inr (catalog, tables(r := None))) })"

definition with_ddl ::
  "(('q, 'x) ddl_state \<Rightarrow> ('q, 'x) ddl_state storage_result option) \<Rightarrow> ('rs, 'q, 'x) engine \<Rightarrow> ('rs, 'q, 'x) engine storage_result option" where
  "with_ddl f e = sr_bind (f (en_catalog e, en_tables e)) (\<lambda>(c, t). Some (Inr (e\<lparr>en_catalog := c, en_tables := t\<rparr>)))"

definition apply_create_table :: "create_table_entry \<Rightarrow> ('rs, 'q, 'x) engine \<Rightarrow> ('rs, 'q, 'x) engine storage_result option" where
  "apply_create_table entry = with_ddl (ddl_create entry)"

definition apply_drop_table :: "table_ref_id \<Rightarrow> ('rs, 'q, 'x) engine \<Rightarrow> ('rs, 'q, 'x) engine storage_result option" where
  "apply_drop_table r = with_ddl (ddl_drop r)"

definition create_table_inner ::
  "create_table_entry \<Rightarrow> ('rs, 'q, 'x) engine \<Rightarrow> (('rs, 'q, 'x) engine \<times> unit storage_result) option" where
  "create_table_inner entry e = do {
     e \<leftarrow> engine_commit [EpCreateTable entry] e;
     r \<leftarrow> apply_create_table entry e;
     Some (case r of Inl err \<Rightarrow> (e, Inl err) | Inr e \<Rightarrow> (e, Inr ())) }"

definition get_table_inner :: "table_ref_id \<Rightarrow> ('rs, 'q, 'x) engine \<Rightarrow> secondary_table storage_result" where
  "get_table_inner r e = (case en_tables e r of Some t \<Rightarrow> Inr t | None \<Rightarrow> Inl (NotFound ''table'' (show_nat (tr_table_id r))))"

text \<open>The deletions a dropped table causes: for each of its row sets in the pinned snapshot the row set, then
  its delete vectors.\<close>

definition drop_changes :: "(nat set \<Rightarrow> nat list) \<Rightarrow> table_ref_id \<Rightarrow> snapshot \<Rightarrow> 'rs epoch_op list" where
  "drop_changes order r s =
     (case get_rowsets_of (tr_table_id r) s of
        None \<Rightarrow> []
      | Some rowsets \<Rightarrow> concat (map (\<lambda>rowset_id. EpDeleteRowSet r rowset_id #
          (case get_dvs_of (tr_table_id r) rowset_id s of
             None \<Rightarrow> []
           | Some dvs \<Rightarrow> map (\<lambda>dv_id. EpDeleteDV r dv_id rowset_id) (order dvs))) (order rowsets)))"

definition drop_table_inner ::
  "(nat set \<Rightarrow> nat list) \<Rightarrow> table_ref_id \<Rightarrow> ('rs, 'q, 'x) engine \<Rightarrow> (('rs, 'q, 'x) engine \<times> unit storage_result) option" where
  "drop_table_inner order r e = do {
     res \<leftarrow> apply_drop_table r e;
     (case res of
        Inl err \<Rightarrow> Some (e, Inl err)
      | Inr e \<Rightarrow> do {
          (v, vm) \<leftarrow> pin (en_version e);
          e \<leftarrow> engine_commit (EpDropTable r # drop_changes order r (ve_snapshot v)) (e\<lparr>en_version := vm\<rparr>);
          (_, vm) \<leftarrow> unpin v (en_version e);
          Some (e\<lparr>en_version := vm\<rparr>, Inr ()) }) }"

definition generate_rowset_id :: "('rs, 'q, 'x) engine \<Rightarrow> nat \<times> ('rs, 'q, 'x) engine" where
  "generate_rowset_id e = (en_next_rowset_id e, e\<lparr>en_next_rowset_id := as_u32 (en_next_rowset_id e + 1)\<rparr>)"

definition generate_dv_id :: "('rs, 'q, 'x) engine \<Rightarrow> nat \<times> ('rs, 'q, 'x) engine" where
  "generate_dv_id e = (en_next_dv_id e, e\<lparr>en_next_dv_id := as_u64 (en_next_dv_id e + 1)\<rparr>)"

section \<open>Opening a database\<close>

record ('rs, 'q, 'x) boot =
  bo_engine :: "('rs, 'q, 'x) engine"
  bo_rowsets :: "nat \<times> nat \<rightharpoonup> table_ref_id"
  bo_dvs :: "nat \<times> nat \<times> nat \<rightharpoonup> table_ref_id"
  bo_changes :: "'rs epoch_op list"

definition checked_add64 :: "nat \<Rightarrow> nat \<Rightarrow> nat option" where
  "checked_add64 a b = (if a + b < 2 ^ 64 then Some (a + b) else None)"

fun boot_op :: "manifest_operation \<Rightarrow> ('rs, 'q, 'x) boot \<Rightarrow> ('rs, 'q, 'x) boot storage_result option" where
  "boot_op (CreateTable entry) b = sr_bind (apply_create_table entry (bo_engine b)) (\<lambda>e.
     Some (Inr (b\<lparr>bo_engine := e, bo_changes := bo_changes b @ [EpCreateTable entry]\<rparr>)))"
| "boot_op (DropTable r) b = sr_bind (apply_drop_table r (bo_engine b)) (\<lambda>e.
     Some (Inr (b\<lparr>bo_engine := e, bo_changes := bo_changes b @ [EpDropTable r]\<rparr>)))"
| "boot_op (AddRowSet r i) b = do {
     n \<leftarrow> checked_add32 i 1;
     Some (Inr (b\<lparr>bo_engine := (bo_engine b)\<lparr>en_next_rowset_id := max (en_next_rowset_id (bo_engine b)) n\<rparr>,
       bo_rowsets := (bo_rowsets b)((tr_table_id r, i) \<mapsto> r)\<rparr>)) }"
| "boot_op (DeleteRowSet r i) b = Some (Inr (b\<lparr>bo_rowsets := (bo_rowsets b)((tr_table_id r, i) := None)\<rparr>))"
| "boot_op (AddDV r dv i) b = do {
     n \<leftarrow> checked_add64 dv 1;
     Some (Inr (b\<lparr>bo_engine := (bo_engine b)\<lparr>en_next_dv_id := max (en_next_dv_id (bo_engine b)) n\<rparr>,
       bo_dvs := (bo_dvs b)((tr_table_id r, i, dv) \<mapsto> r)\<rparr>)) }"
| "boot_op (DeleteDV r dv i) b = Some (Inr (b\<lparr>bo_dvs := (bo_dvs b)((tr_table_id r, i, dv) := None)\<rparr>))"
| "boot_op Begin b = Some (Inr b)"
| "boot_op End b = Some (Inr b)"

text \<open>Open the row sets and delete vectors that the manifest lists: the table's entry must exist (\<open>unwrap\<close>).\<close>

definition open_rowset_op ::
  "(secondary_table \<Rightarrow> nat \<Rightarrow> 'rs storage_result) \<Rightarrow> (table_ref_id \<rightharpoonup> secondary_table) \<Rightarrow> (nat \<times> nat \<rightharpoonup> table_ref_id)
     \<Rightarrow> nat \<times> nat \<Rightarrow> 'rs epoch_op list \<Rightarrow> 'rs epoch_op list storage_result option" where
  "open_rowset_op open_rowset tables rowsets k changes = do {
     r \<leftarrow> rowsets k;
     table \<leftarrow> tables r;
     sr_bind (Some (open_rowset table (snd k))) (\<lambda>rs. Some (Inr (changes @ [EpAddRowSet r (snd k) rs]))) }"

definition open_dv_op ::
  "(secondary_table \<Rightarrow> nat \<Rightarrow> nat \<Rightarrow> delete_vector storage_result) \<Rightarrow> (table_ref_id \<rightharpoonup> secondary_table) \<Rightarrow> (nat \<times> nat \<times> nat \<rightharpoonup> table_ref_id)
     \<Rightarrow> nat \<times> nat \<times> nat \<Rightarrow> 'rs epoch_op list \<Rightarrow> 'rs epoch_op list storage_result option" where
  "open_dv_op open_dv tables dvs = (\<lambda>(t, i, dv) changes. do {
     r \<leftarrow> dvs (t, i, dv);
     table \<leftarrow> tables r;
     sr_bind (Some (open_dv table i dv)) (\<lambda>d. Some (Inr (changes @ [EpAddDV r dv i d]))) })"

definition engine_new :: "('q, 'x) root_catalog \<Rightarrow> manifest_file option \<Rightarrow> ('rs, 'q, 'x) engine" where
  "engine_new catalog file = \<lparr>en_catalog = catalog, en_tables = Map.empty, en_next_rowset_id = 0, en_next_dv_id = 0,
     en_version = vm_new, en_manifest = file\<rparr>"

text \<open>\<open>rewrite_changes\<close>: the changes are committed into a fresh file that replaces the manifest.\<close>

definition rewrite_changes :: "'rs epoch_op list \<Rightarrow> ('rs, 'q, 'x) engine \<Rightarrow> ('rs, 'q, 'x) engine option" where
  "rewrite_changes ops e = engine_commit ops (e\<lparr>en_manifest := Some \<lparr>mf_values = [], mf_torn = False\<rparr>\<rparr>)"

definition bootstrap ::
  "(string \<times> column_catalog list) list \<Rightarrow> ((nat \<times> nat) set \<Rightarrow> (nat \<times> nat) list) \<Rightarrow> ((nat \<times> nat \<times> nat) set \<Rightarrow> (nat \<times> nat \<times> nat) list)
     \<Rightarrow> (secondary_table \<Rightarrow> nat \<Rightarrow> 'rs storage_result) \<Rightarrow> (secondary_table \<Rightarrow> nat \<Rightarrow> nat \<Rightarrow> delete_vector storage_result)
     \<Rightarrow> manifest_file option \<Rightarrow> ('rs, 'q, 'x) engine storage_result option" where
  "bootstrap system_tables order_rs order_dv open_rowset open_dv file = do {
     catalog \<leftarrow> rc_new system_tables;
     sr_bind (Some (replay file)) (\<lambda>manifest_ops.
     sr_bind (sr_fold boot_op manifest_ops
       \<lparr>bo_engine = engine_new catalog file, bo_rowsets = Map.empty, bo_dvs = Map.empty, bo_changes = []\<rparr>) (\<lambda>b.
     sr_bind (sr_fold (open_rowset_op open_rowset (en_tables (bo_engine b)) (bo_rowsets b)) (order_rs (dom (bo_rowsets b))) []) (\<lambda>changeset.
     sr_bind (sr_fold (open_dv_op open_dv (en_tables (bo_engine b)) (bo_dvs b)) (order_dv (dom (bo_dvs b))) changeset) (\<lambda>changeset.
     sr_lift (if file = None then engine_commit changeset (bo_engine b)
              else rewrite_changes (changeset @ bo_changes b) (bo_engine b)))))) }"

section \<open>What a manifest says\<close>

text \<open>The live row sets and delete vectors (with the table reference of their entry) and the catalog and tables that a
  list of manifest entries leads to.\<close>

fun op_rowsets :: "manifest_operation \<Rightarrow> (nat \<times> nat \<rightharpoonup> table_ref_id) \<Rightarrow> (nat \<times> nat \<rightharpoonup> table_ref_id)" where
  "op_rowsets (AddRowSet r i) m = m((tr_table_id r, i) \<mapsto> r)"
| "op_rowsets (DeleteRowSet r i) m = m((tr_table_id r, i) := None)"
| "op_rowsets _ m = m"

fun op_dvs :: "manifest_operation \<Rightarrow> (nat \<times> nat \<times> nat \<rightharpoonup> table_ref_id) \<Rightarrow> (nat \<times> nat \<times> nat \<rightharpoonup> table_ref_id)" where
  "op_dvs (AddDV r dv i) m = m((tr_table_id r, i, dv) \<mapsto> r)"
| "op_dvs (DeleteDV r dv i) m = m((tr_table_id r, i, dv) := None)"
| "op_dvs _ m = m"

fun op_ddl :: "manifest_operation \<Rightarrow> ('q, 'x) ddl_state \<Rightarrow> ('q, 'x) ddl_state storage_result option" where
  "op_ddl (CreateTable entry) d = ddl_create entry d"
| "op_ddl (DropTable r) d = ddl_drop r d"
| "op_ddl _ d = Some (Inr d)"

fun op_ids_ok :: "manifest_operation \<Rightarrow> bool" where
  "op_ids_ok (AddRowSet r i) \<longleftrightarrow> i + 1 < 2 ^ 32"
| "op_ids_ok (AddDV r dv i) \<longleftrightarrow> dv + 1 < 2 ^ 64"
| "op_ids_ok _ \<longleftrightarrow> True"

fun ddl_ops :: "manifest_operation list \<Rightarrow> 'rs epoch_op list" where
  "ddl_ops (CreateTable e # ops) = EpCreateTable e # ddl_ops ops"
| "ddl_ops (DropTable r # ops) = EpDropTable r # ddl_ops ops"
| "ddl_ops (_ # ops) = ddl_ops ops"
| "ddl_ops [] = []"

lemma boot_op_forward:
  assumes "op_ddl op (en_catalog (bo_engine b), en_tables (bo_engine b)) = Some (Inr (c, t))" and "op_ids_ok op"
  shows "\<exists>b'. boot_op op b = Some (Inr b') \<and> bo_rowsets b' = op_rowsets op (bo_rowsets b) \<and> bo_dvs b' = op_dvs op (bo_dvs b)
    \<and> en_catalog (bo_engine b') = c \<and> en_tables (bo_engine b') = t \<and> en_version (bo_engine b') = en_version (bo_engine b)
    \<and> bo_changes b' = bo_changes b @ ddl_ops [op]
    \<and> en_next_rowset_id (bo_engine b) \<le> en_next_rowset_id (bo_engine b') \<and> en_next_dv_id (bo_engine b) \<le> en_next_dv_id (bo_engine b')
    \<and> (\<forall>r i. op = AddRowSet r i \<longrightarrow> i < en_next_rowset_id (bo_engine b')) \<and> (\<forall>r dv i. op = AddDV r dv i \<longrightarrow> dv < en_next_dv_id (bo_engine b'))"
  using assms by (cases op) (auto simp: apply_create_table_def apply_drop_table_def with_ddl_def checked_add32_def checked_add64_def)

lemma boot_fold:
  assumes "sr_fold op_ddl ops (en_catalog (bo_engine b), en_tables (bo_engine b)) = Some (Inr (c, t))" and "\<forall>op\<in>set ops. op_ids_ok op"
  shows "\<exists>b'. sr_fold boot_op ops b = Some (Inr b') \<and> bo_rowsets b' = fold op_rowsets ops (bo_rowsets b) \<and> bo_dvs b' = fold op_dvs ops (bo_dvs b)
    \<and> en_catalog (bo_engine b') = c \<and> en_tables (bo_engine b') = t \<and> en_version (bo_engine b') = en_version (bo_engine b)
    \<and> bo_changes b' = bo_changes b @ ddl_ops ops
    \<and> en_next_rowset_id (bo_engine b) \<le> en_next_rowset_id (bo_engine b') \<and> en_next_dv_id (bo_engine b) \<le> en_next_dv_id (bo_engine b')
    \<and> (\<forall>r i. AddRowSet r i \<in> set ops \<longrightarrow> i < en_next_rowset_id (bo_engine b')) \<and> (\<forall>r dv i. AddDV r dv i \<in> set ops \<longrightarrow> dv < en_next_dv_id (bo_engine b'))"
  using assms
proof (induction ops arbitrary: b)
  case (Cons op ops)
  then obtain c1 t1 where d: "op_ddl op (en_catalog (bo_engine b), en_tables (bo_engine b)) = Some (Inr (c1, t1))"
    "sr_fold op_ddl ops (c1, t1) = Some (Inr (c, t))" by auto
  from boot_op_forward [OF d(1)] Cons.prems(2) obtain b1 where b1: "boot_op op b = Some (Inr b1)"
    "bo_rowsets b1 = op_rowsets op (bo_rowsets b)" "bo_dvs b1 = op_dvs op (bo_dvs b)"
    "en_catalog (bo_engine b1) = c1" "en_tables (bo_engine b1) = t1" "en_version (bo_engine b1) = en_version (bo_engine b)"
    "bo_changes b1 = bo_changes b @ ddl_ops [op]"
    "en_next_rowset_id (bo_engine b) \<le> en_next_rowset_id (bo_engine b1)" "en_next_dv_id (bo_engine b) \<le> en_next_dv_id (bo_engine b1)"
    "\<forall>r i. op = AddRowSet r i \<longrightarrow> i < en_next_rowset_id (bo_engine b1)" "\<forall>r dv i. op = AddDV r dv i \<longrightarrow> dv < en_next_dv_id (bo_engine b1)"
    by auto
  have app: "ddl_ops (op # ops) = ddl_ops [op] @ ddl_ops ops" by (cases op) auto
  from Cons.IH [of b1] Cons.prems(2) b1(4,5) d(2) obtain b' where "sr_fold boot_op ops b1 = Some (Inr b')"
    "bo_rowsets b' = fold op_rowsets ops (bo_rowsets b1)" "bo_dvs b' = fold op_dvs ops (bo_dvs b1)"
    "en_catalog (bo_engine b') = c" "en_tables (bo_engine b') = t" "en_version (bo_engine b') = en_version (bo_engine b1)"
    "bo_changes b' = bo_changes b1 @ ddl_ops ops"
    "en_next_rowset_id (bo_engine b1) \<le> en_next_rowset_id (bo_engine b')" "en_next_dv_id (bo_engine b1) \<le> en_next_dv_id (bo_engine b')"
    "\<forall>r i. AddRowSet r i \<in> set ops \<longrightarrow> i < en_next_rowset_id (bo_engine b')" "\<forall>r dv i. AddDV r dv i \<in> set ops \<longrightarrow> dv < en_next_dv_id (bo_engine b')"
    by auto
  then show ?case using b1 unfolding app by (intro exI [of _ b']) (fastforce dest: order.strict_trans2)
qed simp

lemma open_rowsets_fold:
  assumes "\<forall>k\<in>set ks. \<exists>r t. rowsets k = Some r \<and> tables r = Some t \<and> open_rowset t (snd k) = Inr (obj k)"
  shows "sr_fold (open_rowset_op open_rowset tables rowsets) ks changes
    = Some (Inr (changes @ map (\<lambda>k. EpAddRowSet (the (rowsets k)) (snd k) (obj k)) ks))"
  using assms by (induction ks arbitrary: changes) (auto simp: open_rowset_op_def)

lemma open_dvs_fold:
  assumes "\<forall>k\<in>set ks. \<exists>r tab. dvs k = Some r \<and> tables r = Some tab \<and> open_dv tab (fst (snd k)) (snd (snd k)) = Inr (obj k)"
  shows "sr_fold (open_dv_op open_dv tables dvs) ks changes
    = Some (Inr (changes @ map (\<lambda>k. EpAddDV (the (dvs k)) (snd (snd k)) (fst (snd k)) (obj k)) ks))"
  using assms by (induction ks arbitrary: changes) (auto simp: open_dv_op_def)

section \<open>What a commit says\<close>

fun entry_of :: "'rs epoch_op \<Rightarrow> manifest_operation" where
  "entry_of (EpCreateTable e) = CreateTable e"
| "entry_of (EpDropTable r) = DropTable r"
| "entry_of (EpAddRowSet r i rs) = AddRowSet r i"
| "entry_of (EpDeleteRowSet r i) = DeleteRowSet r i"
| "entry_of (EpAddDV r dv i d) = AddDV r dv i"
| "entry_of (EpDeleteDV r dv i) = DeleteDV r dv i"

lemma entry_of_is_entry [simp]: "is_entry (entry_of op)"
  by (cases op) (simp_all add: is_entry_def)

definition sn_dvs3 :: "snapshot \<Rightarrow> (nat \<times> nat \<times> nat) set" where
  "sn_dvs3 s = {(t, r, i). i \<in> dvs_in s t r}"

definition cur_snapshot :: "'rs version_manager \<Rightarrow> snapshot" where
  "cur_snapshot m = or_default empty_snapshot (vm_status m (vm_epoch m))"

lemma sn_dvs3_simps [simp]:
  "sn_dvs3 empty_snapshot = {}" "sn_dvs3 (add_rowset t r s) = sn_dvs3 s" "sn_dvs3 (add_dv t r i s) = insert (t, r, i) (sn_dvs3 s)"
  by (auto simp: sn_dvs3_def split: if_splits)

lemma sn_dvs3_delete:
  "delete_rowset t r s = Some s' \<Longrightarrow> sn_dvs3 s' = sn_dvs3 s"
  "delete_dv t r i s = Some s' \<Longrightarrow> sn_dvs3 s' = sn_dvs3 s - {(t, r, i)}"
proof -
  show "sn_dvs3 s' = sn_dvs3 s" if "delete_rowset t r s = Some s'"
    using delete_rowset_view [OF that] by (simp add: sn_dvs3_def)
  show "sn_dvs3 s' = sn_dvs3 s - {(t, r, i)}" if d: "delete_dv t r i s = Some s'"
  proof -
    have "(t', r', i') \<in> sn_dvs3 s' \<longleftrightarrow> (t', r', i') \<in> sn_dvs3 s - {(t, r, i)}" for t' r' i'
      using delete_dv_view [OF d, of t' r'] by (auto simp: sn_dvs3_def)
    then show ?thesis by auto
  qed
qed

lemma apply_op_entries:
  assumes "apply_op op (s, es, ds, m) = Some (s', es', ds', m')"
    and "sn_refs s = dom M" and "sn_dvs3 s = dom D"
  shows "es' = es @ [entry_of op] \<and> sn_refs s' = dom (op_rowsets (entry_of op) M) \<and> sn_dvs3 s' = dom (op_dvs (entry_of op) D)"
  using assms by (cases op) (auto simp: delete_rowset_refs(1) delete_dv_refs(1) sn_dvs3_delete)

lemma apply_ops_entries:
  assumes "fold_opt apply_op ops (s, es, ds, m) = Some (s', es', ds', m')"
    and "sn_refs s = dom M" and "sn_dvs3 s = dom D"
  shows "es' = es @ map entry_of ops \<and> sn_refs s' = dom (fold op_rowsets (map entry_of ops) M)
    \<and> sn_dvs3 s' = dom (fold op_dvs (map entry_of ops) D)"
  using assms
proof (induction ops arbitrary: s es ds m M D)
  case (Cons op ops)
  then obtain s1 es1 ds1 m1 where op: "apply_op op (s, es, ds, m) = Some (s1, es1, ds1, m1)"
    and rest: "fold_opt apply_op ops (s1, es1, ds1, m1) = Some (s', es', ds', m')" by auto
  from apply_op_entries [OF op Cons.prems(2,3)] Cons.IH [OF rest] show ?case by simp
qed simp

lemma commit_changes_entries:
  assumes "commit_changes ops m = Some (es, ep, m')" "sn_refs (cur_snapshot m) = dom M" "sn_dvs3 (cur_snapshot m) = dom D"
  shows "es = map entry_of ops" "sn_refs (cur_snapshot m') = dom (fold op_rowsets (map entry_of ops) M)"
    "sn_dvs3 (cur_snapshot m') = dom (fold op_dvs (map entry_of ops) D)" "vm_status m' (vm_epoch m') \<noteq> None"
proof -
  obtain s ds m1 where f: "fold_opt apply_op ops (cur_snapshot m, [], [], m) = Some (s, es, ds, m1)"
    and m': "vm_status m' (vm_epoch m') = Some s"
    using assms(1) by (auto simp: commit_changes_def commit_prepare_def commit_publish_def Let_def cur_snapshot_def)
  from apply_ops_entries [OF f assms(2,3)] m'
  show "es = map entry_of ops" "sn_refs (cur_snapshot m') = dom (fold op_rowsets (map entry_of ops) M)"
    "sn_dvs3 (cur_snapshot m') = dom (fold op_dvs (map entry_of ops) D)" "vm_status m' (vm_epoch m') \<noteq> None"
    by (simp_all add: cur_snapshot_def [of m'])
qed

section \<open>Runs of the engine\<close>

text \<open>
  An engine opened on an empty directory, and what happens to it: tables are created, and dropped or not found,
  transactions and compactions commit row sets and delete vectors, ids are drawn, versions are pinned
  and unpinned, the vacuum runs, and the database is closed or crashes and is opened again. Reopening starts from any
  file that replays to the same entries as the manifest, so one that ends in an unfinished commit too. Failed
  creations, views and indexes are not part of a run: after them the manifest may not describe the engine.
\<close>

fun data_op :: "'rs epoch_op \<Rightarrow> bool" where
  "data_op (EpCreateTable _) = False" | "data_op (EpDropTable _) = False" | "data_op _ = True"

definition lists_set :: "('a set \<Rightarrow> 'a list) \<Rightarrow> bool" where
  "lists_set order \<longleftrightarrow> (\<forall>S. finite S \<longrightarrow> set (order S) = S)"

inductive engine_run :: "('q, 'x) root_catalog \<Rightarrow> ('rs, 'q, 'x) engine \<Rightarrow> bool" for catalog where
  start: "rewrite_changes [] (engine_new catalog file) = Some e \<Longrightarrow> engine_run catalog e"
| create: "\<lbrakk>engine_run catalog e; create_table_inner entry e = Some (e', Inr ())\<rbrakk> \<Longrightarrow> engine_run catalog e'"
| drop: "\<lbrakk>engine_run catalog e; drop_table_inner order r e = Some (e', res)\<rbrakk> \<Longrightarrow> engine_run catalog e'"
| commit: "\<lbrakk>engine_run catalog e; \<forall>op\<in>set ops. data_op op; engine_commit ops e = Some e'\<rbrakk> \<Longrightarrow> engine_run catalog e'"
| rowset_id: "engine_run catalog e \<Longrightarrow> engine_run catalog (snd (generate_rowset_id e))"
| dv_id: "engine_run catalog e \<Longrightarrow> engine_run catalog (snd (generate_dv_id e))"
| pin: "\<lbrakk>engine_run catalog e; pin (en_version e) = Some (v, vm)\<rbrakk> \<Longrightarrow> engine_run catalog (e\<lparr>en_version := vm\<rparr>)"
| unpin: "\<lbrakk>engine_run catalog e; unpin v (en_version e) = Some (n, vm)\<rbrakk> \<Longrightarrow> engine_run catalog (e\<lparr>en_version := vm\<rparr>)"
| vacuum: "\<lbrakk>engine_run catalog e; find_vacuum held (en_version e) = Some (ds, vm)\<rbrakk> \<Longrightarrow> engine_run catalog (e\<lparr>en_version := vm\<rparr>)"
| reopen: "\<lbrakk>engine_run catalog e; rc_new system_tables = Some catalog; replay (Some file) = replay (en_manifest e);
     lists_set order_rs; lists_set order_dv;
     bootstrap system_tables order_rs order_dv open_rowset open_dv (Some file) = Some (Inr e')\<rbrakk> \<Longrightarrow> engine_run catalog e'"

text \<open>The manifest describes the engine: its log replays to the catalog, the tables and the current snapshot.\<close>

definition describes :: "('q, 'x) root_catalog \<Rightarrow> manifest_operation list \<Rightarrow> ('rs, 'q, 'x) engine \<Rightarrow> bool" where
  "describes catalog log e \<longleftrightarrow> sn_refs (cur_snapshot (en_version e)) = dom (fold op_rowsets log Map.empty)
     \<and> sn_dvs3 (cur_snapshot (en_version e)) = dom (fold op_dvs log Map.empty)
     \<and> sr_fold op_ddl log (catalog, Map.empty) = Some (Inr (en_catalog e, en_tables e))"

definition engine_ok :: "('q, 'x) root_catalog \<Rightarrow> ('rs, 'q, 'x) engine \<Rightarrow> bool" where
  "engine_ok catalog e \<longleftrightarrow> (\<exists>vs log. en_manifest e = Some \<lparr>mf_values = vs, mf_torn = False\<rparr> \<and> replayed vs log \<and> describes catalog log e)"

lemma describes_cong:
  "\<lbrakk>cur_snapshot (en_version e') = cur_snapshot (en_version e); en_catalog e' = en_catalog e; en_tables e' = en_tables e\<rbrakk>
     \<Longrightarrow> describes catalog log e' = describes catalog log e"
  by (simp add: describes_def)

lemma engine_ok_cong:
  "\<lbrakk>cur_snapshot (en_version e') = cur_snapshot (en_version e); en_catalog e' = en_catalog e; en_tables e' = en_tables e;
     en_manifest e' = en_manifest e\<rbrakk> \<Longrightarrow> engine_ok catalog e' = engine_ok catalog e"
  by (simp add: engine_ok_def cong: describes_cong)

lemma cur_snapshot_unchanged:
  "pin m = Some (v, m') \<Longrightarrow> cur_snapshot m' = cur_snapshot m"
  "unpin v m = Some (n, m') \<Longrightarrow> cur_snapshot m' = cur_snapshot m"
  "find_vacuum held m = Some (ds, m') \<Longrightarrow> cur_snapshot m' = cur_snapshot m"
  by (auto simp: pin_def unpin_def find_vacuum_def cur_snapshot_def Let_def split: if_splits)

text \<open>A commit extends the log by its entries; what its data-definition entries say must have been applied.\<close>

lemma engine_commit_ok:
  assumes "en_manifest e = Some \<lparr>mf_values = vs, mf_torn = False\<rparr>" "replayed vs log"
    "sn_refs (cur_snapshot (en_version e)) = dom (fold op_rowsets log Map.empty)"
    "sn_dvs3 (cur_snapshot (en_version e)) = dom (fold op_dvs log Map.empty)"
    "sr_fold op_ddl log (catalog, Map.empty) = Some (Inr d)" "sr_fold op_ddl (map entry_of ops) d = Some (Inr (c, t))"
    "engine_commit ops e = Some e'" "e'' = e'\<lparr>en_catalog := c, en_tables := t\<rparr>"
  shows "engine_ok catalog e''"
proof -
  obtain es ep vm where c: "commit_changes ops (en_version e) = Some (es, ep, vm)"
    and e': "e' = e\<lparr>en_version := vm, en_manifest := manifest_append es (en_manifest e)\<rparr>"
    using assms(7) by (auto simp: engine_commit_def)
  note ce = commit_changes_entries [OF c assms(3,4)]
  have "replayed (vs @ [Begin] @ map entry_of ops @ [End]) (log @ map entry_of ops)"
    using assms(2) by (rule replayed_append) auto
  moreover have "describes catalog (log @ map entry_of ops) e''"
    using assms(5,6,8) ce e' by (simp add: describes_def sr_fold_append)
  moreover have "en_manifest e'' = Some \<lparr>mf_values = vs @ [Begin] @ map entry_of ops @ [End], mf_torn = False\<rparr>"
    using assms(1,8) ce(1) e' by (simp add: manifest_append_def)
  ultimately show ?thesis unfolding engine_ok_def by blast
qed

lemma engine_commit_same: "engine_commit ops e = Some e' \<Longrightarrow> en_catalog e' = en_catalog e \<and> en_tables e' = en_tables e"
  by (auto simp: engine_commit_def)

lemma engine_update_same: "\<lbrakk>en_catalog e = c; en_tables e = t\<rbrakk> \<Longrightarrow> e = e\<lparr>en_catalog := c, en_tables := t\<rparr>"
  by (cases e) auto

lemma engine_okE:
  assumes "engine_ok catalog e"
  obtains vs log where "en_manifest e = Some \<lparr>mf_values = vs, mf_torn = False\<rparr>" "replayed vs log"
    "sn_refs (cur_snapshot (en_version e)) = dom (fold op_rowsets log Map.empty)"
    "sn_dvs3 (cur_snapshot (en_version e)) = dom (fold op_dvs log Map.empty)"
    "sr_fold op_ddl log (catalog, Map.empty) = Some (Inr (en_catalog e, en_tables e))"
  using assms by (auto simp: engine_ok_def describes_def)

lemma data_ops_ddl: "\<forall>op\<in>set ops. data_op op \<Longrightarrow> sr_fold op_ddl (map entry_of ops) d = Some (Inr d)"
proof (induction ops)
  case (Cons op ops)
  then have "op_ddl (entry_of op) d = Some (Inr d)" by (cases op) auto
  then show ?case using Cons by simp
qed simp

lemma drop_changes_data: "\<forall>op\<in>set (drop_changes order r s). data_op op"
  by (auto simp: drop_changes_def split: option.splits)

lemma engine_ok_start:
  assumes "rewrite_changes [] (engine_new catalog file) = Some e"
  shows "engine_ok catalog e"
proof -
  let ?e0 = "(engine_new catalog file)\<lparr>en_manifest := Some \<lparr>mf_values = [], mf_torn = False\<rparr>\<rparr>"
  have s: "cur_snapshot (en_version ?e0) = empty_snapshot" by (simp add: engine_new_def cur_snapshot_def vm_new_def)
  have m: "en_manifest ?e0 = Some \<lparr>mf_values = [], mf_torn = False\<rparr>" by simp
  have c: "engine_commit [] ?e0 = Some e" using assms by (simp add: rewrite_changes_def)
  show ?thesis
  proof (rule engine_commit_ok [OF m replayed_Nil _ _ _ _ c engine_update_same])
    show "sr_fold op_ddl [] (catalog, Map.empty) = Some (Inr (catalog, Map.empty))" by simp
    show "sn_refs (cur_snapshot (en_version ?e0)) = dom (fold op_rowsets [] Map.empty)"
      "sn_dvs3 (cur_snapshot (en_version ?e0)) = dom (fold op_dvs [] Map.empty)" unfolding s by simp_all
    show "sr_fold op_ddl (map entry_of []) (catalog, Map.empty) = Some (Inr (catalog, Map.empty))" by simp
    show "en_catalog e = catalog" "en_tables e = Map.empty" using engine_commit_same [OF c] by (simp_all add: engine_new_def)
  qed
qed

lemma engine_ok_create:
  assumes "engine_ok catalog e" "create_table_inner entry e = Some (e', Inr ())"
  shows "engine_ok catalog e'"
proof -
  obtain e1 where e1: "engine_commit [EpCreateTable entry] e = Some e1" "apply_create_table entry e1 = Some (Inr e')"
    using assms(2) by (auto simp: create_table_inner_def case_sum_eq_iff)
  obtain c t where ct: "ddl_create entry (en_catalog e, en_tables e) = Some (Inr (c, t))" "e' = e1\<lparr>en_catalog := c, en_tables := t\<rparr>"
    using e1(2) engine_commit_same [OF e1(1)] by (auto simp: apply_create_table_def with_ddl_def)
  show ?thesis
  proof (rule engine_okE [OF assms(1)])
    fix vs log
    assume "en_manifest e = Some \<lparr>mf_values = vs, mf_torn = False\<rparr>" "replayed vs log"
      "sn_refs (cur_snapshot (en_version e)) = dom (fold op_rowsets log Map.empty)"
      "sn_dvs3 (cur_snapshot (en_version e)) = dom (fold op_dvs log Map.empty)"
      "sr_fold op_ddl log (catalog, Map.empty) = Some (Inr (en_catalog e, en_tables e))"
    then show ?thesis by (rule engine_commit_ok [OF _ _ _ _ _ _ e1(1) ct(2)]) (simp add: ct(1))
  qed
qed

lemma engine_ok_commit:
  assumes "engine_ok catalog e" "\<forall>op\<in>set ops. data_op op" "engine_commit ops e = Some e'"
  shows "engine_ok catalog e'"
proof (rule engine_okE [OF assms(1)])
  fix vs log
  assume "en_manifest e = Some \<lparr>mf_values = vs, mf_torn = False\<rparr>" "replayed vs log"
    "sn_refs (cur_snapshot (en_version e)) = dom (fold op_rowsets log Map.empty)"
    "sn_dvs3 (cur_snapshot (en_version e)) = dom (fold op_dvs log Map.empty)"
    "sr_fold op_ddl log (catalog, Map.empty) = Some (Inr (en_catalog e, en_tables e))"
  then show ?thesis
    by (rule engine_commit_ok [OF _ _ _ _ _ data_ops_ddl [OF assms(2)] assms(3) engine_update_same])
      (simp_all add: engine_commit_same [OF assms(3)])
qed

lemma engine_ok_drop:
  assumes "engine_ok catalog e" "drop_table_inner order r e = Some (e', res)"
  shows "engine_ok catalog e'"
proof (cases "e' = e")
  case False
  obtain e1 v vm e2 n vm2 where e1: "apply_drop_table r e = Some (Inr e1)" "pin (en_version e1) = Some (v, vm)"
    "engine_commit (EpDropTable r # drop_changes order r (ve_snapshot v)) (e1\<lparr>en_version := vm\<rparr>) = Some e2"
    "unpin v (en_version e2) = Some (n, vm2)" "e' = e2\<lparr>en_version := vm2\<rparr>"
    using assms(2) False by (auto simp: drop_table_inner_def case_sum_eq_iff)
  obtain c t where ct: "ddl_drop r (en_catalog e, en_tables e) = Some (Inr (c, t))" "e1 = e\<lparr>en_catalog := c, en_tables := t\<rparr>"
    using e1(1) by (auto simp: apply_drop_table_def with_ddl_def)
  have cur: "cur_snapshot (en_version (e1\<lparr>en_version := vm\<rparr>)) = cur_snapshot (en_version e)"
    using cur_snapshot_unchanged(1) [OF e1(2)] ct(2) by simp
  have "engine_ok catalog e2"
  proof (rule engine_okE [OF assms(1)])
    fix vs log
    assume a: "en_manifest e = Some \<lparr>mf_values = vs, mf_torn = False\<rparr>" "replayed vs log"
      "sn_refs (cur_snapshot (en_version e)) = dom (fold op_rowsets log Map.empty)"
      "sn_dvs3 (cur_snapshot (en_version e)) = dom (fold op_dvs log Map.empty)"
      "sr_fold op_ddl log (catalog, Map.empty) = Some (Inr (en_catalog e, en_tables e))"
    show ?thesis
    proof (rule engine_commit_ok [OF _ a(2) _ _ a(5) _ e1(3) engine_update_same])
      show "sr_fold op_ddl (map entry_of (EpDropTable r # drop_changes order r (ve_snapshot v))) (en_catalog e, en_tables e) = Some (Inr (c, t))"
        using ct(1) data_ops_ddl [OF drop_changes_data] by simp
      show "sn_refs (cur_snapshot (en_version (e1\<lparr>en_version := vm\<rparr>))) = dom (fold op_rowsets log Map.empty)"
        "sn_dvs3 (cur_snapshot (en_version (e1\<lparr>en_version := vm\<rparr>))) = dom (fold op_dvs log Map.empty)"
        unfolding cur by (rule a(3), rule a(4))
    qed (use a(1) ct(2) engine_commit_same [OF e1(3)] in simp_all)
  qed
  then show ?thesis using engine_ok_cong [of e' e2] cur_snapshot_unchanged(2) [OF e1(4)] e1(5) by simp
qed (use assms in simp)

section \<open>Recovery\<close>

lemma op_rowsets_keyed:
  "\<lbrakk>fold op_rowsets log M k = Some r; \<And>k r. M k = Some r \<Longrightarrow> tr_table_id r = fst k\<rbrakk> \<Longrightarrow> tr_table_id r = fst k"
proof (induction log arbitrary: M)
  case (Cons op log)
  have "tr_table_id r = fst k" if "op_rowsets op M k = Some r" for k r
    using that Cons.prems(2) by (cases op) (auto split: if_splits)
  then show ?case using Cons by simp
qed simp

lemma op_dvs_keyed:
  "\<lbrakk>fold op_dvs log D k = Some r; \<And>k r. D k = Some r \<Longrightarrow> tr_table_id r = fst k\<rbrakk> \<Longrightarrow> tr_table_id r = fst k"
proof (induction log arbitrary: D)
  case (Cons op log)
  have "tr_table_id r = fst k" if "op_dvs op D k = Some r" for k r
    using that Cons.prems(2) by (cases op) (auto split: if_splits)
  then show ?case using Cons by simp
qed simp

lemma fold_ops_finite:
  "finite (dom M) \<Longrightarrow> finite (dom (fold op_rowsets log M))" "finite (dom D) \<Longrightarrow> finite (dom (fold op_dvs log D))"
proof -
  have 1: "finite (dom (op_rowsets op M))" if "finite (dom M)" for op M using that by (cases op) auto
  show "finite (dom M) \<Longrightarrow> finite (dom (fold op_rowsets log M))" by (induction log arbitrary: M) (simp_all add: 1)
  have 2: "finite (dom (op_dvs op D))" if "finite (dom D)" for op D using that by (cases op) auto
  show "finite (dom D) \<Longrightarrow> finite (dom (fold op_dvs log D))" by (induction log arbitrary: D) (simp_all add: 2)
qed

text \<open>The commit of a recovery: row sets, then delete vectors, then the data-definition entries.\<close>

abbreviation add_rs :: "(nat \<times> nat \<rightharpoonup> table_ref_id) \<Rightarrow> (nat \<times> nat \<Rightarrow> 'rs) \<Rightarrow> nat \<times> nat \<Rightarrow> 'rs epoch_op" where
  "add_rs live obj k \<equiv> EpAddRowSet (the (live k)) (snd k) (obj k)"

abbreviation add_dvop :: "(nat \<times> nat \<times> nat \<rightharpoonup> table_ref_id) \<Rightarrow> (nat \<times> nat \<times> nat \<Rightarrow> delete_vector) \<Rightarrow> nat \<times> nat \<times> nat \<Rightarrow> 'rs epoch_op" where
  "add_dvop live obj k \<equiv> EpAddDV (the (live k)) (snd (snd k)) (fst (snd k)) (obj k)"

lemma apply_add_rowsets:
  assumes "\<forall>k\<in>set ks. tr_table_id (the (live k)) = fst k"
  shows "\<exists>s' es'. fold_opt apply_op (map (add_rs live obj) ks) (s, es, dels, m)
    = Some (s', es', dels, m\<lparr>vm_rowsets := (\<lambda>k. if k \<in> set ks then Some (obj k) else vm_rowsets m k)\<rparr>)"
  using assms
proof (induction ks arbitrary: s es m)
  case (Cons k ks)
  let ?m = "m\<lparr>vm_rowsets := (vm_rowsets m)(k \<mapsto> obj k)\<rparr>"
  have "(\<lambda>x. if x \<in> set ks then Some (obj x) else vm_rowsets ?m x) = (\<lambda>x. if x \<in> set (k # ks) then Some (obj x) else vm_rowsets m x)"
    by (auto simp: fun_eq_iff)
  then show ?case using Cons.IH [of _ _ ?m] Cons.prems by (auto simp: fun_upd_def [symmetric])
qed (auto cong: if_cong)

abbreviation pool_key :: "nat \<times> nat \<times> nat \<Rightarrow> nat \<times> nat" where
  "pool_key k \<equiv> (fst k, snd (snd k))"

lemma apply_add_dvs:
  assumes "\<forall>k\<in>set ks. tr_table_id (the (live k)) = fst k"
  shows "\<exists>s' es' dvs'. fold_opt apply_op (map (add_dvop live obj) ks) (s, es, dels, m) = Some (s', es', dels, m\<lparr>vm_dvs := dvs'\<rparr>)
    \<and> (\<forall>x. x \<notin> pool_key ` set ks \<longrightarrow> dvs' x = vm_dvs m x)
    \<and> (\<forall>x\<in>pool_key ` set ks. \<exists>i. (fst x, i, snd x) \<in> set ks \<and> dvs' x = Some (obj (fst x, i, snd x)))"
  using assms
proof (induction ks arbitrary: s es m)
  case Nil
  show ?case by (intro exI [of _ s] exI [of _ es] exI [of _ "vm_dvs m"]) simp
next
  case (Cons k ks)
  obtain t i dv where k: "k = (t, i, dv)" by (cases k)
  let ?m = "m\<lparr>vm_dvs := (vm_dvs m)((t, dv) \<mapsto> obj k)\<rparr>"
  have pre: "\<forall>k\<in>set ks. tr_table_id (the (live k)) = fst k" using Cons.prems by simp
  from Cons.IH [OF pre, of "add_dv t i dv s" "es @ [AddDV (the (live k)) dv i]" ?m] obtain s' es' dvs' where ih:
    "fold_opt apply_op (map (add_dvop live obj) ks) (add_dv t i dv s, es @ [AddDV (the (live k)) dv i], dels, ?m) = Some (s', es', dels, ?m\<lparr>vm_dvs := dvs'\<rparr>)"
    "\<forall>x. x \<notin> pool_key ` set ks \<longrightarrow> dvs' x = vm_dvs ?m x"
    "\<forall>x\<in>pool_key ` set ks. \<exists>i. (fst x, i, snd x) \<in> set ks \<and> dvs' x = Some (obj (fst x, i, snd x))"
    by blast
  have "tr_table_id (the (live k)) = t" using Cons.prems by (simp add: k)
  then have "fold_opt apply_op (map (add_dvop live obj) (k # ks)) (s, es, dels, m) = Some (s', es', dels, m\<lparr>vm_dvs := dvs'\<rparr>)"
    using ih(1) by (simp add: k)
  moreover have "\<exists>j. (fst x, j, snd x) \<in> set (k # ks) \<and> dvs' x = Some (obj (fst x, j, snd x))"
    if "x \<in> pool_key ` set (k # ks)" for x
  proof (cases "x \<in> pool_key ` set ks")
    case True
    then show ?thesis using bspec [OF ih(3) True] by auto
  next
    case False
    then have "x = (t, dv)" using that by (auto simp: k)
    then show ?thesis using ih(2) False by (intro exI [of _ i]) (simp add: k)
  qed
  moreover have "dvs' x = vm_dvs m x" if "x \<notin> pool_key ` set (k # ks)" for x
  proof -
    have "x \<notin> pool_key ` set ks" "x \<noteq> (t, dv)" using that by (auto simp: k)
    then show ?thesis using ih(2) [rule_format, of x] by simp
  qed
  ultimately show ?case by blast
qed

lemma apply_ddl: "\<exists>es'. fold_opt apply_op (ddl_ops log) (s, es, dels, m) = Some (s, es', dels, m)"
  by (induction log arbitrary: es rule: ddl_ops.induct) auto

lemma entries_add_rs:
  assumes "\<forall>k\<in>set ks. live k \<noteq> None \<and> tr_table_id (the (live k)) = fst k"
  shows "fold op_rowsets (map entry_of (map (add_rs live obj) ks)) M = (\<lambda>k. if k \<in> set ks then live k else M k)"
  using assms
proof (induction ks arbitrary: M)
  case (Cons k ks)
  then have "op_rowsets (entry_of (add_rs live obj k)) M = M(k := live k)" by auto
  then show ?case using Cons by (auto simp: fun_eq_iff)
qed simp

lemma entries_add_dv:
  assumes "\<forall>k\<in>set ks. live k \<noteq> None \<and> tr_table_id (the (live k)) = fst k"
  shows "fold op_dvs (map entry_of (map (add_dvop live obj) ks)) D = (\<lambda>k. if k \<in> set ks then live k else D k)"
  using assms
proof (induction ks arbitrary: D)
  case (Cons k ks)
  define D' where "D' = D(k := live k)"
  have eq: "op_dvs (AddDV (the (live k)) (snd (snd k)) (fst (snd k))) D = D'" using Cons.prems by (cases k) (auto simp: D'_def)
  have "(\<lambda>x. if x \<in> set ks then live x else D' x) = (\<lambda>x. if x \<in> set (k # ks) then live x else D x)"
    by (auto simp: fun_eq_iff D'_def)
  then show ?case using Cons.IH [of D'] Cons.prems by (simp add: eq del: op_dvs.simps)
qed simp

lemma entries_other:
  "fold op_dvs (map entry_of (map (add_rs live obj) ks)) D = D"
  "fold op_rowsets (map entry_of (map (add_dvop live' obj') ds)) M = M"
  by (induction ks; simp) (induction ds; auto)

lemma entries_ddl:
  "fold op_rowsets (map entry_of (ddl_ops log)) M = M" "fold op_dvs (map entry_of (ddl_ops log)) D = D"
  "sr_fold op_ddl (map entry_of (ddl_ops log)) = sr_fold op_ddl log"
proof -
  show "fold op_rowsets (map entry_of (ddl_ops log)) M = M" by (induction log rule: ddl_ops.induct) auto
  show "fold op_dvs (map entry_of (ddl_ops log)) D = D" by (induction log rule: ddl_ops.induct) auto
  show "sr_fold op_ddl (map entry_of (ddl_ops log)) = sr_fold op_ddl log" 
  proof (induction log rule: ddl_ops.induct)
    case (1 e ops)
    then show ?case by (intro ext) simp
  next
    case (2 r ops)
    then show ?case by (intro ext) simp
  qed (intro ext, simp)+
qed

lemma entries_data_ddl:
  "sr_fold op_ddl (map entry_of (map (add_rs live obj) ks)) d = Some (Inr d)"
  "sr_fold op_ddl (map entry_of (map (add_dvop live' obj') ds)) d = Some (Inr d)"
  by (rule data_ops_ddl, simp)+

text \<open>What the disk is relied on for: each live row set and delete vector belongs to a table that still exists, and its files open
  as the object that was committed.\<close>

definition disk_ok ::
  "(secondary_table \<Rightarrow> nat \<Rightarrow> 'rs storage_result) \<Rightarrow> (secondary_table \<Rightarrow> nat \<Rightarrow> nat \<Rightarrow> delete_vector storage_result)
     \<Rightarrow> manifest_operation list \<Rightarrow> ('rs, 'q, 'x) engine \<Rightarrow> bool" where
  "disk_ok open_rowset open_dv log e \<longleftrightarrow>
     (\<forall>k r. fold op_rowsets log Map.empty k = Some r \<longrightarrow> (\<exists>t rs. en_tables e r = Some t
        \<and> vm_rowsets (en_version e) k = Some rs \<and> open_rowset t (snd k) = Inr rs))
     \<and> (\<forall>k r. fold op_dvs log Map.empty k = Some r \<longrightarrow> (\<exists>t d. en_tables e r = Some t
        \<and> vm_dvs (en_version e) (pool_key k) = Some d \<and> open_dv t (fst (snd k)) (snd (snd k)) = Inr d))"

lemma recovery_commit:
  assumes "\<forall>k\<in>set ks. live k \<noteq> None \<and> tr_table_id (the (live k)) = fst k" "\<forall>k\<in>set ds. dlive k \<noteq> None \<and> tr_table_id (the (dlive k)) = fst k"
  shows "\<exists>es m'. commit_changes (map (add_rs live obj) ks @ map (add_dvop dlive dobj) ds @ ddl_ops log) vm_new = Some (es, 1, m')
    \<and> (\<forall>k\<in>set ks. vm_rowsets m' k = Some (obj k))
    \<and> (\<forall>x\<in>pool_key ` set ds. \<exists>i. (fst x, i, snd x) \<in> set ds \<and> vm_dvs m' x = Some (dobj (fst x, i, snd x)))"
proof -
  let ?m1 = "vm_new\<lparr>vm_rowsets := (\<lambda>k. if k \<in> set ks then Some (obj k) else vm_rowsets vm_new k)\<rparr>"
  obtain s1 es1 where a1: "fold_opt apply_op (map (add_rs live obj) ks) (empty_snapshot, [], [], vm_new) = Some (s1, es1, [], ?m1)"
    using apply_add_rowsets [of ks live obj empty_snapshot "[]" "[]" vm_new] assms(1) by blast
  obtain s2 es2 dvs' where a2: "fold_opt apply_op (map (add_dvop dlive dobj) ds) (s1, es1, [], ?m1) = Some (s2, es2, [], ?m1\<lparr>vm_dvs := dvs'\<rparr>)"
    "\<forall>x\<in>pool_key ` set ds. \<exists>i. (fst x, i, snd x) \<in> set ds \<and> dvs' x = Some (dobj (fst x, i, snd x))"
    using apply_add_dvs [of ds dlive dobj s1 es1 "[]" ?m1] assms(2) by blast
  obtain es3 where a3: "fold_opt apply_op (ddl_ops log) (s2, es2, [], ?m1\<lparr>vm_dvs := dvs'\<rparr>) = Some (s2, es3, [], ?m1\<lparr>vm_dvs := dvs'\<rparr>)"
    using apply_ddl by blast
  define M where "M = ?m1\<lparr>vm_dvs := dvs'\<rparr>"
  have all: "fold_opt apply_op (map (add_rs live obj) ks @ map (add_dvop dlive dobj) ds @ ddl_ops log) (empty_snapshot, [], [], vm_new)
      = Some (s2, es3, [], M)"
    unfolding M_def using a1 a2(1) a3 by (simp add: fold_opt_append)
  have M: "vm_epoch M = 0" "\<forall>k\<in>set ks. vm_rowsets M k = Some (obj k)" "vm_dvs M = dvs'" by (simp_all add: M_def vm_new_def)
  have new: "or_default empty_snapshot (vm_status vm_new 0) = empty_snapshot" "vm_epoch vm_new = 0" by (simp_all add: vm_new_def)
  have "commit_changes (map (add_rs live obj) ks @ map (add_dvop dlive dobj) ds @ ddl_ops log) vm_new
      = Some (es3, 1, M\<lparr>vm_epoch := 1, vm_status := (vm_status M)(1 \<mapsto> s2), vm_deletions := (vm_deletions M)(1 \<mapsto> [])\<rparr>)"
    using all M(1) by (simp add: commit_changes_def commit_prepare_def commit_publish_def new Let_def)
  then show ?thesis using M(2,3) a2(2) by auto
qed

abbreviation rowset_obj :: "('rs, 'q, 'x) engine \<Rightarrow> nat \<times> nat \<Rightarrow> 'rs" where
  "rowset_obj e k \<equiv> the (vm_rowsets (en_version e) k)"

abbreviation dv_obj :: "('rs, 'q, 'x) engine \<Rightarrow> nat \<times> nat \<times> nat \<Rightarrow> delete_vector" where
  "dv_obj e k \<equiv> the (vm_dvs (en_version e) (pool_key k))"

lemma disk_ok_rowset:
  "\<lbrakk>disk_ok open_rowset open_dv log e; k \<in> dom (fold op_rowsets log Map.empty)\<rbrakk> \<Longrightarrow>
     (\<exists>r t. fold op_rowsets log Map.empty k = Some r \<and> en_tables e r = Some t \<and> open_rowset t (snd k) = Inr (rowset_obj e k))
     \<and> vm_rowsets (en_version e) k = Some (rowset_obj e k)"
  unfolding disk_ok_def dom_def mem_Collect_eq by (metis option.exhaust_sel option.sel)

lemma disk_ok_dv:
  "\<lbrakk>disk_ok open_rowset open_dv log e; k \<in> dom (fold op_dvs log Map.empty)\<rbrakk> \<Longrightarrow>
     (\<exists>r t. fold op_dvs log Map.empty k = Some r \<and> en_tables e r = Some t \<and> open_dv t (fst (snd k)) (snd (snd k)) = Inr (dv_obj e k))
     \<and> vm_dvs (en_version e) (pool_key k) = Some (dv_obj e k)"
  unfolding disk_ok_def dom_def mem_Collect_eq by (metis option.exhaust_sel option.sel)

lemma live_keyed:
  "k \<in> dom (fold op_rowsets log Map.empty) \<Longrightarrow> tr_table_id (the (fold op_rowsets log Map.empty k)) = fst k"
  "d \<in> dom (fold op_dvs log Map.empty) \<Longrightarrow> tr_table_id (the (fold op_dvs log Map.empty d)) = fst d"
  using op_rowsets_keyed [of log Map.empty k] op_dvs_keyed [of log Map.empty d] by auto

text \<open>The replay and the opening of files, up to the final commit.\<close>

lemma bootstrap_forward:
  fixes obj :: "nat \<times> nat \<Rightarrow> 'rs" and catalog :: "('q, 'x) root_catalog"
  assumes "rc_new system_tables = Some catalog" "replay (Some file) = Inr log"
    "sr_fold op_ddl log (catalog, Map.empty) = Some (Inr (c, t))" "\<forall>op\<in>set log. op_ids_ok op"
    "\<forall>k\<in>set (order_rs (dom (fold op_rowsets log Map.empty))). \<exists>r tab. fold op_rowsets log Map.empty k = Some r \<and> t r = Some tab
       \<and> open_rowset tab (snd k) = Inr (obj k)"
    "\<forall>k\<in>set (order_dv (dom (fold op_dvs log Map.empty))). \<exists>r tab. fold op_dvs log Map.empty k = Some r \<and> t r = Some tab
       \<and> open_dv tab (fst (snd k)) (snd (snd k)) = Inr (dobj k)"
  shows "\<exists>e0. en_catalog e0 = c \<and> en_tables e0 = t \<and> en_version e0 = vm_new
    \<and> (\<forall>r i. AddRowSet r i \<in> set log \<longrightarrow> i < en_next_rowset_id e0) \<and> (\<forall>r dv i. AddDV r dv i \<in> set log \<longrightarrow> dv < en_next_dv_id e0)
    \<and> bootstrap system_tables order_rs order_dv open_rowset open_dv (Some file) = sr_lift (rewrite_changes
        (map (add_rs (fold op_rowsets log Map.empty) obj) (order_rs (dom (fold op_rowsets log Map.empty)))
         @ map (add_dvop (fold op_dvs log Map.empty) dobj) (order_dv (dom (fold op_dvs log Map.empty))) @ ddl_ops log) e0)"
proof -
  let ?b0 = "\<lparr>bo_engine = engine_new catalog (Some file), bo_rowsets = Map.empty, bo_dvs = Map.empty, bo_changes = []\<rparr> :: ('rs, 'q, 'x) boot"
  have d0: "sr_fold op_ddl log (en_catalog (bo_engine ?b0), en_tables (bo_engine ?b0)) = Some (Inr (c, t))"
    using assms(3) by (simp add: engine_new_def)
  from boot_fold [OF d0 assms(4)] obtain b where b: "sr_fold boot_op log ?b0 = Some (Inr b)"
    "bo_rowsets b = fold op_rowsets log Map.empty" "bo_dvs b = fold op_dvs log Map.empty" "en_catalog (bo_engine b) = c"
    "en_tables (bo_engine b) = t" "en_version (bo_engine b) = vm_new" "bo_changes b = ddl_ops log"
    "\<forall>r i. AddRowSet r i \<in> set log \<longrightarrow> i < en_next_rowset_id (bo_engine b)" "\<forall>r dv i. AddDV r dv i \<in> set log \<longrightarrow> dv < en_next_dv_id (bo_engine b)"
    by (auto simp: engine_new_def)
  have "bootstrap system_tables order_rs order_dv open_rowset open_dv (Some file) = sr_lift (rewrite_changes
        (map (add_rs (fold op_rowsets log Map.empty) obj) (order_rs (dom (fold op_rowsets log Map.empty)))
         @ map (add_dvop (fold op_dvs log Map.empty) dobj) (order_dv (dom (fold op_dvs log Map.empty))) @ ddl_ops log) (bo_engine b))"
    using assms(1,2) b(1,2,3,5,7) by (simp add: bootstrap_def open_rowsets_fold [OF assms(5)] open_dvs_fold [OF assms(6)])
  then show ?thesis using b(4,5,6,8,9) by blast
qed

text \<open>The commit of the recovery describes the state it was read from.\<close>

lemma recovery_describes:
  fixes log :: "manifest_operation list"
  defines "live \<equiv> fold op_rowsets log Map.empty" and "dlive \<equiv> fold op_dvs log Map.empty"
  assumes "set ks = dom live" "set ds = dom dlive" "sr_fold op_ddl log (catalog, Map.empty) = Some (Inr (c, t))"
    "en_catalog e0 = c" "en_tables e0 = t" "en_version e0 = vm_new"
    "rewrite_changes (map (add_rs live obj) ks @ map (add_dvop dlive dobj) ds @ ddl_ops log) e0 = Some e'"
  shows "sn_refs (cur_snapshot (en_version e')) = dom live" "sn_dvs3 (cur_snapshot (en_version e')) = dom dlive" "engine_ok catalog e'"
proof -
  let ?ops = "map (add_rs live obj) ks @ map (add_dvop dlive dobj) ds @ ddl_ops log"
  have ok: "\<forall>k\<in>set ks. live k \<noteq> None \<and> tr_table_id (the (live k)) = fst k" "\<forall>k\<in>set ds. dlive k \<noteq> None \<and> tr_table_id (the (dlive k)) = fst k"
    using assms(3,4) live_keyed by (auto simp: live_def dlive_def)
  have l: "fold op_rowsets (map entry_of ?ops) Map.empty = live"
    by (simp only: map_append fold_append o_apply entries_add_rs [OF ok(1)] entries_other entries_ddl)
      (auto simp: fun_eq_iff assms(3) domIff)
  have d: "fold op_dvs (map entry_of ?ops) Map.empty = dlive"
    by (simp only: map_append fold_append o_apply entries_add_dv [OF ok(2)] entries_other entries_ddl)
      (auto simp: fun_eq_iff assms(4) domIff)
  have dd: "sr_fold op_ddl (map entry_of ?ops) (catalog, Map.empty) = Some (Inr (c, t))"
    using assms(5) by (simp only: map_append sr_fold_append entries_data_ddl entries_ddl sr_bind_simps)
  let ?e0 = "e0\<lparr>en_manifest := Some \<lparr>mf_values = [], mf_torn = False\<rparr>\<rparr>"
  have s: "cur_snapshot (en_version ?e0) = empty_snapshot" using assms(8) by (simp add: cur_snapshot_def vm_new_def)
  have c: "engine_commit ?ops ?e0 = Some e'" using assms(9) by (simp add: rewrite_changes_def)
  then obtain es ep vm where cc: "commit_changes ?ops (en_version ?e0) = Some (es, ep, vm)" "en_version e' = vm"
    by (auto simp: engine_commit_def)
  have refs: "sn_refs (cur_snapshot (en_version ?e0)) = dom Map.empty" "sn_dvs3 (cur_snapshot (en_version ?e0)) = dom Map.empty"
    unfolding s by simp_all
  from commit_changes_entries(2,3) [OF cc(1) refs] cc(2) l d
  show "sn_refs (cur_snapshot (en_version e')) = dom live" "sn_dvs3 (cur_snapshot (en_version e')) = dom dlive" by simp_all
  show "engine_ok catalog e'"
  proof (rule engine_commit_ok [OF _ replayed_Nil _ _ _ dd c engine_update_same])
    show "sn_refs (cur_snapshot (en_version ?e0)) = dom (fold op_rowsets [] Map.empty)"
      "sn_dvs3 (cur_snapshot (en_version ?e0)) = dom (fold op_dvs [] Map.empty)" using refs by simp_all
  qed (use engine_commit_same [OF c] assms(6,7) in simp_all)
qed

text \<open>A database that opened was opened by the replay, with every file it needed.\<close>

lemma boot_ids: "sr_fold boot_op ops b = Some (Inr b') \<Longrightarrow> \<forall>op\<in>set ops. op_ids_ok op"
proof (induction ops arbitrary: b)
  case (Cons op ops)
  then obtain b1 where "boot_op op b = Some (Inr b1)" "sr_fold boot_op ops b1 = Some (Inr b')" by auto
  moreover from this(1) have "op_ids_ok op" by (cases op) (auto simp: checked_add32_def checked_add64_def split: if_splits)
  ultimately show ?case using Cons.IH by simp
qed simp

lemma open_rowsets_back:
  "sr_fold (open_rowset_op open_rowset tables rowsets) ks changes = Some (Inr cs) \<Longrightarrow>
     \<exists>obj. \<forall>k\<in>set ks. \<exists>r t. rowsets k = Some r \<and> tables r = Some t \<and> open_rowset t (snd k) = Inr (obj k)"
proof -
  assume "sr_fold (open_rowset_op open_rowset tables rowsets) ks changes = Some (Inr cs)"
  then have "\<forall>k\<in>set ks. \<exists>o'. \<exists>r t. rowsets k = Some r \<and> tables r = Some t \<and> open_rowset t (snd k) = Inr o'"
    by (induction ks arbitrary: changes) (fastforce simp: open_rowset_op_def)+
  then show ?thesis by (rule bchoice)
qed

lemma open_dvs_back:
  "sr_fold (open_dv_op open_dv tables dvs) ks changes = Some (Inr cs) \<Longrightarrow>
     \<exists>obj. \<forall>k\<in>set ks. \<exists>r t. dvs k = Some r \<and> tables r = Some t \<and> open_dv t (fst (snd k)) (snd (snd k)) = Inr (obj k)"
proof -
  assume "sr_fold (open_dv_op open_dv tables dvs) ks changes = Some (Inr cs)"
  then have "\<forall>k\<in>set ks. \<exists>o'. \<exists>r t. dvs k = Some r \<and> tables r = Some t \<and> open_dv t (fst (snd k)) (snd (snd k)) = Inr o'"
    by (induction ks arbitrary: changes) (fastforce simp: open_dv_op_def)+
  then show ?thesis by (rule bchoice)
qed

lemma bootstrap_back:
  fixes catalog :: "('q, 'x) root_catalog" and e' :: "('rs, 'q, 'x) engine"
  assumes "rc_new system_tables = Some catalog" "replay (Some file) = Inr log"
    "sr_fold op_ddl log (catalog, Map.empty) = Some (Inr (c, t))"
    "bootstrap system_tables order_rs order_dv open_rowset open_dv (Some file) = Some (Inr e')"
  shows "(\<forall>op\<in>set log. op_ids_ok op)
    \<and> (\<exists>obj. \<forall>k\<in>set (order_rs (dom (fold op_rowsets log Map.empty))). \<exists>r tab. fold op_rowsets log Map.empty k = Some r \<and> t r = Some tab
       \<and> open_rowset tab (snd k) = Inr (obj k))
    \<and> (\<exists>dobj. \<forall>k\<in>set (order_dv (dom (fold op_dvs log Map.empty))). \<exists>r tab. fold op_dvs log Map.empty k = Some r \<and> t r = Some tab
       \<and> open_dv tab (fst (snd k)) (snd (snd k)) = Inr (dobj k))"
proof -
  let ?b0 = "\<lparr>bo_engine = engine_new catalog (Some file), bo_rowsets = Map.empty, bo_dvs = Map.empty, bo_changes = []\<rparr> :: ('rs, 'q, 'x) boot"
  from assms(4) obtain b ch ch' where b: "sr_fold boot_op log ?b0 = Some (Inr b)"
    and opened: "sr_fold (open_rowset_op open_rowset (en_tables (bo_engine b)) (bo_rowsets b)) (order_rs (dom (bo_rowsets b))) [] = Some (Inr ch)"
      "sr_fold (open_dv_op open_dv (en_tables (bo_engine b)) (bo_dvs b)) (order_dv (dom (bo_dvs b))) ch = Some (Inr ch')"
    by (auto simp: bootstrap_def assms(1,2))
  have ids: "\<forall>op\<in>set log. op_ids_ok op" using boot_ids [OF b] .
  have "sr_fold op_ddl log (en_catalog (bo_engine ?b0), en_tables (bo_engine ?b0)) = Some (Inr (c, t))"
    using assms(3) by (simp add: engine_new_def)
  from boot_fold [OF this ids] b have fields: "bo_rowsets b = fold op_rowsets log Map.empty" "bo_dvs b = fold op_dvs log Map.empty"
    "en_tables (bo_engine b) = t" by auto
  show ?thesis using ids open_rowsets_back [OF opened(1)] open_dvs_back [OF opened(2)] unfolding fields by blast
qed

lemma sr_lift_eq: "sr_lift x = Some (Inr y) \<longleftrightarrow> x = Some y"
  by (cases x) (simp_all add: sr_lift_def)

lemma engine_ok_reopen:
  assumes "engine_ok catalog e" "rc_new system_tables = Some catalog" "replay (Some file) = replay (en_manifest e)"
    "lists_set order_rs" "lists_set order_dv"
    "bootstrap system_tables order_rs order_dv open_rowset open_dv (Some file) = Some (Inr e')"
  shows "engine_ok catalog e'"
proof (rule engine_okE [OF assms(1)])
  fix vs log
  assume m: "en_manifest e = Some \<lparr>mf_values = vs, mf_torn = False\<rparr>" "replayed vs log"
    and ddl: "sr_fold op_ddl log (catalog, Map.empty) = Some (Inr (en_catalog e, en_tables e))"
  have log: "replay (Some file) = Inr log" using m assms(3) by (simp add: replay_def replayed_def)
  from bootstrap_back [OF assms(2) log ddl assms(6)] obtain obj dobj where ids: "\<forall>op\<in>set log. op_ids_ok op"
    and opened: "\<forall>k\<in>set (order_rs (dom (fold op_rowsets log Map.empty))). \<exists>r tab. fold op_rowsets log Map.empty k = Some r \<and> en_tables e r = Some tab
       \<and> open_rowset tab (snd k) = Inr (obj k)"
     "\<forall>k\<in>set (order_dv (dom (fold op_dvs log Map.empty))). \<exists>r tab. fold op_dvs log Map.empty k = Some r \<and> en_tables e r = Some tab
       \<and> open_dv tab (fst (snd k)) (snd (snd k)) = Inr (dobj k)" by blast
  from bootstrap_forward [where order_rs = order_rs and order_dv = order_dv and open_rowset = open_rowset and open_dv = open_dv
      and obj = obj and dobj = dobj, OF assms(2) log ddl ids opened] obtain e0 where e0: "en_catalog e0 = en_catalog e" "en_tables e0 = en_tables e" "en_version e0 = vm_new"
    "bootstrap system_tables order_rs order_dv open_rowset open_dv (Some file) = sr_lift (rewrite_changes
        (map (add_rs (fold op_rowsets log Map.empty) obj) (order_rs (dom (fold op_rowsets log Map.empty)))
         @ map (add_dvop (fold op_dvs log Map.empty) dobj) (order_dv (dom (fold op_dvs log Map.empty))) @ ddl_ops log) e0)" by blast
  have "set (order_rs (dom (fold op_rowsets log Map.empty))) = dom (fold op_rowsets log Map.empty)"
    "set (order_dv (dom (fold op_dvs log Map.empty))) = dom (fold op_dvs log Map.empty)"
    using assms(4,5) by (simp_all add: lists_set_def fold_ops_finite)
  moreover have "rewrite_changes (map (add_rs (fold op_rowsets log Map.empty) obj) (order_rs (dom (fold op_rowsets log Map.empty)))
      @ map (add_dvop (fold op_dvs log Map.empty) dobj) (order_dv (dom (fold op_dvs log Map.empty))) @ ddl_ops log) e0 = Some e'"
    using assms(6) unfolding e0(4) sr_lift_eq .
  ultimately show ?thesis by (rule recovery_describes(3) [OF _ _ ddl e0(1-3)])
qed

lemma engine_run_ok: "engine_run catalog e \<Longrightarrow> engine_ok catalog e"
proof (induction rule: engine_run.induct)
  case (rowset_id e)
  show ?case using engine_ok_cong [of "snd (generate_rowset_id e)" e catalog] rowset_id.IH by (simp add: generate_rowset_id_def)
next
  case (dv_id e)
  show ?case using engine_ok_cong [of "snd (generate_dv_id e)" e catalog] dv_id.IH by (simp add: generate_dv_id_def)
next
  case (pin e v vm)
  then show ?case using cur_snapshot_unchanged(1) [OF pin.hyps(2)] engine_ok_cong [of "e\<lparr>en_version := vm\<rparr>" e catalog] by simp
next
  case (unpin e v n vm)
  then show ?case using cur_snapshot_unchanged(2) [OF unpin.hyps(2)] engine_ok_cong [of "e\<lparr>en_version := vm\<rparr>" e catalog] by simp
next
  case (vacuum e held ds vm)
  then show ?case using cur_snapshot_unchanged(3) [OF vacuum.hyps(2)] engine_ok_cong [of "e\<lparr>en_version := vm\<rparr>" e catalog] by simp
next
  case reopen
  then show ?case by (blast intro: engine_ok_reopen)
qed (auto intro: engine_ok_start engine_ok_create engine_ok_drop engine_ok_commit)

lemma engine_run_log:
  assumes "engine_run catalog e" "replay (en_manifest e) = Inr log"
  shows "\<exists>vs. en_manifest e = Some \<lparr>mf_values = vs, mf_torn = False\<rparr> \<and> replayed vs log
    \<and> sn_refs (cur_snapshot (en_version e)) = dom (fold op_rowsets log Map.empty)
    \<and> sn_dvs3 (cur_snapshot (en_version e)) = dom (fold op_dvs log Map.empty)
    \<and> sr_fold op_ddl log (catalog, Map.empty) = Some (Inr (en_catalog e, en_tables e))"
proof (rule engine_okE [OF engine_run_ok [OF assms(1)]])
  fix vs log'
  assume a: "en_manifest e = Some \<lparr>mf_values = vs, mf_torn = False\<rparr>" "replayed vs log'"
    "sn_refs (cur_snapshot (en_version e)) = dom (fold op_rowsets log' Map.empty)"
    "sn_dvs3 (cur_snapshot (en_version e)) = dom (fold op_dvs log' Map.empty)"
    "sr_fold op_ddl log' (catalog, Map.empty) = Some (Inr (en_catalog e, en_tables e))"
  then have "log' = log" using assms(2) by (simp add: replay_def replayed_def)
  then show ?thesis using a by blast
qed

subsection \<open>An example database\<close>

text \<open>The default schema, a table \<open>t\<close> with one column, and one row set.\<close>

definition ex_entry :: create_table_entry where
  "ex_entry = \<lparr>cte_schema_id = 1, cte_table_name = ''t'', cte_column_descs = [ex_column], cte_ordered_pk_ids = []\<rparr>"

definition ex_tref :: table_ref_id where
  "ex_tref = \<lparr>tr_schema_id = 1, tr_table_id = 0\<rparr>"

definition ex_opened :: "(unit, unit, unit) engine" where
  "ex_opened = (engine_new ex_catalog (Some \<lparr>mf_values = [Begin, End], mf_torn = False\<rparr>))\<lparr>en_version :=
     vm_new\<lparr>vm_epoch := 1, vm_status := [1 \<mapsto> empty_snapshot], vm_deletions := [1 \<mapsto> []]\<rparr>\<rparr>"

definition ex_created :: "(unit, unit, unit) engine" where
  "ex_created = \<lparr>en_catalog = ex_catalog_t, en_tables = [ex_tref \<mapsto> secondary_table_new ex_tref [ex_column] []],
     en_next_rowset_id = 0, en_next_dv_id = 0,
     en_version = vm_new\<lparr>vm_epoch := Suc 1, vm_status := [1 \<mapsto> empty_snapshot, Suc 1 \<mapsto> empty_snapshot], vm_deletions := [1 \<mapsto> [], Suc 1 \<mapsto> []]\<rparr>,
     en_manifest = Some \<lparr>mf_values = [Begin, End, Begin, CreateTable ex_entry, End], mf_torn = False\<rparr>\<rparr>"

definition ex_filled :: "(unit, unit, unit) engine" where
  "ex_filled = ex_created\<lparr>en_version := vm_new\<lparr>vm_epoch := Suc (Suc 1),
       vm_status := [1 \<mapsto> empty_snapshot, Suc 1 \<mapsto> empty_snapshot, Suc (Suc 1) \<mapsto> add_rowset 0 7 empty_snapshot],
       vm_rowsets := [(0, 7) \<mapsto> ()], vm_deletions := [1 \<mapsto> [], Suc 1 \<mapsto> [], Suc (Suc 1) \<mapsto> []]\<rparr>,
     en_manifest := Some \<lparr>mf_values = [Begin, End, Begin, CreateTable ex_entry, End, Begin, AddRowSet ex_tref 7, End], mf_torn = False\<rparr>\<rparr>"

lemmas commit_defs = engine_commit_def commit_changes_def commit_prepare_def commit_publish_def manifest_append_def Let_def

lemma ex_run: "engine_run ex_catalog ex_opened" "engine_run ex_catalog ex_created" "engine_run ex_catalog ex_filled"
proof -
  have "rewrite_changes [] (engine_new ex_catalog None) = Some ex_opened"
    by (simp add: rewrite_changes_def commit_defs engine_new_def ex_opened_def vm_new_def)
  then show 1: "engine_run ex_catalog ex_opened" by (rule engine_run.start)
  have "engine_commit [EpCreateTable ex_entry] ex_opened
      = Some (ex_created\<lparr>en_catalog := ex_catalog, en_tables := Map.empty\<rparr>)"
    by (simp add: commit_defs ex_opened_def ex_created_def engine_new_def vm_new_def)
  moreover have "schema_get_table_by_name ''t'' (schema_new 1 ''postgres'' :: (unit, unit) schema_catalog) = None"
    by (simp add: schema_get_table_by_name_def schema_new_def)
  ultimately have "create_table_inner ex_entry ex_opened = Some (ex_created, Inr ())"
    using ex_add_t
    by (simp add: create_table_inner_def apply_create_table_def with_ddl_def ddl_create_def ex_entry_def ex_created_def ex_catalog_def
        ex_tref_def Let_def)
  then show 2: "engine_run ex_catalog ex_created" using 1 by (rule engine_run.create [rotated])
  have "engine_commit [EpAddRowSet ex_tref 7 ()] ex_created = Some ex_filled"
    by (simp add: commit_defs ex_created_def ex_filled_def vm_new_def ex_tref_def)
  from engine_run.commit [OF 2 _ this] show "engine_run ex_catalog ex_filled" by simp
qed

lemma ex_log: "replay (en_manifest ex_filled) = Inr [CreateTable ex_entry, AddRowSet ex_tref 7]"
  by (simp add: replay_def ex_filled_def)

lemma lists_set_sorted: "lists_set (sorted_list_of_set :: 'a::linorder set \<Rightarrow> 'a list)"
  by (simp add: lists_set_def)

text \<open>C1. Recovery. Take any run of the engine that starts on an empty directory and creates tables, drops tables, commits row sets and
  delete vectors, draws ids, pins, unpins, vacuums and reopens, in any order; no creation of a table failed in it, and no view or
  index was created. Open the database from its manifest, or from a file that replays to the same entries. If every
  live row set and delete vector belongs to a table that still exists and is what the disk holds, and the ids fit their counters, then opening
  succeeds and gives the catalog and the tables back, a current snapshot with the same row sets and delete vectors, the same
  objects in the pool, and id counters above every id in the manifest; what is opened continues the run.\<close>

theorem recovery:
  assumes "rc_new system_tables = Some catalog" and "engine_run catalog e" and "replay (en_manifest e) = Inr log"
    and "disk_ok open_rowset open_dv log e" and "\<forall>op\<in>set log. op_ids_ok op" and "lists_set order_rs" and "lists_set order_dv"
    and same: "replay (Some file) = replay (en_manifest e)"
  shows "\<exists>e'. bootstrap system_tables order_rs order_dv open_rowset open_dv (Some file) = Some (Inr e')
    \<and> en_catalog e' = en_catalog e \<and> en_tables e' = en_tables e
    \<and> sn_refs (cur_snapshot (en_version e')) = sn_refs (cur_snapshot (en_version e))
    \<and> sn_dvs3 (cur_snapshot (en_version e')) = sn_dvs3 (cur_snapshot (en_version e))
    \<and> (\<forall>(t, i)\<in>sn_refs (cur_snapshot (en_version e)). get_rowset t i (en_version e') = get_rowset t i (en_version e))
    \<and> (\<forall>(t, i, dv)\<in>sn_dvs3 (cur_snapshot (en_version e)). get_dv t dv (en_version e') = get_dv t dv (en_version e))
    \<and> (\<forall>r i. AddRowSet r i \<in> set log \<longrightarrow> i < en_next_rowset_id e') \<and> (\<forall>r dv i. AddDV r dv i \<in> set log \<longrightarrow> dv < en_next_dv_id e')
    \<and> engine_run catalog e'"
proof -
  have log: "replay (Some file) = Inr log" using same assms(3) by simp
  have refs: "sn_refs (cur_snapshot (en_version e)) = dom (fold op_rowsets log Map.empty)"
      "sn_dvs3 (cur_snapshot (en_version e)) = dom (fold op_dvs log Map.empty)"
    and ddl: "sr_fold op_ddl log (catalog, Map.empty) = Some (Inr (en_catalog e, en_tables e))"
    using engine_run_log [OF assms(2,3)] by blast+
  define live where "live = fold op_rowsets log Map.empty"
  define dlive where "dlive = fold op_dvs log Map.empty"
  define ks where "ks = order_rs (dom live)"
  define ds where "ds = order_dv (dom dlive)"
  have set: "set ks = dom live" "set ds = dom dlive"
    using assms(6,7) by (simp_all add: ks_def ds_def lists_set_def live_def dlive_def fold_ops_finite)
  note folds = live_def dlive_def ks_def ds_def
  have disk: "\<forall>k\<in>set ks. \<exists>r tab. live k = Some r \<and> en_tables e r = Some tab \<and> open_rowset tab (snd k) = Inr (rowset_obj e k)"
    "\<forall>k\<in>set ds. \<exists>r tab. dlive k = Some r \<and> en_tables e r = Some tab \<and> open_dv tab (fst (snd k)) (snd (snd k)) = Inr (dv_obj e k)"
    using disk_ok_rowset [OF assms(4)] disk_ok_dv [OF assms(4)] set by (simp_all add: live_def dlive_def)
  obtain e0 where e0: "en_catalog e0 = en_catalog e" "en_tables e0 = en_tables e" "en_version e0 = vm_new"
    "\<forall>r i. AddRowSet r i \<in> set log \<longrightarrow> i < en_next_rowset_id e0" "\<forall>r dv i. AddDV r dv i \<in> set log \<longrightarrow> dv < en_next_dv_id e0"
    "bootstrap system_tables order_rs order_dv open_rowset open_dv (Some file)
       = sr_lift (rewrite_changes (map (add_rs live (rowset_obj e)) ks @ map (add_dvop dlive (dv_obj e)) ds @ ddl_ops log) e0)"
    using bootstrap_forward [where order_rs = order_rs and order_dv = order_dv and open_rowset = open_rowset and open_dv = open_dv
        and obj = "rowset_obj e" and dobj = "dv_obj e", OF assms(1) log ddl assms(5) disk [unfolded folds]] unfolding folds by blast
  have keyed: "\<forall>k\<in>set ks. live k \<noteq> None \<and> tr_table_id (the (live k)) = fst k" "\<forall>k\<in>set ds. dlive k \<noteq> None \<and> tr_table_id (the (dlive k)) = fst k"
    unfolding set by (auto simp: live_def dlive_def live_keyed)
  obtain es m' where cc: "commit_changes (map (add_rs live (rowset_obj e)) ks @ map (add_dvop dlive (dv_obj e)) ds @ ddl_ops log) vm_new = Some (es, 1, m')"
    "\<forall>k\<in>set ks. vm_rowsets m' k = Some (rowset_obj e k)"
    "\<forall>x\<in>pool_key ` set ds. \<exists>i. (fst x, i, snd x) \<in> set ds \<and> vm_dvs m' x = Some (dv_obj e (fst x, i, snd x))"
    using recovery_commit [OF keyed, of "rowset_obj e" "dv_obj e" log] by (elim exE conjE) simp
  define e' where "e' = e0\<lparr>en_version := m', en_manifest := manifest_append es (Some \<lparr>mf_values = [], mf_torn = False\<rparr>)\<rparr>"
  have rw: "rewrite_changes (map (add_rs live (rowset_obj e)) ks @ map (add_dvop dlive (dv_obj e)) ds @ ddl_ops log) e0 = Some e'"
    using cc(1) e0(3) by (simp add: rewrite_changes_def engine_commit_def e'_def)
  note rd = recovery_describes [OF set [unfolded live_def dlive_def] ddl e0(1-3) rw [unfolded live_def dlive_def], folded live_def dlive_def]
  have "get_rowset t i m' = get_rowset t i (en_version e)" if "(t, i) \<in> dom live" for t i
    using cc(2) disk_ok_rowset [OF assms(4)] that set(1) by (simp add: get_rowset_def live_def)
  moreover have "get_dv t dv m' = get_dv t dv (en_version e)" if "(t, i, dv) \<in> dom dlive" for t i dv
  proof -
    have "(t, i, dv) \<in> set ds" using that set(2) by simp
    then have "pool_key (t, i, dv) \<in> pool_key ` set ds" by (rule imageI)
    then have "vm_dvs m' (t, dv) = Some (dv_obj e (t, i, dv))" using bspec [OF cc(3)] by fastforce
    then show ?thesis using disk_ok_dv [OF assms(4)] that by (force simp: get_dv_def dlive_def)
  qed
  ultimately have "\<forall>(t, i)\<in>dom live. get_rowset t i m' = get_rowset t i (en_version e)"
    "\<forall>(t, i, dv)\<in>dom dlive. get_dv t dv m' = get_dv t dv (en_version e)" by blast+
  moreover have "en_version e' = m'" by (simp add: e'_def)
  moreover have boot: "bootstrap system_tables order_rs order_dv open_rowset open_dv (Some file) = Some (Inr e')"
    using e0(6) rw by (simp add: sr_lift_def)
  moreover have "engine_run catalog e'" by (rule engine_run.reopen [OF assms(2,1) same assms(6,7) boot])
  ultimately show ?thesis using e0 rd refs
    by (intro exI [of _ e']) (simp add: e'_def live_def [symmetric] dlive_def [symmetric])
qed

theorem recovery_witness:
  "\<exists>e'. bootstrap [] sorted_list_of_set sorted_list_of_set (\<lambda>t i. Inr ()) (\<lambda>t i dv. Inl Io)
         (Some \<lparr>mf_values = [Begin, End, Begin, CreateTable ex_entry, End, Begin, AddRowSet ex_tref 7, End, Begin, AddRowSet ex_tref 8], mf_torn = False\<rparr>) = Some (Inr e')
     \<and> en_catalog e' = en_catalog ex_filled \<and> get_rowset 0 7 (en_version e') = Some () \<and> 7 < en_next_rowset_id e' \<and> engine_run ex_catalog e'"
proof -
  let ?file = "\<lparr>mf_values = [Begin, End, Begin, CreateTable ex_entry, End, Begin, AddRowSet ex_tref 7, End, Begin, AddRowSet ex_tref 8], mf_torn = False\<rparr>"
  have "disk_ok (\<lambda>t i. Inr ()) (\<lambda>t i dv. Inl Io) [CreateTable ex_entry, AddRowSet ex_tref 7] ex_filled"
    by (auto simp: disk_ok_def ex_filled_def ex_created_def ex_tref_def split: if_splits)
  moreover have "replay (Some ?file) = replay (en_manifest ex_filled)" by (simp add: ex_log) (simp add: replay_def)
  ultimately have rec: "\<exists>e'. bootstrap [] sorted_list_of_set sorted_list_of_set (\<lambda>t i. Inr ()) (\<lambda>t i dv. Inl Io) (Some ?file) = Some (Inr e')
    \<and> en_catalog e' = en_catalog ex_filled \<and> en_tables e' = en_tables ex_filled
    \<and> sn_refs (cur_snapshot (en_version e')) = sn_refs (cur_snapshot (en_version ex_filled))
    \<and> sn_dvs3 (cur_snapshot (en_version e')) = sn_dvs3 (cur_snapshot (en_version ex_filled))
    \<and> (\<forall>(t, i)\<in>sn_refs (cur_snapshot (en_version ex_filled)). get_rowset t i (en_version e') = get_rowset t i (en_version ex_filled))
    \<and> (\<forall>(t, i, dv)\<in>sn_dvs3 (cur_snapshot (en_version ex_filled)). get_dv t dv (en_version e') = get_dv t dv (en_version ex_filled))
    \<and> (\<forall>r i. AddRowSet r i \<in> set [CreateTable ex_entry, AddRowSet ex_tref 7] \<longrightarrow> i < en_next_rowset_id e')
    \<and> (\<forall>r dv i. AddDV r dv i \<in> set [CreateTable ex_entry, AddRowSet ex_tref 7] \<longrightarrow> dv < en_next_dv_id e') \<and> engine_run ex_catalog e'"
    by (intro recovery [OF ex_new ex_run(3) ex_log _ _ lists_set_sorted lists_set_sorted]) simp_all
  moreover have "(0, 7) \<in> sn_refs (cur_snapshot (en_version ex_filled))"
    by (simp add: ex_filled_def cur_snapshot_def)
  moreover have "get_rowset 0 7 (en_version ex_filled) = Some ()" by (simp add: ex_filled_def get_rowset_def)
  moreover have "AddRowSet ex_tref 7 \<in> set [CreateTable ex_entry, AddRowSet ex_tref 7]" by simp
  ultimately show ?thesis by fastforce
qed

text \<open>C31. A failed \<open>CREATE TABLE\<close> poisons the manifest: the entry is persisted before the catalog is consulted, so
  creating a table whose name is taken returns the error \<open>Duplicated\<close>, and every later attempt to open the
  database fails with that error.\<close>

theorem duplicate_create_poisons:
  fixes e :: "('rs, 'q, 'x) engine"
  assumes "rc_new system_tables = Some catalog" and "engine_run catalog e" and "replay (en_manifest e) = Inr log"
    and "\<forall>op\<in>set log. op_ids_ok op" and "rc_schemas (en_catalog e) (cte_schema_id entry) = Some schema"
    and "schema_get_table_by_name (cte_table_name entry) schema \<noteq> None"
  shows "\<exists>e'. create_table_inner entry e = Some (e', Inl (Duplicated ''table'' (cte_table_name entry)))
    \<and> (\<forall>order_rs order_dv open_rowset open_dv. (bootstrap system_tables order_rs order_dv open_rowset open_dv (en_manifest e') :: ('rs, 'q, 'x) engine storage_result option)
         = Some (Inl (Duplicated ''table'' (cte_table_name entry))))"
proof -
  obtain vs where m: "en_manifest e = Some \<lparr>mf_values = vs, mf_torn = False\<rparr>" "replayed vs log"
    and ddl: "sr_fold op_ddl log (catalog, Map.empty) = Some (Inr (en_catalog e, en_tables e))"
    using engine_run_log [OF assms(2,3)] by blast
  have dup: "ddl_create entry (en_catalog e, t) = Some (Inl (Duplicated ''table'' (cte_table_name entry)))" for t
    using assms(5,6) by (simp add: ddl_create_def)
  let ?vm = "(en_version e)\<lparr>vm_epoch := vm_epoch (en_version e) + 1,
     vm_status := (vm_status (en_version e))(vm_epoch (en_version e) + 1 \<mapsto> cur_snapshot (en_version e)),
     vm_deletions := (vm_deletions (en_version e))(vm_epoch (en_version e) + 1 \<mapsto> [])\<rparr>"
  let ?file = "\<lparr>mf_values = vs @ [Begin] @ [CreateTable entry] @ [End], mf_torn = False\<rparr>"
  define e' where "e' = e\<lparr>en_version := ?vm, en_manifest := Some ?file\<rparr>"
  have "engine_commit [EpCreateTable entry] e = Some e'"
    using m(1) by (simp add: engine_commit_def commit_changes_def commit_prepare_def commit_publish_def e'_def manifest_append_def
        cur_snapshot_def Let_def)
  then have c: "create_table_inner entry e = Some (e', Inl (Duplicated ''table'' (cte_table_name entry)))"
    using dup by (simp add: create_table_inner_def apply_create_table_def with_ddl_def e'_def)
  have rp: "replay (Some ?file) = Inr (log @ [CreateTable entry])"
    using replayed_append [OF m(2), of "[CreateTable entry]"] by (simp add: replay_def replayed_def is_entry_def)
  let ?b0 = "\<lparr>bo_engine = engine_new catalog (Some ?file), bo_rowsets = Map.empty, bo_dvs = Map.empty, bo_changes = []\<rparr> :: ('rs, 'q, 'x) boot"
  have d0: "sr_fold op_ddl log (en_catalog (bo_engine ?b0), en_tables (bo_engine ?b0)) = Some (Inr (en_catalog e, en_tables e))"
    using ddl by (simp add: engine_new_def)
  obtain b where "sr_fold boot_op log ?b0 = Some (Inr b)" "en_catalog (bo_engine b) = en_catalog e"
    using boot_fold [OF d0 assms(4)] by blast
  then have "sr_fold boot_op (log @ [CreateTable entry]) ?b0 = Some (Inl (Duplicated ''table'' (cte_table_name entry)))"
    using dup by (simp add: sr_fold_append apply_create_table_def with_ddl_def)
  then have "(bootstrap system_tables order_rs order_dv open_rowset open_dv (Some ?file) :: ('rs, 'q, 'x) engine storage_result option)
      = Some (Inl (Duplicated ''table'' (cte_table_name entry)))" for order_rs order_dv open_rowset open_dv
    using assms(1) rp by (simp add: bootstrap_def)
  then show ?thesis using c by (auto simp: e'_def)
qed

theorem duplicate_create_poisons_witness:
  "\<exists>e'. create_table_inner ex_entry ex_filled = Some (e', Inl (Duplicated ''table'' ''t''))
    \<and> (bootstrap [] sorted_list_of_set sorted_list_of_set (\<lambda>t i. Inr ()) (\<lambda>t i dv. Inl Io) (en_manifest e')
         :: (unit, unit, unit) engine storage_result option) = Some (Inl (Duplicated ''table'' ''t''))"
proof -
  have s: "rc_schemas (en_catalog ex_filled) (cte_schema_id ex_entry) = Some ex_schema_t"
    by (simp add: ex_filled_def ex_created_def ex_entry_def ex_catalog_t_def)
  have "schema_get_table_by_name (cte_table_name ex_entry) ex_schema_t \<noteq> None"
    by (simp add: schema_get_table_by_name_def ex_entry_def ex_schema_t_def)
  from duplicate_create_poisons [OF ex_new ex_run(3) ex_log _ s this] show ?thesis
    by (auto simp: ex_entry_def)
qed

text \<open>The id a table gets after a view was created, and the id it gets when the view is forgotten.\<close>

lemma create_after_view:
  assumes "rc_add_view i name cols q c = Some (Inr (v, cv))" and "cte_schema_id entry = i" and "ddl_create entry (cv, tabs) = Some (Inr (c1, t1))"
  shows "(\<exists>tab. t1 = tabs(\<lparr>tr_schema_id = i, tr_table_id = Suc v\<rparr> \<mapsto> tab))
    \<and> (ddl_create entry (c, tabs) = None \<or> (\<exists>c2 tab. ddl_create entry (c, tabs) = Some (Inr (c2, tabs(\<lparr>tr_schema_id = i, tr_table_id = v\<rparr> \<mapsto> tab)))))"
proof -
  obtain s t where s: "rc_schemas c i = Some s" "v = sc_next_id s"
    "cv = c\<lparr>rc_schemas := (rc_schemas c)(i \<mapsto> s\<lparr>sc_next_id := Suc v, sc_table_idxs := (sc_table_idxs s)(name \<mapsto> v), sc_tables := (sc_tables s)(v \<mapsto> t)\<rparr>)\<rparr>"
    using assms(1) by (auto simp: rc_add_view_def with_schema_eq schema_add_view_eq)
  let ?s' = "s\<lparr>sc_next_id := Suc v, sc_table_idxs := (sc_table_idxs s)(name \<mapsto> v), sc_tables := (sc_tables s)(v \<mapsto> t)\<rparr>"
  have "schema_get_table_by_name (cte_table_name entry) ?s' = None" using assms(2,3) s(1,3) by (auto simp: ddl_create_def split: if_splits)
  then obtain j c' where j: "rc_add_table i (cte_table_name entry) (cte_column_descs entry) (cte_ordered_pk_ids entry) cv = Some (Inr (j, c'))"
    and t1: "\<exists>tab. t1 = tabs(\<lparr>tr_schema_id = i, tr_table_id = j\<rparr> \<mapsto> tab)"
    using assms(2,3) s(1,3) by (auto simp: ddl_create_def Let_def case_sum_eq_iff)
  then have free: "j = Suc v" "cte_table_name entry \<noteq> name" "sc_table_idxs s (cte_table_name entry) = None"
    using s(3) by (auto simp: rc_add_table_def with_schema_eq schema_add_table_eq split: if_splits)
  then have "schema_get_table_by_name (cte_table_name entry) s = None" by (simp add: schema_get_table_by_name_def)
  then have "ddl_create entry (c, tabs) = None \<or> (\<exists>c2 tab. ddl_create entry (c, tabs) = Some (Inr (c2, tabs(\<lparr>tr_schema_id = i, tr_table_id = v\<rparr> \<mapsto> tab))))"
    using assms(2) s(1,2) free(3)
    by (simp add: ddl_create_def rc_add_table_def with_schema_def schema_add_table_def checked_add32_def Let_def split: Option.bind_split) blast
  then show ?thesis using t1 free(1) by blast
qed

lemma sr_fold_panics:
  assumes "\<forall>k\<in>set ks. \<forall>s. f k s = None \<or> (\<exists>s'. f k s = Some (Inr s'))" and "k \<in> set ks" and "\<forall>s. f k s = None"
  shows "sr_fold f ks s = None"
  using assms
proof (induction ks arbitrary: s)
  case (Cons x xs)
  then consider "f x s = None" | s' where "f x s = Some (Inr s')" by force
  then show ?case
  proof cases
    case 2
    then have "k \<in> set xs" using Cons.prems(2,3) by auto
    then show ?thesis using 2 Cons by auto
  qed simp
qed simp

text \<open>C32. Views draw their ids from the counter that also numbers tables, but they are not in the manifest. In any run, create a view, then a
  table in the same schema, and commit a row set of that table: opening the database from the manifest panics, even when every file can
  be read, since the replay gives the table another id and the table of the row set is not found.\<close>

theorem view_breaks_recovery:
  fixes e :: "('rs, 'q, 'x) engine"
  assumes "rc_new system_tables = Some catalog" and "engine_run catalog e" and "replay (en_manifest e) = Inr log"
    and "\<forall>op\<in>set log. op_ids_ok op" and view: "rc_add_view i name cols q (en_catalog e) = Some (Inr (v, cv))"
    and "cte_schema_id entry = i" and create: "create_table_inner entry (e\<lparr>en_catalog := cv\<rparr>) = Some (e1, Inr ())"
    and new: "en_tables e r = None" "en_tables e1 r \<noteq> None" and commit: "engine_commit [EpAddRowSet r k rs] e1 = Some e2"
    and files: "\<forall>t k. \<exists>rs. open_rowset t k = Inr rs" and "lists_set order_rs"
  shows "(bootstrap system_tables order_rs order_dv open_rowset open_dv (en_manifest e2) :: ('rs, 'q, 'x) engine storage_result option) = None"
proof -
  obtain vs where m: "en_manifest e = Some \<lparr>mf_values = vs, mf_torn = False\<rparr>" "replayed vs log"
    and ddl: "sr_fold op_ddl log (catalog, Map.empty) = Some (Inr (en_catalog e, en_tables e))"
    using engine_run_log [OF assms(2,3)] by blast
  obtain ec where ec: "engine_commit [EpCreateTable entry] (e\<lparr>en_catalog := cv\<rparr>) = Some ec" "apply_create_table entry ec = Some (Inr e1)"
    using create by (auto simp: create_table_inner_def case_sum_eq_iff)
  have same: "en_catalog ec = cv" "en_tables ec = en_tables e" using engine_commit_same [OF ec(1)] by simp_all
  obtain c1 t1 where t1: "ddl_create entry (cv, en_tables e) = Some (Inr (c1, t1))" "e1 = ec\<lparr>en_catalog := c1, en_tables := t1\<rparr>"
    using ec(2) same by (auto simp: apply_create_table_def with_ddl_def)
  note after = create_after_view [OF view assms(6) t1(1)]
  then have r: "r = \<lparr>tr_schema_id = i, tr_table_id = Suc v\<rparr>" using new t1(2) by (auto split: if_splits)
  define mf where "mf = \<lparr>mf_values = (vs @ [Begin] @ [CreateTable entry] @ [End]) @ [Begin] @ [AddRowSet r k] @ [End], mf_torn = False\<rparr>"
  have mf: "en_manifest e2 = Some mf" using m(1) ec(1) t1(2) commit by (auto simp: commit_defs mf_def)
  have "replayed (mf_values mf) ((log @ [CreateTable entry]) @ [AddRowSet r k])"
    unfolding mf_def by (simp only: manifest_file.simps) (intro replayed_append m(2); simp add: is_entry_def)
  then have rp: "replay (Some mf) = Inr (log @ [CreateTable entry, AddRowSet r k])" by (simp add: replay_def replayed_def mf_def)
  let ?b0 = "\<lparr>bo_engine = engine_new catalog (Some mf), bo_rowsets = Map.empty, bo_dvs = Map.empty, bo_changes = []\<rparr> :: ('rs, 'q, 'x) boot"
  have d0: "sr_fold op_ddl log (en_catalog (bo_engine ?b0), en_tables (bo_engine ?b0)) = Some (Inr (en_catalog e, en_tables e))"
    using ddl by (simp add: engine_new_def)
  from boot_fold [OF d0 assms(4)] obtain b where b: "sr_fold boot_op log ?b0 = Some (Inr b)" "en_catalog (bo_engine b) = en_catalog e"
    "en_tables (bo_engine b) = en_tables e" "bo_rowsets b = fold op_rowsets log Map.empty" by auto
  have boot: "sr_fold boot_op (log @ [CreateTable entry, AddRowSet r k]) ?b0 = None
    \<or> (\<exists>b'. sr_fold boot_op (log @ [CreateTable entry, AddRowSet r k]) ?b0 = Some (Inr b') \<and> en_tables (bo_engine b') r = None
        \<and> bo_rowsets b' = (fold op_rowsets log Map.empty)((tr_table_id r, k) \<mapsto> r))"
    using b after new(1) unfolding sr_fold_append
    by (auto simp: apply_create_table_def with_ddl_def checked_add32_def r)
  then show ?thesis
  proof (elim disjE exE conjE)
    fix b'
    assume b': "sr_fold boot_op (log @ [CreateTable entry, AddRowSet r k]) ?b0 = Some (Inr b')" "en_tables (bo_engine b') r = None"
      "bo_rowsets b' = (fold op_rowsets log Map.empty)((tr_table_id r, k) \<mapsto> r)"
    let ?open = "open_rowset_op open_rowset (en_tables (bo_engine b')) (bo_rowsets b')"
    have "finite (dom (bo_rowsets b'))" using fold_ops_finite(1) [of Map.empty log] by (simp add: b'(3))
    then have "(tr_table_id r, k) \<in> set (order_rs (dom (bo_rowsets b')))" using assms(12) by (simp add: lists_set_def b'(3))
    moreover have "?open x s = None \<or> (\<exists>s'. ?open x s = Some (Inr s'))" for x s
    proof (cases "Option.bind (bo_rowsets b' x) (en_tables (bo_engine b'))")
      case (Some t)
      obtain o' where "open_rowset t (snd x) = Inr o'" using files by blast
      with Some show ?thesis by (auto simp: open_rowset_op_def split: Option.bind_splits)
    qed (auto simp: open_rowset_op_def split: Option.bind_splits)
    moreover have "?open (tr_table_id r, k) s = None" for s using b'(2,3) by (simp add: open_rowset_op_def)
    ultimately have "sr_fold ?open (order_rs (dom (bo_rowsets b'))) [] = None" by (intro sr_fold_panics) auto
    then show ?thesis using assms(1) rp b'(1) by (simp add: bootstrap_def mf)
  qed (use assms(1) rp in \<open>simp add: bootstrap_def mf\<close>)
qed

theorem view_breaks_recovery_witness:
  "\<exists>catalog e1 e2. rc_add_view 1 ''v'' [ex_column] () ex_catalog = Some (Inr (0, catalog))
     \<and> create_table_inner ex_entry (ex_opened\<lparr>en_catalog := catalog\<rparr>) = Some (e1, Inr ())
     \<and> engine_commit [EpAddRowSet \<lparr>tr_schema_id = 1, tr_table_id = 1\<rparr> 7 ()] e1 = Some e2
     \<and> (bootstrap [] sorted_list_of_set sorted_list_of_set (\<lambda>t i. Inr ()) (\<lambda>t i dv. Inl Io) (en_manifest e2)
          :: (unit, unit, unit) engine storage_result option) = None"
proof -
  define sv :: "(unit, unit) schema_catalog" where "sv = (schema_new 1 ''postgres'')\<lparr>sc_table_idxs := [''v'' \<mapsto> 0],
    sc_tables := [0 \<mapsto> ex_table\<lparr>tc_name := ''v'', tc_kind := View ()\<rparr>], sc_next_id := 1\<rparr>"
  define cv where "cv = ex_catalog\<lparr>rc_schemas := (rc_schemas ex_catalog)(1 \<mapsto> sv)\<rparr>"
  have v: "rc_add_view 1 ''v'' [ex_column] () ex_catalog = Some (Inr (0, cv))"
    by (simp add: rc_add_view_def with_schema_def schema_add_view_def table_new_view_def table_new_inner_def add_column_unwrap_eq
        checked_add32_def cv_def sv_def ex_table_def ex_catalog_def ex_column_def rowid_column_def column_desc_new_def
        cc_name_def schema_new_def Let_def)
  let ?r = "\<lparr>tr_schema_id = 1, tr_table_id = 1\<rparr>"
  have "\<exists>c. ddl_create ex_entry (cv, Map.empty) = Some (Inr (c, [?r \<mapsto> secondary_table_new ?r [ex_column] []]))"
    by (simp add: ddl_create_def ex_entry_def cv_def sv_def schema_get_table_by_name_def rc_add_table_def with_schema_def
        schema_add_table_def table_new_def table_new_inner_def add_column_unwrap_eq checked_add32_def rowid_column_def ex_column_def
        column_desc_new_def cc_name_def schema_new_def Let_def)
  then obtain c where c: "ddl_create ex_entry (cv, Map.empty) = Some (Inr (c, [?r \<mapsto> secondary_table_new ?r [ex_column] []]))" by blast
  let ?e1 = "ex_created\<lparr>en_catalog := c, en_tables := [?r \<mapsto> secondary_table_new ?r [ex_column] []]\<rparr>"
  have e1: "create_table_inner ex_entry (ex_opened\<lparr>en_catalog := cv\<rparr>) = Some (?e1, Inr ())"
    using c by (simp add: create_table_inner_def commit_defs apply_create_table_def with_ddl_def ex_opened_def ex_created_def
        engine_new_def vm_new_def)
  have "\<exists>e2. engine_commit [EpAddRowSet ?r 7 ()] ?e1 = Some e2" by (simp add: commit_defs ex_created_def vm_new_def)
  then obtain e2 where e2: "engine_commit [EpAddRowSet ?r 7 ()] ?e1 = Some e2" by blast
  have log: "replay (en_manifest ex_opened) = Inr []" by (simp add: replay_def ex_opened_def engine_new_def)
  have cat: "en_catalog ex_opened = ex_catalog" "en_tables ex_opened ?r = None" by (simp_all add: ex_opened_def engine_new_def)
  have "(bootstrap [] sorted_list_of_set sorted_list_of_set (\<lambda>t i. Inr ()) (\<lambda>t i dv. Inl Io) (en_manifest e2)
      :: (unit, unit, unit) engine storage_result option) = None"
    by (rule view_breaks_recovery [OF ex_new ex_run(1) log _ v [folded cat(1)] _ e1 cat(2) _ e2 _ lists_set_sorted])
      (simp_all add: ex_entry_def)
  with v e1 e2 show ?thesis by blast
qed

end
