(* ===== verification/Scans.thy ===== *)
theory Scans
  imports Rowsets
begin

text \<open>
  Iterators over storage chunks as a whole: what a source of chunks promises (the locale
  \<open>chunk_source\<close>), the row-set iterator as such a source, and the iterator that reads several of them
  one after the other (\<open>concat_iterator.rs\<close>), which is again such a source.
\<close>

type_synonym ('v, 's) next_chunk = "nat option \<Rightarrow> 's \<Rightarrow> ('v storage_chunk option \<times> 's) storage_result option"

section \<open>The concatenating iterator\<close>

record 's concat_iter =
  cc_iters :: "'s list"
  cc_current_iter :: nat

definition cc_new :: "'s list \<Rightarrow> 's concat_iter" where
  "cc_new iters = \<lparr>cc_iters = iters, cc_current_iter = 0\<rparr>"

function cc_next_batch :: "('v, 's) next_chunk \<Rightarrow> ('v, 's concat_iter) next_chunk" where
  "cc_next_batch N expected_size s =
     (if cc_current_iter s \<ge> length (cc_iters s) then Some (Inr (None, s))
      else do {
        r \<leftarrow> N expected_size (cc_iters s ! cc_current_iter s);
        (case r of
           Inl err \<Rightarrow> Some (Inl err)
         | Inr (Some chunk, it) \<Rightarrow> Some (Inr (Some chunk, s\<lparr>cc_iters := (cc_iters s)[cc_current_iter s := it]\<rparr>))
         | Inr (None, it) \<Rightarrow>
             cc_next_batch N expected_size
               (s\<lparr>cc_iters := (cc_iters s)[cc_current_iter s := it], cc_current_iter := cc_current_iter s + 1\<rparr>)) })"
  by pat_completeness auto
termination by (relation "measure (\<lambda>(N, e, s). length (cc_iters s) - cc_current_iter s)") auto

declare cc_next_batch.simps [simp del]

text \<open>Reading a source to its end: the data chunks it yields, as rows. The fuel bounds the batches.\<close>

definition data_rows :: "'v array list \<Rightarrow> 'v option list list" where
  "data_rows arrs = map (\<lambda>t. map (\<lambda>a. pa_items a ! t) arrs) [0 ..< (case arrs of [] \<Rightarrow> 0 | a # _ \<Rightarrow> length (pa_items a))]"

primrec scan_all :: "nat \<Rightarrow> ('v, 's) next_chunk \<Rightarrow> nat option \<Rightarrow> 's \<Rightarrow> 'v option list list storage_result option" where
  "scan_all 0 N expected_size s = None"
| "scan_all (Suc fuel) N expected_size s = do {
     r \<leftarrow> N expected_size s;
     (case r of
        Inl err \<Rightarrow> Some (Inl err)
      | Inr (None, s) \<Rightarrow> Some (Inr [])
      | Inr (Some chunk, s) \<Rightarrow> do {
          arrays \<leftarrow> to_data_chunk chunk;
          rest \<leftarrow> scan_all fuel N expected_size s;
          Some (case rest of Inl err \<Rightarrow> Inl err | Inr rows \<Rightarrow> Inr (data_rows arrays @ rows)) }) }"

section \<open>The rows of a chunk\<close>

definition chunk_row :: "'v storage_chunk \<Rightarrow> nat \<Rightarrow> 'v option list" where
  "chunk_row c i = map (\<lambda>a. pa_items a ! i) (sc_arrays c)"

definition visible_idx :: "'v storage_chunk \<Rightarrow> nat list" where
  "visible_idx c = filter (\<lambda>i. case sc_visibility c of None \<Rightarrow> True | Some v \<Rightarrow> v ! i) [0 ..< pa_len (sc_arrays c ! 0)]"

definition chunk_rows :: "'v storage_chunk \<Rightarrow> 'v option list list" where
  "chunk_rows c = map (chunk_row c) (visible_idx c)"

lemma sc_wf_iff:
  "sc_wf c \<longleftrightarrow> sc_arrays c \<noteq> [] \<and> (\<forall>a\<in>set (sc_arrays c). pa_wf a) \<and> (\<forall>a\<in>set (sc_arrays c). pa_len (sc_arrays c ! 0) = pa_len a)
     \<and> (\<forall>v. sc_visibility c = Some v \<longrightarrow> length v = pa_len (sc_arrays c ! 0))
     \<and> sc_cardinality c = (case sc_visibility c of Some v \<Rightarrow> length (filter id v) | None \<Rightarrow> pa_len (sc_arrays c ! 0))
     \<and> 0 < sc_cardinality c"
  by (cases c) (auto simp: sc_wf_def sc_construct_def index_at_def rust_assert_def Let_def split: option.splits if_splits)

lemma sc_wf_arrays:
  assumes "sc_wf c"
  shows "sc_arrays c \<noteq> []" and "\<And>a. a \<in> set (sc_arrays c) \<Longrightarrow> pa_len a = pa_len (sc_arrays c ! 0)"
    and "\<And>a. a \<in> set (sc_arrays c) \<Longrightarrow> pa_wf a"
    and "\<And>v. sc_visibility c = Some v \<Longrightarrow> length v = pa_len (sc_arrays c ! 0)"
    and "0 < sc_cardinality c"
  using assms by (simp_all add: sc_wf_iff)

lemma sc_wf_cardinality: "sc_wf c \<Longrightarrow> length (visible_idx c) = sc_cardinality c"
proof -
  assume wf: "sc_wf c"
  have card: "sc_cardinality c = (case sc_visibility c of Some v \<Rightarrow> length (filter id v) | None \<Rightarrow> pa_len (sc_arrays c ! 0))"
    using wf by (simp add: sc_wf_iff)
  show ?thesis
  proof (cases "sc_visibility c")
    case None
    with card show ?thesis by (simp add: visible_idx_def)
  next
    case (Some v)
    have "filter id v = map ((!) v) (filter ((!) v) [0 ..< length v])"
      by (subst (1) map_nth [symmetric]) (simp add: filter_map comp_def)
    with card Some sc_wf_arrays(4) [OF wf Some] show ?thesis by (simp add: visible_idx_def)
  qed
qed

lemma visible_idx_nonempty: "sc_wf c \<Longrightarrow> visible_idx c \<noteq> []"
  using sc_wf_cardinality sc_wf_arrays(5) by fastforce

lemma select_filter: "length v = length xs \<Longrightarrow> select v xs = map ((!) xs) (filter ((!) v) [0 ..< length v])"
proof (induction v xs rule: list_induct2)
  case (Cons b v x xs)
  have "filter ((!) (b # v)) [0 ..< Suc (length v)] = (if b then [0] else []) @ map Suc (filter ((!) v) [0 ..< length v])"
    by (simp add: upt_conv_Cons map_Suc_upt [symmetric] filter_map comp_def del: upt_Suc)
  with Cons show ?case by simp
qed simp

lemma to_data_chunk_rows:
  assumes wf: "sc_wf c"
  shows "\<exists>arrs. to_data_chunk c = Some arrs \<and> length arrs = length (sc_arrays c) \<and> (\<forall>a\<in>set arrs. pa_wf a)
    \<and> data_rows arrs = chunk_rows c"
proof -
  note sc = sc_wf_arrays [OF wf]
  define pick where "pick a = map ((!) (pa_items a)) (visible_idx c)" for a :: "'a array"
  have "\<exists>f. to_data_chunk c = Some (map f (sc_arrays c)) \<and> (\<forall>a\<in>set (sc_arrays c). pa_wf (f a) \<and> pa_items (f a) = pick a)"
  proof (cases "sc_visibility c")
    case None
    have "pa_items a = pick a" if "a \<in> set (sc_arrays c)" for a
      using sc(2,3) [OF that] None length_pa_items [of a] by (simp add: pick_def visible_idx_def map_nth_eq)
    with None sc(3) show ?thesis by (intro exI [of _ id]) (simp add: to_data_chunk_def)
  next
    case (Some v)
    have "\<exists>b. pa_filter v a = Some b \<and> pa_wf b \<and> pa_items b = pick a" if "a \<in> set (sc_arrays c)" for a
      using pa_filter_spec [of a v] sc(2,3) [OF that] sc(4) [OF Some] length_pa_items [of a] Some
      by (simp add: pick_def visible_idx_def select_filter)
    then obtain f where f: "\<And>a. a \<in> set (sc_arrays c) \<Longrightarrow> pa_filter v a = Some (f a) \<and> pa_wf (f a) \<and> pa_items (f a) = pick a"
      by metis
    then have "those (map (pa_filter v) (sc_arrays c)) = Some (map f (sc_arrays c))" by (intro those_map_Some) auto
    with Some f show ?thesis by (intro exI [of _ f]) (simp add: to_data_chunk_def)
  qed
  then obtain f where f: "to_data_chunk c = Some (map f (sc_arrays c))"
    and items: "\<And>a. a \<in> set (sc_arrays c) \<Longrightarrow> pa_wf (f a) \<and> pa_items (f a) = pick a" by blast
  obtain a as where as: "sc_arrays c = a # as" using sc(1) by (cases "sc_arrays c") auto
  have "data_rows (map f (sc_arrays c)) = chunk_rows c"
  proof (rule nth_equalityI)
    show "length (data_rows (map f (sc_arrays c))) = length (chunk_rows c)"
      using as items [of a] by (simp add: data_rows_def chunk_rows_def pick_def)
  next
    fix t assume "t < length (data_rows (map f (sc_arrays c)))"
    then have "t < length (visible_idx c)" using as items [of a] by (simp add: data_rows_def pick_def)
    then show "data_rows (map f (sc_arrays c)) ! t = chunk_rows c ! t"
      using as items by (auto simp: data_rows_def chunk_rows_def chunk_row_def pick_def)
  qed
  with f items show ?thesis by auto
qed

section \<open>Sources of chunks\<close>

text \<open>\<open>pending s rows\<close> says that the rows still to come from \<open>s\<close> are \<open>rows\<close>, each with \<open>k\<close> columns.\<close>

locale chunk_source =
  fixes N :: "('v, 's) next_chunk" and k :: nat and pending :: "'s \<Rightarrow> 'v option list list \<Rightarrow> bool"
  assumes next_chunk: "pending s rows \<Longrightarrow> e \<noteq> Some 0 \<Longrightarrow>
      (\<exists>c s' rest. N e s = Some (Inr (Some c, s')) \<and> sc_wf c \<and> length (sc_arrays c) = k
          \<and> rows = chunk_rows c @ rest \<and> pending s' rest)
      \<or> (\<exists>s'. N e s = Some (Inr (None, s')) \<and> rows = [] \<and> pending s' [])"
begin

lemma next_cases:
  assumes "pending s rows" and "e \<noteq> Some 0"
  obtains (chunk) c s' rest where "N e s = Some (Inr (Some c, s'))" "sc_wf c" "length (sc_arrays c) = k"
      "rows = chunk_rows c @ rest" "pending s' rest"
    | (finished) s' where "N e s = Some (Inr (None, s'))" "rows = []" "pending s' []"
  using next_chunk [OF assms] by blast

lemma scan_all_rows:
  "pending s rows \<Longrightarrow> e \<noteq> Some 0 \<Longrightarrow> length rows < fuel \<Longrightarrow> scan_all fuel N e s = Some (Inr rows)"
proof (induction fuel arbitrary: s rows)
  case (Suc fuel)
  from Suc.prems(1,2) show ?case
  proof (cases rule: next_cases)
    case (chunk c s' rest)
    from to_data_chunk_rows [OF chunk(2)] obtain arrs where
      arrs: "to_data_chunk c = Some arrs" "data_rows arrs = chunk_rows c" by blast
    have "chunk_rows c \<noteq> []" using visible_idx_nonempty [OF chunk(2)] by (simp add: chunk_rows_def)
    then have "length rest < fuel" using Suc.prems(3) chunk(4) by (cases "chunk_rows c") auto
    with Suc.IH [OF chunk(5) Suc.prems(2)] chunk arrs show ?thesis by simp
  qed simp
qed simp

text \<open>The concatenation of sources.\<close>

definition cc_pending :: "'s concat_iter \<Rightarrow> 'v option list list \<Rightarrow> bool" where
  "cc_pending s rows \<longleftrightarrow> cc_current_iter s \<le> length (cc_iters s)
     \<and> (\<exists>rs. list_all2 pending (drop (cc_current_iter s) (cc_iters s)) rs \<and> rows = concat rs)"

lemma cc_next_chunk:
  assumes "cc_pending s rows" and "e \<noteq> Some 0"
  shows "(\<exists>c s' rest. cc_next_batch N e s = Some (Inr (Some c, s')) \<and> sc_wf c \<and> length (sc_arrays c) = k
          \<and> rows = chunk_rows c @ rest \<and> cc_pending s' rest)
      \<or> (\<exists>s'. cc_next_batch N e s = Some (Inr (None, s')) \<and> rows = [] \<and> cc_pending s' [])"
  using assms
proof (induction "length (cc_iters s) - cc_current_iter s" arbitrary: s)
  case 0
  then have "cc_next_batch N e s = Some (Inr (None, s))" by (subst cc_next_batch.simps) simp
  with 0 show ?case by (auto simp: cc_pending_def)
next
  case (Suc d)
  define i where "i = cc_current_iter s"
  have i: "i < length (cc_iters s)" using Suc.hyps(2) by (simp add: i_def)
  then have it: "drop i (cc_iters s) = cc_iters s ! i # drop (Suc i) (cc_iters s)" by (simp add: Cons_nth_drop_Suc)
  with Suc.prems(1) obtain r rs where
    r: "pending (cc_iters s ! i) r" "list_all2 pending (drop (Suc i) (cc_iters s)) rs" "rows = r @ concat rs"
    by (auto simp: cc_pending_def i_def [symmetric] list_all2_Cons1)
  from r(1) Suc.prems(2) show ?case
  proof (cases rule: next_cases)
    case (chunk c s' rest)
    define t where "t = s\<lparr>cc_iters := (cc_iters s)[i := s']\<rparr>"
    have "cc_next_batch N e s = Some (Inr (Some c, t))"
      using chunk(1) i by (subst cc_next_batch.simps) (simp add: i_def t_def)
    moreover have "drop i ((cc_iters s)[i := s']) = s' # drop (Suc i) (cc_iters s)"
      using i by (simp add: Cons_nth_drop_Suc [symmetric])
    then have "cc_pending t (rest @ concat rs)"
      using i chunk(5) r(2) by (auto simp: cc_pending_def t_def i_def [symmetric] intro!: exI [of _ "rest # rs"])
    ultimately show ?thesis using chunk r(3) by auto
  next
    case (finished s')
    define t where "t = s\<lparr>cc_iters := (cc_iters s)[i := s'], cc_current_iter := i + 1\<rparr>"
    have "cc_next_batch N e s = cc_next_batch N e t"
      using finished(1) i by (subst cc_next_batch.simps) (simp add: i_def t_def)
    moreover have "cc_pending t rows"
      using i finished r by (auto simp: cc_pending_def t_def intro!: exI [of _ rs])
    ultimately show ?thesis using Suc.hyps(1) [of t] Suc.hyps(2) Suc.prems(2) by (simp add: t_def i_def)
  qed
qed

lemma cc_new_pending: "list_all2 pending iters rs \<Longrightarrow> cc_pending (cc_new iters) (concat rs)"
  by (auto simp: cc_pending_def cc_new_def)

lemma cc_source: "chunk_source (cc_next_batch N) k cc_pending"
  by unfold_locales (rule cc_next_chunk)

text \<open>So a scan of the concatenation yields the rows of every source, in order.\<close>

lemma cc_scan_all:
  assumes "list_all2 pending iters rs" and "e \<noteq> Some 0" and "length (concat rs) < fuel"
  shows "scan_all fuel (cc_next_batch N) e (cc_new iters) = Some (Inr (concat rs))"
  by (rule chunk_source.scan_all_rows [OF cc_source cc_new_pending [OF assms(1)] assms(2,3)])

end

text \<open>A row-set iterator without a range filter is a source of its visible rows.\<close>

definition visible_rows :: "nat set \<Rightarrow> nat \<Rightarrow> nat \<Rightarrow> 'v option list list \<Rightarrow> 'v option list list" where
  "visible_rows D p q cols = map (\<lambda>i. map (\<lambda>rows. rows ! i) cols) (filter (\<lambda>i. i \<notin> D) [p ..< q])"

lemma visible_rows_split: "p \<le> q \<Longrightarrow> q \<le> r \<Longrightarrow> visible_rows D p r cols = visible_rows D p q cols @ visible_rows D q r cols"
  unfolding visible_rows_def by (metis filter_append map_append le_Suc_ex upt_add_eq_append add.assoc)

lemma data_rows_visible:
  assumes "list_all2 (\<lambda>rows a. pa_items a = visible D p q rows) cols arrs" and "cols \<noteq> []"
  shows "data_rows arrs = visible_rows D p q cols"
proof -
  obtain a as where as: "arrs = a # as" using assms by (cases arrs) auto
  have "pa_items a = visible D p q (cols ! 0)" using assms as by (cases cols) auto
  then have len: "length (data_rows arrs) = length (filter (\<lambda>i. i \<notin> D) [p ..< q])"
    by (simp add: data_rows_def as visible_def)
  show ?thesis
  proof (rule nth_equalityI)
    fix t assume t: "t < length (data_rows arrs)"
    then have "data_rows arrs ! t = map (\<lambda>a. pa_items a ! t) arrs" by (simp add: data_rows_def)
    also have "\<dots> = map (\<lambda>rows. visible D p q rows ! t) cols"
      using assms(1) by (auto simp: list_all2_conv_all_nth intro: nth_equalityI)
    finally show "data_rows arrs ! t = visible_rows D p q cols ! t"
      using t len by (simp add: visible_rows_def visible_def)
  qed (simp add: len visible_rows_def)
qed

context column_cursor
begin

definition rsi_pending :: "nat \<Rightarrow> ('c, 'v) rowset_iter \<Rightarrow> 'v option list list \<Rightarrow> bool" where
  "rsi_pending k s rows \<longleftrightarrow> (rsi_end s \<and> rows = [])
     \<or> (\<exists>cols n p. rsi_ok cols n s p \<and> length cols = k \<and> rows = visible_rows (deleted_rows (rsi_dvs s)) p n cols)"

lemma rsi_source: "chunk_source (rsi_next_batch lt C) k (rsi_pending k)"
proof
  fix s rows and e :: "nat option"
  assume pend: "rsi_pending k s rows" and e: "e \<noteq> Some 0"
  show "(\<exists>c s' rest. rsi_next_batch lt C e s = Some (Inr (Some c, s')) \<and> sc_wf c \<and> length (sc_arrays c) = k
          \<and> rows = chunk_rows c @ rest \<and> rsi_pending k s' rest)
      \<or> (\<exists>s'. rsi_next_batch lt C e s = Some (Inr (None, s')) \<and> rows = [] \<and> rsi_pending k s' [])"
  proof (cases "rsi_end s")
    case True
    then have "rsi_next_batch lt C e s = Some (Inr (None, s))" by (subst rsi_next_batch.simps) simp
    moreover have "rows = []" using pend True by (auto simp: rsi_pending_def rsi_ok_def)
    ultimately show ?thesis using pend by auto
  next
    case False
    with pend obtain cols n p where
      ok: "rsi_ok cols n s p" "length cols = k" "rows = visible_rows (deleted_rows (rsi_dvs s)) p n cols"
      by (auto simp: rsi_pending_def)
    define D where "D = deleted_rows (rsi_dvs s)"
    have ne: "cols \<noteq> []" and pn: "p \<le> n" using ok(1) by (auto simp: rsi_ok_def)
    from next_batch_rows [OF ok(1) e, of lt] show ?thesis
    proof (elim disjE exE conjE)
      fix c arrs q s'
      assume nb: "rsi_next_batch lt C e s = Some (Inr (Some c, s'))" "sc_wf c" "to_data_chunk c = Some arrs"
        "p < q" "q \<le> n" "rsi_ok cols n s' q" "rsi_dvs s' = rsi_dvs s"
        "list_all2 (\<lambda>rows a. pa_wf a \<and> pa_items a = visible (deleted_rows (rsi_dvs s)) p q rows) cols arrs"
      from to_data_chunk_rows [OF nb(2)] nb(3) have arrs: "length arrs = length (sc_arrays c)" "data_rows arrs = chunk_rows c" by auto
      have "chunk_rows c = visible_rows D p q cols"
        using data_rows_visible [of D p q cols arrs] nb(8) ne arrs(2) by (simp add: D_def list_all2_conv_all_nth)
      moreover have "length (sc_arrays c) = k" using arrs(1) nb(8) ok(2) by (simp add: list_all2_lengthD)
      moreover have "rsi_pending k s' (visible_rows D q n cols)" using nb(6,7) ok(2) by (auto simp: rsi_pending_def D_def)
      moreover have "rows = visible_rows D p q cols @ visible_rows D q n cols"
        using ok(3) visible_rows_split [of p q n D cols] nb(4,5) by (simp add: D_def)
      ultimately show ?thesis using nb(1,2) by auto
    next
      fix s'
      assume "rsi_next_batch lt C e s = Some (Inr (None, s'))" "rsi_end s'" "\<forall>i. p \<le> i \<and> i < n \<longrightarrow> i \<in> deleted_rows (rsi_dvs s)"
      moreover from this have "rows = []" using ok(3) by (auto simp: visible_rows_def filter_empty_conv)
      ultimately show ?thesis by (auto simp: rsi_pending_def)
    qed
  qed
qed

end

sublocale column_cursor \<subseteq> rsi: chunk_source "rsi_next_batch lt C" k "rsi_pending k" for lt k
  by (rule rsi_source)

end
