(* ===== verification/Cursors.thy ===== *)
theory Cursors
  imports Scans
begin

text \<open>
  The column iterators a row set is scanned with: the typed iterators of \<open>Column_Iterator\<close>, whose
  arrays are erased to arrays of scalars (\<open>erase_concrete_type\<close> in \<open>column/column_iterator.rs\<close>), and
  the row-handle iterator. Both are column cursors in the sense of \<open>Rowsets\<close>, so the results on
  row-set scans hold for them.
\<close>

section \<open>Erased arrays\<close>

definition erase_array :: "('a \<Rightarrow> 'v) \<Rightarrow> 'a array \<Rightarrow> 'v array" where
  "erase_array emb a = \<lparr>ar_valid = ar_valid a, ar_data = map emb (ar_data a)\<rparr>"

lemma erase_array_wf [simp]: "pa_wf (erase_array emb a) = pa_wf a"
  by (simp add: erase_array_def pa_wf_def)

lemma erase_array_items: "pa_items (erase_array emb a) = map (map_option emb) (pa_items a)"
  by (auto simp: erase_array_def pa_items_def zip_map2)

definition erase_concrete_type ::
  "('a \<Rightarrow> 'v) \<Rightarrow> ((nat \<times> 'a array) option \<times> 's) storage_result option \<Rightarrow> ('s \<Rightarrow> 'c)
     \<Rightarrow> ((nat \<times> 'v array) option \<times> 'c) storage_result option" where
  "erase_concrete_type emb r K =
     map_option (map_sum id (map_prod (map_option (map_prod id (erase_array emb))) K)) r"

lemma serves_batch:
  assumes "serves rows p (Some x) r" and "p < length rows"
  shows "\<exists>arr. r = Some (p, arr) \<and> pa_wf arr \<and> pa_items arr = take x (drop p rows) \<and> p + x \<le> length rows"
proof (cases r)
  case None
  with assms show ?thesis by (simp add: serves_def)
next
  case (Some q)
  obtain row_id arr where q: "q = (row_id, arr)" by (cases q)
  have h: "row_id = p" "pa_wf arr" "pa_items arr = take (length (pa_items arr)) (drop p rows)" "length (pa_items arr) = x"
    using assms(1) unfolding serves_def Some q option.case prod.case by blast+
  have items: "pa_items arr = take x (drop p rows)" using h(3) unfolding h(4) .
  have "x \<le> length rows - p" using h(4) unfolding items by simp
  with Some q h items assms(2) show ?thesis by auto
qed

section \<open>The typed iterators as cursors\<close>

definition ci_ops ::
  "(byte list \<Rightarrow> u32) \<Rightarrow> ('b, 's, 'a) family \<Rightarrow> ('a \<Rightarrow> 'v) \<Rightarrow> (column \<times> ('s, 'a) col_iter, 'v) column_ops" where
  "ci_ops crc F emb = \<lparr>
     cop_next_batch = (\<lambda>e (col, s). erase_concrete_type emb (ci_next_batch crc (\<lambda>_. None) F col e s) (Pair col)),
     cop_fetch_hint = (\<lambda>(col, s). ci_fetch_hint col s),
     cop_fetch_current_row_id = (\<lambda>(col, s). ci_fetch_current_row_id s),
     cop_skip = (\<lambda>k (col, s). map_option (Pair col) (ci_skip F col k s))\<rparr>"

definition ci_at ::
  "(byte list \<Rightarrow> u32) \<Rightarrow> ('b, 's, 'a) family \<Rightarrow> ('a \<Rightarrow> 'v) \<Rightarrow> 'v option list \<Rightarrow> column \<times> ('s, 'a) col_iter \<Rightarrow> nat \<Rightarrow> bool" where
  "ci_at crc F emb rows c p \<longleftrightarrow> (\<exists>J V blocks. column_source crc (\<lambda>_. None) F J V (fst c) blocks
     \<and> column_source.stands J V blocks (snd c) p \<and> rows = map (map_option emb) (concat blocks) \<and> p \<le> length rows)"

interpretation ci_cursor: column_cursor "ci_ops crc F emb" "ci_at crc F emb" for crc F emb
proof (unfold_locales, goal_cases)
  case (1 rows c p)
  then obtain J V blocks where src: "column_source crc (\<lambda>_. None) F J V (fst c) blocks"
    and st: "column_source.stands J V blocks (snd c) p" and rows: "rows = map (map_option emb) (concat blocks)"
    and p: "p \<le> length rows" by (auto simp: ci_at_def)
  have ok: "ci_ok J V blocks (snd c)" and v: "ci_view blocks (snd c) = drop p (concat blocks)"
    using st by (auto simp: column_source.stands_def [OF src])
  have "length (ci_view blocks (snd c)) = length rows - p" using v rows by simp
  moreover have "ci_hint blocks (snd c) = 0 \<longleftrightarrow> ci_view blocks (snd c) = []"
    using column_source.hint_le [OF src ok] column_source.next_batch_reads [OF src ok, of None] by (auto split: if_splits)
  ultimately show ?case
    using column_source.fetch_hint_eq [OF src ok] column_source.hint_le [OF src ok] p v
    by (auto simp: ci_ops_def case_prod_beta)
next
  case (2 rows c p x h fin)
  then obtain J V blocks where src: "column_source crc (\<lambda>_. None) F J V (fst c) blocks"
    and st: "column_source.stands J V blocks (snd c) p" and rows: "rows = map (map_option emb) (concat blocks)"
    by (auto simp: ci_at_def)
  have ok: "ci_ok J V blocks (snd c)" using st by (auto simp: column_source.stands_def [OF src])
  have "h = ci_hint blocks (snd c)"
    using 2(4) column_source.fetch_hint_eq [OF src ok] by (simp add: ci_ops_def case_prod_beta)
  with column_source.batch_step [OF src st, of "Some x"] 2 obtain r s' where
    r: "ci_next_batch crc (\<lambda>_. None) F (fst c) (Some x) (snd c) = Some (Inr (r, s'))" "serves (concat blocks) p (Some x) r"
      "column_source.stands J V blocks s' (case r of None \<Rightarrow> p | Some (_, arr) \<Rightarrow> p + length (pa_items arr))" by auto
  obtain arr where
    arr: "r = Some (p, arr)" "pa_wf arr" "pa_items arr = take x (drop p (concat blocks))" "p + x \<le> length (concat blocks)"
    using serves_batch [OF r(2)] 2(3) rows by auto
  with r src rows show ?case
    by (auto simp: ci_ops_def erase_concrete_type_def case_prod_beta ci_at_def erase_array_items take_map drop_map)
next
  case (3 rows c x)
  then obtain J V blocks where src: "column_source crc (\<lambda>_. None) F J V (fst c) blocks"
    and st: "column_source.stands J V blocks (snd c) (length rows)" and rows: "rows = map (map_option emb) (concat blocks)"
    by (auto simp: ci_at_def)
  have ok: "ci_ok J V blocks (snd c)" and v: "ci_view blocks (snd c) = []"
    using st rows by (auto simp: column_source.stands_def [OF src])
  then have "ci_hint blocks (snd c) = 0" using column_source.hint_le [OF src ok] by simp
  with column_source.batch_step [OF src st, of "Some x"] 3 obtain r s' where
    "ci_next_batch crc (\<lambda>_. None) F (fst c) (Some x) (snd c) = Some (Inr (r, s'))" "serves (concat blocks) (length rows) (Some x) r"
    by auto
  with rows show ?case
    by (auto simp: ci_ops_def erase_concrete_type_def case_prod_beta serves_def split: option.splits)
next
  case (4 rows c p)
  then obtain J V blocks where src: "column_source crc (\<lambda>_. None) F J V (fst c) blocks"
    and st: "column_source.stands J V blocks (snd c) p" and rows: "rows = map (map_option emb) (concat blocks)"
    and p: "p \<le> length rows" by (auto simp: ci_at_def)
  then show ?case
    using st rows p by (cases "ci_finished (snd c)")
      (auto simp: column_source.stands_def [OF src] ci_ops_def case_prod_beta ci_fetch_current_row_id_def ci_ok_def)
next
  case (5 rows c p k)
  then obtain J V blocks where src: "column_source crc (\<lambda>_. None) F J V (fst c) blocks"
    and st: "column_source.stands J V blocks (snd c) p" and rows: "rows = map (map_option emb) (concat blocks)"
    by (auto simp: ci_at_def)
  have "p + k < 2 ^ 32" using column_source.rows_fit [OF src] 5(2) rows by simp
  from column_source.skip_step [OF src st this] src rows 5(2) show ?case
    by (auto simp: ci_ops_def case_prod_beta ci_at_def)
qed

section \<open>The row-handle iterator as a cursor\<close>

definition rh_ops :: "(u64 \<Rightarrow> 'v) \<Rightarrow> (row_handler_iter, 'v) column_ops" where
  "rh_ops emb = \<lparr>
     cop_next_batch = (\<lambda>e s. erase_concrete_type emb (rh_next_batch e s) id),
     cop_fetch_hint = rh_fetch_hint,
     cop_fetch_current_row_id = rh_fetch_current_row_id,
     cop_skip = rh_skip\<rparr>"

definition rh_rows :: "nat \<Rightarrow> nat \<Rightarrow> u64 option list" where
  "rh_rows rowset_id n = map (\<lambda>i. Some (rh_item rowset_id i)) [0 ..< n]"

definition rh_at :: "(u64 \<Rightarrow> 'v) \<Rightarrow> 'v option list \<Rightarrow> row_handler_iter \<Rightarrow> nat \<Rightarrow> bool" where
  "rh_at emb rows s p \<longleftrightarrow> rows = map (map_option emb) (rh_rows (rh_rowset_id s) (rh_row_count s))
     \<and> rh_current_row_id s = p \<and> p \<le> rh_row_count s \<and> rh_row_count s < 2 ^ 32"

lemma rh_next_batch_rows:
  assumes "rh_current_row_id s < rh_row_count s" and "rh_row_count s < 2 ^ 32" and "0 < x"
    and "x \<le> rh_row_count s - rh_current_row_id s"
  shows "\<exists>arr. rh_next_batch (Some x) s
      = Some (Inr (Some (rh_current_row_id s, arr), s\<lparr>rh_current_row_id := rh_current_row_id s + x\<rparr>))
    \<and> pa_wf arr \<and> pa_items arr = take x (drop (rh_current_row_id s) (rh_rows (rh_rowset_id s) (rh_row_count s)))"
proof -
  let ?items = "map (\<lambda>i. Some (rh_item (rh_rowset_id s) i)) [rh_current_row_id s ..< rh_current_row_id s + x]"
  have "foldl (\<lambda>b row_id. pa_push 0 (Some (rh_item (rh_rowset_id s) row_id)) b) pa_new
      [rh_current_row_id s ..< rh_current_row_id s + x] = fold (pa_push 0) ?items pa_new"
    by (simp add: foldl_conv_fold fold_map comp_def)
  moreover have "?items = take x (drop (rh_current_row_id s) (rh_rows (rh_rowset_id s) (rh_row_count s)))"
    using assms(1,4) by (simp add: rh_rows_def drop_map take_map take_upt)
  ultimately show ?thesis
    using assms pa.collect [of 0 ?items] by (simp add: rh_next_batch_def rust_assert_def min_absorb2)
qed

interpretation rh_cursor: column_cursor "rh_ops emb" "rh_at emb" for emb
proof (unfold_locales, goal_cases)
  case (1 rows c p)
  then show ?case by (auto simp: rh_at_def rh_ops_def rh_fetch_hint_def checked_sub_def rh_rows_def)
next
  case (2 rows c p x h fin)
  then have "x \<le> rh_row_count c - rh_current_row_id c" "rh_current_row_id c = p" "rh_row_count c < 2 ^ 32" "p < rh_row_count c"
    by (auto simp: rh_at_def rh_ops_def rh_fetch_hint_def checked_sub_def rh_rows_def split: if_splits)
  with rh_next_batch_rows [of c x] 2 show ?case
    by (auto simp: rh_at_def rh_ops_def erase_concrete_type_def erase_array_items take_map drop_map)
next
  case (3 rows c x)
  then show ?case by (auto simp: rh_at_def rh_ops_def erase_concrete_type_def rh_next_batch_def rh_rows_def)
next
  case (4 rows c p)
  then show ?case by (auto simp: rh_at_def rh_ops_def rh_fetch_current_row_id_def)
next
  case (5 rows c p k)
  then show ?case by (auto simp: rh_at_def rh_ops_def rh_skip_def rh_rows_def)
qed

section \<open>Properties\<close>

text \<open>Applying a delete vector, built from any delete records, to the visibility bits of a batch that starts
  at a row clears exactly the bits of the deleted rows.\<close>

theorem apply_to_clears_deleted:
  assumes "offset + length bits \<le> 2 ^ 32"
  shows "apply_to (dv_new i r deletes) bits offset
    = map (\<lambda>k. bits ! k \<and> offset + k \<notin> set deletes) [0 ..< length bits]"
proof -
  have "apply_to (dv_new i r deletes) bits offset = keep_rows (set deletes) offset bits"
    using apply_to_keep [OF dv_new_wf assms] by (simp add: dv_new_set)
  also have "\<dots> = map (\<lambda>k. bits ! k \<and> offset + k \<notin> set deletes) [0 ..< length bits]"
    by (rule nth_equalityI) (simp_all add: keep_rows_def)
  finally show ?thesis .
qed

theorem apply_to_clears_deleted_witness:
  "apply_to (dv_new 0 0 [5, 3, 5]) [True, True, False] 3 = [False, True, False]"
  using apply_to_clears_deleted [of 3 "[True, True, False]" 0 0 "[5, 3, 5]"] by (simp add: upt_rec)

text \<open>C30. A row handle survives its packing into a 64-bit integer exactly when the row-set id is below \<open>2 ^ 31\<close>; for
  larger ids the packed value is negative and unpacking it panics.\<close>

theorem row_handler_roundtrip:
  "row_handler_from_i64 (row_handler_as_i64 h) = (if unat (fst h) < 2 ^ 31 then Some h else None)"
  using row_handler_from_as [of h] row_handler_sign [of h] by (simp add: row_handler_from_i64_def)

text \<open>An integer column that was built from \<open>arrays\<close> and opened at a row; it is a cursor on the rows written.\<close>

definition opened_i32 ::
  "(byte list \<Rightarrow> u32) \<Rightarrow> bool \<Rightarrow> column_builder_options \<Rightarrow> nat \<Rightarrow> nat \<Rightarrow> u32 option list list \<Rightarrow> column \<times> _ \<Rightarrow> bool" where
  "opened_i32 crc nullable opts n start arrays c \<longleftrightarrow>
     (\<exists>idx bytes s. build_column crc (prim_family i32_codec) nullable opts arrays = Some (idx, bytes)
        \<and> length bytes < 2 ^ 64 \<and> length (concat arrays) = n
        \<and> ci_new crc (\<lambda>_. None) (prim_family i32_codec) (open_column idx bytes) start = Some (Inr s)
        \<and> c = (open_column idx bytes, s))"

lemma opened_i32_at:
  assumes "opened_i32 crc nullable opts n start arrays c" and n: "n < 0xF0000000" and tbs: "16 \<le> cbo_target_block_size opts" and start: "start < n"
  shows "ci_at crc (prim_family i32_codec) emb (map (map_option emb) (built_rows (prim_family i32_codec) nullable opts arrays)) c start"
proof -
  let ?F = "prim_family i32_codec"
  from assms(1) obtain idx bytes s where
    b: "build_column crc ?F nullable opts arrays = Some (idx, bytes)" "length bytes < 2 ^ 64" "length (concat arrays) = n"
    and s: "ci_new crc (\<lambda>_. None) ?F (open_column idx bytes) start = Some (Inr s)" and c: "c = (open_column idx bytes, s)"
    by (auto simp: opened_i32_def)
  have bl: "buildable (\<lambda>xs. \<forall>v. Some v \<in> set xs \<longrightarrow> True) crc ?F nullable opts arrays"
    using b n tbs by (simp add: buildable_def)
  note col = i32s.buildable_column [OF bl, unfolded i32s.built_column_eq [OF b(1)]]
  have src: "column_source crc (\<lambda>_. None) ?F (bii_inv (ppi_inv i32_codec (\<lambda>_. True)) (ppi_step_inv i32_codec (\<lambda>_. True)) (ppi_view i32_codec))
      (bii_view (ppi_view i32_codec)) (open_column idx bytes)
      (snd (column_or_empty (\<lambda>xs. \<forall>v. Some v \<in> set xs \<longrightarrow> True) crc ?F nullable opts arrays))"
    using i32s.built.column_source_axioms [of crc nullable opts arrays] unfolding col .
  have len: "length (built_rows ?F nullable opts arrays) = n" using b(3) by (simp add: built_rows_def)
  have "ci_reaches crc (\<lambda>_. None) ?F (open_column idx bytes) s start"
    using s start len col(2) column_source.total_rows [OF src] by (intro ci_reaches.opened) simp_all
  from column_source.reaches_stands [OF src this] src col(2) start len c show ?thesis
    unfolding ci_at_def by fastforce
qed

lemma dvs_ok:
  assumes "\<forall>dv\<in>set dvs. \<exists>i r deletes. dv = dv_new i r deletes \<and> (\<forall>d\<in>set deletes. d < n)"
  shows "\<forall>dv\<in>set dvs. dv_wf dv" and "\<forall>d\<in>deleted_rows dvs. d < n"
  using assms dv_new_wf dv_new_set by (auto simp: deleted_rows_def)

lemma opened_i32_rowset:
  assumes "list_all2 (opened_i32 crc nullable opts n start) colss its"
    and "colss \<noteq> []" and "n < 0xF0000000" and "16 \<le> cbo_target_block_size opts" and "start < n"
    and "\<forall>dv\<in>set dvs. \<exists>i r deletes. dv = dv_new i r deletes \<and> (\<forall>d\<in>set deletes. d < n)"
  shows "ci_cursor.rsi_ok TYPE(primitive_builder) crc (prim_family i32_codec) emb
      (map (\<lambda>arrays. map (map_option emb) (built_rows (prim_family i32_codec) nullable opts arrays)) colss) n
      \<lparr>rsi_dvs = dvs, rsi_column_iterators = its, rsi_filter = None, rsi_end = False\<rparr> start"
proof -
  have "list_all2 (\<lambda>arrays c. ci_at crc (prim_family i32_codec) emb
      (map (map_option emb) (built_rows (prim_family i32_codec) nullable opts arrays)) c start) colss its"
    by (rule list_all2_mono [OF assms(1)]) (rule opened_i32_at [OF _ assms(3,4,5)])
  moreover have "\<forall>arrays\<in>set colss. length (concat arrays) = n"
    using assms(1) by (auto simp: opened_i32_def list_all2_conv_all_nth in_set_conv_nth)
  ultimately show ?thesis
    using dvs_ok [OF assms(6)] assms(2,3,5)
    by (auto simp: ci_cursor.rsi_ok_def list_all2_map1 built_rows_def ROWSET_MAX_OUTPUT_def)
qed

text \<open>C7. Scanning a row set of integer columns in batches of any size, starting at any row, with any delete
  vectors on its rows: the scan ends, and every column shows exactly its rows that are not deleted, in
  order (a null of a non-nullable column as the default value).\<close>

theorem rowset_scan_visible:
  assumes "list_all2 (opened_i32 crc nullable opts n start) colss its"
    and "colss \<noteq> []" and "n < 0xF0000000" and "16 \<le> cbo_target_block_size opts" and "start < n" and "e \<noteq> Some 0"
    and "\<forall>dv\<in>set dvs. \<exists>i r deletes. dv = dv_new i r deletes \<and> (\<forall>d\<in>set deletes. d < n)"
  shows "rsi_scan (Suc n) lt (ci_ops crc (prim_family i32_codec) id) e
      \<lparr>rsi_dvs = dvs, rsi_column_iterators = its, rsi_filter = None, rsi_end = False\<rparr> (replicate (length colss) [])
    = Some (Inr (map (\<lambda>arrays. visible (deleted_rows dvs) start n
        (map (stored (prim_family i32_codec) nullable (cbo_encode_type opts)) (concat arrays))) colss))"
proof -
  have ok: "ci_cursor.rsi_ok TYPE(primitive_builder) crc (prim_family i32_codec) id
      (map (built_rows (prim_family i32_codec) nullable opts) colss) n
      \<lparr>rsi_dvs = dvs, rsi_column_iterators = its, rsi_filter = None, rsi_end = False\<rparr> start"
    using opened_i32_rowset [OF assms(1-5,7), where emb = id] by (simp add: option.map_id0)
  from ci_cursor.scan_rows [OF ok assms(6), of "Suc n" "replicate (length colss) []" lt]
  show ?thesis by (simp add: built_rows_def map2_map_map [symmetric] zip_replicate1 comp_def)
qed

lemma demo_opened: "\<exists>c. opened_i32 (\<lambda>_. 0) True (demo_options EncPlain) 2 0 [[Some 7, Some 8]] c"
proof -
  define r where "r = cb_append_fuel 3 (\<lambda>_. 0) (prim_family i32_codec) [Some 7, Some 8] (cb_new True (demo_options EncPlain))
      \<bind> cb_finish (\<lambda>_. 0) (prim_family i32_codec)"
  have "case r of None \<Rightarrow> False | Some (idx, bytes) \<Rightarrow> length bytes < 2 ^ 64" unfolding r_def by code_simp
  then obtain idx bytes where r: "r = Some (idx, bytes)" and small: "length bytes < 2 ^ 64" by (auto split: option.splits)
  from build_column_fuel [OF r [unfolded r_def]]
  have b: "build_column (\<lambda>_. 0) (prim_family i32_codec) True (demo_options EncPlain) [[Some 7, Some 8]] = Some (idx, bytes)" .
  obtain s where s: "ci_new (\<lambda>_. 0) (\<lambda>_. None) (prim_family i32_codec) (open_column idx bytes) 0 = Some (Inr s)"
    using i32s.column_roundtrip [of "[[Some 7, Some 8]]" "demo_options EncPlain" "\<lambda>_. 0" True] b small
    by (auto simp: demo_options_def simp del: read_all.simps)
  with b small show ?thesis by (auto simp: opened_i32_def)
qed

theorem rowset_scan_visible_witness:
  "\<exists>c. opened_i32 (\<lambda>_. 0) True (demo_options EncPlain) 2 0 [[Some 7, Some 8]] c
    \<and> rsi_scan 3 (\<lambda>_ _. False) (ci_ops (\<lambda>_. 0) (prim_family i32_codec) id) None
        \<lparr>rsi_dvs = [dv_new 0 0 [0]], rsi_column_iterators = [c], rsi_filter = None, rsi_end = False\<rparr> [[]]
      = Some (Inr [[Some 8]])"
proof -
  obtain c where c: "opened_i32 (\<lambda>_. 0) True (demo_options EncPlain) 2 0 [[Some 7, Some 8]] c" using demo_opened by blast
  have vis: "visible {0 :: nat} 0 2 [Some 7, Some (8 :: u32)] = [Some 8]" by code_simp
  have "rsi_scan (Suc 2) (\<lambda>_ _. False) (ci_ops (\<lambda>_. 0) (prim_family i32_codec) id) None
      \<lparr>rsi_dvs = [dv_new 0 0 [0]], rsi_column_iterators = [c], rsi_filter = None, rsi_end = False\<rparr>
      (replicate (length [[[Some 7, Some (8 :: u32)]]]) [])
    = Some (Inr (map (\<lambda>arrays. visible (deleted_rows [dv_new 0 0 [0]]) 0 2
        (map (stored (prim_family i32_codec) True (cbo_encode_type (demo_options EncPlain))) (concat arrays))) [[[Some 7, Some 8]]]))"
    by (rule rowset_scan_visible)
      (use c in \<open>auto simp: demo_options_def intro!: exI [of _ 0] exI [of _ "[0]"]\<close>)
  with c vis show ?thesis
    by (intro exI [of _ c]) (auto simp: deleted_rows_def dv_new_set stored_def numeral_3_eq_3 numeral_2_eq_2 simp del: rsi_scan.simps)
qed

end
