(* ===== verification/Merge_Heap.thy ===== *)
theory Merge_Heap
  imports Prelude "HOL-Library.Multiset"
begin

text \<open>
  The binary heap of pending rows that the merge iterator keeps (\<open>merge_iterator.rs\<close>): a vector with
  the children of position \<open>i\<close> at \<open>2 * i + 1\<close> and \<open>2 * i + 2\<close>, ordered by a comparison that may panic.
  The comparison is an argument; the merge iterator passes \<open>compare_data\<close> on its buffered chunks. The
  locale \<open>heap_order\<close> is what the heap relies on, and in it the four operations keep the heap property
  and the multiset of entries, and the root is a least entry.
\<close>

type_synonym 'e compare = "'e \<Rightarrow> 'e \<Rightarrow> cmp_ordering option"

section \<open>The operations\<close>

definition compare_in_heap :: "'e compare \<Rightarrow> 'e list \<Rightarrow> nat \<Rightarrow> nat \<Rightarrow> cmp_ordering option" where
  "compare_in_heap cmp heap left_idx right_idx = do {
     l \<leftarrow> index_at heap left_idx;
     r \<leftarrow> index_at heap right_idx;
     cmp l r }"

text \<open>\<open>swap\<close> of a slice; both positions are checked by the comparison before it.\<close>

definition heap_swap :: "'e list \<Rightarrow> nat \<Rightarrow> nat \<Rightarrow> 'e list" where
  "heap_swap heap i j = heap[i := heap ! j, j := heap ! i]"

function sift_up :: "'e compare \<Rightarrow> 'e list \<Rightarrow> nat \<Rightarrow> 'e list option" where
  "sift_up cmp heap processing_element =
     (if processing_element > 0
      then do {
        let parent_element = (processing_element - 1) div 2;
        compare_result \<leftarrow> compare_in_heap cmp heap parent_element processing_element;
        (if compare_result = Greater
         then sift_up cmp (heap_swap heap parent_element processing_element) parent_element
         else Some heap) }
      else Some heap)"
  by pat_completeness auto
termination by (relation "measure (\<lambda>(cmp, heap, p). p)") auto

definition add_pending_data :: "'e compare \<Rightarrow> 'e \<Rightarrow> 'e list \<Rightarrow> 'e list option" where
  "add_pending_data cmp e heap = (let heap = heap @ [e] in sift_up cmp heap (length heap - 1))"

definition peek_pending_data :: "'e list \<Rightarrow> 'e option" where
  "peek_pending_data heap = index_at heap 0"

text \<open>The child to swap with: the left one, or the right one when it exists and is less.\<close>

definition selected_child :: "'e compare \<Rightarrow> 'e list \<Rightarrow> nat \<Rightarrow> nat option" where
  "selected_child cmp heap processing_element =
     (let left_child = processing_element * 2 + 1; right_child = processing_element * 2 + 2
      in if right_child < length heap
         then do {
           c \<leftarrow> compare_in_heap cmp heap left_child right_child;
           Some (if c = Greater then right_child else left_child) }
         else Some left_child)"

lemma selected_child_cases: "selected_child cmp heap p = Some c \<Longrightarrow> c = p * 2 + 1 \<or> (c = p * 2 + 2 \<and> c < length heap)"
  by (auto simp: selected_child_def Let_def split: if_splits)

function sift_down :: "'e compare \<Rightarrow> 'e list \<Rightarrow> nat \<Rightarrow> 'e list option" where
  "sift_down cmp heap processing_element =
     (if processing_element * 2 + 1 \<ge> length heap then Some heap
      else do {
        selected \<leftarrow> selected_child cmp heap processing_element;
        c \<leftarrow> compare_in_heap cmp heap processing_element selected;
        (if c = Less \<or> c = Equal then Some heap
         else sift_down cmp (heap_swap heap processing_element selected) selected) })"
  by pat_completeness auto
termination
  by (relation "measure (\<lambda>(cmp, heap, p). length heap - p)")
    (auto simp: heap_swap_def dest!: selected_child_cases)

definition replace_pending_data :: "'e compare \<Rightarrow> 'e \<Rightarrow> 'e list \<Rightarrow> ('e \<times> 'e list) option" where
  "replace_pending_data cmp e heap = do {
     pop_data \<leftarrow> index_at heap 0;
     heap \<leftarrow> sift_down cmp (heap[0 := e]) 0;
     Some (pop_data, heap) }"

definition pop_pending_data :: "'e compare \<Rightarrow> 'e list \<Rightarrow> ('e \<times> 'e list) option" where
  "pop_pending_data cmp heap = do {
     rust_assert (heap \<noteq> []);
     let last_element = last heap;
     let heap = butlast heap;
     (if length heap > 0 then replace_pending_data cmp last_element heap else Some (last_element, heap)) }"

declare sift_up.simps [simp del] sift_down.simps [simp del]

section \<open>What the heap relies on\<close>

definition heap_prop :: "('e \<Rightarrow> 'e \<Rightarrow> bool) \<Rightarrow> 'e list \<Rightarrow> bool" where
  "heap_prop le h \<longleftrightarrow> (\<forall>i. 0 < i \<and> i < length h \<longrightarrow> le (h ! ((i - 1) div 2)) (h ! i))"

locale heap_order =
  fixes cmp :: "'e compare" and dom :: "'e set" and le :: "'e \<Rightarrow> 'e \<Rightarrow> bool"
  assumes cmp_total: "a \<in> dom \<Longrightarrow> b \<in> dom \<Longrightarrow> \<exists>c. cmp a b = Some c \<and> (c = Greater \<longleftrightarrow> \<not> le a b)"
    and le_total: "a \<in> dom \<Longrightarrow> b \<in> dom \<Longrightarrow> le a b \<or> le b a"
    and le_trans: "a \<in> dom \<Longrightarrow> b \<in> dom \<Longrightarrow> c \<in> dom \<Longrightarrow> le a b \<Longrightarrow> le b c \<Longrightarrow> le a c"
begin

lemma le_refl: "a \<in> dom \<Longrightarrow> le a a"
  using le_total by blast

lemma compare_in_heap_eq:
  assumes "set h \<subseteq> dom" and "i < length h" and "j < length h"
  obtains c where "compare_in_heap cmp h i j = Some c" and "c = Greater \<longleftrightarrow> \<not> le (h ! i) (h ! j)"
proof -
  have "h ! i \<in> dom" "h ! j \<in> dom" using assms by auto
  from cmp_total [OF this] obtain c where "cmp (h ! i) (h ! j) = Some c" "c = Greater \<longleftrightarrow> \<not> le (h ! i) (h ! j)" by blast
  with assms that show thesis by (simp add: compare_in_heap_def index_at_def)
qed

lemma set_heap_swap: "i < length h \<Longrightarrow> j < length h \<Longrightarrow> mset (heap_swap h i j) = mset h"
  by (simp add: heap_swap_def mset_swap)

text \<open>The heap property but for the entry at \<open>p\<close>, which may be too small for its place.\<close>

definition up_heap :: "'e list \<Rightarrow> nat \<Rightarrow> bool" where
  "up_heap h p \<longleftrightarrow> p < length h \<and> set h \<subseteq> dom
     \<and> (\<forall>i. 0 < i \<and> i < length h \<and> i \<noteq> p \<longrightarrow> le (h ! ((i - 1) div 2)) (h ! i))
     \<and> (\<forall>i. 0 < i \<and> i < length h \<and> (i - 1) div 2 = p \<and> 0 < p \<longrightarrow> le (h ! ((p - 1) div 2)) (h ! i))"

lemma up_heap_swap:
  assumes h: "up_heap h p" and p: "0 < p" and gt: "\<not> le (h ! ((p - 1) div 2)) (h ! p)"
  shows "up_heap (heap_swap h ((p - 1) div 2) p) ((p - 1) div 2)"
proof -
  define q where "q = (p - 1) div 2"
  have q: "q < p" "q < length h" "p < length h" using p h by (auto simp: q_def up_heap_def)
  have dom: "\<And>i. i < length h \<Longrightarrow> h ! i \<in> dom" using h by (auto simp: up_heap_def)
  have pq: "le (h ! p) (h ! q)" using gt le_total [OF dom dom, of q p] q by (simp add: q_def)
  define h' where "h' = heap_swap h q p"
  have nth: "h' ! i = (if i = p then h ! q else if i = q then h ! p else h ! i)" if "i < length h" for i
    using that q by (auto simp: h'_def heap_swap_def nth_list_update)
  have len: "length h' = length h" by (simp add: h'_def heap_swap_def)
  have ok: "le (h ! ((i - 1) div 2)) (h ! i)" if "0 < i" "i < length h" "i \<noteq> p" for i
    using h that by (simp add: up_heap_def)
  have kid: "le (h ! q) (h ! i)" if "0 < i" "i < length h" "(i - 1) div 2 = p" for i
    using h that p by (simp add: up_heap_def q_def)
  have below: "(i - 1) div 2 < i" if "0 < i" for i :: nat using that by linarith
  have 1: "le (h' ! ((i - 1) div 2)) (h' ! i)" if i: "0 < i" "i < length h" "i \<noteq> q" for i
  proof (cases "i = p")
    case True
    then have "(i - 1) div 2 = q" by (simp add: q_def)
    with True q pq show ?thesis by (simp add: nth)
  next
    case False
    have up: "(i - 1) div 2 < length h" using i below [of i] by linarith
    consider "(i - 1) div 2 = p" | "(i - 1) div 2 = q" | "(i - 1) div 2 \<noteq> p" "(i - 1) div 2 \<noteq> q" by blast
    then show ?thesis
    proof cases
      case 1
      with kid [OF i(1,2) 1] False i q show ?thesis by (simp add: nth)
    next
      case 2
      have "le (h ! q) (h ! i)" using ok [OF i(1,2) False] 2 by simp
      with pq le_trans dom q i have "le (h ! p) (h ! i)" by blast
      with 2 False i q show ?thesis by (simp add: nth)
    next
      case 3
      with ok [OF i(1,2) False] False i up show ?thesis by (simp add: nth)
    qed
  qed
  have 2: "le (h' ! ((q - 1) div 2)) (h' ! i)" if i: "0 < i" "i < length h" "(i - 1) div 2 = q" "0 < q" for i
  proof -
    have up: "(q - 1) div 2 < q" using i(4) by linarith
    have r: "le (h ! ((q - 1) div 2)) (h ! q)" using ok [of q] i(4) q by simp
    show ?thesis
    proof (cases "i = p")
      case True
      with r up q show ?thesis by (simp add: nth)
    next
      case False
      have "le (h ! q) (h ! i)" using ok [OF i(1,2) False] i(3) by simp
      with r le_trans dom q i up have "le (h ! ((q - 1) div 2)) (h ! i)" by (meson order_less_trans)
      moreover have "i \<noteq> q" using below [OF i(1)] i(3) by simp
      ultimately show ?thesis using False up q i by (simp add: nth)
    qed
  qed
  have "set h' \<subseteq> dom" using h set_heap_swap [OF q(2,3)] by (metis h'_def set_mset_mset up_heap_def)
  with 1 2 q have "up_heap h' q" by (simp add: up_heap_def len)
  then show ?thesis by (simp only: q_def h'_def)
qed

lemma sift_up_spec:
  "up_heap h p \<Longrightarrow> \<exists>h'. sift_up cmp h p = Some h' \<and> heap_prop le h' \<and> mset h' = mset h"
proof (induction p arbitrary: h rule: less_induct)
  case (less p)
  show ?case
  proof (cases "p = 0")
    case True
    with less.prems show ?thesis by (auto simp: sift_up.simps heap_prop_def up_heap_def)
  next
    case False
    define q where "q = (p - 1) div 2"
    have q: "q < p" "q < length h" "p < length h" "set h \<subseteq> dom" using False less.prems by (auto simp: q_def up_heap_def)
    from compare_in_heap_eq [OF q(4,2,3)] obtain c where
      c: "compare_in_heap cmp h q p = Some c" "c = Greater \<longleftrightarrow> \<not> le (h ! q) (h ! p)" by blast
    show ?thesis
    proof (cases "c = Greater")
      case True
      with c up_heap_swap [OF less.prems] False have "up_heap (heap_swap h q p) q" by (simp add: q_def)
      from less.IH [OF q(1) this] True c(1) False set_heap_swap [OF q(2,3)] show ?thesis
        by (subst sift_up.simps) (simp add: q_def Let_def)
    next
      case le: False
      have "heap_prop le h" unfolding heap_prop_def
      proof (intro allI impI)
        fix i assume "0 < i \<and> i < length h"
        with le c(2) less.prems show "le (h ! ((i - 1) div 2)) (h ! i)" by (cases "i = p") (auto simp: up_heap_def q_def)
      qed
      with le c(1) False show ?thesis by (subst sift_up.simps) (simp add: q_def)
    qed
  qed
qed

lemma add_pending:
  assumes "heap_prop le h" and "set h \<subseteq> dom" and "e \<in> dom"
  shows "\<exists>h'. add_pending_data cmp e h = Some h' \<and> heap_prop le h' \<and> mset h' = add_mset e (mset h)"
proof -
  have "up_heap (h @ [e]) (length h)"
    unfolding up_heap_def
  proof (intro conjI allI impI)
    fix i assume i: "0 < i \<and> i < length (h @ [e]) \<and> i \<noteq> length h"
    then have "(i - 1) div 2 < length h" "i < length h" by auto
    with i assms(1) show "le ((h @ [e]) ! ((i - 1) div 2)) ((h @ [e]) ! i)" by (simp add: nth_append heap_prop_def)
  next
    fix i assume "0 < i \<and> i < length (h @ [e]) \<and> (i - 1) div 2 = length h \<and> 0 < length h"
    then show "le ((h @ [e]) ! ((length h - 1) div 2)) ((h @ [e]) ! i)" by simp linarith
  qed (use assms in auto)
  from sift_up_spec [OF this] show ?thesis by (simp add: add_pending_data_def)
qed

text \<open>The heap property but for the entry at \<open>p\<close>, which may be too large for its place.\<close>

definition down_heap :: "'e list \<Rightarrow> nat \<Rightarrow> bool" where
  "down_heap h p \<longleftrightarrow> set h \<subseteq> dom
     \<and> (\<forall>i. 0 < i \<and> i < length h \<and> (i - 1) div 2 \<noteq> p \<longrightarrow> le (h ! ((i - 1) div 2)) (h ! i))
     \<and> (\<forall>i. 0 < i \<and> i < length h \<and> (i - 1) div 2 = p \<and> 0 < p \<longrightarrow> le (h ! ((p - 1) div 2)) (h ! i))"

lemma selected_child_spec:
  assumes "set h \<subseteq> dom" and "p * 2 + 1 < length h"
  shows "\<exists>c. selected_child cmp h p = Some c \<and> p < c \<and> c < length h \<and> (c - 1) div 2 = p
    \<and> (\<forall>i. 0 < i \<and> i < length h \<and> (i - 1) div 2 = p \<longrightarrow> le (h ! c) (h ! i))"
proof -
  have kids: "i = p * 2 + 1 \<or> i = p * 2 + 2" if "0 < i" "(i - 1) div 2 = p" for i using that by linarith
  have dom: "\<And>i. i < length h \<Longrightarrow> h ! i \<in> dom" using assms(1) by auto
  show ?thesis
  proof (cases "p * 2 + 2 < length h")
    case True
    from compare_in_heap_eq [OF assms(1,2) True] obtain c where
      c: "compare_in_heap cmp h (p * 2 + 1) (p * 2 + 2) = Some c" "c = Greater \<longleftrightarrow> \<not> le (h ! (p * 2 + 1)) (h ! (p * 2 + 2))" by blast
    define s where "s = (if c = Greater then p * 2 + 2 else p * 2 + 1)"
    note refl = le_refl [OF dom [OF assms(2)]] le_refl [OF dom [OF True]]
    have "le (h ! s) (h ! (p * 2 + 1))" "le (h ! s) (h ! (p * 2 + 2))"
      using c(2) refl le_total [OF dom [OF assms(2)] dom [OF True]] by (auto simp: s_def)
    then have "\<forall>i. 0 < i \<and> i < length h \<and> (i - 1) div 2 = p \<longrightarrow> le (h ! s) (h ! i)" by (metis kids)
    moreover have "selected_child cmp h p = Some s" using c(1) True by (simp add: selected_child_def s_def)
    ultimately show ?thesis using True by (intro exI [of _ s]) (auto simp: s_def)
  next
    case False
    then have "selected_child cmp h p = Some (p * 2 + 1)" by (simp add: selected_child_def)
    moreover have "\<forall>i. 0 < i \<and> i < length h \<and> (i - 1) div 2 = p \<longrightarrow> le (h ! (p * 2 + 1)) (h ! i)"
    proof (intro allI impI)
      fix i assume "0 < i \<and> i < length h \<and> (i - 1) div 2 = p"
      with kids [of i] False have "i = p * 2 + 1" by auto
      with le_refl [OF dom [OF assms(2)]] show "le (h ! (p * 2 + 1)) (h ! i)" by simp
    qed
    ultimately show ?thesis using assms(2) by auto
  qed
qed

lemma down_heap_swap:
  assumes h: "down_heap h p" and c: "p < c" "c < length h" "(c - 1) div 2 = p"
    and least: "\<forall>i. 0 < i \<and> i < length h \<and> (i - 1) div 2 = p \<longrightarrow> le (h ! c) (h ! i)" and gt: "\<not> le (h ! p) (h ! c)"
  shows "down_heap (heap_swap h p c) c"
proof -
  have dom: "\<And>i. i < length h \<Longrightarrow> h ! i \<in> dom" using h by (auto simp: down_heap_def)
  have p: "p < length h" using c by simp
  define h' where "h' = heap_swap h p c"
  have nth: "h' ! i = (if i = c then h ! p else if i = p then h ! c else h ! i)" if "i < length h" for i
    using that c by (auto simp: h'_def heap_swap_def nth_list_update)
  have len: "length h' = length h" by (simp add: h'_def heap_swap_def)
  have cp: "le (h ! c) (h ! p)" using gt le_total dom c p by blast
  have below: "(i - 1) div 2 < i" if "0 < i" for i :: nat using that by linarith
  have ok: "le (h ! ((i - 1) div 2)) (h ! i)" if "0 < i" "i < length h" "(i - 1) div 2 \<noteq> p" for i
    using h that by (simp add: down_heap_def)
  have 1: "le (h' ! ((i - 1) div 2)) (h' ! i)" if i: "0 < i" "i < length h" "(i - 1) div 2 \<noteq> c" for i
  proof (cases "(i - 1) div 2 = p")
    case True
    then have ip: "i \<noteq> p" using below [OF i(1)] by simp
    show ?thesis using True cp ip c p i least by (cases "i = c") (simp_all add: nth)
  next
    case False
    have up: "(i - 1) div 2 < length h" using i below [of i] by linarith
    have ic: "i \<noteq> c" using False c(3) by auto
    show ?thesis
    proof (cases "i = p")
      case True
      have "le (h ! ((p - 1) div 2)) (h ! c)" using h i(1) True c by (simp add: down_heap_def)
      with True ic up i False show ?thesis by (simp add: nth)
    next
      case ip: False
      with ok [OF i(1,2) False] False ic up i show ?thesis by (simp add: nth)
    qed
  qed
  have 2: "le (h' ! ((c - 1) div 2)) (h' ! i)" if i: "0 < i" "i < length h" "(i - 1) div 2 = c" for i
  proof -
    have "i \<noteq> c" "c \<noteq> p" "i \<noteq> p" using below [OF i(1)] i(3) c(1) by auto
    moreover have "le (h ! c) (h ! i)" using ok [OF i(1,2)] i(3) c(1) by simp
    ultimately show ?thesis using i c p by (simp add: nth)
  qed
  have "set h' \<subseteq> dom" using h set_heap_swap [OF p c(2)] by (metis h'_def set_mset_mset down_heap_def)
  with 1 2 show ?thesis by (simp add: down_heap_def len flip: h'_def)
qed

lemma sift_down_spec:
  "down_heap h p \<Longrightarrow> \<exists>h'. sift_down cmp h p = Some h' \<and> heap_prop le h' \<and> mset h' = mset h"
proof (induction "length h - p" arbitrary: h p rule: less_induct)
  case less
  have set: "set h \<subseteq> dom" using less.prems by (simp add: down_heap_def)
  have flat: "heap_prop le h" if "\<forall>i. 0 < i \<and> i < length h \<and> (i - 1) div 2 = p \<longrightarrow> le (h ! p) (h ! i)"
    unfolding heap_prop_def
  proof (intro allI impI)
    fix i assume "0 < i \<and> i < length h"
    with that less.prems show "le (h ! ((i - 1) div 2)) (h ! i)"
      by (cases "(i - 1) div 2 = p") (auto simp: down_heap_def)
  qed
  show ?case
  proof (cases "length h \<le> p * 2 + 1")
    case True
    then have "heap_prop le h" by (intro flat) auto
    with True show ?thesis by (simp add: sift_down.simps)
  next
    case False
    with selected_child_spec [OF set, of p] obtain c where
      c: "selected_child cmp h p = Some c" "p < c" "c < length h" "(c - 1) div 2 = p"
        "\<forall>i. 0 < i \<and> i < length h \<and> (i - 1) div 2 = p \<longrightarrow> le (h ! c) (h ! i)" by auto
    have p: "p < length h" using c by simp
    from compare_in_heap_eq [OF set p c(3)] obtain r where
      r: "compare_in_heap cmp h p c = Some r" "r = Greater \<longleftrightarrow> \<not> le (h ! p) (h ! c)" by blast
    show ?thesis
    proof (cases "r = Greater")
      case True
      with r(2) down_heap_swap [OF less.prems c(2-5)] have "down_heap (heap_swap h p c) c" by simp
      moreover have "length (heap_swap h p c) - c < length h - p" using c(2) p by (simp add: heap_swap_def)
      ultimately show ?thesis using less.hyps [of "heap_swap h p c" c] True r(1) c(1) False set_heap_swap [OF p c(3)]
        by (subst sift_down.simps) simp
    next
      case le: False
      have dom: "\<And>i. i < length h \<Longrightarrow> h ! i \<in> dom" using set by auto
      have "heap_prop le h"
        using le r(2) c(3,5) p le_trans dom by (intro flat) blast
      moreover have "r = Less \<or> r = Equal" using le by (cases r) auto
      ultimately show ?thesis using r(1) c(1) False by (subst sift_down.simps) auto
    qed
  qed
qed

lemma replace_pending:
  assumes "heap_prop le (x # h)" and "set (x # h) \<subseteq> dom" and "e \<in> dom"
  shows "\<exists>h'. replace_pending_data cmp e (x # h) = Some (x, h') \<and> heap_prop le h' \<and> mset h' = add_mset e (mset h)"
proof -
  have "down_heap (e # h) 0" using assms by (auto simp: down_heap_def heap_prop_def nth_Cons' split: if_splits)
  from sift_down_spec [OF this] show ?thesis by (simp add: replace_pending_data_def index_at_def)
qed

lemma pop_pending:
  assumes "heap_prop le (x # h)" and "set (x # h) \<subseteq> dom"
  shows "\<exists>h'. pop_pending_data cmp (x # h) = Some (x, h') \<and> heap_prop le h' \<and> mset h' = mset h"
proof (cases "h = []")
  case True
  then show ?thesis by (simp add: pop_pending_data_def rust_assert_def heap_prop_def)
next
  case False
  then obtain g y where h: "h = g @ [y]" by (metis rev_exhaust)
  have "heap_prop le (x # g)" using assms(1) unfolding heap_prop_def h
  proof (intro allI impI)
    fix i assume all: "\<forall>i. 0 < i \<and> i < length (x # g @ [y]) \<longrightarrow> le ((x # g @ [y]) ! ((i - 1) div 2)) ((x # g @ [y]) ! i)"
      and i: "0 < i \<and> i < length (x # g)"
    have "(i - 1) div 2 < length (x # g)" using i by linarith
    with all [rule_format, of i] i show "le ((x # g) ! ((i - 1) div 2)) ((x # g) ! i)"
      by (auto simp: nth_append nth_Cons' split: if_splits)
  qed
  from replace_pending [OF this, of y] assms(2) h show ?thesis
    by (simp add: pop_pending_data_def rust_assert_def)
qed

lemma root_least:
  assumes "heap_prop le h" and "set h \<subseteq> dom" and "i < length h"
  shows "le (h ! 0) (h ! i)"
  using assms(3)
proof (induction i rule: less_induct)
  case (less i)
  show ?case
  proof (cases "i = 0")
    case True
    have "h ! 0 \<in> dom" using True less.prems assms(2) by (meson nth_mem subsetD)
    with True show ?thesis by (simp add: le_refl)
  next
    case False
    define q where "q = (i - 1) div 2"
    have q: "q < i" using False by (simp add: q_def)
    have "le (h ! q) (h ! i)" using assms(1) False less.prems by (simp add: heap_prop_def q_def)
    moreover have "le (h ! 0) (h ! q)" using less.IH [OF q] q less.prems by simp
    moreover have "0 < length h" "q < length h" using less.prems q by linarith+
    then have "h ! 0 \<in> dom" "h ! q \<in> dom" "h ! i \<in> dom"
      using assms(2) less.prems nth_mem by blast+
    ultimately show ?thesis using le_trans by blast
  qed
qed

end

end
