(* ===== verification/Merge_Iter.thy ===== *)
theory Merge_Iter
  imports Scans Merge_Heap
begin

text \<open>
  The merge iterator over sorted sources (\<open>merge_iterator.rs\<close>), with the sources' \<open>next_batch\<close> and the
  comparison of values (\<open>DataValue::partial_cmp\<close>) as arguments. \<open>merge_run\<close> is the abstract
  specification of merging: at every step a least head of the remaining streams is emitted. The
  iterator refines it, so that a scan over sorted sources yields their rows as one sorted sequence.
\<close>

type_synonym 'v chunk_buffer = "'v storage_chunk option list"

record ('s, 'v) merge_iter =
  mi_iters :: "'s list"
  mi_chunk_buffer :: "'v chunk_buffer"
  mi_has_finished :: "bool list"
  mi_sort_key_idx :: "nat list"
  mi_pending_heap :: "(nat \<times> nat) list"

definition mi_new :: "'s list \<Rightarrow> nat list \<Rightarrow> ('s, 'v) merge_iter" where
  "mi_new iters sort_key_idx =
     \<lparr>mi_iters = iters, mi_chunk_buffer = replicate (length iters) None,
      mi_has_finished = replicate (length iters) False, mi_sort_key_idx = sort_key_idx, mi_pending_heap = []\<rparr>"

definition buffered :: "'v chunk_buffer \<Rightarrow> nat \<Rightarrow> 'v storage_chunk option" where
  "buffered buffer i = do { c \<leftarrow> index_at buffer i; c }"

text \<open>The loop over the sort keys.\<close>

fun compare_keys ::
  "'v option compare \<Rightarrow> nat list \<Rightarrow> 'v storage_chunk \<Rightarrow> nat \<Rightarrow> 'v storage_chunk \<Rightarrow> nat \<Rightarrow> cmp_ordering option" where
  "compare_keys cmp [] left_chunk left_row right_chunk right_row = Some Equal"
| "compare_keys cmp (key # keys) left_chunk left_row right_chunk right_row = do {
     la \<leftarrow> index_at (sc_arrays left_chunk) key;
     left_data \<leftarrow> pa_get la left_row;
     ra \<leftarrow> index_at (sc_arrays right_chunk) key;
     right_data \<leftarrow> pa_get ra right_row;
     res \<leftarrow> cmp left_data right_data;
     (if res \<noteq> Equal then Some res else compare_keys cmp keys left_chunk left_row right_chunk right_row) }"

definition compare_data :: "'v option compare \<Rightarrow> 'v chunk_buffer \<Rightarrow> nat list \<Rightarrow> (nat \<times> nat) compare" where
  "compare_data cmp buffer keys l r = do {
     left_chunk \<leftarrow> buffered buffer (fst l);
     right_chunk \<leftarrow> buffered buffer (fst r);
     compare_keys cmp keys left_chunk (snd l) right_chunk (snd r) }"

definition request_fill_buffer ::
  "('v, 's) next_chunk \<Rightarrow> nat \<Rightarrow> nat option \<Rightarrow> ('s, 'v) merge_iter \<Rightarrow> (bool \<times> ('s, 'v) merge_iter) storage_result option" where
  "request_fill_buffer N iter_idx expected_size m = do {
     fin \<leftarrow> index_at (mi_has_finished m) iter_idx;
     (if fin then Some (Inr (False, m))
      else do {
        it \<leftarrow> index_at (mi_iters m) iter_idx;
        r \<leftarrow> N expected_size it;
        Some (case r of
           Inl err \<Rightarrow> Inl err
         | Inr (Some batch, it) \<Rightarrow>
             Inr (True, m\<lparr>mi_iters := (mi_iters m)[iter_idx := it],
                          mi_chunk_buffer := (mi_chunk_buffer m)[iter_idx := Some batch]\<rparr>)
         | Inr (None, it) \<Rightarrow>
             Inr (False, m\<lparr>mi_iters := (mi_iters m)[iter_idx := it],
                           mi_has_finished := (mi_has_finished m)[iter_idx := True]\<rparr>)) }) }"

definition next_visible_item :: "'v chunk_buffer \<Rightarrow> nat \<Rightarrow> nat option \<Rightarrow> nat option option" where
  "next_visible_item buffer iter_idx last_idx = do {
     let first_scan_idx = (case last_idx of Some x \<Rightarrow> x + 1 | None \<Rightarrow> 0);
     chunk \<leftarrow> buffered buffer iter_idx;
     (case sc_visibility chunk of
        Some v \<Rightarrow> Some (find (\<lambda>idx. v ! idx) [first_scan_idx ..< length v])
      | None \<Rightarrow> do {
          row_count \<leftarrow> sc_row_count chunk;
          Some (if first_scan_idx \<ge> row_count then None else Some first_scan_idx) }) }"

text \<open>The loop that fills the empty buffers; the first component is \<open>reference_chunk_buffer\<close>.\<close>

fun mi_fill ::
  "'v option compare \<Rightarrow> ('v, 's) next_chunk \<Rightarrow> nat option \<Rightarrow> nat list \<Rightarrow> nat option \<Rightarrow> ('s, 'v) merge_iter
     \<Rightarrow> (nat option \<times> ('s, 'v) merge_iter) storage_result option" where
  "mi_fill cmp N expected_size [] reference m = Some (Inr (reference, m))"
| "mi_fill cmp N expected_size (idx # idxs) reference m = do {
     slot \<leftarrow> index_at (mi_chunk_buffer m) idx;
     (case slot of
        Some _ \<Rightarrow> mi_fill cmp N expected_size idxs (Some idx) m
      | None \<Rightarrow> do {
          r \<leftarrow> request_fill_buffer N idx expected_size m;
          (case r of
             Inl err \<Rightarrow> Some (Inl err)
           | Inr (True, m) \<Rightarrow> do {
               nxt \<leftarrow> next_visible_item (mi_chunk_buffer m) idx None;
               next_item \<leftarrow> nxt;
               heap \<leftarrow> add_pending_data (compare_data cmp (mi_chunk_buffer m) (mi_sort_key_idx m)) (idx, next_item) (mi_pending_heap m);
               mi_fill cmp N expected_size idxs (Some idx) (m\<lparr>mi_pending_heap := heap\<rparr>) }
           | Inr (False, m) \<Rightarrow> mi_fill cmp N expected_size idxs reference m) }) }"

text \<open>The loop that picks rows: the picked positions, the buffer to reset, and the heap.\<close>

partial_function (option) mi_pick_loop ::
  "(nat \<times> nat) compare \<Rightarrow> 'v chunk_buffer \<Rightarrow> nat option \<Rightarrow> (nat \<times> nat) list \<Rightarrow> (nat \<times> nat) list
     \<Rightarrow> ((nat \<times> nat) list \<times> nat option \<times> (nat \<times> nat) list) option" where
  "mi_pick_loop cmp buffer expected_size pick_from heap =
     (if (case expected_size of Some n \<Rightarrow> length pick_from \<ge> n | None \<Rightarrow> False) then Some (pick_from, None, heap)
      else do {
        top \<leftarrow> peek_pending_data heap;
        nxt \<leftarrow> next_visible_item buffer (fst top) (Some (snd top));
        (case nxt of
           Some next_idx \<Rightarrow> do {
             (p, heap) \<leftarrow> replace_pending_data cmp (fst top, next_idx) heap;
             mi_pick_loop cmp buffer expected_size (pick_from @ [p]) heap }
         | None \<Rightarrow> do {
             (p, heap) \<leftarrow> pop_pending_data cmp heap;
             Some (pick_from @ [p], Some (fst top), heap) }) })"

definition pick_from_multiple :: "'v \<Rightarrow> 'v array list \<Rightarrow> (nat \<times> nat) list \<Rightarrow> 'v array \<Rightarrow> 'v array option" where
  "pick_from_multiple d arrays logical_rows builder =
     fold_opt (\<lambda>(idx, row) b. do { a \<leftarrow> index_at arrays idx; v \<leftarrow> pa_get a row; Some (pa_push d v b) }) logical_rows builder"

text \<open>The array of one output column.\<close>

definition mi_column :: "'v \<Rightarrow> 'v chunk_buffer \<Rightarrow> (nat \<times> nat) list \<Rightarrow> nat \<Rightarrow> 'v array option" where
  "mi_column d buffer pick_from col_idx = do {
     arrays \<leftarrow> those (map (\<lambda>chunk. case chunk of Some x \<Rightarrow> index_at (sc_arrays x) col_idx | None \<Rightarrow> Some pa_new) buffer);
     pick_from_multiple d arrays pick_from pa_new }"

definition mi_next_batch :: "'v \<Rightarrow> 'v option compare \<Rightarrow> ('v, 's) next_chunk \<Rightarrow> ('v, ('s, 'v) merge_iter) next_chunk" where
  "mi_next_batch d cmp N expected_size m = do {
     r \<leftarrow> mi_fill cmp N expected_size [0 ..< length (mi_iters m)] None m;
     (case r of
        Inl err \<Rightarrow> Some (Inl err)
      | Inr (reference, m) \<Rightarrow>
          (if length (mi_pending_heap m) = 0 then Some (Inr (None, m))
           else do {
             reference \<leftarrow> reference;
             (pick_from, reset_chunk_idx, heap) \<leftarrow>
               mi_pick_loop (compare_data cmp (mi_chunk_buffer m) (mi_sort_key_idx m)) (mi_chunk_buffer m) expected_size [] (mi_pending_heap m);
             ref_chunk \<leftarrow> buffered (mi_chunk_buffer m) reference;
             arrays \<leftarrow> those (map (mi_column d (mi_chunk_buffer m) pick_from) [0 ..< length (sc_arrays ref_chunk)]);
             chunk \<leftarrow> sc_construct None arrays;
             chunk \<leftarrow> chunk;
             Some (Inr (Some chunk, m\<lparr>mi_pending_heap := heap,
               mi_chunk_buffer := (case reset_chunk_idx of Some i \<Rightarrow> (mi_chunk_buffer m)[i := None] | None \<Rightarrow> mi_chunk_buffer m)\<rparr>)) })) }"

section \<open>The abstract merge\<close>

inductive merge_run :: "('r \<Rightarrow> 'r \<Rightarrow> bool) \<Rightarrow> 'r list list \<Rightarrow> 'r list \<Rightarrow> 'r list list \<Rightarrow> bool" for le where
  merge_done: "merge_run le S [] S"
| merge_emit: "i < length S \<Longrightarrow> S ! i = y # ys \<Longrightarrow> \<forall>s\<in>set S. \<forall>x\<in>set s. le y x \<Longrightarrow> merge_run le (S[i := ys]) zs T
    \<Longrightarrow> merge_run le S (y # zs) T"

lemma mset_concat_update:
  "i < length S \<Longrightarrow> S ! i = y # ys \<Longrightarrow> mset (concat S) = add_mset y (mset (concat (S[i := ys])))"
  by (induction S arbitrary: i) (auto split: nat.splits simp: nth_Cons')

lemma merge_run_mset: "merge_run le S zs T \<Longrightarrow> mset (concat S) = mset zs + mset (concat T)"
  by (induction rule: merge_run.induct) (simp_all add: mset_concat_update)

lemma merge_run_sorted:
  assumes "merge_run le S zs T"
  shows "sorted_wrt le zs \<and> (\<forall>z\<in>set zs. \<forall>x\<in>set (concat T). le z x)"
  using assms
proof (induction rule: merge_run.induct)
  case (merge_emit i S y ys zs T)
  have "set (concat S) = insert y (set zs \<union> set (concat T))"
    using mset_concat_update [OF merge_emit(1,2)] merge_run_mset [OF merge_emit(4)]
    by (metis set_mset_add_mset_insert set_mset_mset set_mset_union)
  then have "\<forall>x\<in>set zs \<union> set (concat T). le y x" using merge_emit(3) by (metis UN_E insertI2 set_concat)
  with merge_emit.IH show ?case by auto
qed simp

lemma merge_run_trans: "merge_run le S xs T \<Longrightarrow> merge_run le T ys U \<Longrightarrow> merge_run le S (xs @ ys) U"
  by (induction rule: merge_run.induct) (auto intro: merge_run.intros)

section \<open>The order of rows\<close>

text \<open>Lexicographic order on the sort keys, from an order on values.\<close>

fun row_le :: "('v option \<Rightarrow> 'v option \<Rightarrow> bool) \<Rightarrow> nat list \<Rightarrow> 'v option list \<Rightarrow> 'v option list \<Rightarrow> bool" where
  "row_le vle [] l r \<longleftrightarrow> True"
| "row_le vle (k # ks) l r \<longleftrightarrow> vle (l ! k) (r ! k) \<and> (vle (r ! k) (l ! k) \<longrightarrow> row_le vle ks l r)"

locale value_order =
  fixes cmp :: "'v option compare" and vle :: "'v option \<Rightarrow> 'v option \<Rightarrow> bool"
  assumes cmp_eq: "cmp a b = Some (if vle a b then if vle b a then Equal else Less else Greater)"
    and vle_total: "vle a b \<or> vle b a"
    and vle_trans: "vle a b \<Longrightarrow> vle b c \<Longrightarrow> vle a c"
begin

lemma row_le_total: "row_le vle ks a b \<or> row_le vle ks b a"
  by (induction ks) (use vle_total in auto)

lemma row_le_trans: "row_le vle ks a b \<Longrightarrow> row_le vle ks b c \<Longrightarrow> row_le vle ks a c"
proof (induction ks)
  case (Cons k ks)
  then show ?case
    using vle_trans [of "a ! k" "b ! k" "c ! k"] vle_trans [of "c ! k" "a ! k" "b ! k"] vle_trans [of "b ! k" "c ! k" "a ! k"]
    by auto
qed simp

lemma compare_keys_eq:
  assumes "sc_wf l" "sc_wf r" "i < pa_len (sc_arrays l ! 0)" "j < pa_len (sc_arrays r ! 0)"
    and "\<forall>key\<in>set ks. key < length (sc_arrays l) \<and> key < length (sc_arrays r)"
  shows "\<exists>c. compare_keys cmp ks l i r j = Some c \<and> (c = Greater \<longleftrightarrow> \<not> row_le vle ks (chunk_row l i) (chunk_row r j))"
  using assms(5)
proof (induction ks)
  case (Cons key ks)
  have arr: "pa_get (sc_arrays c ! key) x = Some (chunk_row c x ! key)"
    if "sc_wf c" "x < pa_len (sc_arrays c ! 0)" "key < length (sc_arrays c)" for c :: "'v storage_chunk" and x
    using that sc_wf_arrays(2,3) [OF that(1), of "sc_arrays c ! key"] by (simp add: pa_get_eq chunk_row_def)
  from Cons obtain c where "compare_keys cmp ks l i r j = Some c"
    "c = Greater \<longleftrightarrow> \<not> row_le vle ks (chunk_row l i) (chunk_row r j)" by auto
  with arr [OF assms(1,3)] arr [OF assms(2,4)] Cons.prems show ?case
    by (simp add: index_at_def cmp_eq [of "chunk_row l i ! key" "chunk_row r j ! key"])
qed simp

end

section \<open>The iterator refines the abstract merge\<close>

definition rows_from :: "'v storage_chunk \<Rightarrow> nat \<Rightarrow> 'v option list list" where
  "rows_from c r = map (chunk_row c) (filter (\<lambda>i. r \<le> i) (visible_idx c))"

text \<open>The rows of source \<open>i\<close> that are buffered and not yet emitted.\<close>

definition buffered_rows :: "'v chunk_buffer \<Rightarrow> (nat \<times> nat) list \<Rightarrow> nat \<Rightarrow> 'v option list list" where
  "buffered_rows buffer heap i =
     (case map_of heap i of Some r \<Rightarrow> (case buffer ! i of Some c \<Rightarrow> rows_from c r | None \<Rightarrow> []) | None \<Rightarrow> [])"

lemma sorted_visible_idx: "sorted_wrt (<) (visible_idx c)" and visible_idx_bound: "i \<in> set (visible_idx c) \<Longrightarrow> i < pa_len (sc_arrays c ! 0)"
  by (auto simp: visible_idx_def sorted_wrt_filter)

lemma rows_from_first: "sc_wf c \<Longrightarrow> visible_idx c = i # is \<Longrightarrow> rows_from c i = chunk_rows c"
  using sorted_visible_idx [of c] by (auto simp: rows_from_def chunk_rows_def filter_id_conv less_imp_le)

lemma find_filter: "find P (filter Q xs) = find (\<lambda>x. Q x \<and> P x) xs"
  by (induction xs) auto

lemma find_head: "find P xs = (case filter P xs of [] \<Rightarrow> None | x # _ \<Rightarrow> Some x)"
  by (induction xs) auto

lemma filter_upt_ge: "filter (\<lambda>i. a \<le> i) [0 ..< n] = [a ..< n]"
proof (cases "a \<le> n")
  case True
  then have "[0 ..< n] = [0 ..< a] @ [a ..< n]" by (metis le_add_diff_inverse upt_add_eq_append zero_le)
  then show ?thesis by (auto simp: filter_empty_conv filter_id_conv)
qed (auto simp: filter_empty_conv)

lemma next_visible_item_eq:
  assumes "buffered buffer i = Some c" and wf: "sc_wf c"
  shows "next_visible_item buffer i lst =
    Some (case filter (\<lambda>x. (case lst of Some r \<Rightarrow> r < x | None \<Rightarrow> True)) (visible_idx c) of [] \<Rightarrow> None | x # _ \<Rightarrow> Some x)"
proof -
  define a where "a = (case lst of Some x \<Rightarrow> x + 1 | None \<Rightarrow> (0::nat))"
  have lt: "(\<lambda>x. case lst of Some r \<Rightarrow> r < x | None \<Rightarrow> True) = (\<lambda>x. a \<le> x)" by (auto simp: a_def split: option.splits)
  have len: "index_at (sc_arrays c) 0 = Some (sc_arrays c ! 0)" using sc_wf_arrays(1) [OF wf] by (simp add: index_at_def)
  show ?thesis
  proof (cases "sc_visibility c")
    case None
    have "filter (\<lambda>x. a \<le> x) (visible_idx c) = [a ..< pa_len (sc_arrays c ! 0)]"
      using None by (simp add: visible_idx_def filter_upt_ge)
    with None len assms(1) show ?thesis
      by (auto simp: next_visible_item_def sc_row_count_def lt a_def [symmetric] upt_conv_Cons split: list.splits)
  next
    case (Some v)
    have "filter (\<lambda>x. a \<le> x) (visible_idx c) = filter ((!) v) [a ..< length v]"
      unfolding filter_upt_ge [of a "length v", symmetric] using Some sc_wf_arrays(4) [OF wf Some]
      by (simp add: visible_idx_def conj_commute)
    with Some assms(1) show ?thesis
      by (simp add: next_visible_item_def lt a_def [symmetric] find_head)
  qed
qed

lemma sorted_filter_le:
  "sorted_wrt (<) (xs :: nat list) \<Longrightarrow> r \<in> set xs \<Longrightarrow> filter (\<lambda>x. r \<le> x) xs = r # filter (\<lambda>x. r < x) xs"
proof (induction xs)
  case (Cons x xs)
  show ?case
  proof (cases "r = x")
    case True
    with Cons.prems have "filter (\<lambda>y. x \<le> y) xs = xs" "filter (\<lambda>y. x < y) xs = xs" by (auto simp: filter_id_conv)
    with True show ?thesis by simp
  next
    case False
    with Cons.prems have "x < r" by auto
    then have "\<not> r \<le> x" "\<not> r < x" by auto
    with Cons False show ?thesis by simp
  qed
qed simp

lemma rows_from_Cons:
  "r \<in> set (visible_idx c) \<Longrightarrow> rows_from c r = chunk_row c r # map (chunk_row c) (filter (\<lambda>x. r < x) (visible_idx c))"
  by (simp add: rows_from_def sorted_filter_le sorted_visible_idx)

lemma rows_from_next:
  assumes "filter (\<lambda>x. r < x) (visible_idx c) = r' # rs"
  shows "r' \<in> set (visible_idx c)" and "map (chunk_row c) (filter (\<lambda>x. r < x) (visible_idx c)) = rows_from c r'"
proof -
  have mem: "r' \<in> set (filter (\<lambda>x. r < x) (visible_idx c))" using assms by simp
  then show "r' \<in> set (visible_idx c)" by simp
  have "sorted_wrt (<) (r' # rs)" using sorted_wrt_filter [OF sorted_visible_idx, of "\<lambda>x. r < x" c] assms by simp
  then have "filter (\<lambda>x. r' \<le> x) (r' # rs) = r' # rs" by (auto simp: filter_id_conv)
  moreover have "filter (\<lambda>x. r' \<le> x) (visible_idx c) = filter (\<lambda>x. r' \<le> x) (r' # rs)"
    using mem by (subst assms [symmetric]) (auto intro: filter_cong)
  ultimately show "map (chunk_row c) (filter (\<lambda>x. r < x) (visible_idx c)) = rows_from c r'"
    using assms by (simp add: rows_from_def)
qed

lemma heap_prop_cong: "(\<And>e f. e \<in> set h \<Longrightarrow> f \<in> set h \<Longrightarrow> le e f = le' e f) \<Longrightarrow> heap_prop le h \<longleftrightarrow> heap_prop le' h"
proof -
  assume eq: "\<And>e f. e \<in> set h \<Longrightarrow> f \<in> set h \<Longrightarrow> le e f = le' e f"
  have "le (h ! ((i - 1) div 2)) (h ! i) = le' (h ! ((i - 1) div 2)) (h ! i)" if "0 < i" "i < length h" for i
    using that by (intro eq nth_mem) linarith+
  then show ?thesis by (auto simp: heap_prop_def)
qed

lemma map_of_mset:
  assumes "mset h' = mset h" and "distinct (map fst h)"
  shows "map_of h' = map_of h" and "distinct (map fst h')"
proof -
  show d: "distinct (map fst h')" using assms by (metis mset_eq_imp_distinct_iff mset_map)
  show "map_of h' = map_of h" using map_of_inject_set [OF d assms(2)] mset_eq_setD [OF assms(1)] by simp
qed

locale merging = chunk_source N k pending + value_order cmp vle
  for N :: "('v, 's) next_chunk" and k pending and cmp :: "'v option compare" and vle +
  fixes d :: 'v and keys :: "nat list"
  assumes keys_lt: "\<forall>key\<in>set keys. key < k"
begin

abbreviation rle :: "'v option list \<Rightarrow> 'v option list \<Rightarrow> bool" where "rle \<equiv> row_le vle keys"

definition entries :: "'v chunk_buffer \<Rightarrow> (nat \<times> nat) set" where
  "entries buffer = {(i, r). \<exists>c. buffered buffer i = Some c \<and> sc_wf c \<and> length (sc_arrays c) = k \<and> r \<in> set (visible_idx c)}"

definition entry_row :: "'v chunk_buffer \<Rightarrow> nat \<times> nat \<Rightarrow> 'v option list" where
  "entry_row buffer e = chunk_row (the (buffered buffer (fst e))) (snd e)"

definition entry_le :: "'v chunk_buffer \<Rightarrow> nat \<times> nat \<Rightarrow> nat \<times> nat \<Rightarrow> bool" where
  "entry_le buffer e f \<longleftrightarrow> rle (entry_row buffer e) (entry_row buffer f)"

lemma heap_order_buffer: "heap_order (compare_data cmp buffer keys) (entries buffer) (entry_le buffer)"
proof
  fix a b assume a: "a \<in> entries buffer" and b: "b \<in> entries buffer"
  from a obtain ca where ca: "buffered buffer (fst a) = Some ca" "sc_wf ca" "length (sc_arrays ca) = k" "snd a \<in> set (visible_idx ca)"
    by (auto simp: entries_def)
  from b obtain cb where cb: "buffered buffer (fst b) = Some cb" "sc_wf cb" "length (sc_arrays cb) = k" "snd b \<in> set (visible_idx cb)"
    by (auto simp: entries_def)
  from compare_keys_eq [OF ca(2) cb(2) visible_idx_bound [OF ca(4)] visible_idx_bound [OF cb(4)], of keys] ca cb keys_lt
  show "\<exists>c. compare_data cmp buffer keys a b = Some c \<and> (c = Greater \<longleftrightarrow> \<not> entry_le buffer a b)"
    by (simp add: compare_data_def entry_le_def entry_row_def)
qed (use row_le_total row_le_trans in \<open>auto simp: entry_le_def\<close>)

end

sublocale merging \<subseteq> heap: heap_order "compare_data cmp buffer keys" "entries buffer" "entry_le buffer" for buffer
  by (rule heap_order_buffer)

context merging
begin

text \<open>The heap holds the next row of every buffered source.\<close>

definition heap_ok :: "'v chunk_buffer \<Rightarrow> (nat \<times> nat) list \<Rightarrow> bool" where
  "heap_ok buffer heap \<longleftrightarrow> heap_prop (entry_le buffer) heap \<and> set heap \<subseteq> entries buffer \<and> distinct (map fst heap)"

lemma buffered_rows_entry:
  assumes "heap_ok buffer heap" and "(i, r) \<in> set heap"
  obtains c where "buffered buffer i = Some c" "sc_wf c" "r \<in> set (visible_idx c)" "buffered_rows buffer heap i = rows_from c r"
proof -
  from assms obtain c where c: "buffered buffer i = Some c" "sc_wf c" "r \<in> set (visible_idx c)"
    by (auto simp: heap_ok_def entries_def)
  moreover have "map_of heap i = Some r" using assms by (simp add: heap_ok_def)
  moreover have "buffer ! i = Some c" using c(1) by (auto simp: buffered_def)
  ultimately show thesis using that by (simp add: buffered_rows_def)
qed

lemma entries_row_keys: "(i, r) \<in> entries buffer \<Longrightarrow> i < length buffer \<and> buffer ! i \<noteq> None"
  by (auto simp: entries_def buffered_def)

text \<open>The root of the heap is a least head of the streams.\<close>

lemma root_is_least:
  assumes ok: "heap_ok buffer ((i, r) # h)"
    and S: "\<forall>j<length S. \<exists>rest. S ! j = buffered_rows buffer ((i, r) # h) j @ rest"
    and sorted: "\<forall>j<length S. sorted_wrt rle (S ! j)"
    and empty: "\<forall>j<length S. j \<notin> fst ` set ((i, r) # h) \<longrightarrow> S ! j = []"
  shows "\<forall>s\<in>set S. \<forall>x\<in>set s. rle (entry_row buffer (i, r)) x"
proof (intro ballI)
  fix s x assume "s \<in> set S" "x \<in> set s"
  then obtain j where j: "j < length S" "S ! j = s" by (auto simp: in_set_conv_nth)
  with \<open>x \<in> set s\<close> empty obtain t where t: "(j, t) \<in> set ((i, r) # h)" by force
  from buffered_rows_entry [OF ok t] obtain c where
    c: "buffered buffer j = Some c" "t \<in> set (visible_idx c)" "buffered_rows buffer ((i, r) # h) j = rows_from c t" by blast
  with S j obtain tail where s: "s = chunk_row c t # tail" by (metis append_Cons rows_from_Cons)
  have row: "entry_row buffer (j, t) = chunk_row c t" using c(1) by (simp add: entry_row_def)
  have "entry_le buffer (i, r) (j, t)"
  proof -
    from t obtain m where "m < length ((i, r) # h)" "((i, r) # h) ! m = (j, t)" by (meson in_set_conv_nth)
    with heap.root_least [of buffer "(i, r) # h" m] ok show ?thesis
      by (simp add: heap_ok_def)
  qed
  then have le: "rle (entry_row buffer (i, r)) (chunk_row c t)" by (simp add: entry_le_def row)
  have "x = chunk_row c t \<or> rle (chunk_row c t) x" using sorted j s \<open>x \<in> set s\<close> by auto
  with le row_le_trans show "rle (entry_row buffer (i, r)) x" by blast
qed

text \<open>What stays true of the streams while rows are picked: \<open>rest i\<close> is still to be fetched.\<close>

definition streams_ok :: "'v chunk_buffer \<Rightarrow> (nat \<times> nat) list \<Rightarrow> (nat \<Rightarrow> 'v option list list) \<Rightarrow> 'v option list list list \<Rightarrow> bool" where
  "streams_ok buffer heap rest S \<longleftrightarrow> heap_ok buffer heap \<and> length S = length buffer
     \<and> (\<forall>j<length S. S ! j = buffered_rows buffer heap j @ rest j) \<and> (\<forall>j<length S. sorted_wrt rle (S ! j))"

lemma streams_entry:
  assumes "streams_ok buffer heap rest S" and "(i, r) \<in> set heap"
  obtains c where "i < length S" "buffered buffer i = Some c" "sc_wf c" "r \<in> set (visible_idx c)"
    "S ! i = entry_row buffer (i, r) # map (chunk_row c) (filter (\<lambda>x. r < x) (visible_idx c)) @ rest i"
proof -
  have ok: "heap_ok buffer heap" and i: "i < length S" using assms entries_row_keys by (auto simp: streams_ok_def heap_ok_def)
  from buffered_rows_entry [OF ok assms(2)] obtain c where
    c: "buffered buffer i = Some c" "sc_wf c" "r \<in> set (visible_idx c)" "buffered_rows buffer heap i = rows_from c r" by blast
  with i assms(1) have "S ! i = rows_from c r @ rest i" by (simp add: streams_ok_def)
  with c i that [of c] show thesis by (simp add: rows_from_Cons entry_row_def)
qed

lemma pick_replace:
  assumes ok: "streams_ok buffer ((i, r) # h) rest S"
    and nxt: "next_visible_item buffer i (Some r) = Some (Some r')"
  shows "\<exists>h'. replace_pending_data (compare_data cmp buffer keys) (i, r') ((i, r) # h) = Some ((i, r), h')
    \<and> streams_ok buffer h' rest (S[i := tl (S ! i)]) \<and> fst ` set h' = fst ` set ((i, r) # h)"
proof -
  have hp: "heap_ok buffer ((i, r) # h)" using ok by (simp add: streams_ok_def)
  from streams_entry [OF ok, of i r] obtain c where
    c: "i < length S" "buffered buffer i = Some c" "sc_wf c" "r \<in> set (visible_idx c)"
      "S ! i = entry_row buffer (i, r) # map (chunk_row c) (filter (\<lambda>x. r < x) (visible_idx c)) @ rest i" by auto
  from nxt next_visible_item_eq [OF c(2,3), of "Some r"] obtain rs where
    "filter (\<lambda>x. r < x) (visible_idx c) = r' # rs" by (auto split: list.splits)
  note r' = rows_from_next [OF this]
  have "(i, r') \<in> entries buffer" using c(2,3) r'(1) hp by (auto simp: entries_def heap_ok_def)
  with heap.replace_pending [of buffer "(i, r)" h "(i, r')"] hp obtain h' where
    h': "replace_pending_data (compare_data cmp buffer keys) (i, r') ((i, r) # h) = Some ((i, r), h')"
      "heap_prop (entry_le buffer) h'" "mset h' = mset ((i, r') # h)" by (auto simp: heap_ok_def)
  have dist: "distinct (map fst ((i, r') # h))" using hp by (simp add: heap_ok_def)
  have set: "set h' = insert (i, r') (set h)" using mset_eq_setD [OF h'(3)] by simp
  have hp': "heap_ok buffer h'"
    using h'(2) set hp \<open>(i, r') \<in> entries buffer\<close> map_of_mset(2) [OF h'(3) dist] by (auto simp: heap_ok_def)
  have rows: "buffered_rows buffer h' j = (if j = i then rows_from c r' else buffered_rows buffer ((i, r) # h) j)" for j
    using c(2) by (auto simp: buffered_rows_def map_of_mset(1) [OF h'(3) dist] buffered_def)
  have "streams_ok buffer h' rest (S[i := tl (S ! i)])"
    using ok hp' c(1,5) r'(2) by (auto simp: streams_ok_def rows nth_list_update split: if_splits)
  with h'(1) set show ?thesis by auto
qed

lemma pick_pop:
  assumes ok: "streams_ok buffer ((i, r) # h) rest S"
    and nxt: "next_visible_item buffer i (Some r) = Some None"
  shows "\<exists>h'. pop_pending_data (compare_data cmp buffer keys) ((i, r) # h) = Some ((i, r), h')
    \<and> streams_ok buffer h' rest (S[i := tl (S ! i)]) \<and> fst ` set h' = fst ` set ((i, r) # h) - {i}"
proof -
  have hp: "heap_ok buffer ((i, r) # h)" using ok by (simp add: streams_ok_def)
  from streams_entry [OF ok, of i r] obtain c where
    c: "i < length S" "buffered buffer i = Some c" "sc_wf c" "r \<in> set (visible_idx c)"
      "S ! i = entry_row buffer (i, r) # map (chunk_row c) (filter (\<lambda>x. r < x) (visible_idx c)) @ rest i" by auto
  from nxt next_visible_item_eq [OF c(2,3), of "Some r"] have none: "filter (\<lambda>x. r < x) (visible_idx c) = []"
    by (auto split: list.splits)
  from heap.pop_pending [of buffer "(i, r)" h] hp obtain h' where
    h': "pop_pending_data (compare_data cmp buffer keys) ((i, r) # h) = Some ((i, r), h')"
      "heap_prop (entry_le buffer) h'" "mset h' = mset h" by (auto simp: heap_ok_def)
  have dist: "distinct (map fst h)" "i \<notin> fst ` set h" using hp by (auto simp: heap_ok_def)
  have set: "set h' = set h" using mset_eq_setD [OF h'(3)] .
  have hp': "heap_ok buffer h'"
    using h'(2) set hp map_of_mset(2) [OF h'(3) dist(1)] by (auto simp: heap_ok_def)
  have "map_of h i = None" using dist(2) by (simp add: map_of_eq_None_iff)
  then have rows: "buffered_rows buffer h' j = (if j = i then [] else buffered_rows buffer ((i, r) # h) j)" for j
    by (auto simp: buffered_rows_def map_of_mset(1) [OF h'(3) dist(1)])
  have "streams_ok buffer h' rest (S[i := tl (S ! i)])"
    using ok hp' c(1,5) none by (auto simp: streams_ok_def rows nth_list_update split: if_splits)
  moreover have "fst ` set h' = fst ` set ((i, r) # h) - {i}" using set dist(2) by force
  ultimately show ?thesis using h'(1) by auto
qed

text \<open>The picking loop ends and emits a run of the abstract merge.\<close>

lemma pick_loop_run:
  assumes "streams_ok buffer heap rest S" and "heap \<noteq> []"
    and "\<forall>j<length S. j \<notin> fst ` set heap \<longrightarrow> S ! j = []"
    and "\<forall>n. e = Some n \<longrightarrow> length acc < n"
  shows "\<exists>ps reset heap' S'. mi_pick_loop (compare_data cmp buffer keys) buffer e acc heap = Some (acc @ ps, reset, heap')
    \<and> ps \<noteq> [] \<and> set ps \<subseteq> entries buffer \<and> merge_run rle S (map (entry_row buffer) ps) S' \<and> streams_ok buffer heap' rest S'
    \<and> fst ` set heap' = fst ` set heap - set_option reset \<and> set_option reset \<subseteq> fst ` set heap
    \<and> (\<forall>n. e = Some n \<longrightarrow> length (acc @ ps) \<le> n)"
  using assms
proof (induction "length (concat S)" arbitrary: S heap acc rule: less_induct)
  case less
  obtain i r h where heap: "heap = (i, r) # h" using less.prems(2) by (cases heap) auto
  note ok = less.prems(1) [unfolded heap]
  have hp: "heap_ok buffer ((i, r) # h)" using ok by (simp add: streams_ok_def)
  from streams_entry [OF ok, of i r] obtain c where
    c: "i < length S" "buffered buffer i = Some c" "sc_wf c"
      "S ! i = entry_row buffer (i, r) # tl (S ! i)" by (metis list.sel(3) list.set_intros(1))
  have top: "(i, r) \<in> entries buffer" using hp by (simp add: heap_ok_def)
  have least: "\<forall>s\<in>set S. \<forall>x\<in>set s. rle (entry_row buffer (i, r)) x"
    using ok less.prems(3) by (intro root_is_least [OF hp]) (auto simp: streams_ok_def heap)
  define S1 where "S1 = S[i := tl (S ! i)]"
  have step: "merge_run rle S (entry_row buffer (i, r) # zs) T" if "merge_run rle S1 zs T" for zs T
    using merge_run.merge_emit [OF c(1,4) least that [unfolded S1_def]] .
  have go: "(case e of Some n \<Rightarrow> n \<le> length acc | None \<Rightarrow> False) = False" using less.prems(4) by (auto split: option.splits)
  have peek: "peek_pending_data heap = Some (i, r)" by (simp add: peek_pending_data_def index_at_def heap)
  obtain nxt where nxt: "next_visible_item buffer i (Some r) = Some nxt" using next_visible_item_eq [OF c(2,3)] by blast
  show ?case
  proof (cases nxt)
    case None
    from pick_pop [OF ok nxt [unfolded None]] obtain h' where
      h': "pop_pending_data (compare_data cmp buffer keys) heap = Some ((i, r), h')"
        "streams_ok buffer h' rest S1" "fst ` set h' = fst ` set heap - {i}" by (auto simp: heap S1_def)
    have "mi_pick_loop (compare_data cmp buffer keys) buffer e acc heap = Some (acc @ [(i, r)], Some i, h')"
      by (subst mi_pick_loop.simps) (simp add: go peek nxt None h'(1))
    moreover have "merge_run rle S [entry_row buffer (i, r)] S1" by (rule step) (rule merge_done)
    moreover have "\<forall>n. e = Some n \<longrightarrow> length (acc @ [(i, r)]) \<le> n" using less.prems(4) by auto
    ultimately show ?thesis using h'(2,3) top
      by (intro exI [of _ "[(i, r)]"] exI [of _ "Some i"] exI [of _ h'] exI [of _ S1]) (simp add: heap)
  next
    case (Some r')
    from pick_replace [OF ok nxt [unfolded Some]] obtain h' where
      h': "replace_pending_data (compare_data cmp buffer keys) (i, r') heap = Some ((i, r), h')"
        "streams_ok buffer h' rest S1" "fst ` set h' = fst ` set heap" by (auto simp: heap S1_def)
    have loop: "mi_pick_loop (compare_data cmp buffer keys) buffer e acc heap
        = mi_pick_loop (compare_data cmp buffer keys) buffer e (acc @ [(i, r)]) h'"
      by (subst mi_pick_loop.simps) (simp add: go peek nxt Some h'(1))
    show ?thesis
    proof (cases "e = Some (Suc (length acc))")
      case True
      have "mi_pick_loop (compare_data cmp buffer keys) buffer e (acc @ [(i, r)]) h' = Some (acc @ [(i, r)], None, h')"
        by (subst mi_pick_loop.simps) (simp add: True)
      moreover have "merge_run rle S [entry_row buffer (i, r)] S1" by (rule step) (rule merge_done)
      ultimately show ?thesis using h'(2,3) top loop True
        by (intro exI [of _ "[(i, r)]"] exI [of _ None] exI [of _ h'] exI [of _ S1]) simp
    next
      case False
      have shorter: "length (concat S1) < length (concat S)"
        using mset_concat_update [OF c(1,4)] by (metis S1_def lessI size_add_mset size_mset)
      have ne: "h' \<noteq> []" using h'(3) heap by auto
      have em: "\<forall>j<length S1. j \<notin> fst ` set h' \<longrightarrow> S1 ! j = []"
        using less.prems(3) by (auto simp: h'(3) S1_def heap nth_list_update)
      have bd: "\<forall>n. e = Some n \<longrightarrow> length (acc @ [(i, r)]) < n" using False less.prems(4) by (auto simp: Suc_le_eq nat_less_le)
      from less.hyps [OF shorter h'(2) ne em bd] obtain ps reset heap' S' where
        IH: "mi_pick_loop (compare_data cmp buffer keys) buffer e (acc @ [(i, r)]) h' = Some ((acc @ [(i, r)]) @ ps, reset, heap')"
          "set ps \<subseteq> entries buffer" "merge_run rle S1 (map (entry_row buffer) ps) S'" "streams_ok buffer heap' rest S'"
          "fst ` set heap' = fst ` set h' - set_option reset" "set_option reset \<subseteq> fst ` set h'"
          "\<forall>n. e = Some n \<longrightarrow> length ((acc @ [(i, r)]) @ ps) \<le> n"
        by blast
      then show ?thesis using loop h'(3) top step [OF IH(3)]
        by (intro exI [of _ "(i, r) # ps"] exI [of _ reset] exI [of _ heap'] exI [of _ S']) simp
    qed
  qed
qed

text \<open>The output chunk holds the picked rows.\<close>

definition buffer_ok :: "'v chunk_buffer \<Rightarrow> bool" where
  "buffer_ok buffer \<longleftrightarrow> (\<forall>c. Some c \<in> set buffer \<longrightarrow> sc_wf c \<and> length (sc_arrays c) = k)"

lemma pick_from_multiple_eq:
  assumes "\<forall>e\<in>set ps. \<exists>a. index_at arrays (fst e) = Some a \<and> pa_get a (snd e) = Some (f e)" and "pa_wf b"
  shows "\<exists>b'. pick_from_multiple d arrays ps b = Some b' \<and> pa_wf b' \<and> pa_items b' = pa_items b @ map f ps"
  using assms
proof (induction ps arbitrary: b)
  case (Cons e ps)
  then obtain a where a: "index_at arrays (fst e) = Some a" "pa_get a (snd e) = Some (f e)" by auto
  with Cons.IH [of "pa_push d (f e) b"] Cons.prems show ?case
    by (auto simp: pick_from_multiple_def split_beta)
qed (simp add: pick_from_multiple_def)

lemma mi_column_eq:
  assumes buf: "buffer_ok buffer" and ps: "set ps \<subseteq> entries buffer" and col: "col < k"
  shows "\<exists>a. mi_column d buffer ps col = Some a \<and> pa_wf a \<and> pa_items a = map (\<lambda>e. entry_row buffer e ! col) ps"
proof -
  define arrays where "arrays = map (\<lambda>chunk. case chunk of Some x \<Rightarrow> sc_arrays x ! col | None \<Rightarrow> pa_new) buffer"
  have "those (map (\<lambda>chunk. case chunk of Some x \<Rightarrow> index_at (sc_arrays x) col | None \<Rightarrow> Some pa_new) buffer) = Some arrays"
    unfolding arrays_def using buf col by (intro those_map_Some) (auto simp: buffer_ok_def index_at_def split: option.splits)
  moreover have "\<exists>a. index_at arrays (fst e) = Some a \<and> pa_get a (snd e) = Some (entry_row buffer e ! col)" if "e \<in> set ps" for e
  proof -
    obtain i r where e: "e = (i, r)" by (cases e)
    from that ps e obtain c where c: "buffered buffer i = Some c" "sc_wf c" "length (sc_arrays c) = k" "r \<in> set (visible_idx c)"
      by (auto simp: entries_def)
    have i: "i < length buffer" "buffer ! i = Some c" using c(1) by (auto simp: buffered_def)
    have mem: "sc_arrays c ! col \<in> set (sc_arrays c)" using c(3) col by simp
    have "r < pa_len (sc_arrays c ! col)" using visible_idx_bound [OF c(4)] sc_wf_arrays(2) [OF c(2) mem] by simp
    then have "pa_get (sc_arrays c ! col) r = Some (pa_items (sc_arrays c ! col) ! r)"
      using sc_wf_arrays(3) [OF c(2) mem] by (simp add: pa_get_eq)
    with i c(1,3) col e show ?thesis by (simp add: arrays_def index_at_def entry_row_def chunk_row_def)
  qed
  ultimately show ?thesis
    using pick_from_multiple_eq [of ps arrays "\<lambda>e. entry_row buffer e ! col" pa_new] by (simp add: mi_column_def)
qed

lemma output_chunk:
  assumes buf: "buffer_ok buffer" and ps: "set ps \<subseteq> entries buffer" "ps \<noteq> []"
  shows "\<exists>arrays chunk. those (map (mi_column d buffer ps) [0 ..< k]) = Some arrays \<and> sc_construct None arrays = Some (Some chunk)
    \<and> sc_wf chunk \<and> length (sc_arrays chunk) = k \<and> chunk_rows chunk = map (entry_row buffer) ps"
proof -
  have row: "length (entry_row buffer e) = k" if "e \<in> set ps" for e
    using that ps(1) by (auto simp: entries_def entry_row_def chunk_row_def)
  have "\<forall>col\<in>set [0 ..< k]. \<exists>a. mi_column d buffer ps col = Some a \<and> pa_wf a \<and> pa_items a = map (\<lambda>e. entry_row buffer e ! col) ps"
    using mi_column_eq [OF buf ps(1)] by simp
  then obtain A where A: "\<And>col. col < k \<Longrightarrow> mi_column d buffer ps col = Some (A col) \<and> pa_wf (A col)
      \<and> pa_items (A col) = map (\<lambda>e. entry_row buffer e ! col) ps" by (auto simp: Ball_def) metis
  define arrays where "arrays = map A [0 ..< k]"
  have those: "those (map (mi_column d buffer ps) [0 ..< k]) = Some arrays"
    unfolding arrays_def using A by (intro those_map_Some) auto
  have len: "pa_len (A col) = length ps" if "col < k" for col using A [OF that] length_pa_items [of "A col"] by simp
  have k: "0 < k"
  proof -
    obtain i r where "(i, r) \<in> entries buffer" using ps by (cases ps) auto
    then show ?thesis using sc_wf_arrays(1) by (auto simp: entries_def)
  qed
  define chunk where "chunk = \<lparr>sc_visibility = None, sc_arrays = arrays, sc_cardinality = length ps\<rparr>"
  have con: "sc_construct None arrays = Some (Some chunk)"
    using k len ps(2) by (auto simp: sc_construct_def arrays_def chunk_def index_at_def rust_assert_def)
  have wf: "sc_wf chunk" using con A by (auto simp: sc_wf_def chunk_def arrays_def)
  have "chunk_rows chunk = map (entry_row buffer) ps"
  proof (rule nth_equalityI)
    show "length (chunk_rows chunk) = length (map (entry_row buffer) ps)"
      using k len by (simp add: chunk_rows_def visible_idx_def chunk_def arrays_def)
    fix t assume "t < length (chunk_rows chunk)"
    then have t: "t < length ps" using k len by (simp add: chunk_rows_def visible_idx_def chunk_def arrays_def)
    have "chunk_rows chunk ! t = map (\<lambda>col. entry_row buffer (ps ! t) ! col) [0 ..< k]"
      using t k len A by (simp add: chunk_rows_def visible_idx_def chunk_def arrays_def chunk_row_def)
    also have "\<dots> = entry_row buffer (ps ! t)" using row [of "ps ! t"] t by (simp add: map_nth_eq)
    finally show "chunk_rows chunk ! t = map (entry_row buffer) ps ! t" using t by simp
  qed
  with those con wf show ?thesis by (auto simp: chunk_def arrays_def)
qed

text \<open>The invariant of the iterator: \<open>S ! i\<close> are the rows of source \<open>i\<close> not yet emitted.\<close>

definition mi_ok :: "('s, 'v) merge_iter \<Rightarrow> 'v option list list list \<Rightarrow> bool" where
  "mi_ok m S \<longleftrightarrow> mi_sort_key_idx m = keys \<and> length (mi_iters m) = length (mi_chunk_buffer m)
     \<and> length (mi_has_finished m) = length (mi_chunk_buffer m) \<and> buffer_ok (mi_chunk_buffer m)
     \<and> fst ` set (mi_pending_heap m) = {i. i < length (mi_chunk_buffer m) \<and> mi_chunk_buffer m ! i \<noteq> None}
     \<and> (\<exists>rest. streams_ok (mi_chunk_buffer m) (mi_pending_heap m) rest S
          \<and> (\<forall>i<length (mi_chunk_buffer m). pending (mi_iters m ! i) (rest i) \<and> (mi_has_finished m ! i \<longrightarrow> rest i = [])))"

lemma entry_row_update: "fst e \<noteq> i \<Longrightarrow> entry_row (buffer[i := x]) e = entry_row buffer e"
  by (simp add: entry_row_def buffered_def index_at_def)

lemma heap_ok_update:
  assumes hp: "heap_ok buffer heap" and i: "i \<notin> fst ` set heap"
  shows "heap_ok (buffer[i := x]) heap"
proof -
  have ne: "fst f \<noteq> i" if "f \<in> set heap" for f using that i by auto
  have "set heap \<subseteq> entries (buffer[i := x])"
    using hp ne by (fastforce simp: heap_ok_def entries_def buffered_def index_at_def)
  moreover have "heap_prop (entry_le (buffer[i := x])) heap"
    using hp heap_prop_cong [of heap "entry_le buffer" "entry_le (buffer[i := x])"] ne
    by (simp add: heap_ok_def entry_le_def entry_row_update)
  ultimately show ?thesis using hp by (simp add: heap_ok_def)
qed

lemma streams_reset:
  assumes st: "streams_ok buffer heap rest S" and i: "i \<notin> fst ` set heap"
  shows "streams_ok (buffer[i := x]) heap rest S"
proof -
  have "map_of heap i = None" using i by (simp add: map_of_eq_None_iff)
  then have "buffered_rows (buffer[i := x]) heap j = buffered_rows buffer heap j" for j
    by (cases "j = i") (auto simp: buffered_rows_def split: option.split)
  with st heap_ok_update [OF _ i, of buffer x] show ?thesis by (auto simp: streams_ok_def)
qed

lemma fill_source:
  assumes ok: "mi_ok m S" and i: "i < length (mi_chunk_buffer m)" and none: "mi_chunk_buffer m ! i = None" and e: "e \<noteq> Some 0"
  shows "(\<exists>m1 nxt heap. request_fill_buffer N i e m = Some (Inr (True, m1))
        \<and> next_visible_item (mi_chunk_buffer m1) i None = Some (Some nxt)
        \<and> mi_sort_key_idx m1 = keys
        \<and> add_pending_data (compare_data cmp (mi_chunk_buffer m1) keys) (i, nxt) (mi_pending_heap m1) = Some heap
        \<and> mi_ok (m1\<lparr>mi_pending_heap := heap\<rparr>) S \<and> (\<exists>c. mi_chunk_buffer m1 = (mi_chunk_buffer m)[i := Some c]))
    \<or> (\<exists>m1. request_fill_buffer N i e m = Some (Inr (False, m1)) \<and> mi_ok m1 S \<and> mi_chunk_buffer m1 = mi_chunk_buffer m \<and> S ! i = [])"
proof -
  define buffer where "buffer = mi_chunk_buffer m"
  define heap where "heap = mi_pending_heap m"
  from ok obtain rest where len: "length (mi_iters m) = length buffer" "length (mi_has_finished m) = length buffer"
    and key: "mi_sort_key_idx m = keys" and buf: "buffer_ok buffer"
    and keys: "fst ` set heap = {i. i < length buffer \<and> buffer ! i \<noteq> None}"
    and st: "streams_ok buffer heap rest S"
    and pend: "\<And>i. i < length buffer \<Longrightarrow> pending (mi_iters m ! i) (rest i)" "\<And>i. i < length buffer \<Longrightarrow> mi_has_finished m ! i \<Longrightarrow> rest i = []"
    by (auto simp: mi_ok_def buffer_def heap_def)
  have i: "i < length buffer" "buffer ! i = None" using i none by (simp_all add: buffer_def)
  have out: "i \<notin> fst ` set heap" "map_of heap i = None" using keys i by (auto simp: map_of_eq_None_iff)
  have Si: "S ! i = rest i" using st i out(2) by (simp add: streams_ok_def buffered_rows_def)
  show ?thesis
  proof (cases "mi_has_finished m ! i")
    case True
    then have "request_fill_buffer N i e m = Some (Inr (False, m))"
      using len i by (simp add: request_fill_buffer_def index_at_def)
    with ok Si pend(2) [OF i(1) True] show ?thesis by auto
  next
    case False
    from pend(1) [OF i(1)] e show ?thesis
    proof (cases rule: next_cases)
      case (finished s')
      define m1 where "m1 = m\<lparr>mi_iters := (mi_iters m)[i := s'], mi_has_finished := (mi_has_finished m)[i := True]\<rparr>"
      have "request_fill_buffer N i e m = Some (Inr (False, m1))"
        using len i False finished(1) by (simp add: request_fill_buffer_def index_at_def m1_def)
      moreover have "mi_ok m1 S"
        using len key buf keys st pend i finished
        by (auto simp: mi_ok_def m1_def nth_list_update buffer_def [symmetric] heap_def [symmetric] intro!: exI [of _ rest])
      ultimately show ?thesis using Si finished(2) by (auto simp: m1_def)
    next
      case (chunk c s' r)
      define buffer1 where "buffer1 = buffer[i := Some c]"
      define m1 where "m1 = m\<lparr>mi_iters := (mi_iters m)[i := s'], mi_chunk_buffer := buffer1\<rparr>"
      have "request_fill_buffer N i e m = Some (Inr (True, m1))"
        using len i False chunk(1) by (simp add: request_fill_buffer_def index_at_def m1_def buffer1_def buffer_def)
      moreover have bi: "buffered buffer1 i = Some c" using i by (simp add: buffered_def index_at_def buffer1_def)
      obtain x xs where x: "visible_idx c = x # xs" using visible_idx_nonempty [OF chunk(2)] by (cases "visible_idx c") auto
      have "next_visible_item buffer1 i None = Some (Some x)"
        using next_visible_item_eq [OF bi chunk(2), of None] x by simp
      moreover have hp: "heap_ok buffer heap" using st by (simp add: streams_ok_def)
      have hp1: "heap_ok buffer1 heap" using heap_ok_update [OF hp out(1)] by (simp add: buffer1_def)
      then have sub: "set heap \<subseteq> entries buffer1" by (simp add: heap_ok_def)
      have "heap_prop (entry_le buffer1) heap" using hp1 by (simp add: heap_ok_def)
      moreover have xe: "(i, x) \<in> entries buffer1" using bi chunk(2,3) x by (simp add: entries_def)
      ultimately obtain heap1 where h1: "add_pending_data (compare_data cmp buffer1 keys) (i, x) heap = Some heap1"
          "heap_prop (entry_le buffer1) heap1" "mset heap1 = mset ((i, x) # heap)"
        using heap.add_pending [of buffer1 heap "(i, x)"] sub by auto
      have dist: "distinct (map fst ((i, x) # heap))" using hp out(1) by (simp add: heap_ok_def)
      note mo = map_of_mset [OF h1(3) dist]
      have set: "set heap1 = insert (i, x) (set heap)" using mset_eq_setD [OF h1(3)] by simp
      have rows: "buffered_rows buffer1 heap1 j = (if j = i then chunk_rows c else buffered_rows buffer heap j)" for j
        using i rows_from_first [OF chunk(2) x] by (auto simp: buffered_rows_def mo(1) buffer1_def split: option.split)
      define rest1 where "rest1 = rest(i := r)"
      have "streams_ok buffer1 heap1 rest1 S"
        using st h1(2) set sub xe mo(2) Si chunk(4)
        by (auto simp: streams_ok_def heap_ok_def rows rest1_def) (simp add: buffer1_def)
      moreover have "buffer_ok buffer1"
        using buf chunk(2,3) set_update_subset_insert [of buffer i "Some c"] by (auto simp: buffer_ok_def buffer1_def)
      moreover have "fst ` set heap1 = {i. i < length buffer1 \<and> buffer1 ! i \<noteq> None}"
        using keys i by (auto simp: set buffer1_def nth_list_update)
      ultimately have "mi_ok (m1\<lparr>mi_pending_heap := heap1\<rparr>) S"
        using len key pend chunk(5) False unfolding mi_ok_def
        by (auto simp: m1_def buffer1_def rest1_def nth_list_update intro!: exI [of _ rest1])
      with \<open>request_fill_buffer N i e m = Some (Inr (True, m1))\<close> \<open>next_visible_item buffer1 i None = Some (Some x)\<close> h1(1) key
      show ?thesis
        by (intro disjI1 exI [of _ m1] exI [of _ x] exI [of _ heap1]) (auto simp: m1_def buffer1_def buffer_def heap_def)
    qed
  qed
qed

lemma fill_all:
  assumes "mi_ok m S" and "e \<noteq> Some 0" and "\<forall>i\<in>set idxs. i < length (mi_chunk_buffer m)"
    and "\<forall>i. ref = Some i \<longrightarrow> i < length (mi_chunk_buffer m) \<and> mi_chunk_buffer m ! i \<noteq> None"
  shows "\<exists>ref' m'. mi_fill cmp N e idxs ref m = Some (Inr (ref', m')) \<and> mi_ok m' S
    \<and> length (mi_chunk_buffer m') = length (mi_chunk_buffer m)
    \<and> (\<forall>i<length (mi_chunk_buffer m). mi_chunk_buffer m ! i \<noteq> None \<longrightarrow> mi_chunk_buffer m' ! i \<noteq> None)
    \<and> (\<forall>i\<in>set idxs. mi_chunk_buffer m' ! i = None \<longrightarrow> S ! i = [])
    \<and> (\<forall>i. ref' = Some i \<longrightarrow> i < length (mi_chunk_buffer m') \<and> mi_chunk_buffer m' ! i \<noteq> None)
    \<and> ((\<exists>i<length (mi_chunk_buffer m). mi_chunk_buffer m ! i = None \<and> mi_chunk_buffer m' ! i \<noteq> None)
         \<or> (\<exists>i\<in>set idxs. mi_chunk_buffer m ! i \<noteq> None) \<or> ref \<noteq> None \<longrightarrow> ref' \<noteq> None)"
  using assms
proof (induction idxs arbitrary: ref m)
  case (Cons i idxs)
  have i: "i < length (mi_chunk_buffer m)" using Cons.prems(3) by simp
  show ?case
  proof (cases "mi_chunk_buffer m ! i")
    case (Some c)
    from Cons.IH [OF Cons.prems(1,2), of "Some i"] Cons.prems(3) i Some obtain ref' m' where
      r: "mi_fill cmp N e idxs (Some i) m = Some (Inr (ref', m'))" "mi_ok m' S"
        "length (mi_chunk_buffer m') = length (mi_chunk_buffer m)"
        "\<forall>i<length (mi_chunk_buffer m). mi_chunk_buffer m ! i \<noteq> None \<longrightarrow> mi_chunk_buffer m' ! i \<noteq> None"
        "\<forall>i\<in>set idxs. mi_chunk_buffer m' ! i = None \<longrightarrow> S ! i = []"
        "\<forall>i. ref' = Some i \<longrightarrow> i < length (mi_chunk_buffer m') \<and> mi_chunk_buffer m' ! i \<noteq> None" "ref' \<noteq> None" by auto
    have "mi_fill cmp N e (i # idxs) ref m = Some (Inr (ref', m'))" using r(1) i Some by (simp add: index_at_def)
    moreover have "mi_chunk_buffer m' ! i \<noteq> None" using r(4) i Some by simp
    ultimately show ?thesis using r by auto
  next
    case None
    from fill_source [OF Cons.prems(1) i None Cons.prems(2)] show ?thesis
    proof (elim disjE exE conjE)
      fix m1 nxt heap c
      assume f: "request_fill_buffer N i e m = Some (Inr (True, m1))" "next_visible_item (mi_chunk_buffer m1) i None = Some (Some nxt)"
        "mi_sort_key_idx m1 = keys"
        "add_pending_data (compare_data cmp (mi_chunk_buffer m1) keys) (i, nxt) (mi_pending_heap m1) = Some heap"
        "mi_ok (m1\<lparr>mi_pending_heap := heap\<rparr>) S" "mi_chunk_buffer m1 = (mi_chunk_buffer m)[i := Some c]"
      define m2 where "m2 = m1\<lparr>mi_pending_heap := heap\<rparr>"
      have buf: "mi_chunk_buffer m2 = (mi_chunk_buffer m)[i := Some c]" "mi_ok m2 S" using f(5,6) by (simp_all add: m2_def)
      from Cons.IH [OF buf(2) Cons.prems(2), of "Some i"] Cons.prems(3) i buf(1) obtain ref' m' where
        r: "mi_fill cmp N e idxs (Some i) m2 = Some (Inr (ref', m'))" "mi_ok m' S"
          "length (mi_chunk_buffer m') = length (mi_chunk_buffer m)"
          "\<forall>j<length (mi_chunk_buffer m). (mi_chunk_buffer m)[i := Some c] ! j \<noteq> None \<longrightarrow> mi_chunk_buffer m' ! j \<noteq> None"
          "\<forall>i\<in>set idxs. mi_chunk_buffer m' ! i = None \<longrightarrow> S ! i = []"
          "\<forall>i. ref' = Some i \<longrightarrow> i < length (mi_chunk_buffer m') \<and> mi_chunk_buffer m' ! i \<noteq> None" "ref' \<noteq> None" by auto
      have "mi_fill cmp N e (i # idxs) ref m = Some (Inr (ref', m'))"
        using r(1) i None f(1-4) by (simp add: index_at_def m2_def)
      moreover have "mi_chunk_buffer m' ! i \<noteq> None" using r(4) i by simp
      moreover have "\<forall>j<length (mi_chunk_buffer m). mi_chunk_buffer m ! j \<noteq> None \<longrightarrow> mi_chunk_buffer m' ! j \<noteq> None"
        using r(4) None by (metis nth_list_update_neq)
      ultimately show ?thesis using r by auto
    next
      fix m1
      assume f: "request_fill_buffer N i e m = Some (Inr (False, m1))" "mi_ok m1 S" "mi_chunk_buffer m1 = mi_chunk_buffer m" "S ! i = []"
      from Cons.IH [OF f(2) Cons.prems(2), of ref] Cons.prems(3,4) f(3) obtain ref' m' where
        r: "mi_fill cmp N e idxs ref m1 = Some (Inr (ref', m'))" "mi_ok m' S"
          "length (mi_chunk_buffer m') = length (mi_chunk_buffer m)"
          "\<forall>i<length (mi_chunk_buffer m). mi_chunk_buffer m ! i \<noteq> None \<longrightarrow> mi_chunk_buffer m' ! i \<noteq> None"
          "\<forall>i\<in>set idxs. mi_chunk_buffer m' ! i = None \<longrightarrow> S ! i = []"
          "\<forall>i. ref' = Some i \<longrightarrow> i < length (mi_chunk_buffer m') \<and> mi_chunk_buffer m' ! i \<noteq> None"
          "(\<exists>i<length (mi_chunk_buffer m). mi_chunk_buffer m ! i = None \<and> mi_chunk_buffer m' ! i \<noteq> None)
            \<or> (\<exists>i\<in>set idxs. mi_chunk_buffer m ! i \<noteq> None) \<or> ref \<noteq> None \<longrightarrow> ref' \<noteq> None" by auto
      have "mi_fill cmp N e (i # idxs) ref m = Some (Inr (ref', m'))" using r(1) i None f(1) by (simp add: index_at_def)
      then show ?thesis using r f(4) None by (intro exI [of _ ref'] exI [of _ m']) simp
    qed
  qed
qed auto

text \<open>One batch: a non-empty run of the abstract merge, or the end.\<close>

lemma mi_next_batch_run:
  assumes ok: "mi_ok m S" and e: "e \<noteq> Some 0"
  shows "(\<exists>c m' S'. mi_next_batch d cmp N e m = Some (Inr (Some c, m')) \<and> sc_wf c \<and> length (sc_arrays c) = k
          \<and> merge_run rle S (chunk_rows c) S' \<and> mi_ok m' S' \<and> (\<forall>n. e = Some n \<longrightarrow> length (chunk_rows c) \<le> n))
    \<or> (\<exists>m'. mi_next_batch d cmp N e m = Some (Inr (None, m')) \<and> concat S = [] \<and> mi_ok m' S)"
proof -
  have len: "length (mi_iters m) = length (mi_chunk_buffer m)" using ok by (simp add: mi_ok_def)
  define n where "n = length (mi_chunk_buffer m)"
  from fill_all [OF ok e, of "[0 ..< n]" None] obtain ref m1 where
    f: "mi_fill cmp N e [0 ..< n] None m = Some (Inr (ref, m1))" "mi_ok m1 S" "length (mi_chunk_buffer m1) = n"
      "\<forall>i<n. mi_chunk_buffer m1 ! i = None \<longrightarrow> S ! i = []"
      "\<forall>i. ref = Some i \<longrightarrow> i < n \<and> mi_chunk_buffer m1 ! i \<noteq> None"
      "(\<exists>i<n. mi_chunk_buffer m ! i = None \<and> mi_chunk_buffer m1 ! i \<noteq> None) \<or> (\<exists>i<n. mi_chunk_buffer m ! i \<noteq> None) \<longrightarrow> ref \<noteq> None"
    unfolding n_def by (auto simp: Ball_def Bex_def)
  define buffer where "buffer = mi_chunk_buffer m1"
  define heap where "heap = mi_pending_heap m1"
  from f(2) obtain rest where m1: "length (mi_iters m1) = n" "length (mi_has_finished m1) = n" "mi_sort_key_idx m1 = keys" "buffer_ok buffer"
    "fst ` set heap = {i. i < n \<and> buffer ! i \<noteq> None}" "streams_ok buffer heap rest S"
    "\<And>i. i < n \<Longrightarrow> pending (mi_iters m1 ! i) (rest i)" "\<And>i. i < n \<Longrightarrow> mi_has_finished m1 ! i \<Longrightarrow> rest i = []"
    using f(3) by (auto simp: mi_ok_def buffer_def heap_def)
  have Sn: "length S = n" using m1(6) f(3) by (simp add: streams_ok_def buffer_def)
  have empty: "\<forall>j<length S. j \<notin> fst ` set heap \<longrightarrow> S ! j = []" using m1(5) f(4) Sn by (auto simp: buffer_def)
  show ?thesis
  proof (cases "heap = []")
    case True
    then have "mi_next_batch d cmp N e m = Some (Inr (None, m1))"
      using f(1) len by (simp add: mi_next_batch_def n_def heap_def)
    moreover have "concat S = []" using empty True by (auto simp: in_set_conv_nth)
    ultimately show ?thesis using f(2) by auto
  next
    case False
    then obtain x xs where "heap = x # xs" by (cases heap) auto
    then have "fst x \<in> fst ` set heap" by simp
    then have i: "fst x < n" "buffer ! fst x \<noteq> None" unfolding m1(5) by simp_all
    then have "ref \<noteq> None" using f(6) by (auto simp: buffer_def)
    then obtain j where j: "ref = Some j" "j < n" "buffer ! j \<noteq> None" using f(5) by (auto simp: buffer_def)
    then obtain cj where bj: "buffer ! j = Some cj" by auto
    have cj: "buffered buffer j = Some cj" "Some cj \<in> set buffer"
      using bj j(2) f(3) nth_mem [of j buffer] by (simp_all add: buffered_def index_at_def buffer_def)
    then have k: "length (sc_arrays cj) = k" using m1(4) by (simp add: buffer_ok_def)
    have "\<forall>n. e = Some n \<longrightarrow> length ([] :: (nat \<times> nat) list) < n" using e by auto
    from pick_loop_run [OF m1(6) False empty this] obtain ps reset heap' S' where
      p: "mi_pick_loop (compare_data cmp buffer keys) buffer e [] heap = Some (ps, reset, heap')" "ps \<noteq> []" "set ps \<subseteq> entries buffer"
        "merge_run rle S (map (entry_row buffer) ps) S'" "streams_ok buffer heap' rest S'"
        "fst ` set heap' = fst ` set heap - set_option reset" "set_option reset \<subseteq> fst ` set heap" "\<forall>n. e = Some n \<longrightarrow> length ps \<le> n"
      by auto
    from output_chunk [OF m1(4) p(3,2)] obtain arrays c where
      c: "those (map (mi_column d buffer ps) [0 ..< k]) = Some arrays" "sc_construct None arrays = Some (Some c)"
        "sc_wf c" "length (sc_arrays c) = k" "chunk_rows c = map (entry_row buffer) ps" by blast
    define buffer' where "buffer' = (case reset of Some i \<Rightarrow> buffer[i := None] | None \<Rightarrow> buffer)"
    define m' where "m' = m1\<lparr>mi_pending_heap := heap', mi_chunk_buffer := buffer'\<rparr>"
    have "mi_next_batch d cmp N e m = Some (Inr (Some c, m'))"
      using f(1) len False j(1) m1(3) p(1) cj(1) k c(1,2)
      by (simp add: mi_next_batch_def n_def heap_def buffer_def m'_def buffer'_def cong: option.case_cong)
    moreover have "mi_ok m' S'"
    proof -
      have "streams_ok buffer' heap' rest S'"
        using p(5,6) streams_reset [OF p(5)] by (auto simp: buffer'_def split: option.split)
      moreover have "buffer_ok buffer'"
        using m1(4) set_update_subset_insert [of buffer _ None] by (fastforce simp: buffer_ok_def buffer'_def split: option.splits)
      moreover have "fst ` set heap' = {i. i < length buffer' \<and> buffer' ! i \<noteq> None}"
      proof (cases reset)
        case None
        then show ?thesis unfolding p(6) m1(5) using f(3) by (simp add: buffer'_def buffer_def)
      next
        case (Some i)
        have "i < length buffer" using p(7) m1(5) f(3) Some by (auto simp: buffer_def)
        then show ?thesis unfolding p(6) m1(5) using f(3) Some by (auto simp: buffer'_def buffer_def nth_list_update split: if_splits)
      qed
      moreover have "length buffer' = n" using f(3) by (simp add: buffer'_def buffer_def split: option.split)
      ultimately show ?thesis using m1(1-3,7,8) unfolding mi_ok_def by (auto simp: m'_def intro!: exI [of _ rest])
    qed
    ultimately show ?thesis using c p(4,8) by auto
  qed
qed


lemma mi_new_ok:
  assumes "list_all2 pending iters S" and "\<forall>s\<in>set S. sorted_wrt rle s"
  shows "mi_ok (mi_new iters keys) S"
  using assms
  by (auto simp: mi_ok_def mi_new_def buffer_ok_def streams_ok_def heap_ok_def heap_prop_def buffered_rows_def
      list_all2_conv_all_nth intro!: exI [of _ "(!) S"])

lemma mi_scan:
  "mi_ok m S \<Longrightarrow> e \<noteq> Some 0 \<Longrightarrow> length (concat S) < fuel \<Longrightarrow>
   \<exists>rows T. scan_all fuel (mi_next_batch d cmp N) e m = Some (Inr rows) \<and> merge_run rle S rows T \<and> concat T = []"
proof (induction fuel arbitrary: m S)
  case (Suc fuel)
  from mi_next_batch_run [OF Suc.prems(1,2)] show ?case
  proof (elim disjE exE conjE)
    fix c m' S'
    assume b: "mi_next_batch d cmp N e m = Some (Inr (Some c, m'))" "sc_wf c" "merge_run rle S (chunk_rows c) S'" "mi_ok m' S'"
    from to_data_chunk_rows [OF b(2)] obtain arrs where
      arrs: "to_data_chunk c = Some arrs" "data_rows arrs = chunk_rows c" by blast
    have "chunk_rows c \<noteq> []" using visible_idx_nonempty [OF b(2)] by (simp add: chunk_rows_def)
    moreover have "length (concat S) = length (chunk_rows c) + length (concat S')"
      using merge_run_mset [OF b(3)] by (metis size_mset size_union)
    ultimately have "length (concat S') < fuel" using Suc.prems(3) by (cases "chunk_rows c") auto
    from Suc.IH [OF b(4) Suc.prems(2) this] obtain rows T where
      "scan_all fuel (mi_next_batch d cmp N) e m' = Some (Inr rows)" "merge_run rle S' rows T" "concat T = []" by blast
    with b(1) arrs merge_run_trans [OF b(3)] show ?thesis
      by (intro exI [of _ "chunk_rows c @ rows"] exI [of _ T]) simp
  next
    fix m' assume "mi_next_batch d cmp N e m = Some (Inr (None, m'))" "concat S = []"
    then show ?thesis by (intro exI [of _ "[]"] exI [of _ S]) (simp add: merge_done)
  qed
qed simp

theorem sorted_scan:
  assumes "list_all2 pending iters S" and "\<forall>s\<in>set S. sorted_wrt rle s" and "e \<noteq> Some 0" and "length (concat S) < fuel"
  shows "\<exists>rows. scan_all fuel (mi_next_batch d cmp N) e (mi_new iters keys) = Some (Inr rows)
    \<and> sorted_wrt rle rows \<and> mset rows = mset (concat S)"
proof -
  from mi_scan [OF mi_new_ok [OF assms(1,2)] assms(3,4)] obtain rows T where
    "scan_all fuel (mi_next_batch d cmp N) e (mi_new iters keys) = Some (Inr rows)" "merge_run rle S rows T" "concat T = []" by blast
  with merge_run_sorted merge_run_mset show ?thesis by fastforce
qed

end

end
