(* ===== verification/Values.thy ===== *)
theory Values
  imports Types Intervals "HOL-Library.Product_Lexorder" "HOL-Library.List_Lexorder"
begin

text \<open>
  Dates (\<open>types/date.rs\<close>) and SQL values (\<open>types/value.rs\<close>) with their order, arithmetic and the small
  predicates on them. Integers are unbounded and every operation checks the width of its result, as
  the code does with overflow checks on. A double is its bit pattern; its order is the one of
  \<open>OrderedFloat\<close>: numeric, the two zeros equal, every NaN equal to every other and above all numbers.
  A string is its bytes. The decimals, the calendar and the arithmetic of doubles come from outside:
  they are the type \<open>'d\<close> with its linear order and the fields of the record \<open>ext_ops\<close>.
\<close>

section \<open>Dates\<close>

text \<open>The calendar package: days from the common era to a proleptic Gregorian date and back; \<open>None\<close> when
  there is no such date.\<close>

record calendar =
  cal_from_days :: "int \<Rightarrow> (int \<times> int \<times> int) option"
  cal_from_ymd :: "int \<Rightarrow> int \<Rightarrow> int \<Rightarrow> int option"

definition UNIX_EPOCH_DAYS :: int where
  "UNIX_EPOCH_DAYS = 719163"

definition date_ymd :: "calendar \<Rightarrow> int \<Rightarrow> (int \<times> int \<times> int) option" where
  "date_ymd cal d = do { n \<leftarrow> i32_check (d + UNIX_EPOCH_DAYS); cal_from_days cal n }"

definition date_year :: "calendar \<Rightarrow> int \<Rightarrow> int option" where
  "date_year cal d = map_option fst (date_ymd cal d)"

definition date_month :: "calendar \<Rightarrow> int \<Rightarrow> int option" where
  "date_month cal d = map_option (fst \<circ> snd) (date_ymd cal d)"

definition date_day :: "calendar \<Rightarrow> int \<Rightarrow> int option" where
  "date_day cal d = map_option (snd \<circ> snd) (date_ymd cal d)"

definition is_leap_year :: "int \<Rightarrow> bool" where
  "is_leap_year year \<longleftrightarrow> trunc_mod year 4 = 0 \<and> (trunc_mod year 100 \<noteq> 0 \<or> trunc_mod year 400 = 0)"

definition get_month_days :: "int \<Rightarrow> nat \<Rightarrow> int option" where
  "get_month_days year month =
     index_at (if is_leap_year year then [0, 31, 29, 31, 30, 31, 30, 31, 31, 30, 31, 30, 31]
               else [0, 31, 28, 31, 30, 31, 30, 31, 31, 30, 31, 30, 31]) month"

text \<open>The month carried into the range from 1 to 12.\<close>

definition carry_month :: "int \<Rightarrow> int \<Rightarrow> int \<times> int" where
  "carry_month year month =
     (if month > 12 then (year + 1, month - 12) else if month \<le> 0 then (year - 1, month + 12) else (year, month))"

definition date_add :: "calendar \<Rightarrow> int \<Rightarrow> interval \<Rightarrow> int option" where
  "date_add cal d rhs = do {
     dd \<leftarrow> i32_check (d + days rhs);
     (y, m, day) \<leftarrow> date_ymd cal dd;
     month \<leftarrow> i32_check (m + months rhs);
     year \<leftarrow> i32_check (y + years rhs);
     let (year, month) = carry_month year month;
     rust_assert (1 \<le> month \<and> month \<le> 12);
     limit \<leftarrow> get_month_days year (nat month);
     n \<leftarrow> cal_from_ymd cal year month (min day limit);
     i32_check (n - UNIX_EPOCH_DAYS) }"

definition date_sub :: "calendar \<Rightarrow> int \<Rightarrow> interval \<Rightarrow> int option" where
  "date_sub cal d rhs = do { neg \<leftarrow> interval_neg rhs; date_add cal d neg }"

section \<open>Values\<close>

datatype 'd data_value =
    VNull
  | VBool bool
  | VInt16 int
  | VInt32 int
  | VInt64 int
  | VFloat64 u64
  | VString "byte list"
  | VBlob "byte list"
  | VDecimal 'd
  | VDate int
  | VTimestamp int
  | VTimestampTz int
  | VInterval interval
  | VVector "u64 list"

datatype arith_op = OpAdd | OpSub | OpMul | OpDiv | OpRem

record 'd ext_ops =
  xf_arith :: "arith_op \<Rightarrow> u64 \<Rightarrow> u64 \<Rightarrow> u64"
  xf_to_usize :: "u64 \<Rightarrow> nat option"
  xd_arith :: "arith_op \<Rightarrow> 'd \<Rightarrow> 'd \<Rightarrow> 'd option"
  xd_is_zero :: "'d \<Rightarrow> bool"
  xd_is_sign_positive :: "'d \<Rightarrow> bool"
  xd_to_usize :: "'d \<Rightarrow> nat option"
  x_calendar :: calendar

text \<open>Doubles: sign, magnitude and the key of the order.\<close>

definition f64_negative :: "u64 \<Rightarrow> bool" where
  "f64_negative w \<longleftrightarrow> bit w 63"

definition f64_magnitude :: "u64 \<Rightarrow> int" where
  "f64_magnitude w = uint (and w 0x7FFFFFFFFFFFFFFF)"

definition f64_is_nan :: "u64 \<Rightarrow> bool" where
  "f64_is_nan w \<longleftrightarrow> f64_magnitude w > 0x7FF0000000000000"

definition f64_key :: "u64 \<Rightarrow> int" where
  "f64_key w = (if f64_is_nan w then 2 ^ 63 else if f64_negative w then - f64_magnitude w else f64_magnitude w)"

text \<open>The derived order: first the position of the variant, then the payload.\<close>

fun variant_index :: "'d data_value \<Rightarrow> nat" where
  "variant_index VNull = 0" | "variant_index (VBool _) = 1" | "variant_index (VInt16 _) = 2"
| "variant_index (VInt32 _) = 3" | "variant_index (VInt64 _) = 4" | "variant_index (VFloat64 _) = 5"
| "variant_index (VString _) = 6" | "variant_index (VBlob _) = 7" | "variant_index (VDecimal _) = 8"
| "variant_index (VDate _) = 9" | "variant_index (VTimestamp _) = 10" | "variant_index (VTimestampTz _) = 11"
| "variant_index (VInterval _) = 12" | "variant_index (VVector _) = 13"

fun payload_key :: "'d data_value \<Rightarrow> int list" where
  "payload_key VNull = []"
| "payload_key (VBool b) = [of_bool b]"
| "payload_key (VInt16 i) = [i]"
| "payload_key (VInt32 i) = [i]"
| "payload_key (VInt64 i) = [i]"
| "payload_key (VFloat64 w) = [f64_key w]"
| "payload_key (VString bs) = map uint bs"
| "payload_key (VBlob bs) = map uint bs"
| "payload_key (VDecimal _) = []"
| "payload_key (VDate i) = [i]"
| "payload_key (VTimestamp i) = [i]"
| "payload_key (VTimestampTz i) = [i]"
| "payload_key (VInterval v) = [iv_months v, iv_days v, iv_ms v]"
| "payload_key (VVector ws) = map f64_key ws"

definition value_cmp :: "'d::linorder data_value \<Rightarrow> 'd data_value \<Rightarrow> cmp_ordering" where
  "value_cmp a b =
     (case (a, b) of
        (VDecimal x, VDecimal y) \<Rightarrow> cmp_of x y
      | _ \<Rightarrow> cmp_of (variant_index a, payload_key a) (variant_index b, payload_key b))"

definition value_le :: "'d::linorder data_value \<Rightarrow> 'd data_value \<Rightarrow> bool" where
  "value_le a b \<longleftrightarrow> value_cmp a b \<noteq> Greater"

text \<open>The value an array returns for an item: a missing item is \<open>Null\<close>.\<close>

definition value_of :: "'d data_value option \<Rightarrow> 'd data_value" where
  "value_of v = (case v of Some v \<Rightarrow> v | None \<Rightarrow> VNull)"

definition item_cmp :: "'d::linorder data_value option \<Rightarrow> 'd data_value option \<Rightarrow> cmp_ordering option" where
  "item_cmp a b = Some (value_cmp (value_of a) (value_of b))"

definition item_le :: "'d::linorder data_value option \<Rightarrow> 'd data_value option \<Rightarrow> bool" where
  "item_le a b \<longleftrightarrow> value_le (value_of a) (value_of b)"

section \<open>Arithmetic and predicates\<close>

definition int_arith :: "(int \<Rightarrow> int option) \<Rightarrow> arith_op \<Rightarrow> int \<Rightarrow> int \<Rightarrow> int option" where
  "int_arith check op x y =
     (case op of
        OpAdd \<Rightarrow> check (x + y)
      | OpSub \<Rightarrow> check (x - y)
      | OpMul \<Rightarrow> check (x * y)
      | OpDiv \<Rightarrow> if y = 0 then None else check (trunc_div x y)
      | OpRem \<Rightarrow> if y = 0 then None else do { _ \<leftarrow> check (trunc_div x y); Some (trunc_mod x y) })"

definition i64_check :: "int \<Rightarrow> int option" where
  "i64_check x = (if - (2 ^ 63) \<le> x \<and> x < 2 ^ 63 then Some x else None)"

definition value_arith :: "'d ext_ops \<Rightarrow> arith_op \<Rightarrow> 'd data_value \<Rightarrow> 'd data_value \<Rightarrow> 'd data_value option" where
  "value_arith X op a b =
     (case (a, b) of
        (VNull, _) \<Rightarrow> Some VNull
      | (_, VNull) \<Rightarrow> Some VNull
      | (VInt32 x, VInt32 y) \<Rightarrow> map_option VInt32 (int_arith i32_check op x y)
      | (VInt64 x, VInt64 y) \<Rightarrow> map_option VInt64 (int_arith i64_check op x y)
      | (VFloat64 x, VFloat64 y) \<Rightarrow> Some (VFloat64 (xf_arith X op x y))
      | (VDecimal x, VDecimal y) \<Rightarrow> map_option VDecimal (xd_arith X op x y)
      | (VDate x, VInterval y) \<Rightarrow>
          (case op of
             OpAdd \<Rightarrow> map_option VDate (date_add (x_calendar X) x y)
           | OpSub \<Rightarrow> map_option VDate (date_sub (x_calendar X) x y)
           | _ \<Rightarrow> None)
      | _ \<Rightarrow> None)"

definition is_null :: "'d data_value \<Rightarrow> bool" where
  "is_null v \<longleftrightarrow> (case v of VNull \<Rightarrow> True | _ \<Rightarrow> False)"

definition f64_is_zero :: "u64 \<Rightarrow> bool" where
  "f64_is_zero w \<longleftrightarrow> f64_magnitude w = 0"

text \<open>The remainder of the smallest integer by \<open>-1\<close> overflows.\<close>

definition is_divisible_by :: "'d ext_ops \<Rightarrow> 'd data_value \<Rightarrow> 'd data_value \<Rightarrow> bool option" where
  "is_divisible_by X a b =
     (case (a, b) of
        (VInt32 x, VInt32 y) \<Rightarrow> if y = 0 then Some False else map_option (\<lambda>r. r = 0) (int_arith i32_check OpRem x y)
      | (VInt64 x, VInt64 y) \<Rightarrow> if y = 0 then Some False else map_option (\<lambda>r. r = 0) (int_arith i64_check OpRem x y)
      | (VFloat64 x, VFloat64 y) \<Rightarrow> Some (\<not> f64_is_zero y \<and> f64_is_zero (xf_arith X OpRem x y))
      | (VDecimal x, VDecimal y) \<Rightarrow> if xd_is_zero X y then Some False else map_option (xd_is_zero X) (xd_arith X OpRem x y)
      | _ \<Rightarrow> Some False)"

definition value_is_positive :: "'d ext_ops \<Rightarrow> 'd data_value \<Rightarrow> bool" where
  "value_is_positive X v =
     (case v of
        VBool b \<Rightarrow> b
      | VInt16 i \<Rightarrow> 0 < i
      | VInt32 i \<Rightarrow> 0 < i
      | VInt64 i \<Rightarrow> 0 < i
      | VFloat64 w \<Rightarrow> \<not> f64_negative w
      | VDecimal d \<Rightarrow> xd_is_sign_positive X d
      | VInterval v \<Rightarrow> is_positive v
      | _ \<Rightarrow> False)"

definition value_is_zero :: "'d ext_ops \<Rightarrow> 'd data_value \<Rightarrow> bool" where
  "value_is_zero X v =
     (case v of
        VBool b \<Rightarrow> \<not> b
      | VInt16 i \<Rightarrow> i = 0
      | VInt32 i \<Rightarrow> i = 0
      | VInt64 i \<Rightarrow> i = 0
      | VFloat64 w \<Rightarrow> f64_is_zero w
      | VDecimal d \<Rightarrow> xd_is_zero X d
      | VInterval v \<Rightarrow> is_zero v
      | _ \<Rightarrow> False)"

fun type_of_value :: "'d data_value \<Rightarrow> data_type" where
  "type_of_value VNull = TNull" | "type_of_value (VBool _) = TBool" | "type_of_value (VInt16 _) = TInt16"
| "type_of_value (VInt32 _) = TInt32" | "type_of_value (VInt64 _) = TInt64" | "type_of_value (VFloat64 _) = TFloat64"
| "type_of_value (VString _) = TString" | "type_of_value (VBlob _) = TBlob"
| "type_of_value (VDecimal _) = TDecimal None None" | "type_of_value (VDate _) = TDate"
| "type_of_value (VTimestamp _) = TTimestamp" | "type_of_value (VTimestampTz _) = TTimestampTz"
| "type_of_value (VInterval _) = TInterval" | "type_of_value (VVector ws) = TVector (length ws)"

text \<open>The left injection is the cast error. The text of a string is parsed as an unsigned integer.\<close>

definition value_as_usize :: "'d ext_ops \<Rightarrow> 'd data_value \<Rightarrow> unit + nat option" where
  "value_as_usize X v =
     (let from_int = (\<lambda>i. if 0 \<le> i then Inr (Some (nat i)) else Inl ());
          checked = (\<lambda>r. case r of Some n \<Rightarrow> Inr (Some n) | None \<Rightarrow> Inl ())
      in case v of
           VNull \<Rightarrow> Inr None
         | VBool b \<Rightarrow> Inr (Some (of_bool b))
         | VInt16 i \<Rightarrow> from_int i
         | VInt32 i \<Rightarrow> from_int i
         | VInt64 i \<Rightarrow> from_int i
         | VFloat64 w \<Rightarrow> if f64_negative w then Inl () else checked (xf_to_usize X w)
         | VDecimal d \<Rightarrow> if \<not> xd_is_sign_positive X d then Inl () else checked (xd_to_usize X d)
         | VString s \<Rightarrow> checked (parse_uint 64 (map (\<lambda>b. char_of (unat b)) s))
         | _ \<Rightarrow> Inl ())"

definition value_as_str :: "'d data_value \<Rightarrow> byte list option" where
  "value_as_str v = (case v of VString s \<Rightarrow> Some s | _ \<Rightarrow> None)"

text \<open>\<open>Ord::min\<close> keeps the first of two equal values, \<open>Ord::max\<close> the second.\<close>

definition same_variant :: "'d data_value \<Rightarrow> 'd data_value \<Rightarrow> bool" where
  "same_variant a b \<longleftrightarrow> variant_index a = variant_index b"

definition value_min :: "'d::linorder data_value \<Rightarrow> 'd data_value \<Rightarrow> 'd data_value option" where
  "value_min a b =
     (if is_null a then Some b else if is_null b then Some a
      else if same_variant a b then Some (if value_le a b then a else b) else None)"

definition value_max :: "'d::linorder data_value \<Rightarrow> 'd data_value \<Rightarrow> 'd data_value option" where
  "value_max a b =
     (if is_null a then Some b else if is_null b then Some a
      else if same_variant a b then Some (if value_le a b then b else a) else None)"

section \<open>The order is total\<close>

lemma is_null_iff: "is_null v \<longleftrightarrow> v = VNull"
  by (cases v) (simp_all add: is_null_def)

lemma variant_decimal: "variant_index a = 8 \<longleftrightarrow> (\<exists>x. a = VDecimal x)"
  by (cases a) simp_all

lemma value_cmp_key:
  assumes "variant_index a \<noteq> 8 \<or> variant_index b \<noteq> 8"
  shows "value_cmp a b = cmp_of (variant_index a, payload_key a) (variant_index b, payload_key b)"
  using assms [unfolded variant_decimal] by (cases a) (simp_all add: value_cmp_def split: data_value.split)

lemma value_cmp_decimal: "value_cmp (VDecimal x) (VDecimal y) = cmp_of x y"
  by (simp add: value_cmp_def)

lemma value_le_key:
  assumes "variant_index a \<noteq> 8 \<or> variant_index b \<noteq> 8"
  shows "value_le a b \<longleftrightarrow> (variant_index a, payload_key a) \<le> (variant_index b, payload_key b)"
  by (simp only: value_le_def value_cmp_key [OF assms] cmp_of_simps not_less)

lemma value_le_decimal: "value_le (VDecimal x) (VDecimal y) \<longleftrightarrow> x \<le> y"
  by (simp only: value_le_def value_cmp_decimal cmp_of_simps not_less)

lemma value_pair_cases:
  obtains (decimals) x y where "a = VDecimal x" "b = VDecimal y" | (keys) "variant_index a \<noteq> 8 \<or> variant_index b \<noteq> 8"
  by (metis variant_decimal)

lemma value_le_total: "value_le a b \<or> value_le b a"
  by (cases a b rule: value_pair_cases) (auto simp: value_le_decimal value_le_key)

lemma variant_le: "value_le a b \<Longrightarrow> variant_index a \<le> variant_index b"
  by (cases a b rule: value_pair_cases) (auto simp: value_le_key)

lemma value_le_trans:
  assumes "value_le a b" and "value_le b c"
  shows "value_le a c"
proof -
  have v: "variant_index a \<le> variant_index b" "variant_index b \<le> variant_index c" using assms variant_le by blast+
  show ?thesis
  proof (cases "variant_index b = 8")
    case True
    then obtain y where y: "b = VDecimal y" by (auto simp: variant_decimal)
    consider "variant_index a = 8" "variant_index c = 8" | "variant_index a < variant_index c" using v True by linarith
    then show ?thesis
    proof cases
      case 1
      with assms y show ?thesis by (auto simp: variant_decimal value_le_decimal)
    next
      case 2
      then show ?thesis by (subst value_le_key) auto
    qed
  next
    case False
    then have "(variant_index a, payload_key a) \<le> (variant_index b, payload_key b)"
      "(variant_index b, payload_key b) \<le> (variant_index c, payload_key c)" using assms by (auto simp: value_le_key)
    moreover have "variant_index a \<noteq> 8 \<or> variant_index c \<noteq> 8" using v False by linarith
    ultimately show ?thesis by (meson value_le_key order_trans)
  qed
qed

lemma value_cmp_eq:
  "value_cmp a b = (if value_le a b then if value_le b a then Equal else Less else Greater)"
proof (cases a b rule: value_pair_cases)
  case keys
  then show ?thesis using value_le_total [of a b] by (auto simp: value_cmp_key value_le_key cmp_of_def)
qed (auto simp: value_cmp_decimal value_le_decimal cmp_of_def)

text \<open>C39. Comparing values is a total order with the payloads compared within a type, \<open>NULL\<close> below everything:
  swapping the operands reverses the result, the order is transitive, and equal results are an equivalence.\<close>

theorem value_order_laws:
  "value_cmp b a = cmp_reverse (value_cmp a b)
   \<and> (value_cmp a b \<noteq> Greater \<and> value_cmp b c \<noteq> Greater \<longrightarrow> value_cmp a c \<noteq> Greater)
   \<and> (value_cmp a b = Equal \<longrightarrow> variant_index a = variant_index b \<and> value_cmp a c = value_cmp b c)
   \<and> value_cmp VNull a \<noteq> Greater"
proof -
  have rev: "value_cmp b a = cmp_reverse (value_cmp a b)"
    using value_le_total [of a b] by (auto simp: value_cmp_eq)
  have trans: "value_cmp a b \<noteq> Greater \<and> value_cmp b c \<noteq> Greater \<longrightarrow> value_cmp a c \<noteq> Greater"
    using value_le_trans [of a b c] by (simp add: value_le_def)
  have eq: "variant_index a = variant_index b \<and> value_cmp a c = value_cmp b c" if "value_cmp a b = Equal"
  proof -
    have ab: "value_le a b" "value_le b a" using that by (auto simp: value_cmp_eq split: if_splits)
    then have "value_le a c \<longleftrightarrow> value_le b c" "value_le c a \<longleftrightarrow> value_le c b" using value_le_trans by blast+
    with ab variant_le show ?thesis by (auto simp: value_cmp_eq intro: order_antisym)
  qed
  have "value_cmp VNull a \<noteq> Greater" by (cases a) (simp_all add: value_cmp_def cmp_of_def)
  with rev trans eq show ?thesis by blast
qed

theorem value_order_laws_witness:
  "value_cmp (VInt32 1) (VInt32 2 :: int data_value) = Less \<and> value_cmp (VInt32 2 :: int data_value) (VString []) = Less
   \<and> value_cmp (VInt32 1 :: int data_value) (VString []) \<noteq> Greater"
  using value_order_laws [of "VInt32 2 :: int data_value" "VInt32 1" "VString []"]
  by (simp add: value_cmp_def cmp_of_def)

text \<open>The minimum and the maximum of two values: \<open>NULL\<close> is neutral, two values of one type give the lesser
  and the greater of them, and values of different types panic.\<close>

theorem value_min_max:
  "value_min VNull b = Some b \<and> value_max VNull b = Some b \<and> value_min a VNull = Some a \<and> value_max a VNull = Some a
   \<and> (\<not> is_null a \<and> \<not> is_null b \<longrightarrow>
        (if same_variant a b
         then \<exists>l h. value_min a b = Some l \<and> value_max a b = Some h \<and> {l, h} = {a, b} \<and> value_le l h
         else value_min a b = None \<and> value_max a b = None))"
  using value_le_total [of a b] by (auto simp: value_min_def value_max_def is_null_iff)

theorem value_min_max_witness:
  "\<not> is_null (VInt32 3 :: int data_value) \<and> \<not> is_null (VInt32 2 :: int data_value) \<and> same_variant (VInt32 3) (VInt32 2 :: int data_value)
   \<and> (\<exists>l h. value_min (VInt32 3) (VInt32 2 :: int data_value) = Some l \<and> value_max (VInt32 3) (VInt32 2) = Some h
        \<and> {l, h} = {VInt32 3, VInt32 2} \<and> value_le l h)"
  using value_min_max [of "VInt32 2 :: int data_value" "VInt32 3"] by (simp add: is_null_def same_variant_def)

section \<open>Adding an interval to a date\<close>

text \<open>
  The Gregorian calendar, as the specification has it: February has 29 days in the years divisible by 4, except
  the centuries not divisible by 400.
\<close>

definition gregorian_leap :: "int \<Rightarrow> bool" where
  "gregorian_leap y \<longleftrightarrow> 4 dvd y \<and> (\<not> 100 dvd y \<or> 400 dvd y)"

definition month_length :: "int \<Rightarrow> int \<Rightarrow> int" where
  "month_length y m = (if m = 2 then if gregorian_leap y then 29 else 28 else if m \<in> {4, 6, 9, 11} then 30 else 31)"

definition valid_ymd :: "int \<Rightarrow> int \<Rightarrow> int \<Rightarrow> bool" where
  "valid_ymd y m d \<longleftrightarrow> 1 \<le> m \<and> m \<le> 12 \<and> 1 \<le> d \<and> d \<le> month_length y m"

text \<open>What the calendar package documents for the years from \<open>lo\<close> to \<open>hi\<close>: every date of the Gregorian calendar has a
  day number, from which the date is read back, and only such dates are read. Its range of years is bounded.\<close>

definition calendar_ok :: "calendar \<Rightarrow> int \<Rightarrow> int \<Rightarrow> bool" where
  "calendar_ok cal lo hi \<longleftrightarrow> - (2 ^ 20) < lo \<and> hi < 2 ^ 20
     \<and> (\<forall>y m d. lo \<le> y \<and> y \<le> hi \<and> valid_ymd y m d \<longrightarrow>
          (case cal_from_ymd cal y m d of Some n \<Rightarrow> \<bar>n\<bar> < 2 ^ 30 \<and> cal_from_days cal n = Some (y, m, d) | None \<Rightarrow> False))
     \<and> (\<forall>n y m d. cal_from_days cal n = Some (y, m, d) \<longrightarrow> valid_ymd y m d \<and> lo \<le> y \<and> y \<le> hi)"

lemma trunc_mod_zero: "0 < b \<Longrightarrow> trunc_mod a b = 0 \<longleftrightarrow> b dvd a"
proof -
  assume b: "0 < b"
  have "a + b * (- a div b) = - (- a mod b)" using minus_mult_div_eq_mod [of "- a" b] by linarith
  then have "trunc_mod a b = sgn a * (\<bar>a\<bar> mod b)"
    using b minus_mult_div_eq_mod [of a b] by (cases "a = 0") (simp_all add: trunc_mod_def trunc_div_def sgn_if del: minus_mult_div_eq_mod)
  then show ?thesis by (auto simp: dvd_eq_mod_eq_0 [symmetric] sgn_if)
qed

lemma is_leap_year_gregorian: "is_leap_year y \<longleftrightarrow> gregorian_leap y"
  by (simp add: is_leap_year_def gregorian_leap_def trunc_mod_zero)

lemma month_cases: "1 \<le> m \<Longrightarrow> m \<le> 12 \<Longrightarrow> m \<in> {1, 2, 3, 4, 5, 6, 7, 8, 9, 10, 11, 12 :: int}"
  by simp presburger

lemma get_month_days_gregorian: "1 \<le> m \<Longrightarrow> m \<le> 12 \<Longrightarrow> get_month_days y (nat m) = Some (month_length y m)"
  using month_cases [of m] by (auto simp: get_month_days_def index_at_def is_leap_year_gregorian month_length_def)

lemma month_length_range: "28 \<le> month_length y m" "month_length y m \<le> 31"
  by (simp_all add: month_length_def)

lemma carry_month_spec:
  assumes "1 \<le> m" and "m \<le> 12" and "carry_month (y + years v) (m + months v) = (y', m')"
  shows "1 \<le> m' \<and> m' \<le> 12 \<and> 12 * y' + m' = 12 * y + m + num_months v"
  using assms years_months [of v] months_bound [of v]
  by (auto simp: carry_month_def num_months_def split: if_splits)

text \<open>C38. Adding an interval to a date never panics within the years of the calendar: it moves by the days first,
  then by the months, and clips the day to the length that the month it arrives in has in the Gregorian calendar.\<close>

theorem date_add_months:
  assumes cal: "calendar_ok cal lo hi" and "i32_range (d + days v)" and ymd: "date_ymd cal (d + days v) = Some (y, m, day)"
    and mv: "12 * y + m + num_months v = 12 * y' + m'" "1 \<le> m'" "m' \<le> 12" and y': "lo \<le> y'" "y' \<le> hi" and v: "interval_ok v"
  shows "\<exists>r. date_add cal d v = Some r \<and> date_ymd cal r = Some (y', m', min day (month_length y' m'))"
proof -
  from cal ymd have valid: "valid_ymd y m day" "lo \<le> y" "y \<le> hi" by (auto simp: calendar_ok_def date_ymd_def)
  then have m: "1 \<le> m" "m \<le> 12" "1 \<le> day" by (simp_all add: valid_ymd_def)
  obtain y1 m1 where carry: "carry_month (y + years v) (m + months v) = (y1, m1)" by fastforce
  note c = carry_month_spec [OF m(1,2) carry]
  have "\<not> y1 < y'" "\<not> y' < y1" using c mv by linarith+
  then have eq: "y1 = y'" "m1 = m'" using c mv by linarith+
  define k where "k = month_length y' m'"
  then have k: "get_month_days y' (nat m') = Some k" "28 \<le> k" "k \<le> 31"
    using get_month_days_gregorian [OF mv(2,3)] month_length_range by simp_all
  have bounds: "- (2 ^ 20) < lo" "hi < 2 ^ 20" using cal by (simp_all add: calendar_ok_def)
  have "valid_ymd y' m' (min day k)" using mv(2,3) m(3) k by (simp add: valid_ymd_def k_def)
  then have "case cal_from_ymd cal y' m' (min day k) of Some n \<Rightarrow> \<bar>n\<bar> < 2 ^ 30 \<and> cal_from_days cal n = Some (y', m', min day k) | None \<Rightarrow> False"
    using cal y' mv(2,3) by (simp add: calendar_ok_def)
  then obtain n where n: "cal_from_ymd cal y' m' (min day k) = Some n" "\<bar>n\<bar> < 2 ^ 30" "cal_from_days cal n = Some (y', m', min day k)"
    by (auto split: option.splits)
  have mb: "i32_range (m + months v)" using m months_bound [of v] by (simp add: i32_range_def)
  have yb: "i32_range (y + years v)"
  proof -
    have "y' - 2 \<le> y + years v" "y + years v \<le> y' + 2"
      using years_months [of v] months_bound [of v] mv m(1,2) unfolding num_months_def by linarith+
    with y' bounds show ?thesis by (simp add: i32_range_def)
  qed
  have r: "i32_range (n - UNIX_EPOCH_DAYS)" "i32_range n" using n(2) by (simp_all add: i32_range_def UNIX_EPOCH_DAYS_def abs_less_iff)
  have "date_add cal d v = Some (n - UNIX_EPOCH_DAYS)"
    using assms(2) ymd mb yb carry eq mv(2,3) k(1) n(1) r(1)
    by (simp add: date_add_def i32_check_def rust_assert_def)
  moreover have "date_ymd cal (n - UNIX_EPOCH_DAYS) = Some (y', m', min day k)"
    using n(3) r(2) by (simp add: date_ymd_def i32_check_def)
  ultimately show ?thesis by (simp add: k_def)
qed

text \<open>
  The Gregorian calendar of a range of years, for which the hypothesis is proved: days are counted from the first
  day of year 1, and a date is found by searching its year and its month.
\<close>

definition days_before_year :: "int \<Rightarrow> int" where
  "days_before_year y = 365 * (y - 1) + (y - 1) div 4 - (y - 1) div 100 + (y - 1) div 400"

definition days_before_month :: "int \<Rightarrow> int \<Rightarrow> int" where
  "days_before_month y m = sum_list (map (month_length y) [1..m - 1])"

definition gregorian_calendar :: "int \<Rightarrow> int \<Rightarrow> calendar" where
  "gregorian_calendar lo hi = \<lparr>
     cal_from_days = (\<lambda>n. do {
       y \<leftarrow> find (\<lambda>y. days_before_year y < n \<and> n \<le> days_before_year (y + 1)) [lo..hi];
       m \<leftarrow> find (\<lambda>m. days_before_month y m < n - days_before_year y \<and> n - days_before_year y \<le> days_before_month y (m + 1)) [1..12];
       Some (y, m, n - days_before_year y - days_before_month y m) }),
     cal_from_ymd = (\<lambda>y m d. if lo \<le> y \<and> y \<le> hi \<and> valid_ymd y m d then Some (days_before_year y + days_before_month y m + d) else None)\<rparr>"

lemma div_step: "0 < k \<Longrightarrow> (y :: int) div k = (y - 1) div k + of_bool (k dvd y)"
proof -
  assume k: "0 < k"
  define q r where "q = y div k" and "r = y mod k"
  have y: "y = k * q + r" "0 \<le> r" "r < k" using k by (simp_all add: q_def r_def)
  have "(y - 1) div k = (if r = 0 then q - 1 else q)"
  proof (cases "r = 0")
    case True
    then have "(y - 1) div k = q - 1" using y k by (intro int_div_pos_eq [of _ _ _ "k - 1"]) (simp_all add: algebra_simps)
    then show ?thesis using True by simp
  next
    case False
    then have "(y - 1) div k = q" using y by (intro int_div_pos_eq [of _ _ _ "r - 1"]) simp_all
    then show ?thesis using False by simp
  qed
  then show ?thesis by (simp add: q_def r_def dvd_eq_mod_eq_0)
qed

lemma leap_days: "(c \<longrightarrow> b) \<Longrightarrow> (b \<longrightarrow> a) \<Longrightarrow> of_bool a - of_bool b + of_bool c = (if a \<and> (\<not> b \<or> c) then 1 else 0 :: int)"
  by (cases a; cases b; cases c) simp_all

lemma regroup: "x = 365 * y + (p + a) - (q + b) + (r + c) \<Longrightarrow> a - b + c = e \<Longrightarrow> x = 365 * (y - 1) + p - q + r + 365 + (e :: int)"
  by simp

lemma year_length: "days_before_year (y + 1) = days_before_year y + (if gregorian_leap y then 366 else 365)"
proof -
  have dvd: "400 dvd y \<longrightarrow> 100 dvd y" "100 dvd y \<longrightarrow> 4 dvd y" by presburger+
  have "days_before_year (y + 1) = 365 * y + ((y - 1) div 4 + of_bool (4 dvd y)) - ((y - 1) div 100 + of_bool (100 dvd y)) + ((y - 1) div 400 + of_bool (400 dvd y))"
    unfolding days_before_year_def add_diff_cancel_right' by (simp only: div_step [of 4 y] div_step [of 100 y] div_step [of 400 y] zero_less_numeral)
  moreover have "of_bool (4 dvd y) - of_bool (100 dvd y) + of_bool (400 dvd y) = (if gregorian_leap y then 1 else 0 :: int)"
    unfolding gregorian_leap_def using dvd by (rule leap_days)
  ultimately have "days_before_year (y + 1) = days_before_year y + 365 + (if gregorian_leap y then 1 else 0)"
    unfolding days_before_year_def [of y] by (rule regroup)
  then show ?thesis by simp
qed

lemma year_mono:
  assumes "y < y'"
  shows "days_before_year (y + 1) \<le> days_before_year y'"
proof -
  have "days_before_year (y + 1) \<le> days_before_year (y + 1 + int n)" for n
  proof (induction n)
    case (Suc n)
    then show ?case using year_length [of "y + 1 + int n"] by (simp add: ac_simps split: if_splits)
  qed simp
  from this [of "nat (y' - y - 1)"] assms show ?thesis by simp
qed

lemma month_step: "1 \<le> m \<Longrightarrow> days_before_month y (m + 1) = days_before_month y m + month_length y m"
  by (simp add: days_before_month_def upto_rec2)

lemma month_table:
  "days_before_month y 1 = 0" "days_before_month y 13 = (if gregorian_leap y then 366 else 365)"
  by (simp_all add: days_before_month_def month_length_def upto_rec1)

lemma month_mono:
  assumes "m < m'" and "1 \<le> m"
  shows "days_before_month y (m + 1) \<le> days_before_month y m'"
proof -
  have "days_before_month y (m + 1) \<le> days_before_month y (m + 1 + int n)" for n
  proof (induction n)
    case (Suc n)
    then show ?case using assms(2) month_step [of "m + 1 + int n" y] month_length_range(1) [of y "m + 1 + int n"] by (simp add: ac_simps)
  qed simp
  from this [of "nat (m' - m - 1)"] assms show ?thesis by simp
qed

lemma find_unique: "x \<in> set xs \<Longrightarrow> P x \<Longrightarrow> (\<And>y. y \<in> set xs \<Longrightarrow> P y \<Longrightarrow> y = x) \<Longrightarrow> find P xs = Some x"
proof (induction xs)
  case (Cons a xs)
  then show ?case by (cases "P a") (metis find.simps(2) list.set_intros(1), metis find.simps(2) list.set_intros(2) set_ConsD)
qed simp

lemma find_SomeD: "find P xs = Some x \<Longrightarrow> x \<in> set xs \<and> P x"
  by (induction xs) (auto split: if_splits)

lemma gregorian_from_days:
  assumes "valid_ymd y m d" and "lo \<le> y" and "y \<le> hi"
  shows "cal_from_days (gregorian_calendar lo hi) (days_before_year y + days_before_month y m + d) = Some (y, m, d)"
proof -
  let ?r = "days_before_month y m + d" and ?n = "days_before_year y + days_before_month y m + d"
  have v: "1 \<le> m" "m \<le> 12" "1 \<le> d" "d \<le> month_length y m" using assms(1) by (simp_all add: valid_ymd_def)
  have month: "days_before_month y m < ?r" "?r \<le> days_before_month y (m + 1)" using v month_step [of m y] by simp_all
  have start: "0 \<le> days_before_month y m" using v month_mono [of 1 m y] month_step [of 1 y] month_length_range(1) [of y 1] month_table(1) [of y]
    by (cases "m = 1") simp_all
  have "days_before_month y (m + 1) \<le> days_before_month y 13" using v month_mono [of m 13 y] by (cases "m = 12") simp_all
  then have year: "days_before_year y < ?n" "?n \<le> days_before_year (y + 1)"
    using month start v(3) by (simp_all add: year_length month_table split: if_splits)
  have "find (\<lambda>y. days_before_year y < ?n \<and> ?n \<le> days_before_year (y + 1)) [lo..hi] = Some y"
  proof (rule find_unique)
    fix y' assume "days_before_year y' < ?n \<and> ?n \<le> days_before_year (y' + 1)"
    then show "y' = y" using year year_mono [of y y'] year_mono [of y' y] by (cases y' y rule: linorder_cases) linarith+
  qed (use assms year in simp_all)
  moreover have "find (\<lambda>m. days_before_month y m < ?n - days_before_year y \<and> ?n - days_before_year y \<le> days_before_month y (m + 1)) [1..12] = Some m"
  proof (rule find_unique)
    fix m' assume "m' \<in> set [1..12]" "days_before_month y m' < ?n - days_before_year y \<and> ?n - days_before_year y \<le> days_before_month y (m' + 1)"
    then show "m' = m" using month v(1) month_mono [of m m' y] month_mono [of m' m y] by (cases m' m rule: linorder_cases) auto
  qed (use v month in simp_all)
  ultimately show ?thesis by (simp add: gregorian_calendar_def)
qed

lemma gregorian_from_days_valid:
  assumes "cal_from_days (gregorian_calendar lo hi) n = Some (y, m, d)"
  shows "valid_ymd y m d \<and> lo \<le> y \<and> y \<le> hi"
proof -
  from assms have "y \<in> set [lo..hi]" "m \<in> set [1..12]" "days_before_month y m < n - days_before_year y"
    "n - days_before_year y \<le> days_before_month y (m + 1)" "d = n - days_before_year y - days_before_month y m"
    by (auto simp: gregorian_calendar_def dest!: find_SomeD split: Option.bind_splits)
  then show ?thesis using month_step [of m y] by (simp add: valid_ymd_def)
qed

lemma days_before_bound: "\<bar>y\<bar> < 2 ^ 20 \<Longrightarrow> \<bar>days_before_year y\<bar> < 2 ^ 29"
proof -
  assume y: "\<bar>y\<bar> < 2 ^ 20"
  have "k * ((y - 1) div k) \<le> y - 1 \<and> y - 1 < k * ((y - 1) div k) + k" if "0 < k" for k
    using that mult_div_mod_eq [of k "y - 1"] pos_mod_bound [of k "y - 1"] pos_mod_sign [of k "y - 1"] by linarith
  from this [of 4] this [of 100] this [of 400] y show ?thesis
    unfolding days_before_year_def abs_less_iff by simp
qed

lemma gregorian_calendar_ok: "- (2 ^ 20) < lo \<Longrightarrow> hi < 2 ^ 20 \<Longrightarrow> calendar_ok (gregorian_calendar lo hi) lo hi"
proof -
  assume r: "- (2 ^ 20) < lo" "hi < 2 ^ 20"
  have "case cal_from_ymd (gregorian_calendar lo hi) y m d of
      Some n \<Rightarrow> \<bar>n\<bar> < 2 ^ 30 \<and> cal_from_days (gregorian_calendar lo hi) n = Some (y, m, d) | None \<Rightarrow> False"
    if a: "lo \<le> y \<and> y \<le> hi \<and> valid_ymd y m d" for y m d
  proof -
    have v: "1 \<le> m" "m \<le> 12" "1 \<le> d" "d \<le> 31" using a month_length_range(2) [of y m] by (simp_all add: valid_ymd_def)
    have "0 \<le> days_before_month y m \<and> days_before_month y m \<le> 366"
      using month_cases [OF v(1,2)] by (auto simp: days_before_month_def month_length_def upto_rec1)
    moreover have "\<bar>days_before_year y\<bar> < 2 ^ 29" using a r by (intro days_before_bound) (simp add: abs_less_iff)
    ultimately have "\<bar>days_before_year y + days_before_month y m + d\<bar> < 2 ^ 30" using v by (simp add: abs_less_iff)
    then show ?thesis using a gregorian_from_days [of y m d lo hi] by (simp add: gregorian_calendar_def [of lo hi, THEN arg_cong, of cal_from_ymd])
  qed
  with r show ?thesis using gregorian_from_days_valid [of lo hi] by (simp add: calendar_ok_def)
qed

text \<open>The constant of the code is the number of the first day of 1970.\<close>

lemma unix_epoch: "date_ymd (gregorian_calendar 1 9999) 0 = Some (1970, 1, 1)"
  using gregorian_from_days [of 1970 1 1 1 9999]
  by (simp add: date_ymd_def UNIX_EPOCH_DAYS_def i32_check_def i32_range_def valid_ymd_def month_length_def days_before_year_def days_before_month_def)

theorem date_add_months_witness:
  "\<exists>r. date_add (gregorian_calendar 1 9999) 10956 (from_months 2) = Some r
     \<and> date_ymd (gregorian_calendar 1 9999) 10956 = Some (1999, 12, 31) \<and> date_ymd (gregorian_calendar 1 9999) r = Some (2000, 2, 29)"
proof -
  have "date_ymd (gregorian_calendar 1 9999) 10956 = Some (1999, 12, 31)"
    using gregorian_from_days [of 1999 12 31 1 9999]
    by (simp add: date_ymd_def UNIX_EPOCH_DAYS_def i32_check_def i32_range_def valid_ymd_def month_length_def days_before_year_def days_before_month_def
        gregorian_leap_def upto_rec1)
  moreover have "calendar_ok (gregorian_calendar 1 9999) 1 9999" by (rule gregorian_calendar_ok) simp_all
  ultimately show ?thesis using date_add_months [of "gregorian_calendar 1 9999" 1 9999 10956 "from_months 2" 1999 12 31 2000 2]
    by (simp add: from_months_def days_def num_months_def i32_range_def interval_ok_def month_length_def gregorian_leap_def)
qed

end
