(* ===== verification/Table_Scan.thy ===== *)
theory Table_Scan
  imports Cursors Merge_Iter Values
begin

text \<open>
  The iterators a transaction scans a table with (\<open>txn_iterator.rs\<close>): one row set, the concatenation of
  row sets, or the merge of sorted row sets, behind one enumeration. The locales of the scan library
  are interpreted here on the order of SQL values and on the row-set iterators.
\<close>

section \<open>The iterator of a transaction\<close>

text \<open>The children of a merge are row-set iterators, as every caller builds them.\<close>

datatype ('c, 'v) secondary_iterator =
    SiConcat "('c, 'v) rowset_iter concat_iter"
  | SiMerge "(('c, 'v) rowset_iter, 'v) merge_iter"
  | SiRowSet "('c, 'v) rowset_iter"

definition with_iterator ::
  "('s \<Rightarrow> 'i) \<Rightarrow> ('v storage_chunk option \<times> 's) storage_result option \<Rightarrow> ('v storage_chunk option \<times> 'i) storage_result option" where
  "with_iterator K r = map_option (map_sum id (map_prod id K)) r"

fun si_next_batch ::
  "'v \<Rightarrow> 'v option compare \<Rightarrow> ('v option \<Rightarrow> 'v option \<Rightarrow> bool) \<Rightarrow> ('c, 'v) column_ops \<Rightarrow> ('v, ('c, 'v) secondary_iterator) next_chunk" where
  "si_next_batch d cmp lt C expected_size (SiConcat it) =
     with_iterator SiConcat (cc_next_batch (rsi_next_batch lt C) expected_size it)"
| "si_next_batch d cmp lt C expected_size (SiMerge it) =
     with_iterator SiMerge (mi_next_batch d cmp (rsi_next_batch lt C) expected_size it)"
| "si_next_batch d cmp lt C expected_size (SiRowSet it) =
     with_iterator SiRowSet (rsi_next_batch lt C expected_size it)"

definition txn_iter_next_batch ::
  "'v \<Rightarrow> 'v option compare \<Rightarrow> ('v option \<Rightarrow> 'v option \<Rightarrow> bool) \<Rightarrow> ('c, 'v) column_ops \<Rightarrow> nat option \<Rightarrow> ('c, 'v) secondary_iterator
     \<Rightarrow> ('v array list option \<times> ('c, 'v) secondary_iterator) storage_result option" where
  "txn_iter_next_batch d cmp lt C expected_size it = do {
     r \<leftarrow> si_next_batch d cmp lt C expected_size it;
     (case r of
        Inl err \<Rightarrow> Some (Inl err)
      | Inr (None, it) \<Rightarrow> Some (Inr (None, it))
      | Inr (Some x, it) \<Rightarrow> do { chunk \<leftarrow> to_data_chunk x; Some (Inr (Some chunk, it)) }) }"

text \<open>Reading it to the end: all rows, in order. The fuel bounds the batches.\<close>

primrec txn_scan ::
  "nat \<Rightarrow> 'v \<Rightarrow> 'v option compare \<Rightarrow> ('v option \<Rightarrow> 'v option \<Rightarrow> bool) \<Rightarrow> ('c, 'v) column_ops \<Rightarrow> nat option
     \<Rightarrow> ('c, 'v) secondary_iterator \<Rightarrow> 'v option list list storage_result option" where
  "txn_scan 0 d cmp lt C expected_size it = None"
| "txn_scan (Suc fuel) d cmp lt C expected_size it = do {
     r \<leftarrow> txn_iter_next_batch d cmp lt C expected_size it;
     (case r of
        Inl err \<Rightarrow> Some (Inl err)
      | Inr (None, it) \<Rightarrow> Some (Inr [])
      | Inr (Some chunk, it) \<Rightarrow> do {
          rest \<leftarrow> txn_scan fuel d cmp lt C expected_size it;
          Some (case rest of Inl err \<Rightarrow> Inl err | Inr rows \<Rightarrow> Inr (data_rows chunk @ rows)) }) }"

lemma txn_scan_map:
  assumes "\<And>s. si_next_batch d cmp lt C e (K s) = with_iterator K (N e s)"
  shows "txn_scan fuel d cmp lt C e (K s) = scan_all fuel N e s"
proof (induction fuel arbitrary: s)
  case (Suc fuel)
  show ?case
  proof (cases "N e s")
    case (Some r)
    show ?thesis
    proof (cases r)
      case (Inr p)
      then show ?thesis using Some Suc
        by (cases p; cases "fst p") (auto simp: assms txn_iter_next_batch_def with_iterator_def split: Option.bind_splits)
    qed (simp add: Some assms txn_iter_next_batch_def with_iterator_def)
  qed (simp add: assms txn_iter_next_batch_def with_iterator_def)
qed simp

lemma txn_scan_concat: "txn_scan fuel d cmp lt C e (SiConcat s) = scan_all fuel (cc_next_batch (rsi_next_batch lt C)) e s"
  by (rule txn_scan_map) simp

lemma txn_scan_merge: "txn_scan fuel d cmp lt C e (SiMerge s) = scan_all fuel (mi_next_batch d cmp (rsi_next_batch lt C)) e s"
  by (rule txn_scan_map) simp

section \<open>Row sets of integer columns\<close>

interpretation items: value_order item_cmp item_le
  by unfold_locales
    (auto simp: item_cmp_def item_le_def value_cmp_eq value_le_total intro: value_le_trans)

definition i32_value :: "u32 \<Rightarrow> 'd data_value" where
  "i32_value w = VInt32 (sint w)"

abbreviation i32_ops :: "(byte list \<Rightarrow> u32) \<Rightarrow> (column \<times> _, 'd data_value) column_ops" where
  "i32_ops crc \<equiv> ci_ops crc (prim_family i32_codec) i32_value"

interpretation i32_merge: merging "rsi_next_batch lt (i32_ops crc)" k
    "ci_cursor.rsi_pending TYPE(primitive_builder) crc (prim_family i32_codec) i32_value k"
    item_cmp item_le d "filter (\<lambda>key. key < k) keys" for lt crc k d keys
  by unfold_locales simp

text \<open>A row set is described by what was written to each of its \<open>k\<close> columns, its row count and its delete vectors.\<close>

type_synonym rowset_content = "u32 option list list list \<times> nat \<times> delete_vector list"

type_synonym 'v i32_rowset_iter = "(column \<times> (plain_iter, u32) block_iterator_impl column_iter, 'v) rowset_iter"

definition opened_rowset ::
  "(byte list \<Rightarrow> u32) \<Rightarrow> bool \<Rightarrow> column_builder_options \<Rightarrow> nat \<Rightarrow> rowset_content \<Rightarrow> 'v i32_rowset_iter \<Rightarrow> bool" where
  "opened_rowset crc nullable opts k rs it \<longleftrightarrow>
     (case rs of (colss, n, dvs) \<Rightarrow>
        length colss = k \<and> colss \<noteq> [] \<and> 0 < n \<and> n < 0xF0000000
        \<and> (\<forall>dv\<in>set dvs. \<exists>i r deletes. dv = dv_new i r deletes \<and> (\<forall>d\<in>set deletes. d < n))
        \<and> (\<exists>its. list_all2 (opened_i32 crc nullable opts n 0) colss its
            \<and> it = \<lparr>rsi_dvs = dvs, rsi_column_iterators = its, rsi_filter = None, rsi_end = False\<rparr>))"

definition rowset_rows :: "bool \<Rightarrow> column_builder_options \<Rightarrow> rowset_content \<Rightarrow> 'd data_value option list list" where
  "rowset_rows nullable opts rs =
     (case rs of (colss, n, dvs) \<Rightarrow>
        visible_rows (deleted_rows dvs) 0 n
          (map (\<lambda>arrays. map (map_option i32_value) (built_rows (prim_family i32_codec) nullable opts arrays)) colss))"

lemma opened_rowset_pending:
  assumes "opened_rowset crc nullable opts k rs it" and "16 \<le> cbo_target_block_size opts"
  shows "ci_cursor.rsi_pending TYPE(primitive_builder) crc (prim_family i32_codec) i32_value k it
      (rowset_rows nullable opts rs :: 'd data_value option list list)"
proof -
  obtain colss n dvs where rs: "rs = (colss, n, dvs)" by (cases rs)
  from assms(1) obtain its where r: "length colss = k" "colss \<noteq> []" "0 < n" "n < 0xF0000000"
    "\<forall>dv\<in>set dvs. \<exists>i r deletes. dv = dv_new i r deletes \<and> (\<forall>d\<in>set deletes. d < n)"
    "list_all2 (opened_i32 crc nullable opts n 0) colss its"
    "it = \<lparr>rsi_dvs = dvs, rsi_column_iterators = its, rsi_filter = None, rsi_end = False\<rparr>"
    by (auto simp: opened_rowset_def rs)
  note ok = opened_i32_rowset [OF r(6,2,4) assms(2) r(3,5), where emb = i32_value]
  show ?thesis
    unfolding ci_cursor.rsi_pending_def rowset_rows_def rs r(7)
    by (rule disjI2, intro exI conjI, rule ok) (simp_all add: r(1))
qed

lemma opened_rowsets_pending:
  assumes "list_all2 (opened_rowset crc nullable opts k) rowsets its" and "16 \<le> cbo_target_block_size opts"
  shows "list_all2 (ci_cursor.rsi_pending TYPE(primitive_builder) crc (prim_family i32_codec) i32_value k) its
      (map (rowset_rows nullable opts) rowsets :: 'd data_value option list list list)"
  unfolding list_all2_map2 using assms(1)
  by (auto simp: list_all2_conv_all_nth intro!: opened_rowset_pending [OF _ assms(2)])

text \<open>C9. Scanning row sets one after the other ends without an error and yields, in batches of any size, exactly the
  rows that are not deleted, row set by row set in the order given.\<close>

theorem concat_scan_rows:
  fixes its :: "'d data_value i32_rowset_iter list"
  assumes "list_all2 (opened_rowset crc nullable opts k) rowsets its" and "16 \<le> cbo_target_block_size opts" and "e \<noteq> Some 0"
  shows "txn_scan (Suc (length (concat (map (rowset_rows nullable opts) rowsets :: 'd data_value option list list list))))
      d cmp lt (i32_ops crc) e (SiConcat (cc_new its))
    = Some (Inr (concat (map (rowset_rows nullable opts) rowsets)))"
  unfolding txn_scan_concat
  by (rule ci_cursor.rsi.cc_scan_all [OF opened_rowsets_pending [OF assms(1,2)] assms(3)]) simp

text \<open>Two row sets holding 7 and 8, the second with its first row deleted.\<close>

definition ex_rowsets :: "rowset_content list" where
  "ex_rowsets = [([[[Some 7, Some 8]]], 2, []), ([[[Some 7, Some 8]]], 2, [dv_new 0 0 [0]])]"

lemma ex_rowsets_opened:
  "\<exists>its :: int data_value i32_rowset_iter list. list_all2 (opened_rowset (\<lambda>_. 0) True (demo_options EncPlain) 1) ex_rowsets its"
proof -
  obtain c where c: "opened_i32 (\<lambda>_. 0) True (demo_options EncPlain) 2 0 [[Some 7, Some 8]] c" using demo_opened by blast
  then show ?thesis
    by (intro exI [of _ "map (\<lambda>dvs. \<lparr>rsi_dvs = dvs, rsi_column_iterators = [c], rsi_filter = None, rsi_end = False\<rparr>) [[], [dv_new 0 0 [0]]]"])
      (auto simp: ex_rowsets_def opened_rowset_def intro!: exI [of _ "[0]"] exI [of _ "[c]"] exI [of _ 0])
qed

lemma ex_rowsets_rows:
  "map (rowset_rows True (demo_options EncPlain)) ex_rowsets = [[[Some (VInt32 7)], [Some (VInt32 8)]], [[Some (VInt32 8 :: int data_value)]]]"
proof -
  have "visible_rows {} 0 2 [[Some (VInt32 7), Some (VInt32 8 :: int data_value)]] = [[Some (VInt32 7)], [Some (VInt32 8)]]"
    "visible_rows {0} 0 2 [[Some (VInt32 7), Some (VInt32 8 :: int data_value)]] = [[Some (VInt32 8)]]"
    by (simp_all add: visible_rows_def upt_rec)
  then show ?thesis
    by (simp add: ex_rowsets_def rowset_rows_def built_rows_def stored_def i32_value_def deleted_rows_def dv_new_set)
qed

theorem concat_scan_rows_witness:
  "\<exists>its :: int data_value i32_rowset_iter list. txn_scan 4 VNull item_cmp (\<lambda>_ _. False) (i32_ops (\<lambda>_. 0)) (Some 1) (SiConcat (cc_new its))
    = Some (Inr [[Some (VInt32 7)], [Some (VInt32 8)], [Some (VInt32 8)]])"
proof -
  obtain its :: "int data_value i32_rowset_iter list" where
    its: "list_all2 (opened_rowset (\<lambda>_. 0) True (demo_options EncPlain) 1) ex_rowsets its" using ex_rowsets_opened by blast
  from concat_scan_rows [OF its, of "Some 1" VNull item_cmp "\<lambda>_ _. False"] show ?thesis
    unfolding ex_rowsets_rows by (intro exI [of _ its]) (simp add: demo_options_def eval_nat_numeral del: txn_scan.simps)
qed

text \<open>C8. Scanning sorted row sets through the merge iterator ends without an error and yields, in batches of any
  size, all rows that are not deleted, each as often as it is stored, in the order of the sort keys.\<close>

theorem merge_scan_sorted:
  fixes its :: "'d::linorder data_value i32_rowset_iter list"
  assumes "list_all2 (opened_rowset crc nullable opts k) rowsets its" and "16 \<le> cbo_target_block_size opts" and "e \<noteq> Some 0"
    and "\<forall>key\<in>set keys. key < k"
    and "\<forall>rs\<in>set rowsets. sorted_wrt (row_le item_le keys) (rowset_rows nullable opts rs :: 'd data_value option list list)"
  shows "\<exists>rows. txn_scan (Suc (length (concat (map (rowset_rows nullable opts) rowsets :: 'd data_value option list list list))))
        d item_cmp lt (i32_ops crc) e (SiMerge (mi_new its keys)) = Some (Inr rows)
    \<and> sorted_wrt (row_le item_le keys) rows
    \<and> mset rows = mset (concat (map (rowset_rows nullable opts) rowsets))"
proof -
  have keys: "filter (\<lambda>key. key < k) keys = keys" using assms(4) by (simp add: filter_id_conv)
  have "\<forall>s\<in>set (map (rowset_rows nullable opts) rowsets). sorted_wrt (row_le item_le keys) (s :: 'd data_value option list list)"
    using assms(5) by simp
  from i32_merge.sorted_scan [OF opened_rowsets_pending [OF assms(1,2)], of keys, unfolded keys, OF this assms(3) lessI]
  show ?thesis unfolding txn_scan_merge .
qed

theorem merge_scan_sorted_witness:
  "\<exists>(its :: int data_value i32_rowset_iter list) rows. txn_scan 4 VNull item_cmp (\<lambda>_ _. False) (i32_ops (\<lambda>_. 0)) None (SiMerge (mi_new its [0]))
      = Some (Inr rows)
    \<and> sorted_wrt (row_le item_le [0]) rows \<and> mset rows = {# [Some (VInt32 7)], [Some (VInt32 8)], [Some (VInt32 8)] #}"
proof -
  obtain its :: "int data_value i32_rowset_iter list" where
    its: "list_all2 (opened_rowset (\<lambda>_. 0) True (demo_options EncPlain) 1) ex_rowsets its" using ex_rowsets_opened by blast
  have sorted: "\<forall>s\<in>set (map (rowset_rows True (demo_options EncPlain)) ex_rowsets). sorted_wrt (row_le item_le [0]) (s :: int data_value option list list)"
    unfolding ex_rowsets_rows by (simp add: item_le_def value_of_def value_le_def value_cmp_def cmp_of_def)
  then have sorted: "\<forall>rs\<in>set ex_rowsets. sorted_wrt (row_le item_le [0]) (rowset_rows True (demo_options EncPlain) rs :: int data_value option list list)"
    by simp
  have tbs: "16 \<le> cbo_target_block_size (demo_options EncPlain)" by (simp add: demo_options_def)
  from merge_scan_sorted [OF its tbs _ _ sorted, of None VNull "\<lambda>_ _. False"] show ?thesis
    unfolding ex_rowsets_rows by (intro exI [of _ its]) (simp add: eval_nat_numeral del: txn_scan.simps)
qed

end
