(* ===== verification/Bitmaps.thy ===== *)
theory Bitmaps
  imports Arrays
begin

text \<open>
  The bit vectors of the arrays as the code computes with them (\<open>BitVecExt\<close> in \<open>array/ops.rs\<close> and
  \<open>clear_null\<close> in \<open>array/primitive_array.rs\<close>): a list of 64-bit machine words with a length. The
  operations work on whole words and ignore the length; the conversion from booleans packs 64 of
  them at a time and the rest in a loop. \<open>bv_bits\<close> reads the bits off, and the lemmas show that every
  word-wise operation is the pointwise operation on lists of booleans that the other theories use.
\<close>

section \<open>Word-wise operations\<close>

record bitvec =
  bv_words :: "u64 list"
  bv_len :: nat

definition bv_and :: "bitvec \<Rightarrow> bitvec \<Rightarrow> bitvec" where
  "bv_and self other = \<lparr>bv_words = map2 (AND) (bv_words self) (bv_words other), bv_len = bv_len self\<rparr>"

fun or_words :: "u64 list \<Rightarrow> u64 list \<Rightarrow> u64 list" where
  "or_words (a # as) (b # bs) = (a OR b) # or_words as bs"
| "or_words as _ = as"

definition bv_or :: "bitvec \<Rightarrow> bitvec \<Rightarrow> bitvec" where
  "bv_or self other = self\<lparr>bv_words := or_words (bv_words self) (bv_words other)\<rparr>"

definition bv_not_then_and :: "bitvec \<Rightarrow> bitvec \<Rightarrow> bitvec" where
  "bv_not_then_and self other =
     \<lparr>bv_words = map2 (\<lambda>a b. NOT a AND b) (bv_words self) (bv_words other), bv_len = bv_len self\<rparr>"

text \<open>The mask of 64 booleans that the vector unit computes: lane \<open>i\<close> is bit \<open>i\<close>.\<close>

definition to_bitmask :: "bool list \<Rightarrow> u64" where
  "to_bitmask chunk = horner_sum of_bool 2 chunk"

definition from_bitmask :: "u64 \<Rightarrow> bool list" where
  "from_bitmask w = map (bit w) [0..<64]"

fun remainder_mask :: "nat \<Rightarrow> bool list \<Rightarrow> u64 \<Rightarrow> u64" where
  "remainder_mask i [] bitmask = bitmask"
| "remainder_mask i (b # bs) bitmask = remainder_mask (Suc i) bs (bitmask OR push_bit i (of_bool b))"

function pack_words :: "bool list \<Rightarrow> u64 list" where
  "pack_words bools =
     (if 64 \<le> length bools then to_bitmask (take 64 bools) # pack_words (drop 64 bools)
      else if bools = [] then [] else [remainder_mask 0 bools 0])"
  by pat_completeness auto
termination by (relation "measure length") auto

declare pack_words.simps [simp del]

definition from_bool_slice :: "bool list \<Rightarrow> bitvec" where
  "from_bool_slice bools = \<lparr>bv_words = pack_words bools, bv_len = length bools\<rparr>"

text \<open>\<open>clear_null\<close> unpacks the validity words and masks the data in place; the surplus lanes of the last word
  meet no datum.\<close>

fun mask_data :: "bool list \<Rightarrow> bool list \<Rightarrow> bool list" where
  "mask_data (d # ds) (v # vs) = (d \<and> v) # mask_data ds vs"
| "mask_data ds _ = ds"

definition clear_null_words :: "bitvec \<Rightarrow> bool list \<Rightarrow> bool list" where
  "clear_null_words valid data = mask_data data (concat (map from_bitmask (bv_words valid)))"

section \<open>The bits\<close>

definition bv_bit :: "bitvec \<Rightarrow> nat \<Rightarrow> bool" where
  "bv_bit v i = bit (bv_words v ! (i div 64)) (i mod 64)"

definition bv_bits :: "bitvec \<Rightarrow> bool list" where
  "bv_bits v = map (bv_bit v) [0..<bv_len v]"

definition bv_wf :: "bitvec \<Rightarrow> bool" where
  "bv_wf v \<longleftrightarrow> length (bv_words v) = (bv_len v + 63) div 64"

lemma bv_wf_index: "bv_wf v \<Longrightarrow> i < bv_len v \<Longrightarrow> i div 64 < length (bv_words v)"
  unfolding bv_wf_def by linarith

lemma length_bv_bits [simp]: "length (bv_bits v) = bv_len v"
  by (simp add: bv_bits_def)

lemma nth_bv_bits [simp]: "i < bv_len v \<Longrightarrow> bv_bits v ! i = bv_bit v i"
  by (simp add: bv_bits_def)

lemma or_words_map2: "length as = length bs \<Longrightarrow> or_words as bs = map2 (OR) as bs"
  by (induction as bs rule: list_induct2) simp_all

lemma bit_remainder_mask:
  "bit (remainder_mask i bs w) k \<longleftrightarrow> k < 64 \<and> (bit w k \<or> i \<le> k \<and> k < i + length bs \<and> bs ! (k - i))"
proof (induction i bs w arbitrary: k rule: remainder_mask.induct)
  case (1 i w)
  then show ?case by (auto dest: bit_imp_le_length)
next
  case (2 i b bs w)
  have "bit (push_bit i (of_bool b) :: u64) k \<longleftrightarrow> k < 64 \<and> k = i \<and> b" for k
    by (auto simp: bit_simps dest: bit_imp_le_length)
  then show ?case by (auto simp: 2 bit_or_iff nth_Cons' Suc_diff_le dest: bit_imp_le_length)
qed

lemma pack_words_short:
  "length bs < 64 \<Longrightarrow> pack_words bs = (if bs = [] then [] else [remainder_mask 0 bs 0])"
  by (subst pack_words.simps) simp

lemma pack_words_long:
  "64 \<le> length bs \<Longrightarrow> pack_words bs = to_bitmask (take 64 bs) # pack_words (drop 64 bs)"
  by (subst pack_words.simps) simp

lemma length_pack_words: "length (pack_words bs) = (length bs + 63) div 64"
proof (induction bs rule: pack_words.induct)
  case (1 bs)
  show ?case
  proof (cases "64 \<le> length bs")
    case True
    with 1 have "length (pack_words bs) = Suc ((length bs - 64 + 63) div 64)" by (simp add: pack_words_long)
    also have "\<dots> = (length bs + 63) div 64" using True by linarith
    finally show ?thesis .
  next
    case False
    then show ?thesis by (cases bs) (auto simp: pack_words_short)
  qed
qed

lemma bit_pack_words: "i < length bs \<Longrightarrow> bit (pack_words bs ! (i div 64)) (i mod 64) = bs ! i"
proof (induction bs arbitrary: i rule: pack_words.induct)
  case (1 bs)
  consider "length bs < 64" | "64 \<le> length bs" "i < 64" | "64 \<le> length bs" "64 \<le> i" by linarith
  then show ?case
  proof cases
    case 1
    then show ?thesis using \<open>i < length bs\<close> by (auto simp: pack_words_short bit_remainder_mask)
  next
    case 2
    then show ?thesis
      by (simp add: pack_words_long to_bitmask_def bit_horner_sum_bit_word_iff)
  next
    case 3
    then have "i div 64 = Suc ((i - 64) div 64)" "i mod 64 = (i - 64) mod 64" by (auto simp: le_div_geq le_mod_geq)
    with 3 1 show ?thesis by (simp add: pack_words_long)
  qed
qed

lemma mask_data_map2: "length ds \<le> length vs \<Longrightarrow> mask_data ds vs = map2 (\<and>) ds (take (length ds) vs)"
  by (induction ds vs rule: mask_data.induct) auto

lemma concat_lanes:
  "i < 64 * length ws \<Longrightarrow> concat (map from_bitmask ws) ! i = bit (ws ! (i div 64)) (i mod 64)"
proof (induction ws arbitrary: i)
  case Nil
  then show ?case by simp
next
  case (Cons w ws)
  show ?case
  proof (cases "i < 64")
    case True
    then show ?thesis by (simp add: nth_append from_bitmask_def)
  next
    case False
    then have "i div 64 = Suc ((i - 64) div 64)" "i mod 64 = (i - 64) mod 64" by (auto simp: le_div_geq le_mod_geq)
    with False Cons show ?thesis by (simp add: nth_append from_bitmask_def)
  qed
qed

lemma length_concat_lanes: "length (concat (map from_bitmask ws)) = 64 * length ws"
  by (rule concat_map_length) (simp add: from_bitmask_def)

lemma clear_null_words_eq:
  assumes "bv_wf v" and "length data = bv_len v"
  shows "clear_null_words v data = map2 (\<and>) data (bv_bits v)"
proof -
  have len: "bv_len v \<le> 64 * length (bv_words v)" using assms(1) unfolding bv_wf_def by linarith
  have "take (bv_len v) (concat (map from_bitmask (bv_words v))) = bv_bits v"
    using len by (intro nth_equalityI) (simp_all add: length_concat_lanes concat_lanes bv_bit_def)
  then show ?thesis
    using len assms(2) by (simp add: clear_null_words_def mask_data_map2 length_concat_lanes)
qed

lemma bitmap_words:
  assumes "bv_wf a" and "bv_wf b" and "bv_len a = bv_len b"
  shows "bv_bits (bv_and a b) = map2 (\<and>) (bv_bits a) (bv_bits b) \<and> bv_wf (bv_and a b)"
    and "bv_bits (bv_or a b) = map2 (\<or>) (bv_bits a) (bv_bits b) \<and> bv_wf (bv_or a b)"
    and "bv_bits (bv_not_then_and a b) = map2 (\<lambda>x y. \<not> x \<and> y) (bv_bits a) (bv_bits b) \<and> bv_wf (bv_not_then_and a b)"
    and "bv_bits (from_bool_slice bools) = bools \<and> bv_wf (from_bool_slice bools)"
    and "length data = bv_len a \<Longrightarrow> clear_null_words a data = map2 (\<and>) data (bv_bits a)"
proof -
  have idx: "i div 64 < length (bv_words a)" "i div 64 < length (bv_words b)" if "i < bv_len b" for i
    using that assms by (auto intro: bv_wf_index)
  have len: "length (bv_words a) = length (bv_words b)" using assms by (simp add: bv_wf_def)
  show "bv_bits (bv_and a b) = map2 (\<and>) (bv_bits a) (bv_bits b) \<and> bv_wf (bv_and a b)"
    using assms idx by (auto intro!: nth_equalityI simp: bv_and_def bv_bit_def bit_simps bv_wf_def)
  show "bv_bits (bv_or a b) = map2 (\<or>) (bv_bits a) (bv_bits b) \<and> bv_wf (bv_or a b)"
    using assms idx by (auto intro!: nth_equalityI simp: bv_or_def bv_bit_def bit_simps bv_wf_def or_words_map2 len)
  show "bv_bits (bv_not_then_and a b) = map2 (\<lambda>x y. \<not> x \<and> y) (bv_bits a) (bv_bits b) \<and> bv_wf (bv_not_then_and a b)"
    using assms idx by (auto intro!: nth_equalityI simp: bv_not_then_and_def bv_bit_def bit_simps bv_wf_def)
  show "bv_bits (from_bool_slice bools) = bools \<and> bv_wf (from_bool_slice bools)"
    by (auto intro!: nth_equalityI simp: from_bool_slice_def bv_bit_def bit_pack_words bv_wf_def length_pack_words)
  show "length data = bv_len a \<Longrightarrow> clear_null_words a data = map2 (\<and>) data (bv_bits a)"
    by (rule clear_null_words_eq [OF assms(1)])
qed

text \<open>The word-wise bitmap operations are the pointwise boolean ones: packing booleans 64 at a time and reading
  the bits gives them back, conjunction, disjunction and negated conjunction act bit by bit, and
  clearing the data of null slots masks every datum with its own validity bit.\<close>

theorem bitmap_words_pointwise:
  assumes "bv_wf a" and "bv_wf b" and "bv_len a = bv_len b"
  shows "bv_bits (bv_and a b) = map2 (\<and>) (bv_bits a) (bv_bits b)
    \<and> bv_bits (bv_or a b) = map2 (\<or>) (bv_bits a) (bv_bits b)
    \<and> bv_bits (bv_not_then_and a b) = map2 (\<lambda>x y. \<not> x \<and> y) (bv_bits a) (bv_bits b)
    \<and> bv_bits (from_bool_slice bools) = bools
    \<and> (length data = bv_len a \<longrightarrow> clear_null_words a data = map2 (\<and>) data (bv_bits a))"
  using bitmap_words [OF assms] by blast

theorem bitmap_words_pointwise_witness:
  "let a = from_bool_slice (replicate 70 True); b = from_bool_slice (replicate 69 False @ [True])
   in bv_bits (bv_and a b) = map2 (\<and>) (bv_bits a) (bv_bits b) \<and> bv_bits (bv_and a b) = replicate 69 False @ [True]
     \<and> clear_null_words b (replicate 70 True) = replicate 69 False @ [True]"
proof -
  let ?a = "from_bool_slice (replicate 70 True)" and ?b = "from_bool_slice (replicate 69 False @ [True])"
  have wf: "bv_wf ?a" "bv_wf ?b" "bv_len ?a = bv_len ?b"
    by (simp_all add: from_bool_slice_def bv_wf_def length_pack_words)
  have bits: "bv_bits ?a = replicate 70 True" "bv_bits ?b = replicate 69 False @ [True]"
    using bitmap_words_pointwise [OF wf] bitmap_words_pointwise [OF wf(2,2)] by blast+
  have len: "length (replicate 70 True) = bv_len ?b" by (simp add: from_bool_slice_def)
  have masked: "map2 (\<and>) (replicate 70 True) (replicate 69 False @ [True]) = replicate 69 False @ [True]"
    by code_simp
  have "bv_bits (bv_and ?a ?b) = map2 (\<and>) (bv_bits ?a) (bv_bits ?b)"
    using bitmap_words_pointwise [OF wf] by blast
  moreover have "clear_null_words ?b (replicate 70 True) = map2 (\<and>) (replicate 70 True) (bv_bits ?b)"
    using bitmap_words_pointwise [OF wf(2,2)] len by blast
  ultimately show ?thesis unfolding Let_def bits masked by blast
qed

end
