(* ===== verification/Array_Impl.thy ===== *)
theory Array_Impl
  imports Values Bitmaps
begin

text \<open>
  The arrays of all types (\<open>ArrayImpl\<close> and \<open>ArrayBuilderImpl\<close> of \<open>array/mod.rs\<close>) with the dispatch of
  their operations. As in the theory of the single arrays, a builder and the array it finishes have
  the same fields, so one type serves both. A variable-length array appears here as the slices its
  offsets cut out of the flat buffer; \<open>va_view\<close> is that reading, and the lemmas on it show that pushing,
  appending and building from raw data agree with the operations on the flat representation. The
  parameter \<open>z\<close> is the default decimal.

  \<open>ai_items\<close> lists the SQL values of an array. Every operation is characterised through it.
\<close>

section \<open>Variable-length arrays as arrays of slices\<close>

definition va_from_data :: "'u list list \<Rightarrow> bool list \<Rightarrow> 'u var_array" where
  "va_from_data raws valid =
     (let b = va_extend_from_raw_data raws \<lparr>va_offset = [0], va_valid = [], va_data = []\<rparr>
      in b\<lparr>va_valid := valid\<rparr>)"

definition va_view :: "'u var_array \<Rightarrow> 'u list array" where
  "va_view a = \<lparr>ar_valid = va_valid a, ar_data = va_cuts (va_data a) (hd (va_offset a)) (tl (va_offset a))\<rparr>"

text \<open>Filtering a variable-length array pushes the kept items, so the slice of a null item becomes empty.\<close>

definition sa_filter :: "bool list \<Rightarrow> 'u list array \<Rightarrow> 'u list array option" where
  "sa_filter p a = do {
     rust_assert (length p = pa_len a);
     vs \<leftarrow> those (map (pa_get a) (filter (\<lambda>i. p ! i) [0..<length p]));
     Some (fold (pa_push []) vs pa_new) }"

section \<open>Vector arrays\<close>

definition ch_elen :: "'u chunked_builder \<Rightarrow> nat" where
  "ch_elen b = (case cb_element_length b of Some n \<Rightarrow> n | None \<Rightarrow> 0)"

definition ch_new :: "'u chunked_builder" where
  "ch_new = \<lparr>cb_element_length = None, cb_valid = [], cb_data = []\<rparr>"

definition ch_get :: "'u chunked_builder \<Rightarrow> nat \<Rightarrow> 'u list option option" where
  "ch_get b idx = do {
     v \<leftarrow> index_at (cb_valid b) idx;
     if v then map_option Some (chb_get_raw (ch_elen b) (cb_data b) idx) else Some None }"

definition chb_push_n :: "nat \<Rightarrow> 'u list option \<Rightarrow> 'u chunked_builder \<Rightarrow> 'u chunked_builder option" where
  "chb_push_n n v b =
     (case v of
        None \<Rightarrow> None
      | Some x \<Rightarrow> do {
          b \<leftarrow> update_element_length (length x) (b\<lparr>cb_valid := cb_valid b @ replicate n True\<rparr>);
          Some (b\<lparr>cb_data := cb_data b @ concat (replicate n x)\<rparr>) })"

text \<open>Taking the elements keeps the element length in the builder.\<close>

definition chb_take :: "'u chunked_builder \<Rightarrow> 'u chunked_builder \<times> 'u chunked_builder" where
  "chb_take b = (\<lparr>cb_element_length = Some (ch_elen b), cb_valid = cb_valid b, cb_data = cb_data b\<rparr>,
                 b\<lparr>cb_valid := [], cb_data := []\<rparr>)"

definition ch_collect :: "nat list \<Rightarrow> 'u chunked_builder \<Rightarrow> 'u chunked_builder option" where
  "ch_collect idxs b = do { vs \<leftarrow> those (map (ch_get b) idxs); map_option (fst \<circ> chb_take) (fold_opt chb_push vs ch_new) }"

definition ch_filter :: "bool list \<Rightarrow> 'u chunked_builder \<Rightarrow> 'u chunked_builder option" where
  "ch_filter p b = do {
     rust_assert (length p = length (cb_valid b));
     ch_collect (filter (\<lambda>i. p ! i) [0..<length p]) b }"

definition ch_slice :: "nat \<Rightarrow> nat \<Rightarrow> 'u chunked_builder \<Rightarrow> 'u chunked_builder option" where
  "ch_slice lo hi b = do {
     rust_assert (lo \<le> hi);
     rust_assert (hi \<le> length (cb_valid b));
     ch_collect [lo..<hi] b }"

section \<open>Arrays of all types\<close>

datatype 'd array_impl =
    ANull "unit array"
  | ABool "bool array"
  | AInt16 "int array"
  | AInt32 "int array"
  | AInt64 "int array"
  | AFloat64 "u64 array"
  | AString "byte list array"
  | ABlob "byte list array"
  | AVector "u64 chunked_builder"
  | ADecimal "'d array"
  | ADate "int array"
  | ATimestamp "int array"
  | ATimestampTz "int array"
  | AInterval "interval array"

definition interval_default :: interval where
  "interval_default = \<lparr>iv_months = 0, iv_days = 0, iv_ms = 0\<rparr>"

fun ai_len :: "'d array_impl \<Rightarrow> nat" where
  "ai_len (ANull a) = pa_len a" | "ai_len (ABool a) = pa_len a" | "ai_len (AInt16 a) = pa_len a"
| "ai_len (AInt32 a) = pa_len a" | "ai_len (AInt64 a) = pa_len a" | "ai_len (AFloat64 a) = pa_len a"
| "ai_len (AString a) = pa_len a" | "ai_len (ABlob a) = pa_len a" | "ai_len (AVector a) = length (cb_valid a)"
| "ai_len (ADecimal a) = pa_len a" | "ai_len (ADate a) = pa_len a" | "ai_len (ATimestamp a) = pa_len a"
| "ai_len (ATimestampTz a) = pa_len a" | "ai_len (AInterval a) = pa_len a"

fun ai_valid :: "'d array_impl \<Rightarrow> bool list" where
  "ai_valid (ANull a) = ar_valid a" | "ai_valid (ABool a) = ar_valid a" | "ai_valid (AInt16 a) = ar_valid a"
| "ai_valid (AInt32 a) = ar_valid a" | "ai_valid (AInt64 a) = ar_valid a" | "ai_valid (AFloat64 a) = ar_valid a"
| "ai_valid (AString a) = ar_valid a" | "ai_valid (ABlob a) = ar_valid a" | "ai_valid (AVector a) = cb_valid a"
| "ai_valid (ADecimal a) = ar_valid a" | "ai_valid (ADate a) = ar_valid a" | "ai_valid (ATimestamp a) = ar_valid a"
| "ai_valid (ATimestampTz a) = ar_valid a" | "ai_valid (AInterval a) = ar_valid a"

definition or_null :: "('a \<Rightarrow> 'd data_value) \<Rightarrow> 'a option \<Rightarrow> 'd data_value" where
  "or_null f v = (case v of Some x \<Rightarrow> f x | None \<Rightarrow> VNull)"

fun ai_get :: "'d array_impl \<Rightarrow> nat \<Rightarrow> 'd data_value option" where
  "ai_get (ANull a) i = Some VNull"
| "ai_get (ABool a) i = map_option (or_null VBool) (pa_get a i)"
| "ai_get (AInt16 a) i = map_option (or_null VInt16) (pa_get a i)"
| "ai_get (AInt32 a) i = map_option (or_null VInt32) (pa_get a i)"
| "ai_get (AInt64 a) i = map_option (or_null VInt64) (pa_get a i)"
| "ai_get (AFloat64 a) i = map_option (or_null VFloat64) (pa_get a i)"
| "ai_get (AString a) i = map_option (or_null VString) (pa_get a i)"
| "ai_get (ABlob a) i = map_option (or_null VBlob) (pa_get a i)"
| "ai_get (AVector a) i = map_option (or_null VVector) (ch_get a i)"
| "ai_get (ADecimal a) i = map_option (or_null VDecimal) (pa_get a i)"
| "ai_get (ADate a) i = map_option (or_null VDate) (pa_get a i)"
| "ai_get (ATimestamp a) i = map_option (or_null VTimestamp) (pa_get a i)"
| "ai_get (ATimestampTz a) i = map_option (or_null VTimestampTz) (pa_get a i)"
| "ai_get (AInterval a) i = map_option (or_null VInterval) (pa_get a i)"

fun ai_type_string :: "'d array_impl \<Rightarrow> string" where
  "ai_type_string (ANull _) = ''NULL''" | "ai_type_string (ABool _) = ''Bool''"
| "ai_type_string (AInt16 _) = ''Int16''" | "ai_type_string (AInt32 _) = ''Int32''"
| "ai_type_string (AInt64 _) = ''Int64''" | "ai_type_string (AFloat64 _) = ''Float64''"
| "ai_type_string (AString _) = ''String''" | "ai_type_string (ABlob _) = ''Blob''"
| "ai_type_string (AVector _) = ''Vector''" | "ai_type_string (ADecimal _) = ''Decimal''"
| "ai_type_string (ADate _) = ''Date''" | "ai_type_string (ATimestamp _) = ''Timestamp''"
| "ai_type_string (ATimestampTz _) = ''TimestampTz''" | "ai_type_string (AInterval _) = ''Interval''"

text \<open>A builder for a data type; a struct type panics.\<close>

fun ai_with_capacity :: "data_type \<Rightarrow> 'd array_impl option" where
  "ai_with_capacity TNull = Some (ANull pa_new)" | "ai_with_capacity TBool = Some (ABool pa_new)"
| "ai_with_capacity TInt16 = Some (AInt16 pa_new)" | "ai_with_capacity TInt32 = Some (AInt32 pa_new)"
| "ai_with_capacity TInt64 = Some (AInt64 pa_new)" | "ai_with_capacity TFloat64 = Some (AFloat64 pa_new)"
| "ai_with_capacity (TDecimal _ _) = Some (ADecimal pa_new)" | "ai_with_capacity TDate = Some (ADate pa_new)"
| "ai_with_capacity TTimestamp = Some (ATimestamp pa_new)" | "ai_with_capacity TTimestampTz = Some (ATimestampTz pa_new)"
| "ai_with_capacity TInterval = Some (AInterval pa_new)" | "ai_with_capacity TString = Some (AString pa_new)"
| "ai_with_capacity TBlob = Some (ABlob pa_new)" | "ai_with_capacity (TVector _) = Some (AVector ch_new)"
| "ai_with_capacity (TStruct _) = None"

fun from_type_of_array :: "'d array_impl \<Rightarrow> 'd array_impl" where
  "from_type_of_array (ANull _) = ANull pa_new" | "from_type_of_array (ABool _) = ABool pa_new"
| "from_type_of_array (AInt16 _) = AInt16 pa_new" | "from_type_of_array (AInt32 _) = AInt32 pa_new"
| "from_type_of_array (AInt64 _) = AInt64 pa_new" | "from_type_of_array (AFloat64 _) = AFloat64 pa_new"
| "from_type_of_array (AString _) = AString pa_new" | "from_type_of_array (ABlob _) = ABlob pa_new"
| "from_type_of_array (AVector _) = AVector ch_new" | "from_type_of_array (ADecimal _) = ADecimal pa_new"
| "from_type_of_array (ADate _) = ADate pa_new" | "from_type_of_array (ATimestamp _) = ATimestamp pa_new"
| "from_type_of_array (ATimestampTz _) = ATimestampTz pa_new" | "from_type_of_array (AInterval _) = AInterval pa_new"

text \<open>The payload of a value for a builder: the left is a type mismatch, a missing payload is \<open>Null\<close>.\<close>

definition payload_of :: "('d data_value \<Rightarrow> 'a option) \<Rightarrow> 'd data_value \<Rightarrow> 'a option option" where
  "payload_of f v = (case v of VNull \<Rightarrow> Some None | _ \<Rightarrow> map_option Some (f v))"

fun as_bool :: "'d data_value \<Rightarrow> bool option" where "as_bool (VBool x) = Some x" | "as_bool _ = None"
fun as_int16 :: "'d data_value \<Rightarrow> int option" where "as_int16 (VInt16 x) = Some x" | "as_int16 _ = None"
fun as_int32 :: "'d data_value \<Rightarrow> int option" where "as_int32 (VInt32 x) = Some x" | "as_int32 _ = None"
fun as_int64 :: "'d data_value \<Rightarrow> int option" where "as_int64 (VInt64 x) = Some x" | "as_int64 _ = None"
fun as_float64 :: "'d data_value \<Rightarrow> u64 option" where "as_float64 (VFloat64 x) = Some x" | "as_float64 _ = None"
fun as_string :: "'d data_value \<Rightarrow> byte list option" where "as_string (VString x) = Some x" | "as_string _ = None"
fun as_blob :: "'d data_value \<Rightarrow> byte list option" where "as_blob (VBlob x) = Some x" | "as_blob _ = None"
fun as_vector :: "'d data_value \<Rightarrow> u64 list option" where "as_vector (VVector x) = Some x" | "as_vector _ = None"
fun as_decimal :: "'d data_value \<Rightarrow> 'd option" where "as_decimal (VDecimal x) = Some x" | "as_decimal _ = None"
fun as_date :: "'d data_value \<Rightarrow> int option" where "as_date (VDate x) = Some x" | "as_date _ = None"
fun as_timestamp :: "'d data_value \<Rightarrow> int option" where "as_timestamp (VTimestamp x) = Some x" | "as_timestamp _ = None"
fun as_timestamptz :: "'d data_value \<Rightarrow> int option" where "as_timestamptz (VTimestampTz x) = Some x" | "as_timestamptz _ = None"
fun as_interval :: "'d data_value \<Rightarrow> interval option" where "as_interval (VInterval x) = Some x" | "as_interval _ = None"

fun ai_push_n :: "'d \<Rightarrow> nat \<Rightarrow> 'd data_value \<Rightarrow> 'd array_impl \<Rightarrow> 'd array_impl option" where
  "ai_push_n z n v (ANull a) = (case v of VNull \<Rightarrow> Some (ANull (pa_push_n () n None a)) | _ \<Rightarrow> None)"
| "ai_push_n z n v (ABool a) = map_option (\<lambda>x. ABool (pa_push_n False n x a)) (payload_of as_bool v)"
| "ai_push_n z n v (AInt16 a) = map_option (\<lambda>x. AInt16 (pa_push_n 0 n x a)) (payload_of as_int16 v)"
| "ai_push_n z n v (AInt32 a) = map_option (\<lambda>x. AInt32 (pa_push_n 0 n x a)) (payload_of as_int32 v)"
| "ai_push_n z n v (AInt64 a) = map_option (\<lambda>x. AInt64 (pa_push_n 0 n x a)) (payload_of as_int64 v)"
| "ai_push_n z n v (AFloat64 a) = map_option (\<lambda>x. AFloat64 (pa_push_n 0 n x a)) (payload_of as_float64 v)"
| "ai_push_n z n v (AString a) = map_option (\<lambda>x. AString (pa_push_n [] n x a)) (payload_of as_string v)"
| "ai_push_n z n v (ABlob a) = map_option (\<lambda>x. ABlob (pa_push_n [] n x a)) (payload_of as_blob v)"
| "ai_push_n z n v (AVector a) = do { x \<leftarrow> payload_of as_vector v; map_option AVector (chb_push_n n x a) }"
| "ai_push_n z n v (ADecimal a) = map_option (\<lambda>x. ADecimal (pa_push_n z n x a)) (payload_of as_decimal v)"
| "ai_push_n z n v (ADate a) = map_option (\<lambda>x. ADate (pa_push_n 0 n x a)) (payload_of as_date v)"
| "ai_push_n z n v (ATimestamp a) = map_option (\<lambda>x. ATimestamp (pa_push_n 0 n x a)) (payload_of as_timestamp v)"
| "ai_push_n z n v (ATimestampTz a) = map_option (\<lambda>x. ATimestampTz (pa_push_n 0 n x a)) (payload_of as_timestamptz v)"
| "ai_push_n z n v (AInterval a) = map_option (\<lambda>x. AInterval (pa_push_n interval_default n x a)) (payload_of as_interval v)"

fun ai_push :: "'d \<Rightarrow> 'd data_value \<Rightarrow> 'd array_impl \<Rightarrow> 'd array_impl option" where
  "ai_push z v (ANull a) = (case v of VNull \<Rightarrow> Some (ANull (pa_push () None a)) | _ \<Rightarrow> None)"
| "ai_push z v (ABool a) = map_option (\<lambda>x. ABool (pa_push False x a)) (payload_of as_bool v)"
| "ai_push z v (AInt16 a) = map_option (\<lambda>x. AInt16 (pa_push 0 x a)) (payload_of as_int16 v)"
| "ai_push z v (AInt32 a) = map_option (\<lambda>x. AInt32 (pa_push 0 x a)) (payload_of as_int32 v)"
| "ai_push z v (AInt64 a) = map_option (\<lambda>x. AInt64 (pa_push 0 x a)) (payload_of as_int64 v)"
| "ai_push z v (AFloat64 a) = map_option (\<lambda>x. AFloat64 (pa_push 0 x a)) (payload_of as_float64 v)"
| "ai_push z v (AString a) = map_option (\<lambda>x. AString (pa_push [] x a)) (payload_of as_string v)"
| "ai_push z v (ABlob a) = map_option (\<lambda>x. ABlob (pa_push [] x a)) (payload_of as_blob v)"
| "ai_push z v (AVector a) = do { x \<leftarrow> payload_of as_vector v; map_option AVector (chb_push x a) }"
| "ai_push z v (ADecimal a) = map_option (\<lambda>x. ADecimal (pa_push z x a)) (payload_of as_decimal v)"
| "ai_push z v (ADate a) = map_option (\<lambda>x. ADate (pa_push 0 x a)) (payload_of as_date v)"
| "ai_push z v (ATimestamp a) = map_option (\<lambda>x. ATimestamp (pa_push 0 x a)) (payload_of as_timestamp v)"
| "ai_push z v (ATimestampTz a) = map_option (\<lambda>x. ATimestampTz (pa_push 0 x a)) (payload_of as_timestamptz v)"
| "ai_push z v (AInterval a) = map_option (\<lambda>x. AInterval (pa_push interval_default x a)) (payload_of as_interval v)"

fun ai_take :: "'d array_impl \<Rightarrow> 'd array_impl \<times> 'd array_impl" where
  "ai_take (AVector b) = (case chb_take b of (a, b') \<Rightarrow> (AVector a, AVector b'))"
| "ai_take b = (b, from_type_of_array b)"

definition ai_finish :: "'d array_impl \<Rightarrow> 'd array_impl" where
  "ai_finish b = fst (ai_take b)"

text \<open>The array is appended to the builder, which is the second argument.\<close>

definition ai_append :: "'d array_impl \<Rightarrow> 'd array_impl \<Rightarrow> 'd array_impl option" where
  "ai_append arr builder =
     (case arr of
        ANull a \<Rightarrow> (case builder of ANull b \<Rightarrow> Some (ANull (pa_append a b)) | _ \<Rightarrow> None)
      | ABool a \<Rightarrow> (case builder of ABool b \<Rightarrow> Some (ABool (pa_append a b)) | _ \<Rightarrow> None)
      | AInt16 a \<Rightarrow> (case builder of AInt16 b \<Rightarrow> Some (AInt16 (pa_append a b)) | _ \<Rightarrow> None)
      | AInt32 a \<Rightarrow> (case builder of AInt32 b \<Rightarrow> Some (AInt32 (pa_append a b)) | _ \<Rightarrow> None)
      | AInt64 a \<Rightarrow> (case builder of AInt64 b \<Rightarrow> Some (AInt64 (pa_append a b)) | _ \<Rightarrow> None)
      | AFloat64 a \<Rightarrow> (case builder of AFloat64 b \<Rightarrow> Some (AFloat64 (pa_append a b)) | _ \<Rightarrow> None)
      | AString a \<Rightarrow> (case builder of AString b \<Rightarrow> Some (AString (pa_append a b)) | _ \<Rightarrow> None)
      | ABlob a \<Rightarrow> (case builder of ABlob b \<Rightarrow> Some (ABlob (pa_append a b)) | _ \<Rightarrow> None)
      | AVector a \<Rightarrow> (case builder of AVector b \<Rightarrow> map_option AVector (chb_append (cb_valid a) (cb_data a) (ch_elen a) b) | _ \<Rightarrow> None)
      | ADecimal a \<Rightarrow> (case builder of ADecimal b \<Rightarrow> Some (ADecimal (pa_append a b)) | _ \<Rightarrow> None)
      | ADate a \<Rightarrow> (case builder of ADate b \<Rightarrow> Some (ADate (pa_append a b)) | _ \<Rightarrow> None)
      | ATimestamp a \<Rightarrow> (case builder of ATimestamp b \<Rightarrow> Some (ATimestamp (pa_append a b)) | _ \<Rightarrow> None)
      | ATimestampTz a \<Rightarrow> (case builder of ATimestampTz b \<Rightarrow> Some (ATimestampTz (pa_append a b)) | _ \<Rightarrow> None)
      | AInterval a \<Rightarrow> (case builder of AInterval b \<Rightarrow> Some (AInterval (pa_append a b)) | _ \<Rightarrow> None))"

fun ai_filter :: "bool list \<Rightarrow> 'd array_impl \<Rightarrow> 'd array_impl option" where
  "ai_filter p (ANull a) = map_option ANull (pa_filter p a)"
| "ai_filter p (ABool a) = map_option ABool (pa_filter p a)"
| "ai_filter p (AInt16 a) = map_option AInt16 (pa_filter p a)"
| "ai_filter p (AInt32 a) = map_option AInt32 (pa_filter p a)"
| "ai_filter p (AInt64 a) = map_option AInt64 (pa_filter p a)"
| "ai_filter p (AFloat64 a) = map_option AFloat64 (pa_filter p a)"
| "ai_filter p (AString a) = map_option AString (sa_filter p a)"
| "ai_filter p (ABlob a) = map_option ABlob (sa_filter p a)"
| "ai_filter p (AVector a) = map_option AVector (ch_filter p a)"
| "ai_filter p (ADecimal a) = map_option ADecimal (pa_filter p a)"
| "ai_filter p (ADate a) = map_option ADate (pa_filter p a)"
| "ai_filter p (ATimestamp a) = map_option ATimestamp (pa_filter p a)"
| "ai_filter p (ATimestampTz a) = map_option ATimestampTz (pa_filter p a)"
| "ai_filter p (AInterval a) = map_option AInterval (pa_filter p a)"

fun ai_slice :: "'d \<Rightarrow> nat \<Rightarrow> nat \<Rightarrow> 'd array_impl \<Rightarrow> 'd array_impl option" where
  "ai_slice z lo hi (ANull a) = map_option ANull (pa_slice () lo hi a)"
| "ai_slice z lo hi (ABool a) = map_option ABool (pa_slice False lo hi a)"
| "ai_slice z lo hi (AInt16 a) = map_option AInt16 (pa_slice 0 lo hi a)"
| "ai_slice z lo hi (AInt32 a) = map_option AInt32 (pa_slice 0 lo hi a)"
| "ai_slice z lo hi (AInt64 a) = map_option AInt64 (pa_slice 0 lo hi a)"
| "ai_slice z lo hi (AFloat64 a) = map_option AFloat64 (pa_slice 0 lo hi a)"
| "ai_slice z lo hi (AString a) = map_option AString (pa_slice [] lo hi a)"
| "ai_slice z lo hi (ABlob a) = map_option ABlob (pa_slice [] lo hi a)"
| "ai_slice z lo hi (AVector a) = map_option AVector (ch_slice lo hi a)"
| "ai_slice z lo hi (ADecimal a) = map_option ADecimal (pa_slice z lo hi a)"
| "ai_slice z lo hi (ADate a) = map_option ADate (pa_slice 0 lo hi a)"
| "ai_slice z lo hi (ATimestamp a) = map_option ATimestamp (pa_slice 0 lo hi a)"
| "ai_slice z lo hi (ATimestampTz a) = map_option ATimestampTz (pa_slice 0 lo hi a)"
| "ai_slice z lo hi (AInterval a) = map_option AInterval (pa_slice interval_default lo hi a)"

definition pa_collect :: "'a list \<Rightarrow> 'a array" where
  "pa_collect xs = \<lparr>ar_valid = replicate (length xs) True, ar_data = xs\<rparr>"

fun ai_of_value :: "'d data_value \<Rightarrow> 'd array_impl option" where
  "ai_of_value VNull = Some (ANull (pa_from_iter () [None]))"
| "ai_of_value (VBool x) = Some (ABool (pa_collect [x]))"
| "ai_of_value (VInt16 x) = Some (AInt16 (pa_collect [x]))"
| "ai_of_value (VInt32 x) = Some (AInt32 (pa_collect [x]))"
| "ai_of_value (VInt64 x) = Some (AInt64 (pa_collect [x]))"
| "ai_of_value (VFloat64 x) = Some (AFloat64 (pa_collect [x]))"
| "ai_of_value (VString x) = Some (AString (pa_from_iter [] [Some x]))"
| "ai_of_value (VBlob x) = Some (ABlob (pa_from_iter [] [Some x]))"
| "ai_of_value (VDecimal x) = Some (ADecimal (pa_collect [x]))"
| "ai_of_value (VDate x) = Some (ADate (pa_collect [x]))"
| "ai_of_value (VTimestamp x) = Some (ATimestamp (pa_collect [x]))"
| "ai_of_value (VTimestampTz x) = Some (ATimestampTz (pa_collect [x]))"
| "ai_of_value (VInterval x) = Some (AInterval (pa_collect [x]))"
| "ai_of_value (VVector x) = map_option (AVector \<circ> fst \<circ> chb_take) (chb_push (Some x) ch_new)"

section \<open>The values of an array\<close>

definition ch_items :: "'u chunked_builder \<Rightarrow> 'u list option list" where
  "ch_items b = map (\<lambda>i. if cb_valid b ! i then Some (take (ch_elen b) (drop (ch_elen b * i) (cb_data b))) else None)
     [0..<length (cb_valid b)]"

definition ch_wf :: "'u chunked_builder \<Rightarrow> bool" where
  "ch_wf b \<longleftrightarrow> list_all id (cb_valid b) \<and> length (cb_data b) = ch_elen b * length (cb_valid b)
     \<and> (cb_element_length b = None \<longrightarrow> cb_valid b = [])"

fun ai_items :: "'d array_impl \<Rightarrow> 'd data_value list" where
  "ai_items (ANull a) = replicate (pa_len a) VNull"
| "ai_items (ABool a) = map (or_null VBool) (pa_items a)"
| "ai_items (AInt16 a) = map (or_null VInt16) (pa_items a)"
| "ai_items (AInt32 a) = map (or_null VInt32) (pa_items a)"
| "ai_items (AInt64 a) = map (or_null VInt64) (pa_items a)"
| "ai_items (AFloat64 a) = map (or_null VFloat64) (pa_items a)"
| "ai_items (AString a) = map (or_null VString) (pa_items a)"
| "ai_items (ABlob a) = map (or_null VBlob) (pa_items a)"
| "ai_items (AVector a) = map (or_null VVector) (ch_items a)"
| "ai_items (ADecimal a) = map (or_null VDecimal) (pa_items a)"
| "ai_items (ADate a) = map (or_null VDate) (pa_items a)"
| "ai_items (ATimestamp a) = map (or_null VTimestamp) (pa_items a)"
| "ai_items (ATimestampTz a) = map (or_null VTimestampTz) (pa_items a)"
| "ai_items (AInterval a) = map (or_null VInterval) (pa_items a)"

fun ai_wf :: "'d array_impl \<Rightarrow> bool" where
  "ai_wf (ANull a) = pa_wf a"
| "ai_wf (ABool a) = pa_wf a"
| "ai_wf (AInt16 a) = pa_wf a"
| "ai_wf (AInt32 a) = pa_wf a"
| "ai_wf (AInt64 a) = pa_wf a"
| "ai_wf (AFloat64 a) = pa_wf a"
| "ai_wf (AString a) = pa_wf a"
| "ai_wf (ABlob a) = pa_wf a"
| "ai_wf (AVector a) = ch_wf a"
| "ai_wf (ADecimal a) = pa_wf a"
| "ai_wf (ADate a) = pa_wf a"
| "ai_wf (ATimestamp a) = pa_wf a"
| "ai_wf (ATimestampTz a) = pa_wf a"
| "ai_wf (AInterval a) = pa_wf a"

text \<open>The type of an array, as the position of its values' variant.\<close>

fun ai_type :: "'d array_impl \<Rightarrow> nat" where
  "ai_type (ANull a) = 0"
| "ai_type (ABool a) = 1"
| "ai_type (AInt16 a) = 2"
| "ai_type (AInt32 a) = 3"
| "ai_type (AInt64 a) = 4"
| "ai_type (AFloat64 a) = 5"
| "ai_type (AString a) = 6"
| "ai_type (ABlob a) = 7"
| "ai_type (AVector a) = 13"
| "ai_type (ADecimal a) = 8"
| "ai_type (ADate a) = 9"
| "ai_type (ATimestamp a) = 10"
| "ai_type (ATimestampTz a) = 11"
| "ai_type (AInterval a) = 12"

text \<open>The values a builder takes: \<open>Null\<close> except for vectors, and the values of its own type; vectors all of one length.\<close>

definition ai_accepts :: "'d array_impl \<Rightarrow> 'd data_value \<Rightarrow> bool" where
  "ai_accepts b v \<longleftrightarrow>
     (case b of
        AVector a \<Rightarrow> (case v of VVector ws \<Rightarrow> cb_element_length a = None \<or> ch_elen a = length ws | _ \<Rightarrow> False)
      | _ \<Rightarrow> v = VNull \<or> variant_index v = ai_type b)"

lemma select_nth: "length p = length xs \<Longrightarrow> map ((!) xs) (filter (\<lambda>i. p ! i) [0..<length p]) = select p xs"
proof (induction p xs rule: list_induct2)
  case (Cons b p x xs)
  have "[0..<length (b # p)] = 0 # map Suc [0..<length p]" by (simp add: upt_conv_Cons map_Suc_upt del: upt_Suc)
  with Cons show ?case by (simp add: filter_map comp_def del: upt_Suc)
qed simp

lemma length_select: "length p = length xs \<Longrightarrow> length (select p xs) = length (filter id p)"
  by (induction p xs rule: list_induct2) simp_all

lemma map_select: "map f (select p xs) = select p (map f xs)"
  by (induction p xs rule: list_induct2') simp_all

lemma select_replicate: "length p = n \<Longrightarrow> select p (replicate n x) = replicate (length (filter id p)) x"
  by (induction p arbitrary: n) auto

lemma sa_filter_spec:
  assumes "pa_wf a" and "length p = pa_len a"
  shows "\<exists>a'. sa_filter p a = Some a' \<and> pa_wf a' \<and> pa_items a' = select p (pa_items a)"
proof -
  have "those (map (pa_get a) (filter (\<lambda>i. p ! i) [0..<length p])) = Some (map ((!) (pa_items a)) (filter (\<lambda>i. p ! i) [0..<length p]))"
    using assms by (intro those_map_Some) (auto simp: pa_get_eq)
  also have "map ((!) (pa_items a)) (filter (\<lambda>i. p ! i) [0..<length p]) = select p (pa_items a)"
    using assms by (intro select_nth) (simp add: length_pa_items)
  finally show ?thesis using assms pa.collect [of "[]" "select p (pa_items a)"] by (auto simp: sa_filter_def rust_assert_def)
qed

subsection \<open>Flat and sliced variable-length arrays agree\<close>

lemma va_items_view: "va_items a = pa_items (va_view a)"
  by (simp add: va_items_def pa_items_def va_view_def)

lemma va_wf_view: "va_wf a \<Longrightarrow> pa_wf (va_view a)"
  by (simp add: va_wf_def pa_wf_def va_view_def)

lemma va_cuts_push:
  assumes "va_offset b = 0 # os" and "\<forall>t\<in>set (0 # os). t \<le> length (va_data b)" and "last (0 # os) = length (va_data b)"
  shows "va_cuts (va_data b @ x) 0 (os @ [length (va_data b @ x)]) = va_cuts (va_data b) 0 os @ [x]"
  using assms va_cuts_extend [of 0 os "va_data b" x] by (auto simp: va_cuts_append split: if_splits)

lemma va_view_push:
  assumes wf: "va_wf b"
  shows "va_view (va_push v b) = pa_push [] v (va_view b)"
proof -
  from va_wf_offsets [OF wf] obtain os where os: "va_offset b = 0 # os"
    and le: "\<forall>t\<in>set (0 # os). t \<le> length (va_data b)" by metis
  from wf os have lst: "last (0 # os) = length (va_data b)" by (auto simp: va_wf_def)
  show ?thesis
    using va_cuts_push [OF os le lst, of "[]"] va_cuts_push [OF os le lst]
    by (cases v) (simp_all add: va_view_def va_push_def pa_push_def os Let_def)
qed

lemma va_view_fold_push: "va_wf b \<Longrightarrow> va_view (fold va_push vs b) = fold (pa_push []) vs (va_view b)"
  by (induction vs arbitrary: b) (simp_all add: va_view_push va_wf_push)


lemma va_repeat_eq: "va_repeat n x b = va_extend_from_raw_data (replicate n x) b"
  by (induction n arbitrary: b) (simp_all add: va_extend_from_raw_data_def)

lemma raw_data_offsets:
  assumes "va_offset b = 0 # os" and "\<forall>t\<in>set (0 # os). t \<le> length (va_data b)" and "last (0 # os) = length (va_data b)"
  shows "\<exists>os'. va_offset (va_extend_from_raw_data raws b) = 0 # os'
    \<and> va_cuts (va_data (va_extend_from_raw_data raws b)) 0 os' = va_cuts (va_data b) 0 os @ raws
    \<and> va_valid (va_extend_from_raw_data raws b) = va_valid b"
  using assms
proof (induction raws arbitrary: b os)
  case Nil
  then show ?case by (simp add: va_extend_from_raw_data_def)
next
  case (Cons x raws)
  let ?b = "b\<lparr>va_data := va_data b @ x, va_offset := va_offset b @ [length (va_data b @ x)]\<rparr>"
  have "va_extend_from_raw_data (x # raws) b = va_extend_from_raw_data raws ?b"
    by (simp add: va_extend_from_raw_data_def)
  moreover have "\<exists>os'. va_offset (va_extend_from_raw_data raws ?b) = 0 # os'
    \<and> va_cuts (va_data (va_extend_from_raw_data raws ?b)) 0 os' = va_cuts (va_data ?b) 0 (os @ [length (va_data b @ x)]) @ raws
    \<and> va_valid (va_extend_from_raw_data raws ?b) = va_valid ?b"
    by (rule Cons.IH) (use Cons.prems in auto)
  ultimately show ?case using va_cuts_push [OF Cons.prems, of x] by simp
qed

lemma va_view_from_data: "va_view (va_from_data raws valid) = \<lparr>ar_valid = valid, ar_data = raws\<rparr>"
  using raw_data_offsets [of "\<lparr>va_offset = [0], va_valid = [], va_data = []\<rparr>" "[]" raws]
  by (auto simp: va_from_data_def va_view_def Let_def)

lemma va_cuts_nulls: "va_cuts data st (os @ replicate n (length data)) = va_cuts data st os @ replicate n []"
  if "last (st # os) = length data"
  using that
proof (induction n arbitrary: os)
  case (Suc n)
  have "va_cuts data st ((os @ [length data]) @ replicate n (length data)) = va_cuts data st (os @ [length data]) @ replicate n []"
    by (rule Suc.IH) simp
  with Suc.prems show ?case by (simp add: va_cuts_append split: if_splits)
qed simp

lemma va_view_push_n:
  assumes wf: "va_wf b"
  shows "va_view (va_push_n n v b) = pa_push_n [] n v (va_view b)"
proof -
  from va_wf_offsets [OF wf] obtain os where os: "va_offset b = 0 # os"
    and le: "\<forall>t\<in>set (0 # os). t \<le> length (va_data b)" by metis
  from wf os have lst: "last (0 # os) = length (va_data b)" by (auto simp: va_wf_def)
  show ?thesis
  proof (cases v)
    case None
    with os va_cuts_nulls [OF lst, of n] show ?thesis by (simp add: va_view_def va_push_n_def pa_push_n_def)
  next
    case (Some x)
    with raw_data_offsets [of "b\<lparr>va_valid := va_valid b @ replicate n True\<rparr>" os "replicate n x"] os le lst show ?thesis
      by (auto simp: va_view_def va_push_n_def pa_push_n_def va_repeat_eq)
  qed
qed

lemma va_cuts_shift:
  "\<forall>t\<in>set (st # os). t \<le> length b \<Longrightarrow>
   va_cuts (a @ b) (st + length a) (map (\<lambda>x. x + length a) os) = va_cuts b st os"
  by (induction os arbitrary: st) auto

lemma va_cuts_concat: "va_cuts data st (xs @ ys) = va_cuts data st xs @ va_cuts data (last (st # xs)) ys"
  by (induction xs arbitrary: st) auto

lemma va_view_append:
  assumes "va_wf a" and "va_wf b"
  shows "map_option va_view (va_append a b) = Some (pa_append (va_view a) (va_view b))"
proof -
  from va_wf_offsets [OF assms(1)] obtain as where as: "va_offset a = 0 # as" "\<forall>t\<in>set (0 # as). t \<le> length (va_data a)" by metis
  from va_wf_offsets [OF assms(2)] obtain bs where bs: "va_offset b = 0 # bs" "\<forall>t\<in>set (0 # bs). t \<le> length (va_data b)" by metis
  have lst: "last (0 # bs) = length (va_data b)" using assms(2) bs(1) by (auto simp: va_wf_def)
  have "va_cuts (va_data b @ va_data a) 0 (bs @ map (\<lambda>x. x + length (va_data b)) as)
      = va_cuts (va_data b) 0 bs @ va_cuts (va_data a) 0 as"
    using va_cuts_shift [OF as(2), of "va_data b"] va_cuts_extend [OF bs(2), of "va_data a"] lst
    by (simp add: va_cuts_concat)
  then show ?thesis using as(1) bs(1) lst by (simp add: va_append_def va_view_def pa_append_def)
qed


subsection \<open>Vector arrays\<close>

lemma length_ch_items [simp]: "length (ch_items b) = length (cb_valid b)"
  by (simp add: ch_items_def)

lemma ch_get_eq:
  assumes "ch_wf b" and "i < length (cb_valid b)"
  shows "ch_get b i = Some (ch_items b ! i)"
proof -
  have "ch_elen b * (i + 1) \<le> length (cb_data b)"
    using assms by (simp add: ch_wf_def) (metis Suc_leI mult_Suc_right mult_le_mono2)
  then have "chb_get_raw (ch_elen b) (cb_data b) i = Some (take (ch_elen b) (drop (ch_elen b * i) (cb_data b)))"
    by (simp add: chb_get_raw_def algebra_simps)
  with assms show ?thesis by (simp add: ch_get_def ch_items_def index_at_def)
qed

lemma ch_items_cut:
  assumes "list_all id valid" and "length valid = length xs" and "\<forall>x\<in>set xs. length x = n" and "l = None \<longrightarrow> xs = []"
    and "\<forall>m. l = Some m \<longrightarrow> xs \<noteq> [] \<longrightarrow> m = n"
  shows "ch_wf \<lparr>cb_element_length = l, cb_valid = valid, cb_data = concat xs\<rparr>
    \<and> ch_items \<lparr>cb_element_length = l, cb_valid = valid, cb_data = concat xs\<rparr> = map Some xs"
proof (cases "xs = []")
  case True
  with assms show ?thesis by (cases l) (auto simp: ch_wf_def ch_items_def ch_elen_def)
next
  case False
  then have l: "l = Some n" using assms by (cases l) auto
  have len: "length (concat xs) = n * length xs" using concat_map_length [of xs id n] assms(3) by simp
  have "take n (drop (n * i) (concat xs)) = xs ! i" if "i < length xs" for i
  proof -
    have "drop (i * n) (concat (map id xs)) = concat (map id (drop i xs))"
      by (rule drop_concat_map) (use assms(3) in simp)
    then have "take n (drop (n * i) (concat xs)) = take n (concat (xs ! i # drop (Suc i) xs))"
      using that by (simp add: mult.commute Cons_nth_drop_Suc)
    also have "\<dots> = xs ! i" using assms(3) that by simp
    finally show ?thesis .
  qed
  moreover have "valid ! i" if "i < length xs" for i using assms(1,2) that by (auto simp: list_all_length)
  ultimately have "ch_items \<lparr>cb_element_length = Some n, cb_valid = valid, cb_data = concat xs\<rparr> = map Some xs"
    unfolding ch_items_def using assms(2) by (intro nth_equalityI) (simp_all add: ch_elen_def)
  then show ?thesis using assms(1,2) l len by (simp add: ch_wf_def ch_elen_def)
qed

text \<open>Every well-formed vector array is the concatenation of its elements.\<close>

definition ch_elems :: "'u chunked_builder \<Rightarrow> 'u list list" where
  "ch_elems b = map (\<lambda>i. take (ch_elen b) (drop (ch_elen b * i) (cb_data b))) [0..<length (cb_valid b)]"

lemma concat_cuts: "length data = n * k \<Longrightarrow> concat (map (\<lambda>i. take n (drop (n * i) data)) [0..<k]) = data"
proof (induction k arbitrary: data)
  case (Suc k)
  have "concat (map (\<lambda>i. take n (drop (n * i) (drop n data))) [0..<k]) = drop n data"
    by (rule Suc.IH) (use Suc.prems in simp)
  moreover have "map (\<lambda>i. take n (drop (n * i) data)) [0..<Suc k]
      = take n data # map (\<lambda>i. take n (drop (n * i) (drop n data))) [0..<k]"
    by (simp add: upt_conv_Cons map_Suc_upt [symmetric] comp_def add.commute del: upt_Suc)
  ultimately show ?case by simp
qed simp

lemma ch_wf_elems:
  assumes "ch_wf b"
  shows "cb_data b = concat (ch_elems b)" and "\<forall>x\<in>set (ch_elems b). length x = ch_elen b"
    and "length (ch_elems b) = length (cb_valid b)" and "ch_items b = map Some (ch_elems b)"
proof -
  have len: "length (cb_data b) = ch_elen b * length (cb_valid b)" and all: "list_all id (cb_valid b)"
    using assms by (simp_all add: ch_wf_def)
  from concat_cuts [OF len] show "cb_data b = concat (ch_elems b)" by (simp add: ch_elems_def)
  have "ch_elen b \<le> length (cb_data b) - ch_elen b * i" if "i < length (cb_valid b)" for i
    using that len by (metis (no_types, lifting) Suc_leI diff_mult_distrib2 le_diff_conv2 less_imp_le_nat mult_le_mono2
        mult_numeral_1_right nat_mult_1_right numeral_One plus_1_eq_Suc)
  then show "\<forall>x\<in>set (ch_elems b). length x = ch_elen b" by (auto simp: ch_elems_def)
  show "length (ch_elems b) = length (cb_valid b)" by (simp add: ch_elems_def)
  show "ch_items b = map Some (ch_elems b)" using all by (auto simp: ch_items_def ch_elems_def list_all_length)
qed

lemma chb_extend:
  assumes wf: "ch_wf b" and fit: "cb_element_length b = None \<or> ch_elen b = n" and new: "\<forall>x\<in>set xs. length x = n"
    and valid: "list_all id valid" "length valid = length xs"
  shows "\<exists>b'. update_element_length n (b\<lparr>cb_valid := cb_valid b @ valid, cb_data := cb_data b @ concat xs\<rparr>) = Some b'
    \<and> ch_wf b' \<and> ch_items b' = ch_items b @ map Some xs"
proof -
  let ?v = "cb_valid b @ valid" and ?xs = "ch_elems b @ xs"
  note e = ch_wf_elems [OF wf]
  have none: "ch_elems b = []" if "cb_element_length b = None" using that wf by (simp add: ch_wf_def ch_elems_def)
  have all: "\<forall>x\<in>set ?xs. length x = n" using fit new e(2) none by auto
  have "ch_wf \<lparr>cb_element_length = Some n, cb_valid = ?v, cb_data = concat ?xs\<rparr>
    \<and> ch_items \<lparr>cb_element_length = Some n, cb_valid = ?v, cb_data = concat ?xs\<rparr> = map Some ?xs"
    by (rule ch_items_cut [OF _ _ all]) (use wf valid e(3) in \<open>auto simp: ch_wf_def\<close>)
  moreover have "update_element_length n (b\<lparr>cb_valid := ?v, cb_data := cb_data b @ concat xs\<rparr>)
      = Some \<lparr>cb_element_length = Some n, cb_valid = ?v, cb_data = concat ?xs\<rparr>"
    using fit e(1) by (cases "cb_element_length b") (auto simp: update_element_length_def rust_assert_def ch_elen_def)
  ultimately show ?thesis using e(4) by simp
qed

lemma ch_wf_new [simp]: "ch_wf ch_new" and ch_items_new [simp]: "ch_items ch_new = []"
  by (simp_all add: ch_wf_def ch_new_def ch_elen_def ch_items_def)

lemma new_length: "cb_element_length ch_new = None \<or> ch_elen (ch_new :: 'u chunked_builder) = n"
  by (simp add: ch_new_def)

lemma chb_push_spec:
  assumes "ch_wf b" and "cb_element_length b = None \<or> ch_elen b = length x"
  shows "\<exists>b'. chb_push (Some x) b = Some b' \<and> ch_wf b' \<and> ch_items b' = ch_items b @ [Some x]"
proof -
  have "\<forall>y\<in>set [x]. length y = length x" "list_all id [True]" "length [True] = length [x]" by simp_all
  from chb_extend [OF assms this] show ?thesis
    by (simp only: chb_push_def option.case concat.simps append_Nil2 list.map)
qed

lemma chb_push_n_spec:
  assumes "ch_wf b" and "cb_element_length b = None \<or> ch_elen b = length x"
  shows "\<exists>b'. chb_push_n n (Some x) b = Some b' \<and> ch_wf b' \<and> ch_items b' = ch_items b @ replicate n (Some x)"
proof -
  have "list_all id (replicate n True)" by (simp add: list_all_length)
  moreover have "chb_push_n n (Some x) b = update_element_length (length x)
      (b\<lparr>cb_valid := cb_valid b @ replicate n True, cb_data := cb_data b @ concat (replicate n x)\<rparr>)"
    by (cases b) (auto simp: chb_push_n_def update_element_length_def rust_assert_def split: option.split)
  ultimately show ?thesis using chb_extend [OF assms, of "replicate n x" "replicate n True"] by (simp add: map_replicate)
qed

lemma chb_append_spec:
  assumes "ch_wf a" and "ch_wf b" and "cb_element_length b = None \<or> ch_elen b = ch_elen a"
  shows "\<exists>b'. chb_append (cb_valid a) (cb_data a) (ch_elen a) b = Some b' \<and> ch_wf b' \<and> ch_items b' = ch_items b @ ch_items a"
proof -
  note e = ch_wf_elems [OF assms(1)]
  have "list_all id (cb_valid a)" using assms(1) by (simp add: ch_wf_def)
  from chb_extend [OF assms(2,3) e(2) this e(3) [symmetric]] show ?thesis
    by (simp only: chb_append_def e(4) flip: e(1))
qed

lemma chb_take_spec:
  "ch_wf b \<Longrightarrow> ch_wf (fst (chb_take b)) \<and> ch_items (fst (chb_take b)) = ch_items b \<and> ch_wf (snd (chb_take b)) \<and> ch_items (snd (chb_take b)) = []"
  by (auto simp: chb_take_def ch_wf_def ch_items_def ch_elen_def)

lemma fold_push_spec:
  assumes "\<forall>x\<in>set xs. length x = n" and "ch_wf b" and "cb_element_length b = None \<or> ch_elen b = n"
  shows "\<exists>b'. fold_opt chb_push (map Some xs) b = Some b' \<and> ch_wf b' \<and> ch_items b' = ch_items b @ map Some xs"
  using assms
proof (induction xs arbitrary: b)
  case (Cons x xs)
  then obtain b1 where b1: "chb_push (Some x) b = Some b1" "ch_wf b1" "ch_items b1 = ch_items b @ [Some x]"
    using chb_push_spec [of b x] by auto
  have "ch_elen b1 = n"
  proof -
    have "length (ch_items b1) = Suc (length (ch_items b))" by (simp add: b1(3))
    moreover have "ch_items b1 ! length (ch_items b) = Some x" unfolding b1(3) by (rule nth_append_length)
    ultimately have "x \<in> set (ch_elems b1)" using ch_wf_elems(4) [OF b1(2)]
      by (metis in_set_conv_nth length_map lessI nth_map option.inject)
    then show ?thesis using ch_wf_elems(2) [OF b1(2)] Cons.prems(1) by auto
  qed
  with Cons.IH [of b1] Cons.prems b1 show ?case by auto
qed simp

lemma ch_collect_spec:
  assumes "ch_wf b" and "\<forall>i\<in>set idxs. i < length (cb_valid b)"
  shows "\<exists>b'. ch_collect idxs b = Some b' \<and> ch_wf b' \<and> ch_items b' = map ((!) (ch_items b)) idxs"
proof -
  let ?xs = "map ((!) (ch_elems b)) idxs"
  note e = ch_wf_elems [OF assms(1)]
  have eq: "map ((!) (ch_items b)) idxs = map Some ?xs" using assms(2) by (simp add: e(3,4))
  have "those (map (ch_get b) idxs) = Some (map ((!) (ch_items b)) idxs)"
    using assms by (intro those_map_Some) (simp add: ch_get_eq)
  moreover have "\<forall>x\<in>set ?xs. length x = ch_elen b" using assms(2) e(2,3) by auto
  then obtain b' where "fold_opt chb_push (map Some ?xs) ch_new = Some b'" "ch_wf b'" "ch_items b' = map Some ?xs"
    using fold_push_spec [OF _ ch_wf_new, of ?xs "ch_elen b"] new_length by (auto simp only: ch_items_new append_Nil)
  ultimately show ?thesis using chb_take_spec [of b'] eq by (simp add: ch_collect_def)
qed


subsection \<open>Dispatch\<close>

lemma length_ai_items: "ai_wf a \<Longrightarrow> length (ai_items a) = ai_len a"
  by (cases a) (simp_all add: length_pa_items)

lemma length_ai_valid: "ai_wf a \<Longrightarrow> length (ai_valid a) = ai_len a"
  by (cases a) (simp_all add: pa_len_def)

lemma ai_get_items: "ai_wf a \<Longrightarrow> i < ai_len a \<Longrightarrow> ai_get a i = Some (ai_items a ! i)"
  by (cases a) (simp_all add: pa_get_eq ch_get_eq length_pa_items)

lemma payload_of_same: "payload_of f VNull = Some None" "v \<noteq> VNull \<Longrightarrow> payload_of f v = map_option Some (f v)"
  by (cases v; simp add: payload_of_def)+

lemma pa_push_values:
  "pa_wf b \<Longrightarrow> pa_wf (pa_push d x b) \<and> map (or_null f) (pa_items (pa_push d x b)) = map (or_null f) (pa_items b) @ [or_null f x]"
  by simp

lemma pa_push_n_values:
  "pa_wf b \<Longrightarrow> pa_wf (pa_push_n d n x b)
     \<and> map (or_null f) (pa_items (pa_push_n d n x b)) = map (or_null f) (pa_items b) @ replicate n (or_null f x)"
  using pa.wf_fold_push [of b d "replicate n x"] pa.items_fold_push [of b d "replicate n x"]
  unfolding pa_push_n_eq by (simp only: map_append map_replicate)

lemma pa_len_push: "pa_len (pa_push d x b) = Suc (pa_len b)" "pa_len (pa_push_n d n x b) = pa_len b + n"
  "pa_len (pa_append a b) = pa_len b + pa_len a" "pa_len pa_new = 0"
  by (simp_all add: pa_len_def pa_push_def pa_push_n_def pa_append_def pa_new_def)

lemma or_null_simps [simp]: "or_null f None = VNull" "or_null f (Some x) = f x"
  by (simp_all add: or_null_def)

lemma ai_accepts_cases:
  assumes "ai_accepts b v"
  obtains (null) "v = VNull" "\<forall>a. b \<noteq> AVector a"
  | (bool) x a where "v = VBool x" "b = ABool a" | (int16) x a where "v = VInt16 x" "b = AInt16 a"
  | (int32) x a where "v = VInt32 x" "b = AInt32 a" | (int64) x a where "v = VInt64 x" "b = AInt64 a"
  | (float64) x a where "v = VFloat64 x" "b = AFloat64 a" | (str) x a where "v = VString x" "b = AString a"
  | (blob) x a where "v = VBlob x" "b = ABlob a" | (decimal) x a where "v = VDecimal x" "b = ADecimal a"
  | (date) x a where "v = VDate x" "b = ADate a" | (timestamp) x a where "v = VTimestamp x" "b = ATimestamp a"
  | (timestamptz) x a where "v = VTimestampTz x" "b = ATimestampTz a" | (interval) x a where "v = VInterval x" "b = AInterval a"
  | (vec) x a where "v = VVector x" "b = AVector a" "cb_element_length a = None \<or> ch_elen a = length x"
  using assms by (cases b; cases v; simp add: ai_accepts_def)

lemma ai_push_spec:
  assumes "ai_wf b" and "ai_accepts b v"
  shows "\<exists>b'. ai_push z v b = Some b' \<and> ai_wf b' \<and> ai_items b' = ai_items b @ [v] \<and> ai_type b' = ai_type b"
  using assms(2)
proof (cases rule: ai_accepts_cases)
  case null
  then show ?thesis using assms(1)
    by (cases b) (simp_all add: payload_of_same pa_len_push replicate_append_same)
next
  case (vec x a)
  then show ?thesis using assms(1) chb_push_spec [of a x] by (auto simp: payload_of_same)
qed (use assms(1) in \<open>simp_all add: payload_of_same\<close>)

lemma ai_push_n_spec:
  assumes "ai_wf b" and "ai_accepts b v"
  shows "\<exists>b'. ai_push_n z n v b = Some b' \<and> ai_wf b' \<and> ai_items b' = ai_items b @ replicate n v \<and> ai_type b' = ai_type b"
  using assms(2)
proof (cases rule: ai_accepts_cases)
  case null
  then show ?thesis using assms(1)
    by (cases b) (simp_all add: payload_of_same pa_len_push pa_push_n_values replicate_add)
next
  case (vec x a)
  then show ?thesis using assms(1) chb_push_n_spec [of a x n] by (auto simp: payload_of_same map_replicate)
qed (use assms(1) in \<open>simp_all add: payload_of_same pa_push_n_values\<close>)

lemma ai_push_mismatch:
  "v \<noteq> VNull \<Longrightarrow> variant_index v \<noteq> ai_type b \<Longrightarrow> ai_push z v b = None"
  by (cases b; cases v; simp add: payload_of_def)

lemma ai_append_spec:
  assumes "ai_wf a" and "ai_wf b" and "ai_type a = ai_type b" and "ai_type b \<noteq> 13"
  shows "\<exists>b'. ai_append a b = Some b' \<and> ai_wf b' \<and> ai_items b' = ai_items b @ ai_items a \<and> ai_type b' = ai_type b"
  using assms by (cases a; cases b; simp add: ai_append_def pa_append_items pa_len_push add.commute flip: replicate_add)

lemma ai_append_mismatch: "ai_type a \<noteq> ai_type b \<Longrightarrow> ai_append a b = None"
  by (cases a; cases b; simp add: ai_append_def)

lemma filter_values:
  assumes "pa_wf a" and "length p = pa_len a"
  shows "\<exists>a'. pa_filter p a = Some a' \<and> pa_wf a' \<and> map (or_null f) (pa_items a') = select p (map (or_null f) (pa_items a))
    \<and> pa_len a' = length (filter id p)"
proof -
  from pa_filter_spec [OF assms] obtain a' where a': "pa_filter p a = Some a'" "pa_wf a'" "pa_items a' = select p (pa_items a)" by blast
  then have "pa_len a' = length (filter id p)"
    using assms length_pa_items [of a'] length_select [of p "pa_items a"] by (simp add: length_pa_items)
  with a' show ?thesis by (simp add: map_select)
qed

lemma ai_filter_spec:
  assumes "ai_wf a" and "length p = ai_len a"
  shows "\<exists>a'. ai_filter p a = Some a' \<and> ai_wf a' \<and> ai_items a' = select p (ai_items a) \<and> ai_type a' = ai_type a"
proof (cases a)
  case (ANull b)
  then show ?thesis using assms filter_values [of b p "\<lambda>_. VNull"] by (fastforce simp: select_replicate)
next
  case (AString b)
  then show ?thesis using assms sa_filter_spec [of b p] by (auto simp: map_select)
next
  case (ABlob b)
  then show ?thesis using assms sa_filter_spec [of b p] by (auto simp: map_select)
next
  case (AVector b)
  have "\<exists>b'. ch_collect (filter (\<lambda>i. p ! i) [0..<length p]) b = Some b' \<and> ch_wf b'
      \<and> ch_items b' = map ((!) (ch_items b)) (filter (\<lambda>i. p ! i) [0..<length p])"
    by (rule ch_collect_spec) (use assms AVector in auto)
  moreover have "map ((!) (ch_items b)) (filter (\<lambda>i. p ! i) [0..<length p]) = select p (ch_items b)"
    by (rule select_nth) (use assms AVector in simp)
  ultimately show ?thesis using assms AVector by (auto simp: ch_filter_def rust_assert_def map_select)
qed (use assms filter_values in \<open>fastforce+\<close>)

lemma slice_values:
  assumes "pa_wf a" and "lo \<le> hi" and "hi \<le> pa_len a"
  shows "\<exists>a'. pa_slice d lo hi a = Some a' \<and> pa_wf a' \<and> map (or_null f) (pa_items a') = take (hi - lo) (drop lo (map (or_null f) (pa_items a)))
    \<and> pa_len a' = hi - lo"
proof -
  from pa_slice_spec [OF assms] obtain a' where a': "pa_slice d lo hi a = Some a'" "pa_wf a'"
    "pa_items a' = take (hi - lo) (drop lo (pa_items a))" by blast
  then have "pa_len a' = hi - lo" using assms length_pa_items [of a'] by (simp add: length_pa_items)
  with a' show ?thesis by (simp add: take_map drop_map)
qed

lemma ai_slice_spec:
  assumes "ai_wf a" and "lo \<le> hi" and "hi \<le> ai_len a"
  shows "\<exists>a'. ai_slice z lo hi a = Some a' \<and> ai_wf a' \<and> ai_items a' = take (hi - lo) (drop lo (ai_items a)) \<and> ai_type a' = ai_type a"
proof (cases a)
  case (AVector b)
  have "\<exists>b'. ch_collect [lo..<hi] b = Some b' \<and> ch_wf b' \<and> ch_items b' = map ((!) (ch_items b)) [lo..<hi]"
    by (rule ch_collect_spec) (use assms AVector in auto)
  moreover have "map ((!) (ch_items b)) [lo..<hi] = take (hi - lo) (drop lo (ch_items b))"
    using assms AVector by (intro nth_equalityI) simp_all
  ultimately show ?thesis using assms AVector by (auto simp: ch_slice_def rust_assert_def take_map drop_map)
next
  case (ANull b)
  then show ?thesis using assms slice_values [of b lo hi "()" "\<lambda>_. VNull"] by (fastforce simp: min_def)
qed (use assms slice_values in \<open>fastforce+\<close>)

end
