(* ===== verification/Texts.thy ===== *)
theory Texts
  imports Types Intervals
begin

text \<open>
  The textual forms of values: signed integers and booleans as \<open>str::parse\<close> and \<open>Display\<close> have them,
  intervals (\<open>types/interval.rs\<close>) and byte strings (\<open>types/blob.rs\<close>). Texts are ASCII for intervals; byte
  strings are parsed from arbitrary UTF-8 bytes. A parse error is a left injection, a panic is
  \<open>None\<close>.
\<close>

section \<open>Integers and booleans\<close>

definition show_int :: "int \<Rightarrow> string" where
  "show_int i = (if i < 0 then CHR ''-'' # show_nat (nat (- i)) else show_nat (nat i))"

definition int_range :: "nat \<Rightarrow> int \<Rightarrow> bool" where
  "int_range w i \<longleftrightarrow> - (2 ^ (w - 1)) \<le> i \<and> i < 2 ^ (w - 1)"

text \<open>\<open>str::parse\<close> for a signed integer of \<open>w\<close> bits: an optional sign, at least one digit, no overflow.\<close>

definition parse_int :: "nat \<Rightarrow> string \<Rightarrow> int option" where
  "parse_int w s =
     (let (neg, ds) = (case s of c # cs \<Rightarrow> if c = CHR ''-'' then (True, cs) else if c = CHR ''+'' then (False, cs) else (False, s) | [] \<Rightarrow> (False, []))
      in if ds = [] then None
         else do { n \<leftarrow> digits_value 0 ds;
                   let i = (if neg then - int n else int n);
                   if int_range w i then Some i else None })"

definition show_bool :: "bool \<Rightarrow> string" where
  "show_bool b = (if b then ''true'' else ''false'')"

definition parse_bool :: "string \<Rightarrow> bool option" where
  "parse_bool s = (if s = ''true'' then Some True else if s = ''false'' then Some False else None)"

lemma minus_not_digit [simp]: "\<not> is_digit CHR ''-''"
  by (simp add: is_digit_def digit_of_def Let_def)

lemma show_nat_first: "\<exists>c cs. show_nat n = c # cs \<and> c \<noteq> CHR ''-'' \<and> c \<noteq> CHR ''+''"
proof -
  obtain c cs where "show_nat n = c # cs" by (cases "show_nat n") auto
  moreover from this have "is_digit c" using show_nat_digits [of c n] by simp
  ultimately show ?thesis by force
qed

lemma parse_show_int:
  assumes "int_range w i"
  shows "parse_int w (show_int i) = Some i"
proof (cases "i < 0")
  case True
  with assms show ?thesis by (simp add: show_int_def parse_int_def)
next
  case False
  obtain c cs where c: "show_nat (nat i) = c # cs" "c \<noteq> CHR ''-''" "c \<noteq> CHR ''+''" using show_nat_first by blast
  have "digits_value 0 (c # cs) = Some (nat i)" using digits_value_show_nat [of "nat i"] c(1) by simp
  with c False assms show ?thesis by (simp add: show_int_def parse_int_def del: digits_value.simps)
qed

lemma parse_show_bool: "parse_bool (show_bool b) = Some b"
  by (simp add: parse_bool_def show_bool_def)

section \<open>Tokens\<close>

fun tokens_from :: "string \<Rightarrow> string \<Rightarrow> string list" where
  "tokens_from acc [] = (if acc = [] then [] else [acc])"
| "tokens_from acc (c # cs) =
     (if ascii_whitespace c then (if acc = [] then tokens_from [] cs else acc # tokens_from [] cs)
      else tokens_from (acc @ [c]) cs)"

definition split_ascii_whitespace :: "string \<Rightarrow> string list" where
  "split_ascii_whitespace s = tokens_from [] s"

fun join_space :: "string list \<Rightarrow> string" where
  "join_space [] = []"
| "join_space [t] = t"
| "join_space (t # ts) = t @ CHR '' '' # join_space ts"

lemma tokens_from_word: "\<forall>c\<in>set t. \<not> ascii_whitespace c \<Longrightarrow> tokens_from acc (t @ s) = tokens_from (acc @ t) s"
  by (induction t arbitrary: acc) auto

lemma space_whitespace [simp]: "ascii_whitespace CHR '' ''"
  by (simp add: ascii_whitespace_def)

lemma tokens_join:
  "\<forall>t\<in>set ts. t \<noteq> [] \<and> (\<forall>c\<in>set t. \<not> ascii_whitespace c) \<Longrightarrow> split_ascii_whitespace (join_space ts) = ts"
proof (induction ts rule: join_space.induct)
  case (2 t)
  then show ?case using tokens_from_word [of t "[]" "[]"] by (simp add: split_ascii_whitespace_def)
next
  case (3 t t' ts)
  then show ?case by (simp add: split_ascii_whitespace_def tokens_from_word)
qed (simp add: split_ascii_whitespace_def)

section \<open>Intervals\<close>

datatype parse_interval_error = InvalidNum string | InvalidUnit string

text \<open>One field of the printed form with the separator before it and the separator after it.\<close>

definition write_field :: "int \<Rightarrow> string \<Rightarrow> string \<times> string \<Rightarrow> string \<times> string" where
  "write_field val unit out =
     (case out of (text, space) \<Rightarrow>
        if val = 0 then out
        else (text @ space @ show_int val @ '' '' @ unit @ (if val = 1 \<or> val = -1 then '''' else ''s''), '' ''))"

definition show_interval :: "interval \<Rightarrow> string" where
  "show_interval v =
     fst (write_field (seconds v) ''second'' (write_field (minutes v) ''minute'' (write_field (hours v) ''hour''
       (write_field (days v) ''day'' (write_field (months v) ''month'' (write_field (years v) ''year'' ([], [])))))))"

record interval_parts =
  ip_years :: int
  ip_months :: int
  ip_days :: int
  ip_hours :: int
  ip_minutes :: int
  ip_seconds :: int

definition set_unit :: "string \<Rightarrow> int \<Rightarrow> interval_parts \<Rightarrow> interval_parts option" where
  "set_unit unit val p =
     (if unit = ''year'' \<or> unit = ''years'' then Some (p\<lparr>ip_years := val\<rparr>)
      else if unit = ''month'' \<or> unit = ''months'' then Some (p\<lparr>ip_months := val\<rparr>)
      else if unit = ''day'' \<or> unit = ''days'' then Some (p\<lparr>ip_days := val\<rparr>)
      else if unit = ''hour'' \<or> unit = ''hours'' then Some (p\<lparr>ip_hours := val\<rparr>)
      else if unit = ''minute'' \<or> unit = ''minutes'' then Some (p\<lparr>ip_minutes := val\<rparr>)
      else if unit = ''second'' \<or> unit = ''seconds'' then Some (p\<lparr>ip_seconds := val\<rparr>)
      else None)"

fun interval_tokens :: "string list \<Rightarrow> int option \<Rightarrow> interval_parts \<Rightarrow> parse_interval_error + interval_parts" where
  "interval_tokens [] last_val p = Inr p"
| "interval_tokens (t # ts) (Some val) p =
     (case set_unit t val p of Some p' \<Rightarrow> interval_tokens ts None p' | None \<Rightarrow> Inl (InvalidUnit t))"
| "interval_tokens (t # ts) None p =
     (case parse_int 32 t of Some val \<Rightarrow> interval_tokens ts (Some val) p | None \<Rightarrow> Inl (InvalidNum t))"

definition no_parts :: interval_parts where
  "no_parts = \<lparr>ip_years = 0, ip_months = 0, ip_days = 0, ip_hours = 0, ip_minutes = 0, ip_seconds = 0\<rparr>"

definition interval_of_parts :: "interval_parts \<Rightarrow> interval option" where
  "interval_of_parts p = do {
     y \<leftarrow> i32_check (ip_years p * 12);
     m \<leftarrow> i32_check (y + ip_months p);
     h \<leftarrow> i32_check (ip_hours p * 60);
     hm \<leftarrow> i32_check (h + ip_minutes p);
     s \<leftarrow> i32_check (hm * 60);
     hms \<leftarrow> i32_check (s + ip_seconds p);
     ms \<leftarrow> i32_check (hms * 1000);
     Some \<lparr>iv_months = m, iv_days = ip_days p, iv_ms = ms\<rparr> }"

text \<open>Underscores count as spaces. Trailing and leading whitespace is trimmed, which the split does again.\<close>

definition parse_interval :: "string \<Rightarrow> (parse_interval_error + interval) option" where
  "parse_interval s =
     (let s = trim_matches ascii_whitespace (map (\<lambda>c. if c = CHR ''_'' then CHR '' '' else c) s)
      in case interval_tokens (split_ascii_whitespace s) None no_parts of
           Inl e \<Rightarrow> Some (Inl e)
         | Inr p \<Rightarrow> map_option Inr (interval_of_parts p))"

subsection \<open>Printing and parsing\<close>

definition field_tokens :: "int \<Rightarrow> string \<Rightarrow> string list" where
  "field_tokens val unit = (if val = 0 then [] else [show_int val, unit @ (if val = 1 \<or> val = -1 then '''' else ''s'')])"

lemma join_space_append: "ts \<noteq> [] \<Longrightarrow> us \<noteq> [] \<Longrightarrow> join_space (ts @ us) = join_space ts @ CHR '' '' # join_space us"
proof (induction ts rule: join_space.induct)
  case (2 t)
  then show ?case by (cases us) auto
qed auto

definition written :: "string list \<Rightarrow> string \<times> string" where
  "written ts = (join_space ts, if ts = [] then [] else '' '')"

lemma write_field_tokens: "write_field val unit (written ts) = written (ts @ field_tokens val unit)"
  by (cases "ts = []") (auto simp: write_field_def written_def field_tokens_def join_space_append)

definition interval_words :: "interval \<Rightarrow> string list" where
  "interval_words v = field_tokens (years v) ''year'' @ field_tokens (months v) ''month'' @ field_tokens (days v) ''day''
     @ field_tokens (hours v) ''hour'' @ field_tokens (minutes v) ''minute'' @ field_tokens (seconds v) ''second''"

lemma show_interval_words: "show_interval v = join_space (interval_words v)"
proof -
  have "([], []) = written []" by (simp add: written_def)
  then show ?thesis by (simp add: show_interval_def write_field_tokens interval_words_def) (simp add: written_def)
qed

lemma show_int_chars: "c \<in> set (show_int i) \<Longrightarrow> is_digit c \<or> c = CHR ''-''"
  using show_nat_digits by (auto simp: show_int_def split: if_splits)

lemma digit_no_space: "is_digit c \<Longrightarrow> \<not> ascii_whitespace c"
  by (auto simp: is_digit_def digit_of_def ascii_whitespace_def Let_def split: if_splits)

lemma show_int_word: "show_int i \<noteq> []" "c \<in> set (show_int i) \<Longrightarrow> \<not> ascii_whitespace c" "c \<in> set (show_int i) \<Longrightarrow> c \<noteq> CHR ''_''"
proof -
  show "show_int i \<noteq> []" by (simp add: show_int_def)
  have minus: "\<not> ascii_whitespace CHR ''-''" by (simp add: ascii_whitespace_def)
  show "\<not> ascii_whitespace c" if "c \<in> set (show_int i)"
    using show_int_chars [OF that] digit_no_space [of c] minus by auto
  have "\<not> is_digit CHR ''_''" by (simp add: is_digit_def digit_of_def Let_def)
  then show "c \<noteq> CHR ''_''" if "c \<in> set (show_int i)"
    using show_int_chars [OF that] by auto
qed

definition plain_word :: "string \<Rightarrow> bool" where
  "plain_word t \<longleftrightarrow> t \<noteq> [] \<and> (\<forall>c\<in>set t. \<not> ascii_whitespace c \<and> c \<noteq> CHR ''_'')"

lemma unit_words:
  "u \<in> {''year'', ''month'', ''day'', ''hour'', ''minute'', ''second''} \<Longrightarrow> plain_word (u @ (if b then '''' else ''s''))"
  by (auto simp: plain_word_def ascii_whitespace_def)

lemma field_words:
  "u \<in> {''year'', ''month'', ''day'', ''hour'', ''minute'', ''second''} \<Longrightarrow> t \<in> set (field_tokens val u) \<Longrightarrow> plain_word t"
  using unit_words [of u "val = 1 \<or> val = -1"] show_int_word [where i = val]
  by (auto simp: field_tokens_def plain_word_def split: if_splits)

lemma interval_words_plain: "t \<in> set (interval_words v) \<Longrightarrow> plain_word t"
  unfolding interval_words_def set_append by (elim UnE; rule field_words; (assumption | simp))

lemma join_space_chars: "c \<in> set (join_space ts) \<Longrightarrow> c = CHR '' '' \<or> (\<exists>t\<in>set ts. c \<in> set t)"
  by (induction ts rule: join_space.induct) auto

lemma join_space_ends:
  "ts \<noteq> [] \<Longrightarrow> \<forall>t\<in>set ts. t \<noteq> [] \<Longrightarrow>
   join_space ts \<noteq> [] \<and> hd (join_space ts) = hd (hd ts) \<and> last (join_space ts) = last (last ts)"
  by (induction ts rule: join_space.induct) auto

lemma trim_join:
  assumes "\<forall>t\<in>set ts. plain_word t"
  shows "trim_matches ascii_whitespace (join_space ts) = join_space ts"
proof (cases "ts = []")
  case True
  then show ?thesis by (simp add: trim_matches_def)
next
  case False
  with assms join_space_ends [of ts] have e: "join_space ts \<noteq> []" "hd (join_space ts) = hd (hd ts)" "last (join_space ts) = last (last ts)"
    by (auto simp: plain_word_def)
  have "plain_word (hd ts)" "plain_word (last ts)" using assms False by simp_all
  with e have "\<not> ascii_whitespace (hd (join_space ts))" "\<not> ascii_whitespace (last (join_space ts))"
    by (auto simp: plain_word_def)
  with e(1) trim_matches_inner [of "[]" ascii_whitespace "[]" "join_space ts"] show ?thesis by simp
qed

lemma underscore_join:
  assumes "\<forall>t\<in>set ts. plain_word t"
  shows "map (\<lambda>c. if c = CHR ''_'' then CHR '' '' else c) (join_space ts) = join_space ts"
proof -
  have "c \<noteq> CHR ''_''" if "c \<in> set (join_space ts)" for c
    using join_space_chars [OF that] assms by (auto simp: plain_word_def)
  then show ?thesis by (intro map_idI) auto
qed

lemma field_parse:
  assumes "int_range 32 val"
  shows "interval_tokens (field_tokens val ''year'' @ ts) None p = interval_tokens ts None (p\<lparr>ip_years := if val = 0 then ip_years p else val\<rparr>)"
    "interval_tokens (field_tokens val ''month'' @ ts) None p = interval_tokens ts None (p\<lparr>ip_months := if val = 0 then ip_months p else val\<rparr>)"
    "interval_tokens (field_tokens val ''day'' @ ts) None p = interval_tokens ts None (p\<lparr>ip_days := if val = 0 then ip_days p else val\<rparr>)"
    "interval_tokens (field_tokens val ''hour'' @ ts) None p = interval_tokens ts None (p\<lparr>ip_hours := if val = 0 then ip_hours p else val\<rparr>)"
    "interval_tokens (field_tokens val ''minute'' @ ts) None p = interval_tokens ts None (p\<lparr>ip_minutes := if val = 0 then ip_minutes p else val\<rparr>)"
    "interval_tokens (field_tokens val ''second'' @ ts) None p = interval_tokens ts None (p\<lparr>ip_seconds := if val = 0 then ip_seconds p else val\<rparr>)"
  by (cases p; simp add: field_tokens_def parse_show_int [OF assms] set_unit_def)+

subsection \<open>The parts of an interval\<close>

lemma trunc_part_bounds: "i32_range a \<Longrightarrow> i32_range (trunc_div a b * b)" "b \<noteq> 0 \<Longrightarrow> i32_range a \<Longrightarrow> \<bar>b\<bar> \<noteq> 1 \<Longrightarrow> i32_range (trunc_div a b)"
proof -
  have m: "trunc_div a b * b = sgn a * (\<bar>b\<bar> * (\<bar>a\<bar> div \<bar>b\<bar>))"
    by (cases "b = 0") (auto simp: trunc_div_def sgn_if)
  have le: "0 \<le> \<bar>b\<bar> * (\<bar>a\<bar> div \<bar>b\<bar>)" "\<bar>b\<bar> * (\<bar>a\<bar> div \<bar>b\<bar>) \<le> \<bar>a\<bar>"
    by (cases "b = 0"; simp add: minus_mod_eq_mult_div [symmetric] zmod_le_nonneg_dividend)+
  show "i32_range a \<Longrightarrow> i32_range (trunc_div a b * b)"
    unfolding m using le by (auto simp: i32_range_def sgn_if)
  show "i32_range (trunc_div a b)" if "b \<noteq> 0" "i32_range a" "\<bar>b\<bar> \<noteq> 1"
  proof -
    have "2 \<le> \<bar>b\<bar>" using that by linarith
    then have "2 * (\<bar>a\<bar> div \<bar>b\<bar>) \<le> \<bar>b\<bar> * (\<bar>a\<bar> div \<bar>b\<bar>)" by (intro mult_right_mono) (auto simp: div_int_pos_iff)
    then have "2 * (\<bar>a\<bar> div \<bar>b\<bar>) \<le> \<bar>a\<bar>" "0 \<le> \<bar>a\<bar> div \<bar>b\<bar>" using le by (linarith, simp add: div_int_pos_iff)
    then show ?thesis using that by (auto simp: trunc_div_def i32_range_def sgn_if)
  qed
qed

lemma int_range_32: "int_range 32 i \<longleftrightarrow> i32_range i"
  by (simp add: int_range_def i32_range_def)

lemma interval_parts_back:
  assumes "interval_ok v" and "trunc_mod (iv_ms v) 1000 = 0"
  shows "interval_of_parts \<lparr>ip_years = years v, ip_months = months v, ip_days = days v,
    ip_hours = hours v, ip_minutes = minutes v, ip_seconds = seconds v\<rparr> = Some v"
proof -
  let ?s = "trunc_div (iv_ms v) 1000"
  have ok: "i32_range (iv_months v)" "i32_range (iv_ms v)" using assms(1) by (simp_all add: interval_ok_def)
  have ms: "?s * 1000 = iv_ms v" using trunc_div_mod [of 1000 "iv_ms v"] assms(2) by simp
  have s: "i32_range ?s" by (rule trunc_part_bounds(2)) (use ok in auto)
  then have s60: "i32_range (trunc_div ?s 60)" by (rule trunc_part_bounds(2) [rotated]) auto
  have hm: "hours v * 60 + minutes v = trunc_div ?s 60" using trunc_div_mod [of 60 "trunc_div ?s 60"] by (simp add: hours_def minutes_def)
  have hms: "trunc_div ?s 60 * 60 + seconds v = ?s" using trunc_div_mod [of 60 ?s] by (simp add: seconds_def)
  have "i32_range (hours v * 60)" "i32_range (trunc_div ?s 60 * 60)" using trunc_part_bounds(1) s s60 by (simp_all add: hours_def)
  moreover have "i32_range (years v * 12)" using trunc_part_bounds(1) [OF ok(1)] by (simp add: years_def)
  moreover have "years v * 12 + months v = iv_months v" using years_months [of v] by simp
  ultimately show ?thesis using ok s s60 by (simp add: interval_of_parts_def hm hms ms i32_check_def days_def)
qed

lemma part_ranges:
  assumes "interval_ok v"
  shows "int_range 32 (years v)" "int_range 32 (months v)" "int_range 32 (days v)"
    "int_range 32 (hours v)" "int_range 32 (minutes v)" "int_range 32 (seconds v)"
proof -
  have ok: "i32_range (iv_months v)" "i32_range (iv_days v)" "i32_range (iv_ms v)" using assms by (simp_all add: interval_ok_def)
  have m60: "i32_range (trunc_mod a 60)" for a using trunc_mod_bound [of 60 a] by (auto simp: i32_range_def)
  show "int_range 32 (years v)" "int_range 32 (months v)" "int_range 32 (days v)"
    using trunc_part_bounds(2) [OF _ ok(1), of 12] months_bound [of v] ok(2)
    by (auto simp: int_range_32 years_def days_def i32_range_def)
  have "i32_range (trunc_div (iv_ms v) 1000)" by (rule trunc_part_bounds(2)) (use ok in auto)
  then have "i32_range (trunc_div (trunc_div (iv_ms v) 1000) 60)" by (rule trunc_part_bounds(2) [rotated]) auto
  then have "i32_range (hours v)" unfolding hours_def by (rule trunc_part_bounds(2) [rotated]) auto
  then show "int_range 32 (hours v)" "int_range 32 (minutes v)" "int_range 32 (seconds v)"
    using m60 by (simp_all add: int_range_32 minutes_def seconds_def)
qed

text \<open>Printing an interval and parsing the text gives the interval back, for every interval of whole seconds.
  Milliseconds below a second are not printed.\<close>

theorem interval_text_roundtrip:
  assumes "interval_ok v" and "trunc_mod (iv_ms v) 1000 = 0"
  shows "parse_interval (show_interval v) = Some (Inr v)"
proof -
  let ?p = "\<lparr>ip_years = years v, ip_months = months v, ip_days = days v, ip_hours = hours v, ip_minutes = minutes v, ip_seconds = seconds v\<rparr>"
  note fields = field_parse [OF part_ranges(1) [OF assms(1)]] field_parse [OF part_ranges(2) [OF assms(1)]]
    field_parse [OF part_ranges(3) [OF assms(1)]] field_parse [OF part_ranges(4) [OF assms(1)]]
    field_parse [OF part_ranges(5) [OF assms(1)]] field_parse [OF part_ranges(6) [OF assms(1)]]
  have plain: "\<forall>t\<in>set (interval_words v). plain_word t" using interval_words_plain by blast
  then have tok: "split_ascii_whitespace (join_space (interval_words v)) = interval_words v"
    by (intro tokens_join) (auto simp: plain_word_def)
  have "interval_tokens (interval_words v @ []) None no_parts = Inr ?p"
    unfolding interval_words_def append_assoc by (simp only: fields interval_tokens.simps) (simp add: no_parts_def)
  then show ?thesis
    using interval_parts_back [OF assms]
    by (simp add: parse_interval_def show_interval_words underscore_join [OF plain] trim_join [OF plain] tok Let_def)
qed

theorem interval_text_roundtrip_witness:
  "parse_interval (show_interval \<lparr>iv_months = -18, iv_days = 1, iv_ms = 14706000\<rparr>) = Some (Inr \<lparr>iv_months = -18, iv_days = 1, iv_ms = 14706000\<rparr>)"
  by (rule interval_text_roundtrip) (simp_all add: interval_ok_def i32_range_def trunc_mod_def trunc_div_def)


section \<open>Byte strings\<close>

datatype parse_blob_error = BlobInt | BlobUnexpectedEof | BlobInvalidChar

definition utf8_continuation :: "byte \<Rightarrow> bool" where
  "utf8_continuation b \<longleftrightarrow> 0x80 \<le> b \<and> b < 0xC0"

definition is_char_boundary :: "byte list \<Rightarrow> nat \<Rightarrow> bool" where
  "is_char_boundary s i \<longleftrightarrow> i = 0 \<or> i = length s \<or> i < length s \<and> \<not> utf8_continuation (s ! i)"

definition hex_digit :: "byte \<Rightarrow> nat option" where
  "hex_digit b =
     (let n = unat b in
      if 48 \<le> n \<and> n \<le> 57 then Some (n - 48) else if 65 \<le> n \<and> n \<le> 70 then Some (n - 55)
      else if 97 \<le> n \<and> n \<le> 102 then Some (n - 87) else None)"

text \<open>\<open>u8::from_str_radix\<close> with base 16 on two bytes: a plus sign may stand for the first digit.\<close>

definition from_hex :: "byte \<Rightarrow> byte \<Rightarrow> byte option" where
  "from_hex a b =
     (if a = 43 then map_option of_nat (hex_digit b)
      else do { x \<leftarrow> hex_digit a; y \<leftarrow> hex_digit b; Some (of_nat (16 * x + y)) })"

function parse_blob_loop :: "byte list \<Rightarrow> byte list \<Rightarrow> (parse_blob_error + byte list) option" where
  "parse_blob_loop s v =
     (if s = [] then Some (Inr v)
      else if take 2 s = [92, 120] then
        (let ss = drop 2 s in
         if length ss < 2 then Some (Inl BlobUnexpectedEof)
         else if \<not> is_char_boundary s 2 then Some (Inl BlobInvalidChar)
         else if \<not> is_char_boundary ss 2 then None
         else (case from_hex (ss ! 0) (ss ! 1) of
             None \<Rightarrow> Some (Inl BlobInt)
           | Some b \<Rightarrow> parse_blob_loop (drop 2 ss) (v @ [b])))
      else if \<not> is_char_boundary s 1 then Some (Inl BlobInvalidChar)
      else parse_blob_loop (tl s) (v @ [hd s]))"
  by pat_completeness auto
termination by (relation "measure (length \<circ> fst)") auto

declare parse_blob_loop.simps [simp del]

definition parse_blob :: "byte list \<Rightarrow> (parse_blob_error + byte list) option" where
  "parse_blob s = parse_blob_loop s []"

definition hex_char :: "nat \<Rightarrow> byte" where
  "hex_char n = of_nat (if n < 10 then 48 + n else 55 + n)"

definition show_blob_byte :: "byte \<Rightarrow> byte list" where
  "show_blob_byte b =
     (if b = 92 then [92, 92] else if b = 39 then [39, 39]
      else if 32 \<le> b \<and> b \<le> 126 then [b]
      else [92, 120, hex_char (unat b div 16), hex_char (unat b mod 16)])"

definition show_blob :: "byte list \<Rightarrow> byte list" where
  "show_blob bs = concat (map show_blob_byte bs)"

lemma hex_digit_char: "n < 16 \<Longrightarrow> hex_digit (hex_char n) = Some n \<and> hex_char n \<noteq> 43 \<and> \<not> utf8_continuation (hex_char n)"
proof -
  assume n: "n < 16"
  define m where "m = (if n < 10 then 48 + n else 55 + n)"
  have u: "unat (hex_char n) = m" using n by (simp add: hex_char_def m_def unat_of_nat)
  have "hex_char n \<noteq> 43" using u n by (auto simp: m_def split: if_splits)
  moreover have "\<not> utf8_continuation (hex_char n)"
    using u n by (auto simp: utf8_continuation_def word_le_nat_alt word_less_nat_alt m_def)
  moreover have "hex_digit (hex_char n) = Some n" using u n by (auto simp: hex_digit_def m_def)
  ultimately show ?thesis by blast
qed

lemma from_hex_chars: "from_hex (hex_char (unat b div 16)) (hex_char (unat b mod 16)) = Some b"
proof -
  have "unat b div 16 < 16" "unat b mod 16 < 16" using unsigned_less [of b, where ?'a = nat] by simp_all
  moreover have "of_nat (16 * (unat b div 16) + unat b mod 16) = b" by (simp only: mult_div_mod_eq) simp
  ultimately show ?thesis using hex_digit_char by (simp add: from_hex_def del: of_nat_add of_nat_mult)
qed

text \<open>The first byte of a printed byte string is an ASCII character.\<close>

lemma show_blob_first: "show_blob bs = c # cs \<Longrightarrow> \<not> utf8_continuation c"
proof (cases bs)
  case (Cons b bs')
  assume "show_blob bs = c # cs"
  with Cons have "c = hd (show_blob_byte b)" by (auto simp: show_blob_def show_blob_byte_def split: if_splits)
  then show ?thesis
    by (auto simp: show_blob_byte_def utf8_continuation_def word_le_nat_alt word_less_nat_alt split: if_splits)
qed (simp add: show_blob_def)

lemma boundary_append: "is_char_boundary (xs @ show_blob bs) (length xs)"
proof (cases "show_blob bs")
  case (Cons c cs)
  with show_blob_first [OF Cons] show ?thesis by (simp add: is_char_boundary_def)
qed (simp add: is_char_boundary_def)

lemma parse_plain:
  assumes "b \<noteq> 92"
  shows "parse_blob_loop (b # show_blob bs) v = parse_blob_loop (show_blob bs) (v @ [b])"
proof -
  have "is_char_boundary (b # show_blob bs) 1" using boundary_append [of "[b]" bs] by simp
  then show ?thesis using assms by (subst parse_blob_loop.simps) (simp add: take_Cons')
qed

lemma parse_escaped:
  "parse_blob_loop ([92, 120, hex_char (unat b div 16), hex_char (unat b mod 16)] @ show_blob bs) v
   = parse_blob_loop (show_blob bs) (v @ [b])"
proof -
  have "unat b div 16 < 16" using unsigned_less [of b, where ?'a = nat] by simp
  then have "is_char_boundary ([92, 120, hex_char (unat b div 16), hex_char (unat b mod 16)] @ show_blob bs) 2"
    using hex_digit_char by (simp add: is_char_boundary_def)
  moreover have "is_char_boundary ([hex_char (unat b div 16), hex_char (unat b mod 16)] @ show_blob bs) 2"
    using boundary_append [of "[hex_char (unat b div 16), hex_char (unat b mod 16)]" bs] by (simp add: numeral_2_eq_2)
  ultimately show ?thesis by (subst parse_blob_loop.simps) (simp add: from_hex_chars)
qed

lemma parse_blob_shown:
  "\<forall>b\<in>set bs. b \<noteq> 92 \<and> b \<noteq> 39 \<Longrightarrow> parse_blob_loop (show_blob bs) v = Some (Inr (v @ bs))"
proof (induction bs arbitrary: v)
  case Nil
  then show ?case by (subst parse_blob_loop.simps) (simp add: show_blob_def)
next
  case (Cons b bs)
  have split: "show_blob (b # bs) = show_blob_byte b @ show_blob bs" by (simp add: show_blob_def)
  have "parse_blob_loop (show_blob (b # bs)) v = parse_blob_loop (show_blob bs) (v @ [b])"
    unfolding split using Cons.prems parse_plain [of b bs v] parse_escaped [of b bs v] by (simp add: show_blob_byte_def)
  with Cons show ?case by simp
qed

text \<open>Printing a byte string and parsing the text gives it back when it holds no backslash and no quote; those
  two are doubled by the printer and not undone by the parser.\<close>

theorem blob_text_roundtrip:
  "\<forall>b\<in>set bs. b \<noteq> 92 \<and> b \<noteq> 39 \<Longrightarrow> parse_blob (show_blob bs) = Some (Inr bs)"
  using parse_blob_shown [of bs "[]"] by (simp add: parse_blob_def)

theorem blob_text_roundtrip_witness: "parse_blob (show_blob [104, 105, 0, 255]) = Some (Inr [104, 105, 0, 255])"
  by (rule blob_text_roundtrip) simp

lemma blob_escape_doubles: "parse_blob (show_blob [92]) = Some (Inr [92, 92])" "parse_blob (show_blob [39]) = Some (Inr [39, 39])"
  by (simp_all add: parse_blob_def show_blob_def show_blob_byte_def parse_blob_loop.simps is_char_boundary_def utf8_continuation_def)

lemma blob_parse_panics: "parse_blob [92, 120, 97, 0xC3, 0xA9] = None"
  by (simp add: parse_blob_def parse_blob_loop.simps is_char_boundary_def utf8_continuation_def)

end
