(* ===== verification/Array_Ops.thy ===== *)
theory Array_Ops
  imports Array_Impl Texts
begin

text \<open>
  The vectorised operations on arrays (\<open>array/ops.rs\<close>). A kernel computes on the raw values of all
  slots, null or not, and combines the validity bitmaps; the bitmap operations are the pointwise ones
  by the theory of bitmaps. An operation returns \<open>None\<close> for a panic and the left injection for a
  conversion error. What comes from outside the repository (the arithmetic and text of doubles and
  decimals, regular expressions, the calendar's text) is in the record \<open>conv_ops\<close>.
\<close>

section \<open>What the operations are given\<close>

text \<open>A date and time without zone is the days from the common era with the microseconds of the day.\<close>

record chrono =
  chr_parse_date :: "byte list \<Rightarrow> int option"
  chr_parse_naive :: "string \<Rightarrow> byte list \<Rightarrow> (int \<times> int) option"
  chr_parse_offset :: "string \<Rightarrow> byte list \<Rightarrow> (int \<times> int) option"
  chr_from_millis :: "int \<Rightarrow> (int \<times> int) option"
  chr_show_date :: "int \<Rightarrow> byte list option"
  chr_show_naive :: "int \<times> int \<Rightarrow> byte list"
  chr_show_offset :: "int \<Rightarrow> byte list"

record 'd conv_ops =
  co_ext :: "'d ext_ops"
  co_chrono :: chrono
  co_zero :: 'd
  co_one :: 'd
  co_f64_of_int :: "int \<Rightarrow> u64"
  co_f64_trunc :: "u64 \<Rightarrow> int option"
  co_f64_sum :: "u64 list \<Rightarrow> u64"
  co_f64_sqrt :: "u64 \<Rightarrow> u64"
  co_f64_parse :: "byte list \<Rightarrow> u64 option"
  co_f64_show :: "u64 \<Rightarrow> byte list"
  co_dec_of_int :: "int \<Rightarrow> 'd"
  co_dec_of_f64 :: "u64 \<Rightarrow> 'd option"
  co_dec_trunc :: "'d \<Rightarrow> int option"
  co_dec_to_f64 :: "'d \<Rightarrow> u64 option"
  co_dec_neg :: "'d \<Rightarrow> 'd"
  co_dec_parse :: "byte list \<Rightarrow> 'd option"
  co_dec_show :: "'d \<Rightarrow> byte list"
  co_regex :: "byte list \<Rightarrow> (byte list \<Rightarrow> bool) option"

datatype 'd convert_error =
    ParseInt "byte list" | ParseFloat "byte list" | ParseBool "byte list" | ParseDecimal "byte list"
  | ParseDate "byte list" | ParseTimestamp "byte list" | ParseTimestampTz "byte list"
  | ParseInterval "byte list" parse_interval_error | ParseBlob "byte list" parse_blob_error | ParseVector "byte list"
  | FromDecimalError data_type 'd
  | Overflow "'d data_value" data_type
  | NoUnaryOp string string | NoBinaryOp string string string | NoTernaryOp string string string string
  | NoCast string data_type

type_synonym 'd array_result = "('d convert_error + 'd array_impl) option"

definition text_bytes :: "string \<Rightarrow> byte list" where
  "text_bytes s = map (\<lambda>c. of_nat (of_char c)) s"

definition bytes_text :: "byte list \<Rightarrow> string" where
  "bytes_text bs = map (\<lambda>b. char_of (unat b)) bs"

section \<open>Kernels\<close>

definition from_data :: "'c list \<Rightarrow> bool list \<Rightarrow> 'c array" where
  "from_data data valid = \<lparr>ar_valid = valid, ar_data = data\<rparr>"

definition binary_op :: "('a \<Rightarrow> 'b \<Rightarrow> 'c option) \<Rightarrow> 'a array \<Rightarrow> 'b array \<Rightarrow> 'c array option" where
  "binary_op f a b = do {
     rust_assert (pa_len a = pa_len b);
     data \<leftarrow> those (map2 f (ar_data a) (ar_data b));
     Some (from_data data (map2 (\<and>) (ar_valid a) (ar_valid b))) }"

definition unary_op :: "('a \<Rightarrow> 'c option) \<Rightarrow> 'a array \<Rightarrow> 'c array option" where
  "unary_op f a = do { data \<leftarrow> those (map f (ar_data a)); Some (from_data data (ar_valid a)) }"

fun try_unary_loop :: "('a \<Rightarrow> ('e + 'c) option) \<Rightarrow> 'c \<Rightarrow> 'a option list \<Rightarrow> 'c array \<Rightarrow> ('e + 'c array) option" where
  "try_unary_loop f d [] b = Some (Inr b)"
| "try_unary_loop f d (None # es) b = try_unary_loop f d es (pa_push d None b)"
| "try_unary_loop f d (Some e # es) b =
     (case f e of
        None \<Rightarrow> None
      | Some (Inl err) \<Rightarrow> Some (Inl err)
      | Some (Inr x) \<Rightarrow> try_unary_loop f d es (pa_push d (Some x) b))"

definition try_unary_op :: "('a \<Rightarrow> ('e + 'c) option) \<Rightarrow> 'c \<Rightarrow> 'a array \<Rightarrow> ('e + 'c array) option" where
  "try_unary_op f d a = do { es \<leftarrow> pa_to_vec a; try_unary_loop f d es pa_new }"

definition select_op :: "bool array \<Rightarrow> 'a array \<Rightarrow> 'a array \<Rightarrow> 'a array option" where
  "select_op s a b = do {
     rust_assert (pa_len a = pa_len b);
     let data = map (\<lambda>((x, y), c). if c then x else y) (zip (zip (ar_data a) (ar_data b)) (ar_data s));
     let valid = map2 (\<and>) (ar_valid s) (ar_valid a);
     let valid = map2 (\<or>) valid (map2 (\<lambda>x y. \<not> x \<and> y) (ar_valid s) (ar_valid b));
     Some (from_data data valid) }"

definition ternary_op :: "('a \<Rightarrow> 'b \<Rightarrow> 'c \<Rightarrow> 'o option) \<Rightarrow> 'o \<Rightarrow> 'a array \<Rightarrow> 'b array \<Rightarrow> 'c array \<Rightarrow> 'o array option" where
  "ternary_op f d a b c = do {
     xs \<leftarrow> pa_to_vec a; ys \<leftarrow> pa_to_vec b; zs \<leftarrow> pa_to_vec c;
     rs \<leftarrow> those (map (\<lambda>((x, y), z). case (x, y, z) of (Some x, Some y, Some z) \<Rightarrow> map_option Some (f x y z) | _ \<Rightarrow> Some None)
             (zip (zip xs ys) zs));
     Some (fold (pa_push d) rs pa_new) }"

definition clear_null :: "bool array \<Rightarrow> bool array" where
  "clear_null a = a\<lparr>ar_data := map2 (\<and>) (ar_data a) (ar_valid a)\<rparr>"

definition lift_ok :: "('c array \<Rightarrow> 'd array_impl) \<Rightarrow> 'c array option \<Rightarrow> 'd array_result" where
  "lift_ok con r = map_option (\<lambda>c. Inr (con c)) r"

definition lift_try :: "('c array \<Rightarrow> 'd array_impl) \<Rightarrow> ('d convert_error + 'c array) option \<Rightarrow> 'd array_result" where
  "lift_try con r = map_option (map_sum id con) r"

section \<open>Arithmetic\<close>

definition i16_check :: "int \<Rightarrow> int option" where
  "i16_check x = (if - (2 ^ 15) \<le> x \<and> x < 2 ^ 15 then Some x else None)"

fun arith_name :: "arith_op \<Rightarrow> string" where
  "arith_name OpAdd = ''add''" | "arith_name OpSub = ''sub''" | "arith_name OpMul = ''mul''"
| "arith_name OpDiv = ''unchecked_div''" | "arith_name OpRem = ''rem''"

definition float_arith :: "'d conv_ops \<Rightarrow> arith_op \<Rightarrow> u64 \<Rightarrow> u64 \<Rightarrow> u64 option" where
  "float_arith X op x y = Some (xf_arith (co_ext X) op x y)"

definition dec_arith :: "'d conv_ops \<Rightarrow> arith_op \<Rightarrow> 'd \<Rightarrow> 'd \<Rightarrow> 'd option" where
  "dec_arith X op x y = xd_arith (co_ext X) op x y"

definition date_arith :: "'d conv_ops \<Rightarrow> arith_op \<Rightarrow> int \<Rightarrow> interval \<Rightarrow> int option" where
  "date_arith X op x y =
     (case op of
        OpAdd \<Rightarrow> date_add (x_calendar (co_ext X)) x y
      | OpSub \<Rightarrow> date_sub (x_calendar (co_ext X)) x y
      | _ \<Rightarrow> None)"

definition no_binary :: "string \<Rightarrow> 'd array_impl \<Rightarrow> 'd array_impl \<Rightarrow> 'd array_result" where
  "no_binary name a b = Some (Inl (NoBinaryOp name (ai_type_string a) (ai_type_string b)))"

definition array_arith :: "'d conv_ops \<Rightarrow> arith_op \<Rightarrow> 'd array_impl \<Rightarrow> 'd array_impl \<Rightarrow> 'd array_result" where
  "array_arith X op self other =
     (let i32 = int_arith i32_check op; i64 = int_arith i64_check op; f64 = float_arith X op; dec = dec_arith X op;
          fl = co_f64_of_int X; de = co_dec_of_int X; err = no_binary (arith_name op) self other
      in case self of
        AInt16 a \<Rightarrow> (case other of
            AInt16 b \<Rightarrow> lift_ok AInt16 (binary_op (int_arith i16_check op) a b)
          | AInt32 b \<Rightarrow> lift_ok AInt32 (binary_op i32 a b)
          | AInt64 b \<Rightarrow> lift_ok AInt64 (binary_op i64 a b)
          | AFloat64 b \<Rightarrow> lift_ok AFloat64 (binary_op (\<lambda>x y. f64 (fl x) y) a b)
          | ADecimal b \<Rightarrow> lift_ok ADecimal (binary_op (\<lambda>x y. dec (de x) y) a b)
          | _ \<Rightarrow> err)
      | AInt32 a \<Rightarrow> (case other of
            AInt16 b \<Rightarrow> lift_ok AInt32 (binary_op i32 a b)
          | AInt32 b \<Rightarrow> lift_ok AInt32 (binary_op i32 a b)
          | AInt64 b \<Rightarrow> lift_ok AInt64 (binary_op i64 a b)
          | AFloat64 b \<Rightarrow> lift_ok AFloat64 (binary_op (\<lambda>x y. f64 (fl x) y) a b)
          | ADecimal b \<Rightarrow> lift_ok ADecimal (binary_op (\<lambda>x y. dec (de x) y) a b)
          | _ \<Rightarrow> err)
      | AInt64 a \<Rightarrow> (case other of
            AInt16 b \<Rightarrow> lift_ok AInt64 (binary_op i64 a b)
          | AInt32 b \<Rightarrow> lift_ok AInt64 (binary_op i64 a b)
          | AInt64 b \<Rightarrow> lift_ok AInt64 (binary_op i64 a b)
          | AFloat64 b \<Rightarrow> lift_ok AFloat64 (binary_op (\<lambda>x y. f64 (fl x) y) a b)
          | ADecimal b \<Rightarrow> lift_ok ADecimal (binary_op (\<lambda>x y. dec (de x) y) a b)
          | _ \<Rightarrow> err)
      | AFloat64 a \<Rightarrow> (case other of
            AInt16 b \<Rightarrow> lift_ok AFloat64 (binary_op (\<lambda>x y. f64 x (fl y)) a b)
          | AInt32 b \<Rightarrow> lift_ok AFloat64 (binary_op (\<lambda>x y. f64 x (fl y)) a b)
          | AInt64 b \<Rightarrow> lift_ok AFloat64 (binary_op (\<lambda>x y. f64 x (fl y)) a b)
          | AFloat64 b \<Rightarrow> lift_ok AFloat64 (binary_op f64 a b)
          | ADecimal b \<Rightarrow> lift_ok ADecimal (binary_op (\<lambda>x y. do { x \<leftarrow> co_dec_of_f64 X x; dec x y }) a b)
          | _ \<Rightarrow> err)
      | ADecimal a \<Rightarrow> (case other of
            AInt16 b \<Rightarrow> lift_ok ADecimal (binary_op (\<lambda>x y. dec x (de y)) a b)
          | AInt32 b \<Rightarrow> lift_ok ADecimal (binary_op (\<lambda>x y. dec x (de y)) a b)
          | AInt64 b \<Rightarrow> lift_ok ADecimal (binary_op (\<lambda>x y. dec x (de y)) a b)
          | AFloat64 b \<Rightarrow> lift_ok ADecimal (binary_op (\<lambda>x y. do { y \<leftarrow> co_dec_of_f64 X y; dec x y }) a b)
          | ADecimal b \<Rightarrow> lift_ok ADecimal (binary_op dec a b)
          | _ \<Rightarrow> err)
      | ADate a \<Rightarrow> (case other of AInterval b \<Rightarrow> lift_ok ADate (binary_op (date_arith X op) a b) | _ \<Rightarrow> err)
      | _ \<Rightarrow> err)"

text \<open>Zero divisors become null and are replaced by one, so that dividing does not panic on them.\<close>

definition safen :: "('a \<Rightarrow> bool) \<Rightarrow> 'a \<Rightarrow> bool list \<Rightarrow> 'a array \<Rightarrow> 'a array" where
  "safen zero one valid a =
     from_data (map (\<lambda>x. if zero x then one else x) (ar_data a)) (map2 (\<lambda>v x. v \<and> \<not> zero x) valid (ar_data a))"

definition F64_ONE :: u64 where
  "F64_ONE = 0x3FF0000000000000"

definition safen_dividend :: "'d conv_ops \<Rightarrow> 'd array_impl \<Rightarrow> bool list \<Rightarrow> 'd array_impl option" where
  "safen_dividend X arr valid =
     (case arr of
        AInt16 a \<Rightarrow> Some (AInt16 (safen (\<lambda>x. x = 0) 1 valid a))
      | AInt32 a \<Rightarrow> Some (AInt32 (safen (\<lambda>x. x = 0) 1 valid a))
      | AInt64 a \<Rightarrow> Some (AInt64 (safen (\<lambda>x. x = 0) 1 valid a))
      | AFloat64 a \<Rightarrow> Some (AFloat64 (safen f64_is_zero F64_ONE valid a))
      | ADecimal a \<Rightarrow> Some (ADecimal (safen (xd_is_zero (co_ext X)) (co_one X) valid a))
      | _ \<Rightarrow> None)"

definition array_div :: "'d conv_ops \<Rightarrow> 'd array_impl \<Rightarrow> 'd array_impl \<Rightarrow> 'd array_result" where
  "array_div X self other =
     (case safen_dividend X other (ai_valid other) of
        None \<Rightarrow> no_binary ''div'' self other
      | Some other' \<Rightarrow> array_arith X OpDiv self other')"

definition f64_neg :: "u64 \<Rightarrow> u64" where
  "f64_neg w = w XOR 0x8000000000000000"

definition no_unary :: "string \<Rightarrow> 'd array_impl \<Rightarrow> 'd array_result" where
  "no_unary name a = Some (Inl (NoUnaryOp name (ai_type_string a)))"

definition array_neg :: "'d conv_ops \<Rightarrow> 'd array_impl \<Rightarrow> 'd array_result" where
  "array_neg X self =
     (case self of
        AInt32 a \<Rightarrow> lift_ok AInt32 (unary_op (\<lambda>v. i32_check (- v)) a)
      | AInt64 a \<Rightarrow> lift_ok AInt64 (unary_op (\<lambda>v. i64_check (- v)) a)
      | AFloat64 a \<Rightarrow> lift_ok AFloat64 (unary_op (\<lambda>v. Some (f64_neg v)) a)
      | ADecimal a \<Rightarrow> lift_ok ADecimal (unary_op (\<lambda>v. Some (co_dec_neg X v)) a)
      | _ \<Rightarrow> no_unary ''-'' self)"

section \<open>Comparison\<close>

datatype cmp_op = CmpEq | CmpNe | CmpGt | CmpLt | CmpGe | CmpLe

fun cmp_holds :: "cmp_op \<Rightarrow> cmp_ordering \<Rightarrow> bool" where
  "cmp_holds CmpEq r \<longleftrightarrow> r = Equal" | "cmp_holds CmpNe r \<longleftrightarrow> r \<noteq> Equal"
| "cmp_holds CmpGt r \<longleftrightarrow> r = Greater" | "cmp_holds CmpLt r \<longleftrightarrow> r = Less"
| "cmp_holds CmpGe r \<longleftrightarrow> r \<noteq> Less" | "cmp_holds CmpLe r \<longleftrightarrow> r \<noteq> Greater"

fun cmp_name :: "cmp_op \<Rightarrow> string" where
  "cmp_name CmpEq = ''eq''" | "cmp_name CmpNe = ''ne''" | "cmp_name CmpGt = ''gt''"
| "cmp_name CmpLt = ''lt''" | "cmp_name CmpGe = ''ge''" | "cmp_name CmpLe = ''le''"

definition cmp_by :: "cmp_op \<Rightarrow> ('a \<Rightarrow> 'k::linorder) \<Rightarrow> ('b \<Rightarrow> 'k) \<Rightarrow> 'a \<Rightarrow> 'b \<Rightarrow> bool option" where
  "cmp_by op f g x y = Some (cmp_holds op (cmp_of (f x) (g y)))"

definition array_cmp :: "'d::linorder conv_ops \<Rightarrow> cmp_op \<Rightarrow> 'd array_impl \<Rightarrow> 'd array_impl \<Rightarrow> 'd array_result" where
  "array_cmp X op self other =
     (let ok = (\<lambda>r. lift_ok (\<lambda>c. ABool (clear_null c)) r); int_cmp = cmp_by op (\<lambda>x. x :: int) (\<lambda>y. y);
          fk = (\<lambda>x. f64_key (co_f64_of_int X x)); de = co_dec_of_int X; err = no_binary (cmp_name op) self other
      in case self of
        ABool a \<Rightarrow> (case other of ABool b \<Rightarrow> ok (binary_op (cmp_by op id id) a b) | _ \<Rightarrow> err)
      | AInt16 a \<Rightarrow> (case other of
            AInt16 b \<Rightarrow> ok (binary_op int_cmp a b)
          | AInt32 b \<Rightarrow> ok (binary_op int_cmp a b)
          | AInt64 b \<Rightarrow> ok (binary_op int_cmp a b)
          | AFloat64 b \<Rightarrow> ok (binary_op (cmp_by op fk f64_key) a b)
          | ADecimal b \<Rightarrow> ok (binary_op (cmp_by op de id) a b)
          | _ \<Rightarrow> err)
      | AInt32 a \<Rightarrow> (case other of
            AInt16 b \<Rightarrow> ok (binary_op int_cmp a b)
          | AInt32 b \<Rightarrow> ok (binary_op int_cmp a b)
          | AInt64 b \<Rightarrow> ok (binary_op int_cmp a b)
          | AFloat64 b \<Rightarrow> ok (binary_op (cmp_by op fk f64_key) a b)
          | ADecimal b \<Rightarrow> ok (binary_op (cmp_by op de id) a b)
          | _ \<Rightarrow> err)
      | AInt64 a \<Rightarrow> (case other of
            AInt16 b \<Rightarrow> ok (binary_op int_cmp a b)
          | AInt32 b \<Rightarrow> ok (binary_op int_cmp a b)
          | AInt64 b \<Rightarrow> ok (binary_op int_cmp a b)
          | AFloat64 b \<Rightarrow> ok (binary_op (cmp_by op fk f64_key) a b)
          | ADecimal b \<Rightarrow> ok (binary_op (cmp_by op de id) a b)
          | _ \<Rightarrow> err)
      | AFloat64 a \<Rightarrow> (case other of
            AInt16 b \<Rightarrow> ok (binary_op (cmp_by op f64_key fk) a b)
          | AInt32 b \<Rightarrow> ok (binary_op (cmp_by op f64_key fk) a b)
          | AInt64 b \<Rightarrow> ok (binary_op (cmp_by op f64_key fk) a b)
          | AFloat64 b \<Rightarrow> ok (binary_op (cmp_by op f64_key f64_key) a b)
          | ADecimal b \<Rightarrow> ok (binary_op (\<lambda>x y. do { x \<leftarrow> co_dec_of_f64 X x; cmp_by op id id x y }) a b)
          | _ \<Rightarrow> err)
      | ADecimal a \<Rightarrow> (case other of
            AInt16 b \<Rightarrow> ok (binary_op (cmp_by op id de) a b)
          | AInt32 b \<Rightarrow> ok (binary_op (cmp_by op id de) a b)
          | AInt64 b \<Rightarrow> ok (binary_op (cmp_by op id de) a b)
          | AFloat64 b \<Rightarrow> ok (binary_op (\<lambda>x y. do { y \<leftarrow> co_dec_of_f64 X y; cmp_by op id id x y }) a b)
          | ADecimal b \<Rightarrow> ok (binary_op (cmp_by op id id) a b)
          | _ \<Rightarrow> err)
      | AString a \<Rightarrow> (case other of AString b \<Rightarrow> ok (binary_op (cmp_by op (map uint) (map uint)) a b) | _ \<Rightarrow> err)
      | ADate a \<Rightarrow> (case other of ADate b \<Rightarrow> ok (binary_op int_cmp a b) | _ \<Rightarrow> err)
      | _ \<Rightarrow> err)"

section \<open>Logic\<close>

definition array_and :: "'d array_impl \<Rightarrow> 'd array_impl \<Rightarrow> 'd array_result" where
  "array_and self other =
     (case (self, other) of
        (ABool a, ABool b) \<Rightarrow>
          map_option (\<lambda>c.
            let a_false = map2 (\<lambda>x v. \<not> x \<and> v) (ar_data a) (ar_valid a);
                b_false = map2 (\<lambda>x v. \<not> x \<and> v) (ar_data b) (ar_valid b)
            in Inr (ABool (c\<lparr>ar_valid := map2 (\<or>) (map2 (\<or>) (ar_valid c) a_false) b_false\<rparr>)))
            (binary_op (\<lambda>x y. Some (x \<and> y)) a b)
      | _ \<Rightarrow> no_binary ''and'' self other)"

definition array_or :: "'d array_impl \<Rightarrow> 'd array_impl \<Rightarrow> 'd array_result" where
  "array_or self other =
     (case (self, other) of
        (ABool a, ABool b) \<Rightarrow>
          map_option (\<lambda>c. Inr (ABool (c\<lparr>ar_valid := map2 (\<or>) (ar_valid c) (ar_data c)\<rparr>)))
            (binary_op (\<lambda>x y. Some (x \<or> y)) a b)
      | _ \<Rightarrow> no_binary ''or'' self other)"

definition array_not :: "'d array_impl \<Rightarrow> 'd array_result" where
  "array_not self =
     (case self of
        ABool a \<Rightarrow> lift_ok (\<lambda>c. ABool (clear_null c)) (unary_op (\<lambda>b. Some (\<not> b)) a)
      | _ \<Rightarrow> no_unary ''not'' self)"


section \<open>Strings\<close>

definition like_to_regex :: "byte list \<Rightarrow> byte list" where
  "like_to_regex pattern =
     text_bytes ''^'' @ concat (map (\<lambda>c. if c = 37 then text_bytes ''.*'' else if c = 95 then text_bytes ''.'' else [c]) pattern)
     @ text_bytes ''$''"

definition array_like :: "'d conv_ops \<Rightarrow> byte list \<Rightarrow> 'd array_impl \<Rightarrow> 'd array_result" where
  "array_like X pattern self =
     (case self of
        AString a \<Rightarrow> do {
          is_match \<leftarrow> co_regex X (like_to_regex pattern);
          lift_ok (\<lambda>c. ABool (clear_null c)) (unary_op (\<lambda>s. Some (is_match s)) a) }
      | _ \<Rightarrow> no_unary ''like'' self)"

definition array_concat :: "'d array_impl \<Rightarrow> 'd array_impl \<Rightarrow> 'd array_result" where
  "array_concat self other =
     (case (self, other) of
        (AString a, AString b) \<Rightarrow> lift_ok AString (binary_op (\<lambda>x y. Some (x @ y)) a b)
      | _ \<Rightarrow> no_binary ''||'' self other)"

text \<open>The characters of a UTF-8 string: a byte that is no continuation starts one.\<close>

fun utf8_chars :: "byte list \<Rightarrow> byte list list" where
  "utf8_chars [] = []"
| "utf8_chars (b # bs) =
     (b # takeWhile utf8_continuation bs) # utf8_chars (drop (length (takeWhile utf8_continuation bs)) bs)"

definition saturating_add32 :: "int \<Rightarrow> int \<Rightarrow> int" where
  "saturating_add32 x y = max (- (2 ^ 31)) (min (2 ^ 31 - 1) (x + y))"

definition substring_of :: "byte list \<Rightarrow> int \<Rightarrow> int \<Rightarrow> byte list" where
  "substring_of a b c =
     (let chars = int (length (utf8_chars a));
          start = (if 0 \<le> b then b - 1 else chars + b);
          end' = saturating_add32 start c;
          (start, end') = (if start > end' then (end', start) else (start, end'));
          skip = max start 0;
          n = max (end' - skip) 0
      in concat (take (nat n) (drop (nat skip) (utf8_chars a))))"

definition array_substring :: "'d array_impl \<Rightarrow> 'd array_impl \<Rightarrow> 'd array_impl \<Rightarrow> 'd array_result" where
  "array_substring self start len =
     (case self of
        AString a \<Rightarrow> (case start of
            AInt32 b \<Rightarrow> (case len of
                AInt32 c \<Rightarrow> lift_ok AString (ternary_op (\<lambda>x y z. Some (substring_of x y z)) [] a b c)
              | _ \<Rightarrow> Some (Inl (NoTernaryOp ''substring'' (ai_type_string self) (ai_type_string start) (ai_type_string len))))
          | _ \<Rightarrow> Some (Inl (NoTernaryOp ''substring'' (ai_type_string self) (ai_type_string start) (ai_type_string len))))
      | _ \<Rightarrow> Some (Inl (NoTernaryOp ''substring'' (ai_type_string self) (ai_type_string start) (ai_type_string len))))"

text \<open>\<open>str::replace\<close>: every occurrence from left to right; an empty pattern matches at every character boundary.\<close>

function replace_all :: "byte list \<Rightarrow> byte list \<Rightarrow> byte list \<Rightarrow> byte list" where
  "replace_all from to s =
     (if s = [] \<or> from = [] then s
      else if take (length from) s = from then to @ replace_all from to (drop (length from) s)
      else hd s # replace_all from to (tl s))"
  by pat_completeness auto
termination by (relation "measure (\<lambda>(from, to, s). length s)") auto

declare replace_all.simps [simp del]

definition str_replace :: "byte list \<Rightarrow> byte list \<Rightarrow> byte list \<Rightarrow> byte list" where
  "str_replace from to s =
     (if from = [] then to @ concat (map (\<lambda>c. c @ to) (utf8_chars s)) else replace_all from to s)"

definition array_replace :: "byte list \<Rightarrow> byte list \<Rightarrow> 'd array_impl \<Rightarrow> 'd array_result" where
  "array_replace from to self =
     (case self of
        AString a \<Rightarrow> lift_ok AString (unary_op (\<lambda>s. Some (str_replace from to s)) a)
      | _ \<Rightarrow> no_unary ''replace'' self)"

section \<open>Dates, choice and vectors\<close>

datatype date_field = FieldYear | FieldMonth | FieldDay | FieldOther

definition array_extract :: "'d conv_ops \<Rightarrow> date_field \<Rightarrow> 'd array_impl \<Rightarrow> 'd array_result" where
  "array_extract X field self =
     (let cal = x_calendar (co_ext X) in
      case self of
        ADate a \<Rightarrow> (case field of
            FieldYear \<Rightarrow> lift_ok AInt32 (unary_op (date_year cal) a)
          | FieldMonth \<Rightarrow> lift_ok AInt32 (unary_op (date_month cal) a)
          | FieldDay \<Rightarrow> lift_ok AInt32 (unary_op (date_day cal) a)
          | FieldOther \<Rightarrow> None)
      | AInterval _ \<Rightarrow> None
      | _ \<Rightarrow> no_unary ''extract'' self)"

definition array_select :: "'d array_impl \<Rightarrow> 'd array_impl \<Rightarrow> 'd array_impl \<Rightarrow> 'd array_result" where
  "array_select self true_array false_array =
     (case self of
        ABool s \<Rightarrow>
          (let err = no_binary ''case'' true_array false_array in
           case true_array of
             AInt16 a \<Rightarrow> (case false_array of AInt16 b \<Rightarrow> lift_ok AInt16 (select_op s a b) | _ \<Rightarrow> err)
           | AInt32 a \<Rightarrow> (case false_array of AInt32 b \<Rightarrow> lift_ok AInt32 (select_op s a b) | _ \<Rightarrow> err)
           | AInt64 a \<Rightarrow> (case false_array of AInt64 b \<Rightarrow> lift_ok AInt64 (select_op s a b) | _ \<Rightarrow> err)
           | AFloat64 a \<Rightarrow> (case false_array of AFloat64 b \<Rightarrow> lift_ok AFloat64 (select_op s a b) | _ \<Rightarrow> err)
           | ADecimal a \<Rightarrow> (case false_array of ADecimal b \<Rightarrow> lift_ok ADecimal (select_op s a b) | _ \<Rightarrow> err)
           | ADate a \<Rightarrow> (case false_array of ADate b \<Rightarrow> lift_ok ADate (select_op s a b) | _ \<Rightarrow> err)
           | AInterval a \<Rightarrow> (case false_array of AInterval b \<Rightarrow> lift_ok AInterval (select_op s a b) | _ \<Rightarrow> err)
           | _ \<Rightarrow> err)
      | _ \<Rightarrow> no_unary ''case'' self)"

definition vec_raw :: "u64 chunked_builder \<Rightarrow> u64 list array option" where
  "vec_raw b = map_option (\<lambda>xs. from_data xs (cb_valid b))
     (those (map (chb_get_raw (ch_elen b) (cb_data b)) [0..<length (cb_valid b)]))"

definition dot_product :: "'d conv_ops \<Rightarrow> u64 list \<Rightarrow> u64 list \<Rightarrow> u64" where
  "dot_product X a b = co_f64_sum X (map2 (xf_arith (co_ext X) OpMul) a b)"

definition norm_squared :: "'d conv_ops \<Rightarrow> u64 list \<Rightarrow> u64" where
  "norm_squared X a = co_f64_sum X (map (\<lambda>x. xf_arith (co_ext X) OpMul x x) a)"

definition l2_distance :: "'d conv_ops \<Rightarrow> u64 list \<Rightarrow> u64 list \<Rightarrow> u64" where
  "l2_distance X a b =
     (let f = xf_arith (co_ext X)
      in co_f64_sqrt X (co_f64_sum X (map2 (\<lambda>x y. f OpMul (f OpSub x y) (f OpSub x y)) a b)))"

definition cosine_distance :: "'d conv_ops \<Rightarrow> u64 list \<Rightarrow> u64 list \<Rightarrow> u64" where
  "cosine_distance X a b =
     (let f = xf_arith (co_ext X)
      in f OpSub F64_ONE (f OpDiv (dot_product X a b) (co_f64_sqrt X (f OpMul (norm_squared X a) (norm_squared X b)))))"

definition vector_op :: "string \<Rightarrow> (u64 list \<Rightarrow> u64 list \<Rightarrow> u64) \<Rightarrow> 'd array_impl \<Rightarrow> 'd array_impl \<Rightarrow> 'd array_result" where
  "vector_op name f self other =
     (case self of
        AVector a \<Rightarrow> (case other of
            AVector b \<Rightarrow> do {
              a \<leftarrow> vec_raw a;
              b \<leftarrow> vec_raw b;
              lift_ok AFloat64 (binary_op (\<lambda>x y. Some (f x y)) a b) }
          | _ \<Rightarrow> no_binary name other self)
      | _ \<Rightarrow> no_binary name self other)"

definition vector_l2_distance :: "'d conv_ops \<Rightarrow> 'd array_impl \<Rightarrow> 'd array_impl \<Rightarrow> 'd array_result" where
  "vector_l2_distance X = vector_op ''vector_l2_distance'' (l2_distance X)"

definition vector_cosine_distance :: "'d conv_ops \<Rightarrow> 'd array_impl \<Rightarrow> 'd array_impl \<Rightarrow> 'd array_result" where
  "vector_cosine_distance X = vector_op ''vector_cosine_distance'' (cosine_distance X)"

definition vector_neg_inner_product :: "'d conv_ops \<Rightarrow> 'd array_impl \<Rightarrow> 'd array_impl \<Rightarrow> 'd array_result" where
  "vector_neg_inner_product X = vector_op ''vector_neg_inner_product'' (\<lambda>a b. f64_neg (dot_product X a b))"

section \<open>Dispatch on operators\<close>

datatype unary_operator = UPlus | UMinus | UNot | UOther string

datatype binary_operator =
    BArith arith_op
  | BCmp cmp_op
  | BAnd | BOr | BStringConcat
  | BOther string

definition array_unary_op :: "'d conv_ops \<Rightarrow> unary_operator \<Rightarrow> 'd array_impl \<Rightarrow> 'd array_result" where
  "array_unary_op X op self =
     (case op of
        UPlus \<Rightarrow> (case self of
            AInt32 _ \<Rightarrow> Some (Inr self) | AInt64 _ \<Rightarrow> Some (Inr self) | AFloat64 _ \<Rightarrow> Some (Inr self)
          | ADecimal _ \<Rightarrow> Some (Inr self) | AInterval _ \<Rightarrow> Some (Inr self)
          | _ \<Rightarrow> no_unary ''+'' self)
      | UMinus \<Rightarrow> array_neg X self
      | UNot \<Rightarrow> array_not self
      | UOther name \<Rightarrow> no_unary name self)"

definition array_binary_op :: "'d::linorder conv_ops \<Rightarrow> binary_operator \<Rightarrow> 'd array_impl \<Rightarrow> 'd array_impl \<Rightarrow> 'd array_result" where
  "array_binary_op X op self other =
     (case op of
        BArith OpDiv \<Rightarrow> array_div X self other
      | BArith a \<Rightarrow> array_arith X a self other
      | BCmp c \<Rightarrow> array_cmp X c self other
      | BAnd \<Rightarrow> array_and self other
      | BOr \<Rightarrow> array_or self other
      | BStringConcat \<Rightarrow> array_concat self other
      | BOther name \<Rightarrow> no_binary name self other)"

section \<open>Aggregation of one array\<close>

fun int_sum :: "(int \<Rightarrow> int option) \<Rightarrow> int list \<Rightarrow> int \<Rightarrow> int option" where
  "int_sum check [] acc = Some acc"
| "int_sum check (x # xs) acc = do { acc' \<leftarrow> check (acc + x); int_sum check xs acc' }"

fun dec_sum :: "'d conv_ops \<Rightarrow> 'd list \<Rightarrow> 'd \<Rightarrow> 'd option" where
  "dec_sum X [] acc = Some acc"
| "dec_sum X (x # xs) acc = do { acc' \<leftarrow> dec_arith X OpAdd acc x; dec_sum X xs acc' }"

definition array_sum :: "'d conv_ops \<Rightarrow> 'd array_impl \<Rightarrow> 'd data_value option" where
  "array_sum X self =
     (case self of
        AInt16 a \<Rightarrow> map_option VInt16 (int_sum i16_check (ar_data a) 0)
      | AInt32 a \<Rightarrow> map_option VInt32 (int_sum i32_check (ar_data a) 0)
      | AInt64 a \<Rightarrow> map_option VInt64 (int_sum i64_check (ar_data a) 0)
      | AFloat64 a \<Rightarrow> Some (VFloat64 (co_f64_sum X (ar_data a)))
      | ADecimal a \<Rightarrow> map_option VDecimal (dec_sum X (ar_data a) (co_zero X))
      | AInterval a \<Rightarrow> map_option VInterval (interval_sum (ar_data a) interval_default)
      | _ \<Rightarrow> None)"

definition array_count :: "'d array_impl \<Rightarrow> nat" where
  "array_count self = length (filter id (ai_valid self))"

text \<open>\<open>Iterator::min\<close> returns the first least element, \<open>Iterator::max\<close> the last greatest one.\<close>

fun least_value :: "'d::linorder data_value \<Rightarrow> 'd data_value list \<Rightarrow> 'd data_value" where
  "least_value m [] = m"
| "least_value m (v # vs) = least_value (if value_cmp v m = Less then v else m) vs"

fun greatest_value :: "'d::linorder data_value \<Rightarrow> 'd data_value list \<Rightarrow> 'd data_value" where
  "greatest_value m [] = m"
| "greatest_value m (v # vs) = greatest_value (if value_cmp v m = Less then m else v) vs"

definition nonnull_values :: "'d array_impl \<Rightarrow> 'd data_value list" where
  "nonnull_values self = filter (\<lambda>v. \<not> is_null v) (ai_items self)"

definition array_min :: "'d::linorder array_impl \<Rightarrow> 'd data_value" where
  "array_min self = (case nonnull_values self of [] \<Rightarrow> VNull | v # vs \<Rightarrow> least_value v vs)"

definition array_max :: "'d::linorder array_impl \<Rightarrow> 'd data_value" where
  "array_max self = (case nonnull_values self of [] \<Rightarrow> VNull | v # vs \<Rightarrow> greatest_value v vs)"

definition array_first :: "'d array_impl \<Rightarrow> 'd data_value" where
  "array_first self = (case ai_items self of [] \<Rightarrow> VNull | v # _ \<Rightarrow> v)"

definition array_last :: "'d array_impl \<Rightarrow> 'd data_value" where
  "array_last self = (case rev (ai_items self) of [] \<Rightarrow> VNull | v # _ \<Rightarrow> v)"

end
