(* ===== verification/Array_Laws.thy ===== *)
theory Array_Laws
  imports Array_Ops
begin

text \<open>
  What the vectorised operations compute, row by row. The reference works on single SQL values: a
  null operand gives null, two numbers are widened to the wider of their types and combined there.
  A kernel computes on the raw values of null slots as well, so it also panics where a null slot
  would; \<open>rowwise\<close> states result, errors and panics together.
\<close>

section \<open>The reference on single values\<close>

fun num_rank :: "'d data_value \<Rightarrow> nat option" where
  "num_rank (VInt16 _) = Some 1" | "num_rank (VInt32 _) = Some 2" | "num_rank (VInt64 _) = Some 3"
| "num_rank (VFloat64 _) = Some 4" | "num_rank (VDecimal _) = Some 5" | "num_rank _ = None"

fun int_value :: "'d data_value \<Rightarrow> int option" where
  "int_value (VInt16 i) = Some i" | "int_value (VInt32 i) = Some i" | "int_value (VInt64 i) = Some i"
| "int_value _ = None"

definition widen :: "'d conv_ops \<Rightarrow> nat \<Rightarrow> 'd data_value \<Rightarrow> 'd data_value option" where
  "widen X r v =
     (if num_rank v = Some r then Some v
      else case v of
        VFloat64 w \<Rightarrow> map_option VDecimal (co_dec_of_f64 X w)
      | _ \<Rightarrow> do { i \<leftarrow> int_value v;
               Some (if r = 2 then VInt32 i else if r = 3 then VInt64 i
                     else if r = 4 then VFloat64 (co_f64_of_int X i) else VDecimal (co_dec_of_int X i)) })"

definition same_type_arith :: "'d conv_ops \<Rightarrow> arith_op \<Rightarrow> 'd data_value \<Rightarrow> 'd data_value \<Rightarrow> 'd data_value option" where
  "same_type_arith X op u v =
     (case u of
        VInt16 x \<Rightarrow> do { y \<leftarrow> as_int16 v; map_option VInt16 (int_arith i16_check op x y) }
      | _ \<Rightarrow> value_arith (co_ext X) op u v)"

definition widened :: "'d conv_ops \<Rightarrow> ('d data_value \<Rightarrow> 'd data_value \<Rightarrow> 'd data_value option) \<Rightarrow> 'd data_value \<Rightarrow> 'd data_value \<Rightarrow> 'd data_value option" where
  "widened X f u v =
     (if is_null u \<or> is_null v then Some VNull
      else case (num_rank u, num_rank v) of
        (Some r, Some s) \<Rightarrow> do { u' \<leftarrow> widen X (max r s) u; v' \<leftarrow> widen X (max r s) v; f u' v' }
      | _ \<Rightarrow> f u v)"

definition row_arith :: "'d conv_ops \<Rightarrow> arith_op \<Rightarrow> 'd data_value \<Rightarrow> 'd data_value \<Rightarrow> 'd data_value option" where
  "row_arith X op = widened X (same_type_arith X op)"

definition row_cmp :: "'d::linorder conv_ops \<Rightarrow> cmp_op \<Rightarrow> 'd data_value \<Rightarrow> 'd data_value \<Rightarrow> 'd data_value option" where
  "row_cmp X op = widened X (\<lambda>u v. Some (VBool (cmp_holds op (value_cmp u v))))"

definition row_div :: "'d conv_ops \<Rightarrow> 'd data_value \<Rightarrow> 'd data_value \<Rightarrow> 'd data_value option" where
  "row_div X u v = (if value_is_zero (co_ext X) v then Some VNull else row_arith X OpDiv u v)"

section \<open>Row by row\<close>

text \<open>The raw values of all slots.\<close>

fun ai_raw :: "'d array_impl \<Rightarrow> 'd data_value list" where
  "ai_raw (ANull a) = replicate (pa_len a) VNull" | "ai_raw (ABool a) = map VBool (ar_data a)"
| "ai_raw (AInt16 a) = map VInt16 (ar_data a)" | "ai_raw (AInt32 a) = map VInt32 (ar_data a)"
| "ai_raw (AInt64 a) = map VInt64 (ar_data a)" | "ai_raw (AFloat64 a) = map VFloat64 (ar_data a)"
| "ai_raw (AString a) = map VString (ar_data a)" | "ai_raw (ABlob a) = map VBlob (ar_data a)"
| "ai_raw (AVector a) = map VVector (ch_elems a)" | "ai_raw (ADecimal a) = map VDecimal (ar_data a)"
| "ai_raw (ADate a) = map VDate (ar_data a)" | "ai_raw (ATimestamp a) = map VTimestamp (ar_data a)"
| "ai_raw (ATimestampTz a) = map VTimestampTz (ar_data a)" | "ai_raw (AInterval a) = map VInterval (ar_data a)"

definition raw_ok :: "('d data_value \<Rightarrow> 'd data_value \<Rightarrow> 'd data_value option) \<Rightarrow> 'd array_impl \<Rightarrow> 'd array_impl \<Rightarrow> bool" where
  "raw_ok row a b \<longleftrightarrow> ai_len a = ai_len b \<and> list_all2 (\<lambda>u v. row u v \<noteq> None) (ai_raw a) (ai_raw b)"

definition rowwise :: "('d data_value \<Rightarrow> 'd data_value \<Rightarrow> 'd data_value option) \<Rightarrow> 'd array_impl \<Rightarrow> 'd array_impl \<Rightarrow> 'd array_result \<Rightarrow> bool" where
  "rowwise row a b r \<longleftrightarrow>
     (if raw_ok row a b
      then \<exists>c. r = Some (Inr c) \<and> ai_wf c \<and> map Some (ai_items c) = map2 row (ai_items a) (ai_items b)
      else r = None)"

lemma those_map2: "those (map2 f xs ys) = (if \<forall>p\<in>set (zip xs ys). f (fst p) (snd p) \<noteq> None then Some (map2 (\<lambda>x y. the (f x y)) xs ys) else None)"
  by (induction xs ys rule: list_induct2') (auto split: option.splits)

definition lift_row :: "('a \<Rightarrow> 'b \<Rightarrow> 'c option) \<Rightarrow> 'a option \<Rightarrow> 'b option \<Rightarrow> 'c option" where
  "lift_row f u v = do { x \<leftarrow> u; y \<leftarrow> v; f x y }"

lemma binary_op_eq:
  assumes "pa_wf a" and "pa_wf b"
  shows "if pa_len a = pa_len b \<and> list_all2 (\<lambda>x y. f x y \<noteq> None) (ar_data a) (ar_data b)
    then \<exists>c. binary_op f a b = Some c \<and> pa_wf c \<and> pa_items c = map2 (lift_row f) (pa_items a) (pa_items b)
      \<and> ar_valid c = map2 (\<and>) (ar_valid a) (ar_valid b)
    else binary_op f a b = None"
proof (cases "pa_len a = pa_len b")
  case True
  have len: "length (ar_data a) = length (ar_data b)" "length (ar_valid a) = length (ar_data a)" "length (ar_valid b) = length (ar_data b)"
    using assms True by (simp_all add: pa_wf_def pa_len_def)
  have all: "list_all2 (\<lambda>x y. f x y \<noteq> None) (ar_data a) (ar_data b) \<longleftrightarrow> (\<forall>p\<in>set (zip (ar_data a) (ar_data b)). f (fst p) (snd p) \<noteq> None)"
    using len by (auto simp: list_all2_iff)
  show ?thesis
  proof (cases "list_all2 (\<lambda>x y. f x y \<noteq> None) (ar_data a) (ar_data b)")
    case ok: True
    define c where "c = from_data (map2 (\<lambda>x y. the (f x y)) (ar_data a) (ar_data b)) (map2 (\<and>) (ar_valid a) (ar_valid b))"
    have "binary_op f a b = Some c" using True ok all by (simp add: binary_op_def those_map2 rust_assert_def c_def)
    moreover have "pa_wf c" using len by (simp add: c_def from_data_def pa_wf_def)
    moreover have "pa_items c = map2 (lift_row f) (pa_items a) (pa_items b)"
    proof (rule nth_equalityI)
      fix i assume i: "i < length (pa_items c)"
      then have i: "i < length (ar_data a)" using len by (simp add: c_def from_data_def pa_items_def)
      then have "f (ar_data a ! i) (ar_data b ! i) \<noteq> None" using ok by (auto simp: list_all2_conv_all_nth)
      with i len show "pa_items c ! i = map2 (lift_row f) (pa_items a) (pa_items b) ! i"
        by (auto simp: c_def from_data_def pa_items_def lift_row_def)
    qed (use len in \<open>simp add: c_def from_data_def pa_items_def\<close>)
    ultimately show ?thesis using True ok by (simp add: c_def from_data_def)
  next
    case False
    with all have "those (map2 f (ar_data a) (ar_data b)) = None" unfolding those_map2 by simp
    with False show ?thesis by (simp add: binary_op_def rust_assert_def)
  qed
qed (simp add: binary_op_def rust_assert_def)

text \<open>One arm of a dispatch: a kernel \<open>f\<close> on the payloads that agrees with the reference \<open>row\<close> on the values.\<close>

lemma arm:
  assumes wf: "pa_wf a" "pa_wf b"
    and f: "\<And>x y. row (C x) (D y) = map_option E (f x y)"
    and null: "\<And>v. row VNull v = Some VNull" "\<And>u. row u VNull = Some VNull"
  shows "if pa_len a = pa_len b \<and> list_all2 (\<lambda>u v. row u v \<noteq> None) (map C (ar_data a)) (map D (ar_data b))
    then \<exists>c. binary_op f a b = Some c \<and> pa_wf c
      \<and> map Some (map (or_null E) (pa_items c)) = map2 row (map (or_null C) (pa_items a)) (map (or_null D) (pa_items b))
    else binary_op f a b = None"
proof -
  have ok: "list_all2 (\<lambda>u v. row u v \<noteq> None) (map C (ar_data a)) (map D (ar_data b))
      \<longleftrightarrow> list_all2 (\<lambda>x y. f x y \<noteq> None) (ar_data a) (ar_data b)"
    by (simp add: list.rel_map f)
  show ?thesis
  proof (cases "pa_len a = pa_len b \<and> list_all2 (\<lambda>x y. f x y \<noteq> None) (ar_data a) (ar_data b)")
    case True
    with binary_op_eq [OF wf, of f] obtain c where c: "binary_op f a b = Some c" "pa_wf c"
      "pa_items c = map2 (lift_row f) (pa_items a) (pa_items b)" by auto
    have len: "length (pa_items a) = length (pa_items b)" using True wf by (simp add: length_pa_items)
    have "Some (or_null E (lift_row f (pa_items a ! i) (pa_items b ! i))) = row (or_null C (pa_items a ! i)) (or_null D (pa_items b ! i))"
      if "i < length (pa_items a)" for i
    proof -
      have "pa_items a ! i = None \<or> pa_items a ! i = Some (ar_data a ! i)" "pa_items b ! i = None \<or> pa_items b ! i = Some (ar_data b ! i)"
        using that len wf by (auto simp: pa_items_def pa_wf_def)
      moreover have "f (ar_data a ! i) (ar_data b ! i) \<noteq> None"
        using True that wf by (auto simp: list_all2_conv_all_nth length_pa_items pa_len_def pa_wf_def)
      ultimately show ?thesis by (auto simp: lift_row_def null f)
    qed
    then have "map Some (map (or_null E) (pa_items c)) = map2 row (map (or_null C) (pa_items a)) (map (or_null D) (pa_items b))"
      using len by (intro nth_equalityI) (simp_all add: c(3))
    with True ok c(1,2) show ?thesis by auto
  next
    case False
    then show ?thesis using binary_op_eq [OF wf, of f] ok by auto
  qed
qed

text \<open>The constructors that hold a primitive array, with the constructor of their values.\<close>

definition prim_of :: "('x \<Rightarrow> 'd data_value) \<Rightarrow> ('x array \<Rightarrow> 'd array_impl) \<Rightarrow> bool" where
  "prim_of C K \<longleftrightarrow> (\<forall>a. ai_len (K a) = pa_len a \<and> ai_raw (K a) = map C (ar_data a)
     \<and> ai_items (K a) = map (or_null C) (pa_items a) \<and> ai_wf (K a) = pa_wf a)"

lemma rowwise_prim:
  assumes "prim_of C A" and "prim_of D B" and "prim_of E K" and "pa_wf a" "pa_wf b"
    and "\<And>x y. row (C x) (D y) = map_option E (f x y)" and "\<And>v. row VNull v = Some VNull" "\<And>u. row u VNull = Some VNull"
  shows "rowwise row (A a) (B b) (lift_ok K (binary_op f a b))"
  using arm [OF assms(4-8)] assms(1-3) by (fastforce simp: prim_of_def rowwise_def raw_ok_def lift_ok_def split: if_splits)

lemma prim_facts: "prim_of VBool ABool"
  "prim_of VInt16 AInt16"
  "prim_of VInt32 AInt32"
  "prim_of VInt64 AInt64"
  "prim_of VFloat64 AFloat64"
  "prim_of VString AString"
  "prim_of VBlob ABlob"
  "prim_of VDecimal ADecimal"
  "prim_of VDate ADate"
  "prim_of VTimestamp ATimestamp"
  "prim_of VTimestampTz ATimestampTz"
  "prim_of VInterval AInterval"
  by (simp_all add: prim_of_def)

lemmas prim_bool = prim_facts(1)
lemmas prim_int16 = prim_facts(2)
lemmas prim_int32 = prim_facts(3)
lemmas prim_int64 = prim_facts(4)
lemmas prim_float64 = prim_facts(5)
lemmas prim_string = prim_facts(6)
lemmas prim_blob = prim_facts(7)
lemmas prim_decimal = prim_facts(8)
lemmas prim_date = prim_facts(9)
lemmas prim_timestamp = prim_facts(10)
lemmas prim_timestamptz = prim_facts(11)
lemmas prim_interval = prim_facts(12)

lemmas arith_prims =
  rowwise_prim [OF prim_int16 prim_int16 prim_int16] rowwise_prim [OF prim_int16 prim_int32 prim_int32]
  rowwise_prim [OF prim_int16 prim_int64 prim_int64] rowwise_prim [OF prim_int16 prim_float64 prim_float64]
  rowwise_prim [OF prim_int16 prim_decimal prim_decimal] rowwise_prim [OF prim_int32 prim_int16 prim_int32]
  rowwise_prim [OF prim_int32 prim_int32 prim_int32] rowwise_prim [OF prim_int32 prim_int64 prim_int64]
  rowwise_prim [OF prim_int32 prim_float64 prim_float64] rowwise_prim [OF prim_int32 prim_decimal prim_decimal]
  rowwise_prim [OF prim_int64 prim_int16 prim_int64] rowwise_prim [OF prim_int64 prim_int32 prim_int64]
  rowwise_prim [OF prim_int64 prim_int64 prim_int64] rowwise_prim [OF prim_int64 prim_float64 prim_float64]
  rowwise_prim [OF prim_int64 prim_decimal prim_decimal] rowwise_prim [OF prim_float64 prim_int16 prim_float64]
  rowwise_prim [OF prim_float64 prim_int32 prim_float64] rowwise_prim [OF prim_float64 prim_int64 prim_float64]
  rowwise_prim [OF prim_float64 prim_float64 prim_float64] rowwise_prim [OF prim_float64 prim_decimal prim_decimal]
  rowwise_prim [OF prim_decimal prim_int16 prim_decimal] rowwise_prim [OF prim_decimal prim_int32 prim_decimal]
  rowwise_prim [OF prim_decimal prim_int64 prim_decimal] rowwise_prim [OF prim_decimal prim_float64 prim_decimal]
  rowwise_prim [OF prim_decimal prim_decimal prim_decimal] rowwise_prim [OF prim_date prim_interval prim_date]

lemma widened_null [simp]: "widened X f VNull v = Some VNull" "widened X f u VNull = Some VNull"
  by (simp_all add: widened_def is_null_def)

definition arith_types :: "'d array_impl \<Rightarrow> 'd array_impl \<Rightarrow> bool" where
  "arith_types a b \<longleftrightarrow> ai_type a \<in> {2, 3, 4, 5, 8} \<and> ai_type b \<in> {2, 3, 4, 5, 8} \<or> ai_type a = 9 \<and> ai_type b = 12"


lemma array_arith_error: "\<not> arith_types a b \<Longrightarrow> array_arith X op a b = no_binary (arith_name op) a b"
  by (cases a; cases b; simp add: array_arith_def arith_types_def Let_def)

lemma row_arith_null [simp]: "row_arith X op VNull v = Some VNull" "row_arith X op u VNull = Some VNull"
  by (simp_all add: row_arith_def)

lemma row_arith_int:
  "row_arith X op (VInt16 x) (VInt16 y) = map_option VInt16 (int_arith i16_check op x y)"
  "row_arith X op (VInt16 x) (VInt32 y) = map_option VInt32 (int_arith i32_check op x y)"
  "row_arith X op (VInt16 x) (VInt64 y) = map_option VInt64 (int_arith i64_check op x y)"
  "row_arith X op (VInt32 x) (VInt16 y) = map_option VInt32 (int_arith i32_check op x y)"
  "row_arith X op (VInt32 x) (VInt32 y) = map_option VInt32 (int_arith i32_check op x y)"
  "row_arith X op (VInt32 x) (VInt64 y) = map_option VInt64 (int_arith i64_check op x y)"
  "row_arith X op (VInt64 x) (VInt16 y) = map_option VInt64 (int_arith i64_check op x y)"
  "row_arith X op (VInt64 x) (VInt32 y) = map_option VInt64 (int_arith i64_check op x y)"
  "row_arith X op (VInt64 x) (VInt64 y) = map_option VInt64 (int_arith i64_check op x y)"
  by (simp_all add: row_arith_def widened_def is_null_def widen_def same_type_arith_def value_arith_def)

lemma row_arith_float:
  "row_arith X op (VInt16 x) (VFloat64 w) = map_option VFloat64 (float_arith X op (co_f64_of_int X x) w)"
  "row_arith X op (VInt32 x) (VFloat64 w) = map_option VFloat64 (float_arith X op (co_f64_of_int X x) w)"
  "row_arith X op (VInt64 x) (VFloat64 w) = map_option VFloat64 (float_arith X op (co_f64_of_int X x) w)"
  "row_arith X op (VFloat64 w) (VInt16 x) = map_option VFloat64 (float_arith X op w (co_f64_of_int X x))"
  "row_arith X op (VFloat64 w) (VInt32 x) = map_option VFloat64 (float_arith X op w (co_f64_of_int X x))"
  "row_arith X op (VFloat64 w) (VInt64 x) = map_option VFloat64 (float_arith X op w (co_f64_of_int X x))"
  "row_arith X op (VFloat64 w) (VFloat64 u) = map_option VFloat64 (float_arith X op w u)"
  by (simp_all add: row_arith_def widened_def is_null_def widen_def same_type_arith_def value_arith_def float_arith_def)

lemma row_arith_decimal:
  "row_arith X op (VInt16 x) (VDecimal d) = map_option VDecimal (dec_arith X op (co_dec_of_int X x) d)"
  "row_arith X op (VInt32 x) (VDecimal d) = map_option VDecimal (dec_arith X op (co_dec_of_int X x) d)"
  "row_arith X op (VInt64 x) (VDecimal d) = map_option VDecimal (dec_arith X op (co_dec_of_int X x) d)"
  "row_arith X op (VFloat64 w) (VDecimal d) = map_option VDecimal (do { x \<leftarrow> co_dec_of_f64 X w; dec_arith X op x d })"
  "row_arith X op (VDecimal d) (VInt16 x) = map_option VDecimal (dec_arith X op d (co_dec_of_int X x))"
  "row_arith X op (VDecimal d) (VInt32 x) = map_option VDecimal (dec_arith X op d (co_dec_of_int X x))"
  "row_arith X op (VDecimal d) (VInt64 x) = map_option VDecimal (dec_arith X op d (co_dec_of_int X x))"
  "row_arith X op (VDecimal d) (VFloat64 w) = map_option VDecimal (do { x \<leftarrow> co_dec_of_f64 X w; dec_arith X op d x })"
  "row_arith X op (VDecimal d) (VDecimal e) = map_option VDecimal (dec_arith X op d e)"
  by (simp_all add: row_arith_def widened_def is_null_def widen_def same_type_arith_def value_arith_def dec_arith_def
      split: option.split Option.bind_split)

lemma row_arith_date: "row_arith X op (VDate d) (VInterval v) = map_option VDate (date_arith X op d v)"
  by (cases op) (simp_all add: row_arith_def widened_def is_null_def same_type_arith_def value_arith_def date_arith_def)

lemmas row_arith_arms = row_arith_int row_arith_float row_arith_decimal row_arith_date

lemma array_arith_rows:
  assumes "ai_wf a" and "ai_wf b"
  shows "if arith_types a b then rowwise (row_arith X op) a b (array_arith X op a b)
    else array_arith X op a b = Some (Inl (NoBinaryOp (arith_name op) (ai_type_string a) (ai_type_string b)))"
proof (cases "arith_types a b")
  case True
  with assms have "rowwise (row_arith X op) a b (array_arith X op a b)"
    by (cases a; cases b; simp add: arith_types_def array_arith_def Let_def) (rule arith_prims; simp add: row_arith_arms)+
  with True show ?thesis by simp
qed (simp add: array_arith_error no_binary_def)


section \<open>Comparison\<close>

lemma value_cmp_same:
  "value_cmp (VBool x) (VBool y) = cmp_of x y" "value_cmp (VInt16 i) (VInt16 j) = cmp_of i j"
  "value_cmp (VInt32 i) (VInt32 j) = cmp_of i j" "value_cmp (VInt64 i) (VInt64 j) = cmp_of i j"
  "value_cmp (VFloat64 w) (VFloat64 u) = cmp_of (f64_key w) (f64_key u)" "value_cmp (VDate i) (VDate j) = cmp_of i j"
  "value_cmp (VString s) (VString t) = cmp_of (map uint s) (map uint t)" "value_cmp (VDecimal d) (VDecimal e) = cmp_of d e"
  by (auto simp: value_cmp_def cmp_of_def)

lemma row_cmp_null [simp]: "row_cmp X op VNull v = Some VNull" "row_cmp X op u VNull = Some VNull"
  by (simp_all add: row_cmp_def)

lemma row_cmp_arms:
  "row_cmp X op (VBool p) (VBool q) = map_option VBool (cmp_by op id id p q)"
  "row_cmp X op (VInt16 x) (VInt16 y) = map_option VBool (cmp_by op (\<lambda>x. x) (\<lambda>y. y) x y)"
  "row_cmp X op (VInt16 x) (VInt32 y) = map_option VBool (cmp_by op (\<lambda>x. x) (\<lambda>y. y) x y)"
  "row_cmp X op (VInt16 x) (VInt64 y) = map_option VBool (cmp_by op (\<lambda>x. x) (\<lambda>y. y) x y)"
  "row_cmp X op (VInt32 x) (VInt16 y) = map_option VBool (cmp_by op (\<lambda>x. x) (\<lambda>y. y) x y)"
  "row_cmp X op (VInt32 x) (VInt32 y) = map_option VBool (cmp_by op (\<lambda>x. x) (\<lambda>y. y) x y)"
  "row_cmp X op (VInt32 x) (VInt64 y) = map_option VBool (cmp_by op (\<lambda>x. x) (\<lambda>y. y) x y)"
  "row_cmp X op (VInt64 x) (VInt16 y) = map_option VBool (cmp_by op (\<lambda>x. x) (\<lambda>y. y) x y)"
  "row_cmp X op (VInt64 x) (VInt32 y) = map_option VBool (cmp_by op (\<lambda>x. x) (\<lambda>y. y) x y)"
  "row_cmp X op (VInt64 x) (VInt64 y) = map_option VBool (cmp_by op (\<lambda>x. x) (\<lambda>y. y) x y)"
  "row_cmp X op (VInt16 x) (VFloat64 w) = map_option VBool (cmp_by op (\<lambda>x. f64_key (co_f64_of_int X x)) f64_key x w)"
  "row_cmp X op (VInt32 x) (VFloat64 w) = map_option VBool (cmp_by op (\<lambda>x. f64_key (co_f64_of_int X x)) f64_key x w)"
  "row_cmp X op (VInt64 x) (VFloat64 w) = map_option VBool (cmp_by op (\<lambda>x. f64_key (co_f64_of_int X x)) f64_key x w)"
  "row_cmp X op (VFloat64 w) (VInt16 x) = map_option VBool (cmp_by op f64_key (\<lambda>x. f64_key (co_f64_of_int X x)) w x)"
  "row_cmp X op (VFloat64 w) (VInt32 x) = map_option VBool (cmp_by op f64_key (\<lambda>x. f64_key (co_f64_of_int X x)) w x)"
  "row_cmp X op (VFloat64 w) (VInt64 x) = map_option VBool (cmp_by op f64_key (\<lambda>x. f64_key (co_f64_of_int X x)) w x)"
  "row_cmp X op (VFloat64 w) (VFloat64 u) = map_option VBool (cmp_by op f64_key f64_key w u)"
  "row_cmp X op (VInt16 x) (VDecimal d) = map_option VBool (cmp_by op (co_dec_of_int X) id x d)"
  "row_cmp X op (VInt32 x) (VDecimal d) = map_option VBool (cmp_by op (co_dec_of_int X) id x d)"
  "row_cmp X op (VInt64 x) (VDecimal d) = map_option VBool (cmp_by op (co_dec_of_int X) id x d)"
  "row_cmp X op (VDecimal d) (VInt16 x) = map_option VBool (cmp_by op id (co_dec_of_int X) d x)"
  "row_cmp X op (VDecimal d) (VInt32 x) = map_option VBool (cmp_by op id (co_dec_of_int X) d x)"
  "row_cmp X op (VDecimal d) (VInt64 x) = map_option VBool (cmp_by op id (co_dec_of_int X) d x)"
  "row_cmp X op (VFloat64 w) (VDecimal d) = map_option VBool (do { x \<leftarrow> co_dec_of_f64 X w; cmp_by op id id x d })"
  "row_cmp X op (VDecimal d) (VFloat64 w) = map_option VBool (do { x \<leftarrow> co_dec_of_f64 X w; cmp_by op id id d x })"
  "row_cmp X op (VDecimal d) (VDecimal e) = map_option VBool (cmp_by op id id d e)"
  "row_cmp X op (VString s) (VString t) = map_option VBool (cmp_by op (map uint) (map uint) s t)"
  "row_cmp X op (VDate x) (VDate y) = map_option VBool (cmp_by op (\<lambda>x. x) (\<lambda>y. y) x y)"
  by (simp_all add: row_cmp_def widened_def is_null_def widen_def cmp_by_def value_cmp_same split: option.split Option.bind_split)

text \<open>Null slots of a boolean array hold the raw value false.\<close>

definition clean :: "bool array \<Rightarrow> bool" where
  "clean a \<longleftrightarrow> list_all2 (\<lambda>x v. x \<longrightarrow> v) (ar_data a) (ar_valid a)"

lemma clear_null_spec: "pa_wf a \<Longrightarrow> pa_wf (clear_null a) \<and> pa_items (clear_null a) = pa_items a \<and> clean (clear_null a)"
  by (auto simp: clear_null_def pa_wf_def pa_items_def clean_def list_all2_conv_all_nth intro!: nth_equalityI)

definition clear_bool :: "'d array_impl \<Rightarrow> 'd array_impl" where
  "clear_bool c = (case c of ABool b \<Rightarrow> ABool (clear_null b) | _ \<Rightarrow> c)"

lemma rowwise_clear:
  assumes "rowwise row a b (lift_ok ABool r)"
  shows "rowwise row a b (lift_ok (\<lambda>c. ABool (clear_null c)) r)"
  using assms clear_null_spec by (fastforce simp: rowwise_def lift_ok_def split: if_splits)

definition cmp_types :: "'d array_impl \<Rightarrow> 'd array_impl \<Rightarrow> bool" where
  "cmp_types a b \<longleftrightarrow> ai_type a \<in> {2, 3, 4, 5, 8} \<and> ai_type b \<in> {2, 3, 4, 5, 8} \<or> ai_type a = ai_type b \<and> ai_type a \<in> {1, 6, 9}"

lemma array_cmp_error: "\<not> cmp_types a b \<Longrightarrow> array_cmp X op a b = no_binary (cmp_name op) a b"
  by (cases a; cases b; simp add: array_cmp_def cmp_types_def Let_def)

lemmas cmp_prims =
  rowwise_prim [OF prim_int16 prim_int16 prim_bool] rowwise_prim [OF prim_int16 prim_int32 prim_bool]
  rowwise_prim [OF prim_int16 prim_int64 prim_bool] rowwise_prim [OF prim_int16 prim_float64 prim_bool]
  rowwise_prim [OF prim_int16 prim_decimal prim_bool] rowwise_prim [OF prim_int32 prim_int16 prim_bool]
  rowwise_prim [OF prim_int32 prim_int32 prim_bool] rowwise_prim [OF prim_int32 prim_int64 prim_bool]
  rowwise_prim [OF prim_int32 prim_float64 prim_bool] rowwise_prim [OF prim_int32 prim_decimal prim_bool]
  rowwise_prim [OF prim_int64 prim_int16 prim_bool] rowwise_prim [OF prim_int64 prim_int32 prim_bool]
  rowwise_prim [OF prim_int64 prim_int64 prim_bool] rowwise_prim [OF prim_int64 prim_float64 prim_bool]
  rowwise_prim [OF prim_int64 prim_decimal prim_bool] rowwise_prim [OF prim_float64 prim_int16 prim_bool]
  rowwise_prim [OF prim_float64 prim_int32 prim_bool] rowwise_prim [OF prim_float64 prim_int64 prim_bool]
  rowwise_prim [OF prim_float64 prim_float64 prim_bool] rowwise_prim [OF prim_float64 prim_decimal prim_bool]
  rowwise_prim [OF prim_decimal prim_int16 prim_bool] rowwise_prim [OF prim_decimal prim_int32 prim_bool]
  rowwise_prim [OF prim_decimal prim_int64 prim_bool] rowwise_prim [OF prim_decimal prim_float64 prim_bool]
  rowwise_prim [OF prim_decimal prim_decimal prim_bool] rowwise_prim [OF prim_bool prim_bool prim_bool]
  rowwise_prim [OF prim_string prim_string prim_bool] rowwise_prim [OF prim_date prim_date prim_bool]

lemma array_cmp_rows:
  assumes "ai_wf a" and "ai_wf b"
  shows "if cmp_types a b
    then rowwise (row_cmp X op) a b (array_cmp X op a b) \<and> (\<forall>c. array_cmp X op a b = Some (Inr c) \<longrightarrow> (\<exists>d. c = ABool d \<and> clean d))
    else array_cmp X op a b = Some (Inl (NoBinaryOp (cmp_name op) (ai_type_string a) (ai_type_string b)))"
proof (cases "cmp_types a b")
  case True
  with assms have row: "rowwise (row_cmp X op) a b (array_cmp X op a b)"
    by (cases a; cases b; simp add: cmp_types_def array_cmp_def Let_def)
      (rule rowwise_clear, rule cmp_prims; simp add: row_cmp_arms)+
  have "\<exists>d. c = ABool d \<and> clean d" if c: "array_cmp X op a b = Some (Inr c)" for c
  proof -
    from True c obtain d where d: "c = ABool (clear_null d)"
      by (cases a; cases b; simp add: cmp_types_def array_cmp_def Let_def lift_ok_def; blast)
    then have "pa_wf (clear_null d)" using row c by (auto simp: rowwise_def split: if_splits)
    then have "clean (clear_null d)"
      by (auto simp: clean_def clear_null_def pa_wf_def list_all2_conv_all_nth)
    with d show ?thesis by blast
  qed
  with row True show ?thesis by simp
qed (simp add: array_cmp_error no_binary_def)

section \<open>Three-valued logic\<close>

fun k_and :: "bool option \<Rightarrow> bool option \<Rightarrow> bool option" where
  "k_and (Some False) _ = Some False" | "k_and _ (Some False) = Some False"
| "k_and (Some True) (Some True) = Some True" | "k_and _ _ = None"

fun k_or :: "bool option \<Rightarrow> bool option \<Rightarrow> bool option" where
  "k_or (Some True) _ = Some True" | "k_or _ (Some True) = Some True"
| "k_or (Some False) (Some False) = Some False" | "k_or _ _ = None"

fun k_not :: "bool option \<Rightarrow> bool option" where
  "k_not None = None" | "k_not (Some b) = Some (\<not> b)"

lemma kleene_raw:
  "pa_wf a \<Longrightarrow> pa_wf b \<Longrightarrow> pa_len a = pa_len b \<Longrightarrow>
   binary_op (\<lambda>x y. Some (g x y)) a b = Some (from_data (map2 g (ar_data a) (ar_data b)) (map2 (\<and>) (ar_valid a) (ar_valid b)))"
  by (simp add: binary_op_def rust_assert_def those_map2)

lemma clean_nth: "clean a \<Longrightarrow> pa_wf a \<Longrightarrow> i < length (ar_data a) \<Longrightarrow> ar_data a ! i \<Longrightarrow> ar_valid a ! i"
  by (auto simp: clean_def list_all2_conv_all_nth)

lemma array_and_spec:
  assumes wf: "pa_wf a" "pa_wf b" "pa_len a = pa_len b" and cl: "clean a" "clean b"
  shows "\<exists>c. array_and (ABool a) (ABool b) = Some (Inr (ABool c)) \<and> pa_wf c \<and> clean c \<and> pa_items c = map2 k_and (pa_items a) (pa_items b)"
proof -
  define c where "c = from_data (map2 (\<and>) (ar_data a) (ar_data b))
    (map2 (\<or>) (map2 (\<or>) (map2 (\<and>) (ar_valid a) (ar_valid b)) (map2 (\<lambda>x v. \<not> x \<and> v) (ar_data a) (ar_valid a)))
      (map2 (\<lambda>x v. \<not> x \<and> v) (ar_data b) (ar_valid b)))"
  have len: "length (ar_data b) = length (ar_data a)" "length (ar_valid a) = length (ar_data a)" "length (ar_valid b) = length (ar_data a)"
    using wf by (simp_all add: pa_wf_def pa_len_def)
  have "array_and (ABool a) (ABool b) = Some (Inr (ABool c))"
    using kleene_raw [OF wf, of "(\<and>)"] by (simp add: array_and_def c_def from_data_def)
  moreover have "pa_wf c" using len by (simp add: c_def from_data_def pa_wf_def)
  moreover have "clean c" using len clean_nth [OF cl(1) wf(1)] clean_nth [OF cl(2) wf(2)]
    by (auto simp: clean_def c_def from_data_def list_all2_conv_all_nth)
  moreover have "pa_items c = map2 k_and (pa_items a) (pa_items b)"
  proof (rule nth_equalityI)
    fix i assume "i < length (pa_items c)"
    then have i: "i < length (ar_data a)" using len by (simp add: c_def from_data_def pa_items_def)
    from clean_nth [OF cl(1) wf(1) i] clean_nth [OF cl(2) wf(2), of i] i len
    show "pa_items c ! i = map2 k_and (pa_items a) (pa_items b) ! i"
      by (cases "ar_data a ! i"; cases "ar_data b ! i"; cases "ar_valid a ! i"; cases "ar_valid b ! i")
        (simp_all add: c_def from_data_def pa_items_def)
  qed (use len in \<open>simp add: c_def from_data_def pa_items_def\<close>)
  ultimately show ?thesis by blast
qed

text \<open>C34. Comparing arrays compares row by row with the value order on the wider type, a null operand giving null, and
  leaves false in the null slots; incomparable types give the error.\<close>

theorem array_cmp_rowwise:
  assumes "ai_wf a" and "ai_wf b"
  shows "if cmp_types a b
    then rowwise (row_cmp X op) a b (array_cmp X op a b) \<and> (\<forall>c. array_cmp X op a b = Some (Inr c) \<longrightarrow> (\<exists>d. c = ABool d \<and> clean d))
    else array_cmp X op a b = Some (Inl (NoBinaryOp (cmp_name op) (ai_type_string a) (ai_type_string b)))"
  by (rule array_cmp_rows [OF assms])

text \<open>C33. Array arithmetic is arithmetic row by row: for operand types that combine, a null operand gives null and two
  numbers are computed in the wider of their types. It panics exactly when the lengths differ or when the raw
  values of some slot, even a null one, overflow or divide by zero; other types give the error.\<close>

theorem array_arith_rowwise:
  assumes "ai_wf a" and "ai_wf b"
  shows "if arith_types a b then rowwise (row_arith X op) a b (array_arith X op a b)
    else array_arith X op a b = Some (Inl (NoBinaryOp (arith_name op) (ai_type_string a) (ai_type_string b)))"
  by (rule array_arith_rows [OF assms])

lemma array_or_spec:
  assumes wf: "pa_wf a" "pa_wf b" "pa_len a = pa_len b" and cl: "clean a" "clean b"
  shows "\<exists>c. array_or (ABool a) (ABool b) = Some (Inr (ABool c)) \<and> pa_wf c \<and> clean c \<and> pa_items c = map2 k_or (pa_items a) (pa_items b)"
proof -
  define c where "c = from_data (map2 (\<or>) (ar_data a) (ar_data b))
    (map2 (\<or>) (map2 (\<and>) (ar_valid a) (ar_valid b)) (map2 (\<or>) (ar_data a) (ar_data b)))"
  have len: "length (ar_data b) = length (ar_data a)" "length (ar_valid a) = length (ar_data a)" "length (ar_valid b) = length (ar_data a)"
    using wf by (simp_all add: pa_wf_def pa_len_def)
  have "array_or (ABool a) (ABool b) = Some (Inr (ABool c))"
    using kleene_raw [OF wf, of "(\<or>)"] by (simp add: array_or_def c_def from_data_def)
  moreover have "pa_wf c" "clean c" using len by (auto simp: c_def from_data_def pa_wf_def clean_def list_all2_conv_all_nth)
  moreover have "pa_items c = map2 k_or (pa_items a) (pa_items b)"
  proof (rule nth_equalityI)
    fix i assume "i < length (pa_items c)"
    then have i: "i < length (ar_data a)" using len by (simp add: c_def from_data_def pa_items_def)
    from clean_nth [OF cl(1) wf(1) i] clean_nth [OF cl(2) wf(2), of i] i len
    show "pa_items c ! i = map2 k_or (pa_items a) (pa_items b) ! i"
      by (cases "ar_data a ! i"; cases "ar_data b ! i"; cases "ar_valid a ! i"; cases "ar_valid b ! i")
        (simp_all add: c_def from_data_def pa_items_def)
  qed (use len in \<open>simp add: c_def from_data_def pa_items_def\<close>)
  ultimately show ?thesis by blast
qed

lemma unary_total: "unary_op (\<lambda>x. Some (g x)) a = Some (from_data (map g (ar_data a)) (ar_valid a))"
proof -
  have "those (map (\<lambda>x. Some (g x)) (ar_data a)) = Some (map g (ar_data a))" by (rule those_map_Some) simp
  then show ?thesis by (simp add: unary_op_def)
qed

lemma array_not_spec:
  assumes "pa_wf a"
  shows "\<exists>c. array_not (ABool a) = Some (Inr (ABool c)) \<and> pa_wf c \<and> clean c \<and> pa_items c = map k_not (pa_items a)"
proof -
  let ?r = "from_data (map Not (ar_data a)) (ar_valid a)"
  have wf: "pa_wf ?r" using assms by (simp add: pa_wf_def from_data_def)
  have "pa_items ?r = map k_not (pa_items a)"
    using assms by (auto simp: pa_items_def from_data_def pa_wf_def intro!: nth_equalityI)
  with clear_null_spec [OF wf] show ?thesis by (simp add: array_not_def lift_ok_def unary_total)
qed

text \<open>C36. Boolean operations are Kleene's three-valued logic: on arrays whose null slots hold false, \<open>AND\<close>, \<open>OR\<close> and
  \<open>NOT\<close> give the three-valued result of every row and keep false in the null slots.\<close>

theorem kleene_logic:
  assumes "pa_wf a" and "pa_wf b" and "pa_len a = pa_len b" and "clean a" and "clean b"
  shows "(\<exists>c. array_and (ABool a) (ABool b) = Some (Inr (ABool c)) \<and> clean c \<and> pa_items c = map2 k_and (pa_items a) (pa_items b))
    \<and> (\<exists>c. array_or (ABool a) (ABool b) = Some (Inr (ABool c)) \<and> clean c \<and> pa_items c = map2 k_or (pa_items a) (pa_items b))
    \<and> (\<exists>c. array_not (ABool a) = Some (Inr (ABool c)) \<and> clean c \<and> pa_items c = map k_not (pa_items a))"
  using array_and_spec [OF assms] array_or_spec [OF assms] array_not_spec [OF assms(1)] by blast

theorem kleene_logic_witness:
  "let a = pa_from_iter False [Some True, None, Some False]; b = pa_from_iter False [None, Some False, None]
   in (\<exists>c. array_and (ABool a) (ABool b) = Some (Inr (ABool c)) \<and> pa_items c = [None, Some False, Some False])
    \<and> (\<exists>c. array_or (ABool a) (ABool b) = Some (Inr (ABool c)) \<and> pa_items c = [Some True, None, None])"
proof -
  let ?a = "pa_from_iter False [Some True, None, Some False]" and ?b = "pa_from_iter False [None, Some False, None]"
  have "pa_wf ?a" "pa_wf ?b" "pa_len ?a = pa_len ?b" "clean ?a" "clean ?b"
    by (simp_all add: pa_from_iter_def pa_push_def pa_new_def pa_wf_def pa_len_def clean_def)
  moreover have "pa_items ?a = [Some True, None, Some False]" "pa_items ?b = [None, Some False, None]"
    by (simp_all add: pa_from_iter_def pa_push_def pa_new_def pa_items_def)
  ultimately show ?thesis using kleene_logic [of ?a ?b] by (simp add: Let_def) blast
qed


section \<open>Division\<close>

definition int_types :: "'d array_impl \<Rightarrow> 'd array_impl \<Rightarrow> bool" where
  "int_types a b \<longleftrightarrow> ai_type a \<in> {2, 3, 4} \<and> ai_type b \<in> {2, 3, 4}"

lemma row_div_null [simp]: "row_div X VNull v = Some VNull" "row_div X u VNull = Some VNull"
  by (simp_all add: row_div_def value_is_zero_def)

definition int_div :: "(int \<Rightarrow> int option) \<Rightarrow> int \<Rightarrow> int \<Rightarrow> int option" where
  "int_div check x y = (if y = 0 then Some 0 else int_arith check OpDiv x y)"

text \<open>Dividing by the safened array gives null where the divisor is zero; dividing a number that is in range by one stays in range.\<close>

lemma safen_spec:
  assumes "pa_wf b"
  shows "pa_wf (safen zero one (ar_valid b) b)" "pa_len (safen zero one (ar_valid b) b) = pa_len b"
    "ar_data (safen zero one (ar_valid b) b) = map (\<lambda>x. if zero x then one else x) (ar_data b)"
    "pa_items (safen zero one (ar_valid b) b) = map (\<lambda>v. case v of Some x \<Rightarrow> if zero x then None else Some x | None \<Rightarrow> None) (pa_items b)"
  using assms by (auto simp: safen_def from_data_def pa_wf_def pa_len_def pa_items_def intro!: nth_equalityI)

lemma arm_div:
  assumes wf: "pa_wf a" "pa_wf b" and r: "\<forall>x\<in>set (ar_data a). check x \<noteq> None"
    and f: "\<And>x y. row_div X (C x) (D y) = (if y = 0 then Some VNull else map_option E (int_arith check OpDiv x y))"
    and prims: "prim_of C A" "prim_of D B" "prim_of E K"
  shows "rowwise (row_div X) (A a) (B b) (lift_ok K (binary_op (int_arith check OpDiv) a (safen (\<lambda>x. x = 0) 1 (ar_valid b) b)))"
proof -
  let ?b = "safen (\<lambda>x. x = 0) 1 (ar_valid b) b" and ?f = "int_arith check OpDiv"
  note s = safen_spec [OF wf(2), of "\<lambda>x. x = 0" 1]
  have one: "?f x 1 \<noteq> None" if "x \<in> set (ar_data a)" for x
    using r that by (auto simp: int_arith_def trunc_div_def sgn_if)
  have ok: "list_all2 (\<lambda>u v. row_div X u v \<noteq> None) (map C (ar_data a)) (map D (ar_data b))
      \<longleftrightarrow> list_all2 (\<lambda>x y. ?f x y \<noteq> None) (ar_data a) (ar_data ?b)"
  proof -
    have pt: "row_div X (C x) (D y) \<noteq> None \<longleftrightarrow> ?f x (if y = 0 then 1 else y) \<noteq> None" if "x \<in> set (ar_data a)" for x y
      using one [OF that] by (auto simp: f)
    show ?thesis unfolding s(3) list_all2_conv_all_nth length_map
    proof (intro conj_cong refl all_cong)
      fix i assume "length (ar_data a) = length (ar_data b)" "i < length (ar_data a)"
      then show "row_div X (map C (ar_data a) ! i) (map D (ar_data b) ! i) \<noteq> None
          \<longleftrightarrow> ?f (ar_data a ! i) (map (\<lambda>x. if x = 0 then 1 else x) (ar_data b) ! i) \<noteq> None"
        using pt [of "ar_data a ! i" "ar_data b ! i"] by (simp only: nth_map nth_mem)
    qed
  qed
  show ?thesis
  proof (cases "pa_len a = pa_len b \<and> list_all2 (\<lambda>x y. ?f x y \<noteq> None) (ar_data a) (ar_data ?b)")
    case True
    with binary_op_eq [OF wf(1) s(1), of ?f] s(2) obtain c where c: "binary_op ?f a ?b = Some c" "pa_wf c"
      "pa_items c = map2 (lift_row ?f) (pa_items a) (pa_items ?b)" by auto
    have len: "length (pa_items a) = length (pa_items b)" using True wf by (simp add: length_pa_items)
    have "Some (or_null E (lift_row ?f (pa_items a ! i) (case pa_items b ! i of Some x \<Rightarrow> if x = 0 then None else Some x | None \<Rightarrow> None)))
        = row_div X (or_null C (pa_items a ! i)) (or_null D (pa_items b ! i))" if "i < length (pa_items a)" for i
    proof -
      have "pa_items a ! i = None \<or> pa_items a ! i = Some (ar_data a ! i)" "pa_items b ! i = None \<or> pa_items b ! i = Some (ar_data b ! i)"
        using that len wf by (auto simp: pa_items_def pa_wf_def)
      moreover have "?f (ar_data a ! i) (ar_data ?b ! i) \<noteq> None" "i < length (ar_data b)"
        using True that wf by (auto simp: list_all2_conv_all_nth length_pa_items pa_len_def pa_wf_def)
      ultimately show ?thesis unfolding s(3) by (auto simp: lift_row_def f)
    qed
    then have "map Some (map (or_null E) (pa_items c)) = map2 (row_div X) (map (or_null C) (pa_items a)) (map (or_null D) (pa_items b))"
      using len by (intro nth_equalityI) (simp_all add: c(3) s(4))
    with True ok c(1,2) prims show ?thesis by (auto simp: rowwise_def raw_ok_def prim_of_def lift_ok_def)
  next
    case False
    then have "binary_op ?f a ?b = None" using binary_op_eq [OF wf(1) s(1), of ?f] s(2) by auto
    with False ok prims show ?thesis by (auto simp: rowwise_def raw_ok_def prim_of_def lift_ok_def)
  qed
qed

lemmas div_prims = arm_div [OF _ _ _ _ prim_int16 prim_int16 prim_int16] arm_div [OF _ _ _ _ prim_int16 prim_int32 prim_int32]
  arm_div [OF _ _ _ _ prim_int16 prim_int64 prim_int64] arm_div [OF _ _ _ _ prim_int32 prim_int16 prim_int32]
  arm_div [OF _ _ _ _ prim_int32 prim_int32 prim_int32] arm_div [OF _ _ _ _ prim_int32 prim_int64 prim_int64]
  arm_div [OF _ _ _ _ prim_int64 prim_int16 prim_int64] arm_div [OF _ _ _ _ prim_int64 prim_int32 prim_int64]
  arm_div [OF _ _ _ _ prim_int64 prim_int64 prim_int64]

lemma row_div_int:
  "row_div X (VInt16 x) (VInt16 y) = (if y = 0 then Some VNull else map_option VInt16 (int_arith i16_check OpDiv x y))"
  "row_div X (VInt16 x) (VInt32 y) = (if y = 0 then Some VNull else map_option VInt32 (int_arith i32_check OpDiv x y))"
  "row_div X (VInt16 x) (VInt64 y) = (if y = 0 then Some VNull else map_option VInt64 (int_arith i64_check OpDiv x y))"
  "row_div X (VInt32 x) (VInt16 y) = (if y = 0 then Some VNull else map_option VInt32 (int_arith i32_check OpDiv x y))"
  "row_div X (VInt32 x) (VInt32 y) = (if y = 0 then Some VNull else map_option VInt32 (int_arith i32_check OpDiv x y))"
  "row_div X (VInt32 x) (VInt64 y) = (if y = 0 then Some VNull else map_option VInt64 (int_arith i64_check OpDiv x y))"
  "row_div X (VInt64 x) (VInt16 y) = (if y = 0 then Some VNull else map_option VInt64 (int_arith i64_check OpDiv x y))"
  "row_div X (VInt64 x) (VInt32 y) = (if y = 0 then Some VNull else map_option VInt64 (int_arith i64_check OpDiv x y))"
  "row_div X (VInt64 x) (VInt64 y) = (if y = 0 then Some VNull else map_option VInt64 (int_arith i64_check OpDiv x y))"
  by (simp_all add: row_div_def value_is_zero_def row_arith_int)

text \<open>The integers of an array are in the range of its type.\<close>

fun ai_ranged :: "'d array_impl \<Rightarrow> bool" where
  "ai_ranged (AInt16 a) = list_all (int_range 16) (ar_data a)"
| "ai_ranged (AInt32 a) = list_all (int_range 32) (ar_data a)"
| "ai_ranged (AInt64 a) = list_all (int_range 64) (ar_data a)"
| "ai_ranged _ = True"

lemma ranged_checks:
  "list_all (int_range 16) xs \<Longrightarrow> \<forall>x\<in>set xs. i16_check x \<noteq> None" "list_all (int_range 16) xs \<Longrightarrow> \<forall>x\<in>set xs. i32_check x \<noteq> None"
  "list_all (int_range 16) xs \<Longrightarrow> \<forall>x\<in>set xs. i64_check x \<noteq> None" "list_all (int_range 32) xs \<Longrightarrow> \<forall>x\<in>set xs. i32_check x \<noteq> None"
  "list_all (int_range 32) xs \<Longrightarrow> \<forall>x\<in>set xs. i64_check x \<noteq> None" "list_all (int_range 64) xs \<Longrightarrow> \<forall>x\<in>set xs. i64_check x \<noteq> None"
  by (auto simp: list_all_iff int_range_def i16_check_def i32_check_def i64_check_def i32_range_def)

text \<open>C35. Integer division never panics on a zero divisor: such a row is null. It panics only where the quotient of a
  slot overflows, the least integer by minus one, or where the lengths differ.\<close>

theorem array_div_rowwise:
  assumes "ai_wf a" and "ai_wf b" and "ai_ranged a" and "int_types a b"
  shows "rowwise (row_div X) a b (array_div X a b)"
  using assms
  by (cases a; cases b; simp add: int_types_def array_div_def safen_dividend_def array_arith_def Let_def)
    (rule div_prims; (assumption | rule ranged_checks, assumption | simp only: row_div_int))+


section \<open>Aggregation of one array\<close>

lemma least_value_spec: "least_value m vs \<in> set (m # vs) \<and> (\<forall>v\<in>set (m # vs). value_le (least_value m vs) v)"
proof (induction m vs rule: least_value.induct)
  case (1 m)
  then show ?case using value_le_total [of m m] by simp
next
  case (2 m v vs)
  have le: "value_le (if value_cmp v m = Less then v else m) v" "value_le (if value_cmp v m = Less then v else m) m"
    using value_le_total [of v m] value_le_total [of m m] value_le_total [of v v] by (auto simp: value_cmp_eq split: if_splits)
  let ?m = "if value_cmp v m = Less then v else m"
  have "value_le (least_value ?m vs) ?m" using 2 by simp
  then have "value_le (least_value ?m vs) v" "value_le (least_value ?m vs) m" using le value_le_trans by metis+
  moreover have "least_value ?m vs \<in> set (m # v # vs)" using 2 by (auto simp del: least_value.simps split: if_splits)
  ultimately show ?case using 2 by simp
qed

lemma greatest_value_spec: "greatest_value m vs \<in> set (m # vs) \<and> (\<forall>v\<in>set (m # vs). value_le v (greatest_value m vs))"
proof (induction m vs rule: greatest_value.induct)
  case (1 m)
  then show ?case using value_le_total [of m m] by simp
next
  case (2 m v vs)
  have le: "value_le v (if value_cmp v m = Less then m else v)" "value_le m (if value_cmp v m = Less then m else v)"
    using value_le_total [of v m] value_le_total [of m m] value_le_total [of v v] by (auto simp: value_cmp_eq split: if_splits)
  let ?m = "if value_cmp v m = Less then m else v"
  have "value_le ?m (greatest_value ?m vs)" using 2 by simp
  then have "value_le v (greatest_value ?m vs)" "value_le m (greatest_value ?m vs)" using le value_le_trans by metis+
  moreover have "greatest_value ?m vs \<in> set (m # v # vs)" using 2 by (auto simp del: greatest_value.simps split: if_splits)
  ultimately show ?case using 2 by simp
qed

lemma array_min_max_spec:
  "array_min a = VNull \<longleftrightarrow> nonnull_values a = []" "array_max a = VNull \<longleftrightarrow> nonnull_values a = []"
  "v \<in> set (nonnull_values a) \<Longrightarrow> array_min a \<in> set (nonnull_values a) \<and> value_le (array_min a) v"
  "v \<in> set (nonnull_values a) \<Longrightarrow> array_max a \<in> set (nonnull_values a) \<and> value_le v (array_max a)"
proof -
  have nn: "VNull \<notin> set (nonnull_values a)" by (auto simp: nonnull_values_def is_null_def)
  consider "nonnull_values a = []" | m vs where "nonnull_values a = m # vs" by (cases "nonnull_values a")
  then have "(array_min a = VNull \<longleftrightarrow> nonnull_values a = []) \<and> (array_max a = VNull \<longleftrightarrow> nonnull_values a = [])
    \<and> (v \<in> set (nonnull_values a) \<longrightarrow> array_min a \<in> set (nonnull_values a) \<and> value_le (array_min a) v)
    \<and> (v \<in> set (nonnull_values a) \<longrightarrow> array_max a \<in> set (nonnull_values a) \<and> value_le v (array_max a))"
  proof cases
    case (2 m vs)
    with nn least_value_spec [of m vs] greatest_value_spec [of m vs] show ?thesis
      by (auto simp: array_min_def array_max_def)
  qed (simp add: array_min_def array_max_def)
  then show "array_min a = VNull \<longleftrightarrow> nonnull_values a = []" "array_max a = VNull \<longleftrightarrow> nonnull_values a = []"
    "v \<in> set (nonnull_values a) \<Longrightarrow> array_min a \<in> set (nonnull_values a) \<and> value_le (array_min a) v"
    "v \<in> set (nonnull_values a) \<Longrightarrow> array_max a \<in> set (nonnull_values a) \<and> value_le v (array_max a)" by blast+
qed

section \<open>Where the kernels differ from SQL\<close>

text \<open>Concrete operations for evaluation: decimals are integers.\<close>

definition demo_chrono :: chrono where
  "demo_chrono = \<lparr>chr_parse_date = \<lambda>_. None, chr_parse_naive = \<lambda>_ _. None, chr_parse_offset = \<lambda>_ _. None,
     chr_from_millis = \<lambda>_. None, chr_show_date = \<lambda>_. None, chr_show_naive = \<lambda>_. [], chr_show_offset = \<lambda>_. []\<rparr>"

definition demo_ops :: "int conv_ops" where
  "demo_ops = \<lparr>
     co_ext = \<lparr>xf_arith = \<lambda>_ x _. x, xf_to_usize = \<lambda>_. None, xd_arith = int_arith Some, xd_is_zero = \<lambda>d. d = 0,
               xd_is_sign_positive = \<lambda>d. 0 \<le> d, xd_to_usize = \<lambda>d. if 0 \<le> d then Some (nat d) else None, x_calendar = gregorian_calendar 1999 2001\<rparr>,
     co_chrono = demo_chrono, co_zero = 0, co_one = 1, co_f64_of_int = \<lambda>_. 0, co_f64_trunc = \<lambda>_. None, co_f64_sum = \<lambda>_. 0,
     co_f64_sqrt = id, co_f64_parse = \<lambda>_. None, co_f64_show = \<lambda>_. [], co_dec_of_int = id, co_dec_of_f64 = \<lambda>_. None,
     co_dec_trunc = Some, co_dec_to_f64 = \<lambda>_. None, co_dec_neg = uminus, co_dec_parse = \<lambda>_. None,
     co_dec_show = \<lambda>d. text_bytes (show_int d), co_regex = \<lambda>_. None\<rparr>"

definition ints :: "int option list \<Rightarrow> int array" where
  "ints vs = pa_from_iter 0 vs"

lemma ints_spec [simp]: "pa_wf (ints vs)" "pa_items (ints vs) = vs"
  using pa.collect [of 0 vs] by (simp_all add: ints_def pa_from_iter_def)

lemma ints_fields:
  "ar_valid (ints vs) = map (\<lambda>v. v \<noteq> None) vs" "ar_data (ints vs) = map (\<lambda>v. case v of Some x \<Rightarrow> x | None \<Rightarrow> 0) vs"
proof -
  have "fold (pa_push 0) vs b = \<lparr>ar_valid = ar_valid b @ map (\<lambda>v. v \<noteq> None) vs, ar_data = ar_data b @ map (\<lambda>v. case v of Some x \<Rightarrow> x | None \<Rightarrow> 0) vs\<rparr>"
    for b :: "int array" by (induction vs arbitrary: b) (simp_all add: pa_push_def)
  then show "ar_valid (ints vs) = map (\<lambda>v. v \<noteq> None) vs" "ar_data (ints vs) = map (\<lambda>v. case v of Some x \<Rightarrow> x | None \<Rightarrow> 0) vs"
    by (simp_all add: ints_def pa_from_iter_def pa_new_def)
qed

lemma pa_len_ints [simp]: "pa_len (ints vs) = length vs"
  by (simp add: pa_len_def ints_fields)

theorem array_arith_rowwise_witness:
  "arith_types (AInt32 (ints [Some 1, None]) :: int array_impl) (AInt64 (ints [Some 2, Some 5]))
   \<and> (\<exists>c. array_arith demo_ops OpAdd (AInt32 (ints [Some 1, None])) (AInt64 (ints [Some 2, Some 5])) = Some (Inr c)
       \<and> ai_items c = [VInt64 3, VNull])"
proof -
  have ty: "arith_types (AInt32 (ints [Some 1, None]) :: int array_impl) (AInt64 (ints [Some 2, Some 5]))"
    by (simp add: arith_types_def)
  have "rowwise (row_arith demo_ops OpAdd) (AInt32 (ints [Some 1, None])) (AInt64 (ints [Some 2, Some 5]))
      (array_arith demo_ops OpAdd (AInt32 (ints [Some 1, None])) (AInt64 (ints [Some 2, Some 5])))"
    using array_arith_rowwise [of "AInt32 (ints [Some 1, None])" "AInt64 (ints [Some 2, Some 5])" demo_ops OpAdd] ty by simp
  then show ?thesis using ty
    by (auto simp: rowwise_def raw_ok_def ints_fields row_arith_int int_arith_def i64_check_def split: if_splits)
qed

theorem array_cmp_rowwise_witness:
  "\<exists>c. array_cmp demo_ops CmpLt (AInt32 (ints [Some 1, None])) (AInt64 (ints [Some 2, Some 5])) = Some (Inr c)
     \<and> ai_items c = [VBool True, VNull]"
proof -
  have "rowwise (row_cmp demo_ops CmpLt) (AInt32 (ints [Some 1, None])) (AInt64 (ints [Some 2, Some 5]))
      (array_cmp demo_ops CmpLt (AInt32 (ints [Some 1, None])) (AInt64 (ints [Some 2, Some 5])))"
    using array_cmp_rowwise [of "AInt32 (ints [Some 1, None])" "AInt64 (ints [Some 2, Some 5])" demo_ops CmpLt]
    by (simp add: cmp_types_def)
  then show ?thesis
    by (auto simp: rowwise_def raw_ok_def ints_fields row_cmp_arms cmp_by_def split: if_splits)
qed

theorem array_div_rowwise_witness:
  "\<exists>c. array_div demo_ops (AInt32 (ints [Some 7, Some 1, None])) (AInt32 (ints [Some 2, Some 0, None])) = Some (Inr c)
     \<and> ai_items c = [VInt32 3, VNull, VNull]"
proof -
  have "rowwise (row_div demo_ops) (AInt32 (ints [Some 7, Some 1, None])) (AInt32 (ints [Some 2, Some 0, None]))
      (array_div demo_ops (AInt32 (ints [Some 7, Some 1, None])) (AInt32 (ints [Some 2, Some 0, None])))"
    by (rule array_div_rowwise) (simp_all add: int_types_def ints_fields int_range_def)
  then show ?thesis
    by (auto simp: rowwise_def raw_ok_def ints_fields row_div_int int_arith_def trunc_div_def i32_check_def i32_range_def split: if_splits)
qed

text \<open>A false condition with a null alternative chooses the raw value of the null slot.\<close>

lemma select_else_null:
  "\<exists>c. array_select (ABool (pa_collect [False])) (AInt32 (pa_collect [1])) (AInt32 (ints [None])) = Some (Inr c) \<and> ai_items c = [VInt32 0]"
  by (simp add: array_select_def select_op_def rust_assert_def lift_ok_def pa_collect_def pa_len_def ints_fields from_data_def pa_items_def)

text \<open>The sum adds what the kernels left in null slots.\<close>

lemma sum_counts_null_slots:
  "\<exists>c. array_arith X OpAdd (AInt32 (ints [None])) (AInt32 (ints [Some 1])) = Some (Inr c) \<and> ai_items c = [VNull]
     \<and> array_sum X c = Some (VInt32 1)"
  by (simp add: array_arith_def binary_op_def rust_assert_def lift_ok_def ints_fields from_data_def pa_items_def array_sum_def
      int_arith_def i32_check_def i32_range_def)

text \<open>The remainder by a null or a zero divisor panics.\<close>

lemma rem_null_panics:
  "array_arith X OpRem (AInt32 (ints [Some 5])) (AInt32 (ints [None])) = None"
  "array_arith X OpRem (AInt32 (ints [Some 5])) (AInt32 (ints [Some 0])) = None"
  by (simp_all add: array_arith_def binary_op_def rust_assert_def lift_ok_def ints_fields int_arith_def)

text \<open>The first value of an array is returned even when it is null.\<close>

lemma first_returns_null: "array_first (AInt32 (ints [None, Some 1])) = VNull"
  by (simp add: array_first_def)

text \<open>A pattern's other characters reach the regular expression unescaped.\<close>

lemma like_keeps_metacharacters: "like_to_regex (text_bytes ''a.c%'') = text_bytes ''^a.c.*$''"
  by (simp add: like_to_regex_def text_bytes_def)

end
