(* ===== verification/Array_Cast.thy ===== *)
theory Array_Cast
  imports Array_Laws
begin

text \<open>
  Casting arrays between types (\<open>cast\<close> of \<open>array/ops.rs\<close>), the text of timestamps and dates
  (\<open>types/timestamp.rs\<close>, \<open>types/date.rs\<close>) and of vectors (\<open>types/vector.rs\<close>) it needs, and reading a value from
  the text of a file (\<open>push_str\<close> of \<open>array/mod.rs\<close>). Whitespace that is trimmed is ASCII.
\<close>

section \<open>The text of dates and timestamps\<close>

definition THIRTY_YEARS_MICROSECONDS :: int where
  "THIRTY_YEARS_MICROSECONDS = 946684800000000"

definition TIMESTAMP_FORMATS :: "string list" where
  "TIMESTAMP_FORMATS = [''%Y-%m-%d %H:%M:%S'', ''%Y-%m-%d %H:%M:%S AD'', ''%Y-%m-%d %H:%M:%S BC'']"

definition TIMESTAMP_TZ_FORMATS :: "string list" where
  "TIMESTAMP_TZ_FORMATS = [''%Y-%m-%d %H:%M:%S %z'', ''%Y-%m-%d %H:%M:%S %z AD'', ''%Y-%m-%d %H:%M:%S %z BC'',
     ''%Y-%m-%d %H:%M:%S AD %z'', ''%Y-%m-%d %H:%M:%S BC %z'']"

fun contains_bc :: "byte list \<Rightarrow> bool" where
  "contains_bc (a # b # s) = (a = 66 \<and> b = 67 \<or> contains_bc (b # s))"
| "contains_bc _ = False"

definition timestamp_micros :: "int \<times> int \<Rightarrow> int" where
  "timestamp_micros dt = (fst dt - UNIX_EPOCH_DAYS) * 86400000000 + snd dt"

text \<open>The left injection is an invalid year.\<close>

definition naive_utc_to_timestamp :: "calendar \<Rightarrow> int \<times> int \<Rightarrow> bool \<Rightarrow> (unit + int) option" where
  "naive_utc_to_timestamp cal dt is_bc =
     (if is_bc then do {
        (y, m, d) \<leftarrow> cal_from_days cal (fst dt);
        case cal_from_ymd cal (- y) m d of
          None \<Rightarrow> Some (Inl ())
        | Some n \<Rightarrow> map_option Inr (i64_check (timestamp_micros (n, snd dt) + THIRTY_YEARS_MICROSECONDS)) }
      else map_option Inr (i64_check (timestamp_micros dt + THIRTY_YEARS_MICROSECONDS)))"

fun first_parse :: "('f \<Rightarrow> 'a option) \<Rightarrow> 'f list \<Rightarrow> 'a option" where
  "first_parse f [] = None"
| "first_parse f (x # xs) = (case f x of Some a \<Rightarrow> Some a | None \<Rightarrow> first_parse f xs)"

text \<open>A time zone in the text of a timestamp without zone is ignored; the zone of the process is the zero offset.\<close>

definition timestamp_from_str :: "'d conv_ops \<Rightarrow> byte list \<Rightarrow> (unit + int) option" where
  "timestamp_from_str X s =
     (case first_parse (\<lambda>fmt. chr_parse_naive (co_chrono X) fmt s) (TIMESTAMP_FORMATS @ TIMESTAMP_TZ_FORMATS) of
        Some dt \<Rightarrow> naive_utc_to_timestamp (x_calendar (co_ext X)) dt (contains_bc s)
      | None \<Rightarrow> Some (Inl ()))"

definition timestamptz_from_str :: "'d conv_ops \<Rightarrow> byte list \<Rightarrow> (unit + int) option" where
  "timestamptz_from_str X s =
     (case first_parse (\<lambda>fmt. chr_parse_naive (co_chrono X) fmt s) TIMESTAMP_FORMATS of
        Some dt \<Rightarrow> naive_utc_to_timestamp (x_calendar (co_ext X)) dt (contains_bc s)
      | None \<Rightarrow>
          (case first_parse (\<lambda>fmt. chr_parse_offset (co_chrono X) fmt s) TIMESTAMP_TZ_FORMATS of
             Some dt \<Rightarrow> naive_utc_to_timestamp (x_calendar (co_ext X)) dt (contains_bc s)
           | None \<Rightarrow> Some (Inl ())))"

definition pad_zeros :: "nat \<Rightarrow> int \<Rightarrow> string" where
  "pad_zeros w i = (let s = show_nat (nat i) in replicate (w - length s) CHR ''0'' @ s)"

definition naive_sys_fmt :: "'d conv_ops \<Rightarrow> int \<times> int \<Rightarrow> byte list option" where
  "naive_sys_fmt X dt = do {
     (y, m, d) \<leftarrow> cal_from_days (x_calendar (co_ext X)) (fst dt);
     let secs = snd dt div 1000000;
     if y < 0
     then Some (text_bytes (pad_zeros 4 (- y) @ ''-'' @ pad_zeros 2 m @ ''-'' @ pad_zeros 2 d @ '' ''
       @ pad_zeros 2 (secs div 3600) @ '':'' @ pad_zeros 2 (secs div 60 mod 60) @ '':'' @ pad_zeros 2 (secs mod 60) @ '' BC''))
     else Some (chr_show_naive (co_chrono X) dt) }"

definition timestamp_show :: "'d conv_ops \<Rightarrow> int \<Rightarrow> byte list option" where
  "timestamp_show X t = do {
     us \<leftarrow> i64_check (t - THIRTY_YEARS_MICROSECONDS);
     dt \<leftarrow> chr_from_millis (co_chrono X) (trunc_div us 1000);
     naive_sys_fmt X dt }"

definition timestamptz_show :: "'d conv_ops \<Rightarrow> int \<Rightarrow> byte list option" where
  "timestamptz_show X t = map_option (\<lambda>s. s @ text_bytes '' '' @ chr_show_offset (co_chrono X) 0) (timestamp_show X t)"

definition date_from_str :: "'d conv_ops \<Rightarrow> byte list \<Rightarrow> int option option" where
  "date_from_str X s =
     (case chr_parse_date (co_chrono X) s of None \<Rightarrow> Some None | Some n \<Rightarrow> map_option Some (i32_check (n - UNIX_EPOCH_DAYS)))"

definition date_show :: "'d conv_ops \<Rightarrow> int \<Rightarrow> byte list option" where
  "date_show X d = do { n \<leftarrow> i32_check (d + UNIX_EPOCH_DAYS); chr_show_date (co_chrono X) n }"

definition parse_vector :: "'d conv_ops \<Rightarrow> string \<Rightarrow> u64 list option" where
  "parse_vector X s = do {
     s \<leftarrow> strip_prefix ''['' (trim_matches ascii_whitespace s);
     rust_assert (s \<noteq> [] \<and> last s = CHR '']'');
     let s = trim_matches ascii_whitespace (butlast s);
     if s = [] then Some []
     else those (map (\<lambda>t. co_f64_parse X (text_bytes (trim_matches ascii_whitespace t))) (split_all CHR '','' s)) }"

section \<open>Casts\<close>

definition display_array :: "('a \<Rightarrow> byte list option) \<Rightarrow> 'a array \<Rightarrow> byte list array option" where
  "display_array f a = do {
     es \<leftarrow> pa_to_vec a;
     ss \<leftarrow> those (map (\<lambda>e. case e of Some x \<Rightarrow> map_option Some (f x) | None \<Rightarrow> Some None) es);
     Some (pa_from_iter [] ss) }"

definition or_error :: "'e \<Rightarrow> 'a option \<Rightarrow> ('e + 'a) option" where
  "or_error e r = Some (case r of Some x \<Rightarrow> Inr x | None \<Rightarrow> Inl e)"

definition no_cast :: "string \<Rightarrow> data_type \<Rightarrow> 'd array_result" where
  "no_cast name ty = Some (Inl (NoCast name ty))"

definition in_range :: "nat \<Rightarrow> int \<Rightarrow> int option" where
  "in_range w i = (if int_range w i then Some i else None)"

definition cast_bool :: "'d conv_ops \<Rightarrow> bool array \<Rightarrow> data_type \<Rightarrow> 'd array_result" where
  "cast_bool X a ty =
     (case ty of
        TBool \<Rightarrow> Some (Inr (ABool a))
      | TInt16 \<Rightarrow> lift_ok AInt16 (unary_op (\<lambda>b. Some (of_bool b)) a)
      | TInt32 \<Rightarrow> lift_ok AInt32 (unary_op (\<lambda>b. Some (of_bool b)) a)
      | TInt64 \<Rightarrow> lift_ok AInt64 (unary_op (\<lambda>b. Some (of_bool b)) a)
      | TFloat64 \<Rightarrow> lift_ok AFloat64 (unary_op (\<lambda>b. Some (co_f64_of_int X (of_bool b))) a)
      | TString \<Rightarrow> lift_ok AString (unary_op (\<lambda>b. Some (text_bytes (show_bool b))) a)
      | TDecimal _ _ \<Rightarrow> lift_ok ADecimal (unary_op (\<lambda>b. Some (co_dec_of_int X (of_bool b))) a)
      | _ \<Rightarrow> no_cast ''BOOLEAN'' ty)"

text \<open>An integer of width \<open>w\<close> to one of width \<open>t\<close>: the same width is shared, a wider one converts the raw values, a
  narrower one checks the non-null values.\<close>

definition resize_int :: "nat \<Rightarrow> nat \<Rightarrow> (int \<Rightarrow> 'd data_value) \<Rightarrow> (int array \<Rightarrow> 'd array_impl) \<Rightarrow> data_type \<Rightarrow> int array \<Rightarrow> 'd array_result" where
  "resize_int w t val con ty a =
     (if w = t then Some (Inr (con a))
      else if w < t then lift_ok con (unary_op Some a)
      else lift_try con (try_unary_op (\<lambda>b. or_error (Overflow (val b) ty) (in_range t b)) 0 a))"

definition cast_int :: "'d conv_ops \<Rightarrow> nat \<Rightarrow> (int \<Rightarrow> 'd data_value) \<Rightarrow> string \<Rightarrow> int array \<Rightarrow> data_type \<Rightarrow> 'd array_result" where
  "cast_int X w val name a ty =
     (case ty of
        TBool \<Rightarrow> lift_ok ABool (unary_op (\<lambda>i. Some (i \<noteq> 0)) a)
      | TInt16 \<Rightarrow> resize_int w 16 val AInt16 ty a
      | TInt32 \<Rightarrow> resize_int w 32 val AInt32 ty a
      | TInt64 \<Rightarrow> resize_int w 64 val AInt64 ty a
      | TFloat64 \<Rightarrow> lift_ok AFloat64 (unary_op (\<lambda>i. Some (co_f64_of_int X i)) a)
      | TString \<Rightarrow> lift_ok AString (display_array (\<lambda>i. Some (text_bytes (show_int i))) a)
      | TDecimal _ _ \<Rightarrow> lift_ok ADecimal (unary_op (\<lambda>i. Some (co_dec_of_int X i)) a)
      | _ \<Rightarrow> no_cast name ty)"

definition cast_float :: "'d conv_ops \<Rightarrow> u64 array \<Rightarrow> data_type \<Rightarrow> 'd array_result" where
  "cast_float X a ty =
     (let to_int = (\<lambda>w f. or_error (Overflow (VFloat64 f) ty) (do { i \<leftarrow> co_f64_trunc X f; in_range w i }))
      in case ty of
        TBool \<Rightarrow> lift_ok ABool (unary_op (\<lambda>f. Some (\<not> f64_is_zero f)) a)
      | TInt16 \<Rightarrow> lift_try AInt16 (try_unary_op (to_int 16) 0 a)
      | TInt32 \<Rightarrow> lift_try AInt32 (try_unary_op (to_int 32) 0 a)
      | TInt64 \<Rightarrow> lift_try AInt64 (try_unary_op (to_int 64) 0 a)
      | TFloat64 \<Rightarrow> Some (Inr (AFloat64 a))
      | TString \<Rightarrow> lift_ok AString (display_array (\<lambda>f. Some (co_f64_show X f)) a)
      | TDecimal _ _ \<Rightarrow> lift_ok ADecimal (unary_op (co_dec_of_f64 X) a)
      | _ \<Rightarrow> no_cast ''DOUBLE'' ty)"

definition cast_decimal :: "'d conv_ops \<Rightarrow> 'd array \<Rightarrow> data_type \<Rightarrow> 'd array_result" where
  "cast_decimal X a ty =
     (let to_int = (\<lambda>w t d. or_error (FromDecimalError t d) (do { i \<leftarrow> co_dec_trunc X d; in_range w i }))
      in case ty of
        TBool \<Rightarrow> lift_ok ABool (unary_op (\<lambda>d. Some (\<not> xd_is_zero (co_ext X) d)) a)
      | TInt16 \<Rightarrow> lift_try AInt16 (try_unary_op (to_int 16 TInt16) 0 a)
      | TInt32 \<Rightarrow> lift_try AInt32 (try_unary_op (to_int 32 TInt32) 0 a)
      | TInt64 \<Rightarrow> lift_try AInt64 (try_unary_op (to_int 64 TInt64) 0 a)
      | TFloat64 \<Rightarrow> lift_try AFloat64 (try_unary_op (\<lambda>d. or_error (FromDecimalError TFloat64 d) (co_dec_to_f64 X d)) 0 a)
      | TString \<Rightarrow> lift_ok AString (display_array (\<lambda>d. Some (co_dec_show X d)) a)
      | TDecimal _ _ \<Rightarrow> Some (Inr (ADecimal a))
      | _ \<Rightarrow> no_cast ''DOUBLE'' ty)"

fun try_vector_loop :: "('a \<Rightarrow> ('e + u64 list) option) \<Rightarrow> 'a option list \<Rightarrow> u64 chunked_builder \<Rightarrow> ('e + u64 chunked_builder) option" where
  "try_vector_loop f [] b = Some (Inr (fst (chb_take b)))"
| "try_vector_loop f (None # es) b = None"
| "try_vector_loop f (Some e # es) b =
     (case f e of
        None \<Rightarrow> None
      | Some (Inl err) \<Rightarrow> Some (Inl err)
      | Some (Inr x) \<Rightarrow> do { b' \<leftarrow> chb_push (Some x) b; try_vector_loop f es b' })"

text \<open>Parsing one text as a value of a type, with the error the code returns; \<open>None\<close> for the types that are not parsed.\<close>

definition parse_cell_interval :: "byte list \<Rightarrow> ('d convert_error + interval) option" where
  "parse_cell_interval s = map_option (map_sum (ParseInterval s) id) (parse_interval (bytes_text s))"

definition parse_cell_blob :: "byte list \<Rightarrow> ('d convert_error + byte list) option" where
  "parse_cell_blob s = map_option (map_sum (ParseBlob s) id) (parse_blob s)"

definition parse_cell_date :: "'d conv_ops \<Rightarrow> byte list \<Rightarrow> ('d convert_error + int) option" where
  "parse_cell_date X s = do { r \<leftarrow> date_from_str X s; or_error (ParseDate s) r }"

definition parse_cell_timestamp :: "'d conv_ops \<Rightarrow> byte list \<Rightarrow> ('d convert_error + int) option" where
  "parse_cell_timestamp X s = map_option (map_sum (\<lambda>_. ParseTimestamp s) id) (timestamp_from_str X s)"

definition parse_cell_timestamptz :: "'d conv_ops \<Rightarrow> byte list \<Rightarrow> ('d convert_error + int) option" where
  "parse_cell_timestamptz X s = map_option (map_sum (\<lambda>_. ParseTimestampTz s) id) (timestamptz_from_str X s)"

definition cast_string :: "'d conv_ops \<Rightarrow> byte list array \<Rightarrow> data_type \<Rightarrow> 'd array_result" where
  "cast_string X a ty =
     (case ty of
        TBool \<Rightarrow> lift_try ABool (try_unary_op (\<lambda>s. or_error (ParseBool s) (parse_bool (bytes_text s))) False a)
      | TInt16 \<Rightarrow> lift_try AInt16 (try_unary_op (\<lambda>s. or_error (ParseInt s) (parse_int 16 (bytes_text s))) 0 a)
      | TInt32 \<Rightarrow> lift_try AInt32 (try_unary_op (\<lambda>s. or_error (ParseInt s) (parse_int 32 (bytes_text s))) 0 a)
      | TInt64 \<Rightarrow> lift_try AInt64 (try_unary_op (\<lambda>s. or_error (ParseInt s) (parse_int 64 (bytes_text s))) 0 a)
      | TFloat64 \<Rightarrow> lift_try AFloat64 (try_unary_op (\<lambda>s. or_error (ParseFloat s) (co_f64_parse X s)) 0 a)
      | TString \<Rightarrow> Some (Inr (AString a))
      | TDecimal _ _ \<Rightarrow> lift_try ADecimal (try_unary_op (\<lambda>s. or_error (ParseDecimal s) (co_dec_parse X s)) (co_zero X) a)
      | TDate \<Rightarrow> lift_try ADate (try_unary_op (parse_cell_date X) 0 a)
      | TTimestamp \<Rightarrow> lift_try ATimestamp (try_unary_op (parse_cell_timestamp X) 0 a)
      | TTimestampTz \<Rightarrow> lift_try ATimestampTz (try_unary_op (parse_cell_timestamptz X) 0 a)
      | TInterval \<Rightarrow> lift_try AInterval (try_unary_op parse_cell_interval interval_default a)
      | TBlob \<Rightarrow> lift_try ABlob (try_unary_op parse_cell_blob [] a)
      | TVector _ \<Rightarrow> do {
          es \<leftarrow> pa_to_vec a;
          r \<leftarrow> try_vector_loop (\<lambda>s. or_error (ParseVector s) (parse_vector X (bytes_text s))) es ch_new;
          Some (map_sum id AVector r) }
      | _ \<Rightarrow> no_cast ''VARCHAR'' ty)"

definition array_cast :: "'d conv_ops \<Rightarrow> data_type \<Rightarrow> 'd array_impl \<Rightarrow> 'd array_result" where
  "array_cast X ty self =
     (case self of
        ANull a \<Rightarrow> do {
          b \<leftarrow> ai_with_capacity ty;
          b \<leftarrow> ai_push_n (co_zero X) (pa_len a) VNull b;
          Some (Inr (ai_finish b)) }
      | ABool a \<Rightarrow> cast_bool X a ty
      | AInt16 a \<Rightarrow> cast_int X 16 VInt16 ''SMALLINT'' a ty
      | AInt32 a \<Rightarrow> cast_int X 32 VInt32 ''INT'' a ty
      | AInt64 a \<Rightarrow> cast_int X 64 VInt64 ''BIGINT'' a ty
      | AFloat64 a \<Rightarrow> cast_float X a ty
      | AString a \<Rightarrow> cast_string X a ty
      | ABlob _ \<Rightarrow> None
      | AVector _ \<Rightarrow> None
      | ADecimal a \<Rightarrow> cast_decimal X a ty
      | ADate a \<Rightarrow> (case ty of
            TDate \<Rightarrow> Some (Inr self) | TString \<Rightarrow> lift_ok AString (display_array (date_show X) a) | _ \<Rightarrow> no_cast ''DATE'' ty)
      | ATimestamp a \<Rightarrow> (case ty of
            TTimestamp \<Rightarrow> Some (Inr self) | TString \<Rightarrow> lift_ok AString (display_array (timestamp_show X) a) | _ \<Rightarrow> no_cast ''TIMESTAMP'' ty)
      | ATimestampTz a \<Rightarrow> (case ty of
            TTimestampTz \<Rightarrow> Some (Inr self) | TString \<Rightarrow> lift_ok AString (display_array (timestamptz_show X) a)
          | _ \<Rightarrow> no_cast ''TIMESTAMP WITH TIME ZONE'' ty)
      | AInterval a \<Rightarrow> (case ty of
            TInterval \<Rightarrow> Some (Inr self) | TString \<Rightarrow> lift_ok AString (display_array (\<lambda>v. Some (text_bytes (show_interval v))) a)
          | _ \<Rightarrow> no_cast ''INTERVAL'' ty))"

definition value_cast :: "'d conv_ops \<Rightarrow> data_type \<Rightarrow> 'd data_value \<Rightarrow> ('d convert_error + 'd data_value) option" where
  "value_cast X ty v = do {
     a \<leftarrow> ai_of_value v;
     r \<leftarrow> array_cast X ty a;
     case r of Inl e \<Rightarrow> Some (Inl e) | Inr c \<Rightarrow> map_option Inr (ai_get c 0) }"

text \<open>Appending the text of a file's field: the empty text is null.\<close>

definition push_parsed :: "('x array \<Rightarrow> 'd array_impl) \<Rightarrow> 'x \<Rightarrow> 'x array \<Rightarrow> byte list \<Rightarrow> ('d convert_error + 'x) option \<Rightarrow> 'd array_result" where
  "push_parsed con d a s r =
     (if s = [] then Some (Inr (con (pa_push d None a)))
      else map_option (map_sum id (\<lambda>x. con (pa_push d (Some x) a))) r)"

definition ai_push_str :: "'d conv_ops \<Rightarrow> byte list \<Rightarrow> 'd array_impl \<Rightarrow> 'd array_result" where
  "ai_push_str X s self =
     (case self of
        ANull a \<Rightarrow> Some (Inr (ANull (pa_push () None a)))
      | ABool a \<Rightarrow> push_parsed ABool False a s (or_error (ParseBool s) (parse_bool (bytes_text s)))
      | AInt16 a \<Rightarrow> push_parsed AInt16 0 a s (or_error (ParseInt s) (parse_int 16 (bytes_text s)))
      | AInt32 a \<Rightarrow> push_parsed AInt32 0 a s (or_error (ParseInt s) (parse_int 32 (bytes_text s)))
      | AInt64 a \<Rightarrow> push_parsed AInt64 0 a s (or_error (ParseInt s) (parse_int 64 (bytes_text s)))
      | AFloat64 a \<Rightarrow> push_parsed AFloat64 0 a s (or_error (ParseFloat s) (co_f64_parse X s))
      | AString a \<Rightarrow> push_parsed AString [] a s (Some (Inr s))
      | ABlob a \<Rightarrow> push_parsed ABlob [] a s (parse_cell_blob s)
      | AVector a \<Rightarrow>
          if s = [] then None
          else (case parse_vector X (bytes_text s) of
              None \<Rightarrow> Some (Inl (ParseVector s))
            | Some v \<Rightarrow> map_option (\<lambda>b. Inr (AVector b)) (chb_push (Some v) a))
      | ADecimal a \<Rightarrow> push_parsed ADecimal (co_zero X) a s (or_error (ParseDecimal s) (co_dec_parse X s))
      | ADate a \<Rightarrow> push_parsed ADate 0 a s (parse_cell_date X s)
      | ATimestamp a \<Rightarrow> push_parsed ATimestamp 0 a s (parse_cell_timestamp X s)
      | ATimestampTz a \<Rightarrow> push_parsed ATimestampTz 0 a s (parse_cell_timestamptz X s)
      | AInterval a \<Rightarrow> push_parsed AInterval interval_default a s (parse_cell_interval s))"


section \<open>What casts keep\<close>

lemma bytes_text_id [simp]: "bytes_text (text_bytes s) = s"
proof -
  have "char_of (unat (of_nat (of_char c) :: byte)) = c" for c :: char
  proof -
    have "(of_char c :: nat) < 256" using range_nat_of_char by auto
    then have "unat (of_nat (of_char c) :: byte) = of_char c" by simp
    then show ?thesis by simp
  qed
  then show ?thesis by (simp add: text_bytes_def bytes_text_def comp_def map_idI)
qed

lemma try_loop_ok:
  "\<forall>x. Some x \<in> set es \<longrightarrow> f x = Some (Inr (g x)) \<Longrightarrow>
   try_unary_loop f d es b = Some (Inr (fold (pa_push d) (map (map_option g) es) b))"
  by (induction f d es b rule: try_unary_loop.induct) auto

lemma try_unary_ok:
  assumes "pa_wf a" and "\<forall>x. Some x \<in> set (pa_items a) \<longrightarrow> f x = Some (Inr (g x))"
  shows "\<exists>c. try_unary_op f d a = Some (Inr c) \<and> pa_wf c \<and> pa_items c = map (map_option g) (pa_items a)"
  using try_loop_ok [OF assms(2), of d pa_new] pa.collect [of d "map (map_option g) (pa_items a)"] assms(1)
  by (auto simp: try_unary_op_def pa_to_vec_eq)

lemma try_loop_error:
  "f e = Some (Inl err) \<Longrightarrow> \<forall>x. Some x \<in> set xs \<longrightarrow> f x = Some (Inr (g x)) \<Longrightarrow>
   try_unary_loop f d (xs @ Some e # ys) b = Some (Inl err)"
proof (induction xs arbitrary: b)
  case (Cons x xs)
  then show ?case by (cases x) auto
qed simp

lemma display_ok:
  assumes "pa_wf a"
  shows "\<exists>c. display_array (\<lambda>x. Some (f x)) a = Some c \<and> pa_wf c \<and> pa_items c = map (map_option f) (pa_items a)"
proof -
  have "those (map (\<lambda>e. case e of Some x \<Rightarrow> Some (Some (f x)) | None \<Rightarrow> Some None) (pa_items a)) = Some (map (map_option f) (pa_items a))"
    by (rule those_map_Some) (auto split: option.split)
  then show ?thesis using assms pa.collect [of "[]" "map (map_option f) (pa_items a)"]
    by (auto simp: display_array_def pa_to_vec_eq pa_from_iter_def)
qed

lemma items_data: "Some x \<in> set (pa_items a) \<Longrightarrow> x \<in> set (ar_data a)"
  by (auto simp: pa_items_def dest: set_zip_rightD split: if_splits)

lemma int_text_back:
  assumes wf: "pa_wf a" and r: "\<forall>x\<in>set (ar_data a). int_range w x"
  shows "\<exists>s c. display_array (\<lambda>i. Some (text_bytes (show_int i))) a = Some s
    \<and> try_unary_op (\<lambda>s. or_error (ParseInt s :: 'd convert_error) (parse_int w (bytes_text s))) 0 s = Some (Inr c) \<and> pa_wf c \<and> pa_items c = pa_items a"
proof -
  from display_ok [OF wf, of "\<lambda>i. text_bytes (show_int i)"] obtain s where s: "display_array (\<lambda>i. Some (text_bytes (show_int i))) a = Some s" "pa_wf s"
    "pa_items s = map (map_option (\<lambda>i. text_bytes (show_int i))) (pa_items a)" by blast
  define g where "g = (\<lambda>s. the (parse_int w (bytes_text s)))"
  have parsed: "parse_int w (bytes_text (text_bytes (show_int i))) = Some i" if "Some i \<in> set (pa_items a)" for i
    using parse_show_int r items_data [OF that] by simp
  then have "\<forall>x. Some x \<in> set (pa_items s) \<longrightarrow> or_error (ParseInt x :: 'd convert_error) (parse_int w (bytes_text x)) = Some (Inr (g x))"
    unfolding s(3) or_error_def g_def by (auto simp: map_option_case split: option.splits)
  from try_unary_ok [OF s(2) this, of 0] obtain c where
    c: "try_unary_op (\<lambda>s. or_error (ParseInt s :: 'd convert_error) (parse_int w (bytes_text s))) 0 s = Some (Inr c)" "pa_wf c"
    "pa_items c = map (map_option g) (pa_items s)" by blast
  have "map (map_option g) (pa_items s) = pa_items a"
    unfolding s(3) map_map by (rule map_idI) (use parsed in \<open>auto simp: g_def map_option_case split: option.split\<close>)
  with s c show ?thesis by auto
qed

lemma bool_text_back:
  assumes wf: "pa_wf a"
  shows "\<exists>c. try_unary_op (\<lambda>s. or_error (ParseBool s :: 'd convert_error) (parse_bool (bytes_text s))) False
      (from_data (map (\<lambda>b. text_bytes (show_bool b)) (ar_data a)) (ar_valid a)) = Some (Inr c) \<and> pa_wf c \<and> pa_items c = pa_items a"
proof -
  let ?s = "from_data (map (\<lambda>b. text_bytes (show_bool b)) (ar_data a)) (ar_valid a)"
  define g where "g = (\<lambda>s. the (parse_bool (bytes_text s)))"
  have s: "pa_wf ?s" "pa_items ?s = map (map_option (\<lambda>b. text_bytes (show_bool b))) (pa_items a)"
    using wf by (auto simp: from_data_def pa_wf_def pa_items_def intro!: nth_equalityI)
  have "\<forall>x. Some x \<in> set (pa_items ?s) \<longrightarrow> or_error (ParseBool x :: 'd convert_error) (parse_bool (bytes_text x)) = Some (Inr (g x))"
    unfolding s(2) or_error_def g_def by (auto simp: parse_show_bool map_option_case split: option.splits)
  from try_unary_ok [OF s(1) this, of False] obtain c where
    c: "try_unary_op (\<lambda>s. or_error (ParseBool s :: 'd convert_error) (parse_bool (bytes_text s))) False ?s = Some (Inr c)" "pa_wf c"
    "pa_items c = map (map_option g) (pa_items ?s)" by blast
  have "map (map_option g) (pa_items ?s) = pa_items a"
    unfolding s(2) map_map by (rule map_idI) (auto simp: g_def parse_show_bool map_option_case split: option.split)
  with c show ?thesis by auto
qed

text \<open>C37. Casting booleans or integers to text and back gives the same values, nulls included.\<close>

theorem cast_text_roundtrip:
  assumes "ai_wf a" and "ai_ranged a" and "(ai_type a, ty) \<in> {(1, TBool), (2, TInt16), (3, TInt32), (4, TInt64)}"
  shows "\<exists>s c. array_cast X TString a = Some (Inr s) \<and> array_cast X ty s = Some (Inr c) \<and> ai_wf c \<and> ai_items c = ai_items a"
  using assms
proof (cases a)
  case (ABool b)
  with assms bool_text_back [of b] show ?thesis
    by (fastforce simp: array_cast_def cast_bool_def cast_string_def lift_ok_def lift_try_def unary_total)
next
  case (AInt16 b)
  with assms int_text_back [of b 16] show ?thesis
    by (fastforce simp: array_cast_def cast_int_def cast_string_def lift_ok_def lift_try_def list_all_iff)
next
  case (AInt32 b)
  with assms int_text_back [of b 32] show ?thesis
    by (fastforce simp: array_cast_def cast_int_def cast_string_def lift_ok_def lift_try_def list_all_iff)
next
  case (AInt64 b)
  with assms int_text_back [of b 64] show ?thesis
    by (fastforce simp: array_cast_def cast_int_def cast_string_def lift_ok_def lift_try_def list_all_iff)
qed auto

theorem cast_text_roundtrip_witness:
  "\<exists>s c. array_cast demo_ops TString (AInt32 (ints [Some (-5), None])) = Some (Inr s) \<and> array_cast demo_ops TInt32 s = Some (Inr c)
     \<and> ai_wf c \<and> ai_items c = ai_items (AInt32 (ints [Some (-5), None]))"
  by (rule cast_text_roundtrip) (simp_all add: ints_fields int_range_def)

text \<open>Narrowing an integer array fails on the first value out of range and otherwise keeps the values.\<close>

lemma resize_int_spec:
  assumes "pa_wf a" and "t < w"
  shows "(\<forall>x. Some x \<in> set (pa_items a) \<longrightarrow> int_range t x) \<Longrightarrow>
      \<exists>c. resize_int w t val con ty a = Some (Inr (con c)) \<and> pa_wf c \<and> pa_items c = pa_items a"
    and "pa_items a = xs @ Some e # ys \<Longrightarrow> (\<forall>x. Some x \<in> set xs \<longrightarrow> int_range t x) \<Longrightarrow> \<not> int_range t e \<Longrightarrow>
      resize_int w t val con ty a = Some (Inl (Overflow (val e) ty))"
proof -
  assume "\<forall>x. Some x \<in> set (pa_items a) \<longrightarrow> int_range t x"
  then have "\<forall>x. Some x \<in> set (pa_items a) \<longrightarrow> or_error (Overflow (val x) ty) (in_range t x) = Some (Inr (id x))"
    by (simp add: or_error_def in_range_def)
  from try_unary_ok [OF assms(1) this, of 0] obtain c where c: "try_unary_op (\<lambda>b. or_error (Overflow (val b) ty) (in_range t b)) 0 a = Some (Inr c)"
    "pa_wf c" "pa_items c = map (map_option id) (pa_items a)" by blast
  have "pa_items c = pa_items a" unfolding c(3) by (simp add: option.map_id0)
  moreover have "resize_int w t val con ty a = Some (Inr (con c))" using c(1) assms(2) by (simp add: resize_int_def lift_try_def)
  ultimately show "\<exists>c. resize_int w t val con ty a = Some (Inr (con c)) \<and> pa_wf c \<and> pa_items c = pa_items a" using c(2) by blast
next
  assume e: "pa_items a = xs @ Some e # ys" "\<forall>x. Some x \<in> set xs \<longrightarrow> int_range t x" "\<not> int_range t e"
  have "try_unary_loop (\<lambda>b. or_error (Overflow (val b) ty) (in_range t b)) 0 (xs @ Some e # ys) pa_new = Some (Inl (Overflow (val e) ty))"
    by (rule try_loop_error [where g = id]) (use e in \<open>simp_all add: or_error_def in_range_def\<close>)
  with assms e(1) show "resize_int w t val con ty a = Some (Inl (Overflow (val e) ty))"
    by (simp add: resize_int_def try_unary_op_def pa_to_vec_eq lift_try_def)
qed

text \<open>A cast to boolean keeps the raw value of a null slot, which then counts as true in a disjunction.\<close>

lemma cast_bool_unclean:
  "\<exists>n b r. array_arith X OpAdd (AInt32 (ints [None])) (AInt32 (ints [Some 1])) = Some (Inr n) \<and> ai_items n = [VNull]
     \<and> array_cast X TBool n = Some (Inr b) \<and> ai_items b = [VNull]
     \<and> array_or b (ABool (pa_collect [False])) = Some (Inr r) \<and> ai_items r = [VBool True]"
  by (simp add: array_arith_def binary_op_def rust_assert_def lift_ok_def ints_fields from_data_def pa_items_def array_cast_def cast_int_def
      int_arith_def i32_check_def i32_range_def unary_op_def array_or_def pa_collect_def pa_len_def)

end
