(* ===== verification/Chunks.thy ===== *)
theory Chunks
  imports Array_Cast
begin

text \<open>
  Data chunks (\<open>array/data_chunk.rs\<close>) and their builder (\<open>array/data_chunk_builder.rs\<close>): arrays of one
  length with that length, filtered, sliced and joined column by column; the builder collects rows
  and gives out a chunk whenever its capacity is reached. \<open>chunk_rows\<close> lists the rows of a chunk. Pushing
  rows one by one and taking the rest gives chunks whose rows are the pushed ones.
\<close>

type_synonym 'd row = "'d data_value list"

section \<open>Chunks\<close>

record 'd data_chunk =
  dc_arrays :: "'d array_impl list"
  dc_cardinality :: nat

definition chunk_of_arrays :: "'d array_impl list \<Rightarrow> 'd data_chunk option" where
  "chunk_of_arrays arrays =
     (let cardinality = (case arrays of [] \<Rightarrow> 0 | a # _ \<Rightarrow> ai_len a)
      in do { rust_assert (list_all (\<lambda>a. ai_len a = cardinality) arrays);
              Some \<lparr>dc_arrays = arrays, dc_cardinality = cardinality\<rparr> })"

definition chunk_single :: "int \<Rightarrow> 'd data_chunk" where
  "chunk_single item = \<lparr>dc_arrays = [AInt32 (pa_collect [item])], dc_cardinality = 1\<rparr>"

definition chunk_no_column :: "nat \<Rightarrow> 'd data_chunk" where
  "chunk_no_column n = \<lparr>dc_arrays = [], dc_cardinality = n\<rparr>"

definition row_ref_values :: "'d data_chunk \<Rightarrow> nat \<Rightarrow> 'd row option" where
  "row_ref_values c i = do { rust_assert (i < dc_cardinality c); those (map (\<lambda>a. ai_get a i) (dc_arrays c)) }"

definition row_ref_get :: "'d data_chunk \<Rightarrow> nat \<Rightarrow> nat \<Rightarrow> 'd data_value option" where
  "row_ref_get c i idx = do { a \<leftarrow> index_at (dc_arrays c) idx; ai_get a i }"

definition get_by_indexes :: "'d data_chunk \<Rightarrow> nat \<Rightarrow> nat list \<Rightarrow> 'd row option" where
  "get_by_indexes c i idxs = those (map (row_ref_get c i) idxs)"

definition dc_rows :: "'d data_chunk \<Rightarrow> 'd row list option" where
  "dc_rows c = those (map (row_ref_values c) [0..<dc_cardinality c])"

definition dc_filter :: "bool list \<Rightarrow> 'd data_chunk \<Rightarrow> 'd data_chunk option" where
  "dc_filter vis c = do {
     arrays \<leftarrow> those (map (ai_filter vis) (dc_arrays c));
     Some \<lparr>dc_arrays = arrays,
           dc_cardinality = (case arrays of a # _ \<Rightarrow> ai_len a | [] \<Rightarrow> length (filter id vis))\<rparr> }"

definition dc_slice :: "'d \<Rightarrow> nat \<Rightarrow> nat \<Rightarrow> 'd data_chunk \<Rightarrow> 'd data_chunk option" where
  "dc_slice z lo hi c = do {
     rust_assert (lo \<le> hi \<and> hi \<le> dc_cardinality c);
     arrays \<leftarrow> those (map (ai_slice z lo hi) (dc_arrays c));
     Some \<lparr>dc_arrays = arrays, dc_cardinality = hi - lo\<rparr> }"

definition row_concat :: "'d data_chunk \<Rightarrow> 'd data_chunk \<Rightarrow> 'd data_chunk option" where
  "row_concat a b = do {
     rust_assert (dc_cardinality a = dc_cardinality b);
     chunk_of_arrays (dc_arrays a @ dc_arrays b) }"

definition chunk_from_rows :: "'d \<Rightarrow> 'd row list \<Rightarrow> 'd data_chunk \<Rightarrow> 'd data_chunk option" where
  "chunk_from_rows z rows c = do {
     arrays \<leftarrow> those (map (\<lambda>col. do {
       a \<leftarrow> index_at (dc_arrays c) col;
       b \<leftarrow> fold_opt (\<lambda>row b. do { v \<leftarrow> index_at row col; ai_push z v b }) rows (from_type_of_array a);
       Some (ai_finish b) }) [0..<length (dc_arrays c)]);
     chunk_of_arrays arrays }"

section \<open>The builder\<close>

record 'd chunk_builder =
  cbl_builders :: "'d array_impl list"
  cbl_size :: nat
  cbl_capacity :: nat

definition cbl_new :: "data_type list \<Rightarrow> nat \<Rightarrow> 'd chunk_builder option" where
  "cbl_new types capacity = do {
     rust_assert (capacity \<noteq> 0);
     bs \<leftarrow> those (map ai_with_capacity types);
     Some \<lparr>cbl_builders = bs, cbl_size = 0, cbl_capacity = capacity\<rparr> }"

definition cbl_unbounded :: "data_type list \<Rightarrow> 'd chunk_builder option" where
  "cbl_unbounded types = do {
     bs \<leftarrow> those (map ai_with_capacity types);
     Some \<lparr>cbl_builders = bs, cbl_size = 0, cbl_capacity = 2 ^ 64 - 1\<rparr> }"

text \<open>The columns without a value in the row keep their builder; surplus values are not read.\<close>

fun push_values :: "'d \<Rightarrow> 'd array_impl list \<Rightarrow> 'd row \<Rightarrow> 'd array_impl list option" where
  "push_values z (b # bs) (v # vs) = do { b' \<leftarrow> ai_push z v b; bs' \<leftarrow> push_values z bs vs; Some (b' # bs') }"
| "push_values z bs _ = Some bs"

definition cbl_take :: "'d chunk_builder \<Rightarrow> ('d data_chunk option \<times> 'd chunk_builder) option" where
  "cbl_take b =
     (if cbl_size b = 0 then Some (None, b)
      else do {
        c \<leftarrow> chunk_of_arrays (map (fst \<circ> ai_take) (cbl_builders b));
        Some (Some c, b\<lparr>cbl_size := 0, cbl_builders := map (snd \<circ> ai_take) (cbl_builders b)\<rparr>) })"

definition push_row :: "'d \<Rightarrow> 'd row \<Rightarrow> 'd chunk_builder \<Rightarrow> ('d data_chunk option \<times> 'd chunk_builder) option" where
  "push_row z row b = do {
     bs \<leftarrow> push_values z (cbl_builders b) row;
     let b = b\<lparr>cbl_builders := bs, cbl_size := cbl_size b + 1\<rparr>;
     if cbl_size b = cbl_capacity b then cbl_take b else Some (None, b) }"

fun push_texts :: "'d conv_ops \<Rightarrow> 'd array_impl list \<Rightarrow> byte list list \<Rightarrow> ('d convert_error + 'd array_impl list) option" where
  "push_texts X (b # bs) (s # ss) =
     (case ai_push_str X s b of
        None \<Rightarrow> None
      | Some (Inl e) \<Rightarrow> Some (Inl e)
      | Some (Inr b') \<Rightarrow> map_option (map_sum id ((#) b')) (push_texts X bs ss))"
| "push_texts X bs _ = Some (Inr bs)"

definition push_str_row ::
  "'d conv_ops \<Rightarrow> byte list list \<Rightarrow> 'd chunk_builder \<Rightarrow> ('d convert_error + 'd data_chunk option \<times> 'd chunk_builder) option" where
  "push_str_row X row b = do {
     r \<leftarrow> push_texts X (cbl_builders b) row;
     case r of
       Inl e \<Rightarrow> Some (Inl e)
     | Inr bs \<Rightarrow>
         (let b = b\<lparr>cbl_builders := bs, cbl_size := cbl_size b + 1\<rparr>
          in if cbl_size b = cbl_capacity b then map_option Inr (cbl_take b) else Some (Inr (None, b))) }"

text \<open>Pushing the rows of an iterator and taking the rest, as the executors do.\<close>

fun build_loop :: "'d \<Rightarrow> 'd row list \<Rightarrow> 'd chunk_builder \<Rightarrow> 'd data_chunk list option" where
  "build_loop z [] b = do { (c, b') \<leftarrow> cbl_take b; Some (case c of Some c \<Rightarrow> [c] | None \<Rightarrow> []) }"
| "build_loop z (row # rows) b = do {
     (c, b') \<leftarrow> push_row z row b;
     cs \<leftarrow> build_loop z rows b';
     Some ((case c of Some c \<Rightarrow> [c] | None \<Rightarrow> []) @ cs) }"

definition build_chunks :: "'d \<Rightarrow> data_type list \<Rightarrow> nat \<Rightarrow> 'd row list \<Rightarrow> 'd data_chunk list option" where
  "build_chunks z types capacity rows = do { b \<leftarrow> cbl_new types capacity; build_loop z rows b }"

section \<open>The rows of a chunk\<close>

definition dc_wf :: "'d data_chunk \<Rightarrow> bool" where
  "dc_wf c \<longleftrightarrow> (\<forall>a\<in>set (dc_arrays c). ai_wf a \<and> ai_len a = dc_cardinality c)"

text \<open>The rows of \<open>n\<close> columns of one length.\<close>

definition rows_of :: "nat \<Rightarrow> 'd data_value list list \<Rightarrow> 'd row list" where
  "rows_of n cols = map (\<lambda>i. map (\<lambda>col. col ! i) cols) [0..<n]"

definition chunk_rows :: "'d data_chunk \<Rightarrow> 'd row list" where
  "chunk_rows c = rows_of (dc_cardinality c) (map ai_items (dc_arrays c))"

lemma length_chunk_rows [simp]: "length (chunk_rows c) = dc_cardinality c"
  by (simp add: chunk_rows_def rows_of_def)

lemma row_ref_values_eq: "dc_wf c \<Longrightarrow> i < dc_cardinality c \<Longrightarrow> row_ref_values c i = Some (chunk_rows c ! i)"
proof -
  assume "dc_wf c" and i: "i < dc_cardinality c"
  then have "those (map (\<lambda>a. ai_get a i) (dc_arrays c)) = Some (map (\<lambda>a. ai_items a ! i) (dc_arrays c))"
    by (intro those_map_Some) (simp add: dc_wf_def ai_get_items)
  with i show ?thesis by (simp add: row_ref_values_def rust_assert_def chunk_rows_def rows_of_def comp_def)
qed

lemma dc_rows_eq: "dc_wf c \<Longrightarrow> dc_rows c = Some (chunk_rows c)"
proof -
  assume wf: "dc_wf c"
  have "those (map (row_ref_values c) [0..<dc_cardinality c]) = Some (map ((!) (chunk_rows c)) [0..<dc_cardinality c])"
    by (rule those_map_Some) (simp add: row_ref_values_eq wf)
  then show ?thesis by (simp add: dc_rows_def map_nth_eq)
qed

lemma rows_of_select:
  "length p = n \<Longrightarrow> \<forall>col\<in>set cols. length col = n \<Longrightarrow> rows_of (length (filter id p)) (map (select p) cols) = select p (rows_of n cols)"
proof (induction p arbitrary: n cols)
  case (Cons b p)
  then obtain m where n: "n = Suc m" and m: "length p = m" by (cases n) auto
  have cols: "\<forall>col\<in>set (map tl cols). length col = m" using Cons.prems n by auto
  have split: "rows_of (Suc k) xss = map hd xss # rows_of k (map tl xss)" if "\<forall>xs\<in>set xss. length xs = Suc k" for k and xss :: "'a data_value list list"
  proof -
    have "map (\<lambda>xs. xs ! 0) xss = map hd xss" using that by (intro map_cong) (auto simp: length_Suc_conv)
    then show ?thesis using that by (auto simp: rows_of_def upt_conv_Cons map_Suc_upt [symmetric] nth_tl comp_def simp del: upt_Suc)
  qed
  have sel: "select (b # p) col = (if b then hd col # select p (tl col) else select p (tl col))" if "col \<in> set cols" for col
  proof -
    from that Cons.prems n have "length col = Suc m" by simp
    then obtain x xs where "col = x # xs" by (cases col) auto
    then show ?thesis by simp
  qed
  have "rows_of n cols = map hd cols # rows_of m (map tl cols)" using split Cons.prems n by simp
  moreover have "rows_of (length (filter id (b # p))) (map (select (b # p)) cols)
      = (if b then [map hd cols] else []) @ rows_of (length (filter id p)) (map (select p) (map tl cols))"
  proof (cases b)
    case True
    have "\<forall>xs\<in>set (map (select (b # p)) cols). length xs = Suc (length (filter id p))"
      using Cons.prems n True by (auto simp: length_select)
    from split [OF this] True show ?thesis using sel by (auto simp: comp_def intro!: arg_cong2 [where f = rows_of] map_cong)
  next
    case False
    with sel show ?thesis by (auto simp: comp_def intro!: arg_cong2 [where f = rows_of] map_cong)
  qed
  ultimately show ?case using Cons.IH [OF m cols] by (cases b) (auto simp: id_def comp_def)
qed (simp add: rows_of_def)

lemma dc_filter_spec:
  assumes "dc_wf c" and "length vis = dc_cardinality c"
  shows "\<exists>c'. dc_filter vis c = Some c' \<and> dc_wf c' \<and> chunk_rows c' = select vis (chunk_rows c)
    \<and> map ai_type (dc_arrays c') = map ai_type (dc_arrays c)"
proof -
  let ?n = "length (filter id vis)"
  let ?P = "\<lambda>a a'. ai_filter vis a = Some a' \<and> ai_wf a' \<and> ai_items a' = select vis (ai_items a) \<and> ai_type a' = ai_type a"
  have "\<forall>a\<in>set (dc_arrays c). \<exists>a'. ?P a a'" using assms by (intro ballI ai_filter_spec) (simp_all add: dc_wf_def)
  then obtain g where g: "\<forall>a\<in>set (dc_arrays c). ?P a (g a)" by metis
  let ?as = "map g (dc_arrays c)"
  have len: "ai_len (g a) = ?n" if "a \<in> set (dc_arrays c)" for a
    using that g assms length_ai_items [of "g a"] length_ai_items [of a] length_select [of vis "ai_items a"] by (simp add: dc_wf_def)
  have "dc_filter vis c = Some \<lparr>dc_arrays = ?as, dc_cardinality = ?n\<rparr>"
    using those_map_Some [of "dc_arrays c" "ai_filter vis" g] g len
    by (auto simp: dc_filter_def split: list.split)
  moreover have "rows_of ?n (map ai_items ?as) = select vis (chunk_rows c)"
  proof -
    have "map ai_items ?as = map (select vis) (map ai_items (dc_arrays c))" using g by simp
    then show ?thesis using rows_of_select [of vis "dc_cardinality c" "map ai_items (dc_arrays c)"] assms
      by (simp add: chunk_rows_def dc_wf_def length_ai_items del: map_map)
  qed
  ultimately show ?thesis using g len by (auto simp: dc_wf_def chunk_rows_def)
qed

lemma rows_of_slice:
  "lo \<le> hi \<Longrightarrow> hi \<le> n \<Longrightarrow> \<forall>col\<in>set cols. length col = n \<Longrightarrow>
   rows_of (hi - lo) (map (\<lambda>col. take (hi - lo) (drop lo col)) cols) = take (hi - lo) (drop lo (rows_of n cols))"
  by (rule nth_equalityI) (auto simp: rows_of_def)

lemma dc_slice_spec:
  assumes "dc_wf c" and "lo \<le> hi" and "hi \<le> dc_cardinality c"
  shows "\<exists>c'. dc_slice z lo hi c = Some c' \<and> dc_wf c' \<and> chunk_rows c' = take (hi - lo) (drop lo (chunk_rows c))
    \<and> map ai_type (dc_arrays c') = map ai_type (dc_arrays c)"
proof -
  let ?P = "\<lambda>a a'. ai_slice z lo hi a = Some a' \<and> ai_wf a' \<and> ai_items a' = take (hi - lo) (drop lo (ai_items a)) \<and> ai_type a' = ai_type a"
  have "\<forall>a\<in>set (dc_arrays c). \<exists>a'. ?P a a'" using assms by (intro ballI ai_slice_spec) (simp_all add: dc_wf_def)
  then obtain g where g: "\<forall>a\<in>set (dc_arrays c). ?P a (g a)" by metis
  let ?as = "map g (dc_arrays c)"
  have len: "ai_len (g a) = hi - lo" if "a \<in> set (dc_arrays c)" for a
    using that g assms length_ai_items [of "g a"] length_ai_items [of a] by (simp add: dc_wf_def)
  have "dc_slice z lo hi c = Some \<lparr>dc_arrays = ?as, dc_cardinality = hi - lo\<rparr>"
    using those_map_Some [of "dc_arrays c" "ai_slice z lo hi" g] g assms by (simp add: dc_slice_def rust_assert_def)
  moreover have "rows_of (hi - lo) (map ai_items ?as) = take (hi - lo) (drop lo (chunk_rows c))"
  proof -
    have "map ai_items ?as = map (\<lambda>col. take (hi - lo) (drop lo col)) (map ai_items (dc_arrays c))" using g by simp
    then show ?thesis using rows_of_slice [OF assms(2,3), of "map ai_items (dc_arrays c)"] assms
      by (simp add: chunk_rows_def dc_wf_def length_ai_items del: map_map)
  qed
  ultimately show ?thesis using g len by (auto simp: dc_wf_def chunk_rows_def)
qed

text \<open>Joining two chunks side by side; without columns the cardinality is lost.\<close>

lemma row_concat_spec:
  assumes "dc_wf a" and "dc_wf b" and "dc_cardinality a = dc_cardinality b" and "dc_arrays a @ dc_arrays b \<noteq> []"
  shows "\<exists>c. row_concat a b = Some c \<and> dc_wf c \<and> chunk_rows c = map2 (@) (chunk_rows a) (chunk_rows b)"
proof -
  let ?as = "dc_arrays a @ dc_arrays b"
  have all: "\<forall>x\<in>set ?as. ai_wf x \<and> ai_len x = dc_cardinality a" using assms by (auto simp: dc_wf_def)
  with assms(4) have "(case ?as of [] \<Rightarrow> 0 | x # _ \<Rightarrow> ai_len x) = dc_cardinality a"
    by (cases ?as) auto
  with all assms(3) have "row_concat a b = Some \<lparr>dc_arrays = ?as, dc_cardinality = dc_cardinality a\<rparr>"
    by (simp add: row_concat_def chunk_of_arrays_def rust_assert_def list_all_iff)
  moreover have "rows_of (dc_cardinality a) (map ai_items ?as) = map2 (@) (chunk_rows a) (chunk_rows b)"
    using assms(3) by (intro nth_equalityI) (auto simp: chunk_rows_def rows_of_def)
  ultimately show ?thesis using all by (simp add: dc_wf_def chunk_rows_def)
qed

lemma row_concat_loses_rows: "row_concat (chunk_no_column n) (chunk_no_column n) = Some (chunk_no_column 0)"
  by (simp add: row_concat_def chunk_of_arrays_def rust_assert_def chunk_no_column_def)

section \<open>Building\<close>

text \<open>The variant of the arrays and values of a type; vectors and structs are left out here.\<close>

fun type_variant :: "data_type \<Rightarrow> nat option" where
  "type_variant TNull = Some 0" | "type_variant TBool = Some 1" | "type_variant TInt16 = Some 2"
| "type_variant TInt32 = Some 3" | "type_variant TInt64 = Some 4" | "type_variant TFloat64 = Some 5"
| "type_variant TString = Some 6" | "type_variant TBlob = Some 7" | "type_variant (TDecimal _ _) = Some 8"
| "type_variant TDate = Some 9" | "type_variant TTimestamp = Some 10" | "type_variant TTimestampTz = Some 11"
| "type_variant TInterval = Some 12" | "type_variant (TVector _) = None" | "type_variant (TStruct _) = None"

definition value_fits :: "data_type \<Rightarrow> 'd data_value \<Rightarrow> bool" where
  "value_fits ty v \<longleftrightarrow> type_variant ty \<noteq> None \<and> (v = VNull \<or> type_variant ty = Some (variant_index v))"

definition row_fits :: "data_type list \<Rightarrow> 'd row \<Rightarrow> bool" where
  "row_fits types row \<longleftrightarrow> list_all2 value_fits types row"

text \<open>Builders of the types, each with \<open>n\<close> items.\<close>

definition builders_ok :: "data_type list \<Rightarrow> nat \<Rightarrow> 'd array_impl list \<Rightarrow> bool" where
  "builders_ok types n bs \<longleftrightarrow> list_all2 (\<lambda>ty b. type_variant ty = Some (ai_type b) \<and> ai_wf b \<and> ai_len b = n) types bs"

lemma type_variant_not_13: "type_variant ty = Some n \<Longrightarrow> n \<noteq> 13"
  by (cases ty) auto

lemma accepts_fitting: "type_variant ty = Some (ai_type b) \<Longrightarrow> value_fits ty v \<Longrightarrow> ai_accepts b v"
  using type_variant_not_13 [of ty "ai_type b"] by (cases b) (auto simp: value_fits_def ai_accepts_def)

lemma push_values_spec:
  assumes "builders_ok types n bs" and "row_fits types row"
  shows "\<exists>bs'. push_values z bs row = Some bs' \<and> builders_ok types (Suc n) bs'
    \<and> map ai_items bs' = map2 (\<lambda>b v. ai_items b @ [v]) bs row"
  using assms
proof (induction bs row arbitrary: types rule: push_values.induct)
  case (1 z b bs v vs)
  then obtain ty tys where ty: "types = ty # tys" "type_variant ty = Some (ai_type b)" "ai_wf b" "ai_len b = n" "value_fits ty v"
    "builders_ok tys n bs" "row_fits tys vs"
    by (auto simp: builders_ok_def row_fits_def list_all2_Cons2)
  obtain b' where b': "ai_push z v b = Some b'" "ai_wf b'" "ai_items b' = ai_items b @ [v]" "ai_type b' = ai_type b"
    using ai_push_spec [OF ty(3) accepts_fitting [OF ty(2,5)]] by blast
  moreover have "ai_len b' = Suc n" using length_ai_items [OF b'(2)] length_ai_items [OF ty(3)] b'(3) ty(4) by simp
  ultimately show ?case using "1.IH" [OF b'(1) ty(6,7)] ty(1,2) by (auto simp: builders_ok_def)
qed (auto simp: builders_ok_def row_fits_def)

lemma rows_of_snoc:
  assumes "\<forall>col\<in>set cols. length col = n" and "length row = length cols"
  shows "rows_of (Suc n) (map2 (\<lambda>col v. col @ [v]) cols row) = rows_of n cols @ [row]"
proof -
  have "map (\<lambda>col. col ! i) (map2 (\<lambda>col v. col @ [v]) cols row) = (if i < n then map (\<lambda>col. col ! i) cols else row)" if "i \<le> n" for i
    using assms that by (intro nth_equalityI) (auto simp: nth_append)
  then show ?thesis by (auto simp: rows_of_def)
qed

lemma with_capacity_ok: "type_variant ty \<noteq> None \<Longrightarrow> \<exists>b. ai_with_capacity ty = Some b \<and> type_variant ty = Some (ai_type b) \<and> ai_wf b \<and> ai_len b = 0"
  by (cases ty) (simp_all add: pa_len_push)

lemma take_ok: "ai_wf b \<Longrightarrow> ai_type b \<noteq> 13 \<Longrightarrow> fst (ai_take b) = b \<and> ai_wf (snd (ai_take b)) \<and> ai_len (snd (ai_take b)) = 0 \<and> ai_type (snd (ai_take b)) = ai_type b"
  by (cases b) (simp_all add: pa_len_push)

text \<open>A chunk of the types, with at least one row.\<close>

definition typed_chunk :: "data_type list \<Rightarrow> 'd data_chunk \<Rightarrow> bool" where
  "typed_chunk types c \<longleftrightarrow> builders_ok types (dc_cardinality c) (dc_arrays c)"

lemma builders_ok_D:
  assumes "builders_ok types n bs" and "b \<in> set bs"
  shows "ai_wf b" and "ai_len b = n" and "ai_type b \<noteq> 13"
  using assms type_variant_not_13 by (auto simp: builders_ok_def list_all2_conv_all_nth in_set_conv_nth)

lemma typed_chunk_wf: "typed_chunk types c \<Longrightarrow> dc_wf c"
  using builders_ok_D by (fastforce simp: typed_chunk_def dc_wf_def)

lemma chunk_of_builders:
  assumes "builders_ok types n bs" and "types \<noteq> []"
  shows "chunk_of_arrays bs = Some \<lparr>dc_arrays = bs, dc_cardinality = n\<rparr>"
proof -
  have "(case bs of [] \<Rightarrow> 0 | a # _ \<Rightarrow> ai_len a) = n"
    using assms by (cases bs) (auto simp: builders_ok_def list_all2_Cons2)
  then show ?thesis using builders_ok_D(2) [OF assms(1)] by (simp add: chunk_of_arrays_def rust_assert_def list_all_iff)
qed

lemma cbl_take_spec:
  assumes "builders_ok types (cbl_size b) (cbl_builders b)" and "types \<noteq> []" and "cbl_size b \<noteq> 0"
  shows "\<exists>b'. cbl_take b = Some (Some \<lparr>dc_arrays = cbl_builders b, dc_cardinality = cbl_size b\<rparr>, b')
    \<and> builders_ok types 0 (cbl_builders b') \<and> cbl_size b' = 0 \<and> cbl_capacity b' = cbl_capacity b"
proof -
  have t: "fst (ai_take a) = a \<and> ai_wf (snd (ai_take a)) \<and> ai_len (snd (ai_take a)) = 0 \<and> ai_type (snd (ai_take a)) = ai_type a"
    if "a \<in> set (cbl_builders b)" for a using take_ok builders_ok_D [OF assms(1) that] by blast
  then have "map (fst \<circ> ai_take) (cbl_builders b) = cbl_builders b" by (simp add: map_idI)
  moreover have "builders_ok types 0 (map (snd \<circ> ai_take) (cbl_builders b))"
    using assms(1) t by (auto simp: builders_ok_def list_all2_conv_all_nth)
  ultimately show ?thesis using chunk_of_builders [OF assms(1,2)] assms(3) by (simp add: cbl_take_def)
qed

lemma rows_of_0 [simp]: "rows_of 0 cols = []"
  by (simp add: rows_of_def)

lemma build_loop_spec:
  assumes "builders_ok types (cbl_size b) (cbl_builders b)" and "types \<noteq> []" and "cbl_size b < cbl_capacity b"
    and "\<forall>row\<in>set rows. row_fits types row"
  shows "\<exists>cs. build_loop z rows b = Some cs
    \<and> concat (map chunk_rows cs) = rows_of (cbl_size b) (map ai_items (cbl_builders b)) @ rows
    \<and> (\<forall>c\<in>set cs. typed_chunk types c \<and> 0 < dc_cardinality c \<and> dc_cardinality c \<le> cbl_capacity b)
    \<and> (\<forall>c\<in>set (butlast cs). dc_cardinality c = cbl_capacity b)"
  using assms
proof (induction rows arbitrary: b)
  case Nil
  show ?case
  proof (cases "cbl_size b = 0")
    case False
    with cbl_take_spec [OF Nil.prems(1,2)] obtain b' where
      "cbl_take b = Some (Some \<lparr>dc_arrays = cbl_builders b, dc_cardinality = cbl_size b\<rparr>, b')" by blast
    with Nil.prems False show ?thesis by (simp add: typed_chunk_def chunk_rows_def)
  qed (simp add: cbl_take_def)
next
  case (Cons row rows)
  let ?n = "cbl_size b"
  have fit: "row_fits types row" and fits: "\<forall>row\<in>set rows. row_fits types row" using Cons.prems(4) by simp_all
  obtain bs where bs: "push_values z (cbl_builders b) row = Some bs" "builders_ok types (Suc ?n) bs"
    "map ai_items bs = map2 (\<lambda>b v. ai_items b @ [v]) (cbl_builders b) row"
    using push_values_spec [OF Cons.prems(1) fit] by blast
  have "map ai_items bs = map2 (\<lambda>col v. col @ [v]) (map ai_items (cbl_builders b)) row"
    by (simp add: bs(3) zip_map1 comp_def case_prod_beta)
  moreover have "\<forall>col\<in>set (map ai_items (cbl_builders b)). length col = ?n"
    using builders_ok_D [OF Cons.prems(1)] by (auto simp: length_ai_items)
  moreover have "length row = length (cbl_builders b)"
    using list_all2_lengthD [OF fit [unfolded row_fits_def]] list_all2_lengthD [OF Cons.prems(1) [unfolded builders_ok_def]] by simp
  ultimately have rows: "rows_of (Suc ?n) (map ai_items bs) = rows_of ?n (map ai_items (cbl_builders b)) @ [row]"
    using rows_of_snoc [of "map ai_items (cbl_builders b)" ?n row] by (simp del: map_map)
  let ?b = "b\<lparr>cbl_builders := bs, cbl_size := Suc ?n\<rparr>"
  show ?case
  proof (cases "Suc ?n = cbl_capacity b")
    case True
    have ok: "builders_ok types (cbl_size ?b) (cbl_builders ?b)" using bs(2) by simp
    obtain b' where b': "cbl_take ?b = Some (Some \<lparr>dc_arrays = bs, dc_cardinality = Suc ?n\<rparr>, b')"
      "builders_ok types 0 (cbl_builders b')" "cbl_size b' = 0" "cbl_capacity b' = cbl_capacity b"
      using cbl_take_spec [OF ok Cons.prems(2)] by auto
    then have push: "push_row z row b = Some (Some \<lparr>dc_arrays = bs, dc_cardinality = Suc ?n\<rparr>, b')"
      using bs(1) True by (simp add: push_row_def)
    have ok': "builders_ok types (cbl_size b') (cbl_builders b')" and less: "cbl_size b' < cbl_capacity b'"
      using b'(2-4) Cons.prems(3) by simp_all
    obtain cs where
      "build_loop z rows b' = Some cs" "concat (map chunk_rows cs) = rows"
      "\<forall>c\<in>set cs. typed_chunk types c \<and> 0 < dc_cardinality c \<and> dc_cardinality c \<le> cbl_capacity b"
      "\<forall>c\<in>set (butlast cs). dc_cardinality c = cbl_capacity b"
      using Cons.IH [OF ok' Cons.prems(2) less fits] unfolding b'(3,4) rows_of_0 append_Nil by blast
    moreover have "chunk_rows \<lparr>dc_arrays = bs, dc_cardinality = Suc ?n\<rparr> = rows_of ?n (map ai_items (cbl_builders b)) @ [row]"
      using rows by (simp add: chunk_rows_def)
    ultimately show ?thesis using push bs(2) True by (auto simp: typed_chunk_def)
  next
    case False
    then have push: "push_row z row b = Some (None, ?b)" using bs(1) by (simp add: push_row_def)
    from Cons.IH [of ?b] bs(2) Cons.prems(2,3) False fits rows push show ?thesis by auto
  qed
qed

theorem build_chunks_rows:
  fixes rows :: "'a row list"
  assumes "types \<noteq> []" and "\<forall>ty\<in>set types. type_variant ty \<noteq> None" and "0 < capacity" and "\<forall>row\<in>set rows. row_fits types row"
  shows "\<exists>cs. build_chunks z types capacity rows = Some cs \<and> concat (map chunk_rows cs) = rows
    \<and> (\<forall>c\<in>set cs. typed_chunk types c \<and> 0 < dc_cardinality c \<and> dc_cardinality c \<le> capacity)
    \<and> (\<forall>c\<in>set (butlast cs). dc_cardinality c = capacity)"
proof -
  let ?P = "\<lambda>ty b. ai_with_capacity ty = Some b \<and> type_variant ty = Some (ai_type b) \<and> ai_wf b \<and> ai_len b = 0"
  have "\<forall>ty\<in>set types. \<exists>b :: 'a array_impl. ?P ty b" using assms(2) with_capacity_ok by blast
  then obtain g where g: "\<forall>ty\<in>set types. ?P ty (g ty :: 'a array_impl)" by metis
  let ?b = "\<lparr>cbl_builders = map g types, cbl_size = 0, cbl_capacity = capacity\<rparr>"
  have new: "cbl_new types capacity = Some ?b"
    using assms(3) g those_map_Some [of types ai_with_capacity g] by (simp add: cbl_new_def rust_assert_def)
  have "builders_ok types (cbl_size ?b) (cbl_builders ?b)" using g by (simp add: builders_ok_def list_all2_conv_all_nth)
  with build_loop_spec [of types ?b rows z] assms new show ?thesis
    by (simp add: build_chunks_def)
qed

text \<open>A builder without columns counts rows but its chunks have none.\<close>

lemma empty_builder_loses_rows:
  "build_chunks z [] 4 [[], [], []] = Some [chunk_no_column 0]"
  by (simp add: build_chunks_def cbl_new_def rust_assert_def push_row_def cbl_take_def chunk_of_arrays_def chunk_no_column_def)

end
