(* ===== verification/Evaluator.thy ===== *)
theory Evaluator
  imports Chunks
begin

text \<open>
  Expressions and their evaluation on chunks (\<open>planner/mod.rs\<close>, \<open>executor/evaluator.rs\<close>). An expression is
  the tree that a recursive expression of the \<open>egg\<close> package stands for. The fifteen binary and two unary
  variants are one constructor each, holding the operator that \<open>binary_op\<close> and \<open>unary_op\<close> return; the
  aggregations of one argument are one constructor with their kind. A column is named by schema, table, occurrence and number. Evaluation returns an array,
  a conversion error or panics. Aggregation states are folded over chunks or single values.
\<close>

section \<open>Expressions\<close>

datatype agg_fn = AggMax | AggMin | AggSum | AggAvg | AggCount | AggCountDistinct | AggFirst | AggLast

datatype 'd expr =
    EConstant "'d data_value"
  | EType data_type
  | EColumn "nat \<times> nat \<times> nat \<times> nat"
  | EColumnIndex nat
  | ERef "'d expr"
  | EList "'d expr list"
  | EBinary binary_operator "'d expr" "'d expr"
  | EUnary unary_operator "'d expr"
  | ELike "'d expr" "'d expr"
  | EIsNull "'d expr"
  | EIf "'d expr" "'d expr" "'d expr"
  | EField date_field
  | EExtract "'d expr" "'d expr"
  | EReplace "'d expr" "'d expr" "'d expr"
  | ESubstring "'d expr" "'d expr" "'d expr"
  | EVectorL2Distance "'d expr" "'d expr"
  | EVectorNegativeInnerProduct "'d expr" "'d expr"
  | EVectorCosineDistance "'d expr" "'d expr"
  | EAgg agg_fn "'d expr"
  | ERowCount
  | EOver "'d expr" "'d expr" "'d expr"
  | ERowNumber
  | EIn "'d expr" "'d expr"
  | ECast "'d expr" "'d expr"
  | EDesc "'d expr"

text \<open>The panics of the accessors are \<open>None\<close>.\<close>

fun as_list :: "'d expr \<Rightarrow> 'd expr list option" where
  "as_list (EList es) = Some es" | "as_list _ = None"

fun as_const :: "'d expr \<Rightarrow> 'd data_value option" where
  "as_const (EConstant v) = Some v" | "as_const _ = None"

fun as_type :: "'d expr \<Rightarrow> data_type option" where
  "as_type (EType ty) = Some ty" | "as_type _ = None"

fun as_field :: "'d expr \<Rightarrow> date_field option" where
  "as_field (EField f) = Some f" | "as_field _ = None"

fun is_aggregate_function :: "'d expr \<Rightarrow> bool" where
  "is_aggregate_function (EAgg _ _) = True" | "is_aggregate_function ERowCount = True" | "is_aggregate_function _ = False"

fun is_window_function :: "'d expr \<Rightarrow> bool" where
  "is_window_function ERowNumber = True" | "is_window_function e = is_aggregate_function e"

section \<open>Evaluation\<close>

text \<open>The question mark operator: an error ends the computation, a panic too.\<close>

definition and_then :: "('e + 'a) option \<Rightarrow> ('a \<Rightarrow> ('e + 'b) option) \<Rightarrow> ('e + 'b) option" where
  "and_then r f = (case r of None \<Rightarrow> None | Some (Inl e) \<Rightarrow> Some (Inl e) | Some (Inr x) \<Rightarrow> f x)"

lemma and_then_simps [simp]:
  "and_then None f = None" "and_then (Some (Inl e)) f = Some (Inl e)" "and_then (Some (Inr x)) f = f x"
  by (simp_all add: and_then_def)

lemma and_then_eq_Inr: "and_then r f = Some (Inr y) \<longleftrightarrow> (\<exists>x. r = Some (Inr x) \<and> f x = Some (Inr y))"
  by (auto simp: and_then_def split: option.split sum.split)

lemma and_then_cong [fundef_cong]:
  "r = r' \<Longrightarrow> (\<And>x. r' = Some (Inr x) \<Longrightarrow> f x = g x) \<Longrightarrow> and_then r f = and_then r' g"
  by (auto simp: and_then_def split: option.split sum.split)

definition ok :: "'a option \<Rightarrow> ('e + 'a) option" where
  "ok r = map_option Inr r"

lemma ok_simps [simp]: "ok None = None" "ok (Some x) = Some (Inr x)"
  by (simp_all add: ok_def)

definition eval_constant :: "'d conv_ops \<Rightarrow> 'd data_value \<Rightarrow> nat \<Rightarrow> 'd array_result" where
  "eval_constant X v n = ok (do {
     b \<leftarrow> ai_with_capacity (type_of_value v);
     b \<leftarrow> ai_push_n (co_zero X) n v b;
     Some (ai_finish b) })"

text \<open>The membership test: the results of comparing with each value, combined by \<open>or\<close>; its error is unwrapped.\<close>

fun or_equals :: "'d::linorder conv_ops \<Rightarrow> 'd array_impl \<Rightarrow> 'd array_impl list \<Rightarrow> 'd array_impl \<Rightarrow> 'd array_result" where
  "or_equals X a [] acc = Some (Inr acc)"
| "or_equals X a (v # vs) acc =
     and_then (array_cmp X CmpEq a v) (\<lambda>eq.
       case array_or acc eq of Some (Inr acc') \<Rightarrow> or_equals X a vs acc' | _ \<Rightarrow> None)"

definition eval_in :: "'d::linorder conv_ops \<Rightarrow> 'd array_impl \<Rightarrow> 'd array_impl list \<Rightarrow> 'd array_result" where
  "eval_in X a values =
     (case values of
        [] \<Rightarrow> None
      | v # vs \<Rightarrow> and_then (array_cmp X CmpEq a v) (or_equals X a vs))"

fun eval :: "'d::linorder conv_ops \<Rightarrow> 'd expr \<Rightarrow> 'd data_chunk \<Rightarrow> 'd array_result"
and eval_each :: "'d::linorder conv_ops \<Rightarrow> 'd expr list \<Rightarrow> 'd data_chunk \<Rightarrow> ('d convert_error + 'd array_impl list) option"
and eval_values :: "'d::linorder conv_ops \<Rightarrow> 'd expr \<Rightarrow> 'd data_chunk \<Rightarrow> ('d convert_error + 'd array_impl list) option"
where
  "eval X (EColumnIndex i) c = ok (index_at (dc_arrays c) i)"
| "eval X (EConstant v) c = eval_constant X v (dc_cardinality c)"
| "eval X (ECast ty a) c = and_then (eval X a c) (\<lambda>a. case as_type ty of Some t \<Rightarrow> array_cast X t a | None \<Rightarrow> None)"
| "eval X (EIsNull a) c = and_then (eval X a c) (\<lambda>a. Some (Inr (ABool (pa_collect (map Not (ai_valid a))))))"
| "eval X (ELike a b) c =
     (case as_const b of
        Some (VString pattern) \<Rightarrow> and_then (eval X a c) (array_like X pattern)
      | _ \<Rightarrow> None)"
| "eval X (EExtract f a) c =
     and_then (eval X a c) (\<lambda>a. case as_field f of Some f \<Rightarrow> array_extract X f a | None \<Rightarrow> None)"
| "eval X (ESubstring s st l) c =
     and_then (eval X s c) (\<lambda>s. and_then (eval X st c) (\<lambda>st. and_then (eval X l c) (\<lambda>l. array_substring s st l)))"
| "eval X (EIf p t e) c =
     and_then (eval X p c) (\<lambda>p. and_then (eval X t c) (\<lambda>t. and_then (eval X e c) (\<lambda>e. array_select p t e)))"
| "eval X (EIn a l) c = and_then (eval X a c) (\<lambda>a. and_then (eval_values X l c) (eval_in X a))"
| "eval X (EDesc a) c = eval X a c"
| "eval X (ERef a) c = eval X a c"
| "eval X ERowCount c = Some (Inr (ANull (pa_collect (replicate (dc_cardinality c) ()))))"
| "eval X (EAgg f a) c = (if f = AggAvg then None else eval X a c)"
| "eval X (EReplace a from to) c =
     and_then (eval X a c) (\<lambda>a.
       case (as_const from, as_const to) of
         (Some (VString f), Some (VString t)) \<Rightarrow> array_replace f t a
       | _ \<Rightarrow> None)"
| "eval X (EVectorL2Distance a b) c = and_then (eval X a c) (\<lambda>a. and_then (eval X b c) (vector_l2_distance X a))"
| "eval X (EVectorCosineDistance a b) c = and_then (eval X a c) (\<lambda>a. and_then (eval X b c) (vector_cosine_distance X a))"
| "eval X (EVectorNegativeInnerProduct a b) c = and_then (eval X a c) (\<lambda>a. and_then (eval X b c) (vector_neg_inner_product X a))"
| "eval X (EBinary bop a b) c = and_then (eval X a c) (\<lambda>a. and_then (eval X b c) (array_binary_op X bop a))"
| "eval X (EUnary uop a) c = and_then (eval X a c) (array_unary_op X uop)"
| "eval X (EType _) c = None"
| "eval X (EColumn _) c = None"
| "eval X (EList _) c = None"
| "eval X (EField _) c = None"
| "eval X (EOver _ _ _) c = None"
| "eval X ERowNumber c = None"
| "eval_each X [] c = Some (Inr [])"
| "eval_each X (e # es) c = and_then (eval X e c) (\<lambda>a. and_then (eval_each X es c) (\<lambda>as. Some (Inr (a # as))))"
| "eval_values X (EList es) c =
     (if es = [] then Some (Inr []) else and_then (eval_each X es c) (\<lambda>as. ok (map_option dc_arrays (chunk_of_arrays as))))"
| "eval_values X _ c = None"

definition eval_list :: "'d::linorder conv_ops \<Rightarrow> 'd expr \<Rightarrow> 'd data_chunk \<Rightarrow> ('d convert_error + 'd data_chunk) option" where
  "eval_list X e c =
     (case as_list e of
        None \<Rightarrow> None
      | Some [] \<Rightarrow> Some (Inr (chunk_no_column (dc_cardinality c)))
      | Some es \<Rightarrow> and_then (eval_each X es c) (\<lambda>as. ok (chunk_of_arrays as)))"

definition orders :: "'d expr \<Rightarrow> bool list option" where
  "orders e = map_option (map (\<lambda>e. case e of EDesc _ \<Rightarrow> True | _ \<Rightarrow> False)) (as_list e)"

section \<open>Aggregation\<close>

datatype 'd agg_state = AggValue "'d data_value" | AggDistinct "'d data_value list"

definition value_eq :: "'d::linorder data_value \<Rightarrow> 'd data_value \<Rightarrow> bool" where
  "value_eq u v \<longleftrightarrow> value_cmp u v = Equal"

text \<open>A hash set of values is the list of its members in order of insertion.\<close>

definition set_insert :: "'d::linorder data_value \<Rightarrow> 'd data_value list \<Rightarrow> 'd data_value list" where
  "set_insert v vs = (if list_ex (value_eq v) vs then vs else vs @ [v])"

definition as_i32 :: "nat \<Rightarrow> int" where
  "as_i32 n = (int n + 2 ^ 31) mod 2 ^ 32 - 2 ^ 31"

definition agg_add :: "'d conv_ops \<Rightarrow> 'd data_value \<Rightarrow> 'd data_value \<Rightarrow> 'd data_value option" where
  "agg_add X self other = (if is_null self then Some other else value_arith (co_ext X) OpAdd self other)"

definition agg_or :: "'d data_value \<Rightarrow> 'd data_value \<Rightarrow> 'd data_value" where
  "agg_or self other = (if is_null self then other else self)"

fun init_agg_state :: "'d expr \<Rightarrow> 'd agg_state option" where
  "init_agg_state (EOver w _ _) = init_agg_state w"
| "init_agg_state (EAgg AggCountDistinct _) = Some (AggDistinct [])"
| "init_agg_state ERowCount = Some (AggValue (VInt32 0))"
| "init_agg_state ERowNumber = Some (AggValue (VInt32 0))"
| "init_agg_state (EAgg AggCount _) = Some (AggValue (VInt32 0))"
| "init_agg_state (EAgg f _) = (if f = AggAvg then None else Some (AggValue VNull))"
| "init_agg_state _ = None"

definition init_agg_states :: "'d expr \<Rightarrow> 'd agg_state list option" where
  "init_agg_states e = do { es \<leftarrow> as_list e; those (map init_agg_state es) }"

definition eval_agg :: "'d::linorder conv_ops \<Rightarrow> 'd expr \<Rightarrow> 'd agg_state \<Rightarrow> 'd data_chunk \<Rightarrow> ('d convert_error + 'd agg_state) option" where
  "eval_agg X e state c =
     (case state of
        AggValue s \<Rightarrow>
          (case e of
             ERowCount \<Rightarrow> ok (map_option AggValue (agg_add X s (VInt32 (as_i32 (dc_cardinality c)))))
           | EAgg f a \<Rightarrow>
               (if f = AggAvg \<or> f = AggCountDistinct then None
                else and_then (eval X a c) (\<lambda>a. ok (map_option AggValue (case f of
                  AggCount \<Rightarrow> agg_add X s (VInt32 (as_i32 (array_count a)))
                | AggSum \<Rightarrow> do { x \<leftarrow> array_sum X a; agg_add X s x }
                | AggMin \<Rightarrow> value_min s (array_min a)
                | AggMax \<Rightarrow> value_max s (array_max a)
                | AggFirst \<Rightarrow> Some (agg_or s (array_first a))
                | AggLast \<Rightarrow> Some (agg_or (array_last a) s)
                | _ \<Rightarrow> None))))
           | _ \<Rightarrow> None)
      | AggDistinct vs \<Rightarrow>
          (case e of
             EAgg AggCountDistinct a \<Rightarrow> and_then (eval X a c) (\<lambda>a. Some (Inr (AggDistinct (fold set_insert (ai_items a) vs))))
           | _ \<Rightarrow> None))"

fun eval_agg_each :: "'d::linorder conv_ops \<Rightarrow> 'd agg_state list \<Rightarrow> 'd expr list \<Rightarrow> 'd data_chunk \<Rightarrow> ('d convert_error + 'd agg_state list) option" where
  "eval_agg_each X (s # ss) (e # es) c =
     and_then (eval_agg X e s c) (\<lambda>s'. and_then (eval_agg_each X ss es c) (\<lambda>ss'. Some (Inr (s' # ss'))))"
| "eval_agg_each X ss _ c = Some (Inr ss)"

definition eval_agg_list :: "'d::linorder conv_ops \<Rightarrow> 'd expr \<Rightarrow> 'd agg_state list \<Rightarrow> 'd data_chunk \<Rightarrow> ('d convert_error + 'd agg_state list) option" where
  "eval_agg_list X e ss c = (case as_list e of None \<Rightarrow> None | Some es \<Rightarrow> eval_agg_each X ss es c)"

fun agg_append :: "'d::linorder conv_ops \<Rightarrow> 'd expr \<Rightarrow> 'd agg_state \<Rightarrow> 'd data_value \<Rightarrow> 'd agg_state option" where
  "agg_append X (EOver w p k) s v = agg_append X w s v"
| "agg_append X e (AggDistinct vs) v = Some (AggDistinct (set_insert v vs))"
| "agg_append X e (AggValue s) v = map_option AggValue
     (case e of
        ERowCount \<Rightarrow> agg_add X s (VInt32 1)
      | ERowNumber \<Rightarrow> agg_add X s (VInt32 1)
      | EAgg AggCount _ \<Rightarrow> agg_add X s (VInt32 (of_bool (\<not> is_null v)))
      | EAgg AggSum _ \<Rightarrow> agg_add X s v
      | EAgg AggMin _ \<Rightarrow> value_min s v
      | EAgg AggMax _ \<Rightarrow> value_max s v
      | EAgg AggFirst _ \<Rightarrow> Some (agg_or s v)
      | EAgg AggLast _ \<Rightarrow> Some v
      | _ \<Rightarrow> None)"

fun agg_append_each :: "'d::linorder conv_ops \<Rightarrow> 'd agg_state list \<Rightarrow> 'd expr list \<Rightarrow> 'd row \<Rightarrow> 'd agg_state list option" where
  "agg_append_each X (s # ss) (e # es) (v # vs) =
     do { s' \<leftarrow> agg_append X e s v; ss' \<leftarrow> agg_append_each X ss es vs; Some (s' # ss') }"
| "agg_append_each X ss _ _ = Some ss"

definition agg_list_append :: "'d::linorder conv_ops \<Rightarrow> 'd expr \<Rightarrow> 'd agg_state list \<Rightarrow> 'd row \<Rightarrow> 'd agg_state list option" where
  "agg_list_append X e ss vs = do { es \<leftarrow> as_list e; agg_append_each X ss es vs }"

fun agg_result :: "'d agg_state \<Rightarrow> 'd data_value" where
  "agg_result (AggValue v) = v"
| "agg_result (AggDistinct vs) = VInt32 (as_i32 (length vs))"

end
