(* ===== verification/Eval_Laws.thy ===== *)
theory Eval_Laws
  imports Evaluator Array_Laws
begin

text \<open>
  Evaluating an expression on a chunk is evaluating it on every row. The statement covers columns,
  constants, addition, subtraction, multiplication and remainder, comparisons, three-valued logic and the
  null test, for well-typed expressions: no error, the type of the rule, the row-by-row values; a panic
  only where the expression has arithmetic.
\<close>

section \<open>The reference on rows\<close>

fun of_kleene :: "bool option \<Rightarrow> 'd data_value" where
  "of_kleene None = VNull" | "of_kleene (Some b) = VBool b"

definition row_binary :: "'d::linorder conv_ops \<Rightarrow> binary_operator \<Rightarrow> 'd data_value \<Rightarrow> 'd data_value \<Rightarrow> 'd data_value option" where
  "row_binary X bop u v =
     (case bop of
        BArith f \<Rightarrow> row_arith X f u v
      | BCmp f \<Rightarrow> row_cmp X f u v
      | BAnd \<Rightarrow> Some (of_kleene (k_and (as_bool u) (as_bool v)))
      | BOr \<Rightarrow> Some (of_kleene (k_or (as_bool u) (as_bool v)))
      | _ \<Rightarrow> None)"

fun row_eval :: "'d::linorder conv_ops \<Rightarrow> 'd expr \<Rightarrow> 'd row \<Rightarrow> 'd data_value option" where
  "row_eval X (EColumnIndex i) row = index_at row i"
| "row_eval X (EConstant v) row = Some v"
| "row_eval X (EIsNull a) row = do { u \<leftarrow> row_eval X a row; Some (VBool (is_null u)) }"
| "row_eval X (EDesc a) row = row_eval X a row"
| "row_eval X (ERef a) row = row_eval X a row"
| "row_eval X (EAgg _ a) row = row_eval X a row"
| "row_eval X (EBinary bop a b) row = do { u \<leftarrow> row_eval X a row; v \<leftarrow> row_eval X b row; row_binary X bop u v }"
| "row_eval X (EUnary uop a) row = do { u \<leftarrow> row_eval X a row; Some (of_kleene (k_not (as_bool u))) }"
| "row_eval X _ row = None"

lemma row_eval_wrappers [simp]:
  "row_eval X (EDesc a) = row_eval X a" "row_eval X (ERef a) = row_eval X a" "row_eval X (EAgg f a) = row_eval X a"
  by (rule ext, simp)+

section \<open>Typing\<close>

text \<open>The variant of the array an expression evaluates to, given those of the columns.\<close>

definition wider :: "nat \<Rightarrow> nat \<Rightarrow> nat" where
  "wider s t = (if s = 8 \<or> t = 8 then 8 else max s t)"

definition arith_variant :: "nat \<Rightarrow> nat \<Rightarrow> nat option" where
  "arith_variant s t =
     (if s \<in> {2, 3, 4, 5, 8} \<and> t \<in> {2, 3, 4, 5, 8} then Some (wider s t)
      else if s = 9 \<and> t = 12 then Some 9 else None)"

definition cmp_variants :: "nat \<Rightarrow> nat \<Rightarrow> bool" where
  "cmp_variants s t \<longleftrightarrow> s \<in> {2, 3, 4, 5, 8} \<and> t \<in> {2, 3, 4, 5, 8} \<and> \<not> (s = 5 \<and> t = 8) \<and> \<not> (s = 8 \<and> t = 5)
     \<or> s = t \<and> s \<in> {1, 6, 9}"

definition binary_variant :: "binary_operator \<Rightarrow> nat \<Rightarrow> nat \<Rightarrow> nat option" where
  "binary_variant bop s t =
     (case bop of
        BArith f \<Rightarrow> if f = OpDiv then None else arith_variant s t
      | BCmp _ \<Rightarrow> if cmp_variants s t then Some 1 else None
      | BAnd \<Rightarrow> if s = 1 \<and> t = 1 then Some 1 else None
      | BOr \<Rightarrow> if s = 1 \<and> t = 1 then Some 1 else None
      | _ \<Rightarrow> None)"

fun expr_variant :: "nat list \<Rightarrow> 'd expr \<Rightarrow> nat option" where
  "expr_variant ts (EColumnIndex i) = index_at ts i"
| "expr_variant ts (EConstant v) = (if variant_index v = 13 then None else Some (variant_index v))"
| "expr_variant ts (EIsNull a) = (case expr_variant ts a of Some s \<Rightarrow> if s = 0 \<or> s = 13 then None else Some 1 | None \<Rightarrow> None)"
| "expr_variant ts (EDesc a) = expr_variant ts a"
| "expr_variant ts (ERef a) = expr_variant ts a"
| "expr_variant ts (EAgg f a) = (if f = AggAvg then None else expr_variant ts a)"
| "expr_variant ts (EBinary bop a b) = do { s \<leftarrow> expr_variant ts a; t \<leftarrow> expr_variant ts b; binary_variant bop s t }"
| "expr_variant ts (EUnary uop a) = (if uop = UNot \<and> expr_variant ts a = Some 1 then Some 1 else None)"
| "expr_variant ts _ = None"

fun has_arith :: "'d expr \<Rightarrow> bool" where
  "has_arith (EBinary bop a b) = ((\<exists>f. bop = BArith f) \<or> has_arith a \<or> has_arith b)"
| "has_arith (EIsNull a) = has_arith a"
| "has_arith (EDesc a) = has_arith a"
| "has_arith (ERef a) = has_arith a"
| "has_arith (EAgg _ a) = has_arith a"
| "has_arith (EUnary _ a) = has_arith a"
| "has_arith _ = False"

text \<open>Arrays as the kernels need them: well-formed, with false in the null slots of boolean arrays.\<close>

fun ai_clean :: "'d array_impl \<Rightarrow> bool" where
  "ai_clean (ABool a) = clean a" | "ai_clean _ = True"

definition good_array :: "nat \<Rightarrow> 'd array_impl \<Rightarrow> bool" where
  "good_array n a \<longleftrightarrow> ai_wf a \<and> ai_clean a \<and> ai_len a = n"

definition good_chunk :: "'d data_chunk \<Rightarrow> bool" where
  "good_chunk c \<longleftrightarrow> list_all (good_array (dc_cardinality c)) (dc_arrays c)"

definition evaluates :: "nat \<Rightarrow> nat \<Rightarrow> 'd data_value option list \<Rightarrow> bool \<Rightarrow> 'd array_result \<Rightarrow> bool" where
  "evaluates n t vs may_panic r \<longleftrightarrow>
     (case r of
        None \<Rightarrow> may_panic
      | Some (Inl e) \<Rightarrow> False
      | Some (Inr a) \<Rightarrow> good_array n a \<and> ai_type a = t \<and> map Some (ai_items a) = vs)"

section \<open>Each operation\<close>

lemma array_arith_type: "array_arith X f a b = Some (Inr c) \<Longrightarrow> arith_variant (ai_type a) (ai_type b) = Some (ai_type c)"
  by (cases a; cases b) (auto simp: array_arith_def Let_def lift_ok_def no_binary_def arith_variant_def wider_def)

lemma arith_types_iff: "arith_types a b \<longleftrightarrow> arith_variant (ai_type a) (ai_type b) \<noteq> None"
  by (auto simp: arith_types_def arith_variant_def)

lemma good_items: "good_array n a \<Longrightarrow> length (ai_items a) = n"
  by (simp add: good_array_def length_ai_items)

lemma good_of_items:
  "ai_wf c \<Longrightarrow> map Some (ai_items c) = map2 f xs ys \<Longrightarrow> length xs = n \<Longrightarrow> length ys = n \<Longrightarrow> ai_clean c \<Longrightarrow> good_array n c"
  using length_ai_items [of c] length_map [of Some "ai_items c"] by (simp add: good_array_def)

lemma clean_other: "ai_type c \<noteq> 1 \<Longrightarrow> ai_clean c"
  by (cases c) simp_all

lemma arith_evaluates:
  assumes "good_array n a" and "good_array n b" and t: "arith_variant (ai_type a) (ai_type b) = Some t"
  shows "evaluates n t (map2 (row_arith X f) (ai_items a) (ai_items b)) True (array_arith X f a b)"
proof -
  have "rowwise (row_arith X f) a b (array_arith X f a b)"
    using array_arith_rows [of a b X f] assms by (simp add: arith_types_iff good_array_def)
  then consider "array_arith X f a b = None"
    | c where "array_arith X f a b = Some (Inr c)" "ai_wf c" "map Some (ai_items c) = map2 (row_arith X f) (ai_items a) (ai_items b)"
    by (auto simp: rowwise_def split: if_splits)
  then show ?thesis
  proof cases
    case 2
    then have ty: "ai_type c = t" using array_arith_type [of X f a b c] t by simp
    moreover have "t \<noteq> 1" using t by (auto simp: arith_variant_def wider_def split: if_splits)
    ultimately have "good_array n c" using good_of_items [OF 2(2,3)] good_items assms clean_other [of c] by blast
    with 2 ty show ?thesis by (simp add: evaluates_def)
  qed (simp add: evaluates_def)
qed

lemma raw_variant: "v \<in> set (ai_raw a) \<Longrightarrow> variant_index v = ai_type a"
  by (cases a) auto

lemma length_ai_raw: "ai_wf a \<Longrightarrow> length (ai_raw a) = ai_len a"
  by (cases a) (simp_all add: pa_wf_def pa_len_def ch_wf_elems(3))

lemma row_cmp_total: "cmp_variants (variant_index u) (variant_index v) \<Longrightarrow> row_cmp X f u v \<noteq> None"
  by (cases u; cases v; simp add: cmp_variants_def row_cmp_def widened_def is_null_def widen_def)

lemma cmp_evaluates:
  assumes "good_array n a" and "good_array n b" and t: "cmp_variants (ai_type a) (ai_type b)"
  shows "evaluates n 1 (map2 (row_cmp X f) (ai_items a) (ai_items b)) False (array_cmp X f a b)"
proof -
  have wf: "ai_wf a" "ai_wf b" and ty: "cmp_types a b" using assms by (auto simp: good_array_def cmp_types_def cmp_variants_def)
  have "raw_ok (row_cmp X f) a b"
    unfolding raw_ok_def
  proof (intro conjI list_all2_all_nthI)
    fix i assume "i < length (ai_raw a)"
    then have "ai_raw a ! i \<in> set (ai_raw a)" "ai_raw b ! i \<in> set (ai_raw b)" using assms wf by (simp_all add: good_array_def length_ai_raw)
    then show "row_cmp X f (ai_raw a ! i) (ai_raw b ! i) \<noteq> None" using t by (intro row_cmp_total) (simp add: raw_variant)
  qed (use assms wf in \<open>simp_all add: good_array_def length_ai_raw\<close>)
  with array_cmp_rows [OF wf, of X f] ty obtain c where c: "array_cmp X f a b = Some (Inr c)" "ai_wf c"
    "map Some (ai_items c) = map2 (row_cmp X f) (ai_items a) (ai_items b)" and "\<exists>d. c = ABool d \<and> clean d"
    by (auto simp: rowwise_def)
  then show ?thesis using good_of_items [OF c(2,3) good_items [OF assms(1)] good_items [OF assms(2)]] by (auto simp: evaluates_def)
qed

lemma bool_array: "good_array n a \<Longrightarrow> ai_type a = 1 \<Longrightarrow> \<exists>x. a = ABool x \<and> pa_wf x \<and> clean x \<and> pa_len x = n"
  by (cases a) (auto simp: good_array_def)

lemma as_bool_or_null [simp]: "as_bool (or_null VBool x) = x" "of_kleene x = or_null VBool x"
  by (cases x; simp)+

lemma logic_evaluates:
  assumes "good_array n a" and "good_array n b" and "ai_type a = 1" "ai_type b = 1"
  shows "evaluates n 1 (map2 (\<lambda>u v. Some (of_kleene (k_and (as_bool u) (as_bool v)))) (ai_items a) (ai_items b)) False (array_and a b)"
    and "evaluates n 1 (map2 (\<lambda>u v. Some (of_kleene (k_or (as_bool u) (as_bool v)))) (ai_items a) (ai_items b)) False (array_or a b)"
    and "evaluates n 1 (map (\<lambda>u. Some (of_kleene (k_not (as_bool u)))) (ai_items a)) False (array_not a)"
proof -
  from bool_array [OF assms(1,3)] obtain x where x: "a = ABool x" "pa_wf x" "clean x" "pa_len x = n" by blast
  from bool_array [OF assms(2,4)] obtain y where y: "b = ABool y" "pa_wf y" "clean y" "pa_len y = n" by blast
  have len: "length (pa_items x) = n" "length (pa_items y) = n" using x y by (simp_all add: length_pa_items)
  have good: "good_array n (ABool z)" if "pa_wf z" "clean z" "length (pa_items z) = n" for z :: "bool array"
    using that length_pa_items [of z] by (simp add: good_array_def)
  have eq: "map Some (map (or_null VBool) (map2 g (pa_items x) (pa_items y)))
      = map2 (\<lambda>u v. Some (of_kleene (g (as_bool u) (as_bool v)))) (ai_items a) (ai_items b)" for g
    using x(1) y(1) len by (intro nth_equalityI) simp_all
  from array_and_spec [OF x(2) y(2) _ x(3) y(3)] x y obtain c where "array_and a b = Some (Inr (ABool c))" "pa_wf c" "clean c"
    "pa_items c = map2 k_and (pa_items x) (pa_items y)" by auto
  with eq [of k_and] good [of c] len show "evaluates n 1 (map2 (\<lambda>u v. Some (of_kleene (k_and (as_bool u) (as_bool v)))) (ai_items a) (ai_items b)) False (array_and a b)"
    by (simp add: evaluates_def del: as_bool_or_null map_map)
  from array_or_spec [OF x(2) y(2) _ x(3) y(3)] x y obtain c where "array_or a b = Some (Inr (ABool c))" "pa_wf c" "clean c"
    "pa_items c = map2 k_or (pa_items x) (pa_items y)" by auto
  with eq [of k_or] good [of c] len show "evaluates n 1 (map2 (\<lambda>u v. Some (of_kleene (k_or (as_bool u) (as_bool v)))) (ai_items a) (ai_items b)) False (array_or a b)"
    by (simp add: evaluates_def del: as_bool_or_null map_map)
  from array_not_spec [OF x(2)] x obtain c where "array_not a = Some (Inr (ABool c))" "pa_wf c" "clean c"
    "pa_items c = map k_not (pa_items x)" by auto
  with good [of c] len x(1) show "evaluates n 1 (map (\<lambda>u. Some (of_kleene (k_not (as_bool u)))) (ai_items a)) False (array_not a)"
    by (simp add: evaluates_def)
qed

lemma constant_evaluates:
  assumes "variant_index v \<noteq> 13"
  shows "evaluates n (variant_index v) (replicate n (Some v)) False (eval_constant X v n)"
proof -
  have "\<exists>b :: 'a array_impl. ai_with_capacity (type_of_value v) = Some b \<and> ai_wf b \<and> ai_items b = [] \<and> ai_type b = variant_index v \<and> ai_accepts b v"
    using assms by (cases v) (simp_all add: ai_accepts_def pa_len_push)
  then obtain b :: "'a array_impl" where b: "ai_with_capacity (type_of_value v) = Some b" "ai_wf b" "ai_items b = []" "ai_type b = variant_index v" "ai_accepts b v"
    by blast
  from ai_push_n_spec [OF b(2,5), of "co_zero X" n] b(3,4) obtain b' where
    b': "ai_push_n (co_zero X) n v b = Some b'" "ai_wf b'" "ai_items b' = replicate n v" "ai_type b' = variant_index v" by auto
  have fin: "ai_finish b' = b'" using b'(4) assms by (cases b') (simp_all add: ai_finish_def)
  have clean: "ai_clean b'"
  proof (cases b')
    case (ABool x)
    have "v \<noteq> VNull" using b'(4) ABool by auto
    moreover have "VNull \<in> set (replicate n v)" if "None \<in> set (pa_items x)"
    proof -
      have "or_null VBool None \<in> set (map (or_null VBool) (pa_items x))" using that by (simp only: set_map imageI)
      also have "map (or_null VBool) (pa_items x) = replicate n v" using b'(3) ABool by simp
      finally show ?thesis by simp
    qed
    ultimately have "None \<notin> set (pa_items x)" by auto
    then have "pa_items x ! i \<noteq> None" if "i < length (ar_data x)" for i
      using that ABool b'(2) nth_mem [of i "pa_items x"] by (metis ai_wf.simps(2) length_pa_items pa_len_def pa_wf_def)
    then show ?thesis using ABool b'(2) by (fastforce simp: clean_def list_all2_conv_all_nth pa_items_def pa_wf_def split: if_splits)
  qed simp_all
  have "good_array n b'" using b' clean length_ai_items [OF b'(2)] by (simp add: good_array_def)
  with b b' fin show ?thesis by (simp add: evaluates_def eval_constant_def)
qed

section \<open>Expressions\<close>

lemma evaluatesE:
  assumes "evaluates n t vs p r"
  obtains "r = None" "p" | a where "r = Some (Inr a)" "good_array n a" "ai_type a = t" "map Some (ai_items a) = vs"
  using assms by (auto simp: evaluates_def split: option.splits sum.splits)

lemma evaluates_mono: "evaluates n t vs p r \<Longrightarrow> (p \<Longrightarrow> q) \<Longrightarrow> evaluates n t vs q r"
  by (auto simp: evaluates_def split: option.splits)

lemma evaluates_unary:
  assumes "evaluates n t vs p r"
    and "\<And>a. good_array n a \<Longrightarrow> ai_type a = t \<Longrightarrow> evaluates n s (map g (ai_items a)) p (f a)"
  shows "evaluates n s (map (\<lambda>v. do { u \<leftarrow> v; g u }) vs) p (and_then r f)"
  using assms(1)
proof (cases rule: evaluatesE)
  case (2 a)
  then have "map (\<lambda>v. do { u \<leftarrow> v; g u }) vs = map g (ai_items a)" by (auto simp: comp_def)
  with 2 assms(2) [of a] show ?thesis by simp
qed (simp add: evaluates_def)

lemma evaluates_binary:
  assumes "evaluates n s us p r" and "evaluates n t vs q r'" and len: "length us = length vs"
    and "\<And>a b. good_array n a \<Longrightarrow> good_array n b \<Longrightarrow> ai_type a = s \<Longrightarrow> ai_type b = t
      \<Longrightarrow> evaluates n w (map2 g (ai_items a) (ai_items b)) (p \<or> q \<or> o') (f a b)"
  shows "evaluates n w (map2 (\<lambda>u v. do { u \<leftarrow> u; v \<leftarrow> v; g u v }) us vs) (p \<or> q \<or> o') (and_then r (\<lambda>a. and_then r' (f a)))"
  using assms(1)
proof (cases rule: evaluatesE)
  case (2 a)
  note a = this
  from assms(2) show ?thesis
  proof (cases rule: evaluatesE)
    case (2 b)
    have "map2 (\<lambda>u v. do { u \<leftarrow> u; v \<leftarrow> v; g u v }) us vs = map2 g (ai_items a) (ai_items b)"
      unfolding a(4) [symmetric] 2(4) [symmetric] by (simp add: zip_map1 zip_map2 comp_def case_prod_beta)
    with a 2 assms(4) [of a b] show ?thesis by simp
  qed (use a in \<open>simp add: evaluates_def\<close>)
qed (simp add: evaluates_def)

lemma binary_evaluates:
  assumes "good_array n a" and "good_array n b" and "binary_variant bop (ai_type a) (ai_type b) = Some t"
  shows "evaluates n t (map2 (row_binary X bop) (ai_items a) (ai_items b)) (p \<or> q \<or> (\<exists>f. bop = BArith f)) (array_binary_op X bop a b)"
proof (cases bop)
  case (BArith f)
  with assms(3) have "f \<noteq> OpDiv" "arith_variant (ai_type a) (ai_type b) = Some t" by (auto simp: binary_variant_def split: if_splits)
  then show ?thesis using BArith arith_evaluates [OF assms(1,2), of t X f] by (cases f) (simp_all add: array_binary_op_def row_binary_def)
next
  case (BCmp f)
  with assms(3) have "cmp_variants (ai_type a) (ai_type b)" "t = 1" by (auto simp: binary_variant_def split: if_splits)
  then show ?thesis using BCmp cmp_evaluates [OF assms(1,2), of X f, THEN evaluates_mono] by (simp add: array_binary_op_def row_binary_def)
next
  case BAnd
  with assms show ?thesis using logic_evaluates(1) [OF assms(1,2), THEN evaluates_mono]
    by (simp add: array_binary_op_def row_binary_def binary_variant_def del: as_bool_or_null split: if_splits)
next
  case BOr
  with assms show ?thesis using logic_evaluates(2) [OF assms(1,2), THEN evaluates_mono]
    by (simp add: array_binary_op_def row_binary_def binary_variant_def del: as_bool_or_null split: if_splits)
qed (use assms in \<open>simp_all add: binary_variant_def\<close>)

lemma ai_valid_items: "ai_wf a \<Longrightarrow> ai_type a \<noteq> 0 \<Longrightarrow> ai_type a \<noteq> 13 \<Longrightarrow> map Not (ai_valid a) = map is_null (ai_items a)"
  by (cases a) (auto simp: is_null_def pa_items_def pa_wf_def or_null_def intro!: nth_equalityI)
lemma pa_collect_facts: "pa_wf (pa_collect xs)" "pa_items (pa_collect xs) = map Some xs" "pa_len (pa_collect xs) = length xs" "clean (pa_collect bs)"
  by (auto simp: pa_collect_def pa_wf_def pa_items_def pa_len_def clean_def list_all2_conv_all_nth intro!: nth_equalityI)

lemma isnull_evaluates:
  assumes "good_array n a" and "ai_type a \<noteq> 0" and "ai_type a \<noteq> 13"
  shows "evaluates n 1 (map (\<lambda>u. Some (VBool (is_null u))) (ai_items a)) p (Some (Inr (ABool (pa_collect (map Not (ai_valid a))))))"
proof -
  have "map Not (ai_valid a) = map is_null (ai_items a)" using assms by (intro ai_valid_items) (simp_all add: good_array_def)
  then show ?thesis using good_items [OF assms(1)] by (simp add: evaluates_def good_array_def pa_collect_facts comp_def)
qed


text \<open>The rows of a chunk, column by column.\<close>

lemma map_chunk_rows: "i < length (dc_arrays c) \<Longrightarrow> good_chunk c \<Longrightarrow> map (\<lambda>row. index_at row i) (chunk_rows c) = map Some (ai_items (dc_arrays c ! i))"
  by (intro nth_equalityI) (auto simp: chunk_rows_def rows_of_def index_at_def good_chunk_def list_all_length good_items)

lemma eval_rows:
  assumes "good_chunk c" and "expr_variant (map ai_type (dc_arrays c)) e = Some t"
  shows "evaluates (dc_cardinality c) t (map (row_eval X e) (chunk_rows c)) (has_arith e) (eval X e c)"
  using assms(2)
proof (induction e arbitrary: t)
  case (EConstant v)
  then show ?case using constant_evaluates [of v "dc_cardinality c" X] by (auto simp: map_replicate_const split: if_splits)
next
  case (EColumnIndex i)
  then have i: "i < length (dc_arrays c)" "ai_type (dc_arrays c ! i) = t" by auto
  moreover have "good_array (dc_cardinality c) (dc_arrays c ! i)" using i assms(1) by (simp add: good_chunk_def list_all_length)
  ultimately show ?case using map_chunk_rows [OF i(1) assms(1)] by (simp add: evaluates_def index_at_def)
next
  case (EBinary bop a b)
  then obtain s u where ty: "expr_variant (map ai_type (dc_arrays c)) a = Some s" "expr_variant (map ai_type (dc_arrays c)) b = Some u"
    "binary_variant bop s u = Some t" by (auto split: Option.bind_splits)
  let ?rows = "chunk_rows c"
  have "evaluates (dc_cardinality c) t (map2 (\<lambda>u v. do { u \<leftarrow> u; v \<leftarrow> v; row_binary X bop u v }) (map (row_eval X a) ?rows) (map (row_eval X b) ?rows))
      (has_arith a \<or> has_arith b \<or> (\<exists>f. bop = BArith f)) (and_then (eval X a c) (\<lambda>a. and_then (eval X b c) (array_binary_op X bop a)))"
    using EBinary.IH(1) [OF ty(1)] EBinary.IH(2) [OF ty(2)] ty(3) binary_evaluates by (intro evaluates_binary) auto
  moreover have "map2 (\<lambda>u v. do { u \<leftarrow> u; v \<leftarrow> v; row_binary X bop u v }) (map (row_eval X a) ?rows) (map (row_eval X b) ?rows)
      = map (row_eval X (EBinary bop a b)) ?rows"
    by (simp add: zip_map1 zip_map2 zip_same_conv_map comp_def)
  ultimately show ?case by (simp only: eval.simps has_arith.simps disj_ac)
next
  case (EUnary uop a)
  then have "uop = UNot" "t = 1" "expr_variant (map ai_type (dc_arrays c)) a = Some 1" by (auto split: if_splits)
  moreover have "evaluates (dc_cardinality c) 1 (map (\<lambda>v. do { u \<leftarrow> v; Some (of_kleene (k_not (as_bool u))) }) (map (row_eval X a) (chunk_rows c)))
      (has_arith a) (and_then (eval X a c) array_not)"
    using EUnary.IH [OF calculation(3)] logic_evaluates(3) [THEN evaluates_mono] by (intro evaluates_unary) blast+
  moreover have "array_unary_op X UNot = array_not" by (rule ext) (simp add: array_unary_op_def)
  ultimately show ?case by (simp add: comp_def del: as_bool_or_null)
next
  case (EIsNull a)
  then obtain s where s: "expr_variant (map ai_type (dc_arrays c)) a = Some s" "t = 1" "s \<noteq> 0" "s \<noteq> 13"
    by (auto split: option.splits if_splits)
  have "evaluates (dc_cardinality c) 1 (map (\<lambda>v. do { u \<leftarrow> v; Some (VBool (is_null u)) }) (map (row_eval X a) (chunk_rows c)))
      (has_arith a) (and_then (eval X a c) (\<lambda>a. Some (Inr (ABool (pa_collect (map Not (ai_valid a)))))))"
    using EIsNull.IH [OF s(1)] s(3,4) isnull_evaluates by (intro evaluates_unary) blast+
  then show ?case using s(2) by (simp add: comp_def)
next
  case (EAgg f a)
  then show ?case by (simp split: if_splits)
qed simp_all

text \<open>C10. For expressions built from columns, constants, +, -, *, %, comparisons, AND, OR, NOT and IS NULL (with references, sort
  directions and aggregate arguments around them), whose operand types the array operations accept: evaluating the expression on a chunk is evaluating it on each
  row. There is no error, and the array has the type and the values that the rows give, where a null operand gives null, numbers are widened and logic is
  three-valued. Of these expressions only those with arithmetic can panic. Boolean arrays have to hold false in their null slots, and the result does
  again. Casts, division, LIKE, IN, CASE, EXTRACT, SUBSTRING, REPLACE, string concatenation and vector distances are not in the fragment.\<close>

theorem eval_rowwise:
  assumes "good_chunk c" and "expr_variant (map ai_type (dc_arrays c)) e = Some t"
  shows "case eval X e c of
      None \<Rightarrow> has_arith e
    | Some (Inl err) \<Rightarrow> False
    | Some (Inr a) \<Rightarrow> good_array (dc_cardinality c) a \<and> ai_type a = t \<and> map Some (ai_items a) = map (row_eval X e) (chunk_rows c)"
  using eval_rows [OF assms, of X] by (simp add: evaluates_def)

theorem eval_rowwise_witness:
  "let c = \<lparr>dc_arrays = [AInt32 (ints [Some 1, None, Some 7])], dc_cardinality = 3\<rparr> :: int data_chunk;
       e = EBinary BOr (EIsNull (EColumnIndex 0)) (EBinary (BCmp CmpGt) (EColumnIndex 0) (EConstant (VInt64 5)))
   in (\<exists>a. eval demo_ops e c = Some (Inr a) \<and> ai_items a = [VBool False, VBool True, VBool True])"
proof -
  let ?c = "\<lparr>dc_arrays = [AInt32 (ints [Some 1, None, Some 7])], dc_cardinality = 3\<rparr> :: int data_chunk"
  let ?e = "EBinary BOr (EIsNull (EColumnIndex 0)) (EBinary (BCmp CmpGt) (EColumnIndex 0) (EConstant (VInt64 5))) :: int expr"
  have good: "good_chunk ?c" by (simp add: good_chunk_def good_array_def)
  have ty: "expr_variant (map ai_type (dc_arrays ?c)) ?e = Some 1" by (simp add: index_at_def binary_variant_def cmp_variants_def)
  have rows: "chunk_rows ?c = [[VInt32 1], [VNull], [VInt32 7]]"
    by (simp add: chunk_rows_def rows_of_def numeral_3_eq_3)
  have "map (row_eval demo_ops ?e) (chunk_rows ?c) = map Some [VBool False, VBool True, VBool True]"
    unfolding rows by (simp add: index_at_def row_binary_def row_cmp_arms cmp_by_def cmp_of_def is_null_def row_cmp_null)
  with eval_rowwise [OF good ty, of demo_ops] show ?thesis
    by (auto simp: Let_def split: option.splits sum.splits)
qed

text \<open>\<open>COUNT(DISTINCT x)\<close> counts null as a value; \<open>COUNT(x)\<close> does not.\<close>

lemma count_distinct_counts_null:
  "map_option agg_result (do { s \<leftarrow> init_agg_state (EAgg AggCountDistinct e); agg_append X (EAgg AggCountDistinct e) s VNull }) = Some (VInt32 1)"
  "map_option agg_result (do { s \<leftarrow> init_agg_state (EAgg AggCount e); agg_append X (EAgg AggCount e) s VNull }) = Some (VInt32 0)"
  by (simp_all add: set_insert_def as_i32_def agg_add_def is_null_def value_arith_def int_arith_def i32_check_def i32_range_def)

end
