(* ===== verification/Executors.thy ===== *)
theory Executors
  imports Eval_Laws
begin

text \<open>
  The executors without joins (\<open>executor/\<close>). A stream is the list of the chunks it yields and how it
  ends: normally, with an error, or with a panic. An executor turns the streams of its children into its
  own; as the chunks come before the ending, what was yielded before a failure is kept, and an
  executor that stops early does not see the rest. The library's unstable sort and the package's
  binary heap are arguments, as is the order in which a hash map is iterated.
\<close>

section \<open>Streams\<close>

datatype 'd exec_error =
    ErrStorage string | ErrCatalog string | ErrConvert "'d convert_error" | ErrIo string | ErrCsv string
  | ErrLengthMismatch nat nat | ErrExceedLengthLimit nat nat | ErrNotNullable | ErrAborted

datatype 'd ending = Finished | Failed "'d exec_error" | Panicked

type_synonym 'd stream = "'d data_chunk list \<times> 'd ending"

definition emit :: "'d data_chunk list \<Rightarrow> 'd stream \<Rightarrow> 'd stream" where
  "emit cs s = (cs @ fst s, snd s)"

text \<open>The question mark operator inside a stream, and the panic of an option.\<close>

definition run :: "('d convert_error + 'a) option \<Rightarrow> ('a \<Rightarrow> 'd stream) \<Rightarrow> 'd stream" where
  "run r k =
     (case r of
        None \<Rightarrow> ([], Panicked)
      | Some (Inl e) \<Rightarrow> ([], Failed (ErrConvert e))
      | Some (Inr x) \<Rightarrow> k x)"

definition run_opt :: "'a option \<Rightarrow> ('a \<Rightarrow> 'd stream) \<Rightarrow> 'd stream" where
  "run_opt r k = (case r of None \<Rightarrow> ([], Panicked) | Some x \<Rightarrow> k x)"

lemma emit_simps [simp]: "emit cs (ds, e) = (cs @ ds, e)" "fst (emit cs s) = cs @ fst s" "snd (emit cs s) = snd s"
  by (simp_all add: emit_def)

lemma run_simps [simp]:
  "run None k = ([], Panicked)" "run (Some (Inl e)) k = ([], Failed (ErrConvert e))" "run (Some (Inr x)) k = k x"
  "run_opt None l = ([], Panicked)" "run_opt (Some y) l = l y"
  by (simp_all add: run_def run_opt_def)

definition PROCESSING_WINDOW_SIZE :: nat where
  "PROCESSING_WINDOW_SIZE = 1024"

definition yielded :: "'d data_chunk option \<Rightarrow> 'd data_chunk list" where
  "yielded c = (case c of Some c \<Rightarrow> [c] | None \<Rightarrow> [])"

text \<open>Pushing rows into a chunk builder, yielding every full chunk and in the end the rest.\<close>

fun build_stream :: "'d \<Rightarrow> 'd row list \<Rightarrow> 'd chunk_builder \<Rightarrow> 'd stream" where
  "build_stream z [] b = run_opt (cbl_take b) (\<lambda>(c, _). (yielded c, Finished))"
| "build_stream z (row # rows) b = run_opt (push_row z row b) (\<lambda>(c, b'). emit (yielded c) (build_stream z rows b'))"

definition stream_rows :: "'d stream \<Rightarrow> 'd row list" where
  "stream_rows s = concat (map chunk_rows (fst s))"

section \<open>Limit, filter, projection\<close>

text \<open>A limit of zero ends the stream at the first item, whatever it is.\<close>

definition limit_end :: "nat \<Rightarrow> 'd ending \<Rightarrow> 'd ending" where
  "limit_end limit e = (case e of Failed err \<Rightarrow> if limit = 0 then Finished else Failed err | _ \<Rightarrow> e)"

fun limit_loop :: "'d \<Rightarrow> nat \<Rightarrow> nat \<Rightarrow> nat \<Rightarrow> 'd data_chunk list \<Rightarrow> 'd ending \<Rightarrow> 'd stream" where
  "limit_loop z offset limit processed [] e = ([], limit_end limit e)"
| "limit_loop z offset limit processed (batch # batches) e =
     (if limit = 0 then ([], Finished)
      else run_opt (rust_assert (offset + limit < 2 ^ 64)) (\<lambda>_.
        let cardinality = dc_cardinality batch; start = max processed offset - processed in
        run_opt (checked_sub (min (processed + cardinality) (offset + limit)) processed) (\<lambda>end'.
          if start \<ge> end' then limit_loop z offset limit (processed + cardinality) batches e
          else run_opt (if start = 0 \<and> end' = cardinality then Some batch else dc_slice z start end' batch) (\<lambda>out.
            emit [out]
              (if processed + cardinality \<ge> offset + limit then ([], Finished)
               else limit_loop z offset limit (processed + cardinality) batches e)))))"

definition limit_execute :: "'d \<Rightarrow> nat \<Rightarrow> nat \<Rightarrow> 'd stream \<Rightarrow> 'd stream" where
  "limit_execute z offset limit child = limit_loop z offset limit 0 (fst child) (snd child)"

definition true_array :: "bool array \<Rightarrow> bool list" where
  "true_array a = ar_data a"

definition filter_batch :: "'d::linorder conv_ops \<Rightarrow> 'd expr \<Rightarrow> 'd data_chunk \<Rightarrow> ('d convert_error + 'd data_chunk) option" where
  "filter_batch X condition batch =
     and_then (eval X condition batch) (\<lambda>vis. case vis of ABool a \<Rightarrow> ok (dc_filter (true_array a) batch) | _ \<Rightarrow> None)"

text \<open>An executor that maps each chunk of its child.\<close>

fun map_stream :: "('d data_chunk \<Rightarrow> ('d convert_error + 'd data_chunk) option) \<Rightarrow> 'd data_chunk list \<Rightarrow> 'd ending \<Rightarrow> 'd stream" where
  "map_stream f [] e = ([], e)"
| "map_stream f (c # cs) e = run (f c) (\<lambda>c'. emit [c'] (map_stream f cs e))"

definition filter_execute :: "'d::linorder conv_ops \<Rightarrow> 'd expr \<Rightarrow> 'd stream \<Rightarrow> 'd stream" where
  "filter_execute X condition child = map_stream (filter_batch X condition) (fst child) (snd child)"

definition projection_execute :: "'d::linorder conv_ops \<Rightarrow> 'd expr \<Rightarrow> 'd stream \<Rightarrow> 'd stream" where
  "projection_execute X projs child = map_stream (eval_list X projs) (fst child) (snd child)"

section \<open>Order and top n\<close>

fun order_cmp :: "'d::linorder row \<Rightarrow> 'd row \<Rightarrow> bool list \<Rightarrow> cmp_ordering" where
  "order_cmp (v1 # r1) (v2 # r2) (desc # ds) =
     (case value_cmp v1 v2 of
        Equal \<Rightarrow> order_cmp r1 r2 ds
      | r \<Rightarrow> if desc then cmp_reverse r else r)"
| "order_cmp _ _ _ = Equal"

text \<open>Reading the child to its end: the rows of each chunk after its keys; or the error or panic.\<close>

definition keyed_rows :: "'d::linorder conv_ops \<Rightarrow> 'd expr \<Rightarrow> 'd data_chunk \<Rightarrow> ('d convert_error + 'd row list) option" where
  "keyed_rows X keys c = and_then (eval_list X keys c) (\<lambda>k. ok (do { kc \<leftarrow> row_concat k c; dc_rows kc }))"

definition consume_end :: "'d ending \<Rightarrow> 'a \<Rightarrow> 'd ending + 'a" where
  "consume_end e s = (case e of Finished \<Rightarrow> Inr s | _ \<Rightarrow> Inl e)"

fun consume :: "('d data_chunk \<Rightarrow> 's \<Rightarrow> ('d convert_error + 's) option) \<Rightarrow> 'd data_chunk list \<Rightarrow> 'd ending \<Rightarrow> 's \<Rightarrow> 'd ending + 's" where
  "consume f [] e s = consume_end e s"
| "consume f (c # cs) e s =
     (case f c s of
        None \<Rightarrow> Inl Panicked
      | Some (Inl err) \<Rightarrow> Inl (Failed (ErrConvert err))
      | Some (Inr s') \<Rightarrow> consume f cs e s')"

definition after :: "'d ending + 's \<Rightarrow> ('s \<Rightarrow> 'd stream) \<Rightarrow> 'd stream" where
  "after r k = (case r of Inl e \<Rightarrow> ([], e) | Inr s \<Rightarrow> k s)"

lemma after_simps [simp]: "after (Inl e) k = ([], e)" "after (Inr s) k = k s"
  by (simp_all add: after_def)

definition build_rows :: "'d \<Rightarrow> data_type list \<Rightarrow> 'd row list \<Rightarrow> 'd stream" where
  "build_rows z types rows = run_opt (cbl_new types PROCESSING_WINDOW_SIZE) (build_stream z rows)"

definition order_execute ::
  "'d::linorder conv_ops \<Rightarrow> (('d row \<Rightarrow> 'd row \<Rightarrow> cmp_ordering) \<Rightarrow> 'd row list \<Rightarrow> 'd row list)
   \<Rightarrow> 'd expr \<Rightarrow> data_type list \<Rightarrow> 'd stream \<Rightarrow> 'd stream" where
  "order_execute X sort_unstable_by order_keys types child =
     after (consume (\<lambda>c rows. and_then (keyed_rows X order_keys c) (\<lambda>rs. Some (Inr (rows @ rs)))) (fst child) (snd child) []) (\<lambda>rows.
       run_opt (orders order_keys) (\<lambda>ords.
         build_rows (co_zero X) types (map (drop (length ords)) (sort_unstable_by (\<lambda>r1 r2. order_cmp r1 r2 ords) rows))))"

text \<open>The heap holds rows; its operations are those of the \<open>binary_heap_plus\<close> package.\<close>

record ('d, 'h) heap_ops =
  hp_new :: "('d row \<Rightarrow> 'd row \<Rightarrow> cmp_ordering) \<Rightarrow> 'h"
  hp_push :: "'d row \<Rightarrow> 'h \<Rightarrow> 'h"
  hp_pop :: "'h \<Rightarrow> 'h"
  hp_len :: "'h \<Rightarrow> nat"
  hp_into_sorted_vec :: "'h \<Rightarrow> 'd row list"

definition heap_add :: "('d, 'h) heap_ops \<Rightarrow> nat \<Rightarrow> 'd row \<Rightarrow> 'h \<Rightarrow> 'h" where
  "heap_add H heap_size row heap =
     (let heap = hp_push H row heap in if hp_len H heap > heap_size then hp_pop H heap else heap)"

definition top_n_execute ::
  "'d::linorder conv_ops \<Rightarrow> ('d, 'h) heap_ops \<Rightarrow> nat \<Rightarrow> nat \<Rightarrow> 'd expr \<Rightarrow> data_type list \<Rightarrow> 'd stream \<Rightarrow> 'd stream" where
  "top_n_execute X H offset limit order_keys types child =
     run_opt (rust_assert (offset + limit < 2 ^ 64)) (\<lambda>_.
       run_opt (orders order_keys) (\<lambda>ords.
         after (consume (\<lambda>c heap. and_then (keyed_rows X order_keys c) (\<lambda>rs. Some (Inr (fold (heap_add H (offset + limit)) rs heap))))
             (fst child) (snd child) (hp_new H (\<lambda>r1 r2. order_cmp r1 r2 ords))) (\<lambda>heap.
           build_rows (co_zero X) types (map (drop (length ords)) (take limit (drop offset (hp_into_sorted_vec H heap)))))))"

section \<open>Values\<close>

fun values_row :: "'d::linorder conv_ops \<Rightarrow> 'd expr list \<Rightarrow> data_type list \<Rightarrow> ('d convert_error + 'd row) option" where
  "values_row X [] [] = Some (Inr [])"
| "values_row X (e # es) (ty # tys) =
     and_then (eval X e (chunk_single 0)) (\<lambda>a.
       case ai_get a 0 of
         None \<Rightarrow> None
       | Some v \<Rightarrow> and_then (value_cast X ty v) (\<lambda>v'. and_then (values_row X es tys) (\<lambda>vs. Some (Inr (v' # vs)))))"
| "values_row X _ _ = None"

fun values_stream :: "'d::linorder conv_ops \<Rightarrow> data_type list \<Rightarrow> 'd expr list list \<Rightarrow> 'd chunk_builder \<Rightarrow> 'd stream" where
  "values_stream X types [] b = run_opt (cbl_take b) (\<lambda>(c, _). (yielded c, Finished))"
| "values_stream X types (row # rows) b =
     run (values_row X row types) (\<lambda>vs.
       run_opt (push_row (co_zero X) vs b) (\<lambda>(c, b'). emit (yielded c) (values_stream X types rows b')))"

definition values_execute :: "'d::linorder conv_ops \<Rightarrow> data_type list \<Rightarrow> 'd expr list list \<Rightarrow> 'd stream" where
  "values_execute X column_types values =
     run_opt (cbl_new column_types PROCESSING_WINDOW_SIZE) (values_stream X column_types values)"

end
