(* ===== verification/Exec_Laws.thy ===== *)
theory Exec_Laws
  imports Executors
begin

text \<open>
  What the executors compute, on the rows of their input: a limit takes a window of them, a filter
  keeps those whose condition is true, a projection maps them, sorting permutes them into order, and the
  top n are what sorting and limiting would give.
\<close>

section \<open>Limit\<close>

definition batches_ok :: "'d data_chunk list \<Rightarrow> bool" where
  "batches_ok cs \<longleftrightarrow> list_all dc_wf cs"

abbreviation rows_in :: "'d data_chunk list \<Rightarrow> 'd row list" where
  "rows_in cs \<equiv> concat (map chunk_rows cs)"

lemma slice_batch:
  assumes "dc_wf c" and "s < t" and "t \<le> dc_cardinality c"
  shows "\<exists>d. (if s = 0 \<and> t = dc_cardinality c then Some c else dc_slice z s t c) = Some d \<and> dc_wf d \<and> chunk_rows d = drop s (take t (chunk_rows c))"
proof (cases "s = 0 \<and> t = dc_cardinality c")
  case False
  with dc_slice_spec [OF assms(1) less_imp_le [OF assms(2)] assms(3), of z] show ?thesis
    by (auto simp: drop_take)
qed (use assms in simp)

lemma limit_loop_rows:
  assumes "batches_ok cs" and "offset + limit < 2 ^ 64" and "0 < limit" and "p < offset + limit"
  shows "\<exists>ds. limit_loop z offset limit p cs e = (ds, if offset + limit - p \<le> length (rows_in cs) then Finished else e)
    \<and> batches_ok ds \<and> rows_in ds = drop (offset - p) (take (offset + limit - p) (rows_in cs))"
  using assms(1,4)
proof (induction cs arbitrary: p)
  case Nil
  then show ?case using assms(3) by (simp add: limit_end_def batches_ok_def split: ending.split)
next
  case (Cons c cs)
  let ?n = "dc_cardinality c" and ?off = "offset - p" and ?stop = "min (p + dc_cardinality c) (offset + limit) - p"
  have wf: "dc_wf c" and ok: "batches_ok cs" using Cons.prems(1) by (simp_all add: batches_ok_def)
  have start: "max p offset - p = ?off" by simp
  have sub: "checked_sub (min (p + ?n) (offset + limit)) p = Some ?stop" using Cons.prems(2) by (simp add: checked_sub_def)
  have small: "rust_assert (offset + limit < 2 ^ 64) = Some ()" using assms(2) by (simp add: rust_assert_def)
  have unfold: "limit_loop z offset limit p (c # cs) e =
      (if ?off \<ge> ?stop then limit_loop z offset limit (p + ?n) cs e
       else run_opt (if ?off = 0 \<and> ?stop = ?n then Some c else dc_slice z ?off ?stop c) (\<lambda>out.
         emit [out] (if p + ?n \<ge> offset + limit then ([], Finished) else limit_loop z offset limit (p + ?n) cs e)))"
    using assms(3) [THEN gr_implies_not0] by (simp only: limit_loop.simps small sub start run_simps Let_def if_False)
  show ?case
  proof (cases "p + ?n \<ge> offset + limit")
    case True
    then have e: "?stop = offset + limit - p" by simp
    have "?off < ?stop" "?stop \<le> ?n" using Cons.prems(2) assms(3) True by auto
    from slice_batch [OF wf this, of z] obtain d where
      "(if ?off = 0 \<and> ?stop = ?n then Some c else dc_slice z ?off ?stop c) = Some d" "dc_wf d" "chunk_rows d = drop ?off (take ?stop (chunk_rows c))"
      by blast
    then show ?thesis using True \<open>?off < ?stop\<close> \<open>?stop \<le> ?n\<close> unfolding unfold e by (simp add: batches_ok_def)
  next
    case False
    then have e: "?stop = ?n" by simp
    from Cons.IH [OF ok, of "p + ?n"] False obtain ds where ds:
      "limit_loop z offset limit (p + ?n) cs e = (ds, if offset + limit - (p + ?n) \<le> length (rows_in cs) then Finished else e)"
      "batches_ok ds" "rows_in ds = drop (offset - (p + ?n)) (take (offset + limit - (p + ?n)) (rows_in cs))" by auto
    have fin: "offset + limit - (p + ?n) \<le> length (rows_in cs) \<longleftrightarrow> offset + limit - p \<le> length (rows_in (c # cs))" by auto
    have rows: "drop ?off (take (offset + limit - p) (rows_in (c # cs)))
        = drop ?off (chunk_rows c) @ drop (offset - (p + ?n)) (take (offset + limit - (p + ?n)) (rows_in cs))"
      using False by (simp add: take_append drop_append diff_diff_left)
    show ?thesis
    proof (cases "?off \<ge> ?n")
      case True
      with ds fin rows show ?thesis unfolding unfold e by simp
    next
      case False
      then have "?off < ?n" by simp
      from slice_batch [OF wf this order_refl, of z] obtain d where
        "(if ?off = 0 \<and> ?n = ?n then Some c else dc_slice z ?off ?n c) = Some d" "dc_wf d" "chunk_rows d = drop ?off (take ?n (chunk_rows c))"
        by blast
      with \<open>\<not> p + ?n \<ge> offset + limit\<close> False ds fin rows show ?thesis unfolding unfold e by (simp add: batches_ok_def)
    qed
  qed
qed

text \<open>C16. A limit yields the rows from the offset on, at most the limit many, whatever the sizes of its child's chunks. It ends
  normally once it has them, without looking at the rest of the child, and as its child otherwise.\<close>

theorem limit_rows:
  assumes "batches_ok cs" and "offset + limit < 2 ^ 64" and "0 < limit"
  shows "\<exists>ds. limit_execute z offset limit (cs, e) = (ds, if offset + limit \<le> length (rows_in cs) then Finished else e)
    \<and> batches_ok ds \<and> rows_in ds = take limit (drop offset (rows_in cs))"
  using limit_loop_rows [OF assms, of 0 z e] assms(3) by (simp add: limit_execute_def drop_take)

definition int_chunk :: "int list \<Rightarrow> int data_chunk" where
  "int_chunk xs = \<lparr>dc_arrays = [AInt32 (ints (map Some xs))], dc_cardinality = length xs\<rparr>"

lemma int_chunk_facts [simp]: "dc_wf (int_chunk xs)" "good_chunk (int_chunk xs)" "chunk_rows (int_chunk xs) = map (\<lambda>x. [VInt32 x]) xs"
  "map ai_type (dc_arrays (int_chunk xs)) = [3]"
  by (auto simp: int_chunk_def dc_wf_def good_chunk_def good_array_def chunk_rows_def rows_of_def intro!: nth_equalityI)

theorem limit_rows_witness:
  "\<exists>ds. limit_execute 0 1 3 ([int_chunk [1, 2], int_chunk [3, 4], int_chunk [5]], Failed ErrAborted) = (ds, Finished)
     \<and> rows_in ds = [[VInt32 2], [VInt32 3], [VInt32 4]]"
proof -
  have ok: "batches_ok [int_chunk [1, 2], int_chunk [3, 4], int_chunk [5]]" by (simp add: batches_ok_def)
  have "1 + 3 < (2 :: nat) ^ 64" "0 < (3 :: nat)" by simp_all
  from limit_rows [OF ok this, of 0 "Failed ErrAborted"] show ?thesis by auto
qed

lemma limit_zero: "limit_execute z offset 0 (c # cs, e) = ([], Finished)"
  by (simp add: limit_execute_def)

section \<open>Filter and projection\<close>

lemma select_map_filter: "select (map P xs) xs = filter P xs"
  by (induction xs) simp_all

lemma true_array_items: "pa_wf a \<Longrightarrow> clean a \<Longrightarrow> true_array a = map (\<lambda>v. v = Some True) (pa_items a)"
  using clean_nth [of a] by (intro nth_equalityI) (auto simp: true_array_def pa_items_def pa_wf_def)

lemma good_chunk_wf: "good_chunk c \<Longrightarrow> dc_wf c"
  by (auto simp: good_chunk_def dc_wf_def good_array_def list_all_iff)

definition row_true :: "'d::linorder conv_ops \<Rightarrow> 'd expr \<Rightarrow> 'd row \<Rightarrow> bool" where
  "row_true X e row \<longleftrightarrow> (case row_eval X e row of Some (VBool b) \<Rightarrow> b | _ \<Rightarrow> False)"

lemma filter_batch_rows:
  assumes "good_chunk c" and "expr_variant (map ai_type (dc_arrays c)) e = Some 1"
  shows "case filter_batch X e c of
      None \<Rightarrow> has_arith e
    | Some (Inl err) \<Rightarrow> False
    | Some (Inr d) \<Rightarrow> dc_wf d \<and> chunk_rows d = filter (row_true X e) (chunk_rows c)"
  using eval_rows [OF assms, of X]
proof (cases rule: evaluatesE)
  case (2 a)
  then obtain x where x: "a = ABool x" "pa_wf x" "clean x" "pa_len x = dc_cardinality c" using bool_array by blast
  have row: "row_true X e (chunk_rows c ! i) \<longleftrightarrow> pa_items x ! i = Some True" if "i < dc_cardinality c" for i
  proof -
    have "Some (or_null VBool (pa_items x ! i)) = row_eval X e (chunk_rows c ! i)"
      using arg_cong [OF 2(4), of "\<lambda>l. l ! i"] that x by (simp add: length_pa_items)
    from this [symmetric] show ?thesis by (cases "pa_items x ! i") (simp_all add: row_true_def)
  qed
  have "true_array x = map (row_true X e) (chunk_rows c)"
    using x row by (intro nth_equalityI) (simp_all add: true_array_items length_pa_items)
  then show ?thesis
    using 2(1) x(1) dc_filter_spec [OF good_chunk_wf [OF assms(1)], of "true_array x"]
    by (auto simp: filter_batch_def select_map_filter)
qed (simp add: filter_batch_def)

text \<open>A stream of good chunks with columns of the given variants.\<close>

definition typed_batches :: "nat list \<Rightarrow> 'd data_chunk list \<Rightarrow> bool" where
  "typed_batches ts cs \<longleftrightarrow> list_all (\<lambda>c. good_chunk c \<and> map ai_type (dc_arrays c) = ts) cs"

lemma map_stream_rows:
  assumes "\<And>c. c \<in> set cs \<Longrightarrow> (case f c of None \<Rightarrow> p | Some (Inl err) \<Rightarrow> False | Some (Inr d) \<Rightarrow> dc_wf d \<and> chunk_rows d = g (chunk_rows c))"
  shows "\<exists>ds. map_stream f cs e = (ds, Panicked) \<and> p
    \<or> map_stream f cs e = (ds, e) \<and> batches_ok ds \<and> map chunk_rows ds = map g (map chunk_rows cs)"
  using assms
proof (induction cs)
  case (Cons c cs)
  then have IH: "\<exists>ds. map_stream f cs e = (ds, Panicked) \<and> p
      \<or> map_stream f cs e = (ds, e) \<and> batches_ok ds \<and> map chunk_rows ds = map g (map chunk_rows cs)" by simp
  from Cons.prems [of c] consider "f c = None" p | d where "f c = Some (Inr d)" "dc_wf d" "chunk_rows d = g (chunk_rows c)"
    by (auto split: option.splits sum.splits)
  then show ?case
  proof cases
    case 2
    from IH obtain ds where "map_stream f cs e = (ds, Panicked) \<and> p
      \<or> map_stream f cs e = (ds, e) \<and> batches_ok ds \<and> map chunk_rows ds = map g (map chunk_rows cs)" by blast
    with 2 show ?thesis by (auto simp: batches_ok_def)
  qed (intro exI [of _ "[]"], simp)
qed (auto simp: batches_ok_def)

lemma filter_execute_rows:
  assumes "typed_batches ts cs" and "expr_variant ts cond = Some 1"
  shows "\<exists>ds. filter_execute X cond (cs, e) = (ds, Panicked) \<and> has_arith cond
    \<or> filter_execute X cond (cs, e) = (ds, e) \<and> batches_ok ds \<and> rows_in ds = filter (row_true X cond) (rows_in cs)"
proof -
  have "case filter_batch X cond c of None \<Rightarrow> has_arith cond | Some (Inl err) \<Rightarrow> False
      | Some (Inr d) \<Rightarrow> dc_wf d \<and> chunk_rows d = filter (row_true X cond) (chunk_rows c)" if "c \<in> set cs" for c
    using assms that filter_batch_rows [of c cond X] by (simp add: typed_batches_def list_all_iff)
  from map_stream_rows [where f = "filter_batch X cond" and cs = cs and e = e, OF this] obtain ds where
    "map_stream (filter_batch X cond) cs e = (ds, Panicked) \<and> has_arith cond
     \<or> map_stream (filter_batch X cond) cs e = (ds, e) \<and> batches_ok ds \<and> map chunk_rows ds = map (filter (row_true X cond)) (map chunk_rows cs)"
    by blast
  then show ?thesis by (intro exI [of _ ds]) (auto simp: filter_execute_def filter_concat)
qed

text \<open>C17. A filter keeps exactly the rows for which the condition is true, in their order: rows where it is false or null are
  dropped. It ends like its child. Conditions are those \<open>expr_variant\<close> types, and of these one without arithmetic never panics.\<close>

theorem filter_rows:
  assumes "typed_batches ts cs" and "expr_variant ts cond = Some 1"
  shows "\<exists>ds. filter_execute X cond (cs, e) = (ds, Panicked) \<and> has_arith cond
    \<or> filter_execute X cond (cs, e) = (ds, e) \<and> batches_ok ds \<and> rows_in ds = filter (row_true X cond) (rows_in cs)"
  by (rule filter_execute_rows [OF assms])

theorem filter_rows_witness:
  "\<exists>ds. filter_execute demo_ops (EBinary (BCmp CmpGt) (EColumnIndex 0) (EConstant (VInt32 2))) ([int_chunk [1, 2, 3], int_chunk [4, 0]], Finished) = (ds, Finished)
     \<and> rows_in ds = [[VInt32 3], [VInt32 4]]"
proof -
  let ?cond = "EBinary (BCmp CmpGt) (EColumnIndex 0) (EConstant (VInt32 2)) :: int expr"
  have "typed_batches [3] [int_chunk [1, 2, 3], int_chunk [4, 0]]" "expr_variant [3] ?cond = Some 1"
    by (simp_all add: typed_batches_def index_at_def binary_variant_def cmp_variants_def)
  from filter_rows [OF this, of demo_ops Finished] show ?thesis
    by (auto simp: row_true_def index_at_def row_binary_def row_cmp_arms cmp_by_def cmp_of_def)
qed

lemma eval_each_rows:
  assumes "good_chunk c" and "those (map (expr_variant (map ai_type (dc_arrays c))) es) = Some ts"
  shows "case eval_each X es c of
      None \<Rightarrow> list_ex has_arith es
    | Some (Inl err) \<Rightarrow> False
    | Some (Inr as) \<Rightarrow> list_all2 (\<lambda>e a. good_array (dc_cardinality c) a \<and> map Some (ai_items a) = map (row_eval X e) (chunk_rows c)) es as"
  using assms(2)
proof (induction es arbitrary: ts)
  case (Cons e es)
  then obtain t us where ty: "expr_variant (map ai_type (dc_arrays c)) e = Some t" "those (map (expr_variant (map ai_type (dc_arrays c))) es) = Some us"
    by (auto split: option.splits)
  from eval_rows [OF assms(1) ty(1), of X] show ?case
  proof (cases rule: evaluatesE)
    case (2 a)
    with Cons.IH [OF ty(2)] show ?thesis by (auto split: option.splits sum.splits)
  qed (use ty in simp)
qed simp

lemma rows_of_columns:
  assumes "list_all2 (\<lambda>e a. length (ai_items a) = length rows \<and> map Some (ai_items a) = map (f e) rows) es as"
  shows "map Some (rows_of (length rows) (map ai_items as)) = map (\<lambda>row. those (map (\<lambda>e. f e row) es)) rows"
proof (rule nth_equalityI)
  fix i assume "i < length (map Some (rows_of (length rows) (map ai_items as)))"
  then have i: "i < length rows" by (simp add: rows_of_def)
  have "map (\<lambda>e. f e (rows ! i)) es = map Some (map (\<lambda>a. ai_items a ! i) as)"
  proof (rule nth_equalityI)
    fix j assume "j < length (map (\<lambda>e. f e (rows ! i)) es)"
    then have j: "j < length es" and js: "j < length as" using assms by (simp_all add: list_all2_lengthD)
    with assms have eq: "length (ai_items (as ! j)) = length rows" "map Some (ai_items (as ! j)) = map (f (es ! j)) rows"
      by (simp_all add: list_all2_conv_all_nth)
    have "map Some (ai_items (as ! j)) ! i = map (f (es ! j)) rows ! i" by (simp only: eq(2))
    with i eq(1) j js show "map (\<lambda>e. f e (rows ! i)) es ! j = map Some (map (\<lambda>a. ai_items a ! i) as) ! j" by simp
  qed (use assms in \<open>simp add: list_all2_lengthD\<close>)
  then have "those (map (\<lambda>e. f e (rows ! i)) es) = Some (map (\<lambda>a. ai_items a ! i) as)" by (simp only: those_eq_Some)
  with i show "map Some (rows_of (length rows) (map ai_items as)) ! i = map (\<lambda>row. those (map (\<lambda>e. f e row) es)) rows ! i"
    by (simp add: rows_of_def comp_def)
qed (simp add: rows_of_def)

definition row_eval_list :: "'d::linorder conv_ops \<Rightarrow> 'd expr list \<Rightarrow> 'd row \<Rightarrow> 'd row option" where
  "row_eval_list X es row = those (map (\<lambda>e. row_eval X e row) es)"

lemma eval_list_rows:
  assumes "good_chunk c" and "those (map (expr_variant (map ai_type (dc_arrays c))) es) = Some ts"
  shows "case eval_list X (EList es) c of
      None \<Rightarrow> list_ex has_arith es
    | Some (Inl err) \<Rightarrow> False
    | Some (Inr d) \<Rightarrow> good_chunk d \<and> dc_cardinality d = dc_cardinality c \<and> map Some (chunk_rows d) = map (row_eval_list X es) (chunk_rows c)"
proof (cases es)
  case Nil
  have "map Some (chunk_rows (chunk_no_column (dc_cardinality c))) = map (row_eval_list X []) (chunk_rows c)"
    by (intro nth_equalityI) (simp_all add: chunk_no_column_def chunk_rows_def rows_of_def row_eval_list_def)
  with Nil show ?thesis by (simp add: eval_list_def good_chunk_def) (simp add: chunk_no_column_def)
next
  case (Cons e es')
  let ?P = "\<lambda>e a. good_array (dc_cardinality c) a \<and> map Some (ai_items a) = map (row_eval X e) (chunk_rows c)"
  from eval_each_rows [OF assms, of X] consider "eval_each X es c = None" "list_ex has_arith es"
    | as where "eval_each X es c = Some (Inr as)" "list_all2 ?P es as" by (auto split: option.splits sum.splits)
  then show ?thesis
  proof cases
    case 2
    have good: "\<forall>a\<in>set as. good_array (dc_cardinality c) a" using 2(2) by (auto simp: list_all2_conv_all_nth in_set_conv_nth)
    obtain a as' where as: "as = a # as'" using 2(2) Cons by (cases as) auto
    with good have chunk: "chunk_of_arrays as = Some \<lparr>dc_arrays = as, dc_cardinality = dc_cardinality c\<rparr>"
      by (auto simp: chunk_of_arrays_def rust_assert_def good_array_def list_all_iff)
    have "map Some (rows_of (length (chunk_rows c)) (map ai_items as)) = map (\<lambda>row. those (map (\<lambda>e. row_eval X e row) es)) (chunk_rows c)"
      using 2(2) good_items by (intro rows_of_columns) (auto elim!: list_all2_mono)
    with 2(1) Cons chunk good show ?thesis
      by (simp add: eval_list_def good_chunk_def list_all_iff chunk_rows_def [of "dc_arrays_update _ _"] chunk_rows_def [of "\<lparr>dc_arrays = _, dc_cardinality = _\<rparr>"] row_eval_list_def)
  qed (simp add: eval_list_def Cons)
qed

end
