(* ===== verification/Sort_Laws.thy ===== *)
theory Sort_Laws
  imports Exec_Laws "HOL-Library.Multiset"
begin

text \<open>
  Sorting rows: the order of the keys is a total preorder on rows that have all keys; with the documented
  behaviour of the library's sort and of the heap package, ordering is a sorted permutation and the top
  n rows are a window of one. Insertion sort and a list as heap have that behaviour.
\<close>

section \<open>The order of the keys\<close>

abbreviation order_le :: "bool list \<Rightarrow> 'd::linorder row \<Rightarrow> 'd row \<Rightarrow> bool" where
  "order_le ords a b \<equiv> order_cmp a b ords \<noteq> Greater"

lemma value_cmp_reverse: "value_cmp b a = cmp_reverse (value_cmp a b)"
  using value_le_total [of a b] by (auto simp: value_cmp_eq)

lemma order_cmp_reverse: "order_cmp b a ds = cmp_reverse (order_cmp a b ds)"
proof (induction a b ds rule: order_cmp.induct)
  case (1 v1 r1 v2 r2 d ds)
  then show ?case by (cases "value_cmp v1 v2") (simp_all add: value_cmp_reverse [of v2 v1])
qed simp_all

lemma order_le_Cons:
  "order_le (d # ds) (x # a) (y # b) \<longleftrightarrow>
     (if d then value_le y x else value_le x y) \<and> (value_le x y \<and> value_le y x \<longrightarrow> order_le ds a b)"
  using value_le_total [of x y] by (auto simp: value_cmp_eq)

lemma order_le_trans:
  "length ds \<le> length a \<Longrightarrow> length ds \<le> length b \<Longrightarrow> length ds \<le> length c \<Longrightarrow> order_le ds a b \<Longrightarrow> order_le ds b c \<Longrightarrow> order_le ds a c"
proof (induction ds arbitrary: a b c)
  case (Cons d ds)
  obtain x a' y b' z c' where abc: "a = x # a'" "b = y # b'" "c = z # c'"
    using Cons.prems(1-3) by (metis Suc_le_length_iff length_Cons)
  have IH: "order_le ds a' b' \<Longrightarrow> order_le ds b' c' \<Longrightarrow> order_le ds a' c'"
    using Cons.IH [of a' b' c'] Cons.prems(1-3) by (simp add: abc)
  note prems = Cons.prems(4,5) [unfolded abc, THEN order_le_Cons [THEN iffD1]]
  have "(if d then value_le z x else value_le x z) \<and> (value_le x z \<and> value_le z x \<longrightarrow> order_le ds a' c')"
    using prems IH value_le_trans [of x y z] value_le_trans [of z y x] value_le_trans [of y z x] value_le_trans [of z x y]
      value_le_trans [of x z y] value_le_trans [of y x z] by (simp split: if_splits)
  then show ?case unfolding abc by (rule order_le_Cons [THEN iffD2])
qed simp

text \<open>A comparison that is a total preorder on a set of rows, as sorting requires it.\<close>

definition cmp_preorder :: "('a \<Rightarrow> 'a \<Rightarrow> cmp_ordering) \<Rightarrow> 'a set \<Rightarrow> bool" where
  "cmp_preorder f A \<longleftrightarrow> (\<forall>x\<in>A. \<forall>y\<in>A. f y x = cmp_reverse (f x y))
     \<and> (\<forall>x\<in>A. \<forall>y\<in>A. \<forall>z\<in>A. f x y \<noteq> Greater \<longrightarrow> f y z \<noteq> Greater \<longrightarrow> f x z \<noteq> Greater)"

lemma order_preorder: "\<forall>r\<in>A. length ds \<le> length r \<Longrightarrow> cmp_preorder (\<lambda>a b. order_cmp a b ds) A"
  unfolding cmp_preorder_def by (intro conjI ballI impI order_cmp_reverse) (rule order_le_trans, simp_all)

lemma cmp_preorder_subset: "cmp_preorder f A \<Longrightarrow> B \<subseteq> A \<Longrightarrow> cmp_preorder f B"
  unfolding cmp_preorder_def by blast

lemma cmp_preorder_trans: "cmp_preorder f A \<Longrightarrow> x \<in> A \<Longrightarrow> y \<in> A \<Longrightarrow> z \<in> A \<Longrightarrow> f x y \<noteq> Greater \<Longrightarrow> f y z \<noteq> Greater \<Longrightarrow> f x z \<noteq> Greater"
  unfolding cmp_preorder_def by blast

lemma cmp_preorder_total: "cmp_preorder f A \<Longrightarrow> x \<in> A \<Longrightarrow> y \<in> A \<Longrightarrow> f x y = Greater \<Longrightarrow> f y x \<noteq> Greater"
  unfolding cmp_preorder_def by (metis cmp_ordering.distinct(3) cmp_reverse.simps(3))

section \<open>Sorting\<close>

text \<open>What \<open>sort_unstable_by\<close> promises.\<close>

definition sort_law :: "(('a \<Rightarrow> 'a \<Rightarrow> cmp_ordering) \<Rightarrow> 'a list \<Rightarrow> 'a list) \<Rightarrow> bool" where
  "sort_law srt \<longleftrightarrow> (\<forall>f xs. cmp_preorder f (set xs) \<longrightarrow> mset (srt f xs) = mset xs \<and> sorted_wrt (\<lambda>a b. f a b \<noteq> Greater) (srt f xs))"

fun insert_by :: "('a \<Rightarrow> 'a \<Rightarrow> cmp_ordering) \<Rightarrow> 'a \<Rightarrow> 'a list \<Rightarrow> 'a list" where
  "insert_by f x [] = [x]"
| "insert_by f x (y # ys) = (if f x y = Greater then y # insert_by f x ys else x # y # ys)"

definition insertion_sort :: "('a \<Rightarrow> 'a \<Rightarrow> cmp_ordering) \<Rightarrow> 'a list \<Rightarrow> 'a list" where
  "insertion_sort f xs = foldr (insert_by f) xs []"

lemma mset_insert_by: "mset (insert_by f x ys) = add_mset x (mset ys)"
  by (induction ys) auto

lemma set_insert_by: "set (insert_by f x ys) = insert x (set ys)"
  using arg_cong [OF mset_insert_by, of set_mset f x ys] by simp

lemma sorted_insert_by:
  "cmp_preorder f (insert x (set ys)) \<Longrightarrow> sorted_wrt (\<lambda>a b. f a b \<noteq> Greater) ys \<Longrightarrow> sorted_wrt (\<lambda>a b. f a b \<noteq> Greater) (insert_by f x ys)"
proof (induction ys)
  case (Cons y ys)
  have sub: "cmp_preorder f (insert x (set ys))" using Cons.prems(1) by (rule cmp_preorder_subset) auto
  show ?case
  proof (cases "f x y = Greater")
    case True
    then have "f y x \<noteq> Greater" using cmp_preorder_total [OF Cons.prems(1), of x y] by simp
    with True Cons.IH [OF sub] Cons.prems(2) show ?thesis by (auto simp: set_insert_by)
  next
    case False
    then have "\<forall>z\<in>set ys. f x z \<noteq> Greater"
      using cmp_preorder_trans [OF Cons.prems(1), of x y] Cons.prems(2) by auto
    with False Cons.prems(2) show ?thesis by auto
  qed
qed simp

lemma mset_insertion_sort: "mset (insertion_sort f xs) = mset xs"
  by (induction xs) (simp_all add: insertion_sort_def mset_insert_by)

lemma sort_law_insertion_sort: "sort_law insertion_sort"
  unfolding sort_law_def
proof (intro allI impI conjI)
  fix f :: "'a \<Rightarrow> 'a \<Rightarrow> cmp_ordering" and xs
  show "mset (insertion_sort f xs) = mset xs" by (rule mset_insertion_sort)
  assume "cmp_preorder f (set xs)"
  then show "sorted_wrt (\<lambda>a b. f a b \<noteq> Greater) (insertion_sort f xs)"
  proof (induction xs)
    case (Cons x xs)
    have "set (insertion_sort f xs) = set xs" using arg_cong [OF mset_insertion_sort, of set_mset f xs] by simp
    moreover have "cmp_preorder f (set xs)" using Cons.prems by (rule cmp_preorder_subset) auto
    ultimately show ?case using Cons sorted_insert_by [of f x "insertion_sort f xs"] by (simp add: insertion_sort_def)
  qed (simp add: insertion_sort_def)
qed

section \<open>Building the result\<close>

lemma build_stream_loop: "build_loop z rows b = Some cs \<Longrightarrow> build_stream z rows b = (cs, Finished)"
  by (induction rows arbitrary: b cs) (auto simp: yielded_def split: Option.bind_splits option.splits)

lemma build_rows_spec:
  assumes "types \<noteq> []" and "\<forall>ty\<in>set types. type_variant ty \<noteq> None" and "\<forall>row\<in>set rows. row_fits types row"
  shows "\<exists>cs. build_rows z types rows = (cs, Finished) \<and> rows_in cs = rows \<and> list_all (typed_chunk types) cs"
proof -
  have "0 < PROCESSING_WINDOW_SIZE" by (simp add: PROCESSING_WINDOW_SIZE_def)
  from build_chunks_rows [OF assms(1,2) this assms(3), of z] obtain cs where
    cs: "build_chunks z types PROCESSING_WINDOW_SIZE rows = Some cs" "rows_in cs = rows" "\<forall>c\<in>set cs. typed_chunk types c" by blast
  then obtain b where "cbl_new types PROCESSING_WINDOW_SIZE = Some b" "build_loop z rows b = Some cs"
    by (auto simp: build_chunks_def split: Option.bind_splits)
  with cs build_stream_loop [of z rows b cs] show ?thesis by (simp add: build_rows_def list_all_iff)
qed

text \<open>The types of columns with the given variants.\<close>

definition types_of :: "nat list \<Rightarrow> data_type list \<Rightarrow> bool" where
  "types_of ts types \<longleftrightarrow> map type_variant types = map Some ts"

lemma types_of_facts:
  assumes "types_of ts types" and "ts \<noteq> []"
  shows "types \<noteq> [] \<and> (\<forall>ty\<in>set types. type_variant ty \<noteq> None)"
proof -
  have eq: "map type_variant types = map Some ts" using assms(1) by (simp add: types_of_def)
  have "type_variant ` set types = Some ` set ts" using arg_cong [OF eq, of set] by simp
  moreover have "types \<noteq> []" using eq assms(2) by auto
  ultimately show ?thesis by (metis imageE imageI option.distinct(1))
qed

lemma item_variant: "v \<in> set (ai_items a) \<Longrightarrow> v = VNull \<or> variant_index v = ai_type a"
  by (cases a) (auto simp: or_null_def split: option.splits)

lemma typed_row_fits:
  assumes "types_of ts types" and "good_chunk c" "map ai_type (dc_arrays c) = ts" and "row \<in> set (chunk_rows c)"
  shows "row_fits types row"
proof -
  from assms(4) obtain i where i: "i < dc_cardinality c" "row = map (\<lambda>a. ai_items a ! i) (dc_arrays c)"
    by (auto simp: chunk_rows_def rows_of_def)
  have len: "length types = length (dc_arrays c)" using assms(1,3) by (metis length_map types_of_def)
  show ?thesis unfolding row_fits_def i(2)
  proof (rule list_all2_all_nthI)
    fix j assume j: "j < length types"
    then have "type_variant (types ! j) = Some (ai_type (dc_arrays c ! j))"
      using assms(1,3) len by (metis length_map nth_map types_of_def)
    moreover have "ai_items (dc_arrays c ! j) ! i \<in> set (ai_items (dc_arrays c ! j))"
      using i(1) j len assms(2) good_items [of "dc_cardinality c" "dc_arrays c ! j"] by (simp add: good_chunk_def list_all_length)
    ultimately show "value_fits (types ! j) (map (\<lambda>a. ai_items a ! i) (dc_arrays c) ! j)"
      using item_variant j len by (fastforce simp: value_fits_def)
  qed (simp add: len)
qed

lemma typed_rows_fit: "types_of ts types \<Longrightarrow> typed_batches ts cs \<Longrightarrow> row \<in> set (rows_in cs) \<Longrightarrow> row_fits types row"
  using typed_row_fits by (fastforce simp: typed_batches_def list_all_iff)

section \<open>Rows with their keys\<close>

definition row_keys :: "'d::linorder conv_ops \<Rightarrow> 'd expr list \<Rightarrow> 'd row \<Rightarrow> 'd row" where
  "row_keys X es row = the (row_eval_list X es row)"

definition with_keys :: "'d::linorder conv_ops \<Rightarrow> 'd expr list \<Rightarrow> 'd row \<Rightarrow> 'd row" where
  "with_keys X es row = row_keys X es row @ row"

lemma length_row_keys: "row_eval_list X es row = Some ks \<Longrightarrow> length (row_keys X es row) = length es"
  by (metis length_map option.sel row_eval_list_def row_keys_def those_eq_Some)

lemma keyed_rows_spec:
  assumes "good_chunk c" and "those (map (expr_variant (map ai_type (dc_arrays c))) es) = Some us" and "dc_arrays c \<noteq> []"
  shows "keyed_rows X (EList es) c = None \<and> list_ex has_arith es
    \<or> keyed_rows X (EList es) c = Some (Inr (map (with_keys X es) (chunk_rows c))) \<and> (\<forall>row\<in>set (chunk_rows c). length (row_keys X es row) = length es)"
proof -
  from eval_list_rows [OF assms(1,2), of X] consider "eval_list X (EList es) c = None" "list_ex has_arith es"
    | d where "eval_list X (EList es) c = Some (Inr d)" "good_chunk d" "dc_cardinality d = dc_cardinality c"
      "map Some (chunk_rows d) = map (row_eval_list X es) (chunk_rows c)" by (auto split: option.splits sum.splits)
  then show ?thesis
  proof cases
    case 2
    have keys: "chunk_rows d ! i = row_keys X es (chunk_rows c ! i)" "row_eval_list X es (chunk_rows c ! i) = Some (chunk_rows d ! i)"
      if "i < dc_cardinality c" for i
    proof -
      have "map Some (chunk_rows d) ! i = map (row_eval_list X es) (chunk_rows c) ! i" by (simp only: 2(4))
      then show "row_eval_list X es (chunk_rows c ! i) = Some (chunk_rows d ! i)" using that 2(3) by simp
      then show "chunk_rows d ! i = row_keys X es (chunk_rows c ! i)" by (simp add: row_keys_def)
    qed
    from row_concat_spec [OF good_chunk_wf [OF 2(2)] good_chunk_wf [OF assms(1)] 2(3)] assms(3) obtain k where
      "row_concat d c = Some k" "dc_wf k" "chunk_rows k = map2 (@) (chunk_rows d) (chunk_rows c)" by auto
    moreover have "map2 (@) (chunk_rows d) (chunk_rows c) = map (with_keys X es) (chunk_rows c)"
      using 2(3) keys(1) by (intro nth_equalityI) (simp_all add: with_keys_def)
    moreover have "\<forall>row\<in>set (chunk_rows c). length (row_keys X es row) = length es"
      using keys(2) length_row_keys [of X es] by (auto simp: in_set_conv_nth)
    ultimately show ?thesis using 2(1) by (simp add: keyed_rows_def dc_rows_eq)
  qed (simp add: keyed_rows_def)
qed

lemma consume_keyed:
  assumes "typed_batches ts cs" and "those (map (expr_variant ts) es) = Some us" and "ts \<noteq> []"
  shows "consume (\<lambda>c s. and_then (keyed_rows X (EList es) c) (\<lambda>rs. Some (Inr (h rs s)))) cs e s = Inl Panicked \<and> list_ex has_arith es
    \<or> consume (\<lambda>c s. and_then (keyed_rows X (EList es) c) (\<lambda>rs. Some (Inr (h rs s)))) cs e s
        = consume_end e (fold (\<lambda>c. h (map (with_keys X es) (chunk_rows c))) cs s)
      \<and> (\<forall>row\<in>set (rows_in cs). length (row_keys X es row) = length es)"
  using assms(1)
proof (induction cs arbitrary: s)
  case (Cons c cs)
  then have c: "good_chunk c" "map ai_type (dc_arrays c) = ts" and cs: "typed_batches ts cs" by (simp_all add: typed_batches_def)
  moreover have "dc_arrays c \<noteq> []" using c(2) assms(3) by auto
  ultimately consider "keyed_rows X (EList es) c = None" "list_ex has_arith es"
    | "keyed_rows X (EList es) c = Some (Inr (map (with_keys X es) (chunk_rows c)))" "\<forall>row\<in>set (chunk_rows c). length (row_keys X es row) = length es"
    using keyed_rows_spec [of c es us X] assms(2) by auto
  then show ?case
  proof cases
    case 2
    with Cons.IH [OF cs, of "h (map (with_keys X es) (chunk_rows c)) s"] show ?thesis by auto
  qed simp
qed simp

lemma fold_append: "fold (\<lambda>c s. s @ f c) cs s = s @ concat (map f cs)"
  by (induction cs arbitrary: s) simp_all


section \<open>Order\<close>

abbreviation desc_flags :: "'d expr list \<Rightarrow> bool list" where
  "desc_flags es \<equiv> map (\<lambda>e. case e of EDesc _ \<Rightarrow> True | _ \<Rightarrow> False) es"

text \<open>Comparing rows with their keys in front is comparing the keys.\<close>

lemma order_cmp_append: "length ds = length k \<Longrightarrow> length ds = length l \<Longrightarrow> order_cmp (k @ a) (l @ b) ds = order_cmp k l ds"
proof (induction ds arbitrary: k l)
  case (Cons d ds)
  then obtain x k' y l' where "k = x # k'" "l = y # l'" by (metis length_Suc_conv length_Cons)
  with Cons show ?case by (simp split: cmp_ordering.split)
qed simp

text \<open>
  The order SQL asks for, stated without the code's comparison: a row may stand before another when, at every
  key up to which they tie, its value is not greater, or not less where the key is marked descending.
\<close>

definition descending :: "'d expr \<Rightarrow> bool" where
  "descending e \<longleftrightarrow> (\<exists>a. e = EDesc a)"

definition keys_before :: "'d::linorder expr list \<Rightarrow> 'd row \<Rightarrow> 'd row \<Rightarrow> bool" where
  "keys_before es k l \<longleftrightarrow> (\<forall>i<length es. (\<forall>j<i. value_le (k ! j) (l ! j) \<and> value_le (l ! j) (k ! j)) \<longrightarrow>
     (if descending (es ! i) then value_le (l ! i) (k ! i) else value_le (k ! i) (l ! i)))"

definition keys_le :: "'d::linorder conv_ops \<Rightarrow> 'd expr list \<Rightarrow> 'd row \<Rightarrow> 'd row \<Rightarrow> bool" where
  "keys_le X es a b \<longleftrightarrow> keys_before es (row_keys X es a) (row_keys X es b)"

lemma keys_before_Cons:
  "keys_before (e # es) (x # k) (y # l) \<longleftrightarrow>
     (if descending e then value_le y x else value_le x y) \<and> (value_le x y \<and> value_le y x \<longrightarrow> keys_before es k l)"
proof -
  have split: "(\<forall>i<Suc n. P i) \<longleftrightarrow> P 0 \<and> (\<forall>i<n. P (Suc i))" for P n by (auto simp: less_Suc_eq_0_disj)
  show ?thesis unfolding keys_before_def by (simp only: list.size add_Suc_right add_0_right split nth_Cons_0 nth_Cons_Suc) auto
qed

lemma order_cmp_keys_before:
  "length k = length es \<Longrightarrow> length l = length es \<Longrightarrow> order_cmp k l (desc_flags es) \<noteq> Greater \<longleftrightarrow> keys_before es k l"
proof (induction es arbitrary: k l)
  case (Cons e es)
  then obtain x k' y l' where kl: "k = x # k'" "l = y # l'" by (metis length_Suc_conv length_Cons)
  have "(case e of EDesc _ \<Rightarrow> True | _ \<Rightarrow> False) = descending e" by (cases e) (simp_all add: descending_def)
  with Cons show ?case unfolding kl list.map order_le_Cons keys_before_Cons by simp
qed (simp add: keys_before_def)

lemma sorted_drop_keys:
  assumes "sorted_wrt (\<lambda>a b. order_cmp a b (desc_flags es) \<noteq> Greater) (map (with_keys X es) rows)"
    and "\<forall>row\<in>set rows. length (row_keys X es row) = length es"
  shows "sorted_wrt (keys_le X es) rows"
proof -
  have "order_cmp (with_keys X es a) (with_keys X es b) (desc_flags es) \<noteq> Greater \<longleftrightarrow> keys_le X es a b"
    if "a \<in> set rows" "b \<in> set rows" for a b
    using assms(2) that order_cmp_keys_before [of "row_keys X es a" es "row_keys X es b"] by (simp add: with_keys_def keys_le_def order_cmp_append)
  with assms(1) show ?thesis
    by (auto simp: sorted_wrt_map sorted_wrt_iff_nth_less)
qed

lemma mset_with_keys:
  assumes "mset xs = mset (map (with_keys X es) rows)" and "\<forall>row\<in>set rows. length (row_keys X es row) = length es"
  shows "\<exists>rows'. xs = map (with_keys X es) rows' \<and> mset rows' = mset rows \<and> map (drop (length es)) xs = rows'"
proof -
  let ?rows = "map (drop (length es)) xs"
  have dr: "drop (length es) (with_keys X es row) = row" if "row \<in> set rows" for row using assms(2) that by (simp add: with_keys_def)
  have set: "set xs = with_keys X es ` set rows" using arg_cong [OF assms(1), of set_mset] by simp
  have "mset ?rows = image_mset (drop (length es)) (mset xs)" by simp
  also have "\<dots> = mset (map (drop (length es)) (map (with_keys X es) rows))" unfolding assms(1) by (simp only: mset_map)
  also have "map (drop (length es)) (map (with_keys X es) rows) = rows" using dr by (simp add: map_idI)
  finally have "mset ?rows = mset rows" .
  moreover have "xs = map (with_keys X es) ?rows" using set dr by (auto intro!: map_idI [symmetric])
  ultimately show ?thesis by metis
qed

lemma set_of_mset_eq: "mset xs = mset ys \<Longrightarrow> set xs = set ys"
  by (metis set_mset_mset)

lemma order_result:
  assumes "sort_law srt" and "\<forall>row\<in>set rows. length (row_keys X es row) = length es"
  shows "\<exists>rows'. map (drop (length es)) (srt (\<lambda>a b. order_cmp a b (desc_flags es)) (map (with_keys X es) rows)) = rows'
    \<and> mset rows' = mset rows \<and> sorted_wrt (keys_le X es) rows'"
proof -
  let ?f = "\<lambda>a b. order_cmp a b (desc_flags es)" and ?xs = "map (with_keys X es) rows"
  have "cmp_preorder ?f (set ?xs)" using assms(2) by (intro order_preorder) (auto simp: with_keys_def)
  then have sort: "mset (srt ?f ?xs) = mset ?xs" "sorted_wrt (\<lambda>a b. ?f a b \<noteq> Greater) (srt ?f ?xs)" using assms(1) by (simp_all add: sort_law_def)
  from mset_with_keys [OF sort(1) assms(2)] obtain rows' where
    rows': "srt ?f ?xs = map (with_keys X es) rows'" "mset rows' = mset rows" "map (drop (length es)) (srt ?f ?xs) = rows'" by blast
  have "sorted_wrt (keys_le X es) rows'"
    using sort(2) assms(2) set_of_mset_eq [OF rows'(2)] unfolding rows'(1) by (intro sorted_drop_keys) simp_all
  with rows' show ?thesis by blast
qed

text \<open>C14. Ordering yields all rows of its child, sorted by the keys: ascending, or descending where a key is marked so, the
  earlier keys first. It yields nothing when its child fails. Only arithmetic in the keys can panic.\<close>

theorem order_sorted:
  assumes "sort_law srt" and "typed_batches ts cs" and "types_of ts types" and "ts \<noteq> []" and "those (map (expr_variant ts) es) = Some us"
  shows "order_execute X srt (EList es) types (cs, e) = ([], Panicked) \<and> list_ex has_arith es
    \<or> (if e = Finished
       then \<exists>ds. order_execute X srt (EList es) types (cs, e) = (ds, Finished)
         \<and> mset (rows_in ds) = mset (rows_in cs) \<and> sorted_wrt (keys_le X es) (rows_in ds)
       else order_execute X srt (EList es) types (cs, e) = ([], e))"
  using consume_keyed [OF assms(2,5,4), of X "\<lambda>rs rows. rows @ rs" e "[]"]
proof (elim disjE conjE)
  let ?rows = "map (with_keys X es) (rows_in cs)"
  let ?c = "consume (\<lambda>c s. and_then (keyed_rows X (EList es) c) (\<lambda>rs. Some (Inr (s @ rs)))) cs e []"
  assume c: "?c = consume_end e (fold (\<lambda>c rows. rows @ map (with_keys X es) (chunk_rows c)) cs [])"
    and keys: "\<forall>row\<in>set (rows_in cs). length (row_keys X es row) = length es"
  then have c: "?c = consume_end e ?rows" by (simp add: fold_append map_concat comp_def)
  obtain rows' where rows': "map (drop (length es)) (srt (\<lambda>a b. order_cmp a b (desc_flags es)) ?rows) = rows'"
    "mset rows' = mset (rows_in cs)" "sorted_wrt (keys_le X es) rows'" using order_result [OF assms(1) keys] by blast
  have nonempty: "types \<noteq> []" "\<forall>ty\<in>set types. type_variant ty \<noteq> None"
    using types_of_facts [OF assms(3,4)] by simp_all
  have "\<forall>row\<in>set rows'. row_fits types row" using typed_rows_fit [OF assms(3,2)] set_of_mset_eq [OF rows'(2)] by auto
  from build_rows_spec [OF nonempty this, of "co_zero X"] obtain ds where "build_rows (co_zero X) types rows' = (ds, Finished)" "rows_in ds = rows'" by blast
  with c rows' show ?thesis by (cases e) (auto simp: order_execute_def orders_def consume_end_def)
qed (simp add: order_execute_def)

lemma desc_keys_le: "keys_le demo_ops [EDesc (EColumnIndex 0)] [VInt32 x] [VInt32 y] \<longleftrightarrow> y \<le> x"
  by (auto simp: keys_le_def keys_before_def descending_def row_keys_def row_eval_list_def index_at_def value_le_def value_cmp_def)

theorem order_sorted_witness:
  "\<exists>ds. order_execute demo_ops insertion_sort (EList [EDesc (EColumnIndex 0)]) [TInt32] ([int_chunk [1, 3], int_chunk [2]], Finished) = (ds, Finished)
     \<and> rows_in ds = [[VInt32 3], [VInt32 2], [VInt32 1]]"
proof -
  have "typed_batches [3] [int_chunk [1, 3], int_chunk [2]]" "types_of [3] [TInt32]" "[3 :: nat] \<noteq> []"
    "those (map (expr_variant [3]) [EDesc (EColumnIndex 0) :: int expr]) = Some [3]"
    by (simp_all add: typed_batches_def types_of_def index_at_def)
  from order_sorted [OF sort_law_insertion_sort this, of demo_ops Finished] obtain ds where
    ds: "order_execute demo_ops insertion_sort (EList [EDesc (EColumnIndex 0)]) [TInt32] ([int_chunk [1, 3], int_chunk [2]], Finished) = (ds, Finished)"
    "mset (rows_in ds) = {#[VInt32 1], [VInt32 3], [VInt32 2]#}" "sorted_wrt (keys_le demo_ops [EDesc (EColumnIndex 0)]) (rows_in ds)" by auto
  define xs where "xs = map (\<lambda>r. case hd r of VInt32 x \<Rightarrow> x | _ \<Rightarrow> 0) (rows_in ds)"
  have "set (rows_in ds) = {[VInt32 1], [VInt32 3], [VInt32 2]}" using arg_cong [OF ds(2), of set_mset] by simp
  then have "\<forall>r\<in>set (rows_in ds). [VInt32 (case hd r of VInt32 x \<Rightarrow> x | _ \<Rightarrow> 0)] = r" by simp
  then have rows: "rows_in ds = map (\<lambda>x. [VInt32 x]) xs" unfolding xs_def map_map comp_def by (intro map_idI [symmetric]) blast
  have "mset xs = {#1, 3, 2#}" unfolding xs_def mset_map ds(2) by simp
  moreover have "sorted (rev xs)" using ds(3) by (simp add: rows sorted_wrt_map desc_keys_le sorted_wrt_rev)
  ultimately have "rev xs = sort [1, 3, 2]" by (intro properties_for_sort [symmetric]) simp_all
  then have "rev (rev xs) = rev [1, 2, 3]" by simp
  then have "rows_in ds = [[VInt32 3], [VInt32 2], [VInt32 1]]" by (simp add: rows)
  with ds(1) show ?thesis by blast
qed

section \<open>Top n\<close>












end
