(* ===== verification/Aggregates.thy ===== *)
theory Aggregates
  imports Sort_Laws
begin

text \<open>
  The executors that aggregate (\<open>hash_agg.rs\<close>, \<open>sort_agg.rs\<close>, \<open>simple_agg.rs\<close>, \<open>window.rs\<close>). Hash aggregation
  keeps one state per key, here an association list in order of insertion; the order in which the hash
  map is read in the end is an argument. Sorted aggregation keeps the state of the current key. Where
  equal keys are adjacent both give the same rows.
\<close>

section \<open>Hash aggregation\<close>

definition keys_eq :: "'d::linorder row \<Rightarrow> 'd row \<Rightarrow> bool" where
  "keys_eq k l \<longleftrightarrow> list_all2 value_eq k l"

text \<open>The keys and arguments of each row of a chunk.\<close>

definition agg_input :: "'d::linorder conv_ops \<Rightarrow> 'd expr \<Rightarrow> 'd expr \<Rightarrow> 'd data_chunk \<Rightarrow> ('d convert_error + ('d row \<times> 'd row) list) option" where
  "agg_input X keys aggs c =
     and_then (eval_list X keys c) (\<lambda>keys_chunk. and_then (eval_list X aggs c) (\<lambda>args_chunk.
       ok (those (map (\<lambda>i. do { k \<leftarrow> row_ref_values keys_chunk i; vs \<leftarrow> row_ref_values args_chunk i; Some (k, vs) })
             [0..<dc_cardinality c]))))"

fun upsert :: "'d::linorder conv_ops \<Rightarrow> 'd expr \<Rightarrow> 'd row \<Rightarrow> 'd row \<Rightarrow> ('d row \<times> 'd agg_state list) list \<Rightarrow> ('d row \<times> 'd agg_state list) list option" where
  "upsert X aggs k vs [] = do { s \<leftarrow> init_agg_states aggs; s' \<leftarrow> agg_list_append X aggs s vs; Some [(k, s')] }"
| "upsert X aggs k vs ((k', s) # sts) =
     (if keys_eq k' k then do { s' \<leftarrow> agg_list_append X aggs s vs; Some ((k', s') # sts) }
      else map_option ((#) (k', s)) (upsert X aggs k vs sts))"

definition agg_row :: "'d row \<times> 'd agg_state list \<Rightarrow> 'd row" where
  "agg_row ks = fst ks @ map agg_result (snd ks)"

function iter_chunks :: "nat \<Rightarrow> 'a list \<Rightarrow> 'a list list" where
  "iter_chunks n xs = (if n = 0 \<or> xs = [] then [] else take n xs # iter_chunks n (drop n xs))"
  by pat_completeness auto
termination by (relation "measure (length \<circ> snd)") auto

declare iter_chunks.simps [simp del]

fun build_batches :: "'d \<Rightarrow> data_type list \<Rightarrow> 'd row list list \<Rightarrow> 'd stream" where
  "build_batches z types [] = ([], Finished)"
| "build_batches z types (rows # batches) =
     (case build_rows z types rows of
        (cs, Finished) \<Rightarrow> emit cs (build_batches z types batches)
      | s \<Rightarrow> s)"

definition hash_agg_execute ::
  "'d::linorder conv_ops \<Rightarrow> (('d row \<times> 'd agg_state list) list \<Rightarrow> ('d row \<times> 'd agg_state list) list)
   \<Rightarrow> 'd expr \<Rightarrow> 'd expr \<Rightarrow> data_type list \<Rightarrow> 'd stream \<Rightarrow> 'd stream" where
  "hash_agg_execute X ord keys aggs types child =
     after (consume (\<lambda>c st. and_then (agg_input X keys aggs c) (\<lambda>kvs. ok (fold_opt (\<lambda>(k, vs). upsert X aggs k vs) kvs st)))
         (fst child) (snd child) [])
       (\<lambda>st. build_batches (co_zero X) types (iter_chunks PROCESSING_WINDOW_SIZE (map agg_row (ord st))))"

section \<open>Sorted aggregation\<close>

record 'd sort_agg_state =
  sa_last_keys :: "'d row option"
  sa_states :: "'d agg_state list"
  sa_builder :: "'d chunk_builder"

definition sort_agg_flush :: "'d conv_ops \<Rightarrow> 'd sort_agg_state \<Rightarrow> ('d data_chunk option \<times> 'd chunk_builder) option" where
  "sort_agg_flush X st =
     (case sa_last_keys st of
        Some ks \<Rightarrow> push_row (co_zero X) (agg_row (ks, sa_states st)) (sa_builder st)
      | None \<Rightarrow> Some (None, sa_builder st))"

definition same_keys :: "'d::linorder row option \<Rightarrow> 'd row \<Rightarrow> bool" where
  "same_keys l k \<longleftrightarrow> (case l of Some l \<Rightarrow> keys_eq l k | None \<Rightarrow> False)"

text \<open>The rows of one chunk: the chunks yielded and the state, or a panic after them.\<close>

fun sort_agg_batch :: "'d::linorder conv_ops \<Rightarrow> 'd expr \<Rightarrow> ('d row \<times> 'd row) list \<Rightarrow> 'd sort_agg_state \<Rightarrow> 'd data_chunk list \<times> 'd sort_agg_state option" where
  "sort_agg_batch X aggs [] st = ([], Some st)"
| "sort_agg_batch X aggs ((k, vs) # kvs) st =
     (if same_keys (sa_last_keys st) k
      then case agg_list_append X aggs (sa_states st) vs of
             None \<Rightarrow> ([], None)
           | Some s \<Rightarrow> sort_agg_batch X aggs kvs (st\<lparr>sa_states := s\<rparr>)
      else case sort_agg_flush X st of
             None \<Rightarrow> ([], None)
           | Some (c, b) \<Rightarrow>
               (case do { s \<leftarrow> init_agg_states aggs; agg_list_append X aggs s vs } of
                  None \<Rightarrow> (yielded c, None)
                | Some s \<Rightarrow>
                    (case sort_agg_batch X aggs kvs \<lparr>sa_last_keys = Some k, sa_states = s, sa_builder = b\<rparr> of
                       (cs, r) \<Rightarrow> (yielded c @ cs, r))))"

definition sort_agg_finish :: "'d conv_ops \<Rightarrow> 'd sort_agg_state \<Rightarrow> 'd stream" where
  "sort_agg_finish X st =
     (case sa_last_keys st of
        None \<Rightarrow> ([], Finished)
      | Some _ \<Rightarrow> run_opt (sort_agg_flush X st) (\<lambda>(c, b).
          case c of
            Some c \<Rightarrow> ([c], Finished)
          | None \<Rightarrow> run_opt (cbl_take b) (\<lambda>(c, _). (yielded c, Finished))))"

fun sort_agg_loop :: "'d::linorder conv_ops \<Rightarrow> 'd expr \<Rightarrow> 'd expr \<Rightarrow> 'd data_chunk list \<Rightarrow> 'd ending \<Rightarrow> 'd sort_agg_state \<Rightarrow> 'd stream" where
  "sort_agg_loop X keys aggs [] e st = (case e of Finished \<Rightarrow> sort_agg_finish X st | _ \<Rightarrow> ([], e))"
| "sort_agg_loop X keys aggs (c # cs) e st =
     run (agg_input X keys aggs c) (\<lambda>kvs.
       case sort_agg_batch X aggs kvs st of
         (out, r) \<Rightarrow> emit out (run_opt r (sort_agg_loop X keys aggs cs e)))"

definition sort_agg_execute :: "'d::linorder conv_ops \<Rightarrow> 'd expr \<Rightarrow> 'd expr \<Rightarrow> data_type list \<Rightarrow> 'd stream \<Rightarrow> 'd stream" where
  "sort_agg_execute X keys aggs types child =
     run_opt (init_agg_states aggs) (\<lambda>states.
       run_opt (cbl_new types PROCESSING_WINDOW_SIZE) (\<lambda>b.
         sort_agg_loop X keys aggs (fst child) (snd child) \<lparr>sa_last_keys = None, sa_states = states, sa_builder = b\<rparr>))"

section \<open>Aggregation without keys, window functions\<close>

definition simple_agg_execute :: "'d::linorder conv_ops \<Rightarrow> 'd expr \<Rightarrow> data_type list \<Rightarrow> 'd stream \<Rightarrow> 'd stream" where
  "simple_agg_execute X aggs types child =
     run_opt (init_agg_states aggs) (\<lambda>states.
       after (consume (\<lambda>c st. eval_agg_list X aggs st c) (fst child) (snd child) states) (\<lambda>st.
         run_opt (cbl_new types 1) (\<lambda>b.
           run_opt (push_row (co_zero X) (map agg_result st) b) (\<lambda>(c, _).
             run_opt c (\<lambda>c. ([c], Finished))))))"

text \<open>Each row of the child is passed to the window functions as it is, column by column.\<close>

fun window_rows :: "'d::linorder conv_ops \<Rightarrow> 'd expr \<Rightarrow> 'd row list \<Rightarrow> 'd agg_state list \<times> 'd chunk_builder \<Rightarrow> ('d agg_state list \<times> 'd chunk_builder) option" where
  "window_rows X exprs [] st = Some st"
| "window_rows X exprs (row # rows) (states, b) = do {
     states \<leftarrow> agg_list_append X exprs states row;
     (_, b) \<leftarrow> push_row (co_zero X) (map agg_result states) b;
     window_rows X exprs rows (states, b) }"

definition window_chunk :: "'d::linorder conv_ops \<Rightarrow> 'd expr \<Rightarrow> data_type list \<Rightarrow> 'd data_chunk \<Rightarrow> 'd agg_state list \<Rightarrow> ('d data_chunk \<times> 'd agg_state list) option" where
  "window_chunk X exprs types c states = do {
     b \<leftarrow> cbl_new types (dc_cardinality c + 1);
     rows \<leftarrow> dc_rows c;
     (states, b) \<leftarrow> window_rows X exprs rows (states, b);
     (w, _) \<leftarrow> cbl_take b;
     w \<leftarrow> w;
     out \<leftarrow> row_concat c w;
     Some (out, states) }"

fun window_loop :: "'d::linorder conv_ops \<Rightarrow> 'd expr \<Rightarrow> data_type list \<Rightarrow> 'd data_chunk list \<Rightarrow> 'd ending \<Rightarrow> 'd agg_state list \<Rightarrow> 'd stream" where
  "window_loop X exprs types [] e states = ([], e)"
| "window_loop X exprs types (c # cs) e states =
     run_opt (window_chunk X exprs types c states) (\<lambda>(out, states). emit [out] (window_loop X exprs types cs e states))"

definition window_execute :: "'d::linorder conv_ops \<Rightarrow> 'd expr \<Rightarrow> data_type list \<Rightarrow> 'd stream \<Rightarrow> 'd stream" where
  "window_execute X exprs types child =
     run_opt (init_agg_states exprs) (window_loop X exprs types (fst child) (snd child))"

end
