(* ===== verification/Agg_Laws.thy ===== *)
theory Agg_Laws
  imports Aggregates
begin

text \<open>
  Hash aggregation and sorted aggregation agree where equal keys are adjacent. The reference splits the
  rows into runs of equal keys and folds each run; both executors are shown to yield one row per run,
  or to panic where a fold or the chunk builder does.
\<close>

section \<open>Runs of equal keys\<close>

lemma value_eq_iff: "value_eq u v \<longleftrightarrow> value_le u v \<and> value_le v u"
  by (auto simp: value_eq_def value_cmp_eq)

lemma value_eq_equiv: "value_eq u u" "value_eq u v \<Longrightarrow> value_eq v u" "value_eq u v \<Longrightarrow> value_eq v w \<Longrightarrow> value_eq u w"
  using value_le_total [of u u] value_le_trans by (auto simp: value_eq_iff)

lemma keys_eq_equiv: "keys_eq k k" "keys_eq k l \<Longrightarrow> keys_eq l k" "keys_eq k l \<Longrightarrow> keys_eq l m \<Longrightarrow> keys_eq k m"
  using list_all2_trans [of value_eq value_eq value_eq k l m, OF value_eq_equiv(3)]
  by (auto simp: keys_eq_def list_all2_conv_all_nth intro: value_eq_equiv(1,2))

abbreviation same_run :: "'d::linorder row \<Rightarrow> ('d row \<times> 'd row) list \<Rightarrow> ('d row \<times> 'd row) list" where
  "same_run k kvs \<equiv> takeWhile (\<lambda>kv. keys_eq k (fst kv)) kvs"

abbreviation next_runs :: "'d::linorder row \<Rightarrow> ('d row \<times> 'd row) list \<Rightarrow> ('d row \<times> 'd row) list" where
  "next_runs k kvs \<equiv> dropWhile (\<lambda>kv. keys_eq k (fst kv)) kvs"

function runs :: "('d::linorder row \<times> 'd row) list \<Rightarrow> ('d row \<times> 'd row list) list" where
  "runs [] = []"
| "runs ((k, vs) # kvs) = (k, vs # map snd (same_run k kvs)) # runs (next_runs k kvs)"
  by pat_completeness auto
termination by (relation "measure length") (auto simp: le_imp_less_Suc length_dropWhile_le)

function adjacent :: "('d::linorder row \<times> 'd row) list \<Rightarrow> bool" where
  "adjacent [] = True"
| "adjacent ((k, vs) # kvs) = ((\<forall>kv\<in>set (next_runs k kvs). \<not> keys_eq k (fst kv)) \<and> adjacent (next_runs k kvs))"
  by pat_completeness auto
termination by (relation "measure length") (auto simp: le_imp_less_Suc length_dropWhile_le)

definition fold_states :: "'d::linorder conv_ops \<Rightarrow> 'd expr \<Rightarrow> 'd row list \<Rightarrow> 'd agg_state list \<Rightarrow> 'd agg_state list option" where
  "fold_states X aggs vss s = fold_opt (\<lambda>vs s. agg_list_append X aggs s vs) vss s"

definition run_state :: "'d::linorder conv_ops \<Rightarrow> 'd expr \<Rightarrow> 'd row \<times> 'd row list \<Rightarrow> ('d row \<times> 'd agg_state list) option" where
  "run_state X aggs r = do { s \<leftarrow> init_agg_states aggs; s \<leftarrow> fold_states X aggs (snd r) s; Some (fst r, s) }"

section \<open>Hash aggregation\<close>

lemma upsert_new:
  "\<forall>p\<in>set st. \<not> keys_eq (fst p) k \<Longrightarrow>
   upsert X aggs k vs st = do { s \<leftarrow> init_agg_states aggs; s' \<leftarrow> agg_list_append X aggs s vs; Some (st @ [(k, s')]) }"
  by (induction st) (auto split: Option.bind_splits)

lemma upsert_last:
  "\<forall>p\<in>set st. \<not> keys_eq (fst p) k \<Longrightarrow> keys_eq l k \<Longrightarrow>
   upsert X aggs k vs (st @ [(l, s)]) = do { s' \<leftarrow> agg_list_append X aggs s vs; Some (st @ [(l, s')]) }"
  by (induction st) (auto split: Option.bind_splits)

lemma fold_same_run:
  assumes "\<forall>p\<in>set st. \<not> keys_eq (fst p) k" and "\<forall>kv\<in>set kvs. keys_eq k (fst kv)"
  shows "fold_opt (\<lambda>(k, vs). upsert X aggs k vs) kvs (st @ [(k, s)]) = map_option (\<lambda>s. st @ [(k, s)]) (fold_states X aggs (map snd kvs) s)"
  using assms(2)
proof (induction kvs arbitrary: s)
  case (Cons kv kvs)
  obtain l vs where kv: "kv = (l, vs)" by (cases kv)
  have "\<forall>p\<in>set st. \<not> keys_eq (fst p) l" using assms(1) Cons.prems keys_eq_equiv kv by (metis fst_conv list.set_intros(1))
  with Cons kv show ?case by (auto simp: upsert_last fold_states_def split: Option.bind_splits)
qed (simp add: fold_states_def)

lemma hash_runs:
  assumes "adjacent kvs" and "\<forall>kv\<in>set kvs. \<forall>p\<in>set st. \<not> keys_eq (fst p) (fst kv)"
  shows "fold_opt (\<lambda>(k, vs). upsert X aggs k vs) kvs st = map_option ((@) st) (those (map (run_state X aggs) (runs kvs)))"
  using assms
proof (induction kvs arbitrary: st rule: runs.induct)
  case (2 k vs kvs)
  let ?same = "same_run k kvs" and ?next = "next_runs k kvs"
  let ?f = "\<lambda>(k, vs). upsert X aggs k vs"
  have st: "\<forall>p\<in>set st. \<not> keys_eq (fst p) k" using "2.prems"(2) by simp
  have same: "\<forall>kv\<in>set ?same. keys_eq k (fst kv)" by (auto dest: set_takeWhileD)
  have run: "fold_opt ?f ((k, vs) # ?same) st = map_option (\<lambda>p. st @ [p]) (run_state X aggs (k, vs # map snd ?same))"
  proof (cases "do { s \<leftarrow> init_agg_states aggs; agg_list_append X aggs s vs }")
    case None
    then show ?thesis by (cases "init_agg_states aggs") (simp_all add: upsert_new [OF st] run_state_def fold_states_def)
  next
    case (Some s)
    then obtain s0 where "init_agg_states aggs = Some s0" "agg_list_append X aggs s0 vs = Some s" by (cases "init_agg_states aggs") auto
    then show ?thesis using fold_same_run [OF st same, of X aggs s]
      by (cases "fold_states X aggs (map snd ?same) s") (simp_all add: upsert_new [OF st] run_state_def fold_states_def)
  qed
  have split: "(k, vs) # kvs = ((k, vs) # ?same) @ ?next" by simp
  have adj: "\<forall>kv\<in>set ?next. \<not> keys_eq k (fst kv)" and next1: "adjacent ?next" using "2.prems"(1) [unfolded adjacent.simps] by blast+
  have next2: "\<forall>kv\<in>set ?next. \<forall>p\<in>set (st @ [q]). \<not> keys_eq (fst p) (fst kv)" if "fst q = k" for q :: "'a row \<times> 'a agg_state list"
  proof (intro ballI)
    fix kv p assume kv: "kv \<in> set ?next" and "p \<in> set (st @ [q])"
    then consider "p \<in> set st" | "p = q" by auto
    then show "\<not> keys_eq (fst p) (fst kv)"
    proof cases
      case 1
      moreover have "kv \<in> set ((k, vs) # kvs)" using set_dropWhileD [OF kv] by simp
      ultimately show ?thesis using "2.prems"(2) by blast
    next
      case 2
      then show ?thesis using adj kv that by blast
    qed
  qed
  show ?case
  proof (cases "run_state X aggs (k, vs # map snd ?same)")
    case None
    then have "fold_opt ?f ((k, vs) # ?same) st = None" using run by simp
    then show ?thesis unfolding split fold_opt_append using None by simp
  next
    case (Some q)
    then have "fst q = k" by (auto simp: run_state_def split: Option.bind_splits)
    have "fold_opt ?f ((k, vs) # ?same) st = Some (st @ [q])" using run Some by simp
    then have "fold_opt ?f ((k, vs) # kvs) st = fold_opt ?f ?next (st @ [q])" unfolding split fold_opt_append by (simp only: bind.bind_lunit)
    also have "\<dots> = map_option ((@) (st @ [q])) (those (map (run_state X aggs) (runs ?next)))"
      using "2.IH" [OF next1 next2] \<open>fst q = k\<close> by blast
    also have "(@) (st @ [q]) = (\<lambda>x. st @ q # x)" by auto
    finally show ?thesis using Some by (simp only: runs.simps list.map those.simps option.case option.map_comp comp_def append_assoc append_Cons append_Nil)
  qed
qed simp

section \<open>The builder\<close>

text \<open>Pushing rows of which some are missing because computing them panics.\<close>

fun build_opts :: "'d \<Rightarrow> 'd row option list \<Rightarrow> 'd chunk_builder \<Rightarrow> 'd stream" where
  "build_opts z [] b = run_opt (cbl_take b) (\<lambda>(c, _). (yielded c, Finished))"
| "build_opts z (None # rs) b = ([], Panicked)"
| "build_opts z (Some row # rs) b = run_opt (push_row z row b) (\<lambda>(c, b'). emit (yielded c) (build_opts z rs b'))"

lemma build_opts_Some: "build_opts z (map Some rows) b = build_stream z rows b"
  by (induction rows arbitrary: b) simp_all

lemma push_values_mismatch:
  "builders_ok types n bs \<Longrightarrow> length row = length types \<Longrightarrow> \<not> row_fits types row \<Longrightarrow> push_values z bs row = None"
proof (induction bs row arbitrary: types rule: push_values.induct)
  case (1 z b bs v vs)
  then obtain ty tys where ty: "types = ty # tys" "type_variant ty = Some (ai_type b)" "builders_ok tys n bs" "length vs = length tys"
    by (auto simp: builders_ok_def list_all2_Cons2)
  show ?case
  proof (cases "value_fits ty v")
    case True
    then have "\<not> row_fits tys vs" using "1.prems"(3) ty(1) by (simp add: row_fits_def)
    with "1.IH" ty(3,4) show ?thesis by (auto split: Option.bind_splits)
  next
    case False
    then have "v \<noteq> VNull" "variant_index v \<noteq> ai_type b" using ty(2) by (auto simp: value_fits_def)
    then show ?thesis by (simp add: ai_push_mismatch)
  qed
qed (auto simp: builders_ok_def row_fits_def)

lemma push_row_spec:
  assumes "builders_ok types (cbl_size b) (cbl_builders b)" and "types \<noteq> []" and "cbl_size b < cbl_capacity b" and "row_fits types row"
  shows "\<exists>c b'. push_row z row b = Some (c, b') \<and> builders_ok types (cbl_size b') (cbl_builders b') \<and> cbl_size b' < cbl_capacity b'"
proof -
  obtain bs where bs: "push_values z (cbl_builders b) row = Some bs" "builders_ok types (Suc (cbl_size b)) bs"
    using push_values_spec [OF assms(1,4)] by blast
  let ?b = "b\<lparr>cbl_builders := bs, cbl_size := Suc (cbl_size b)\<rparr>"
  show ?thesis
  proof (cases "Suc (cbl_size b) = cbl_capacity b")
    case True
    have ok: "builders_ok types (cbl_size ?b) (cbl_builders ?b)" using bs(2) by simp
    from cbl_take_spec [OF ok assms(2)] obtain b' c where "cbl_take ?b = Some (c, b')" "builders_ok types 0 (cbl_builders b')" "cbl_size b' = 0"
      "cbl_capacity b' = cbl_capacity b" by auto
    with True assms(3) bs(1) show ?thesis by (simp add: push_row_def)
  next
    case False
    with bs assms(3) show ?thesis by (simp add: push_row_def)
  qed
qed

lemma push_row_mismatch:
  "builders_ok types (cbl_size b) (cbl_builders b) \<Longrightarrow> length row = length types \<Longrightarrow> \<not> row_fits types row \<Longrightarrow> push_row z row b = None"
  by (simp add: push_row_def push_values_mismatch)

lemma push_row_full: "push_row z row b = Some (Some c, b') \<Longrightarrow> cbl_size b' = 0"
  by (auto simp: push_row_def cbl_take_def Let_def split: Option.bind_splits if_splits)

definition all_fit :: "data_type list \<Rightarrow> 'd row option list \<Rightarrow> bool" where
  "all_fit types rs \<longleftrightarrow> (\<forall>r\<in>set rs. \<exists>row. r = Some row \<and> row_fits types row)"

lemma build_opts_panic:
  assumes "builders_ok types (cbl_size b) (cbl_builders b)" and "types \<noteq> []" and "cbl_size b < cbl_capacity b"
    and "\<forall>row. Some row \<in> set rs \<longrightarrow> length row = length types" and "\<not> all_fit types rs"
  shows "snd (build_opts z rs b) = Panicked"
  using assms
proof (induction rs arbitrary: b)
  case (Cons r rs)
  show ?case
  proof (cases r)
    case (Some row)
    show ?thesis
    proof (cases "row_fits types row")
      case True
      from push_row_spec [OF Cons.prems(1-3) True, of z] obtain c b' where b': "push_row z row b = Some (c, b')"
        "builders_ok types (cbl_size b') (cbl_builders b')" "cbl_size b' < cbl_capacity b'" by blast
      have "\<not> all_fit types rs" using Cons.prems(5) Some True by (auto simp: all_fit_def)
      with Cons.IH [OF b'(2) Cons.prems(2) b'(3)] Cons.prems(4) b'(1) Some show ?thesis by simp
    next
      case False
      with push_row_mismatch [OF Cons.prems(1)] Cons.prems(4) Some show ?thesis by simp
    qed
  qed simp
qed (simp add: all_fit_def)

lemma build_opts_ok:
  assumes "builders_ok types (cbl_size b) (cbl_builders b)" and "types \<noteq> []" and "cbl_size b < cbl_capacity b" and "all_fit types rs"
  shows "\<exists>cs. build_opts z rs b = (cs, Finished) \<and> rows_in cs = rows_of (cbl_size b) (map ai_items (cbl_builders b)) @ map the rs"
proof -
  have "rs = map Some (map the rs)" using assms(4) by (auto simp: all_fit_def intro!: map_idI [symmetric])
  moreover have "\<forall>row\<in>set (map the rs). row_fits types row" using assms(4) by (auto simp: all_fit_def)
  from build_loop_spec [OF assms(1-3) this, of z] obtain cs where "build_loop z (map the rs) b = Some cs"
    "rows_in cs = rows_of (cbl_size b) (map ai_items (cbl_builders b)) @ map the rs" by blast
  ultimately show ?thesis using build_opts_Some [of z "map the rs" b] build_stream_loop by metis
qed

lemma cbl_new_ok:
  assumes "\<forall>ty\<in>set types. type_variant ty \<noteq> None"
  shows "\<exists>b :: 'd chunk_builder. cbl_new types PROCESSING_WINDOW_SIZE = Some b \<and> builders_ok types (cbl_size b) (cbl_builders b) \<and> cbl_size b = 0 \<and> cbl_size b < cbl_capacity b"
proof -
  let ?P = "\<lambda>ty b. ai_with_capacity ty = Some b \<and> type_variant ty = Some (ai_type b) \<and> ai_wf b \<and> ai_len b = 0"
  have "\<forall>ty\<in>set types. \<exists>b :: 'd array_impl. ?P ty b" using assms with_capacity_ok by blast
  then obtain g where g: "\<forall>ty\<in>set types. ?P ty (g ty :: 'd array_impl)" by metis
  then have "those (map ai_with_capacity types) = Some (map g types)" by (intro those_map_Some) simp
  with g show ?thesis by (simp add: cbl_new_def rust_assert_def PROCESSING_WINDOW_SIZE_def builders_ok_def list_all2_conv_all_nth)
qed

lemma build_rows_outcome:
  assumes "types \<noteq> []" and "\<forall>ty\<in>set types. type_variant ty \<noteq> None" and "\<forall>row\<in>set rows. length row = length types"
  shows "if \<forall>row\<in>set rows. row_fits types row then \<exists>cs. build_rows z types rows = (cs, Finished) \<and> rows_in cs = rows
    else snd (build_rows z types rows) = Panicked"
proof -
  from cbl_new_ok [OF assms(2), where 'd = 'a] obtain b :: "'a chunk_builder" where b: "cbl_new types PROCESSING_WINDOW_SIZE = Some b"
    "builders_ok types (cbl_size b) (cbl_builders b)" "cbl_size b = 0" "cbl_size b < cbl_capacity b" by blast
  then have eq: "build_rows z types rows = build_opts z (map Some rows) b" by (simp add: build_rows_def build_opts_Some)
  have fit: "all_fit types (map Some rows) \<longleftrightarrow> (\<forall>row\<in>set rows. row_fits types row)" by (auto simp: all_fit_def)
  show ?thesis unfolding eq
    using build_opts_ok [OF b(2) assms(1) b(4), of "map Some rows" z] build_opts_panic [OF b(2) assms(1) b(4), of "map Some rows" z] assms(3) b(3)
    by (auto simp: fit comp_def)
qed

lemma build_batches_outcome:
  assumes "types \<noteq> []" and "\<forall>ty\<in>set types. type_variant ty \<noteq> None" and "\<forall>rows\<in>set batches. \<forall>row\<in>set rows. length row = length types"
  shows "if \<forall>rows\<in>set batches. \<forall>row\<in>set rows. row_fits types row
    then \<exists>cs. build_batches z types batches = (cs, Finished) \<and> rows_in cs = concat batches
    else snd (build_batches z types batches) = Panicked"
  using assms(3)
proof (induction batches)
  case (Cons rows batches)
  have rows: "\<forall>row\<in>set rows. length row = length types" using Cons.prems by simp
  show ?case
  proof (cases "\<forall>row\<in>set rows. row_fits types row")
    case True
    with build_rows_outcome [OF assms(1,2) rows, of z] obtain cs where "build_rows z types rows = (cs, Finished)" "rows_in cs = rows" by auto
    with Cons True show ?thesis by (auto split: if_splits)
  next
    case False
    with build_rows_outcome [OF assms(1,2) rows, of z] have "snd (build_rows z types rows) = Panicked" by simp
    then obtain cs where "build_rows z types rows = (cs, Panicked)" by (cases "build_rows z types rows") simp
    with False show ?thesis by auto
  qed
qed simp

lemma concat_iter_chunks: "0 < n \<Longrightarrow> concat (iter_chunks n xs) = xs"
proof (induction n xs rule: iter_chunks.induct)
  case (1 n xs)
  then show ?case by (subst iter_chunks.simps) auto
qed

section \<open>Sorted aggregation\<close>

definition sort_agg_rows :: "'d::linorder conv_ops \<Rightarrow> 'd expr \<Rightarrow> ('d row \<times> 'd row) list \<Rightarrow> 'd sort_agg_state \<Rightarrow> 'd stream" where
  "sort_agg_rows X aggs kvs st = (case sort_agg_batch X aggs kvs st of (out, r) \<Rightarrow> emit out (run_opt r (sort_agg_finish X)))"

text \<open>The rows that the runs after the current one yield.\<close>

definition run_rows :: "'d::linorder conv_ops \<Rightarrow> 'd expr \<Rightarrow> ('d row \<times> 'd row) list \<Rightarrow> 'd row option list" where
  "run_rows X aggs kvs = map (map_option agg_row \<circ> run_state X aggs) (runs kvs)"

lemma emit_emit: "emit xs (emit ys s) = emit (xs @ ys) s" and emit_Nil [simp]: "emit [] s = s"
  by (simp_all add: emit_def)

lemma sort_agg_rows_same:
  assumes "sa_last_keys st = Some l" and "keys_eq l k"
  shows "sort_agg_rows X aggs ((k, vs) # kvs) st =
    run_opt (agg_list_append X aggs (sa_states st) vs) (\<lambda>s. sort_agg_rows X aggs kvs (st\<lparr>sa_states := s\<rparr>))"
  using assms by (cases "agg_list_append X aggs (sa_states st) vs") (simp_all add: sort_agg_rows_def same_keys_def)

lemma sort_agg_rows_new:
  assumes "\<not> same_keys (sa_last_keys st) k"
  shows "sort_agg_rows X aggs ((k, vs) # kvs) st =
    run_opt (sort_agg_flush X st) (\<lambda>(c, b). emit (yielded c)
      (run_opt (do { s \<leftarrow> init_agg_states aggs; agg_list_append X aggs s vs })
        (\<lambda>s. sort_agg_rows X aggs kvs \<lparr>sa_last_keys = Some k, sa_states = s, sa_builder = b\<rparr>)))"
  using assms by (auto simp: sort_agg_rows_def emit_emit split: option.split prod.split)

lemma sort_agg_runs:
  "sa_last_keys st = Some l \<Longrightarrow>
   sort_agg_rows X aggs kvs st =
     build_opts (co_zero X) (map_option (\<lambda>s. agg_row (l, s)) (fold_states X aggs (map snd (same_run l kvs)) (sa_states st))
       # run_rows X aggs (next_runs l kvs)) (sa_builder st)"
proof (induction kvs arbitrary: st l)
  case Nil
  let ?push = "push_row (co_zero X) (agg_row (l, sa_states st)) (sa_builder st)"
  show ?case
  proof (cases ?push)
    case (Some cb)
    obtain c b where cb: "cb = (c, b)" by (cases cb)
    with Some Nil show ?thesis
      using push_row_full [of "co_zero X" "agg_row (l, sa_states st)" "sa_builder st" _ b]
      by (cases c) (simp_all add: sort_agg_rows_def sort_agg_finish_def sort_agg_flush_def fold_states_def run_rows_def yielded_def cbl_take_def)
  qed (use Nil in \<open>simp add: sort_agg_rows_def sort_agg_finish_def sort_agg_flush_def fold_states_def run_rows_def\<close>)
next
  case (Cons kv kvs)
  obtain k vs where kv: "kv = (k, vs)" by (cases kv)
  show ?case
  proof (cases "keys_eq l k")
    case True
    show ?thesis
      using Cons.IH [of "st\<lparr>sa_states := _\<rparr>" l] Cons.prems True
      by (cases "agg_list_append X aggs (sa_states st) vs") (simp_all add: kv sort_agg_rows_same fold_states_def)
  next
    case False
    then have new: "\<not> same_keys (sa_last_keys st) k" using Cons.prems by (simp add: same_keys_def)
    let ?push = "push_row (co_zero X) (agg_row (l, sa_states st)) (sa_builder st)"
    have head: "run_rows X aggs ((k, vs) # kvs) = map_option (\<lambda>s. agg_row (k, s)) (do { s \<leftarrow> init_agg_states aggs; s \<leftarrow> agg_list_append X aggs s vs;
        fold_states X aggs (map snd (same_run k kvs)) s }) # run_rows X aggs (next_runs k kvs)"
      by (simp add: run_rows_def run_state_def fold_states_def map_option_bind bind_map_option comp_def) (simp add: map_conv_bind_option comp_def)
    have IH: "sort_agg_rows X aggs kvs \<lparr>sa_last_keys = Some k, sa_states = s, sa_builder = b\<rparr> =
        build_opts (co_zero X) (map_option (\<lambda>s. agg_row (k, s)) (fold_states X aggs (map snd (same_run k kvs)) s) # run_rows X aggs (next_runs k kvs)) b" for s b
      using Cons.IH [of "\<lparr>sa_last_keys = Some k, sa_states = s, sa_builder = b\<rparr>" k] by simp
    have tail: "run_opt (do { s \<leftarrow> init_agg_states aggs; agg_list_append X aggs s vs })
        (\<lambda>s. sort_agg_rows X aggs kvs \<lparr>sa_last_keys = Some k, sa_states = s, sa_builder = b\<rparr>) = build_opts (co_zero X) (run_rows X aggs ((k, vs) # kvs)) b" for b
      unfolding head by (cases "do { s \<leftarrow> init_agg_states aggs; agg_list_append X aggs s vs }")
        (auto simp: IH split: Option.bind_splits)
    show ?thesis
      using False Cons.prems by (cases ?push) (simp_all add: kv sort_agg_rows_new [OF new] sort_agg_flush_def tail fold_states_def case_prod_beta)
  qed
qed

lemma sort_agg_first:
  assumes "sa_last_keys st = None" and "cbl_size (sa_builder st) = 0"
  shows "sort_agg_rows X aggs kvs st = build_opts (co_zero X) (run_rows X aggs kvs) (sa_builder st)"
proof (cases kvs)
  case Nil
  with assms show ?thesis by (simp add: sort_agg_rows_def sort_agg_finish_def run_rows_def cbl_take_def yielded_def)
next
  case (Cons kv kvs')
  obtain k vs where kv: "kv = (k, vs)" by (cases kv)
  have new: "\<not> same_keys (sa_last_keys st) k" using assms by (simp add: same_keys_def)
  show ?thesis unfolding Cons kv sort_agg_rows_new [OF new]
    using assms(1) sort_agg_runs [of "\<lparr>sa_last_keys = Some k, sa_states = _, sa_builder = sa_builder st\<rparr>" k X aggs kvs']
    by (cases "init_agg_states aggs"; cases "agg_list_append X aggs (the (init_agg_states aggs)) vs")
      (simp_all add: sort_agg_flush_def yielded_def run_rows_def run_state_def fold_states_def map_option_bind comp_def map_conv_bind_option)
qed

section \<open>Both agree\<close>

fun agg_inputs :: "'d::linorder conv_ops \<Rightarrow> 'd expr \<Rightarrow> 'd expr \<Rightarrow> 'd data_chunk list \<Rightarrow> ('d row \<times> 'd row) list option" where
  "agg_inputs X keys aggs [] = Some []"
| "agg_inputs X keys aggs (c # cs) =
     (case agg_input X keys aggs c of Some (Inr kvs) \<Rightarrow> map_option ((@) kvs) (agg_inputs X keys aggs cs) | _ \<Rightarrow> None)"

lemma agg_inputs_Cons:
  assumes "agg_inputs X keys aggs (c # cs) = Some kvs"
  obtains kvs1 kvs2 where "agg_input X keys aggs c = Some (Inr kvs1)" "agg_inputs X keys aggs cs = Some kvs2" "kvs = kvs1 @ kvs2"
  using assms by (auto split: option.splits sum.splits)

lemma hash_consume:
  "agg_inputs X keys aggs cs = Some kvs \<Longrightarrow>
   consume (\<lambda>c st. and_then (agg_input X keys aggs c) (\<lambda>kvs. ok (fold_opt (\<lambda>(k, vs). upsert X aggs k vs) kvs st))) cs Finished st
   = (case fold_opt (\<lambda>(k, vs). upsert X aggs k vs) kvs st of None \<Rightarrow> Inl Panicked | Some st' \<Rightarrow> Inr st')"
proof (induction cs arbitrary: kvs st)
  case (Cons c cs)
  from Cons.prems obtain kvs1 kvs2 where k: "agg_input X keys aggs c = Some (Inr kvs1)" "agg_inputs X keys aggs cs = Some kvs2" "kvs = kvs1 @ kvs2"
    by (rule agg_inputs_Cons)
  show ?case using Cons.IH [OF k(2)] k(1)
    by (cases "fold_opt (\<lambda>(k, vs). upsert X aggs k vs) kvs1 st") (simp_all add: k(3) fold_opt_append)
qed (simp add: consume_end_def)

lemma sort_batch_append:
  "sort_agg_batch X aggs (xs @ ys) st =
     (case sort_agg_batch X aggs xs st of
        (out, None) \<Rightarrow> (out, None)
      | (out, Some st') \<Rightarrow> (case sort_agg_batch X aggs ys st' of (out', r) \<Rightarrow> (out @ out', r)))"
proof (induction xs arbitrary: st)
  case (Cons kv xs)
  obtain k vs where "kv = (k, vs)" by (cases kv)
  with Cons show ?case by (auto split: option.split prod.split)
qed (simp split: prod.split)

lemma sort_loop:
  "agg_inputs X keys aggs cs = Some kvs \<Longrightarrow> sort_agg_loop X keys aggs cs Finished st = sort_agg_rows X aggs kvs st"
proof (induction cs arbitrary: kvs st)
  case (Cons c cs)
  from Cons.prems obtain kvs1 kvs2 where k: "agg_input X keys aggs c = Some (Inr kvs1)" "agg_inputs X keys aggs cs = Some kvs2" "kvs = kvs1 @ kvs2"
    by (rule agg_inputs_Cons)
  obtain out r where b: "sort_agg_batch X aggs kvs1 st = (out, r)" by (cases "sort_agg_batch X aggs kvs1 st")
  show ?case
  proof (cases r)
    case None
    with b k show ?thesis by (simp add: sort_agg_rows_def sort_batch_append)
  next
    case (Some st')
    with b k Cons.IH [OF k(2), of st'] show ?thesis
      by (simp add: sort_agg_rows_def sort_batch_append emit_emit split: prod.split)
  qed
qed (simp add: sort_agg_rows_def)

lemma length_agg_append_each: "agg_append_each X ss es vs = Some ss' \<Longrightarrow> length ss' = length ss"
  by (induction X ss es vs arbitrary: ss' rule: agg_append_each.induct) (auto split: Option.bind_splits)

lemma length_fold_states: "fold_states X aggs vss s = Some s' \<Longrightarrow> length s' = length s"
proof (induction vss arbitrary: s)
  case (Cons vs vss)
  then obtain s1 where "agg_list_append X aggs s vs = Some s1" "fold_states X aggs vss s1 = Some s'"
    by (auto simp: fold_states_def split: Option.bind_splits)
  with Cons.IH [of s1] show ?case using length_agg_append_each by (auto simp: agg_list_append_def split: Option.bind_splits)
qed (simp add: fold_states_def)

lemma length_eval_each: "eval_each X es c = Some (Inr as) \<Longrightarrow> length as = length es"
  by (induction es arbitrary: as) (auto simp: and_then_eq_Inr)

lemma chunk_of_arrays_arrays: "chunk_of_arrays as = Some d \<Longrightarrow> dc_arrays d = as"
  by (auto simp: chunk_of_arrays_def Let_def split: Option.bind_splits)

lemma eval_list_width: "eval_list X (EList es) c = Some (Inr d) \<Longrightarrow> row_ref_values d i = Some row \<Longrightarrow> length row = length es"
proof -
  assume d: "eval_list X (EList es) c = Some (Inr d)" and row: "row_ref_values d i = Some row"
  have "length (dc_arrays d) = length es"
  proof (cases es)
    case (Cons e es')
    with d obtain as where "eval_each X es c = Some (Inr as)" "chunk_of_arrays as = Some d"
      by (auto simp: eval_list_def and_then_eq_Inr ok_def simp del: eval_each.simps)
    then show ?thesis using length_eval_each chunk_of_arrays_arrays by metis
  qed (use d in \<open>auto simp: eval_list_def chunk_no_column_def\<close>)
  moreover have "length row = length (dc_arrays d)"
    using row by (auto simp: row_ref_values_def those_eq_Some dest!: map_eq_imp_length_eq split: Option.bind_splits)
  ultimately show ?thesis by simp
qed

lemma agg_input_width:
  assumes "agg_input X (EList ks) aggs c = Some (Inr kvs)" and "kv \<in> set kvs"
  shows "length (fst kv) = length ks"
proof -
  from assms(1) obtain d a where d: "eval_list X (EList ks) c = Some (Inr d)" and
    m: "those (map (\<lambda>i. do { k \<leftarrow> row_ref_values d i; vs \<leftarrow> row_ref_values a i; Some (k, vs) }) [0..<dc_cardinality c]) = Some kvs"
    by (auto simp: agg_input_def and_then_eq_Inr ok_def)
  from m have "Some kv \<in> set (map (\<lambda>i. do { k \<leftarrow> row_ref_values d i; vs \<leftarrow> row_ref_values a i; Some (k, vs) }) [0..<dc_cardinality c])"
    using assms(2) by (simp only: those_eq_Some set_map) blast
  then obtain i where "row_ref_values d i = Some (fst kv)" by (auto split: Option.bind_splits)
  with d show ?thesis by (rule eval_list_width)
qed

lemma agg_inputs_width: "agg_inputs X (EList ks) aggs cs = Some kvs \<Longrightarrow> kv \<in> set kvs \<Longrightarrow> length (fst kv) = length ks"
proof (induction cs arbitrary: kvs)
  case (Cons c cs)
  from Cons.prems(1) obtain kvs1 kvs2 where k: "agg_input X (EList ks) aggs c = Some (Inr kvs1)" "agg_inputs X (EList ks) aggs cs = Some kvs2" "kvs = kvs1 @ kvs2"
    by (rule agg_inputs_Cons)
  from Cons.prems(2) k(3) consider "kv \<in> set kvs1" | "kv \<in> set kvs2" by auto
  then show ?case using Cons.IH [OF k(2)] agg_input_width [OF k(1)] by cases blast+
qed simp

lemma runs_keys: "r \<in> set (runs kvs) \<Longrightarrow> fst r \<in> fst ` set kvs"
proof (induction kvs rule: runs.induct)
  case (2 k vs kvs)
  have "set (next_runs k kvs) \<subseteq> set kvs" by (auto dest: set_dropWhileD)
  then have "fst ` set (next_runs k kvs) \<subseteq> fst ` set kvs" by (rule image_mono)
  with 2 show ?case by auto
qed simp

lemma run_row_width:
  assumes "agg_inputs X (EList ks) (EList as) cs = Some kvs" and "Some row \<in> set (run_rows X (EList as) kvs)"
  shows "length row = length ks + length as"
proof -
  from assms(2) obtain r s0 s where r: "r \<in> set (runs kvs)" "init_agg_states (EList as) = Some s0" "fold_states X (EList as) (snd r) s0 = Some s"
    "row = agg_row (fst r, s)" by (auto simp: run_rows_def run_state_def split: Option.bind_splits)
  from runs_keys [OF r(1)] agg_inputs_width [OF assms(1)] have "length (fst r) = length ks" by auto
  moreover have "length s0 = length as" using r(2) by (auto simp: init_agg_states_def those_eq_Some dest!: map_eq_imp_length_eq)
  ultimately show ?thesis using r(4) length_fold_states [OF r(3)] by (simp add: agg_row_def)
qed

lemma hash_agg_rows:
  assumes "agg_inputs X (EList ks) (EList as) cs = Some kvs" and "adjacent kvs" and "\<And>st. mset (ord st) = mset st"
    and types: "types \<noteq> []" "\<forall>ty\<in>set types. type_variant ty \<noteq> None" "length types = length ks + length as"
  shows "if all_fit types (run_rows X (EList as) kvs)
    then \<exists>ds. hash_agg_execute X ord (EList ks) (EList as) types (cs, Finished) = (ds, Finished) \<and> mset (rows_in ds) = mset (map the (run_rows X (EList as) kvs))
    else snd (hash_agg_execute X ord (EList ks) (EList as) types (cs, Finished)) = Panicked"
proof -
  let ?aggs = "EList as" and ?sts = "map (run_state X (EList as)) (runs kvs)"
  have fold: "fold_opt (\<lambda>(k, vs). upsert X ?aggs k vs) kvs [] = those ?sts"
    using hash_runs [OF assms(2), of "[]" X ?aggs] by (cases "those ?sts") simp_all
  show ?thesis
  proof (cases "those ?sts")
    case None
    then have "hash_agg_execute X ord (EList ks) ?aggs types (cs, Finished) = ([], Panicked)"
      by (simp add: hash_agg_execute_def hash_consume [OF assms(1)] fold)
    moreover have "\<not> all_fit types (run_rows X ?aggs kvs)"
    proof
      assume "all_fit types (run_rows X ?aggs kvs)"
      then have "\<forall>r\<in>set (runs kvs). run_state X ?aggs r \<noteq> None" by (auto simp: all_fit_def run_rows_def)
      then have "those ?sts = Some (map (the \<circ> run_state X ?aggs) (runs kvs))" by (intro those_map_Some) auto
      with None show False by simp
    qed
    ultimately show ?thesis by simp
  next
    case (Some sts)
    then have sts: "?sts = map Some sts" by (simp add: those_eq_Some)
    have rows: "run_rows X ?aggs kvs = map Some (map agg_row sts)"
      unfolding run_rows_def map_map [symmetric] sts by simp
    have perm: "mset (map agg_row (ord sts)) = mset (map agg_row sts)" using assms(3) [of sts] by simp
    let ?batches = "iter_chunks PROCESSING_WINDOW_SIZE (map agg_row (ord sts))"
    have concat: "concat ?batches = map agg_row (ord sts)" by (rule concat_iter_chunks) (simp add: PROCESSING_WINDOW_SIZE_def)
    have elems: "(\<forall>rows\<in>set ?batches. \<forall>row\<in>set rows. P row) \<longleftrightarrow> (\<forall>row\<in>set (map agg_row sts). P row)" for P
    proof -
      have "(\<forall>rows\<in>set ?batches. \<forall>row\<in>set rows. P row) \<longleftrightarrow> (\<forall>row\<in>set (concat ?batches). P row)" by simp
      then show ?thesis unfolding concat set_of_mset_eq [OF perm] .
    qed
    have "\<forall>row\<in>set (map agg_row sts). length row = length types"
      using run_row_width [OF assms(1)] rows types(3) by auto
    then have "if \<forall>row\<in>set (map agg_row sts). row_fits types row
      then \<exists>cs. build_batches (co_zero X) types ?batches = (cs, Finished) \<and> rows_in cs = concat ?batches
      else snd (build_batches (co_zero X) types ?batches) = Panicked"
      using build_batches_outcome [OF types(1,2), of ?batches "co_zero X"] unfolding elems by blast
    moreover have "hash_agg_execute X ord (EList ks) ?aggs types (cs, Finished) = build_batches (co_zero X) types ?batches"
      by (simp add: hash_agg_execute_def hash_consume [OF assms(1)] fold Some)
    moreover have "all_fit types (run_rows X ?aggs kvs) \<longleftrightarrow> (\<forall>row\<in>set (map agg_row sts). row_fits types row)"
      unfolding rows by (auto simp: all_fit_def)
    ultimately show ?thesis using perm unfolding rows concat by (auto simp: comp_def split: if_splits)
  qed
qed

text \<open>C13. Where rows with equal keys are adjacent, sorted aggregation and hash aggregation yield the same rows, one per key, up to the
  order in which the hash map is read; and one panics exactly when the other does.\<close>

theorem sort_agg_hash_agg:
  assumes "agg_inputs X (EList ks) (EList as) cs = Some kvs" and "adjacent kvs" and "\<And>st. mset (ord st) = mset st"
    and "types \<noteq> []" and "\<forall>ty\<in>set types. type_variant ty \<noteq> None" and "length types = length ks + length as" and "init_agg_states (EList as) \<noteq> None"
  shows "let h = hash_agg_execute X ord (EList ks) (EList as) types (cs, Finished); s = sort_agg_execute X (EList ks) (EList as) types (cs, Finished)
    in snd h = Finished \<and> snd s = Finished \<and> mset (rows_in (fst h)) = mset (rows_in (fst s)) \<or> snd h = Panicked \<and> snd s = Panicked"
proof -
  let ?rs = "run_rows X (EList as) kvs"
  obtain states where states: "init_agg_states (EList as) = Some states" using assms(7) by blast
  from cbl_new_ok [OF assms(5), where 'd = 'a] obtain b :: "'a chunk_builder" where b: "cbl_new types PROCESSING_WINDOW_SIZE = Some b"
    "builders_ok types (cbl_size b) (cbl_builders b)" "cbl_size b = 0" "cbl_size b < cbl_capacity b" by blast
  have sort: "sort_agg_execute X (EList ks) (EList as) types (cs, Finished) = build_opts (co_zero X) ?rs b"
    using b(3) by (simp add: sort_agg_execute_def states b(1) sort_loop [OF assms(1)] sort_agg_first)
  have width: "\<forall>row. Some row \<in> set ?rs \<longrightarrow> length row = length types" using run_row_width [OF assms(1)] assms(6) by simp
  note hash = hash_agg_rows [OF assms(1-6)]
  show ?thesis
  proof (cases "all_fit types ?rs")
    case True
    with build_opts_ok [OF b(2) assms(4) b(4) True, of "co_zero X"] hash b(3) show ?thesis unfolding sort by (auto simp: Let_def)
  next
    case False
    with build_opts_panic [OF b(2) assms(4) b(4) width False, of "co_zero X"] hash show ?thesis unfolding sort by (simp add: Let_def)
  qed
qed

theorem sort_agg_hash_agg_witness:
  "let h = hash_agg_execute demo_ops rev (EList [EColumnIndex 0]) (EList [ERowCount]) [TInt32, TInt32] ([int_chunk [7, 7], int_chunk [9]], Finished);
       s = sort_agg_execute demo_ops (EList [EColumnIndex 0]) (EList [ERowCount]) [TInt32, TInt32] ([int_chunk [7, 7], int_chunk [9]], Finished)
   in snd h = Finished \<and> snd s = Finished \<and> mset (rows_in (fst h)) = mset (rows_in (fst s)) \<or> snd h = Panicked \<and> snd s = Panicked"
proof -
  let ?kvs = "[([VInt32 7], [VNull]), ([VInt32 7], [VNull]), ([VInt32 9], [VNull])] :: (int row \<times> int row) list"
  have eval: "eval_list demo_ops (EList [EColumnIndex 0]) (int_chunk xs) = Some (Inr (int_chunk xs))"
    "eval_list demo_ops (EList [ERowCount]) (int_chunk xs) = Some (Inr \<lparr>dc_arrays = [ANull (pa_collect (replicate (length xs) ()))], dc_cardinality = length xs\<rparr>)" for xs
    by (simp_all add: eval_list_def int_chunk_def index_at_def chunk_of_arrays_def rust_assert_def pa_collect_facts Let_def)
  have card: "dc_cardinality (int_chunk xs) = length xs" for xs by (simp add: int_chunk_def)
  have rows: "row_ref_values (int_chunk xs) i = Some [VInt32 (xs ! i)]" if "i < length xs" for xs i
    using row_ref_values_eq [of "int_chunk xs" i] that card [of xs] by simp
  have nulls: "row_ref_values (\<lparr>dc_arrays = [ANull (pa_collect us)], dc_cardinality = n\<rparr> :: int data_chunk) i = Some [VNull]" if "n = length us" "i < n" for us n i
    using row_ref_values_eq [of "\<lparr>dc_arrays = [ANull (pa_collect us)], dc_cardinality = n\<rparr> :: int data_chunk" i] that
    by (simp add: dc_wf_def pa_collect_facts chunk_rows_def rows_of_def)
  have input: "agg_inputs demo_ops (EList [EColumnIndex 0]) (EList [ERowCount]) [int_chunk [7, 7], int_chunk [9]] = Some ?kvs"
    by (simp add: agg_input_def eval card rows nulls upt_rec numeral_2_eq_2)
  have adj: "adjacent ?kvs" by (simp add: keys_eq_def value_eq_def value_cmp_def cmp_of_def)
  have init: "init_agg_states (EList [ERowCount :: int expr]) \<noteq> None" by (simp add: init_agg_states_def)
  show ?thesis by (rule sort_agg_hash_agg [OF input adj _ _ _ _ init]) simp_all
qed















text \<open>A window function reads the columns of its input by position: \<open>sum(#1) over ()\<close> sums column 0; and an empty chunk panics.\<close>

lemma window_reads_by_position:
  "agg_list_append X (EList [EOver (EAgg AggSum (EColumnIndex 1)) (EList []) (EList [])]) [AggValue VNull] [VInt32 10, VInt32 20]
     = Some [AggValue (VInt32 10)]"
  by (simp add: agg_list_append_def agg_add_def is_null_def)

lemma window_empty_chunk_panics:
  "window_chunk X exprs types \<lparr>dc_arrays = as, dc_cardinality = 0\<rparr> states = None"
  by (auto simp: window_chunk_def dc_rows_def cbl_new_def cbl_take_def split: Option.bind_splits)

end
