(* ===== verification/Joins.thy ===== *)
theory Joins
  imports Agg_Laws
begin

text \<open>
  The join executors (\<open>hash_join.rs\<close>, \<open>nested_loop_join.rs\<close>, \<open>merge_join.rs\<close>). A hash join reads its left
  child into a map from keys to rows, here an association list in order of insertion; the order in
  which unmatched entries are read in the end is an argument.
\<close>

datatype join_type = JInner | JLeftOuter | JRightOuter | JFullOuter

definition left_outer :: "join_type \<Rightarrow> bool" where
  "left_outer ty \<longleftrightarrow> ty = JLeftOuter \<or> ty = JFullOuter"

definition right_outer :: "join_type \<Rightarrow> bool" where
  "right_outer ty \<longleftrightarrow> ty = JRightOuter \<or> ty = JFullOuter"

text \<open>Pushing rows while chunks are yielded: the chunks, and the builder unless a push panicked.\<close>

fun push_rows :: "'d \<Rightarrow> 'd row list \<Rightarrow> 'd chunk_builder \<Rightarrow> 'd data_chunk list \<times> 'd chunk_builder option" where
  "push_rows z [] b = ([], Some b)"
| "push_rows z (row # rows) b =
     (case push_row z row b of
        None \<Rightarrow> ([], None)
      | Some (c, b') \<Rightarrow> (case push_rows z rows b' of (cs, r) \<Rightarrow> (yielded c @ cs, r)))"

text \<open>The rows of a chunk with their keys.\<close>

definition join_input :: "'d::linorder conv_ops \<Rightarrow> 'd expr \<Rightarrow> 'd data_chunk \<Rightarrow> ('d convert_error + ('d row \<times> 'd row) list) option" where
  "join_input X keys c =
     and_then (eval_list X keys c) (\<lambda>keys_chunk. ok (do { rows \<leftarrow> dc_rows c; ks \<leftarrow> dc_rows keys_chunk; Some (zip ks rows) }))"

section \<open>Hash join\<close>

record 'd left_key_info =
  lk_rows :: "'d row list"
  lk_matched :: bool

type_synonym 'd left_map = "('d row \<times> 'd left_key_info) list"

fun left_insert :: "'d::linorder row \<Rightarrow> 'd row \<Rightarrow> 'd left_map \<Rightarrow> 'd left_map" where
  "left_insert k row [] = [(k, \<lparr>lk_rows = [row], lk_matched = False\<rparr>)]"
| "left_insert k row ((k', i) # m) =
     (if keys_eq k' k then (k', i\<lparr>lk_rows := lk_rows i @ [row]\<rparr>) # m else (k', i) # left_insert k row m)"

fun left_find :: "'d::linorder row \<Rightarrow> 'd left_map \<Rightarrow> 'd left_key_info option" where
  "left_find k [] = None"
| "left_find k ((k', i) # m) = (if keys_eq k' k then Some i else left_find k m)"

fun left_mark :: "'d::linorder row \<Rightarrow> 'd left_map \<Rightarrow> 'd left_map" where
  "left_mark k [] = []"
| "left_mark k ((k', i) # m) = (if keys_eq k' k then (k', i\<lparr>lk_matched := True\<rparr>) # m else (k', i) # left_mark k m)"

abbreviation nulls :: "nat \<Rightarrow> 'd row" where
  "nulls n \<equiv> replicate n VNull"

definition probe_row :: "join_type \<Rightarrow> nat \<Rightarrow> 'd::linorder left_map \<Rightarrow> 'd row \<times> 'd row \<Rightarrow> 'd row list" where
  "probe_row ty left_width m kr =
     (case left_find (fst kr) m of
        Some i \<Rightarrow> map (\<lambda>l. l @ snd kr) (lk_rows i)
      | None \<Rightarrow> if right_outer ty then [nulls left_width @ snd kr] else [])"

definition unmatched_rows :: "nat \<Rightarrow> 'd left_map \<Rightarrow> 'd row list" where
  "unmatched_rows right_width m =
     concat (map (\<lambda>ki. if lk_matched (snd ki) then [] else map (\<lambda>l. l @ nulls right_width) (lk_rows (snd ki))) m)"

fun hash_probe :: "'d::linorder conv_ops \<Rightarrow> ('d left_map \<Rightarrow> 'd left_map) \<Rightarrow> join_type \<Rightarrow> 'd expr \<Rightarrow> nat \<Rightarrow> nat
   \<Rightarrow> 'd data_chunk list \<Rightarrow> 'd ending \<Rightarrow> 'd left_map \<Rightarrow> 'd chunk_builder \<Rightarrow> 'd stream" where
  "hash_probe X ord ty right_keys lw rw [] e m b =
     (case e of
        Finished \<Rightarrow> build_stream (co_zero X) (if left_outer ty then unmatched_rows rw (ord m) else []) b
      | _ \<Rightarrow> ([], e))"
| "hash_probe X ord ty right_keys lw rw (c # cs) e m b =
     run (join_input X right_keys c) (\<lambda>krs.
       case push_rows (co_zero X) (concat (map (probe_row ty lw m) krs)) b of
         (out, r) \<Rightarrow> emit out (run_opt r (hash_probe X ord ty right_keys lw rw cs e (fold (\<lambda>kr. left_mark (fst kr)) krs m))))"

definition hash_join_execute :: "'d::linorder conv_ops \<Rightarrow> ('d left_map \<Rightarrow> 'd left_map) \<Rightarrow> join_type \<Rightarrow> 'd expr \<Rightarrow> 'd expr
   \<Rightarrow> data_type list \<Rightarrow> data_type list \<Rightarrow> 'd stream \<Rightarrow> 'd stream \<Rightarrow> 'd stream" where
  "hash_join_execute X ord ty left_keys right_keys left_types right_types left right =
     after (consume (\<lambda>c m. and_then (join_input X left_keys c) (\<lambda>kls. Some (Inr (fold (\<lambda>kl. left_insert (fst kl) (snd kl)) kls m))))
         (fst left) (snd left) []) (\<lambda>m.
       run_opt (cbl_new (left_types @ right_types) PROCESSING_WINDOW_SIZE)
         (hash_probe X ord ty right_keys (length left_types) (length right_types) (fst right) (snd right) m))"

section \<open>Hash semi join\<close>

definition key_insert :: "'d::linorder row \<Rightarrow> 'd row list \<Rightarrow> 'd row list" where
  "key_insert k ks = (if list_ex (\<lambda>k'. keys_eq k' k) ks then ks else ks @ [k])"

definition semi_probe :: "'d::linorder conv_ops \<Rightarrow> bool \<Rightarrow> 'd expr \<Rightarrow> 'd row list \<Rightarrow> 'd data_chunk \<Rightarrow> ('d convert_error + 'd data_chunk) option" where
  "semi_probe X anti left_keys key_set c =
     and_then (eval_list X left_keys c) (\<lambda>keys_chunk.
       ok (do { ks \<leftarrow> dc_rows keys_chunk; dc_filter (map (\<lambda>k. list_ex (\<lambda>k'. keys_eq k' k) key_set \<noteq> anti) ks) c }))"

definition hash_semi_join_execute :: "'d::linorder conv_ops \<Rightarrow> bool \<Rightarrow> 'd expr \<Rightarrow> 'd expr \<Rightarrow> 'd stream \<Rightarrow> 'd stream \<Rightarrow> 'd stream" where
  "hash_semi_join_execute X anti left_keys right_keys left right =
     after (consume (\<lambda>c ks. and_then (eval_list X right_keys c) (\<lambda>keys_chunk. ok (map_option (\<lambda>rows. fold key_insert rows ks) (dc_rows keys_chunk))))
         (fst right) (snd right) []) (\<lambda>ks.
       map_stream (semi_probe X anti left_keys ks) (fst left) (snd left))"

text \<open>The semi join with a further condition keeps the rows of each key in a builder without bound.\<close>

fun builder_insert :: "'d::linorder \<Rightarrow> data_type list \<Rightarrow> 'd row \<Rightarrow> 'd row \<Rightarrow> ('d row \<times> 'd chunk_builder) list \<Rightarrow> ('d row \<times> 'd chunk_builder) list option" where
  "builder_insert z types k row [] = do {
     b \<leftarrow> cbl_unbounded types;
     (c, b) \<leftarrow> push_row z row b;
     rust_assert (c = None);
     Some [(k, b)] }"
| "builder_insert z types k row ((k', b) # m) =
     (if keys_eq k' k then do { (c, b) \<leftarrow> push_row z row b; rust_assert (c = None); Some ((k', b) # m) }
      else map_option ((#) (k', b)) (builder_insert z types k row m))"

definition take_all :: "('d row \<times> 'd chunk_builder) list \<Rightarrow> ('d row \<times> 'd data_chunk) list option" where
  "take_all m = those (map (\<lambda>(k, b). do { (c, _) \<leftarrow> cbl_take b; c \<leftarrow> c; Some (k, c) }) m)"

definition left_row_to_chunk :: "'d \<Rightarrow> data_type list \<Rightarrow> 'd row \<Rightarrow> nat \<Rightarrow> 'd data_chunk option" where
  "left_row_to_chunk z left_types row len = do {
     arrays \<leftarrow> those (map (\<lambda>(ty, v). do { b \<leftarrow> ai_with_capacity ty; b \<leftarrow> ai_push_n z len v b; Some (ai_finish b) }) (zip left_types row));
     chunk_of_arrays arrays }"

definition any_match :: "'d::linorder conv_ops \<Rightarrow> data_type list \<Rightarrow> 'd expr \<Rightarrow> 'd row \<Rightarrow> 'd data_chunk \<Rightarrow> ('d convert_error + bool) option" where
  "any_match X left_types condition lrow rchunk =
     (case do { lchunk \<leftarrow> left_row_to_chunk (co_zero X) left_types lrow (dc_cardinality rchunk); row_concat lchunk rchunk } of
        None \<Rightarrow> None
      | Some join_chunk \<Rightarrow>
          and_then (eval X condition join_chunk) (\<lambda>a. case a of ABool a \<Rightarrow> Some (Inr (list_ex id (true_array a))) | _ \<Rightarrow> None))"

fun semi2_exists :: "'d::linorder conv_ops \<Rightarrow> bool \<Rightarrow> data_type list \<Rightarrow> 'd expr \<Rightarrow> ('d row \<times> 'd data_chunk) list \<Rightarrow> ('d row \<times> 'd row) list
   \<Rightarrow> ('d convert_error + bool list) option" where
  "semi2_exists X anti left_types condition m [] = Some (Inr [])"
| "semi2_exists X anti left_types condition m ((k, lrow) # kls) =
     and_then (case find (\<lambda>(k', _). keys_eq k' k) m of Some (_, rchunk) \<Rightarrow> any_match X left_types condition lrow rchunk | None \<Rightarrow> Some (Inr False)) (\<lambda>b.
       and_then (semi2_exists X anti left_types condition m kls) (\<lambda>bs. Some (Inr ((b \<noteq> anti) # bs))))"

definition semi2_probe :: "'d::linorder conv_ops \<Rightarrow> bool \<Rightarrow> 'd expr \<Rightarrow> data_type list \<Rightarrow> 'd expr \<Rightarrow> ('d row \<times> 'd data_chunk) list \<Rightarrow> 'd data_chunk
   \<Rightarrow> ('d convert_error + 'd data_chunk) option" where
  "semi2_probe X anti left_keys left_types condition m c =
     and_then (join_input X left_keys c) (\<lambda>kls.
       and_then (semi2_exists X anti left_types condition m kls) (\<lambda>exists. ok (dc_filter exists c)))"

definition hash_semi_join2_execute :: "'d::linorder conv_ops \<Rightarrow> bool \<Rightarrow> 'd expr \<Rightarrow> 'd expr \<Rightarrow> 'd expr \<Rightarrow> data_type list \<Rightarrow> data_type list
   \<Rightarrow> 'd stream \<Rightarrow> 'd stream \<Rightarrow> 'd stream" where
  "hash_semi_join2_execute X anti left_keys right_keys condition left_types right_types left right =
     after (consume (\<lambda>c m. and_then (join_input X right_keys c) (\<lambda>krs. ok (fold_opt (\<lambda>(k, row). builder_insert (co_zero X) right_types k row) krs m)))
         (fst right) (snd right) []) (\<lambda>m.
       run_opt (take_all m) (\<lambda>m. map_stream (semi2_probe X anti left_keys left_types condition m) (fst left) (snd left)))"

section \<open>Nested loop join\<close>

text \<open>The condition on a chunk of the cross product: the rows kept and the array of its values.\<close>

definition nl_filter :: "'d::linorder conv_ops \<Rightarrow> 'd expr \<Rightarrow> 'd data_chunk \<Rightarrow> ('d convert_error + 'd data_chunk \<times> bool array) option" where
  "nl_filter X condition c =
     and_then (eval X condition c) (\<lambda>a. case a of ABool a \<Rightarrow> ok (map_option (\<lambda>d. (d, a)) (dc_filter (true_array a) c)) | _ \<Rightarrow> None)"

definition nl_yield :: "'d::linorder conv_ops \<Rightarrow> 'd expr \<Rightarrow> 'd data_chunk option \<Rightarrow> bool array \<Rightarrow> (bool array \<Rightarrow> 'd stream) \<Rightarrow> 'd stream" where
  "nl_yield X condition c filter' k =
     (case c of
        None \<Rightarrow> k filter'
      | Some c \<Rightarrow> run (nl_filter X condition c) (\<lambda>(d, a). emit [d] (k (pa_append a filter'))))"

fun nl_rows :: "'d::linorder conv_ops \<Rightarrow> 'd expr \<Rightarrow> 'd row list \<Rightarrow> 'd chunk_builder \<Rightarrow> bool array \<Rightarrow> ('d chunk_builder \<Rightarrow> bool array \<Rightarrow> 'd stream) \<Rightarrow> 'd stream" where
  "nl_rows X condition [] b filter' k = k b filter'"
| "nl_rows X condition (row # rows) b filter' k =
     run_opt (push_row (co_zero X) row b) (\<lambda>(c, b').
       nl_yield X condition c filter' (\<lambda>filter'. nl_rows X condition rows b' filter' k))"

definition nl_matched :: "bool array \<Rightarrow> nat \<Rightarrow> nat \<Rightarrow> nat \<Rightarrow> bool option" where
  "nl_matched filter' left_row_num right_row_num i =
     map_option (list_ex (\<lambda>v. v = Some True)) (those (map (\<lambda>j. pa_get filter' (i + left_row_num * j)) [0..<right_row_num]))"

definition nl_unmatched :: "'d row list \<Rightarrow> nat \<Rightarrow> bool array \<Rightarrow> nat \<Rightarrow> 'd row option list" where
  "nl_unmatched left_rows rw filter' right_row_num =
     concat (map (\<lambda>i. case nl_matched filter' (length left_rows) right_row_num i of
         None \<Rightarrow> [None]
       | Some m \<Rightarrow> if m then [] else [Some (left_rows ! i @ nulls rw)]) [0..<length left_rows])"

fun nl_loop :: "'d::linorder conv_ops \<Rightarrow> join_type \<Rightarrow> 'd expr \<Rightarrow> 'd row list \<Rightarrow> nat \<Rightarrow> 'd data_chunk list \<Rightarrow> 'd ending \<Rightarrow> nat
   \<Rightarrow> 'd chunk_builder \<Rightarrow> bool array \<Rightarrow> 'd stream" where
  "nl_loop X op condition left_rows rw [] e right_row_num b filter' =
     (case e of
        Finished \<Rightarrow>
          run_opt (cbl_take b) (\<lambda>(c, b).
            nl_yield X condition c filter' (\<lambda>filter'.
              build_opts (co_zero X) (if op = JLeftOuter then nl_unmatched left_rows rw filter' right_row_num else []) b))
      | _ \<Rightarrow> ([], e))"
| "nl_loop X op condition left_rows rw (c # cs) e right_row_num b filter' =
     run_opt (dc_rows c) (\<lambda>right_rows.
       nl_rows X condition (concat (map (\<lambda>r. map (\<lambda>l. l @ r) left_rows) right_rows)) b filter' (\<lambda>b filter'.
         nl_loop X op condition left_rows rw cs e (right_row_num + dc_cardinality c) b filter'))"

text \<open>Other join types are not implemented and panic.\<close>

definition nested_loop_join_execute :: "'d::linorder conv_ops \<Rightarrow> join_type \<Rightarrow> 'd expr \<Rightarrow> data_type list \<Rightarrow> data_type list \<Rightarrow> 'd stream \<Rightarrow> 'd stream \<Rightarrow> 'd stream" where
  "nested_loop_join_execute X op condition left_types right_types left right =
     run_opt (rust_assert (op = JInner \<or> op = JLeftOuter)) (\<lambda>_.
       after (consume (\<lambda>c cs. Some (Inr (cs @ [c]))) (fst left) (snd left) []) (\<lambda>left_chunks.
         run_opt (cbl_new (left_types @ right_types) PROCESSING_WINDOW_SIZE) (\<lambda>b.
           run_opt (those (map dc_rows left_chunks)) (\<lambda>left_rows.
             nl_loop X op condition (concat left_rows) (length right_types) (fst right) (snd right) 0 b pa_new))))"

section \<open>Nested loop semi join\<close>

text \<open>Whether a left row has a match: for a semi join the search stops at the first chunk with one.\<close>

fun nl_exists :: "'d::linorder conv_ops \<Rightarrow> bool \<Rightarrow> data_type list \<Rightarrow> 'd expr \<Rightarrow> 'd row \<Rightarrow> 'd data_chunk list \<Rightarrow> bool \<Rightarrow> ('d convert_error + bool) option" where
  "nl_exists X anti left_types condition lrow [] found = Some (Inr found)"
| "nl_exists X anti left_types condition lrow (c # cs) found =
     and_then (any_match X left_types condition lrow c) (\<lambda>b.
       if (found \<or> b) \<and> \<not> anti then Some (Inr True) else nl_exists X anti left_types condition lrow cs (found \<or> b))"

fun nl_semi_rows :: "'d::linorder conv_ops \<Rightarrow> bool \<Rightarrow> data_type list \<Rightarrow> 'd expr \<Rightarrow> 'd data_chunk list \<Rightarrow> 'd row list \<Rightarrow> 'd chunk_builder
   \<Rightarrow> ('d chunk_builder \<Rightarrow> 'd stream) \<Rightarrow> 'd stream" where
  "nl_semi_rows X anti left_types condition right_chunks [] b k = k b"
| "nl_semi_rows X anti left_types condition right_chunks (lrow # lrows) b k =
     run (nl_exists X anti left_types condition lrow right_chunks False) (\<lambda>found.
       if found \<noteq> anti
       then run_opt (push_row (co_zero X) lrow b) (\<lambda>(c, b'). emit (yielded c) (nl_semi_rows X anti left_types condition right_chunks lrows b' k))
       else nl_semi_rows X anti left_types condition right_chunks lrows b k)"

fun nl_semi_loop :: "'d::linorder conv_ops \<Rightarrow> bool \<Rightarrow> data_type list \<Rightarrow> 'd expr \<Rightarrow> 'd data_chunk list \<Rightarrow> 'd data_chunk list \<Rightarrow> 'd ending \<Rightarrow> 'd chunk_builder \<Rightarrow> 'd stream" where
  "nl_semi_loop X anti left_types condition right_chunks [] e b =
     (case e of Finished \<Rightarrow> run_opt (cbl_take b) (\<lambda>(c, _). (yielded c, Finished)) | _ \<Rightarrow> ([], e))"
| "nl_semi_loop X anti left_types condition right_chunks (c # cs) e b =
     run_opt (dc_rows c) (\<lambda>lrows.
       nl_semi_rows X anti left_types condition right_chunks lrows b (\<lambda>b. nl_semi_loop X anti left_types condition right_chunks cs e b))"

definition nested_loop_semi_join_execute :: "'d::linorder conv_ops \<Rightarrow> bool \<Rightarrow> 'd expr \<Rightarrow> data_type list \<Rightarrow> 'd stream \<Rightarrow> 'd stream \<Rightarrow> 'd stream" where
  "nested_loop_semi_join_execute X anti condition left_types left right =
     after (consume (\<lambda>c cs. Some (Inr (cs @ [c]))) (fst right) (snd right) []) (\<lambda>right_chunks.
       run_opt (cbl_new left_types PROCESSING_WINDOW_SIZE) (\<lambda>b.
         nl_semi_loop X anti left_types condition right_chunks (fst left) (snd left) b))"

section \<open>Merge join\<close>

type_synonym 'd group = "'d row \<times> 'd row list"

text \<open>The groups of adjacent rows with equal keys; a group whose key has no columns is dropped.\<close>

definition yield_group :: "'d group \<Rightarrow> 'd group list" where
  "yield_group g = (if fst g = [] then [] else [g])"

fun group_chunk :: "('d::linorder row \<times> 'd row) list \<Rightarrow> 'd group \<Rightarrow> 'd group list \<times> 'd group" where
  "group_chunk [] g = ([], g)"
| "group_chunk ((k, row) # kvs) g =
     (if keys_eq (fst g) k then group_chunk kvs (fst g, snd g @ [row])
      else case group_chunk kvs (k, [row]) of (gs, g') \<Rightarrow> (yield_group g @ gs, g'))"

fun group_by_keys :: "'d::linorder conv_ops \<Rightarrow> 'd expr \<Rightarrow> 'd data_chunk list \<Rightarrow> 'd ending \<Rightarrow> 'd group \<Rightarrow> 'd group list \<times> 'd ending" where
  "group_by_keys X keys [] e g = (case e of Finished \<Rightarrow> (yield_group g, Finished) | _ \<Rightarrow> ([], e))"
| "group_by_keys X keys (c # cs) e g =
     (case join_input X keys c of
        None \<Rightarrow> ([], Panicked)
      | Some (Inl err) \<Rightarrow> ([], Failed (ErrConvert err))
      | Some (Inr kvs) \<Rightarrow>
          (case group_chunk kvs g of (gs, g') \<Rightarrow>
             (case group_by_keys X keys cs e g' of (gs', e') \<Rightarrow> (gs @ gs', e'))))"

fun keys_cmp :: "'d::linorder row \<Rightarrow> 'd row \<Rightarrow> cmp_ordering" where
  "keys_cmp [] [] = Equal"
| "keys_cmp [] (_ # _) = Less"
| "keys_cmp (_ # _) [] = Greater"
| "keys_cmp (u # us) (v # vs) = (case value_cmp u v of Equal \<Rightarrow> keys_cmp us vs | r \<Rightarrow> r)"

text \<open>Fetching the next group fails when the groups end with a failure.\<close>

definition fetched :: "'d group list \<Rightarrow> 'd ending \<Rightarrow> 'd stream \<Rightarrow> 'd stream" where
  "fetched gs e k = (if gs = [] \<and> e \<noteq> Finished then ([], e) else k)"

definition pushing :: "'d \<Rightarrow> 'd row list \<Rightarrow> 'd chunk_builder \<Rightarrow> ('d chunk_builder \<Rightarrow> 'd stream) \<Rightarrow> 'd stream" where
  "pushing z rows b k = (case push_rows z rows b of (out, r) \<Rightarrow> emit out (run_opt r k))"

definition cross_rows :: "'d row list \<Rightarrow> 'd row list \<Rightarrow> 'd row list" where
  "cross_rows ls rs = concat (map (\<lambda>l. map (\<lambda>r. l @ r) rs) ls)"

function merge_loop :: "'d::linorder \<Rightarrow> join_type \<Rightarrow> nat \<Rightarrow> nat \<Rightarrow> 'd ending \<Rightarrow> 'd ending \<Rightarrow> 'd group list \<Rightarrow> 'd group list \<Rightarrow> 'd chunk_builder \<Rightarrow> 'd stream" where
  "merge_loop z ty lw rw el er gl gr b =
     (case (gl, gr) of
        ([], []) \<Rightarrow> run_opt (cbl_take b) (\<lambda>(c, _). (yielded c, Finished))
      | ((lk, ls) # gl', (rk, rs) # gr') \<Rightarrow>
          (case keys_cmp lk rk of
             Equal \<Rightarrow> pushing z (cross_rows ls rs) b (\<lambda>b. fetched gl' el (fetched gr' er (merge_loop z ty lw rw el er gl' gr' b)))
           | Less \<Rightarrow> pushing z (if left_outer ty then map (\<lambda>l. l @ nulls rw) ls else []) b (\<lambda>b. fetched gl' el (merge_loop z ty lw rw el er gl' gr b))
           | Greater \<Rightarrow> pushing z (if right_outer ty then map (\<lambda>r. nulls lw @ r) rs else []) b (\<lambda>b. fetched gr' er (merge_loop z ty lw rw el er gl gr' b)))
      | ((_, ls) # gl', []) \<Rightarrow> pushing z (if left_outer ty then map (\<lambda>l. l @ nulls rw) ls else []) b (\<lambda>b. fetched gl' el (merge_loop z ty lw rw el er gl' [] b))
      | ([], (_, rs) # gr') \<Rightarrow> pushing z (if right_outer ty then map (\<lambda>r. nulls lw @ r) rs else []) b (\<lambda>b. fetched gr' er (merge_loop z ty lw rw el er [] gr' b)))"
  by pat_completeness auto
termination by (relation "measure (\<lambda>(z, ty, lw, rw, el, er, gl, gr, b). length gl + length gr)") auto

declare merge_loop.simps [simp del]

definition merge_join_execute :: "'d::linorder conv_ops \<Rightarrow> join_type \<Rightarrow> 'd expr \<Rightarrow> 'd expr \<Rightarrow> data_type list \<Rightarrow> data_type list \<Rightarrow> 'd stream \<Rightarrow> 'd stream \<Rightarrow> 'd stream" where
  "merge_join_execute X ty left_keys right_keys left_types right_types left right =
     (case (group_by_keys X left_keys (fst left) (snd left) ([], []), group_by_keys X right_keys (fst right) (snd right) ([], [])) of
        ((gl, el), (gr, er)) \<Rightarrow>
          fetched gl el (fetched gr er
            (run_opt (cbl_new (left_types @ right_types) PROCESSING_WINDOW_SIZE)
              (merge_loop (co_zero X) ty (length left_types) (length right_types) el er gl gr))))"

end

