(* ===== verification/Join_Laws.thy ===== *)
theory Join_Laws
  imports Joins
begin

text \<open>
  What the joins compute, on rows with their keys. The specification lists the pairs of rows with equal
  keys and, for outer joins, the rows without a partner filled up with nulls. Hash join and merge join
  yield these rows, the latter for sorted inputs; the semi joins keep the left rows with, or without,
  a partner; the nested loop join yields the pairs for which its condition is true.
\<close>

section \<open>Specification\<close>

definition join_pairs :: "('d::linorder row \<times> 'd row) list \<Rightarrow> ('d row \<times> 'd row) list \<Rightarrow> 'd row list" where
  "join_pairs L R = concat (map (\<lambda>l. concat (map (\<lambda>r. if keys_eq (fst l) (fst r) then [snd l @ snd r] else []) R)) L)"

definition no_partner :: "('d::linorder row \<times> 'd row) list \<Rightarrow> 'd row \<times> 'd row \<Rightarrow> bool" where
  "no_partner R l \<longleftrightarrow> (\<forall>r\<in>set R. \<not> keys_eq (fst l) (fst r))"

definition join_spec :: "join_type \<Rightarrow> nat \<Rightarrow> nat \<Rightarrow> ('d::linorder row \<times> 'd row) list \<Rightarrow> ('d row \<times> 'd row) list \<Rightarrow> 'd row list" where
  "join_spec ty lw rw L R =
     join_pairs L R
     @ (if left_outer ty then map (\<lambda>l. snd l @ nulls rw) (filter (no_partner R) L) else [])
     @ (if right_outer ty then map (\<lambda>r. nulls lw @ snd r) (filter (no_partner L) R) else [])"

fun join_inputs :: "'d::linorder conv_ops \<Rightarrow> 'd expr \<Rightarrow> 'd data_chunk list \<Rightarrow> ('d row \<times> 'd row) list option" where
  "join_inputs X keys [] = Some []"
| "join_inputs X keys (c # cs) =
     (case join_input X keys c of Some (Inr kvs) \<Rightarrow> map_option ((@) kvs) (join_inputs X keys cs) | _ \<Rightarrow> None)"

lemma join_inputs_Cons:
  assumes "join_inputs X keys (c # cs) = Some kvs"
  obtains kvs1 kvs2 where "join_input X keys c = Some (Inr kvs1)" "join_inputs X keys cs = Some kvs2" "kvs = kvs1 @ kvs2"
  using assms by (auto split: option.splits sum.splits)

lemma concat_swap: "mset (concat (map (\<lambda>x. concat (map (g x) ys)) xs)) = mset (concat (map (\<lambda>y. concat (map (\<lambda>x. g x y) xs)) ys))"
proof (induction xs)
  case Nil
  show ?case by (induction ys) simp_all
next
  case (Cons x xs)
  have "mset (concat (map (\<lambda>y. g x y @ concat (map (\<lambda>x. g x y) xs)) ys))
      = mset (concat (map (g x) ys)) + mset (concat (map (\<lambda>y. concat (map (\<lambda>x. g x y) xs)) ys))"
    by (induction ys) (simp_all add: ac_simps)
  with Cons show ?case by simp
qed

section \<open>Hash join\<close>

lemma push_rows_build:
  "(case push_rows z rows b of (out, r) \<Rightarrow> emit out (run_opt r (build_stream z rest))) = build_stream z (rows @ rest) b"
proof (induction rows arbitrary: b)
  case (Cons row rows)
  show ?case
  proof (cases "push_row z row b")
    case (Some cb)
    obtain c b' where "cb = (c, b')" by (cases cb)
    with Some Cons.IH [of b', symmetric] show ?thesis by (simp add: emit_emit split: prod.split)
  qed simp
qed simp

lemma keys_eq_cong: "keys_eq a b \<Longrightarrow> keys_eq a c \<longleftrightarrow> keys_eq b c" "keys_eq a b \<Longrightarrow> keys_eq c a \<longleftrightarrow> keys_eq c b"
  by (blast intro: keys_eq_equiv(2,3))+

lemma left_find_insert:
  "left_find q (left_insert k row m) =
     (if keys_eq k q
      then Some (case left_find q m of Some i \<Rightarrow> i\<lparr>lk_rows := lk_rows i @ [row]\<rparr> | None \<Rightarrow> \<lparr>lk_rows = [row], lk_matched = False\<rparr>)
      else left_find q m)"
proof (induction m)
  case (Cons p m)
  obtain k' i where p: "p = (k', i)" by (cases p)
  show ?case
  proof (cases "keys_eq k' k")
    case True
    then have "keys_eq k' q \<longleftrightarrow> keys_eq k q" by (rule keys_eq_cong)
    with True show ?thesis by (simp add: p)
  next
    case False
    then have "\<not> (keys_eq k' q \<and> keys_eq k q)" using keys_eq_equiv(2,3) by blast
    with False Cons show ?thesis by (auto simp: p)
  qed
qed simp

definition built :: "('d::linorder row \<times> 'd row) list \<Rightarrow> 'd left_map \<Rightarrow> 'd left_map" where
  "built L m = fold (\<lambda>kl. left_insert (fst kl) (snd kl)) L m"

lemma left_find_built:
  "left_find q (built L []) =
     (let ls = filter (\<lambda>l. keys_eq (fst l) q) L in if ls = [] then None else Some \<lparr>lk_rows = map snd ls, lk_matched = False\<rparr>)"
proof (induction L rule: rev_induct)
  case (snoc l L)
  have "built (L @ [l]) [] = left_insert (fst l) (snd l) (built L [])" by (simp add: built_def)
  with snoc show ?case by (auto simp: left_find_insert Let_def)
qed (simp add: built_def)

text \<open>The keys of the map are pairwise different.\<close>

abbreviation distinct_keys :: "'d::linorder left_map \<Rightarrow> bool" where
  "distinct_keys m \<equiv> sorted_wrt (\<lambda>a b. \<not> keys_eq (fst a) (fst b)) m"

lemma left_insert_keys: "p \<in> set (left_insert k row m) \<Longrightarrow> fst p = k \<or> fst p \<in> fst ` set m"
  by (induction m) (auto split: if_splits)

lemma distinct_left_insert: "distinct_keys m \<Longrightarrow> distinct_keys (left_insert k row m)"
proof (induction m)
  case (Cons p m)
  obtain k' i where p: "p = (k', i)" by (cases p)
  show ?case
  proof (cases "keys_eq k' k")
    case False
    have "\<forall>q\<in>set (left_insert k row m). \<not> keys_eq k' (fst q)"
      using left_insert_keys [of _ k row m] Cons.prems False by (fastforce simp: p)
    with Cons False show ?thesis by (simp add: p)
  qed (use Cons.prems in \<open>simp add: p\<close>)
qed simp

lemma distinct_built: "distinct_keys m \<Longrightarrow> distinct_keys (built L m)"
  by (induction L arbitrary: m) (simp_all add: built_def distinct_left_insert)

definition marked :: "'d::linorder row list \<Rightarrow> 'd left_map \<Rightarrow> 'd left_map" where
  "marked qs m = map (\<lambda>(k, i). (k, i\<lparr>lk_matched := lk_matched i \<or> list_ex (keys_eq k) qs\<rparr>)) m"

lemma left_mark_eq: "distinct_keys m \<Longrightarrow> left_mark q m = marked [q] m"
proof (induction m)
  case (Cons p m)
  obtain k i where p: "p = (k, i)" by (cases p)
  show ?case
  proof (cases "keys_eq k q")
    case True
    then have "\<not> keys_eq (fst p') q" if "p' \<in> set m" for p'
      using Cons.prems that keys_eq_equiv(3) [OF True keys_eq_equiv(2)] by (auto simp: p)
    then have "marked [q] m = m" by (auto simp: marked_def intro!: map_idI)
    with True show ?thesis by (simp add: p marked_def)
  next
    case False
    with Cons show ?thesis by (simp add: p marked_def)
  qed
qed (simp add: marked_def)

lemma distinct_marked: "distinct_keys m \<Longrightarrow> distinct_keys (marked qs m)"
  by (simp add: marked_def sorted_wrt_map case_prod_beta)

lemma marked_marked: "marked ps (marked qs m) = marked (qs @ ps) m"
  by (auto simp: marked_def)

lemma fold_mark: "distinct_keys m \<Longrightarrow> fold (\<lambda>kr. left_mark (fst kr)) krs m = marked (map fst krs) m"
proof (induction krs arbitrary: m)
  case Nil
  then show ?case by (auto simp: marked_def intro!: map_idI [symmetric])
next
  case (Cons kr krs)
  then show ?case using Cons.IH [OF distinct_marked [OF Cons.prems, of "[fst kr]"]] by (simp add: left_mark_eq marked_marked)
qed

lemma left_find_marked: "map_option lk_rows (left_find q (marked qs m)) = map_option lk_rows (left_find q m)"
  by (induction m) (auto simp: marked_def)

lemma probe_row_marked: "probe_row ty lw (marked qs m) kr = probe_row ty lw m kr"
  using left_find_marked [of "fst kr" qs m]
  by (cases "left_find (fst kr) m"; cases "left_find (fst kr) (marked qs m)") (simp_all add: probe_row_def)

lemma list_ex_keys_eq: "keys_eq k' k \<Longrightarrow> list_ex (keys_eq k') qs = list_ex (keys_eq k) qs"
  unfolding list_ex_iff using keys_eq_equiv(2,3) by blast

text \<open>The rows of the entries whose key does not satisfy a predicate.\<close>

definition rows_except :: "('d row \<Rightarrow> bool) \<Rightarrow> ('d row \<Rightarrow> 'd row) \<Rightarrow> 'd left_map \<Rightarrow> 'd row list" where
  "rows_except P f m = concat (map (\<lambda>ki. if P (fst ki) then [] else map f (lk_rows (snd ki))) m)"

lemma rows_except_insert:
  assumes "\<And>k'. keys_eq k' k \<Longrightarrow> P k' = P k"
  shows "mset (rows_except P f (left_insert k row m)) = mset (rows_except P f m) + (if P k then {#} else {#f row#})"
proof (induction m)
  case (Cons p m)
  obtain k' i where p: "p = (k', i)" by (cases p)
  show ?case
  proof (cases "keys_eq k' k")
    case True
    with assms [OF True] show ?thesis by (simp add: p rows_except_def)
  next
    case False
    have split: "rows_except P f ((k', i) # m') = rows_except P f [(k', i)] @ rows_except P f m'" for m' by (simp add: rows_except_def)
    show ?thesis unfolding p left_insert.simps if_not_P [OF False] split [of m] split [of "left_insert k row m"] mset_append Cons by (simp add: ac_simps)
  qed
qed (simp add: rows_except_def)

lemma rows_except_built:
  assumes "\<And>k k'. keys_eq k' k \<Longrightarrow> P k' = P k"
  shows "mset (rows_except P f (built L [])) = mset (map (\<lambda>l. f (snd l)) (filter (\<lambda>l. \<not> P (fst l)) L))"
proof (induction L rule: rev_induct)
  case (snoc l L)
  have "built (L @ [l]) [] = left_insert (fst l) (snd l) (built L [])" by (simp add: built_def)
  with snoc rows_except_insert [of "fst l" P f "snd l" "built L []"] assms show ?case by simp
qed (simp add: built_def rows_except_def)

lemma left_insert_unmatched: "\<forall>p\<in>set m. \<not> lk_matched (snd p) \<Longrightarrow> \<forall>p\<in>set (left_insert k row m). \<not> lk_matched (snd p)"
proof (induction m)
  case (Cons p m)
  obtain k' i where p: "p = (k', i)" by (cases p)
  show ?case
  proof (cases "keys_eq k' k")
    case True
    then show ?thesis using Cons.prems by (simp add: p)
  next
    case False
    then show ?thesis using Cons by (simp add: p)
  qed
qed simp

lemma built_unmatched: "\<forall>p\<in>set m. \<not> lk_matched (snd p) \<Longrightarrow> \<forall>p\<in>set (built L m). \<not> lk_matched (snd p)"
proof (induction L arbitrary: m)
  case (Cons l L)
  from Cons.IH [OF left_insert_unmatched [OF Cons.prems]] show ?case by (simp add: built_def)
qed (simp add: built_def)

lemma unmatched_marked:
  "\<forall>p\<in>set m. \<not> lk_matched (snd p) \<Longrightarrow> unmatched_rows rw (marked qs m) = rows_except (\<lambda>k. list_ex (keys_eq k) qs) (\<lambda>l. l @ nulls rw) m"
  unfolding unmatched_rows_def rows_except_def marked_def map_map
  by (intro arg_cong [where f = concat] map_cong refl) (auto simp: case_prod_beta)

lemma mset_concat_map: "mset (concat (map g xs)) = sum_mset (image_mset (mset \<circ> g) (mset xs))"
  by (induction xs) simp_all

lemma unmatched_perm: "mset (ord m) = mset m \<Longrightarrow> mset (unmatched_rows rw (ord m)) = mset (unmatched_rows rw m)"
  unfolding unmatched_rows_def mset_concat_map by simp

lemma concat_if: "concat (map (\<lambda>x. if P x then [f x] else []) xs) = map f (filter P xs)"
  by (induction xs) simp_all

lemma probe_rows_spec:
  "mset (concat (map (probe_row ty lw (built L [])) R))
   = mset (join_pairs L R) + mset (if right_outer ty then map (\<lambda>r. nulls lw @ snd r) (filter (no_partner L) R) else [])"
proof -
  let ?pairs = "\<lambda>r. concat (map (\<lambda>l. if keys_eq (fst l) (fst r) then [snd l @ snd r] else []) L)"
  let ?outer = "\<lambda>r. if right_outer ty \<and> no_partner L r then [nulls lw @ snd r] else []"
  have "probe_row ty lw (built L []) r = ?pairs r @ ?outer r" for r
  proof -
    let ?ls = "filter (\<lambda>l. keys_eq (fst l) (fst r)) L"
    have none: "no_partner L r \<longleftrightarrow> ?ls = []"
      using keys_eq_equiv(2) by (fastforce simp: no_partner_def filter_empty_conv)
    have "?pairs r = map (\<lambda>l. snd l @ snd r) ?ls" by (simp add: concat_if)
    then show ?thesis using none by (cases "?ls = []") (simp_all add: probe_row_def left_find_built Let_def comp_def)
  qed
  then have "mset (concat (map (probe_row ty lw (built L [])) R)) = mset (concat (map ?pairs R)) + mset (concat (map ?outer R))"
    by (simp add: mset_concat_map comp_def sum_mset.distrib)
  moreover have "mset (concat (map ?pairs R)) = mset (join_pairs L R)"
    unfolding join_pairs_def by (rule concat_swap [symmetric])
  moreover have "concat (map ?outer R) = (if right_outer ty then map (\<lambda>r. nulls lw @ snd r) (filter (no_partner L) R) else [])"
    by (simp add: concat_if)
  ultimately show ?thesis by simp
qed

lemma hash_probe_build:
  "join_inputs X right_keys cs = Some R \<Longrightarrow> distinct_keys m \<Longrightarrow>
   hash_probe X ord ty right_keys lw rw cs Finished m b =
     build_stream (co_zero X) (concat (map (probe_row ty lw m) R) @ (if left_outer ty then unmatched_rows rw (ord (marked (map fst R) m)) else [])) b"
proof (induction cs arbitrary: R m b)
  case Nil
  have "marked [] m = m" by (auto simp: marked_def intro!: map_idI)
  with Nil show ?case by simp
next
  case (Cons c cs)
  from Cons.prems(1) obtain R1 R2 where R: "join_input X right_keys c = Some (Inr R1)" "join_inputs X right_keys cs = Some R2" "R = R1 @ R2"
    by (rule join_inputs_Cons)
  let ?m = "marked (map fst R1) m"
  have IH: "hash_probe X ord ty right_keys lw rw cs Finished ?m b' = build_stream (co_zero X)
      (concat (map (probe_row ty lw m) R2) @ (if left_outer ty then unmatched_rows rw (ord (marked (map fst R) m)) else [])) b'" for b'
    using Cons.IH [OF R(2) distinct_marked [OF Cons.prems(2), of "map fst R1"]] by (simp add: probe_row_marked [abs_def] marked_marked R(3))
  have "hash_probe X ord ty right_keys lw rw (c # cs) Finished m b =
      (case push_rows (co_zero X) (concat (map (probe_row ty lw m) R1)) b of (out, r) \<Rightarrow> emit out (run_opt r (hash_probe X ord ty right_keys lw rw cs Finished ?m)))"
    using R(1) by (simp add: fold_mark [OF Cons.prems(2)])
  also have "\<dots> = build_stream (co_zero X) (concat (map (probe_row ty lw m) R1) @ concat (map (probe_row ty lw m) R2)
      @ (if left_outer ty then unmatched_rows rw (ord (marked (map fst R) m)) else [])) b"
    unfolding IH [abs_def] by (rule push_rows_build)
  finally show ?case by (simp add: R(3))
qed

lemma hash_build:
  "join_inputs X left_keys cs = Some L \<Longrightarrow>
   consume (\<lambda>c m. and_then (join_input X left_keys c) (\<lambda>kls. Some (Inr (fold (\<lambda>kl. left_insert (fst kl) (snd kl)) kls m)))) cs Finished m = Inr (built L m)"
proof (induction cs arbitrary: L m)
  case (Cons c cs)
  from Cons.prems obtain L1 L2 where "join_input X left_keys c = Some (Inr L1)" "join_inputs X left_keys cs = Some L2" "L = L1 @ L2"
    by (rule join_inputs_Cons)
  with Cons.IH [of L2] show ?case by (simp add: built_def)
qed (simp add: consume_end_def built_def)

lemma fits_append: "row_fits lt l \<Longrightarrow> row_fits rt r \<Longrightarrow> row_fits (lt @ rt) (l @ r)"
  by (simp add: row_fits_def list_all2_appendI)

lemma fits_nulls: "\<forall>ty\<in>set types. type_variant ty \<noteq> None \<Longrightarrow> row_fits types (nulls (length types))"
  by (simp add: row_fits_def list_all2_conv_all_nth value_fits_def)

lemma join_spec_fits:
  assumes "\<forall>ty\<in>set (lt @ rt). type_variant ty \<noteq> None" and "\<forall>l\<in>set L. row_fits lt (snd l)" and "\<forall>r\<in>set R. row_fits rt (snd r)"
  shows "\<forall>row\<in>set (join_spec ty (length lt) (length rt) L R). row_fits (lt @ rt) row"
proof
  fix row assume "row \<in> set (join_spec ty (length lt) (length rt) L R)"
  then consider l r where "l \<in> set L" "r \<in> set R" "row = snd l @ snd r" | l where "l \<in> set L" "row = snd l @ nulls (length rt)"
    | r where "r \<in> set R" "row = nulls (length lt) @ snd r"
    unfolding join_spec_def join_pairs_def set_append set_concat set_map by (auto split: if_splits)
  then show "row_fits (lt @ rt) row"
  proof cases
    case 1 then show ?thesis using assms by (simp add: fits_append)
  next
    case 2 then show ?thesis using assms by (simp add: fits_append fits_nulls)
  next
    case 3 then show ?thesis using assms by (simp add: fits_append fits_nulls)
  qed
qed

text \<open>C11. A hash join yields a row for every pair of a left and a right row with equal keys, as often as such pairs occur; an outer join
  yields besides each row without a partner once, filled up with nulls. It never panics on rows of the declared types.\<close>

theorem hash_join_rows:
  assumes "join_inputs X left_keys lcs = Some L" and "join_inputs X right_keys rcs = Some R" and "\<And>m. mset (ord m) = mset m"
    and "lt @ rt \<noteq> []" and "\<forall>t\<in>set (lt @ rt). type_variant t \<noteq> None" and "\<forall>l\<in>set L. row_fits lt (snd l)" and "\<forall>r\<in>set R. row_fits rt (snd r)"
  shows "\<exists>ds. hash_join_execute X ord ty left_keys right_keys lt rt (lcs, Finished) (rcs, Finished) = (ds, Finished)
    \<and> mset (rows_in ds) = mset (join_spec ty (length lt) (length rt) L R)"
proof -
  let ?lw = "length lt" and ?rw = "length rt" and ?M = "built L []" and ?qs = "map fst R"
  let ?rows = "concat (map (probe_row ty ?lw ?M) R) @ (if left_outer ty then unmatched_rows ?rw (ord (marked ?qs ?M)) else [])"
  have distinct: "distinct_keys ?M" by (rule distinct_built) simp
  have unmatched: "mset (unmatched_rows ?rw (ord (marked ?qs ?M))) = mset (map (\<lambda>l. snd l @ nulls ?rw) (filter (no_partner R) L))"
  proof -
    have "mset (unmatched_rows ?rw (ord (marked ?qs ?M))) = mset (rows_except (\<lambda>k. list_ex (keys_eq k) ?qs) (\<lambda>l. l @ nulls ?rw) ?M)"
      using unmatched_perm [of ord "marked ?qs ?M" ?rw, OF assms(3)] unmatched_marked [OF built_unmatched, of "[]" ?rw ?qs L] by simp
    also have "\<dots> = mset (map (\<lambda>l. snd l @ nulls ?rw) (filter (\<lambda>l. \<not> list_ex (keys_eq (fst l)) ?qs) L))"
      by (rule rows_except_built) (rule list_ex_keys_eq)
    also have "(\<lambda>l. \<not> list_ex (keys_eq (fst l)) ?qs) = no_partner R" by (rule ext) (simp add: no_partner_def list_ex_iff)
    finally show ?thesis .
  qed
  have rows: "mset ?rows = mset (join_spec ty ?lw ?rw L R)"
    using unmatched probe_rows_spec [of ty ?lw L R] by (simp add: join_spec_def ac_simps)
  then have "\<forall>row\<in>set ?rows. row_fits (lt @ rt) row" using join_spec_fits [OF assms(5-7), of ty] set_of_mset_eq [OF rows] by blast
  from build_rows_spec [OF assms(4,5) this, of "co_zero X"] obtain ds where "build_rows (co_zero X) (lt @ rt) ?rows = (ds, Finished)" "rows_in ds = ?rows" by blast
  moreover have "hash_join_execute X ord ty left_keys right_keys lt rt (lcs, Finished) (rcs, Finished) = build_rows (co_zero X) (lt @ rt) ?rows"
    by (simp add: hash_join_execute_def hash_build [OF assms(1)] hash_probe_build [OF assms(2) distinct, abs_def] build_rows_def)
  ultimately show ?thesis using rows by auto
qed

lemma int_chunk_input:
  "join_input demo_ops (EList [EColumnIndex 0]) (int_chunk xs) = Some (Inr (map (\<lambda>x. ([VInt32 x], [VInt32 x])) xs))"
proof -
  have "eval_list demo_ops (EList [EColumnIndex 0]) (int_chunk xs) = Some (Inr (int_chunk xs))"
    by (simp add: eval_list_def int_chunk_def index_at_def chunk_of_arrays_def rust_assert_def)
  then show ?thesis by (simp add: join_input_def dc_rows_eq zip_map1 zip_map2 zip_same_conv_map)
qed

theorem hash_join_rows_witness:
  "\<exists>ds. hash_join_execute demo_ops rev JFullOuter (EList [EColumnIndex 0]) (EList [EColumnIndex 0]) [TInt32] [TInt32]
        ([int_chunk [1, 2]], Finished) ([int_chunk [2, 3]], Finished) = (ds, Finished)
     \<and> mset (rows_in ds) = {#[VInt32 2, VInt32 2], [VInt32 1, VNull], [VNull, VInt32 3]#}"
proof -
  have input: "join_inputs demo_ops (EList [EColumnIndex 0]) [int_chunk xs] = Some (map (\<lambda>x. ([VInt32 x], [VInt32 x])) xs)" for xs
    by (simp add: int_chunk_input)
  have spec: "join_spec JFullOuter (length [TInt32]) (length [TInt32]) (map (\<lambda>x. ([VInt32 x], [VInt32 x])) [1, 2]) (map (\<lambda>x. ([VInt32 x], [VInt32 x])) [2, 3])
      = [[VInt32 2, VInt32 2], [VInt32 1, VNull], [VNull, VInt32 3]]"
    by (simp add: join_spec_def join_pairs_def no_partner_def left_outer_def right_outer_def keys_eq_def value_eq_def value_cmp_def cmp_of_def)
  have "\<exists>ds. hash_join_execute demo_ops rev JFullOuter (EList [EColumnIndex 0]) (EList [EColumnIndex 0]) [TInt32] [TInt32]
        ([int_chunk [1, 2]], Finished) ([int_chunk [2, 3]], Finished) = (ds, Finished)
     \<and> mset (rows_in ds) = mset (join_spec JFullOuter (length [TInt32]) (length [TInt32]) (map (\<lambda>x. ([VInt32 x], [VInt32 x])) [1, 2]) (map (\<lambda>x. ([VInt32 x], [VInt32 x])) [2, 3]))"
    by (rule hash_join_rows [OF input input]) (simp_all add: row_fits_def value_fits_def)
  then show ?thesis unfolding spec by simp
qed

end
