(* ===== verification/Merge_Laws.thy ===== *)
theory Merge_Laws
  imports Join_Laws
begin

text \<open>
  The merge join on sorted inputs, and the semi joins. A merge join groups the rows of each input by
  their keys and walks over both lists of groups; for inputs in the order of their keys it yields the same
  rows as the hash join.
\<close>

section \<open>The order of keys\<close>

abbreviation key_le :: "'d::linorder row \<Rightarrow> 'd row \<Rightarrow> bool" where
  "key_le k l \<equiv> keys_cmp k l \<noteq> Greater"

lemma keys_cmp_reverse: "keys_cmp l k = cmp_reverse (keys_cmp k l)"
proof (induction k l rule: keys_cmp.induct)
  case (4 u us v vs)
  then show ?case by (cases "value_cmp u v") (simp_all add: value_cmp_reverse [of v u])
qed simp_all

lemma keys_cmp_Equal: "keys_cmp k l = Equal \<longleftrightarrow> keys_eq k l"
proof (induction k l rule: keys_cmp.induct)
  case (4 u us v vs)
  then show ?case by (cases "value_cmp u v") (simp_all add: keys_eq_def value_eq_def)
qed (simp_all add: keys_eq_def)

lemma key_le_Cons: "key_le (u # k) (v # l) \<longleftrightarrow> value_le u v \<and> (value_le v u \<longrightarrow> key_le k l)"
  using value_le_total [of u v] by (auto simp: value_cmp_eq)

lemma key_le_trans: "key_le k l \<Longrightarrow> key_le l m \<Longrightarrow> key_le k m"
proof (induction k arbitrary: l m)
  case Nil
  then show ?case by (cases m) simp_all
next
  case (Cons u k)
  show ?case
  proof (cases "l = [] \<or> m = []")
    case False
    then obtain v l' w m' where lm: "l = v # l'" "m = w # m'" by (meson neq_Nil_conv)
    note prems = Cons.prems [unfolded lm, THEN key_le_Cons [THEN iffD1]]
    have "value_le u w \<and> (value_le w u \<longrightarrow> key_le k m')"
      using prems Cons.IH [of l' m'] value_le_trans [of u v w] value_le_trans [of w u v] value_le_trans [of v w u] by blast
    then show ?thesis unfolding lm by (rule key_le_Cons [THEN iffD2])
  next
    case True
    then show ?thesis using Cons.prems by (cases l) auto
  qed
qed

abbreviation key_less :: "'d::linorder row \<Rightarrow> 'd row \<Rightarrow> bool" where
  "key_less k l \<equiv> keys_cmp k l = Less"

lemma key_less_iff: "key_less k l \<longleftrightarrow> key_le k l \<and> \<not> key_le l k"
  using keys_cmp_reverse [of l k] by (cases "keys_cmp k l") auto

lemma key_less_trans: "key_less k l \<Longrightarrow> key_le l m \<Longrightarrow> key_less k m" "key_le k l \<Longrightarrow> key_less l m \<Longrightarrow> key_less k m"
  unfolding key_less_iff using key_le_trans by blast+

lemma keys_eq_le: "keys_eq k l \<longleftrightarrow> key_le k l \<and> key_le l k"
  unfolding keys_cmp_Equal [symmetric] using keys_cmp_reverse [of l k] by (cases "keys_cmp k l") auto

lemma key_le_refl: "key_le k k"
  using keys_eq_equiv(1) keys_eq_le by blast

lemma key_less_neq: "key_less k l \<Longrightarrow> \<not> keys_eq k l \<and> \<not> keys_eq l k"
  by (simp add: key_less_iff keys_eq_le)

section \<open>Groups\<close>

definition ungroup :: "'d group list \<Rightarrow> ('d row \<times> 'd row) list" where
  "ungroup gs = concat (map (\<lambda>g. map (Pair (fst g)) (snd g)) gs)"

lemma ungroup_simps [simp]: "ungroup [] = []" "ungroup (g # gs) = map (Pair (fst g)) (snd g) @ ungroup gs" "ungroup (gs @ gs') = ungroup gs @ ungroup gs'"
  by (simp_all add: ungroup_def)

text \<open>Rows with the same keys up to equality, and so with the same partners.\<close>

abbreviation same_rows :: "('d::linorder row \<times> 'd row) list \<Rightarrow> ('d row \<times> 'd row) list \<Rightarrow> bool" where
  "same_rows \<equiv> list_all2 (\<lambda>a b. keys_eq (fst a) (fst b) \<and> snd a = snd b)"

lemma same_rows_refl: "same_rows L L"
  by (simp add: list_all2_refl keys_eq_equiv(1))

lemma same_rows_trans: "same_rows A B \<Longrightarrow> same_rows B C \<Longrightarrow> same_rows A C"
  by (erule (1) list_all2_trans [rotated]) (simp, blast intro: keys_eq_equiv(3))

lemma no_partner_same:
  assumes "keys_eq (fst a) (fst b)" and "same_rows L L'"
  shows "no_partner L a = no_partner L' b"
proof -
  have "keys_eq (fst a) (fst (L ! i)) = keys_eq (fst b) (fst (L' ! i))" if "i < length L" for i
    using list_all2_nthD [OF assms(2) that] assms(1) keys_eq_cong by blast
  then show ?thesis using list_all2_lengthD [OF assms(2)] by (simp add: no_partner_def all_set_conv_all_nth)
qed

lemma filter_same: "same_rows L L' \<Longrightarrow> same_rows R R' \<Longrightarrow> map (\<lambda>l. f (snd l)) (filter (no_partner R) L) = map (\<lambda>l. f (snd l)) (filter (no_partner R') L')"
proof (induction rule: list_all2_induct)
  case (Cons a L b L')
  then show ?case using no_partner_same [of a b R R'] by simp
qed simp

lemma join_pairs_same:
  assumes "same_rows L L'" and "same_rows R R'"
  shows "join_pairs L R = join_pairs L' R'"
proof -
  have row: "concat (map (\<lambda>r. if keys_eq (fst a) (fst r) then [snd a @ snd r] else []) R)
      = concat (map (\<lambda>r. if keys_eq (fst b) (fst r) then [snd b @ snd r] else []) R')" if "keys_eq (fst a) (fst b) \<and> snd a = snd b" for a b
    using assms(2)
  proof (induction rule: list_all2_induct)
    case (Cons r R r' R')
    then have "keys_eq (fst a) (fst r) = keys_eq (fst b) (fst r')" using that keys_eq_cong by blast
    with Cons that show ?case by simp
  qed simp
  show ?thesis using assms(1) unfolding join_pairs_def by (induction rule: list_all2_induct) (simp_all add: row)
qed

lemma join_spec_same: "same_rows L L' \<Longrightarrow> same_rows R R' \<Longrightarrow> join_spec ty lw rw L R = join_spec ty lw rw L' R'"
  unfolding join_spec_def using join_pairs_same [of L L' R R'] filter_same [of L L' R R' "\<lambda>l. l @ nulls rw"] filter_same [of R R' L L' "\<lambda>r. nulls lw @ r"]
  by simp


definition groups :: "('d::linorder row \<times> 'd row) list \<Rightarrow> 'd group \<Rightarrow> 'd group list" where
  "groups kvs g = (case group_chunk kvs g of (gs, g') \<Rightarrow> gs @ yield_group g')"

lemma groups_simps [simp]:
  "groups [] g = yield_group g"
  "groups ((k, row) # kvs) g = (if keys_eq (fst g) k then groups kvs (fst g, snd g @ [row]) else yield_group g @ groups kvs (k, [row]))"
  by (simp_all add: groups_def split: prod.split)

lemma groups_append: "group_chunk kvs g = (gs, g') \<Longrightarrow> groups (kvs @ kvs') g = gs @ groups kvs' g'"
proof (induction kvs g arbitrary: gs rule: group_chunk.induct)
  case (2 k row kvs g)
  show ?case
  proof (cases "keys_eq (fst g) k")
    case False
    obtain hs h where "group_chunk kvs (k, [row]) = (hs, h)" by (cases "group_chunk kvs (k, [row])")
    with 2 False show ?thesis by auto
  qed (use 2 in simp)
qed simp

lemma group_by_keys_groups: "join_inputs X keys cs = Some kvs \<Longrightarrow> group_by_keys X keys cs Finished g = (groups kvs g, Finished)"
proof (induction cs arbitrary: kvs g)
  case (Cons c cs)
  from Cons.prems obtain kvs1 kvs2 where kvs: "join_input X keys c = Some (Inr kvs1)" "join_inputs X keys cs = Some kvs2" "kvs = kvs1 @ kvs2"
    by (rule join_inputs_Cons)
  obtain gs g' where "group_chunk kvs1 g = (gs, g')" by (cases "group_chunk kvs1 g")
  with kvs Cons.IH [OF kvs(2), of g'] groups_append [of kvs1 g gs g' kvs2] show ?case by simp
qed simp

text \<open>Rows in the order of their keys; groups in strict order, none of them empty.\<close>

abbreviation sorted_keys :: "('d::linorder row \<times> 'd row) list \<Rightarrow> bool" where
  "sorted_keys kvs \<equiv> sorted_wrt (\<lambda>a b. key_le (fst a) (fst b)) kvs"

definition sorted_groups :: "'d::linorder group list \<Rightarrow> bool" where
  "sorted_groups gs \<longleftrightarrow> sorted_wrt (\<lambda>g h. key_less (fst g) (fst h)) gs \<and> (\<forall>g\<in>set gs. snd g \<noteq> [])"

lemma groups_spec:
  assumes "sorted_keys kvs" and "\<forall>kv\<in>set kvs. fst kv \<noteq> [] \<and> key_le (fst g) (fst kv)" and "fst g \<noteq> []" and "snd g \<noteq> []"
  shows "sorted_groups (groups kvs g) \<and> (\<forall>h\<in>set (groups kvs g). key_le (fst g) (fst h))
    \<and> same_rows (ungroup (groups kvs g)) (map (Pair (fst g)) (snd g) @ kvs)"
  using assms
proof (induction kvs arbitrary: g)
  case Nil
  then show ?case by (simp add: sorted_groups_def yield_group_def same_rows_refl key_le_refl)
next
  case (Cons kv kvs)
  obtain k row where kv: "kv = (k, row)" by (cases kv)
  show ?case
  proof (cases "keys_eq (fst g) k")
    case True
    have "same_rows (map (Pair (fst g)) (snd g) @ (fst g, row) # kvs) (map (Pair (fst g)) (snd g) @ (k, row) # kvs)"
      using True by (intro list_all2_appendI same_rows_refl) (simp add: same_rows_refl)
    moreover have "same_rows (ungroup (groups kvs (fst g, snd g @ [row]))) (map (Pair (fst g)) (snd g) @ (fst g, row) # kvs)"
      using Cons.IH [of "(fst g, snd g @ [row])"] Cons.prems by simp
    ultimately have "same_rows (ungroup (groups kvs (fst g, snd g @ [row]))) (map (Pair (fst g)) (snd g) @ (k, row) # kvs)"
      by (rule same_rows_trans [rotated])
    then show ?thesis using Cons.IH [of "(fst g, snd g @ [row])"] Cons.prems True by (simp add: kv)
  next
    case False
    have le: "key_le (fst g) k" using Cons.prems(2) by (simp add: kv)
    with False have less: "key_less (fst g) k" by (simp add: key_less_iff keys_eq_le)
    have IH: "sorted_groups (groups kvs (k, [row])) \<and> (\<forall>h\<in>set (groups kvs (k, [row])). key_le k (fst h)) \<and> same_rows (ungroup (groups kvs (k, [row]))) ((k, row) # kvs)"
      using Cons.IH [of "(k, [row])"] Cons.prems by (simp add: kv)
    moreover have "\<forall>h\<in>set (groups kvs (k, [row])). key_less (fst g) (fst h)" using IH key_less_trans(1) [OF less] by blast
    ultimately show ?thesis using False Cons.prems(3,4)
      by (simp add: kv yield_group_def sorted_groups_def list_all2_appendI same_rows_refl key_le_refl)
  qed
qed

lemma groups_sorted:
  assumes "sorted_keys kvs" and "\<forall>kv\<in>set kvs. fst kv \<noteq> []"
  shows "sorted_groups (groups kvs ([], [])) \<and> same_rows (ungroup (groups kvs ([], []))) kvs"
proof (cases kvs)
  case Nil
  then show ?thesis by (simp add: sorted_groups_def yield_group_def)
next
  case (Cons kv kvs')
  obtain k row where kv: "kv = (k, row)" by (cases kv)
  have "\<not> keys_eq [] k" using assms(2) by (simp add: Cons kv keys_eq_def)
  moreover have "sorted_groups (groups kvs' (k, [row])) \<and> same_rows (ungroup (groups kvs' (k, [row]))) ((k, row) # kvs')"
    using groups_spec [of kvs' "(k, [row])"] assms by (simp add: Cons kv)
  ultimately show ?thesis by (simp add: Cons kv yield_group_def)
qed

section \<open>Merging groups\<close>

function merge_rows :: "join_type \<Rightarrow> nat \<Rightarrow> nat \<Rightarrow> 'd::linorder group list \<Rightarrow> 'd group list \<Rightarrow> 'd row list" where
  "merge_rows ty lw rw gl gr =
     (case (gl, gr) of
        ([], []) \<Rightarrow> []
      | (l # gl', r # gr') \<Rightarrow>
          (case keys_cmp (fst l) (fst r) of
             Equal \<Rightarrow> cross_rows (snd l) (snd r) @ merge_rows ty lw rw gl' gr'
           | Less \<Rightarrow> (if left_outer ty then map (\<lambda>l. l @ nulls rw) (snd l) else []) @ merge_rows ty lw rw gl' gr
           | Greater \<Rightarrow> (if right_outer ty then map (\<lambda>r. nulls lw @ r) (snd r) else []) @ merge_rows ty lw rw gl gr')
      | (l # gl', []) \<Rightarrow> (if left_outer ty then map (\<lambda>l. l @ nulls rw) (snd l) else []) @ merge_rows ty lw rw gl' []
      | ([], r # gr') \<Rightarrow> (if right_outer ty then map (\<lambda>r. nulls lw @ r) (snd r) else []) @ merge_rows ty lw rw [] gr')"
  by pat_completeness auto
termination by (relation "measure (\<lambda>(ty, lw, rw, gl, gr). length gl + length gr)") auto

declare merge_rows.simps [simp del]

lemma pushing_build: "pushing z rows b (build_stream z rest) = build_stream z (rows @ rest) b"
  unfolding pushing_def by (rule push_rows_build)

lemma merge_loop_build: "merge_loop z ty lw rw Finished Finished gl gr b = build_stream z (merge_rows ty lw rw gl gr) b"
proof (induction "length gl + length gr" arbitrary: gl gr b rule: less_induct)
  case less
  have IH: "merge_loop z ty lw rw Finished Finished gl' gr' = build_stream z (merge_rows ty lw rw gl' gr')" if "length gl' + length gr' < length gl + length gr" for gl' gr'
    by (rule ext) (rule less [OF that])
  note unfold = merge_loop.simps [of z ty lw rw _ _ gl gr] merge_rows.simps [of ty lw rw gl gr]
  note outer = fetched_def pushing_build [symmetric] IH
  show ?case
  proof (cases gl; cases gr)
    fix l gl' r gr' assume g: "gl = l # gl'" "gr = r # gr'"
    then show ?thesis unfolding unfold by (cases "keys_cmp (fst l) (fst r)"; cases l; cases r) (simp_all add: outer)
  next
    fix l gl' assume g: "gl = l # gl'" "gr = []"
    then show ?thesis unfolding unfold by (cases l) (simp add: outer)
  next
    fix r gr' assume g: "gl = []" "gr = r # gr'"
    then show ?thesis unfolding unfold by (cases r) (simp add: outer)
  qed (simp add: merge_loop.simps merge_rows.simps)
qed

lemma join_pairs_append:
  "join_pairs (A @ L) R = join_pairs A R @ join_pairs L R"
  "mset (join_pairs L (B @ R)) = mset (join_pairs L B) + mset (join_pairs L R)"
proof -
  show "mset (join_pairs L (B @ R)) = mset (join_pairs L B) + mset (join_pairs L R)"
    by (induction L) (simp_all add: join_pairs_def ac_simps)
qed (simp add: join_pairs_def)

lemma join_pairs_empty: "\<forall>l\<in>set L. no_partner R l \<Longrightarrow> join_pairs L R = []"
  by (simp add: join_pairs_def no_partner_def)

lemma no_partner_sym: "(\<forall>a\<in>set A. no_partner R a) \<longleftrightarrow> (\<forall>r\<in>set R. no_partner A r)"
  unfolding no_partner_def using keys_eq_equiv(2) by blast

lemma no_partner_append: "no_partner (B @ R) a \<longleftrightarrow> no_partner B a \<and> no_partner R a"
  by (auto simp: no_partner_def)

lemma join_spec_split:
  assumes "\<forall>a\<in>set A. no_partner R a" and "\<forall>b\<in>set B. no_partner L b"
  shows "mset (join_spec ty lw rw (A @ L) (B @ R)) = mset (join_spec ty lw rw A B) + mset (join_spec ty lw rw L R)"
proof -
  note sym = no_partner_sym [THEN iffD1, OF assms(1)] no_partner_sym [THEN iffD1, OF assms(2)]
  have left: "filter (no_partner (B @ R)) (A @ L) = filter (no_partner B) A @ filter (no_partner R) L"
    unfolding filter_append using assms(1) sym(2) by (intro arg_cong2 [where f = "(@)"] filter_cong) (simp_all add: no_partner_append)
  have right: "filter (no_partner (A @ L)) (B @ R) = filter (no_partner A) B @ filter (no_partner L) R"
    unfolding filter_append using assms(2) sym(1) by (intro arg_cong2 [where f = "(@)"] filter_cong) (simp_all add: no_partner_append)
  have "mset (join_pairs (A @ L) (B @ R)) = mset (join_pairs A B) + mset (join_pairs L R)"
    using join_pairs_empty [OF assms(1)] join_pairs_empty [OF sym(2)] by (simp add: join_pairs_append)
  then show ?thesis unfolding join_spec_def left right by (simp add: ac_simps)
qed

lemma join_spec_groups:
  assumes "keys_eq lk rk" and "ls \<noteq> []" and "rs \<noteq> []"
  shows "join_spec ty lw rw (map (Pair lk) ls) (map (Pair rk) rs) = cross_rows ls rs"
proof -
  have "\<not> no_partner (map (Pair rk) rs) (lk, l)" "\<not> no_partner (map (Pair lk) ls) (rk, r)" for l r
    using assms keys_eq_equiv(2) [OF assms(1)] by (auto simp: no_partner_def ex_in_conv)
  moreover have "join_pairs (map (Pair lk) ls) (map (Pair rk) rs) = cross_rows ls rs"
    using assms(1) by (simp add: join_pairs_def cross_rows_def comp_def)
  ultimately show ?thesis by (simp add: join_spec_def filter_map comp_def)
qed

lemma ungroup_no_partner: "\<forall>h\<in>set gs. \<not> keys_eq k (fst h) \<Longrightarrow> \<forall>a\<in>set (map (Pair k) rows). no_partner (ungroup gs) a"
  by (fastforce simp: ungroup_def no_partner_def)

text \<open>A group without a partner on the other side, and two groups that are partners.\<close>

lemma join_spec_left_group:
  assumes "\<forall>h\<in>set gr. \<not> keys_eq (fst g) (fst h)"
  shows "mset (join_spec ty lw rw (ungroup (g # gl)) (ungroup gr))
    = mset (if left_outer ty then map (\<lambda>l. l @ nulls rw) (snd g) else []) + mset (join_spec ty lw rw (ungroup gl) (ungroup gr))"
proof -
  have "\<forall>a\<in>set (map (Pair (fst g)) (snd g)). no_partner (ungroup gr) a" by (rule ungroup_no_partner [OF assms])
  from join_spec_split [OF this, of "[]"] show ?thesis by (simp add: join_spec_def join_pairs_def no_partner_def comp_def)
qed

lemma join_spec_right_group:
  assumes "\<forall>h\<in>set gl. \<not> keys_eq (fst g) (fst h)"
  shows "mset (join_spec ty lw rw (ungroup gl) (ungroup (g # gr)))
    = mset (if right_outer ty then map (\<lambda>r. nulls lw @ r) (snd g) else []) + mset (join_spec ty lw rw (ungroup gl) (ungroup gr))"
proof -
  have "\<forall>b\<in>set (map (Pair (fst g)) (snd g)). no_partner (ungroup gl) b" by (rule ungroup_no_partner [OF assms])
  from join_spec_split [of "[]", OF _ this] show ?thesis by (simp add: join_spec_def join_pairs_def no_partner_def comp_def)
qed

lemma join_spec_both_groups:
  assumes "keys_eq (fst g) (fst h)" and "snd g \<noteq> []" and "snd h \<noteq> []"
    and "\<forall>i\<in>set gr. \<not> keys_eq (fst g) (fst i)" and "\<forall>i\<in>set gl. \<not> keys_eq (fst h) (fst i)"
  shows "mset (join_spec ty lw rw (ungroup (g # gl)) (ungroup (h # gr)))
    = mset (cross_rows (snd g) (snd h)) + mset (join_spec ty lw rw (ungroup gl) (ungroup gr))"
proof -
  have "\<forall>a\<in>set (map (Pair (fst g)) (snd g)). no_partner (ungroup gr) a" "\<forall>b\<in>set (map (Pair (fst h)) (snd h)). no_partner (ungroup gl) b"
    by (rule ungroup_no_partner [OF assms(4)], rule ungroup_no_partner [OF assms(5)])
  from join_spec_split [OF this] show ?thesis by (simp add: join_spec_groups [OF assms(1-3)])
qed

lemma merge_rows_spec:
  "sorted_groups gl \<Longrightarrow> sorted_groups gr \<Longrightarrow> mset (merge_rows ty lw rw gl gr) = mset (join_spec ty lw rw (ungroup gl) (ungroup gr))"
proof (induction "length gl + length gr" arbitrary: gl gr rule: less_induct)
  case less
  have tl: "sorted_groups gs \<and> snd g \<noteq> [] \<and> (\<forall>h\<in>set gs. key_less (fst g) (fst h))" if "sorted_groups (g # gs)" for g :: "'a group" and gs
    using that by (simp add: sorted_groups_def)
  note unfold = merge_rows.simps [of ty lw rw gl gr]
  show ?case
  proof (cases gl; cases gr)
    fix g gl' h gr' assume [simp]: "gl = g # gl'" "gr = h # gr'"
    note gl = tl [of g gl'] and gr = tl [of h gr']
    show ?thesis
    proof (cases "keys_cmp (fst g) (fst h)")
      case Equal
      then have eq: "keys_eq (fst g) (fst h)" by (simp add: keys_cmp_Equal)
      have "\<forall>i\<in>set gr'. \<not> keys_eq (fst h) (fst i)" "\<forall>i\<in>set gl'. \<not> keys_eq (fst g) (fst i)"
        using less.prems gl gr by (simp_all add: key_less_neq)
      then have "\<forall>i\<in>set gr'. \<not> keys_eq (fst g) (fst i)" "\<forall>i\<in>set gl'. \<not> keys_eq (fst h) (fst i)"
        by (simp_all add: keys_eq_cong(1) [OF eq])
      from join_spec_both_groups [OF eq _ _ this] Equal less gl gr show ?thesis unfolding unfold by simp
    next
      case Less
      have "\<forall>i\<in>set gr. \<not> keys_eq (fst g) (fst i)"
        using less.prems gr Less key_less_neq key_less_trans(1) [OF Less] key_less_iff by auto
      from join_spec_left_group [OF this, of ty lw rw gl'] Less less gl show ?thesis unfolding unfold by simp
    next
      case Greater
      then have greater: "key_less (fst h) (fst g)" using keys_cmp_reverse [of "fst h" "fst g"] by simp
      have "\<forall>i\<in>set gl. \<not> keys_eq (fst h) (fst i)"
        using less.prems gl greater key_less_neq key_less_trans(1) [OF greater] key_less_iff by auto
      from join_spec_right_group [OF this, of ty lw rw gr'] Greater less gr show ?thesis unfolding unfold by simp
    qed
  next
    fix g gl' assume "gl = g # gl'" "gr = []"
    then show ?thesis using less tl [of g gl'] join_spec_left_group [of "[]" g ty lw rw gl'] unfolding unfold by simp
  next
    fix h gr' assume "gl = []" "gr = h # gr'"
    then show ?thesis using less tl [of h gr'] join_spec_right_group [of "[]" h ty lw rw gr'] unfolding unfold by simp
  qed (simp add: merge_rows.simps join_spec_def join_pairs_def)
qed

text \<open>C12. On inputs sorted by their keys, with at least one key, a merge join yields the rows the hash join yields: every pair of rows
  with equal keys, and in an outer join the rows without a partner filled up with nulls.\<close>

theorem merge_join_rows:
  assumes "join_inputs X left_keys lcs = Some L" and "join_inputs X right_keys rcs = Some R"
    and "sorted_keys L" and "sorted_keys R" and "\<forall>kv\<in>set (L @ R). fst kv \<noteq> []"
    and "lt @ rt \<noteq> []" and "\<forall>t\<in>set (lt @ rt). type_variant t \<noteq> None" and "\<forall>l\<in>set L. row_fits lt (snd l)" and "\<forall>r\<in>set R. row_fits rt (snd r)"
  shows "\<exists>ds. merge_join_execute X ty left_keys right_keys lt rt (lcs, Finished) (rcs, Finished) = (ds, Finished)
    \<and> mset (rows_in ds) = mset (join_spec ty (length lt) (length rt) L R)"
proof -
  let ?gl = "groups L ([], [])" and ?gr = "groups R ([], [])" and ?rows = "merge_rows ty (length lt) (length rt)"
  have gl: "sorted_groups ?gl" "same_rows (ungroup ?gl) L" using groups_sorted [OF assms(3)] assms(5) by simp_all
  have gr: "sorted_groups ?gr" "same_rows (ungroup ?gr) R" using groups_sorted [OF assms(4)] assms(5) by simp_all
  have rows: "mset (?rows ?gl ?gr) = mset (join_spec ty (length lt) (length rt) L R)"
    using merge_rows_spec [OF gl(1) gr(1)] join_spec_same [OF gl(2) gr(2)] by simp
  then have "\<forall>row\<in>set (?rows ?gl ?gr). row_fits (lt @ rt) row" using join_spec_fits [OF assms(7-9), of ty] set_of_mset_eq [OF rows] by blast
  from build_rows_spec [OF assms(6,7) this, of "co_zero X"] obtain ds where "build_rows (co_zero X) (lt @ rt) (?rows ?gl ?gr) = (ds, Finished)" "rows_in ds = ?rows ?gl ?gr" by blast
  moreover have "merge_join_execute X ty left_keys right_keys lt rt (lcs, Finished) (rcs, Finished) = build_rows (co_zero X) (lt @ rt) (?rows ?gl ?gr)"
    by (simp add: merge_join_execute_def group_by_keys_groups [OF assms(1)] group_by_keys_groups [OF assms(2)] fetched_def merge_loop_build [abs_def] build_rows_def)
  ultimately show ?thesis using rows by auto
qed

theorem merge_join_rows_witness:
  "\<exists>ds. merge_join_execute demo_ops JFullOuter (EList [EColumnIndex 0]) (EList [EColumnIndex 0]) [TInt32] [TInt32]
        ([int_chunk [1, 2], int_chunk [2]], Finished) ([int_chunk [2, 3]], Finished) = (ds, Finished)
     \<and> mset (rows_in ds) = {#[VInt32 2, VInt32 2], [VInt32 2, VInt32 2], [VInt32 1, VNull], [VNull, VInt32 3]#}"
proof -
  let ?in = "map (\<lambda>x. ([VInt32 x], [VInt32 x]))"
  have input: "join_inputs demo_ops (EList [EColumnIndex 0]) [int_chunk [1, 2], int_chunk [2]] = Some (?in [1, 2, 2])"
    "join_inputs demo_ops (EList [EColumnIndex 0]) [int_chunk [2, 3]] = Some (?in [2, 3])"
    by (simp_all add: int_chunk_input)
  have spec: "join_spec JFullOuter (length [TInt32]) (length [TInt32]) (?in [1, 2, 2]) (?in [2, 3])
      = [[VInt32 2, VInt32 2], [VInt32 2, VInt32 2], [VInt32 1, VNull], [VNull, VInt32 3]]"
    by (simp add: join_spec_def join_pairs_def no_partner_def left_outer_def right_outer_def keys_eq_def value_eq_def value_cmp_def cmp_of_def)
  have "\<exists>ds. merge_join_execute demo_ops JFullOuter (EList [EColumnIndex 0]) (EList [EColumnIndex 0]) [TInt32] [TInt32]
        ([int_chunk [1, 2], int_chunk [2]], Finished) ([int_chunk [2, 3]], Finished) = (ds, Finished)
     \<and> mset (rows_in ds) = mset (join_spec JFullOuter (length [TInt32]) (length [TInt32]) (?in [1, 2, 2]) (?in [2, 3]))"
    by (rule merge_join_rows [OF input]) (simp_all add: row_fits_def value_fits_def value_cmp_def cmp_of_def)
  then show ?thesis unfolding spec by simp
qed

section \<open>Hash semi join\<close>

lemma key_insert_ex: "list_ex (\<lambda>k'. keys_eq k' k) (key_insert q ks) \<longleftrightarrow> list_ex (\<lambda>k'. keys_eq k' k) ks \<or> keys_eq q k"
  using keys_eq_equiv(2,3) by (auto simp: key_insert_def list_ex_iff) blast

lemma fold_key_insert: "list_ex (\<lambda>k'. keys_eq k' k) (fold key_insert qs ks) \<longleftrightarrow> list_ex (\<lambda>k'. keys_eq k' k) ks \<or> list_ex (\<lambda>k'. keys_eq k' k) qs"
  by (induction qs arbitrary: ks) (auto simp: key_insert_ex)

text \<open>The rows of keys of a list of chunks.\<close>

fun key_inputs :: "'d::linorder conv_ops \<Rightarrow> 'd expr \<Rightarrow> 'd data_chunk list \<Rightarrow> 'd row list option" where
  "key_inputs X keys [] = Some []"
| "key_inputs X keys (c # cs) =
     (case and_then (eval_list X keys c) (\<lambda>d. ok (dc_rows d)) of Some (Inr ks) \<Rightarrow> map_option ((@) ks) (key_inputs X keys cs) | _ \<Rightarrow> None)"

lemma consume_keys:
  "key_inputs X keys cs = Some ks \<Longrightarrow>
   consume (\<lambda>c s. and_then (eval_list X keys c) (\<lambda>d. ok (map_option (\<lambda>rows. fold key_insert rows s) (dc_rows d)))) cs Finished s = Inr (fold key_insert ks s)"
proof (induction cs arbitrary: ks s)
  case (Cons c cs)
  then obtain d rows ks' where "eval_list X keys c = Some (Inr d)" "dc_rows d = Some rows" "key_inputs X keys cs = Some ks'" "ks = rows @ ks'"
    by (auto simp: and_then_def ok_def split: option.splits sum.splits)
  with Cons.IH [of ks'] show ?case by simp
qed (simp add: consume_end_def)

text \<open>Whether the keys of a row occur among given keys.\<close>

definition has_key :: "'d::linorder conv_ops \<Rightarrow> 'd expr list \<Rightarrow> 'd row list \<Rightarrow> 'd row \<Rightarrow> bool" where
  "has_key X es ks row \<longleftrightarrow> list_ex (\<lambda>k. keys_eq k (row_keys X es row)) ks"

lemma semi_probe_rows:
  assumes "good_chunk c" and "those (map (expr_variant (map ai_type (dc_arrays c))) es) = Some us"
  shows "case semi_probe X anti (EList es) (fold key_insert ks []) c of
      None \<Rightarrow> list_ex has_arith es
    | Some (Inl err) \<Rightarrow> False
    | Some (Inr d) \<Rightarrow> dc_wf d \<and> chunk_rows d = filter (\<lambda>row. has_key X es ks row \<noteq> anti) (chunk_rows c)"
proof -
  from eval_list_rows [OF assms, of X] consider "eval_list X (EList es) c = None" "list_ex has_arith es"
    | d where "eval_list X (EList es) c = Some (Inr d)" "good_chunk d" "dc_cardinality d = dc_cardinality c"
      "map Some (chunk_rows d) = map (row_eval_list X es) (chunk_rows c)" by (auto split: option.splits sum.splits)
  then show ?thesis
  proof cases
    case 2
    have "chunk_rows d = map (row_keys X es) (chunk_rows c)"
    proof -
      have "map the (map Some (chunk_rows d)) = map the (map (row_eval_list X es) (chunk_rows c))" by (simp only: 2(4))
      then show ?thesis by (simp add: comp_def row_keys_def [abs_def])
    qed
    then have vis: "map (\<lambda>k. list_ex (\<lambda>k'. keys_eq k' k) (fold key_insert ks []) \<noteq> anti) (chunk_rows d)
        = map (\<lambda>row. has_key X es ks row \<noteq> anti) (chunk_rows c)"
      by (simp add: fold_key_insert has_key_def)
    have probe: "semi_probe X anti (EList es) (fold key_insert ks []) c
        = ok (dc_filter (map (\<lambda>k. list_ex (\<lambda>k'. keys_eq k' k) (fold key_insert ks []) \<noteq> anti) (chunk_rows d)) c)"
      using 2(1) good_chunk_wf [OF 2(2)] by (simp add: semi_probe_def dc_rows_eq)
    show ?thesis unfolding probe vis
      using dc_filter_spec [OF good_chunk_wf [OF assms(1)], of "map (\<lambda>row. has_key X es ks row \<noteq> anti) (chunk_rows c)"]
      by (auto simp: select_map_filter)
  qed (simp add: semi_probe_def)
qed

text \<open>C18. A hash semi join keeps exactly the left rows whose keys occur on the right side, an anti join those whose keys do not,
  each once and in their order, however often a key occurs on the right.\<close>

theorem hash_semi_join_rows:
  assumes "typed_batches ts lcs" and "those (map (expr_variant ts) es) = Some us" and "key_inputs X right_keys rcs = Some ks"
  shows "\<exists>ds. hash_semi_join_execute X anti (EList es) right_keys (lcs, e) (rcs, Finished) = (ds, Panicked) \<and> list_ex has_arith es
    \<or> hash_semi_join_execute X anti (EList es) right_keys (lcs, e) (rcs, Finished) = (ds, e)
      \<and> batches_ok ds \<and> rows_in ds = filter (\<lambda>row. has_key X es ks row \<noteq> anti) (rows_in lcs)"
proof -
  let ?P = "\<lambda>row. has_key X es ks row \<noteq> anti" and ?f = "semi_probe X anti (EList es) (fold key_insert ks [])"
  have "case ?f c of None \<Rightarrow> list_ex has_arith es | Some (Inl err) \<Rightarrow> False
      | Some (Inr d) \<Rightarrow> dc_wf d \<and> chunk_rows d = filter ?P (chunk_rows c)" if "c \<in> set lcs" for c
    using assms(1,2) that semi_probe_rows [of c es us X] by (simp add: typed_batches_def list_all_iff)
  from map_stream_rows [where f = ?f and cs = lcs and e = e, OF this] obtain ds where
    "map_stream ?f lcs e = (ds, Panicked) \<and> list_ex has_arith es
     \<or> map_stream ?f lcs e = (ds, e) \<and> batches_ok ds \<and> map chunk_rows ds = map (filter ?P) (map chunk_rows lcs)" by blast
  then show ?thesis by (intro exI [of _ ds]) (auto simp: hash_semi_join_execute_def consume_keys [OF assms(3)] filter_concat)
qed

theorem hash_semi_join_rows_witness:
  "\<exists>ds. hash_semi_join_execute demo_ops True (EList [EColumnIndex 0]) (EList [EColumnIndex 0]) ([int_chunk [1, 2, 3]], Finished) ([int_chunk [2, 2]], Finished) = (ds, Finished)
     \<and> rows_in ds = [[VInt32 1], [VInt32 3]]"
proof -
  have "eval_list demo_ops (EList [EColumnIndex 0]) (int_chunk xs) = Some (Inr (int_chunk xs))" for xs
    by (simp add: eval_list_def int_chunk_def index_at_def chunk_of_arrays_def rust_assert_def)
  then have "typed_batches [3] [int_chunk [1, 2, 3]]" "those (map (expr_variant [3]) [EColumnIndex 0 :: int expr]) = Some [3]"
    "key_inputs demo_ops (EList [EColumnIndex 0]) [int_chunk [2, 2]] = Some [[VInt32 2], [VInt32 2]]"
    by (simp_all add: typed_batches_def index_at_def dc_rows_eq)
  from hash_semi_join_rows [OF this, of True Finished] show ?thesis
    by (auto simp: has_key_def row_keys_def row_eval_list_def index_at_def keys_eq_def value_eq_def value_cmp_def cmp_of_def)
qed

end
