(* ===== verification/Memory_Storage.thy ===== *)
theory Memory_Storage
  imports Merge_Laws Catalog Rowsets
begin

text \<open>
  The in-memory storage (\<open>storage/memory/\<close>) and the executors that read and change tables
  (\<open>insert.rs\<close>, \<open>delete.rs\<close>, \<open>table_scan.rs\<close>, \<open>create_table.rs\<close>, \<open>drop.rs\<close>, \<open>create_view.rs\<close>). A table is a list of
  chunks with a set of deleted row numbers. A transaction works on the chunks and deletions it saw when it
  started and buffers its own changes; committing appends them to the table as it is then.
\<close>

section \<open>Tables\<close>

record 'd mem_inner =
  mi_chunks :: "'d data_chunk list"
  mi_deleted_rows :: "nat set"

definition mem_inner_new :: "'d mem_inner" where
  "mem_inner_new = \<lparr>mi_chunks = [], mi_deleted_rows = {}\<rparr>"

definition mi_append :: "'d data_chunk \<Rightarrow> 'd mem_inner \<Rightarrow> 'd mem_inner" where
  "mi_append chunk inner = inner\<lparr>mi_chunks := mi_chunks inner @ [chunk]\<rparr>"

definition mi_delete :: "nat \<Rightarrow> 'd mem_inner \<Rightarrow> 'd mem_inner" where
  "mi_delete row_id inner = inner\<lparr>mi_deleted_rows := insert row_id (mi_deleted_rows inner)\<rparr>"

record 'd mem_table =
  mt_table_ref_id :: table_ref_id
  mt_columns :: "column_catalog list"
  mt_inner :: "'d mem_inner"
  mt_ordered_pk_ids :: "nat list"

definition mt_new :: "table_ref_id \<Rightarrow> column_catalog list \<Rightarrow> 'd mem_table" where
  "mt_new r columns = \<lparr>mt_table_ref_id = r, mt_columns = columns, mt_inner = mem_inner_new, mt_ordered_pk_ids = []\<rparr>"

section \<open>Transactions\<close>

record 'd mem_txn =
  mx_finished :: bool
  mx_buffer :: "'d data_chunk list"
  mx_delete_buffer :: "nat list"
  mx_snapshot :: "'d data_chunk list"
  mx_deleted_rows :: "nat set"
  mx_ordered_pk_idx :: "nat list"

definition mx_start :: "'d mem_table \<Rightarrow> 'd mem_txn option" where
  "mx_start t = do {
     idx \<leftarrow> those (map (\<lambda>i. position (\<lambda>c. cc_id c = i) (mt_columns t)) (mt_ordered_pk_ids t));
     Some \<lparr>mx_finished = False, mx_buffer = [], mx_delete_buffer = [], mx_snapshot = mi_chunks (mt_inner t),
           mx_deleted_rows = mi_deleted_rows (mt_inner t), mx_ordered_pk_idx = idx\<rparr> }"

definition mx_append :: "'d data_chunk \<Rightarrow> 'd mem_txn \<Rightarrow> 'd mem_txn" where
  "mx_append columns x = x\<lparr>mx_buffer := mx_buffer x @ [columns]\<rparr>"

definition mx_delete :: "nat \<Rightarrow> 'd mem_txn \<Rightarrow> 'd mem_txn" where
  "mx_delete row_id x = x\<lparr>mx_delete_buffer := mx_delete_buffer x @ [row_id]\<rparr>"

definition mx_commit :: "'d mem_txn \<Rightarrow> 'd mem_inner \<Rightarrow> 'd mem_inner" where
  "mx_commit x inner = fold mi_delete (mx_delete_buffer x) (fold mi_append (mx_buffer x) inner)"

text \<open>The handle of a row is its number, read from a column of integers.\<close>

definition mem_row_handler :: "'d array_impl \<Rightarrow> nat \<Rightarrow> nat option" where
  "mem_row_handler column idx =
     (case column of
        AInt64 a \<Rightarrow> do { v \<leftarrow> pa_get a idx; x \<leftarrow> v; Some (nat (x mod 2 ^ 64)) }
      | _ \<Rightarrow> None)"

section \<open>Scanning\<close>

text \<open>The visible rows of one chunk, given the number of its first row.\<close>

definition mem_column :: "nat \<Rightarrow> bool list \<Rightarrow> 'd data_chunk \<Rightarrow> storage_column_ref \<Rightarrow> 'd array_impl option" where
  "mem_column row_cnt visibility chunk r =
     (case r of
        Idx i \<Rightarrow> do { a \<leftarrow> index_at (dc_arrays chunk) i; ai_filter visibility a }
      | RowHandler \<Rightarrow> ai_filter visibility (AInt64 (pa_collect (map int [row_cnt..<row_cnt + dc_cardinality chunk]))))"

definition mem_batch :: "nat set \<Rightarrow> storage_column_ref list \<Rightarrow> nat \<Rightarrow> 'd data_chunk \<Rightarrow> 'd data_chunk option" where
  "mem_batch deleted col_idx row_cnt chunk =
     (let visibility = map (\<lambda>x. x \<notin> deleted) [row_cnt..<row_cnt + dc_cardinality chunk]
      in if col_idx = [] then Some (chunk_no_column (length (filter id visibility)))
         else do { arrays \<leftarrow> those (map (mem_column row_cnt visibility chunk) col_idx); chunk_of_arrays arrays })"

record 'd mem_iter =
  mit_chunks :: "'d data_chunk list"
  mit_deleted_rows :: "nat set"
  mit_col_idx :: "storage_column_ref list"
  mit_cnt :: nat
  mit_row_cnt :: nat

definition mit_next_batch :: "'d mem_iter \<Rightarrow> ('d data_chunk option \<times> 'd mem_iter) option" where
  "mit_next_batch it =
     (if mit_cnt it \<ge> length (mit_chunks it) then Some (None, it)
      else do {
        selected_chunk \<leftarrow> index_at (mit_chunks it) (mit_cnt it);
        c \<leftarrow> mem_batch (mit_deleted_rows it) (mit_col_idx it) (mit_row_cnt it) selected_chunk;
        Some (Some c, it\<lparr>mit_cnt := mit_cnt it + 1, mit_row_cnt := mit_row_cnt it + dc_cardinality selected_chunk\<rparr>) })"

record 'd scan_options =
  so_is_sorted :: bool
  so_reversed :: bool
  so_filter :: "('d data_value bound \<times> 'd data_value bound) option"

text \<open>Sorting by primary key is an argument: tables are created without ordered key columns, so it is never called.\<close>

definition mx_scan ::
  "('d data_chunk list \<Rightarrow> nat list \<Rightarrow> 'd data_chunk list) \<Rightarrow> storage_column_ref list \<Rightarrow> 'd scan_options \<Rightarrow> 'd mem_txn \<Rightarrow> 'd mem_iter option" where
  "mx_scan sort_by_pk col_idx opts x = do {
     rust_assert (so_filter opts = None);
     rust_assert (\<not> so_reversed opts);
     Some \<lparr>mit_chunks = (if so_is_sorted opts \<and> mx_ordered_pk_idx x \<noteq> [] then sort_by_pk (mx_snapshot x) (mx_ordered_pk_idx x) else mx_snapshot x),
           mit_deleted_rows = mx_deleted_rows x, mit_col_idx = col_idx, mit_cnt = 0, mit_row_cnt = 0\<rparr> }"

section \<open>The storage\<close>

record ('d, 'q, 'x) mem_storage =
  ms_catalog :: "('q, 'x) root_catalog"
  ms_tables :: "table_ref_id \<rightharpoonup> 'd mem_table"

definition ms_create_table ::
  "nat \<Rightarrow> string \<Rightarrow> column_catalog list \<Rightarrow> nat list \<Rightarrow> ('d, 'q, 'x) mem_storage \<Rightarrow> ('d exec_error + ('d, 'q, 'x) mem_storage) option" where
  "ms_create_table schema_id table_name column_descs ordered_pk_ids s =
     (case rc_schemas (ms_catalog s) schema_id of
        None \<Rightarrow> Some (Inl (ErrStorage ''schema''))
      | Some schema \<Rightarrow>
          if schema_get_table_by_name table_name schema \<noteq> None then Some (Inl (ErrStorage table_name))
          else (case rc_add_table schema_id table_name column_descs ordered_pk_ids (ms_catalog s) of
                  None \<Rightarrow> None
                | Some (Inl _) \<Rightarrow> Some (Inl (ErrStorage table_name))
                | Some (Inr (table_id, catalog)) \<Rightarrow>
                    (let r = \<lparr>tr_schema_id = schema_id, tr_table_id = table_id\<rparr>
                     in Some (Inr (s\<lparr>ms_catalog := catalog, ms_tables := (ms_tables s)(r \<mapsto> mt_new r column_descs)\<rparr>)))))"

definition ms_get_table :: "table_ref_id \<Rightarrow> ('d, 'q, 'x) mem_storage \<Rightarrow> 'd exec_error + 'd mem_table" where
  "ms_get_table r s = (case ms_tables s r of Some t \<Rightarrow> Inr t | None \<Rightarrow> Inl (ErrStorage ''table''))"

definition ms_drop_table :: "table_ref_id \<Rightarrow> ('d, 'q, 'x) mem_storage \<Rightarrow> ('d exec_error + ('d, 'q, 'x) mem_storage) option" where
  "ms_drop_table r s =
     (case ms_tables s r of
        None \<Rightarrow> Some (Inl (ErrStorage ''table''))
      | Some _ \<Rightarrow> do {
          catalog \<leftarrow> rc_drop_table r (ms_catalog s);
          Some (Inr (s\<lparr>ms_catalog := catalog, ms_tables := (ms_tables s)(r := None)\<rparr>)) })"

text \<open>
  Committing to a table of the storage: a transaction shares the table's contents with the storage, so its changes go
  to the table as it is at the commit. A table that was dropped meanwhile is reached by nobody else.
\<close>

definition ms_commit :: "table_ref_id \<Rightarrow> 'd mem_txn \<Rightarrow> ('d, 'q, 'x) mem_storage \<Rightarrow> ('d, 'q, 'x) mem_storage" where
  "ms_commit r x s =
     (case ms_tables s r of
        Some t \<Rightarrow> s\<lparr>ms_tables := (ms_tables s)(r \<mapsto> t\<lparr>mt_inner := mx_commit x (mt_inner t)\<rparr>)\<rparr>
      | None \<Rightarrow> s)"

section \<open>Executors\<close>

function scan_stream :: "bool \<Rightarrow> 'd mem_iter \<Rightarrow> 'd stream" where
  "scan_stream no_columns it =
     (case mit_next_batch it of
        None \<Rightarrow> ([], Panicked)
      | Some (None, it') \<Rightarrow> ([], Finished)
      | Some (Some x, it') \<Rightarrow> emit [if no_columns then chunk_no_column (dc_cardinality x) else x] (scan_stream no_columns it'))"
  by pat_completeness auto
termination
  by (relation "measure (\<lambda>(_, it). length (mit_chunks it) - mit_cnt it)")
    (auto simp: mit_next_batch_def split: if_splits Option.bind_splits)

declare scan_stream.simps [simp del]

definition scan_refs :: "column_ref_id list \<Rightarrow> storage_column_ref list" where
  "scan_refs columns =
     map (\<lambda>c. if cr_column_id c = 2 ^ 32 - 1 then RowHandler else Idx (cr_column_id c)) columns @ (if columns = [] then [RowHandler] else [])"

definition table_scan_execute ::
  "('d data_chunk list \<Rightarrow> nat list \<Rightarrow> 'd data_chunk list) \<Rightarrow> table_ref_id \<Rightarrow> column_ref_id list
   \<Rightarrow> ('d data_value bound \<times> 'd data_value bound) option \<Rightarrow> ('d, 'q, 'x) mem_storage \<Rightarrow> 'd stream" where
  "table_scan_execute sort_by_pk table_id columns key_filter s =
     (case ms_get_table table_id s of
        Inl e \<Rightarrow> ([], Failed e)
      | Inr t \<Rightarrow>
          run_opt (mx_start t) (\<lambda>txn.
            run_opt (mx_scan sort_by_pk (scan_refs columns) \<lparr>so_is_sorted = False, so_reversed = False, so_filter = key_filter\<rparr> txn)
              (scan_stream (columns = []))))"

definition insert_expr :: "column_catalog list \<Rightarrow> nat list \<Rightarrow> 'd expr" where
  "insert_expr columns column_ids =
     EList (map (\<lambda>col. ECast (EType (cd_data_type (cc_desc col)))
       (case position (\<lambda>i. i = cc_id col) column_ids of Some index \<Rightarrow> EColumnIndex index | None \<Rightarrow> EConstant VNull)) columns)"

definition insert_chunk :: "'d::linorder conv_ops \<Rightarrow> 'd expr \<Rightarrow> 'd data_chunk \<Rightarrow> nat \<times> 'd mem_txn \<Rightarrow> ('d convert_error + nat \<times> 'd mem_txn) option" where
  "insert_chunk X expr c st =
     and_then (eval_list X expr c) (\<lambda>d. Some (Inr (fst st + dc_cardinality d, mx_append d (snd st))))"

definition insert_execute ::
  "'d::linorder conv_ops \<Rightarrow> table_ref_id \<Rightarrow> nat list \<Rightarrow> 'd stream \<Rightarrow> ('d, 'q, 'x) mem_storage \<Rightarrow> 'd stream \<times> ('d, 'q, 'x) mem_storage" where
  "insert_execute X table_id column_ids child s =
     (case ms_get_table table_id s of
        Inl e \<Rightarrow> (([], Failed e), s)
      | Inr t \<Rightarrow>
          (case mx_start t of
             None \<Rightarrow> (([], Panicked), s)
           | Some txn \<Rightarrow>
               (case consume (insert_chunk X (insert_expr (mt_columns t) column_ids)) (fst child) (snd child) (0, txn) of
                  Inl e \<Rightarrow> (([], e), s)
                | Inr (cnt, txn) \<Rightarrow> (([chunk_single (as_i32 cnt)], Finished), ms_commit table_id txn s))))"

definition delete_chunk :: "'d data_chunk \<Rightarrow> nat \<times> 'd mem_txn \<Rightarrow> ('d convert_error + nat \<times> 'd mem_txn) option" where
  "delete_chunk c st = ok (do {
     last_column \<leftarrow> checked_sub (length (dc_arrays c)) 1;
     row_handlers \<leftarrow> index_at (dc_arrays c) last_column;
     txn \<leftarrow> fold_opt (\<lambda>i txn. do { h \<leftarrow> mem_row_handler row_handlers i; Some (mx_delete h txn) }) [0..<ai_len row_handlers] (snd st);
     Some (fst st + dc_cardinality c, txn) })"

definition delete_execute ::
  "table_ref_id \<Rightarrow> 'd stream \<Rightarrow> ('d, 'q, 'x) mem_storage \<Rightarrow> 'd stream \<times> ('d, 'q, 'x) mem_storage" where
  "delete_execute table_id child s =
     (case ms_get_table table_id s of
        Inl e \<Rightarrow> (([], Failed e), s)
      | Inr t \<Rightarrow>
          (case mx_start t of
             None \<Rightarrow> (([], Panicked), s)
           | Some txn \<Rightarrow>
               (case consume delete_chunk (fst child) (snd child) (0, txn) of
                  Inl e \<Rightarrow> (([], e), s)
                | Inr (cnt, txn) \<Rightarrow> (([chunk_single (as_i32 cnt)], Finished), ms_commit table_id txn s))))"

definition create_table_execute ::
  "nat \<Rightarrow> string \<Rightarrow> column_catalog list \<Rightarrow> nat list \<Rightarrow> ('d, 'q, 'x) mem_storage \<Rightarrow> 'd stream \<times> ('d, 'q, 'x) mem_storage" where
  "create_table_execute schema_id name columns ordered_pk_ids s =
     (case ms_create_table schema_id name columns ordered_pk_ids s of
        None \<Rightarrow> (([], Panicked), s)
      | Some (Inl e) \<Rightarrow> (([], Failed e), s)
      | Some (Inr s') \<Rightarrow> (([chunk_single 1], Finished), s'))"

fun drop_execute :: "table_ref_id list \<Rightarrow> ('d, 'q, 'x) mem_storage \<Rightarrow> 'd stream \<times> ('d, 'q, 'x) mem_storage" where
  "drop_execute [] s = (([chunk_single 1], Finished), s)"
| "drop_execute (r # rs) s =
     (case rc_get_table r (ms_catalog s) of
        None \<Rightarrow> (([], Panicked), s)
      | Some t \<Rightarrow>
          if is_view t
          then (case rc_drop_table r (ms_catalog s) of
                  None \<Rightarrow> (([], Panicked), s)
                | Some c \<Rightarrow> drop_execute rs (s\<lparr>ms_catalog := c\<rparr>))
          else (case ms_drop_table r s of
                  None \<Rightarrow> (([], Panicked), s)
                | Some (Inl e) \<Rightarrow> (([], Failed e), s)
                | Some (Inr s') \<Rightarrow> drop_execute rs s'))"

definition create_view_execute :: "nat \<Rightarrow> string \<Rightarrow> column_catalog list \<Rightarrow> 'q \<Rightarrow> ('d, 'q, 'x) mem_storage \<Rightarrow> 'd stream \<times> ('d, 'q, 'x) mem_storage" where
  "create_view_execute schema_id name columns query s =
     (case rc_add_view schema_id name columns query (ms_catalog s) of
        None \<Rightarrow> (([], Panicked), s)
      | Some (Inl e) \<Rightarrow> (([], Failed (ErrCatalog name)), s)
      | Some (Inr (_, c)) \<Rightarrow> (([chunk_single 1], Finished), s\<lparr>ms_catalog := c\<rparr>))"

text \<open>
  Every executor runs in a task of its own that hands its items to the subscribers. When the task panics, its
  sender is dropped: the subscribers see the end of the stream, and nobody asks the task for its outcome.
\<close>

definition spawn :: "'d stream \<Rightarrow> 'd stream" where
  "spawn s = (fst s, case snd s of Panicked \<Rightarrow> Finished | e \<Rightarrow> e)"

end
