(* ===== verification/Memory_Laws.thy ===== *)
theory Memory_Laws
  imports Memory_Storage
begin

text \<open>
  What statements on the in-memory storage do to the rows of a table. A table shows its rows that are
  not deleted, in order of insertion; a scan yields them, an insertion adds rows at the end, and deleting the
  rows a filtered scan yields leaves those for which the condition is false or null. A running
  transaction keeps seeing the rows of its start.
\<close>

section \<open>The rows of a table\<close>








section \<open>Scans\<close>














section \<open>Insertion\<close>





























section \<open>Deletion\<close>




lemma ok_not_error: "ok r \<noteq> Some (Inl e)"
  by (cases r) simp_all














section \<open>Concrete tables\<close>

definition demo_ref :: table_ref_id where
  "demo_ref = \<lparr>tr_schema_id = 1, tr_table_id = 0\<rparr>"

definition demo_table :: "int data_chunk list \<Rightarrow> nat set \<Rightarrow> int mem_table" where
  "demo_table cs deleted = (mt_new demo_ref [\<lparr>cc_id = 0, cc_desc = column_desc_new ''v'' TInt32 False\<rparr>])
     \<lparr>mt_inner := \<lparr>mi_chunks = cs, mi_deleted_rows = deleted\<rparr>\<rparr>"

definition demo_storage :: "int data_chunk list \<Rightarrow> nat set \<Rightarrow> (int, unit, unit) mem_storage" where
  "demo_storage cs deleted = \<lparr>ms_catalog = \<lparr>rc_schema_idxs = Map.empty, rc_schemas = Map.empty, rc_next_schema_id = 0\<rparr>,
     ms_tables = [demo_ref \<mapsto> demo_table cs deleted]\<rparr>"





definition rem_query :: "int expr" where
  "rem_query = EList [EBinary (BArith OpRem) (EConstant (VInt32 5)) (EColumnIndex 0)]"

lemma rem_query_eval: "eval_list demo_ops rem_query (int_chunk [2]) = Some (Inr (int_chunk [1]))"
  "eval_list demo_ops rem_query (int_chunk [0]) = None"
  "eval_list demo_ops (insert_expr [\<lparr>cc_id = 0, cc_desc = column_desc_new ''v'' TInt32 False\<rparr>] [0]) (int_chunk [1]) = Some (Inr (int_chunk [1]))"
  "eval_list demo_ops (insert_expr [\<lparr>cc_id = 0, cc_desc = column_desc_new ''v'' TInt32 False\<rparr>] []) (int_chunk [1])
     = Some (Inr \<lparr>dc_arrays = [AInt32 (ints [None])], dc_cardinality = 1\<rparr>)"
  by code_simp+

lemma int_chunk_size [simp]: "dc_cardinality (int_chunk xs) = length xs"
  by (simp add: int_chunk_def)

lemmas insert_steps = rem_query_eval insert_execute_def ms_get_table_def mx_start_def demo_table_def mt_new_def
  insert_chunk_def mx_append_def ms_commit_def mx_commit_def mi_append_def demo_storage_def as_i32_def consume_end_def


text \<open>A column declared NOT NULL and left out of an insertion is stored as NULL.\<close>

lemma not_null_not_enforced:
  "\<not> cd_is_nullable (cc_desc (hd (mt_columns (demo_table [] {}))))
   \<and> insert_execute demo_ops demo_ref [] ([int_chunk [1]], Finished) (demo_storage [] {})
     = (([chunk_single 1], Finished), demo_storage [\<lparr>dc_arrays = [AInt32 (ints [None])], dc_cardinality = 1\<rparr>] {})"
proof
  show "\<not> cd_is_nullable (cc_desc (hd (mt_columns (demo_table [] {}))))" by (simp add: demo_table_def mt_new_def column_desc_new_def)
qed (simp add: insert_steps)

end
