(* ===== verification/Spec2Isabelle.thy ===== *)
theory Spec2Isabelle
  imports Engine Table_Scan Memory_Laws
begin

text \<open>
  Verification of RisingLight, an analytical SQL database written in Rust. File names below are relative
  to the crate's source directory.

  \<^bold>\<open>The program.\<close> A statement is parsed, bound against the catalog (\<open>catalog/\<close>), optimised and turned
  into a tree of executors (\<open>executor/\<close>) that exchange chunks of column arrays (\<open>array/\<close>). Tables live in
  the secondary storage engine (\<open>storage/secondary/\<close>): a table is a set of immutable row sets, a row set is
  one file pair per column, a column is a sequence of encoded blocks with an index. Rows are deleted by
  delete vectors. A version manager publishes snapshots of which row sets and delete vectors exist, pins
  them for readers and reclaims what no snapshot needs; a manifest file logs its changes and the creation
  and removal of tables, and opening a database replays it.

  \<^bold>\<open>Conventions.\<close> A panic is \<open>None\<close> of an option result, an error value the left injection of a sum. Sizes
  are natural numbers; 32- and 64-bit counters are natural numbers whose additions are checked, and
  values whose bits matter are words. Generic Rust code becomes definitions over a record of operations
  (\<open>fixed_width\<close>, \<open>block_builder\<close>, \<open>block_iter\<close>, \<open>family\<close>, \<open>column_ops\<close>). Code outside the repository
  is an argument: the checksum function, the protobuf and JSON coding, the decimal package, the calendar,
  the arithmetic of doubles, the block cache, the iteration order of hash maps, the sort of the standard
  library, the heap package, regular expressions, the opening of files. Hash maps are partial functions. Loops are recursive functions with a measure; loops whose end
  depends on the data are \<open>partial_function (option)\<close>, and the theorems show that they return. The fuel of
  a scan (\<open>rsi_scan\<close>, \<open>scan_all\<close>, \<open>txn_scan\<close>) bounds the batches; each batch has at least one row, so the
  number of rows plus one suffices, and the theorems use exactly that.

  \<^bold>\<open>The theories\<close>, in the order of the code's layers:

  \<^item> \<open>Prelude\<close>: checked access, byte buffers, comparison results, list and option lemmas.
  \<^item> \<open>Intervals\<close>, \<open>Types\<close>, \<open>Values\<close> (\<open>types/\<close>): intervals; data types with their order, union and text;
    dates, SQL values, their order, arithmetic, minimum and maximum.
  \<^item> \<open>Codec\<close> (\<open>encode.rs\<close>): the fixed-width encodings; the locale \<open>fixed_width_law\<close> is the contract every
    generic block relies on, interpreted for each type.
  \<^item> \<open>Arrays\<close> (\<open>array/\<close>): primitive, variable-length and chunked arrays and their builders, refined to the
    list of optional values.
  \<^item> \<open>Block_Spec\<close>, \<open>Plain_Blocks\<close>, \<open>Var_Blocks\<close>, \<open>Nullable_Block\<close>, \<open>Rle_Block\<close>, \<open>Dict_Block\<close> (\<open>block.rs\<close>,
    \<open>block/\<close>): builders and iterators of every block format. The locales \<open>block_iterator\<close>,
    \<open>block_codec\<close> and \<open>reading_codec\<close> say what a block promises: what was appended is read back, in batches of any
    size, after any skips. Wrappers (nullable, run-length, dictionary) are proved once over any block that
    satisfies the contract.
  \<^item> \<open>Block_Index\<close> (\<open>checksum.rs\<close>, \<open>index.rs\<close>, \<open>index_builder.rs\<close>, \<open>column.rs\<close>): sealed blocks, index files,
    columns on disk; \<open>caches\<close> is what the block cache documents.
  \<^item> \<open>Encodings\<close>, \<open>Families\<close>, \<open>Column_Builder\<close>, \<open>Column_Iterator\<close>, \<open>Columns\<close> (\<open>column/\<close>): the six encodings
    of a column, the builder that cuts rows into blocks and the iterator that reads them; \<open>family_law\<close> is the
    contract of an element type, and from it every column round-trips.
  \<^item> \<open>Rowsets\<close>, \<open>Scans\<close>, \<open>Cursors\<close>, \<open>Merge_Heap\<close>, \<open>Merge_Iter\<close>, \<open>Table_Scan\<close> (\<open>delete_vector.rs\<close>,
    \<open>row_handler.rs\<close>, \<open>chunk.rs\<close>, \<open>rowset_iterator.rs\<close>, \<open>concat_iterator.rs\<close>, \<open>merge_iterator.rs\<close>,
    \<open>txn_iterator.rs\<close>): scanning. The locale \<open>column_cursor\<close> is what a row-set scan needs of its columns,
    \<open>chunk_source\<close> what a scan promises to its consumer; the row-set iterator provides it, concatenation
    keeps it, and the merge of sorted sources refines the abstract merge \<open>merge_run\<close>.
  \<^item> \<open>Bitmaps\<close>, \<open>Array_Impl\<close>, \<open>Texts\<close>, \<open>Array_Ops\<close>, \<open>Array_Cast\<close>, \<open>Array_Laws\<close> (\<open>array/mod.rs\<close>, \<open>array/ops.rs\<close>,
    \<open>array/internal_ext.rs\<close>, \<open>types/\<close>): validity bitmaps as words, the sum of arrays over all types, texts of
    values, the kernels and operators on whole arrays and the casts, with the row-by-row laws they satisfy.
  \<^item> \<open>Chunks\<close> (\<open>array/data_chunk.rs\<close>, \<open>array/data_chunk_builder.rs\<close>): chunks as lists of rows; what the
    builder gives out are the rows pushed into it.
  \<^item> \<open>Evaluator\<close>, \<open>Eval_Laws\<close> (\<open>planner/mod.rs\<close>, \<open>executor/evaluator.rs\<close>): expressions, their evaluation on a
    chunk and the aggregation states; \<open>row_eval\<close> is the value on one row, and evaluation computes it.
  \<^item> \<open>Executors\<close>, \<open>Exec_Laws\<close>, \<open>Sort_Laws\<close> (\<open>executor/limit.rs\<close>, \<open>filter.rs\<close>, \<open>projection.rs\<close>, \<open>order.rs\<close>,
    \<open>top_n.rs\<close>, \<open>values.rs\<close>): a stream is the chunks it yields and its ending; each executor maps streams to
    a stream, and the laws say which rows come out.
  \<^item> \<open>Aggregates\<close>, \<open>Agg_Laws\<close> (\<open>hash_agg.rs\<close>, \<open>sort_agg.rs\<close>, \<open>simple_agg.rs\<close>, \<open>window.rs\<close>): grouping; both
    algorithms agree where equal keys are adjacent.
  \<^item> \<open>Joins\<close>, \<open>Join_Laws\<close>, \<open>Merge_Laws\<close> (\<open>hash_join.rs\<close>, \<open>nested_loop_join.rs\<close>, \<open>merge_join.rs\<close>): the joins;
    \<open>join_spec\<close> lists the rows a join should yield, and hash and merge join yield them.
  \<^item> \<open>Memory_Storage\<close>, \<open>Memory_Laws\<close> (\<open>storage/memory/\<close>, \<open>executor/insert.rs\<close>, \<open>delete.rs\<close>, \<open>table_scan.rs\<close>,
    \<open>create_table.rs\<close>, \<open>drop.rs\<close>, \<open>create_view.rs\<close>): the in-memory storage with its transactions, and the executors
    that read and change tables; what is inserted is scanned, and what is deleted through a filter is gone.
  \<^item> \<open>Catalog\<close> (\<open>catalog/\<close>): schemas, tables, columns, indexes, functions and textual references.
  \<^item> \<open>Versions\<close> (\<open>version_manager.rs\<close>): snapshots, commits in two steps, pins and the vacuum, as a step
    relation over every interleaving.
  \<^item> \<open>Engine\<close> (\<open>manifest.rs\<close>, \<open>storage.rs\<close>, \<open>table.rs\<close>): the manifest, data definition, commits and recovery.

  \<^bold>\<open>What the theorems show.\<close> Storage: columns of every encoding are written without failure and read back;
  index files, references and type names round-trip; scans end and show exactly the rows that are not
  deleted, in row-set order or merged by sort key. Versions: the invariant holds in every interleaving, the
  vacuum never removes what a reader can see and removes everything else once nothing is pinned. Recovery:
  a run (\<open>engine_run\<close>) creates tables with success, drops tables, commits, rewrites row sets and reopens, without views and
  indexes; opening its manifest, also with an unfinished transaction at the end, restores its catalog, tables and snapshot, where the tables of
  live row sets exist. A failed creation and a view before a table make recovery fail, which two further theorems show. Catalog: operations keep it
  well-formed and do what they say. Queries: kernels and evaluation are row by row with three-valued
  logic; filters, limits, sorting, the top n, aggregation, joins and semi joins yield the rows their
  specification lists, for every split of their input into chunks; sortedness is stated by ascending and descending keys
  and dates by the Gregorian calendar, apart from the code's comparator and month table. Evaluation and filters are covered for columns, constants,
  arithmetic without division, comparisons, logic and IS NULL. Tables: scans, insertions and deletions
  compose as a list of rows would and leave every other table alone; their children run in tasks (\<open>spawn\<close>), where a panic ends
  the stream. The theorems of kind \<open>error\<close> state where the code departs from its
  intent, each on the model of the code as it is.

  \<^bold>\<open>Not modelled.\<close> The parser, the wire server, the command line and the Python bindings are
  interfaces to other packages. Binder and planner build and rewrite expressions of the \<open>egg\<close> package,
  whose e-graph is outside the repository. The transactions of the storage engine, the compactor, the
  row-set builder and the remaining executors of statements are not modelled.
\<close>

end
